(* ===== verification/Prelude.thy ===== *)
theory Prelude
  imports Main "HOL-Library.Word"
begin

text \<open>
  Shared vocabulary of the development: the outcomes of C code (a fault or a value),
  sequencing of such outcomes, the fixed-width integer types of \<^verbatim>\<open>rtdef.h\<close>, the
  alignment macros, and the generic list and map lemmas used by several components.
\<close>

section \<open>Outcomes of C code\<close>

text \<open>
  A C operation either faults or yields a value. The faults are the ways the modelled code can
  go wrong at run time; \<open>OutOfFuel\<close> is not a fault of the machine but says that a loop has
  used up the number of iterations it was given, so a loop that yields \<open>OutOfFuel\<close> for every
  number of iterations does not return.
\<close>

datatype cfault =
    NullDeref        \<comment> \<open>a load or store through \<open>RT_NULL\<close>\<close>
  | WildDeref        \<comment> \<open>a load or store through a pointer to no object of that type\<close>
  | OutOfBounds      \<comment> \<open>an access outside the object a pointer points into\<close>
  | AssertFail       \<comment> \<open>\<open>RT_ASSERT\<close> stops the system\<close>
  | SignedOverflow   \<comment> \<open>signed arithmetic leaves the range of its type\<close>
  | OutOfFuel        \<comment> \<open>the loop has not finished within the given iterations\<close>

type_synonym 'a cres = "cfault + 'a"

definition cbind :: "'a cres \<Rightarrow> ('a \<Rightarrow> 'b cres) \<Rightarrow> 'b cres" where
  "cbind m f = (case m of Inl e \<Rightarrow> Inl e | Inr x \<Rightarrow> f x)"

definition rt_assert :: "bool \<Rightarrow> unit cres" where
  "rt_assert b = (if b then Inr () else Inl AssertFail)"

named_theorems cres_simps \<open>evaluation of sequenced outcomes\<close>

lemma cbind_Inr [simp, cres_simps]: "cbind (Inr x) f = f x"
  by (simp add: cbind_def)

lemma cbind_Inl [simp, cres_simps]: "cbind (Inl e) f = Inl e"
  by (simp add: cbind_def)

lemma cbind_assoc [cres_simps]: "cbind (cbind m f) g = cbind m (\<lambda>x. cbind (f x) g)"
  by (cases m) simp_all

lemma cbind_eq_Inr: "cbind m f = Inr y \<longleftrightarrow> (\<exists>x. m = Inr x \<and> f x = Inr y)"
  by (cases m) auto

lemma cbind_eq_InrE:
  assumes "cbind m f = Inr y"
  obtains x where "m = Inr x" and "f x = Inr y"
  using assms by (auto simp: cbind_eq_Inr)

lemma rt_assert_True [simp, cres_simps]: "rt_assert True = Inr ()"
  by (simp add: rt_assert_def)

lemma rt_assert_eq_Inr [simp]: "rt_assert b = Inr u \<longleftrightarrow> b"
  by (simp add: rt_assert_def)

lemma cbind_cong [fundef_cong]:
  "m = m' \<Longrightarrow> (\<And>x. m' = Inr x \<Longrightarrow> f x = f' x) \<Longrightarrow> cbind m f = cbind m' f'"
  by (cases m') auto

section \<open>Fixed-width integers and alignment\<close>

type_synonym u8 = "8 word"
type_synonym u16 = "16 word"
type_synonym u32 = "32 word"

text \<open>Pointers are numbers; \<open>0\<close> is \<open>RT_NULL\<close>.\<close>

type_synonym ptr = nat

abbreviation (input) RT_NULL :: ptr where "RT_NULL \<equiv> 0"

text \<open>\<open>RT_ALIGN\<close> and \<open>RT_ALIGN_DOWN\<close> with \<open>RT_ALIGN_SIZE = 4\<close>
  (\<^verbatim>\<open>rtconfig.h\<close>, \<^verbatim>\<open>rtdef.h\<close>), on 32-bit values.\<close>

definition RT_ALIGN4 :: "nat \<Rightarrow> nat" where
  "RT_ALIGN4 n = ((n + 3) mod 2 ^ 32) div 4 * 4"

definition RT_ALIGN_DOWN4 :: "nat \<Rightarrow> nat" where
  "RT_ALIGN_DOWN4 n = n div 4 * 4"

lemma RT_ALIGN4_ge: "n \<le> 2 ^ 32 - 4 \<Longrightarrow> n \<le> RT_ALIGN4 n"
  unfolding RT_ALIGN4_def by simp

lemma RT_ALIGN4_less: "n \<le> 2 ^ 32 - 4 \<Longrightarrow> RT_ALIGN4 n < n + 4"
  unfolding RT_ALIGN4_def by simp

lemma RT_ALIGN4_dvd [simp]: "4 dvd RT_ALIGN4 n"
  by (simp add: RT_ALIGN4_def)

lemma RT_ALIGN_DOWN4_dvd [simp]: "4 dvd RT_ALIGN_DOWN4 n"
  by (simp add: RT_ALIGN_DOWN4_def)

lemma RT_ALIGN_DOWN4_le: "RT_ALIGN_DOWN4 n \<le> n"
  by (simp add: RT_ALIGN_DOWN4_def)

section \<open>Generic lemmas\<close>

lemma distinct_removeAll_hd: "distinct (x # xs) \<Longrightarrow> removeAll x (x # xs) = xs"
  by simp

lemma remove1_distinct_set [simp]: "distinct xs \<Longrightarrow> set (remove1 x xs) = set xs - {x}"
  by (rule set_remove1_eq)

lemma last_conv_hd_rev: "last xs = hd (rev xs)"
  by (simp add: hd_rev)

lemma take_length_append [simp]: "take (length xs) (xs @ ys) = xs"
  by simp

lemma mod_once: "i < sz \<Longrightarrow> k \<le> sz \<Longrightarrow> (i + k) mod sz = (if i + k < sz then i + k else i + k - sz)" for i k sz :: nat
  by (simp add: mod_if)

end
