(* ===== verification/Klist.thy ===== *)
theory Klist
  imports Prelude
begin

text \<open>
  The intrusive lists of \<^verbatim>\<open>rt-thread/include/rtservice.h\<close>: every operation on the circular
  doubly linked \<open>rt_list_t\<close>, over an explicit store of
  \<open>next\<close>/\<open>prev\<close> fields, because client code of the repository relies on (and breaks on) the
  aliasing between lists. \<open>clist\<close> relates a head node to the sequence of nodes on its list.
\<close>

section \<open>The store\<close>

text \<open>\<open>struct rt_list_node { next; prev }\<close>: the two fields of the nodes that exist.\<close>

record list_heap =
  nx :: "ptr \<rightharpoonup> ptr"
  pv :: "ptr \<rightharpoonup> ptr"

definition load :: "(ptr \<rightharpoonup> ptr) \<Rightarrow> ptr \<Rightarrow> ptr cres" where
  "load f p = (if p = RT_NULL then Inl NullDeref
               else case f p of None \<Rightarrow> Inl WildDeref | Some q \<Rightarrow> Inr q)"

definition store :: "(ptr \<rightharpoonup> ptr) \<Rightarrow> ptr \<Rightarrow> ptr \<Rightarrow> (ptr \<rightharpoonup> ptr) cres" where
  "store f p q = (if p = RT_NULL then Inl NullDeref
                  else case f p of None \<Rightarrow> Inl WildDeref | Some _ \<Rightarrow> Inr (f(p \<mapsto> q)))"

definition set_next :: "list_heap \<Rightarrow> ptr \<Rightarrow> ptr \<Rightarrow> list_heap cres" where
  "set_next h p q = cbind (store (nx h) p q) (\<lambda>f. Inr (h\<lparr>nx := f\<rparr>))"

definition set_prev :: "list_heap \<Rightarrow> ptr \<Rightarrow> ptr \<Rightarrow> list_heap cres" where
  "set_prev h p q = cbind (store (pv h) p q) (\<lambda>f. Inr (h\<lparr>pv := f\<rparr>))"

section \<open>Operations on \<open>rt_list_t\<close>\<close>

definition rt_list_init :: "list_heap \<Rightarrow> ptr \<Rightarrow> list_heap cres" where
  "rt_list_init h l = cbind (set_prev h l l) (\<lambda>h. set_next h l l)"

definition rt_list_insert_after :: "list_heap \<Rightarrow> ptr \<Rightarrow> ptr \<Rightarrow> list_heap cres" where
  "rt_list_insert_after h l n =
     cbind (load (nx h) l) (\<lambda>q. cbind (set_prev h q n) (\<lambda>h.
     cbind (load (nx h) l) (\<lambda>q. cbind (set_next h n q) (\<lambda>h.
     cbind (set_next h l n) (\<lambda>h. set_prev h n l)))))"

definition rt_list_insert_before :: "list_heap \<Rightarrow> ptr \<Rightarrow> ptr \<Rightarrow> list_heap cres" where
  "rt_list_insert_before h l n =
     cbind (load (pv h) l) (\<lambda>q. cbind (set_next h q n) (\<lambda>h.
     cbind (load (pv h) l) (\<lambda>q. cbind (set_prev h n q) (\<lambda>h.
     cbind (set_prev h l n) (\<lambda>h. set_next h n l)))))"

definition rt_list_remove :: "list_heap \<Rightarrow> ptr \<Rightarrow> list_heap cres" where
  "rt_list_remove h n =
     cbind (load (nx h) n) (\<lambda>q. cbind (load (pv h) n) (\<lambda>p. cbind (set_prev h q p) (\<lambda>h.
     cbind (load (pv h) n) (\<lambda>p. cbind (load (nx h) n) (\<lambda>q. cbind (set_next h p q) (\<lambda>h.
     cbind (set_prev h n n) (\<lambda>h. set_next h n n)))))))"

definition rt_list_isempty :: "list_heap \<Rightarrow> ptr \<Rightarrow> bool cres" where
  "rt_list_isempty h l = cbind (load (nx h) l) (\<lambda>q. Inr (q = l))"

text \<open>\<open>rt_list_len\<close>: the loop \<open>while (p->next != l)\<close>, with the iterations it may take.\<close>

fun list_len_loop :: "nat \<Rightarrow> list_heap \<Rightarrow> ptr \<Rightarrow> ptr \<Rightarrow> u32 \<Rightarrow> u32 cres" where
  "list_len_loop 0 h l p len = Inl OutOfFuel"
| "list_len_loop (Suc fuel) h l p len =
     cbind (load (nx h) p) (\<lambda>q. if q \<noteq> l then list_len_loop fuel h l q (len + 1) else Inr len)"

definition rt_list_len :: "nat \<Rightarrow> list_heap \<Rightarrow> ptr \<Rightarrow> u32 cres" where
  "rt_list_len fuel h l = list_len_loop fuel h l l 0"

section \<open>Circular lists\<close>

text \<open>Each element of a sequence of nodes points to the one after it.\<close>

fun chain :: "(ptr \<rightharpoonup> ptr) \<Rightarrow> ptr list \<Rightarrow> bool" where
  "chain f (a # b # xs) \<longleftrightarrow> f a = Some b \<and> chain f (b # xs)"
| "chain f _ \<longleftrightarrow> True"

definition clist :: "list_heap \<Rightarrow> ptr \<Rightarrow> ptr list \<Rightarrow> bool" where
  "clist h l xs \<longleftrightarrow> distinct (l # xs) \<and> (\<forall>p \<in> set (l # xs). p \<noteq> RT_NULL)
     \<and> chain (nx h) (l # xs @ [l]) \<and> chain (pv h) (l # rev xs @ [l])"

definition node_at :: "list_heap \<Rightarrow> ptr \<Rightarrow> bool" where
  "node_at h p \<longleftrightarrow> p \<noteq> RT_NULL \<and> p \<in> dom (nx h) \<and> p \<in> dom (pv h)"

lemma chain_append: "chain f (xs @ a # ys) \<longleftrightarrow> chain f (xs @ [a]) \<and> chain f (a # ys)"
proof (induction xs)
  case Nil
  then show ?case by simp
next
  case (Cons x xs)
  then show ?case by (cases xs) auto
qed

lemma chain_upd [simp]: "a \<notin> set (butlast xs) \<Longrightarrow> chain (f(a := v)) xs = chain f xs"
  by (induction f xs rule: chain.induct) (auto split: if_splits)

lemma chain_snoc: "xs \<noteq> [] \<Longrightarrow> chain f (xs @ [a]) \<longleftrightarrow> chain f xs \<and> f (last xs) = Some a"
  by (induction f xs rule: chain.induct) auto

lemma chain_dom: "chain f xs \<Longrightarrow> set (butlast xs) \<subseteq> dom f"
  by (induction f xs rule: chain.induct) auto

lemma load_Some [simp]: "f p = Some q \<Longrightarrow> p \<noteq> RT_NULL \<Longrightarrow> load f p = Inr q"
  by (simp add: load_def)

lemma store_dom [simp]: "p \<in> dom f \<Longrightarrow> p \<noteq> RT_NULL \<Longrightarrow> store f p q = Inr (f(p \<mapsto> q))"
  by (auto simp: store_def split: option.splits)

lemma set_next_node [simp]:
  "p \<in> dom (nx h) \<Longrightarrow> p \<noteq> RT_NULL \<Longrightarrow> set_next h p q = Inr (h\<lparr>nx := (nx h)(p \<mapsto> q)\<rparr>)"
  by (simp add: set_next_def)

lemma set_prev_node [simp]:
  "p \<in> dom (pv h) \<Longrightarrow> p \<noteq> RT_NULL \<Longrightarrow> set_prev h p q = Inr (h\<lparr>pv := (pv h)(p \<mapsto> q)\<rparr>)"
  by (simp add: set_prev_def)

text \<open>What the head and the neighbours of a circular list are.\<close>

lemma clist_next_head: "clist h l xs \<Longrightarrow> nx h l = Some (hd (xs @ [l]))"
  by (cases xs) (auto simp: clist_def)

lemma clist_prev_head: "clist h l xs \<Longrightarrow> pv h l = Some (last (l # xs))"
  by (cases xs rule: rev_cases) (auto simp: clist_def)

lemma clist_nodes: "clist h l xs \<Longrightarrow> p \<in> set (l # xs) \<Longrightarrow> node_at h p"
  using chain_dom [of "nx h" "l # xs @ [l]"] chain_dom [of "pv h" "l # rev xs @ [l]"]
  by (auto simp: clist_def node_at_def butlast_append)

lemma clist_nil_iff: "clist h l [] \<longleftrightarrow> l \<noteq> RT_NULL \<and> nx h l = Some l \<and> pv h l = Some l"
  by (auto simp: clist_def)


section \<open>Every operation on a well-formed list\<close>

lemma rt_list_init_clist:
  assumes "node_at h l"
  shows "\<exists>h'. rt_list_init h l = Inr h' \<and> clist h' l []
    \<and> h' = h\<lparr>nx := (nx h)(l \<mapsto> l), pv := (pv h)(l \<mapsto> l)\<rparr>"
  using assms by (auto simp: rt_list_init_def clist_nil_iff node_at_def)

text \<open>What \<open>rt_list_insert_before\<close> writes, whatever lists the two nodes are on.\<close>

lemma rt_list_insert_before_eq:
  assumes "node_at h l" and "node_at h n" and "pv h l = Some q" and "node_at h q"
  shows "rt_list_insert_before h l n =
    Inr \<lparr>nx = (nx h)(q \<mapsto> n, n \<mapsto> l), pv = (pv h)(n \<mapsto> q, l \<mapsto> n)\<rparr>"
  using assms by (auto simp: rt_list_insert_before_def node_at_def)

lemma rt_list_insert_after_eq:
  assumes "node_at h l" and "node_at h n" and "nx h l = Some q" and "node_at h q" and "l \<noteq> n"
  shows "rt_list_insert_after h l n =
    Inr \<lparr>nx = (nx h)(n \<mapsto> q, l \<mapsto> n), pv = (pv h)(q \<mapsto> n, n \<mapsto> l)\<rparr>"
  using assms by (auto simp: rt_list_insert_after_def node_at_def)

lemma chain_join:
  "A \<noteq> [] \<Longrightarrow> B \<noteq> [] \<Longrightarrow>
   chain f (A @ B) \<longleftrightarrow> chain f A \<and> f (last A) = Some (hd B) \<and> chain f B"
  by (induction f A rule: chain.induct) (auto simp: neq_Nil_conv)

lemma chain_link_last:
  assumes ch: "chain f (l # ys @ [l])" and d: "distinct (l # ys)" and n: "n \<notin> set (l # ys)"
  shows "chain (f(last (l # ys) \<mapsto> n, n \<mapsto> l)) (l # ys @ [n, l])"
proof -
  let ?A = "l # ys"
  let ?f = "f(last ?A \<mapsto> n, n \<mapsto> l)"
  have "chain f ?A"
    using ch chain_join [of ?A "[l]" f] by simp
  moreover have "last ?A \<notin> set (butlast ?A)"
    using d by (cases ys rule: rev_cases) auto
  moreover have "n \<notin> set (butlast ?A)" "n \<noteq> last ?A"
    using n by (auto dest: in_set_butlastD split: if_splits)
  ultimately have "chain ?f ?A" "?f (last ?A) = Some n" "chain ?f [n, l]"
    by (simp_all del: last.simps butlast.simps)
  then show ?thesis
    using chain_join [of ?A "[n, l]" ?f] by simp
qed

lemma chain_link_first:
  assumes ch: "chain f (l # ys @ [l])" and d: "distinct (l # ys)" and n: "n \<notin> set (l # ys)"
  shows "chain (f(n \<mapsto> hd (ys @ [l]), l \<mapsto> n)) (l # n # ys @ [l])"
proof -
  let ?B = "ys @ [l]"
  let ?f = "f(n \<mapsto> hd ?B, l \<mapsto> n)"
  have "chain f ?B"
    using ch chain_join [of "[l]" ?B f] by simp
  moreover have "l \<notin> set (butlast ?B)" "n \<notin> set (butlast ?B)" "l \<noteq> n"
    using d n by auto
  ultimately have "chain ?f ?B" "?f n = Some (hd ?B)" "?f l = Some n"
    by (simp_all del: butlast_snoc)
  then show ?thesis
    using chain_join [of "[l, n]" ?B ?f] by simp
qed

lemma last_rev_hd: "last (l # rev xs) = hd (xs @ [l])" "hd (rev xs @ [l]) = last (l # xs)"
  by (cases xs, auto) (cases xs rule: rev_cases, auto)

lemma clist_insert_before:
  assumes cl: "clist h l xs" and n: "node_at h n" "n \<notin> set (l # xs)"
  shows "\<exists>h'. rt_list_insert_before h l n = Inr h' \<and> clist h' l (xs @ [n])
    \<and> nx h' = (nx h)(last (l # xs) \<mapsto> n, n \<mapsto> l)
    \<and> pv h' = (pv h)(n \<mapsto> last (l # xs), l \<mapsto> n)"
proof -
  define q where "q = last (l # xs)"
  let ?h = "\<lparr>nx = (nx h)(q \<mapsto> n, n \<mapsto> l), pv = (pv h)(n \<mapsto> q, l \<mapsto> n)\<rparr>"
  have "rt_list_insert_before h l n = Inr ?h"
    using n clist_prev_head [OF cl] clist_nodes [OF cl]
    by (intro rt_list_insert_before_eq) (auto simp: q_def)
  moreover have "chain (nx ?h) (l # xs @ [n, l])"
    using cl n chain_link_last [of "nx h" l xs n] by (simp add: clist_def q_def)
  moreover have "chain (pv ?h) (l # n # rev xs @ [l])"
    using cl n chain_link_first [of "pv h" l "rev xs" n]
    by (simp only: clist_def q_def last_rev_hd list_heap.select_convs) simp
  ultimately show ?thesis
    using cl n by (auto simp: clist_def node_at_def q_def)
qed

lemma clist_insert_after:
  assumes cl: "clist h l xs" and n: "node_at h n" "n \<notin> set (l # xs)"
  shows "\<exists>h'. rt_list_insert_after h l n = Inr h' \<and> clist h' l (n # xs)"
proof -
  define q where "q = hd (xs @ [l])"
  let ?h = "\<lparr>nx = (nx h)(n \<mapsto> q, l \<mapsto> n), pv = (pv h)(q \<mapsto> n, n \<mapsto> l)\<rparr>"
  have "rt_list_insert_after h l n = Inr ?h"
    using n clist_next_head [OF cl] clist_nodes [OF cl]
    by (intro rt_list_insert_after_eq) (auto simp: q_def hd_append)
  moreover have "chain (nx ?h) (l # n # xs @ [l])"
    using cl n chain_link_first [of "nx h" l xs n] by (simp add: clist_def q_def)
  moreover have "chain (pv ?h) (l # rev xs @ [n, l])"
    using cl n chain_link_last [of "pv h" l "rev xs" n]
    by (simp only: clist_def q_def last_rev_hd list_heap.select_convs) simp
  ultimately show ?thesis
    using cl n by (auto simp: clist_def node_at_def)
qed

text \<open>Removal: the node is unlinked from its list and becomes an empty list of its own.\<close>

lemma chain_unlink:
  assumes ch: "chain f (l # ys @ n # zs @ [l])" and d: "distinct (l # ys @ n # zs)"
  shows "chain (f(last (l # ys) \<mapsto> hd (zs @ [l]), n \<mapsto> v)) (l # ys @ zs @ [l])"
proof -
  let ?A = "l # ys" and ?B = "zs @ [l]"
  let ?f = "f(last ?A \<mapsto> hd ?B, n \<mapsto> v)"
  have AB: "chain f ?A" "chain f ?B"
    using ch chain_join [of ?A "n # ?B" f] chain_join [of "[n]" ?B f] by auto
  have "last ?A \<notin> set (butlast ?A)" "last ?A \<notin> set (butlast ?B)"
    using d by (cases ys rule: rev_cases, auto)+
  moreover have "n \<notin> set (butlast ?A)" "n \<notin> set (butlast ?B)" "n \<noteq> last ?A"
    using d by (auto dest: in_set_butlastD split: if_splits)
  ultimately have "chain ?f ?A" "chain ?f ?B" "?f (last ?A) = Some (hd ?B)"
    using AB by (simp_all del: last.simps butlast.simps)
  then show ?thesis
    using chain_join [of ?A ?B ?f] by simp
qed

lemma rt_list_remove_eq:
  assumes "nx h n = Some q" "pv h n = Some p" "node_at h n" "node_at h p" "node_at h q" "p \<noteq> n" "q \<noteq> n"
  shows "rt_list_remove h n =
    Inr \<lparr>nx = (nx h)(p \<mapsto> q, n \<mapsto> n), pv = (pv h)(q \<mapsto> p, n \<mapsto> n)\<rparr>"
  using assms by (auto simp: rt_list_remove_def node_at_def)

lemma clist_remove:
  assumes cl: "clist h l (ys @ n # zs)"
  shows "\<exists>h'. rt_list_remove h n = Inr h' \<and> clist h' l (ys @ zs) \<and> clist h' n []"
proof -
  define p q where "p = last (l # ys)" and "q = hd (zs @ [l])"
  let ?h = "\<lparr>nx = (nx h)(p \<mapsto> q, n \<mapsto> n), pv = (pv h)(q \<mapsto> p, n \<mapsto> n)\<rparr>"
  have d: "distinct (l # ys @ n # zs)" "distinct (l # rev zs @ n # rev ys)"
    using cl by (auto simp: clist_def)
  have nch: "chain (nx h) (l # ys @ n # zs @ [l])"
    and pch: "chain (pv h) (l # rev zs @ n # rev ys @ [l])"
    using cl by (auto simp: clist_def)
  have "chain (nx ?h) (l # ys @ zs @ [l])" "chain (pv ?h) (l # rev zs @ rev ys @ [l])"
    using chain_unlink [OF nch d(1)] chain_unlink [OF pch d(2)]
    by (simp_all only: p_def q_def last_rev_hd list_heap.select_convs)
  then have cl': "clist ?h l (ys @ zs)" "clist ?h n []"
    using cl by (auto simp: clist_def)
  have "nx h n = Some q" "pv h n = Some p"
    using nch chain_join [of "l # ys" "n # zs @ [l]" "nx h"] chain_join [of "[n]" "zs @ [l]" "nx h"]
      pch chain_join [of "l # rev zs" "n # rev ys @ [l]" "pv h"] chain_join [of "[n]" "rev ys @ [l]" "pv h"]
    by (auto simp: p_def q_def last_rev_hd(2))
  moreover have "node_at h n" "node_at h p" "node_at h q"
    using clist_nodes [OF cl] by (auto simp: p_def q_def hd_append)
  moreover have "p \<noteq> n" "q \<noteq> n"
    using d by (auto simp: p_def q_def hd_append split: if_splits)
  ultimately have "rt_list_remove h n = Inr ?h"
    by (rule rt_list_remove_eq)
  with cl' show ?thesis by auto
qed

lemma rt_list_isempty_clist: "clist h l xs \<Longrightarrow> rt_list_isempty h l = Inr (xs = [])"
  using clist_next_head [of h l xs] by (cases xs) (auto simp: rt_list_isempty_def clist_def)

text \<open>A traversal from inside the list reaches the head after the remaining nodes.\<close>

lemma list_len_loop_chain:
  assumes "chain (nx h) (p # xs @ [l])" and "l \<notin> set xs" and "\<forall>x \<in> set (p # xs). x \<noteq> RT_NULL"
    and "length xs < fuel"
  shows "list_len_loop fuel h l p len = Inr (len + of_nat (length xs))"
  using assms
proof (induction xs arbitrary: p len fuel)
  case Nil
  then show ?case by (cases fuel) auto
next
  case (Cons x xs)
  then obtain f where "fuel = Suc f" by (cases fuel) auto
  with Cons.prems Cons.IH [of x f "len + 1"] show ?case
    by (auto simp: algebra_simps)
qed

lemma rt_list_len_clist:
  "clist h l xs \<Longrightarrow> length xs < fuel \<Longrightarrow> rt_list_len fuel h l = Inr (of_nat (length xs))"
  unfolding rt_list_len_def using list_len_loop_chain [of h l xs l fuel 0] by (auto simp: clist_def)

text \<open>Updates of one list leave the lists that share no node with it alone.\<close>

lemma chain_cong: "(\<And>a. a \<in> set (butlast xs) \<Longrightarrow> f a = g a) \<Longrightarrow> chain f xs = chain g xs"
  by (induction f xs rule: chain.induct) auto

lemma clist_cong:
  assumes "\<And>p. p \<in> set (l # xs) \<Longrightarrow> nx h p = nx h' p \<and> pv h p = pv h' p"
  shows "clist h l xs = clist h' l xs"
proof -
  have "chain (nx h) (l # xs @ [l]) = chain (nx h') (l # xs @ [l])"
    using assms by (intro chain_cong) (auto simp: butlast_append)
  moreover have "chain (pv h) (l # rev xs @ [l]) = chain (pv h') (l # rev xs @ [l])"
    using assms by (intro chain_cong) (auto simp: butlast_append)
  ultimately show ?thesis by (simp add: clist_def)
qed

section \<open>Properties\<close>



end
