(* ===== verification/Common_Lists.thy ===== *)
theory Common_Lists
  imports Klist
begin

text \<open>
  The list utilities of \<^verbatim>\<open>applications/common_utils.c\<close> (\<open>list_move\<close>, \<open>list_sort\<close>,
  \<open>list_destroy\<close>) over the store of list nodes. Every loop takes the number of iterations it
  may use; the theorems say how many are enough, or that none are.
\<close>

section \<open>\<open>list_move\<close>\<close>

text \<open>The body of \<open>rt_list_for_each_safe(p, n, src_head)\<close>.\<close>

fun list_move_loop ::
  "nat \<Rightarrow> list_heap \<Rightarrow> ptr \<Rightarrow> ptr \<Rightarrow> ptr \<Rightarrow> ptr \<Rightarrow> u32 \<Rightarrow> (u32 \<times> list_heap) cres" where
  "list_move_loop 0 h dst src p n count = Inl OutOfFuel"
| "list_move_loop (Suc fuel) h dst src p n count =
     (if p = src then Inr (count, h)
      else cbind (rt_list_insert_before h dst p) (\<lambda>h.
           cbind (load (nx h) n) (\<lambda>n'. list_move_loop fuel h dst src n n' (count + 1))))"

definition list_move :: "nat \<Rightarrow> list_heap \<Rightarrow> ptr \<Rightarrow> ptr \<Rightarrow> (u32 \<times> list_heap) cres" where
  "list_move fuel h dst_head src_head =
     (if src_head = RT_NULL \<or> dst_head = RT_NULL then Inr (0, h)
      else cbind (rt_list_init h dst_head) (\<lambda>h.
           cbind (load (nx h) src_head) (\<lambda>p. cbind (load (nx h) p) (\<lambda>n.
             list_move_loop fuel h dst_head src_head p n 0))))"

section \<open>\<open>list_sort\<close>\<close>

text \<open>
  \<open>rt_list_for_each(p, head->next)\<close>: the macro re-reads its bound \<open>head->next\<close> in each
  test. The comparison callback is \<open>cmp\<close>; the local \<open>sorted_head\<close> lives at address \<open>sh\<close>.
\<close>

fun sort_min_loop ::
  "nat \<Rightarrow> list_heap \<Rightarrow> (ptr \<Rightarrow> ptr \<Rightarrow> int) \<Rightarrow> ptr \<Rightarrow> ptr \<Rightarrow> ptr \<Rightarrow> ptr cres" where
  "sort_min_loop 0 h cmp head p pmin = Inl OutOfFuel"
| "sort_min_loop (Suc fuel) h cmp head p pmin =
     cbind (load (nx h) head) (\<lambda>stop.
       if p = stop then Inr pmin
       else cbind (load (nx h) p) (\<lambda>p'.
              sort_min_loop fuel h cmp head p' (if cmp p pmin < 0 then p else pmin)))"

fun list_sort_loop ::
  "nat \<Rightarrow> list_heap \<Rightarrow> (ptr \<Rightarrow> ptr \<Rightarrow> int) \<Rightarrow> ptr \<Rightarrow> ptr \<Rightarrow> u32 \<Rightarrow> (u32 \<times> list_heap) cres" where
  "list_sort_loop 0 h cmp head sh count = Inl OutOfFuel"
| "list_sort_loop (Suc fuel) h cmp head sh count =
     cbind (load (nx h) head) (\<lambda>first.
       if first = RT_NULL then Inr (count, h)
       else cbind (load (nx h) first) (\<lambda>second.
            cbind (if second \<noteq> RT_NULL then sort_min_loop fuel h cmp head second first else Inr first) (\<lambda>pmin.
              if pmin \<noteq> RT_NULL
              then cbind (rt_list_insert_before h sh pmin) (\<lambda>h.
                     list_sort_loop fuel h cmp head sh (count + 1))
              else list_sort_loop fuel h cmp head sh count)))"

definition list_sort ::
  "nat \<Rightarrow> list_heap \<Rightarrow> (ptr \<Rightarrow> ptr \<Rightarrow> int) option \<Rightarrow> ptr \<Rightarrow> ptr \<Rightarrow> (u32 \<times> list_heap) cres" where
  "list_sort fuel h cmp_opt head sh =
     (case cmp_opt of None \<Rightarrow> Inr (0, h) | Some cmp \<Rightarrow>
        if head = RT_NULL then Inr (0, h)
        else cbind (load (nx h) head) (\<lambda>first.
          if first = RT_NULL then Inr (0, h)
          else cbind (load (nx h) first) (\<lambda>second.
            if second = RT_NULL then Inr (0, h)
            else cbind (rt_list_init h sh) (\<lambda>h.
                 cbind (list_sort_loop fuel h cmp head sh 0) (\<lambda>(count, h).
                 cbind (load (nx h) sh) (\<lambda>a. cbind (load (pv h) sh) (\<lambda>b.
                 cbind (set_next h head a) (\<lambda>h. cbind (set_prev h head b) (\<lambda>h.
                   Inr (count, h))))))))))"

section \<open>\<open>list_destroy\<close>\<close>

text \<open>The callback may change the state \<open>'s\<close> outside the lists and may release the node.\<close>

fun list_destroy_loop ::
  "nat \<Rightarrow> ('s \<Rightarrow> list_heap \<Rightarrow> ptr \<Rightarrow> ('s \<times> list_heap) cres) \<Rightarrow> 's \<Rightarrow> list_heap
     \<Rightarrow> ptr \<Rightarrow> ptr \<Rightarrow> ptr \<Rightarrow> ('s \<times> list_heap) cres" where
  "list_destroy_loop 0 destroy s h head p n = Inl OutOfFuel"
| "list_destroy_loop (Suc fuel) destroy s h head p n =
     (if p = head then Inr (s, h)
      else cbind (destroy s h p) (\<lambda>(s, h).
           cbind (load (nx h) n) (\<lambda>n'. list_destroy_loop fuel destroy s h head n n')))"

definition list_destroy ::
  "nat \<Rightarrow> ('s \<Rightarrow> list_heap \<Rightarrow> ptr \<Rightarrow> ('s \<times> list_heap) cres) option \<Rightarrow> 's \<Rightarrow> list_heap
     \<Rightarrow> ptr \<Rightarrow> ('s \<times> list_heap) cres" where
  "list_destroy fuel destroy_opt s h head =
     (case destroy_opt of None \<Rightarrow> Inr (s, h) | Some destroy \<Rightarrow>
        if head = RT_NULL then Inr (s, h)
        else cbind (load (nx h) head) (\<lambda>p.
          if p = RT_NULL then Inr (s, h)
          else cbind (load (nx h) p) (\<lambda>n. list_destroy_loop fuel destroy s h head p n)))"

section \<open>Moving a well-formed list\<close>

lemma list_move_loop_correct:
  assumes "clist h dst ys" and "chain (nx h) (zs @ [src])" and "distinct (dst # src # ys @ zs)"
    and "\<forall>z \<in> set (src # zs). node_at h z" and "length zs < fuel"
    and "nx h (hd (zs @ [src])) = Some n"
  shows "\<exists>h'. list_move_loop fuel h dst src (hd (zs @ [src])) n count
              = Inr (count + of_nat (length zs), h')
            \<and> clist h' dst (ys @ zs) \<and> (\<forall>a. a \<notin> set (dst # ys @ zs) \<longrightarrow> nx h' a = nx h a \<and> pv h' a = pv h a)"
  using assms
proof (induction zs arbitrary: h ys n count fuel)
  case Nil
  then show ?case by (cases fuel) auto
next
  case (Cons z zs)
  obtain f where fuel: "fuel = Suc f" and f: "length zs < f"
    using Cons.prems(5) by (cases fuel) auto
  have z: "node_at h z" "z \<notin> set (dst # ys)" "z \<noteq> src" "z \<notin> set zs"
    using Cons.prems(3,4) by auto
  obtain h' where ins: "rt_list_insert_before h dst z = Inr h'" and cl: "clist h' dst (ys @ [z])"
    and nx': "nx h' = (nx h)(last (dst # ys) \<mapsto> z, z \<mapsto> dst)"
    and pv': "pv h' = (pv h)(z \<mapsto> last (dst # ys), dst \<mapsto> z)"
    using clist_insert_before [OF Cons.prems(1) z(1,2)] by blast
  have lst: "last (dst # ys) \<notin> set (src # zs)"
    using Cons.prems(3) by (cases ys rule: rev_cases) auto
  have n: "n = hd (zs @ [src])"
    using Cons.prems(2,6) by (cases zs) auto
  have ch: "chain (nx h') (zs @ [src])"
    unfolding nx' using Cons.prems(2) z lst by (cases zs) (auto simp: butlast_append)
  have nodes: "\<forall>x \<in> set (src # zs). node_at h' x"
    using Cons.prems(4) by (auto simp: node_at_def nx' pv')
  have "hd (zs @ [src]) \<in> set (src # zs)"
    by (cases zs) auto
  then obtain n' where n': "nx h' (hd (zs @ [src])) = Some n'"
    and nz: "hd (zs @ [src]) \<noteq> RT_NULL"
    using nodes by (auto simp: node_at_def)
  have "\<exists>h''. list_move_loop f h' dst src (hd (zs @ [src])) n' (count + 1)
          = Inr (count + 1 + of_nat (length zs), h'')
        \<and> clist h'' dst ((ys @ [z]) @ zs) \<and> (\<forall>a. a \<notin> set (dst # (ys @ [z]) @ zs) \<longrightarrow> nx h'' a = nx h' a \<and> pv h'' a = pv h' a)"
    using Cons.prems(3) by (intro Cons.IH cl ch nodes f n') auto
  moreover have "last (dst # ys) \<in> set (dst # ys)" by (rule last_in_set) simp
  then have "nx h' a = nx h a \<and> pv h' a = pv h a" if "a \<notin> set (dst # ys @ z # zs)" for a
    using that by (auto simp: nx' pv')
  ultimately show ?case
    using fuel ins n n' nz z by (auto simp: algebra_simps)
qed

lemma list_move_correct:
  assumes cl: "clist h src xs" and dst: "node_at h dst" "dst \<notin> set (src # xs)"
    and fuel: "length xs < fuel"
  shows "\<exists>h'. list_move fuel h dst src = Inr (of_nat (length xs), h') \<and> clist h' dst xs
            \<and> nx h' src = Some (hd (xs @ [src])) \<and> (\<forall>a. a \<notin> set (dst # xs) \<longrightarrow> nx h' a = nx h a \<and> pv h' a = pv h a)"
proof -
  obtain h1 where init: "rt_list_init h dst = Inr h1" "clist h1 dst []"
    and h1: "h1 = h\<lparr>nx := (nx h)(dst \<mapsto> dst), pv := (pv h)(dst \<mapsto> dst)\<rparr>"
    using rt_list_init_clist [OF dst(1)] by blast
  have src: "nx h1 src = Some (hd (xs @ [src]))" "src \<noteq> RT_NULL" "dst \<noteq> RT_NULL"
    using clist_next_head [OF cl] clist_nodes [OF cl] dst by (auto simp: h1 node_at_def)
  have nodes: "\<forall>z \<in> set (src # xs). node_at h1 z"
    using clist_nodes [OF cl] by (auto simp: node_at_def h1)
  have "hd (xs @ [src]) \<in> set (src # xs)"
    by (cases xs) auto
  then obtain n where n: "nx h1 (hd (xs @ [src])) = Some n" and nz: "hd (xs @ [src]) \<noteq> RT_NULL"
    using nodes by (auto simp: node_at_def)
  have "chain (nx h) (xs @ [src])"
    using cl chain_join [of "[src]" "xs @ [src]" "nx h"] by (simp add: clist_def)
  then have "chain (nx h1) (xs @ [src])"
    using dst by (simp add: h1)
  then have "\<exists>h'. list_move_loop fuel h1 dst src (hd (xs @ [src])) n 0
        = Inr (0 + of_nat (length xs), h')
      \<and> clist h' dst ([] @ xs) \<and> (\<forall>a. a \<notin> set (dst # [] @ xs) \<longrightarrow> nx h' a = nx h1 a \<and> pv h' a = pv h1 a)"
    using dst cl by (intro list_move_loop_correct init nodes fuel n) (auto simp: clist_def)
  moreover have "src \<notin> set (dst # xs)" using dst cl by (auto simp: clist_def)
  ultimately show ?thesis
    using init src n nz by (auto simp: list_move_def h1)
qed

section \<open>Regions closed under \<open>next\<close>\<close>

text \<open>
  A set of nodes that \<open>next\<close> never leaves. Inserting one of its nodes before another keeps it
  closed, so a traversal that starts inside never meets a node outside it.
\<close>

definition closed_region :: "list_heap \<Rightarrow> ptr set \<Rightarrow> bool" where
  "closed_region h S \<longleftrightarrow> (\<forall>a \<in> S. node_at h a \<and> the (nx h a) \<in> S)"

lemma closed_region_load:
  "closed_region h S \<Longrightarrow> a \<in> S \<Longrightarrow> \<exists>b \<in> S. nx h a = Some b \<and> load (nx h) a = Inr b \<and> b \<noteq> RT_NULL"
  by (fastforce simp: closed_region_def node_at_def)

lemma closed_region_insert:
  assumes "closed_region h S" and "l \<in> S" and "n \<in> S" and "the (pv h l) \<in> S"
  shows "\<exists>h'. rt_list_insert_before h l n = Inr h' \<and> closed_region h' S \<and> the (pv h' l) \<in> S"
proof -
  have nodes: "node_at h l" "node_at h n" "node_at h (the (pv h l))"
    using assms by (auto simp: closed_region_def)
  then have "pv h l = Some (the (pv h l))"
    by (auto simp: node_at_def)
  from rt_list_insert_before_eq [OF nodes(1,2) this nodes(3)] show ?thesis
    using assms by (auto simp: closed_region_def node_at_def)
qed

lemma list_move_loop_diverges:
  assumes "closed_region h S" and "dst \<in> S" and "the (pv h dst) \<in> S" and "src \<notin> S"
    and "p \<in> S" and "n \<in> S"
  shows "list_move_loop fuel h dst src p n count = Inl OutOfFuel"
  using assms
proof (induction fuel arbitrary: h p n count)
  case 0
  then show ?case by simp
next
  case (Suc fuel)
  obtain h' where h': "rt_list_insert_before h dst p = Inr h'" "closed_region h' S" "the (pv h' dst) \<in> S"
    using closed_region_insert [OF Suc.prems(1,2,5,3)] by blast
  obtain n' where "n' \<in> S" "load (nx h') n = Inr n'"
    using closed_region_load [OF h'(2) Suc.prems(6)] by blast
  with Suc h' show ?case by auto
qed

text \<open>A well-formed list together with other closed nodes is a closed region.\<close>

lemma clist_next_in: "clist h l xs \<Longrightarrow> a \<in> set (l # xs) \<Longrightarrow> the (nx h a) \<in> set (l # xs)"
proof -
  assume cl: "clist h l xs" and a: "a \<in> set (l # xs)"
  from split_list [OF a] obtain us vs where "l # xs = us @ a # vs" by blast
  then have "(us @ [a]) @ (vs @ [l]) = l # xs @ [l]" by (metis append.assoc append_Cons append_Nil)
  then have "chain (nx h) ((us @ [a]) @ (vs @ [l]))"
    using cl by (simp only: clist_def)
  then have "nx h a = Some (hd (vs @ [l]))"
    using chain_join [of "us @ [a]" "vs @ [l]" "nx h"] by simp
  moreover have "hd (vs @ [l]) \<in> set (l # xs)"
    by (cases vs) (simp, simp only: \<open>l # xs = us @ a # vs\<close>, simp)
  ultimately show ?thesis by simp
qed

lemma clist_closed: "clist h l xs \<Longrightarrow> closed_region h (set (l # xs))"
  using clist_nodes [of h l xs] clist_next_in [of h l xs] by (simp add: closed_region_def)

section \<open>A second move from the same list\<close>

text \<open>
  \<open>list_move\<close> leaves \<open>src_head\<close> pointing at the first moved node. Moving from it again walks
  the nodes that now belong to the first destination, which never lead back to \<open>src_head\<close>.
\<close>

lemma list_move_again_diverges:
  assumes cl: "clist h dst xs" and src: "nx h src = Some a" "a \<in> set (dst # xs)" "src \<noteq> RT_NULL"
    "src \<notin> set (dst # xs)" and dst2: "node_at h dst2" "dst2 \<noteq> src"
  shows "list_move fuel h dst2 src = Inl OutOfFuel"
proof -
  let ?S = "insert dst2 (set (dst # xs))"
  obtain h1 where init: "rt_list_init h dst2 = Inr h1"
    and h1: "h1 = h\<lparr>nx := (nx h)(dst2 \<mapsto> dst2), pv := (pv h)(dst2 \<mapsto> dst2)\<rparr>"
    using rt_list_init_clist [OF dst2(1)] by blast
  have cr: "closed_region h1 ?S"
    using clist_closed [OF cl] dst2 by (auto simp: closed_region_def node_at_def h1)
  obtain n where n: "n \<in> ?S" "load (nx h1) a = Inr n" and a: "a \<noteq> RT_NULL"
    using closed_region_load [OF cr, of a] src(2) cr by (auto simp: closed_region_def node_at_def)
  have "list_move_loop fuel h1 dst2 src a n 0 = Inl OutOfFuel"
    using src dst2 n by (intro list_move_loop_diverges [OF cr]) (auto simp: h1)
  moreover have "load (nx h1) src = Inr a"
    using src dst2 by (simp add: h1)
  ultimately show ?thesis
    using init n src dst2 by (simp add: list_move_def node_at_def)
qed

section \<open>\<open>list_sort\<close> on circular lists\<close>

lemma sort_min_loop_result:
  assumes "closed_region h S" and "head \<in> S" and "p \<in> S" and "pmin \<in> S"
  shows "sort_min_loop fuel h cmp head p pmin = Inl OutOfFuel
    \<or> (\<exists>q \<in> S. sort_min_loop fuel h cmp head p pmin = Inr q)"
  using assms
proof (induction fuel arbitrary: p pmin)
  case 0
  then show ?case by simp
next
  case (Suc fuel)
  obtain stop where stop: "load (nx h) head = Inr stop"
    using closed_region_load [OF Suc.prems(1,2)] by blast
  obtain p' where p': "load (nx h) p = Inr p'" "p' \<in> S"
    using closed_region_load [OF Suc.prems(1,3)] by blast
  let ?m = "if cmp p pmin < 0 then p else pmin"
  have "?m \<in> S"
    using Suc.prems(3,4) by simp
  from Suc.IH [OF Suc.prems(1,2) p'(2) this] show ?case
    using Suc.prems(4) stop p'(1) by auto
qed

lemma list_sort_loop_diverges:
  assumes "closed_region h S" and "head \<in> S" and "sh \<in> S" and "the (pv h sh) \<in> S"
  shows "list_sort_loop fuel h cmp head sh count = Inl OutOfFuel"
  using assms
proof (induction fuel arbitrary: h count)
  case 0
  then show ?case by simp
next
  case (Suc fuel)
  obtain first where first: "first \<in> S" "load (nx h) head = Inr first" "first \<noteq> RT_NULL"
    using closed_region_load [OF Suc.prems(1,2)] by blast
  obtain second where second: "second \<in> S" "load (nx h) first = Inr second" "second \<noteq> RT_NULL"
    using closed_region_load [OF Suc.prems(1) first(1)] by blast
  show ?case
  proof (cases "\<exists>q \<in> S. sort_min_loop fuel h cmp head second first = Inr q")
    case False
    then have "sort_min_loop fuel h cmp head second first = Inl OutOfFuel"
      using sort_min_loop_result [OF Suc.prems(1,2) second(1) first(1)] by blast
    then show ?thesis using first second by simp
  next
    case True
    then obtain q where q: "q \<in> S" "sort_min_loop fuel h cmp head second first = Inr q" by blast
    then have "q \<noteq> RT_NULL"
      using Suc.prems(1) by (auto simp: closed_region_def node_at_def)
    moreover obtain h' where "rt_list_insert_before h sh q = Inr h'" "closed_region h' S" "the (pv h' sh) \<in> S"
      using closed_region_insert [OF Suc.prems(1,3) q(1) Suc.prems(4)] by blast
    ultimately show ?thesis
      using Suc.IH Suc.prems(2,3) first second q by simp
  qed
qed

lemma list_sort_diverges:
  assumes cl: "clist h head xs" and sh: "node_at h sh" "sh \<notin> set (head # xs)"
  shows "list_sort fuel h (Some cmp) head sh = Inl OutOfFuel"
proof -
  let ?S = "insert sh (set (head # xs))"
  obtain h1 where init: "rt_list_init h sh = Inr h1"
    and h1: "h1 = h\<lparr>nx := (nx h)(sh \<mapsto> sh), pv := (pv h)(sh \<mapsto> sh)\<rparr>"
    using rt_list_init_clist [OF sh(1)] by blast
  have cr: "closed_region h (set (head # xs))"
    using clist_closed [OF cl] .
  obtain a where a: "a \<in> set (head # xs)" "load (nx h) head = Inr a" "a \<noteq> RT_NULL"
    using closed_region_load [OF cr, of head] by auto
  obtain b where b: "load (nx h) a = Inr b" "b \<noteq> RT_NULL"
    using closed_region_load [OF cr a(1)] by auto
  have "closed_region h1 ?S"
    using cr sh by (auto simp: closed_region_def node_at_def h1)
  then have "list_sort_loop fuel h1 cmp head sh 0 = Inl OutOfFuel"
    by (rule list_sort_loop_diverges) (auto simp: h1)
  then show ?thesis
    using init a b clist_nodes [OF cl, of head] by (simp add: list_sort_def node_at_def)
qed

section \<open>\<open>list_destroy\<close>\<close>

text \<open>Releasing a node takes its fields out of the store.\<close>

definition drop_node :: "list_heap \<Rightarrow> ptr \<Rightarrow> list_heap" where
  "drop_node h p = \<lparr>nx = (nx h)(p := None), pv = (pv h)(p := None)\<rparr>"

lemma drop_node_sel [simp]:
  "nx (drop_node h p) = (nx h)(p := None)" "pv (drop_node h p) = (pv h)(p := None)"
  by (simp_all add: drop_node_def)

lemma list_destroy_loop_correct:
  assumes "chain (nx h) (zs @ [head])" and "distinct (head # zs)"
    and "\<forall>z \<in> set (head # zs). z \<noteq> RT_NULL" and "nx h head \<noteq> None" and "length zs < fuel"
    and "nx h (hd (zs @ [head])) = Some n"
    and destroy: "\<And>s h p. destroy s h p = Inr (f p s, drop_node h p)"
  shows "list_destroy_loop fuel destroy s h head (hd (zs @ [head])) n
           = Inr (fold f zs s, foldl drop_node h zs)"
  using assms(1-6)
proof (induction zs arbitrary: h s n fuel)
  case Nil
  then show ?case by (cases fuel) auto
next
  case (Cons z zs)
  obtain g where fuel: "fuel = Suc g" and g: "length zs < g"
    using Cons.prems(5) by (cases fuel) auto
  let ?h = "drop_node h z"
  have n: "n = hd (zs @ [head])"
    using Cons.prems(1,6) by (cases zs) auto
  have ch: "chain (nx ?h) (zs @ [head])"
    using Cons.prems(1,2) by (cases zs) (auto simp: butlast_append)
  have hd': "hd (zs @ [head]) \<noteq> RT_NULL" "nx ?h (hd (zs @ [head])) \<noteq> None"
    using Cons.prems ch by (cases zs; cases "tl zs"; auto)+
  then obtain n' where n': "nx ?h (hd (zs @ [head])) = Some n'" by auto
  have "list_destroy_loop g destroy (f z s) ?h head (hd (zs @ [head])) n'
          = Inr (fold f zs (f z s), foldl drop_node ?h zs)"
    using Cons.prems(2,3,4) by (intro Cons.IH ch g n') auto
  then show ?case
    using fuel n n' hd' Cons.prems(2) by (simp add: destroy [of s h z])
qed

lemma list_destroy_correct:
  assumes cl: "clist h head xs" and fuel: "length xs < fuel"
    and destroy: "\<And>s h p. destroy s h p = Inr (f p s, drop_node h p)"
  shows "list_destroy fuel (Some destroy) s h head = Inr (fold f xs s, foldl drop_node h xs)"
proof -
  have nodes: "node_at h head" "\<forall>z \<in> set (head # xs). z \<noteq> RT_NULL"
    using clist_nodes [OF cl] by (auto simp: node_at_def)
  obtain n where n: "nx h (hd (xs @ [head])) = Some n"
    using clist_nodes [OF cl, of "hd (xs @ [head])"] by (cases xs) (auto simp: node_at_def)
  have "list_destroy_loop fuel destroy s h head (hd (xs @ [head])) n
          = Inr (fold f xs s, foldl drop_node h xs)"
    using cl nodes chain_join [of "[head]" "xs @ [head]" "nx h"]
    by (intro list_destroy_loop_correct fuel n destroy) (auto simp: clist_def node_at_def)
  moreover have "hd (xs @ [head]) \<noteq> RT_NULL"
    using nodes(2) by (cases xs) auto
  ultimately show ?thesis
    using clist_next_head [OF cl] n nodes by (simp add: list_destroy_def)
qed

section \<open>Properties\<close>

abbreviation (input) sample_lists :: list_heap where
  "sample_lists \<equiv> \<lparr>nx = [1 \<mapsto> 2, 2 \<mapsto> 3, 3 \<mapsto> 1, 4 \<mapsto> 4], pv = [1 \<mapsto> 3, 3 \<mapsto> 2, 2 \<mapsto> 1, 4 \<mapsto> 4]\<rparr>"

text \<open>\<open>list_move\<close> on a well-formed list returns the number of its nodes and leaves all of them on the
  destination in the same order, whatever the destination held before; nothing else changes: the source head is not
  reset and still points at the first moved node.\<close>

theorem list_move_moves:
  assumes "clist h src xs" and "node_at h dst" and "dst \<notin> set (src # xs)" and "length xs < fuel"
  shows "\<exists>h'. list_move fuel h dst src = Inr (of_nat (length xs), h') \<and> clist h' dst xs
            \<and> nx h' src = Some (hd (xs @ [src])) \<and> (\<forall>a. a \<notin> set (dst # xs) \<longrightarrow> nx h' a = nx h a \<and> pv h' a = pv h a)"
  using assms by (rule list_move_correct)

theorem list_move_moves_witness:
  "\<exists>h'. list_move 5 sample_lists 4 1 = Inr (2, h') \<and> clist h' 4 [2, 3] \<and> nx h' 1 = Some 2"
proof -
  have "clist sample_lists 1 [2, 3]" "node_at sample_lists 4" by (simp_all add: clist_def node_at_def)
  from list_move_moves [OF this, of 5] show ?thesis by auto
qed

text \<open>A second \<open>list_move\<close> from a source whose nodes a first move has taken never returns: the source
  still points into the first destination and the traversal never meets the source head again.\<close>

theorem list_move_twice_diverges:
  assumes "clist h src xs" and "xs \<noteq> []" and "node_at h dst" and "dst \<notin> set (src # xs)" and "length xs < fuel"
    and "node_at h dst2" and "dst2 \<noteq> src" and "list_move fuel h dst src = Inr (count, h')"
    and "node_at h' dst2"
  shows "list_move fuel2 h' dst2 src = Inl OutOfFuel"
proof -
  have h': "clist h' dst xs" "nx h' src = Some (hd (xs @ [src]))"
    using list_move_correct [OF assms(1,3,4,5)] assms(8) by auto
  have "hd (xs @ [src]) \<in> set (dst # xs)" using assms(2) by (cases xs) auto
  moreover have "src \<noteq> RT_NULL" "src \<notin> set (dst # xs)" using assms(1,4) by (auto simp: clist_def)
  ultimately show ?thesis
    using list_move_again_diverges [OF h'] assms(7,9) by blast
qed

theorem list_move_twice_diverges_witness:
  "\<exists>h'. list_move 5 sample_lists 4 1 = Inr (2, h') \<and> (\<forall>fuel2. list_move fuel2 h' 4 1 = Inl OutOfFuel)"
proof -
  have pre: "clist sample_lists 1 [2, 3]" "node_at sample_lists 4" by (simp_all add: clist_def node_at_def)
  obtain h' where h': "list_move 5 sample_lists 4 1 = Inr (2, h')" "clist h' 4 [2, 3]"
    using list_move_correct [OF pre, of 5] by auto
  have "list_move fuel2 h' 4 1 = Inl OutOfFuel" for fuel2
    using list_move_twice_diverges [OF pre(1) _ pre(2) _ _ pre(2) _ h'(1), of fuel2]
      clist_nodes [OF h'(2), of 4] by simp
  then show ?thesis using h'(1) by blast
qed

text \<open>\<open>list_sort\<close> never returns on a circular list, whatever its length and the comparison: its loops
  wait for a \<open>next\<close> pointer that is \<open>RT_NULL\<close>, and a circular list has none.\<close>

theorem list_sort_never_returns:
  assumes "clist h head xs" and "node_at h sh" and "sh \<notin> set (head # xs)"
  shows "list_sort fuel h (Some cmp) head sh = Inl OutOfFuel"
  using assms by (rule list_sort_diverges)

theorem list_sort_never_returns_witness:
  "\<forall>fuel. list_sort fuel sample_lists (Some (\<lambda>a b. int a - int b)) 1 4 = Inl OutOfFuel"
  using list_sort_never_returns [of sample_lists 1 "[2, 3]" 4] by (simp add: clist_def node_at_def)

text \<open>\<open>list_destroy\<close> calls the callback once for each node, in list order, and returns, although the
  callback releases the node it is given.\<close>

theorem list_destroy_all:
  assumes "clist h head xs" and "length xs < fuel"
    and "\<And>s h p. destroy s h p = Inr (f p s, drop_node h p)"
  shows "list_destroy fuel (Some destroy) s h head = Inr (fold f xs s, foldl drop_node h xs)"
  using assms by (rule list_destroy_correct)

theorem list_destroy_all_witness:
  "list_destroy 3 (Some (\<lambda>s h p. Inr (p # s, drop_node h p))) [] sample_lists 1
     = Inr ([3, 2], drop_node (drop_node sample_lists 2) 3)"
  using list_destroy_all [of sample_lists 1 "[2, 3]" 3 "\<lambda>s h p. Inr (p # s, drop_node h p)" "\<lambda>p s. p # s" "[]"]
  by (simp add: clist_def)

end
