(* ===== verification/Kstring.thy ===== *)
theory Kstring
  imports Prelude
begin

text \<open>
  The string and memory routines of \<^verbatim>\<open>rt-thread/src/kservice.c\<close>. A \<open>char *\<close> that is only
  read is the sequence of bytes from where it points to the end of its object, so running past
  the object is \<open>OutOfBounds\<close>; a buffer that is written is the whole object with an offset.
  Plain \<open>char\<close> is unsigned, as on the ARM target of the board.
\<close>

section \<open>Bytes and strings\<close>

abbreviation NUL :: char where "NUL \<equiv> CHR 0x00"

text \<open>The bytes of the C string \<open>s\<close> with whatever follows it in its object.\<close>

definition cstr :: "string \<Rightarrow> string \<Rightarrow> char list" where
  "cstr s rest = s @ NUL # rest"

text \<open>A pointer that may be \<open>RT_NULL\<close>.\<close>

definition deref :: "'a option \<Rightarrow> 'a cres" where
  "deref p = (case p of None \<Rightarrow> Inl NullDeref | Some x \<Rightarrow> Inr x)"

lemma deref_simps [simp]: "deref None = Inl NullDeref" "deref (Some x) = Inr x"
  by (simp_all add: deref_def)

text \<open>A checked read and a checked write of a buffer.\<close>

definition rd :: "char list \<Rightarrow> nat \<Rightarrow> char cres" where
  "rd b i = (if i < length b then Inr (b ! i) else Inl OutOfBounds)"

definition wr :: "char list \<Rightarrow> nat \<Rightarrow> char \<Rightarrow> char list cres" where
  "wr b i c = (if i < length b then Inr (b[i := c]) else Inl OutOfBounds)"

section \<open>Read-only string routines\<close>

fun strlen_loop :: "char list \<Rightarrow> nat \<Rightarrow> nat cres" where
  "strlen_loop [] n = Inl OutOfBounds"
| "strlen_loop (c # sc) n = (if c \<noteq> NUL then strlen_loop sc (Suc n) else Inr n)"

definition rt_strlen :: "char list \<Rightarrow> nat cres" where
  "rt_strlen s = strlen_loop s 0"

fun strnlen_loop :: "char list \<Rightarrow> nat \<Rightarrow> nat \<Rightarrow> nat cres" where
  "strnlen_loop [] n maxlen = Inl OutOfBounds"
| "strnlen_loop (c # sc) n maxlen =
     (if c \<noteq> NUL \<and> n < maxlen then strnlen_loop sc (Suc n) maxlen else Inr n)"

definition rt_strnlen :: "char list \<Rightarrow> nat \<Rightarrow> nat cres" where
  "rt_strnlen s maxlen = strnlen_loop s 0 maxlen"

fun rt_strcmp :: "char list \<Rightarrow> char list \<Rightarrow> int cres" where
  "rt_strcmp (c # cs) (d # ct) =
     (if c \<noteq> NUL \<and> c = d then rt_strcmp cs ct else Inr (of_char c - of_char d))"
| "rt_strcmp _ _ = Inl OutOfBounds"

text \<open>The result register of \<open>rt_strncmp\<close> is a \<open>signed char\<close>.\<close>

definition to_schar :: "int \<Rightarrow> int" where
  "to_schar i = (i + 128) mod 256 - 128"

fun strncmp_loop :: "char list \<Rightarrow> char list \<Rightarrow> nat \<Rightarrow> int \<Rightarrow> int cres" where
  "strncmp_loop cs ct 0 res = Inr res"
| "strncmp_loop (c # cs) (d # ct) (Suc count) res =
     (let res = to_schar (of_char c - of_char d)
      in if res \<noteq> 0 \<or> c = NUL then Inr res else strncmp_loop cs ct count res)"
| "strncmp_loop _ _ (Suc count) res = Inl OutOfBounds"

definition rt_strncmp :: "char list \<Rightarrow> char list \<Rightarrow> nat \<Rightarrow> int cres" where
  "rt_strncmp cs ct count = strncmp_loop cs ct count 0"

text \<open>\<open>ca += 'a' - 'A'\<close> for the capital letters.\<close>

definition fold_case :: "int \<Rightarrow> int" where
  "fold_case c = (if 65 \<le> c \<and> c \<le> 90 then c + 32 else c)"

fun rt_strcasecmp :: "char list \<Rightarrow> char list \<Rightarrow> int cres" where
  "rt_strcasecmp (c # a) (d # b) =
     (let ca = fold_case (of_char c); cb = fold_case (of_char d)
      in if ca = cb \<and> ca \<noteq> 0 then rt_strcasecmp a b else Inr (ca - cb))"
| "rt_strcasecmp _ _ = Inl OutOfBounds"

fun memcmp_loop :: "char list \<Rightarrow> char list \<Rightarrow> nat \<Rightarrow> int \<Rightarrow> int cres" where
  "memcmp_loop su1 su2 0 res = Inr res"
| "memcmp_loop (c # su1) (d # su2) (Suc count) res =
     (let res = of_char c - of_char d in if res \<noteq> 0 then Inr res else memcmp_loop su1 su2 count res)"
| "memcmp_loop _ _ (Suc count) res = Inl OutOfBounds"

definition rt_memcmp :: "char list \<Rightarrow> char list \<Rightarrow> nat \<Rightarrow> int cres" where
  "rt_memcmp cs ct count = memcmp_loop cs ct count 0"

text \<open>\<open>rt_strstr\<close>: the result is the pointer into \<open>s1\<close>, or \<open>None\<close> for \<open>RT_NULL\<close>.\<close>

fun strstr_loop :: "char list \<Rightarrow> char list \<Rightarrow> nat \<Rightarrow> nat \<Rightarrow> char list option cres" where
  "strstr_loop s1 s2 0 l2 = (if 0 \<ge> l2 then cbind (rt_memcmp s1 s2 l2) (\<lambda>r. Inr (if r = 0 then Some s1 else None)) else Inr None)"
| "strstr_loop s1 s2 (Suc l1) l2 =
     (if Suc l1 \<ge> l2
      then cbind (rt_memcmp s1 s2 l2) (\<lambda>r. if r = 0 then Inr (Some s1) else strstr_loop (tl s1) s2 l1 l2)
      else Inr None)"

definition rt_strstr :: "char list \<Rightarrow> char list \<Rightarrow> char list option cres" where
  "rt_strstr s1 s2 = cbind (rt_strlen s2) (\<lambda>l2.
     if l2 = 0 then Inr (Some s1) else cbind (rt_strlen s1) (\<lambda>l1. strstr_loop s1 s2 l1 l2))"

section \<open>Routines that write\<close>

fun nul_pad :: "char list \<Rightarrow> nat \<Rightarrow> nat \<Rightarrow> char list cres" where
  "nul_pad b d 0 = Inr b"
| "nul_pad b d (Suc n) = cbind (wr b d NUL) (\<lambda>b. nul_pad b (Suc d) n)"

fun rt_strncpy :: "char list \<Rightarrow> nat \<Rightarrow> char list \<Rightarrow> nat \<Rightarrow> char list cres" where
  "rt_strncpy b d s 0 = Inr b"
| "rt_strncpy b d [] (Suc n) = Inl OutOfBounds"
| "rt_strncpy b d (c # s) (Suc n) =
     cbind (wr b d c) (\<lambda>b. if c = NUL then nul_pad b (Suc d) n else rt_strncpy b (Suc d) s n)"

fun rt_strcpy :: "char list \<Rightarrow> nat \<Rightarrow> char list \<Rightarrow> char list cres" where
  "rt_strcpy b d [] = Inl OutOfBounds"
| "rt_strcpy b d (c # s) =
     (if c \<noteq> NUL then cbind (wr b d c) (\<lambda>b. rt_strcpy b (Suc d) s) else wr b d NUL)"

text \<open>
  \<open>rt_memmove\<close> inside one memory: the backward copy when the destination starts inside the
  source, the forward copy otherwise.
\<close>

fun copy_fwd :: "char list \<Rightarrow> nat \<Rightarrow> nat \<Rightarrow> nat \<Rightarrow> char list cres" where
  "copy_fwd m d s 0 = Inr m"
| "copy_fwd m d s (Suc n) = cbind (rd m s) (\<lambda>c. cbind (wr m d c) (\<lambda>m. copy_fwd m (Suc d) (Suc s) n))"

fun copy_bwd :: "char list \<Rightarrow> nat \<Rightarrow> nat \<Rightarrow> nat \<Rightarrow> char list cres" where
  "copy_bwd m d s 0 = Inr m"
| "copy_bwd m d s (Suc n) = cbind (rd m (s + n)) (\<lambda>c. cbind (wr m (d + n) c) (\<lambda>m. copy_bwd m d s n))"

definition rt_memmove :: "char list \<Rightarrow> nat \<Rightarrow> nat \<Rightarrow> nat \<Rightarrow> char list cres" where
  "rt_memmove m dest src n =
     (if src < dest \<and> dest < src + n then copy_bwd m dest src n else copy_fwd m dest src n)"

text \<open>
  \<open>rt_memcpy\<close>: four words at a time, then a word at a time, then bytes, when both addresses are
  word aligned and the length is at least four words; a word is loaded before it is stored.
\<close>

definition load_word :: "char list \<Rightarrow> nat \<Rightarrow> char list cres" where
  "load_word m s = (if s + 4 \<le> length m then Inr (take 4 (drop s m)) else Inl OutOfBounds)"

definition store_word :: "char list \<Rightarrow> nat \<Rightarrow> char list \<Rightarrow> char list cres" where
  "store_word m d w = (if d + 4 \<le> length m then Inr (take d m @ w @ drop (d + 4) m) else Inl OutOfBounds)"

definition move_word :: "char list \<Rightarrow> nat \<Rightarrow> nat \<Rightarrow> char list cres" where
  "move_word m d s = cbind (load_word m s) (store_word m d)"

fun copy_words :: "char list \<Rightarrow> nat \<Rightarrow> nat \<Rightarrow> nat \<Rightarrow> char list cres" where
  "copy_words m d s len =
     (if 4 \<le> len then cbind (move_word m d s) (\<lambda>m. copy_words m (d + 4) (s + 4) (len - 4))
      else copy_fwd m d s len)"

fun copy_blocks :: "char list \<Rightarrow> nat \<Rightarrow> nat \<Rightarrow> nat \<Rightarrow> char list cres" where
  "copy_blocks m d s len =
     (if 16 \<le> len
      then cbind (move_word m d s) (\<lambda>m. cbind (move_word m (d + 4) (s + 4)) (\<lambda>m.
           cbind (move_word m (d + 8) (s + 8)) (\<lambda>m. cbind (move_word m (d + 12) (s + 12)) (\<lambda>m.
             copy_blocks m (d + 16) (s + 16) (len - 16)))))
      else copy_words m d s len)"

definition rt_memcpy :: "char list \<Rightarrow> nat \<Rightarrow> nat \<Rightarrow> nat \<Rightarrow> char list cres" where
  "rt_memcpy m dst src count =
     (if \<not> count < 16 \<and> src mod 4 = 0 \<and> dst mod 4 = 0 then copy_blocks m dst src count
      else copy_fwd m dst src count)"

text \<open>
  \<open>rt_memset\<close>: the word \<open>buffer\<close> holds the low byte of \<open>c\<close> four times.
\<close>

fun set_bytes :: "char list \<Rightarrow> nat \<Rightarrow> char \<Rightarrow> nat \<Rightarrow> char list cres" where
  "set_bytes m d c 0 = Inr m"
| "set_bytes m d c (Suc n) = cbind (wr m d c) (\<lambda>m. set_bytes m (Suc d) c n)"

fun set_words :: "char list \<Rightarrow> nat \<Rightarrow> char \<Rightarrow> nat \<Rightarrow> char list cres" where
  "set_words m d c count =
     (if 4 \<le> count then cbind (store_word m d (replicate 4 c)) (\<lambda>m. set_words m (d + 4) c (count - 4))
      else set_bytes m d c count)"

fun set_blocks :: "char list \<Rightarrow> nat \<Rightarrow> char \<Rightarrow> nat \<Rightarrow> char list cres" where
  "set_blocks m d c count =
     (if 16 \<le> count
      then cbind (store_word m d (replicate 4 c)) (\<lambda>m. cbind (store_word m (d + 4) (replicate 4 c)) (\<lambda>m.
           cbind (store_word m (d + 8) (replicate 4 c)) (\<lambda>m. cbind (store_word m (d + 12) (replicate 4 c)) (\<lambda>m.
             set_blocks m (d + 16) c (count - 16)))))
      else set_words m d c count)"

definition rt_memset :: "char list \<Rightarrow> nat \<Rightarrow> int \<Rightarrow> nat \<Rightarrow> char list cres" where
  "rt_memset m s c count =
     (let d = char_of (c mod 256)
      in if \<not> count < 4 \<and> s mod 4 = 0 then set_blocks m s d count else set_bytes m s d count)"

declare copy_words.simps [simp del] copy_blocks.simps [simp del]
  set_words.simps [simp del] set_blocks.simps [simp del]

section \<open>Reference operations\<close>

text \<open>Replacing a segment of a buffer.\<close>

definition overlay :: "'a list \<Rightarrow> nat \<Rightarrow> 'a list \<Rightarrow> 'a list" where
  "overlay m d xs = take d m @ xs @ drop (d + length xs) m"

text \<open>Copying between two arrays.\<close>

definition memcpy_arrays :: "char list \<Rightarrow> nat \<Rightarrow> char list \<Rightarrow> nat \<Rightarrow> nat \<Rightarrow> char list cres" where
  "memcpy_arrays dst d src s n =
     (if d + n \<le> length dst \<and> s + n \<le> length src then Inr (overlay dst d (take n (drop s src)))
      else Inl OutOfBounds)"

lemma length_overlay [simp]: "d + length xs \<le> length m \<Longrightarrow> length (overlay m d xs) = length m"
  by (simp add: overlay_def)

lemma overlay_Nil [simp]: "overlay m d [] = m"
  by (simp add: overlay_def)

lemma overlay_Cons: "d < length m \<Longrightarrow> overlay m d (c # xs) = overlay (m[d := c]) (Suc d) xs"
  by (rule nth_equalityI) (auto simp: overlay_def nth_append nth_list_update nth_Cons')

lemma overlay_append:
  "d + length xs + length ys \<le> length m \<Longrightarrow>
   overlay (overlay m d xs) (d + length xs) ys = overlay m d (xs @ ys)"
  by (simp add: overlay_def ac_simps)

lemma drop_overlay_disjoint:
  "s + n \<le> d \<Longrightarrow> d + length xs \<le> length m \<Longrightarrow> take n (drop s (overlay m d xs)) = take n (drop s m)"
  by (rule nth_equalityI) (auto simp: overlay_def nth_append)

lemma drop_overlay_after:
  "d + length xs \<le> s \<Longrightarrow> d + length xs \<le> length m \<Longrightarrow> drop s (overlay m d xs) = drop s m"
  by (simp add: overlay_def drop_append)

lemma rd_ok [simp]: "i < length b \<Longrightarrow> rd b i = Inr (b ! i)"
  by (simp add: rd_def)

lemma wr_ok [simp]: "i < length b \<Longrightarrow> wr b i c = Inr (b[i := c])"
  by (simp add: wr_def)

lemma take_drop_update_beyond: "s + n \<le> i \<Longrightarrow> take n (drop s (m[i := c])) = take n (drop s m)"
  by (rule nth_equalityI) auto

lemma take_Suc_drop: "s < length m \<Longrightarrow> take (Suc n) (drop s m) = m ! s # take n (drop (Suc s) m)"
  by (simp add: Cons_nth_drop_Suc [symmetric])

section \<open>What the copying routines compute\<close>

lemma copy_fwd_overlay:
  assumes "d + n \<le> length m" and "s + n \<le> length m" and "d \<le> s \<or> s + n \<le> d"
  shows "copy_fwd m d s n = Inr (overlay m d (take n (drop s m)))"
  using assms
proof (induction n arbitrary: m d s)
  case 0
  then show ?case by simp
next
  case (Suc n)
  let ?m = "m[d := m ! s]"
  have "take n (drop (Suc s) ?m) = take n (drop (Suc s) m)"
    using Suc.prems(3) by (auto simp: take_drop_update_beyond)
  moreover have "copy_fwd ?m (Suc d) (Suc s) n = Inr (overlay ?m (Suc d) (take n (drop (Suc s) ?m)))"
    using Suc.prems by (intro Suc.IH) auto
  ultimately show ?case
    using Suc.prems by (simp add: take_Suc_drop overlay_Cons)
qed

lemma overlay_snoc:
  "d + length xs < length m \<Longrightarrow> overlay (m[d + length xs := c]) d xs = overlay m d (xs @ [c])"
  by (rule nth_equalityI) (auto simp: overlay_def nth_append nth_list_update)

lemma copy_bwd_overlay:
  assumes "d + n \<le> length m" and "s \<le> d"
  shows "copy_bwd m d s n = Inr (overlay m d (take n (drop s m)))"
  using assms
proof (induction n arbitrary: m)
  case 0
  then show ?case by simp
next
  case (Suc n)
  let ?m = "m[d + n := m ! (s + n)]"
  have "take n (drop s ?m) = take n (drop s m)"
    using Suc.prems by (simp add: take_drop_update_beyond)
  moreover have "copy_bwd ?m d s n = Inr (overlay ?m d (take n (drop s ?m)))"
    using Suc.prems by (intro Suc.IH) auto
  moreover have "take (Suc n) (drop s m) = take n (drop s m) @ [m ! (s + n)]"
    using Suc.prems by (simp add: take_Suc_conv_app_nth)
  ultimately show ?case
    using Suc.prems overlay_snoc [of d "take n (drop s m)" m "m ! (s + n)"] by simp
qed

lemma move_word_overlay:
  "d + 4 \<le> length m \<Longrightarrow> s + 4 \<le> length m \<Longrightarrow> move_word m d s = Inr (overlay m d (take 4 (drop s m)))"
  by (simp add: move_word_def load_word_def store_word_def overlay_def)

text \<open>Splicing a prefix and then copying the rest is splicing the whole.\<close>

lemma overlay_copy_rest:
  assumes "d + n \<le> length m" and "s + n \<le> length m" and "d \<le> s \<or> s + n \<le> d" and "k \<le> n"
  shows "overlay (overlay m d (take k (drop s m))) (d + k)
           (take (n - k) (drop (s + k) (overlay m d (take k (drop s m))))) = overlay m d (take n (drop s m))"
proof -
  let ?m = "overlay m d (take k (drop s m))"
  have "take (n - k) (drop (s + k) ?m) = take (n - k) (drop (s + k) m)"
    using assms by (auto simp: drop_overlay_after drop_overlay_disjoint)
  moreover have "take n (drop s m) = take k (drop s m) @ take (n - k) (drop (s + k) m)"
    using assms(4) take_add [of k "n - k" "drop s m"] by (simp add: add.commute)
  ultimately show ?thesis
    using assms overlay_append [of d "take k (drop s m)" "take (n - k) (drop (s + k) m)" m] by simp
qed

lemma copy_words_overlay:
  assumes "d + n \<le> length m" and "s + n \<le> length m" and "d \<le> s \<or> s + n \<le> d"
  shows "copy_words m d s n = Inr (overlay m d (take n (drop s m)))"
  using assms
proof (induction m d s n rule: copy_words.induct)
  case (1 m d s len)
  show ?case
  proof (cases "4 \<le> len")
    case True
    let ?m = "overlay m d (take 4 (drop s m))"
    have "copy_words ?m (d + 4) (s + 4) (len - 4)
            = Inr (overlay ?m (d + 4) (take (len - 4) (drop (s + 4) ?m)))"
      using True 1 move_word_overlay [of d m s] by (intro "1.IH") auto
    then show ?thesis
      using True 1 overlay_copy_rest [of d len m s 4] move_word_overlay [of d m s]
      by (simp add: copy_words.simps [of m d s len])
  next
    case False
    with 1 show ?thesis
      by (simp add: copy_words.simps [of m d s len] copy_fwd_overlay)
  qed
qed

text \<open>Four words moved one after the other are sixteen bytes moved.\<close>

lemma move_four_words:
  assumes "d + 16 \<le> length m" and "s + 16 \<le> length m" and "d \<le> s \<or> s + 16 \<le> d"
  shows "cbind (move_word m d s) (\<lambda>m. cbind (move_word m (d + 4) (s + 4)) (\<lambda>m.
           cbind (move_word m (d + 8) (s + 8)) (\<lambda>m. move_word m (d + 12) (s + 12))))
         = Inr (overlay m d (take 16 (drop s m)))"
proof -
  define P where "P k = overlay m d (take k (drop s m))" for k
  have step: "move_word (P k) (d + k) (s + k) = Inr (P (k + 4))" if "k \<le> 12" for k
  proof -
    have "length (P k) = length m"
      using assms that by (auto simp: P_def)
    then have "move_word (P k) (d + k) (s + k) = Inr (overlay (P k) (d + k) (take 4 (drop (s + k) (P k))))"
      using assms that by (intro move_word_overlay) auto
    also have "\<dots> = Inr (P (k + 4))"
      using assms that overlay_copy_rest [of d "k + 4" m s k] unfolding P_def by auto
    finally show ?thesis .
  qed
  have "move_word m d s = Inr (P 4)"
    using step [of 0] by (simp add: P_def)
  then show ?thesis
    using step [of 4] step [of 8] step [of 12] by (simp add: P_def [of 16, symmetric])
qed

lemma cbind_four:
  "cbind A (\<lambda>a. cbind (B a) (\<lambda>b. cbind (C b) (\<lambda>c. cbind (D c) E)))
     = cbind (cbind A (\<lambda>a. cbind (B a) (\<lambda>b. cbind (C b) D))) E"
  by (simp add: cbind_assoc)

lemma copy_blocks_overlay:
  assumes "d + n \<le> length m" and "s + n \<le> length m" and "d \<le> s \<or> s + n \<le> d"
  shows "copy_blocks m d s n = Inr (overlay m d (take n (drop s m)))"
  using assms
proof (induction n arbitrary: m d s rule: less_induct)
  case (less n)
  show ?case
  proof (cases "16 \<le> n")
    case True
    let ?m = "overlay m d (take 16 (drop s m))"
    have "copy_blocks ?m (d + 16) (s + 16) (n - 16)
            = Inr (overlay ?m (d + 16) (take (n - 16) (drop (s + 16) ?m)))"
      using True less.prems by (intro less.IH) auto
    moreover have "copy_blocks m d s n = cbind (Inr ?m) (\<lambda>m. copy_blocks m (d + 16) (s + 16) (n - 16))"
    proof -
      have "cbind (move_word m d s) (\<lambda>m. cbind (move_word m (d + 4) (s + 4)) (\<lambda>m.
           cbind (move_word m (d + 8) (s + 8)) (\<lambda>m. move_word m (d + 12) (s + 12)))) = Inr ?m"
        using True less.prems by (intro move_four_words) auto
      then show ?thesis
        unfolding copy_blocks.simps [of m d s n] if_P [OF True] cbind_four by (rule arg_cong)
    qed
    ultimately show ?thesis
      using True less.prems overlay_copy_rest [of d n m s 16] by simp
  next
    case False
    with less.prems show ?thesis
      by (simp add: copy_blocks.simps [of m d s n] copy_words_overlay)
  qed
qed

lemma rt_memcpy_overlay:
  "d + n \<le> length m \<Longrightarrow> s + n \<le> length m \<Longrightarrow> d \<le> s \<or> s + n \<le> d \<Longrightarrow>
   rt_memcpy m d s n = Inr (overlay m d (take n (drop s m)))"
  unfolding rt_memcpy_def by (auto simp: copy_blocks_overlay copy_fwd_overlay)

lemma rt_memmove_overlay:
  "d + n \<le> length m \<Longrightarrow> s + n \<le> length m \<Longrightarrow>
   rt_memmove m d s n = Inr (overlay m d (take n (drop s m)))"
  unfolding rt_memmove_def by (auto simp: copy_bwd_overlay copy_fwd_overlay)

section \<open>What \<open>rt_memset\<close> computes\<close>

lemma set_bytes_overlay: "d + n \<le> length m \<Longrightarrow> set_bytes m d c n = Inr (overlay m d (replicate n c))"
  by (induction n arbitrary: m d) (auto simp: overlay_Cons)

lemma store_word_overlay:
  "d + 4 \<le> length m \<Longrightarrow> store_word m d (replicate 4 c) = Inr (overlay m d (replicate 4 c))"
  by (simp add: store_word_def overlay_def)

lemma overlay_replicate_rest:
  "d + k + n \<le> length m \<Longrightarrow>
   overlay (overlay m d (replicate k c)) (d + k) (replicate n c) = overlay m d (replicate (k + n) c)"
  using overlay_append [of d "replicate k c" "replicate n c" m] by (simp add: replicate_add)

lemma set_words_overlay: "d + n \<le> length m \<Longrightarrow> set_words m d c n = Inr (overlay m d (replicate n c))"
proof (induction n arbitrary: m d rule: less_induct)
  case (less n)
  show ?case
  proof (cases "4 \<le> n")
    case True
    let ?m = "overlay m d (replicate 4 c)"
    have "set_words ?m (d + 4) c (n - 4) = Inr (overlay ?m (d + 4) (replicate (n - 4) c))"
      using True less.prems by (intro less.IH) auto
    also have "\<dots> = Inr (overlay m d (replicate n c))"
      using True less.prems overlay_replicate_rest [of d 4 "n - 4" m c] by simp
    finally show ?thesis
      using True less.prems by (simp add: set_words.simps [of m] store_word_overlay)
  next
    case False
    with less.prems show ?thesis by (simp add: set_words.simps [of m] set_bytes_overlay)
  qed
qed

lemma set_four_words:
  assumes "d + 16 \<le> length m"
  shows "cbind (store_word m d (replicate 4 c)) (\<lambda>m. cbind (store_word m (d + 4) (replicate 4 c)) (\<lambda>m.
           cbind (store_word m (d + 8) (replicate 4 c)) (\<lambda>m. store_word m (d + 12) (replicate 4 c))))
         = Inr (overlay m d (replicate 16 c))"
proof -
  define P where "P k = overlay m d (replicate k c)" for k
  have step: "store_word (P k) (d + k) (replicate 4 c) = Inr (P (k + 4))" if "k \<le> 12" for k
  proof -
    have "length (P k) = length m"
      using assms that by (auto simp: P_def)
    then have "store_word (P k) (d + k) (replicate 4 c) = Inr (overlay (P k) (d + k) (replicate 4 c))"
      using assms that by (intro store_word_overlay) auto
    also have "\<dots> = Inr (P (k + 4))"
      using assms that overlay_replicate_rest [of d k 4 m c] unfolding P_def by auto
    finally show ?thesis .
  qed
  have "store_word m d (replicate 4 c) = Inr (P 4)"
    using step [of 0] by (simp add: P_def)
  then show ?thesis
    using step [of 4] step [of 8] step [of 12] by (simp add: P_def [of 16, symmetric])
qed

lemma set_blocks_overlay: "d + n \<le> length m \<Longrightarrow> set_blocks m d c n = Inr (overlay m d (replicate n c))"
proof (induction n arbitrary: m d rule: less_induct)
  case (less n)
  show ?case
  proof (cases "16 \<le> n")
    case True
    let ?m = "overlay m d (replicate 16 c)"
    have "set_blocks m d c n = cbind (Inr ?m) (\<lambda>m. set_blocks m (d + 16) c (n - 16))"
      unfolding set_blocks.simps [of m d c n] if_P [OF True] cbind_four
      by (rule arg_cong) (use True less.prems in \<open>intro set_four_words, auto\<close>)
    also have "\<dots> = Inr (overlay ?m (d + 16) (replicate (n - 16) c))"
      using True less.prems by (simp, intro less.IH) auto
    also have "\<dots> = Inr (overlay m d (replicate n c))"
      using True less.prems overlay_replicate_rest [of d 16 "n - 16" m c] by simp
    finally show ?thesis .
  next
    case False
    with less.prems show ?thesis by (simp add: set_blocks.simps [of m] set_words_overlay)
  qed
qed

lemma rt_memset_overlay:
  "d + n \<le> length m \<Longrightarrow> rt_memset m d c n = Inr (overlay m d (replicate n (char_of (c mod 256))))"
  unfolding rt_memset_def by (auto simp: Let_def set_blocks_overlay set_bytes_overlay)

text \<open>\<open>memcpy_arrays\<close> is what \<open>rt_memcpy\<close> does on the memory that holds both arrays.\<close>

lemma memcpy_arrays_rt_memcpy:
  assumes "memcpy_arrays dst d src s n = Inr b"
  shows "rt_memcpy (dst @ src) d (length dst + s) n = Inr (b @ src)"
  using assms rt_memcpy_overlay [of d n "dst @ src" "length dst + s"]
  by (auto simp: memcpy_arrays_def overlay_def split: if_splits)

section \<open>What the string routines compute\<close>

lemma strlen_loop_cstr: "NUL \<notin> set s \<Longrightarrow> strlen_loop (cstr s r) n = Inr (n + length s)"
  by (induction s arbitrary: n) (auto simp: cstr_def)

lemma rt_strlen_cstr [simp]: "NUL \<notin> set s \<Longrightarrow> rt_strlen (cstr s r) = Inr (length s)"
  by (simp add: rt_strlen_def strlen_loop_cstr)

text \<open>The bytes of a string as numbers, in which C compares them.\<close>

definition bytes :: "string \<Rightarrow> int list" where
  "bytes s = map of_char s"

lemma of_char_eq_0 [simp]: "of_char c = (0::int) \<longleftrightarrow> c = NUL"
proof -
  have "of_char c = (0::int) \<longleftrightarrow> of_char c = (of_char NUL :: int)" by simp
  also have "\<dots> \<longleftrightarrow> c = NUL" by (simp only: of_char_eq_iff)
  finally show ?thesis .
qed

lemma of_char_nonneg [simp]: "0 \<le> (of_char c :: int)"
  by (simp add: of_char_def)

lemma of_char_pos [simp]: "0 < (of_char c :: int) \<longleftrightarrow> c \<noteq> NUL"
  using of_char_nonneg [of c] of_char_eq_0 [of c] by linarith

lemma of_char_not_neg [simp]: "\<not> (of_char c :: int) < 0"
  by (simp add: not_less)

lemma rt_strcmp_cstr:
  assumes "NUL \<notin> set a" and "NUL \<notin> set b"
  shows "\<exists>r. rt_strcmp (cstr a x) (cstr b y) = Inr r \<and> (r = 0 \<longleftrightarrow> a = b)
    \<and> (r < 0 \<longleftrightarrow> ord_class.lexordp (bytes a) (bytes b))"
  using assms
proof (induction a arbitrary: b)
  case Nil
  then show ?case by (cases b) (auto simp: cstr_def bytes_def)
next
  case (Cons c a)
  show ?case
  proof (cases b)
    case Nil
    with Cons.prems show ?thesis by (auto simp: cstr_def bytes_def)
  next
    case (Cons d b')
    then have nb: "NUL \<notin> set b'" and d: "d \<noteq> NUL"
      using \<open>NUL \<notin> set b\<close> by auto
    show ?thesis
    proof (cases "c = d")
      case True
      then show ?thesis
        using Cons Cons.IH [OF _ nb] Cons.prems by (auto simp: cstr_def bytes_def)
    next
      case False
      then have "(of_char c :: int) \<noteq> of_char d" by simp
      then have "(of_char c :: int) < of_char d \<or> (of_char d :: int) < of_char c" by linarith
      with False Cons show ?thesis by (auto simp: cstr_def bytes_def)
    qed
  qed
qed

lemma nul_pad_overlay: "d + n \<le> length b \<Longrightarrow> nul_pad b d n = Inr (overlay b d (replicate n NUL))"
  by (induction n arbitrary: b d) (auto simp: overlay_Cons)

lemma rt_strncpy_overlay:
  assumes "NUL \<notin> set s" and "d + n \<le> length b"
  shows "rt_strncpy b d (cstr s r) n = Inr (overlay b d (take n (s @ replicate n NUL)))"
  using assms
proof (induction n arbitrary: b d s)
  case 0
  then show ?case by simp
next
  case (Suc n)
  show ?case
  proof (cases s)
    case Nil
    with Suc.prems show ?thesis by (simp add: cstr_def nul_pad_overlay overlay_Cons)
  next
    case (Cons c s')
    then have "rt_strncpy (b[d := c]) (Suc d) (cstr s' r) n
        = Inr (overlay (b[d := c]) (Suc d) (take n (s' @ replicate n NUL)))"
      using Suc.prems by (intro Suc.IH) auto
    moreover have "take n (s' @ replicate (Suc n) NUL) = take n (s' @ replicate n NUL)"
      by (simp del: replicate.simps)
    ultimately show ?thesis
      using Cons Suc.prems by (auto simp: cstr_def overlay_Cons simp del: replicate.simps)
  qed
qed

lemma rt_strcpy_overlay:
  "NUL \<notin> set s \<Longrightarrow> d + length s < length b \<Longrightarrow> rt_strcpy b d (cstr s r) = Inr (overlay b d (s @ [NUL]))"
  by (induction s arbitrary: b d) (auto simp: cstr_def overlay_Cons)

lemma rt_strcmp_eq_0:
  "NUL \<notin> set a \<Longrightarrow> NUL \<notin> set b \<Longrightarrow>
   cbind (rt_strcmp (cstr a x) (cstr b y)) (\<lambda>r. f (r = 0)) = f (a = b)"
  using rt_strcmp_cstr [of a b x y] by auto

lemma of_char_less_256 [simp]: "(of_char c :: int) < 256"
  using of_char_of [where 'a = int, of "of_char c"] by (simp add: of_char_def horner_sum_simps)

lemma to_schar_eq_0:
  assumes "-256 < i" "i < 256" shows "to_schar i = 0 \<longleftrightarrow> i = 0"
proof
  assume "to_schar i = 0"
  then have "(i + 128) mod 256 = 128" by (simp add: to_schar_def)
  then have "(i + 128 - 128) mod 256 = (128 - 128) mod (256::int)"
    by (intro mod_diff_cong) simp_all
  then have "256 dvd i" by (simp add: dvd_eq_mod_eq_0)
  then obtain k where "i = 256 * k" ..
  with assms show "i = 0" by simp
qed (simp add: to_schar_def)

lemma to_schar_char [simp]: "to_schar (of_char c - of_char d) = 0 \<longleftrightarrow> c = d"
proof -
  have "-256 < of_char c - (of_char d :: int)" "of_char c - (of_char d :: int) < 256"
    using of_char_less_256 [of c] of_char_less_256 [of d] of_char_nonneg [of c] of_char_nonneg [of d]
    by linarith+
  then show ?thesis by (simp add: to_schar_eq_0)
qed

lemma to_schar_minus_char [simp]: "to_schar (- of_char d) = 0 \<longleftrightarrow> d = NUL" "to_schar (of_char d) = 0 \<longleftrightarrow> d = NUL"
  "to_schar 0 = 0"
  using to_schar_char [of NUL d] to_schar_char [of d NUL] to_schar_char [of d d]
  by (simp_all del: to_schar_char) auto

lemma strncmp_loop_eq:
  assumes "NUL \<notin> set a" and "NUL \<notin> set b"
  shows "\<exists>r. strncmp_loop (cstr a x) (cstr b y) n 0 = Inr r \<and> (r = 0 \<longleftrightarrow> take n a = take n b)"
  using assms
proof (induction n arbitrary: a b)
  case 0
  then show ?case by simp
next
  case (Suc n)
  show ?case
  proof (cases a)
    case Nil
    then show ?thesis using Suc.prems by (cases b) (auto simp: cstr_def Let_def)
  next
    case a: (Cons c a')
    show ?thesis
    proof (cases b)
      case Nil
      then show ?thesis using a Suc.prems by (auto simp: cstr_def Let_def)
    next
      case (Cons d b')
      then show ?thesis
        using a Suc.prems Suc.IH [of a' b'] by (auto simp: cstr_def Let_def)
    qed
  qed
qed

lemma strnlen_loop_cstr:
  "NUL \<notin> set s \<Longrightarrow> n \<le> maxlen \<Longrightarrow> strnlen_loop (cstr s r) n maxlen = Inr (min (n + length s) maxlen)"
  by (induction s arbitrary: n) (auto simp: cstr_def)

lemma strnlen_loop_full:
  "NUL \<notin> set s \<Longrightarrow> n + length s = maxlen \<Longrightarrow> strnlen_loop s n maxlen = Inl OutOfBounds"
  by (induction s arbitrary: n) auto

lemma fold_case_eq_0 [simp]: "fold_case (of_char c) = 0 \<longleftrightarrow> c = NUL"
  using of_char_eq_0 [of c] of_char_nonneg [of c] unfolding fold_case_def by (auto split: if_splits)

lemma rt_strcasecmp_cstr:
  assumes "NUL \<notin> set a" and "NUL \<notin> set b"
  shows "\<exists>r. rt_strcasecmp (cstr a x) (cstr b y) = Inr r
    \<and> (r = 0 \<longleftrightarrow> map fold_case (bytes a) = map fold_case (bytes b))"
  using assms
proof (induction a arbitrary: b)
  case Nil
  have "fold_case 0 = 0" by (simp add: fold_case_def)
  with Nil show ?case by (cases b) (auto simp: cstr_def bytes_def Let_def)
next
  case (Cons c a)
  have "fold_case 0 = 0" by (simp add: fold_case_def)
  with Cons show ?case by (cases b) (auto simp: cstr_def bytes_def Let_def)
qed

section \<open>Properties\<close>

text \<open>The word-wise \<open>rt_memcpy\<close> and the directional \<open>rt_memmove\<close> both put the \<open>n\<close> source bytes at the
  destination and change nothing else: \<open>rt_memmove\<close> for every overlap, \<open>rt_memcpy\<close> when the ranges are
  disjoint or the destination lies below the source. No access leaves the memory.\<close>

theorem memory_copies_agree:
  assumes "d + n \<le> length m" and "s + n \<le> length m"
  shows "rt_memmove m d s n = Inr (overlay m d (take n (drop s m)))
    \<and> (d \<le> s \<or> s + n \<le> d \<longrightarrow> rt_memcpy m d s n = rt_memmove m d s n)"
  using rt_memmove_overlay [OF assms] rt_memcpy_overlay [OF assms] by simp

theorem memory_copies_agree_witness:
  "rt_memmove ''abcdefghijklmnopqrstuvwxyz'' 2 0 20 = Inr ''ababcdefghijklmnopqrstwxyz''
    \<and> rt_memcpy ''abcdefghijklmnopqrstuvwxyz'' 0 4 21 = Inr ''efghijklmnopqrstuvwxyvwxyz''"
  using memory_copies_agree [of 2 20 "''abcdefghijklmnopqrstuvwxyz''" 0]
    memory_copies_agree [of 0 21 "''abcdefghijklmnopqrstuvwxyz''" 4]
  by (simp add: overlay_def)

text \<open>\<open>rt_memset\<close>, with its aligned word and block loops, fills exactly the given range with the low
  byte of its argument.\<close>

theorem rt_memset_fills:
  assumes "d + n \<le> length m"
  shows "rt_memset m d c n = Inr (overlay m d (replicate n (char_of (c mod 256))))"
  using assms by (rule rt_memset_overlay)

theorem rt_memset_fills_witness:
  "rt_memset (replicate 12 CHR ''x'') 3 (256 + 97) 8 = Inr (''xxx'' @ replicate 8 CHR ''a'' @ ''x'')"
  using rt_memset_fills [of 3 8 "replicate 12 CHR ''x''" "256 + 97"]
  by (simp add: overlay_def numeral_eq_Suc char_of_def)

text \<open>\<open>rt_strcmp\<close> and \<open>rt_strncmp\<close> return zero exactly for equal strings (equal first \<open>n\<close> bytes), and the
  sign of \<open>rt_strcmp\<close> is the lexicographic order of the bytes.\<close>

theorem string_comparison:
  assumes "NUL \<notin> set a" and "NUL \<notin> set b"
  shows "(\<exists>r. rt_strcmp (cstr a x) (cstr b y) = Inr r \<and> (r = 0 \<longleftrightarrow> a = b)
      \<and> (r < 0 \<longleftrightarrow> ord_class.lexordp (bytes a) (bytes b)))
    \<and> (\<exists>r. rt_strncmp (cstr a x) (cstr b y) n = Inr r \<and> (r = 0 \<longleftrightarrow> take n a = take n b))"
  using rt_strcmp_cstr [OF assms, of x y] strncmp_loop_eq [OF assms, of x y n] by (simp add: rt_strncmp_def)

theorem string_comparison_witness:
  "\<exists>r. rt_strcmp (cstr ''jpg'' []) (cstr ''png'' []) = Inr r \<and> r < 0"
  using string_comparison [of "''jpg''" "''png''" "[]" "[]" 0] by (auto simp: bytes_def of_char_def)

text \<open>The sign of \<open>rt_strncmp\<close> is not the order of the strings: the difference of two bytes is kept in
  a \<open>signed char\<close>, so a string that starts with the byte 200 compares as smaller than one that
  starts with the byte 16.\<close>

theorem rt_strncmp_sign_wraps:
  "rt_strncmp (cstr [char_of (200 :: nat)] []) (cstr [char_of (16 :: nat)] []) 1 = Inr (- 72)
    \<and> rt_strcmp (cstr [char_of (200 :: nat)] []) (cstr [char_of (16 :: nat)] []) = Inr 184"
  by code_simp

text \<open>\<open>rt_strnlen\<close> on an array of exactly \<open>maxlen\<close> bytes with no terminator reads one byte past its end,
  because it looks at the byte before it compares the count; with a terminator it returns the
  smaller of the length and \<open>maxlen\<close>.\<close>

theorem rt_strnlen_reads_past:
  assumes "NUL \<notin> set s"
  shows "rt_strnlen s (length s) = Inl OutOfBounds \<and> rt_strnlen (cstr s r) maxlen = Inr (min (length s) maxlen)"
  using strnlen_loop_full [OF assms, of 0 "length s"] strnlen_loop_cstr [OF assms, of 0 maxlen r]
  by (simp add: rt_strnlen_def)

theorem rt_strnlen_reads_past_witness: "rt_strnlen ''name'' 4 = Inl OutOfBounds"
  using rt_strnlen_reads_past [of "''name''"] by (simp add: eval_nat_numeral)

end
