(* ===== verification/Common_Paths.thy ===== *)
theory Common_Paths
  imports Kstring
begin

text \<open>
  The path utilities of \<^verbatim>\<open>applications/common_utils.c\<close>. A \<open>const char *\<close> argument is
  \<open>None\<close> for \<open>RT_NULL\<close>; a pointer into a string is the rest of its bytes from there.
\<close>

fun rfind_loop :: "char list \<Rightarrow> char \<Rightarrow> nat \<Rightarrow> char list option cres" where
  "rfind_loop str c 0 = Inr None"
| "rfind_loop str c (Suc i) =
     cbind (rd str i) (\<lambda>x. if x = c then Inr (Some (drop i str)) else rfind_loop str c i)"

definition str_rfind :: "char list option \<Rightarrow> char \<Rightarrow> char list option cres" where
  "str_rfind str c =
     (case str of None \<Rightarrow> Inr None | Some s \<Rightarrow> cbind (rt_strlen s) (\<lambda>len. rfind_loop s c len))"

definition path_get_ext :: "char list option \<Rightarrow> char list option cres" where
  "path_get_ext path = cbind (str_rfind path CHR ''.'') (\<lambda>dot.
     case dot of Some d \<Rightarrow> Inr (Some (tl d)) | None \<Rightarrow> Inr None)"

definition path_is_image :: "char list option \<Rightarrow> bool cres" where
  "path_is_image path =
     (case path of None \<Rightarrow> Inr False
      | Some _ \<Rightarrow> cbind (path_get_ext path) (\<lambda>ext.
          cbind (deref ext) (\<lambda>e. cbind (rt_strcmp e (cstr ''jpg'' [])) (\<lambda>r.
            if r = 0 then Inr True
            else cbind (deref ext) (\<lambda>e. cbind (rt_strcmp e (cstr ''png'' [])) (\<lambda>r. Inr (r = 0)))))))"

text \<open>
  \<open>path_join\<close>: the block \<open>rt_malloc\<close> hands out for the request (or \<open>None\<close>) is the argument
  \<open>malloc\<close>; the lengths are \<open>unsigned\<close>, so their sum wraps around at 32 bits.
\<close>

definition path_join ::
  "(nat \<Rightarrow> char list option) \<Rightarrow> char list option \<Rightarrow> char list option \<Rightarrow> nat \<Rightarrow> char list option cres" where
  "path_join malloc dir file file_len =
     (case (dir, file) of
        (Some dir, Some file) \<Rightarrow>
          cbind (rt_strlen dir) (\<lambda>dir_len.
            let path_len = (dir_len + 1 + file_len + 1) mod 2 ^ 32
            in case malloc path_len of
                 None \<Rightarrow> Inr None
               | Some path \<Rightarrow>
                   cbind (rt_strncpy path 0 dir dir_len) (\<lambda>path.
                   cbind (wr path dir_len CHR ''/'') (\<lambda>path.
                   cbind (rt_strncpy path (dir_len + 1) file file_len) (\<lambda>path.
                   cbind (wr path ((path_len + (2 ^ 32 - 1)) mod 2 ^ 32) NUL) (\<lambda>path.
                     Inr (Some path))))))
      | _ \<Rightarrow> Inr None)"

section \<open>Extensions\<close>

lemma rfind_loop_none: "c \<notin> set (take n s) \<Longrightarrow> n \<le> length s \<Longrightarrow> rfind_loop s c n = Inr None"
proof (induction n)
  case 0
  then show ?case by simp
next
  case (Suc n)
  then have "s ! n \<noteq> c" "c \<notin> set (take n s)"
    by (auto simp: take_Suc_conv_app_nth)
  with Suc show ?case by simp
qed

lemma rfind_loop_found:
  assumes "c \<notin> set e" and "s = b @ c # e @ r" and "n = length (b @ c # e)"
  shows "rfind_loop s c n = Inr (Some (c # e @ r))"
  using assms
proof (induction e arbitrary: n r rule: rev_induct)
  case Nil
  then show ?case by simp
next
  case (snoc x e)
  have "s ! (length b + Suc (length e)) = x"
    using snoc.prems(2) by (simp add: nth_append)
  moreover have "rfind_loop s c (length (b @ c # e)) = Inr (Some (c # e @ (x # r)))"
    using snoc.prems by (intro snoc.IH) auto
  moreover have "n = Suc (length (b @ c # e))"
    using snoc.prems(3) by simp
  moreover have "length b + Suc (length e) < length s" "x \<noteq> c"
    using snoc.prems by auto
  ultimately show ?case
    by (simp del: snoc.prems)
qed

lemma cstr_Cons [simp]: "cstr (c # s) r = c # cstr s r"
  by (simp add: cstr_def)

lemma str_rfind_none:
  assumes "NUL \<notin> set s" and "c \<notin> set s"
  shows "str_rfind (Some (cstr s r)) c = Inr None"
proof -
  have "rfind_loop (cstr s r) c (length s) = Inr None"
    using assms(2) by (intro rfind_loop_none) (auto simp: cstr_def)
  then show ?thesis using assms(1) by (simp add: str_rfind_def)
qed

lemma str_rfind_found:
  assumes "NUL \<notin> set (b @ c # e)" and "c \<notin> set e"
  shows "str_rfind (Some (cstr (b @ c # e) r)) c = Inr (Some (cstr (c # e) r))"
proof -
  have "rfind_loop (cstr (b @ c # e) r) c (length (b @ c # e)) = Inr (Some (cstr (c # e) r))"
    using rfind_loop_found [OF assms(2), of "cstr (b @ c # e) r" b "NUL # r"] by (simp add: cstr_def)
  then show ?thesis
    unfolding str_rfind_def using rt_strlen_cstr [OF assms(1), of r] by simp
qed

lemma path_get_ext_none:
  "NUL \<notin> set s \<Longrightarrow> CHR ''.'' \<notin> set s \<Longrightarrow> path_get_ext (Some (cstr s r)) = Inr None"
  by (simp add: path_get_ext_def str_rfind_none)

lemma path_get_ext_found:
  "NUL \<notin> set (b @ CHR ''.'' # e) \<Longrightarrow> CHR ''.'' \<notin> set e \<Longrightarrow>
   path_get_ext (Some (cstr (b @ CHR ''.'' # e) r)) = Inr (Some (cstr e r))"
  unfolding path_get_ext_def using str_rfind_found [of b "CHR ''.''" e r] by simp

text \<open>The last dot of a path splits it; a path without a dot has no extension.\<close>

lemma path_is_image_found:
  assumes "NUL \<notin> set (b @ CHR ''.'' # e)" and "CHR ''.'' \<notin> set e"
  shows "path_is_image (Some (cstr (b @ CHR ''.'' # e) r)) = Inr (e = ''jpg'' \<or> e = ''png'')"
proof -
  have e: "NUL \<notin> set e" using assms(1) by simp
  obtain j where j: "rt_strcmp (cstr e r) (cstr ''jpg'' []) = Inr j" "j = 0 \<longleftrightarrow> e = ''jpg''"
    using rt_strcmp_cstr [OF e, of "''jpg''" r "[]"] by auto
  obtain p where p: "rt_strcmp (cstr e r) (cstr ''png'' []) = Inr p" "p = 0 \<longleftrightarrow> e = ''png''"
    using rt_strcmp_cstr [OF e, of "''png''" r "[]"] by auto
  show ?thesis
    using path_get_ext_found [OF assms, of r] j p by (simp add: path_is_image_def)
qed

lemma path_is_image_no_dot:
  "NUL \<notin> set s \<Longrightarrow> CHR ''.'' \<notin> set s \<Longrightarrow> path_is_image (Some (cstr s r)) = Inl NullDeref"
  by (simp add: path_is_image_def path_get_ext_none)

section \<open>Joining paths\<close>

lemma overlay_whole: "length xs = length b \<Longrightarrow> overlay b 0 xs = xs"
  by (simp add: overlay_def)

lemma path_join_some:
  assumes "NUL \<notin> set dir" and "NUL \<notin> set file" and len: "length dir + file_len + 2 < 2 ^ 32"
    and m: "malloc (length dir + file_len + 2) = Some b" "length b = length dir + file_len + 2"
  shows "path_join malloc (Some (cstr dir x)) (Some (cstr file y)) file_len
    = Inr (Some (dir @ ''/'' @ take file_len (file @ replicate file_len NUL) @ [NUL]))"
proof -
  let ?d = "length dir"
  define f where "f = take file_len (file @ replicate file_len NUL)"
  have lf: "length f = file_len" by (simp add: f_def)
  let ?b1 = "overlay b 0 dir" and ?b2 = "overlay b 0 (dir @ ''/'')" and ?b3 = "overlay b 0 (dir @ ''/'' @ f)"
  have n: "(?d + 1 + file_len + 1) mod 2 ^ 32 = ?d + file_len + 2"
    "(?d + file_len + 2 + (2 ^ 32 - 1)) mod 2 ^ 32 = ?d + file_len + 1"
    using len mod_add_self1 [of "2 ^ 32" "?d + file_len + 1"] by simp_all
  have 1: "rt_strncpy b 0 (cstr dir x) ?d = Inr ?b1"
    using assms(1) m(2) by (simp add: rt_strncpy_overlay)
  have 2: "wr ?b1 ?d CHR ''/'' = Inr ?b2"
    using m(2) overlay_append [of 0 dir "''/''" b] by (simp add: overlay_Cons)
  have 3: "rt_strncpy ?b2 (?d + 1) (cstr file y) file_len = Inr ?b3"
  proof -
    have "rt_strncpy ?b2 (?d + 1) (cstr file y) file_len = Inr (overlay ?b2 (?d + 1) f)"
      using assms(2) m(2) unfolding f_def by (intro rt_strncpy_overlay) simp_all
    then show ?thesis
      using m(2) lf overlay_append [of 0 "dir @ ''/''" f b] by simp
  qed
  have 4: "wr ?b3 (?d + file_len + 1) NUL = Inr (overlay b 0 (dir @ ''/'' @ f @ [NUL]))"
    using m(2) lf overlay_append [of 0 "dir @ ''/'' @ f" "[NUL]" b] by (simp add: overlay_Cons)
  have "overlay b 0 (dir @ ''/'' @ f @ [NUL]) = dir @ ''/'' @ f @ [NUL]"
    using m(2) lf by (intro overlay_whole) simp
  then show ?thesis
    using assms(1) n m(1) 1 2 3 4 by (simp add: path_join_def Let_def f_def)
qed

section \<open>Properties\<close>

text \<open>The part of a path after its last dot.\<close>

definition extension :: "string \<Rightarrow> string" where
  "extension s = rev (takeWhile (\<lambda>c. c \<noteq> CHR ''.'') (rev s))"

lemma extension_split:
  assumes "CHR ''.'' \<in> set s"
  shows "\<exists>b. s = b @ CHR ''.'' # extension s \<and> CHR ''.'' \<notin> set (extension s)"
proof -
  obtain b e where s: "s = b @ CHR ''.'' # e" "CHR ''.'' \<notin> set e"
    using split_list_last [OF assms] by blast
  have "\<forall>c \<in> set (rev e). c \<noteq> CHR ''.''" using s(2) by auto
  then have "takeWhile (\<lambda>c. c \<noteq> CHR ''.'') (rev e @ CHR ''.'' # rev b) = rev e"
    by (subst takeWhile_append2) auto
  then have "extension s = e"
    unfolding extension_def s(1) by simp
  then show ?thesis using s by blast
qed

text \<open>C39: \<open>path_is_image\<close> accepts exactly the paths whose text after the last dot is \<open>jpg\<close> or \<open>png\<close>; on a path
  without a dot it passes \<open>RT_NULL\<close> to \<open>rt_strcmp\<close>, which dereferences it.\<close>

theorem path_is_image_decides:
  assumes "NUL \<notin> set s"
  shows "path_is_image (Some (cstr s r)) =
    (if CHR ''.'' \<in> set s then Inr (extension s = ''jpg'' \<or> extension s = ''png'') else Inl NullDeref)"
proof (cases "CHR ''.'' \<in> set s")
  case True
  then obtain b where "s = b @ CHR ''.'' # extension s" "CHR ''.'' \<notin> set (extension s)"
    using extension_split by blast
  then show ?thesis
    using path_is_image_found [of b "extension s" r] True assms by simp
qed (simp add: path_is_image_no_dot assms)

theorem path_is_image_decides_witness:
  "path_is_image (Some (cstr ''/sd/a.b.png'' [])) = Inr True \<and> path_is_image (Some (cstr ''/sd/README'' [])) = Inl NullDeref"
  using path_is_image_decides [of "''/sd/a.b.png''" "[]"] path_is_image_decides [of "''/sd/README''" "[]"]
  by (simp add: extension_def)

text \<open>\<open>path_join\<close> builds the directory, a slash and the first \<open>file_len\<close> bytes of the file name with a
  terminator, inside the block it allocates.\<close>

theorem path_join_text:
  assumes "NUL \<notin> set dir" and "NUL \<notin> set file" and "length dir + file_len + 2 < 2 ^ 32"
    and "malloc (length dir + file_len + 2) = Some b" and "length b = length dir + file_len + 2"
  shows "path_join malloc (Some (cstr dir x)) (Some (cstr file y)) file_len
    = Inr (Some (dir @ ''/'' @ take file_len (file @ replicate file_len NUL) @ [NUL]))"
  using assms by (rule path_join_some)

theorem path_join_text_witness:
  "path_join (\<lambda>n. Some (replicate n CHR ''?'')) (Some (cstr ''/sd'' [])) (Some (cstr ''a.png'' [])) 5
     = Inr (Some (''/sd/a.png'' @ [NUL]))"
  using path_join_text [of "''/sd''" "''a.png''" 5 "\<lambda>n. Some (replicate n CHR ''?'')" _ "[]" "[]"] by simp

end
