(* ===== verification/Smem.thy ===== *)
theory Smem
  imports Prelude Kstring
begin

text \<open>
  The small memory manager of \<^verbatim>\<open>rt-thread/src/mem.c\<close>, the system heap of this configuration
  (\<open>RT_USING_SMALL_MEM_AS_HEAP\<close>, \<open>RT_USING_MEMTRACE\<close>, 32-bit). The heap is a sequence of
  blocks, each with a header that holds the offsets of its neighbours. Offsets are relative to
  \<open>heap_ptr\<close>; the word \<open>pool_ptr\<close> is kept as its two parts, the address of the pool
  (\<open>MEM_POOL\<close>) and the low bit (\<open>MEM_ISUSED\<close>). \<open>heap_blocks\<close> is the abstract view, and
  first-fit allocation with coalescing on it is the specification the code is shown to refine.
\<close>

section \<open>State\<close>

record mem_item =
  mpool :: ptr
  mused :: bool
  mnext :: nat
  mprev :: nat
  mthread :: string

record small_mem =
  sm_self :: ptr
  heap_ptr :: ptr
  heap_end :: nat
  lfree :: nat
  mem_size_aligned :: nat
  sm_used :: nat
  sm_max :: nat
  items :: "nat \<rightharpoonup> mem_item"

abbreviation (input) MIN_SIZE_ALIGNED :: nat where "MIN_SIZE_ALIGNED \<equiv> 12"
abbreviation (input) SIZEOF_STRUCT_MEM :: nat where "SIZEOF_STRUCT_MEM \<equiv> 16"
abbreviation (input) SIZEOF_SMALL_MEM :: nat where "SIZEOF_SMALL_MEM \<equiv> 64"

text \<open>Unsigned subtraction of 32-bit sizes.\<close>

definition sub32 :: "nat \<Rightarrow> nat \<Rightarrow> nat" where
  "sub32 a b = (a + (2 ^ 32 - b)) mod 2 ^ 32"

definition item_at :: "small_mem \<Rightarrow> nat \<Rightarrow> mem_item cres" where
  "item_at m off = (case items m off of None \<Rightarrow> Inl WildDeref | Some i \<Rightarrow> Inr i)"

definition put_item :: "small_mem \<Rightarrow> nat \<Rightarrow> mem_item \<Rightarrow> small_mem" where
  "put_item m off i = m\<lparr>items := (items m)(off \<mapsto> i)\<rparr>"

section \<open>Operations\<close>

definition rt_smem_setname :: "string \<Rightarrow> mem_item \<Rightarrow> mem_item" where
  "rt_smem_setname name i = i\<lparr>mthread := take 4 (takeWhile (\<lambda>c. c \<noteq> NUL) name @ replicate 4 CHR '' '')\<rparr>"

definition plug_next :: "small_mem \<Rightarrow> nat \<Rightarrow> small_mem cres" where
  "plug_next m mem =
     cbind (item_at m mem) (\<lambda>i. let nmem = mnext i in
     cbind (item_at m nmem) (\<lambda>ni.
       if mem \<noteq> nmem \<and> \<not> mused ni \<and> nmem \<noteq> heap_end m
       then let m = (if lfree m = nmem then m\<lparr>lfree := mem\<rparr> else m);
                m = put_item m nmem (ni\<lparr>mpool := 0, mused := False\<rparr>);
                m = put_item m mem (i\<lparr>mnext := mnext ni\<rparr>)
            in cbind (item_at m (mnext ni)) (\<lambda>q. Inr (put_item m (mnext ni) (q\<lparr>mprev := mem\<rparr>)))
       else Inr m))"

definition plug_prev :: "small_mem \<Rightarrow> nat \<Rightarrow> small_mem cres" where
  "plug_prev m mem =
     cbind (item_at m mem) (\<lambda>i. let pmem = mprev i in
     cbind (item_at m pmem) (\<lambda>pi.
       if pmem \<noteq> mem \<and> \<not> mused pi
       then let m = (if lfree m = mem then m\<lparr>lfree := pmem\<rparr> else m);
                m = put_item m mem (i\<lparr>mpool := 0, mused := False\<rparr>);
                m = put_item m pmem (pi\<lparr>mnext := mnext i\<rparr>)
            in cbind (item_at m (mnext i)) (\<lambda>q. Inr (put_item m (mnext i) (q\<lparr>mprev := pmem\<rparr>)))
       else Inr m))"

definition plug_holes :: "small_mem \<Rightarrow> nat \<Rightarrow> small_mem cres" where
  "plug_holes m mem = cbind (rt_assert (mem < heap_end m)) (\<lambda>_.
     cbind (plug_next m mem) (\<lambda>m. plug_prev m mem))"

text \<open>\<open>rt_smem_init\<close>: the memory from \<open>begin_addr\<close> on, \<open>sz\<close> bytes long; the word sums are
  below 2\<open>\<^sup>3\<^sup>2\<close> on every address range that exists.\<close>

definition rt_smem_init :: "nat \<Rightarrow> nat \<Rightarrow> small_mem option" where
  "rt_smem_init begin_addr sz =
     (let small_mem = RT_ALIGN4 begin_addr;
          start_addr = small_mem + SIZEOF_SMALL_MEM;
          begin_align = RT_ALIGN4 start_addr;
          end_align = RT_ALIGN_DOWN4 (begin_addr + sz)
      in if end_align > 2 * SIZEOF_STRUCT_MEM \<and> end_align - 2 * SIZEOF_STRUCT_MEM \<ge> start_addr
         then let mem_size = end_align - begin_align - 2 * SIZEOF_STRUCT_MEM;
                  e = mem_size + SIZEOF_STRUCT_MEM;
                  first = rt_smem_setname ''INIT''
                    \<lparr>mpool = small_mem, mused = False, mnext = e, mprev = 0, mthread = []\<rparr>;
                  last = rt_smem_setname ''INIT''
                    \<lparr>mpool = small_mem, mused = True, mnext = e, mprev = e, mthread = []\<rparr>
              in Some \<lparr>sm_self = small_mem, heap_ptr = begin_align, heap_end = e, lfree = 0,
                       mem_size_aligned = mem_size, sm_used = 0, sm_max = 0,
                       items = [0 \<mapsto> first, e \<mapsto> last]\<rparr>
         else None)"

text \<open>
  The two loops of \<open>rt_smem_alloc\<close>. Blocks are at least a header apart, so the number of
  blocks bounds their iterations; \<open>smem_fuel\<close> is that bound.
\<close>

fun smem_find :: "nat \<Rightarrow> small_mem \<Rightarrow> nat \<Rightarrow> nat \<Rightarrow> nat option cres" where
  "smem_find 0 m sz ptr = Inl OutOfFuel"
| "smem_find (Suc fuel) m sz ptr =
     (if ptr \<le> sub32 (mem_size_aligned m) sz
      then cbind (item_at m ptr) (\<lambda>mem.
             if \<not> mused mem \<and> sub32 (mnext mem) (ptr + SIZEOF_STRUCT_MEM) \<ge> sz then Inr (Some ptr)
             else smem_find fuel m sz (mnext mem))
      else Inr None)"

fun smem_next_free :: "nat \<Rightarrow> small_mem \<Rightarrow> nat \<Rightarrow> nat cres" where
  "smem_next_free 0 m p = Inl OutOfFuel"
| "smem_next_free (Suc fuel) m p =
     cbind (item_at m p) (\<lambda>i.
       if mused i \<and> p \<noteq> heap_end m then smem_next_free fuel m (mnext i) else Inr p)"

definition smem_fuel :: "small_mem \<Rightarrow> nat" where
  "smem_fuel m = heap_end m div SIZEOF_STRUCT_MEM + 2"

text \<open>Splitting the block at \<open>ptr\<close> behind \<open>sz\<close> bytes, when the rest can be a block.\<close>

definition smem_split :: "small_mem \<Rightarrow> nat \<Rightarrow> nat \<Rightarrow> small_mem cres" where
  "smem_split m ptr sz =
     cbind (item_at m ptr) (\<lambda>mem.
       let ptr2 = ptr + SIZEOF_STRUCT_MEM + sz;
           mem2 = rt_smem_setname ''    ''
             \<lparr>mpool = sm_self m, mused = False, mnext = mnext mem, mprev = ptr, mthread = []\<rparr>;
           m = put_item (put_item m ptr2 mem2) ptr (mem\<lparr>mnext := ptr2\<rparr>)
       in if mnext mem2 \<noteq> mem_size_aligned m + SIZEOF_STRUCT_MEM
          then cbind (item_at m (mnext mem2)) (\<lambda>q. Inr (put_item m (mnext mem2) (q\<lparr>mprev := ptr2\<rparr>)))
          else Inr m)"

definition smem_account :: "small_mem \<Rightarrow> nat \<Rightarrow> small_mem" where
  "smem_account m n =
     (let u = sm_used m + n in m\<lparr>sm_used := u, sm_max := (if sm_max m < u then u else sm_max m)\<rparr>)"

text \<open>\<open>rt_smem_alloc\<close>; \<open>self\<close> is the name of the running thread, or \<open>NONE\<close> before it exists.\<close>

definition rt_smem_alloc :: "string \<Rightarrow> small_mem \<Rightarrow> nat \<Rightarrow> (ptr \<times> small_mem) cres" where
  "rt_smem_alloc self m sz =
     (if sz = 0 then Inr (RT_NULL, m)
      else let sz = RT_ALIGN4 sz
      in if sz > mem_size_aligned m then Inr (RT_NULL, m)
      else let sz = (if sz < MIN_SIZE_ALIGNED then MIN_SIZE_ALIGNED else sz)
      in cbind (smem_find (smem_fuel m) m sz (lfree m)) (\<lambda>found.
         case found of None \<Rightarrow> Inr (RT_NULL, m)
         | Some ptr \<Rightarrow>
           cbind (item_at m ptr) (\<lambda>mem.
           cbind (if sub32 (mnext mem) (ptr + SIZEOF_STRUCT_MEM) \<ge> sz + SIZEOF_STRUCT_MEM + MIN_SIZE_ALIGNED
                  then cbind (smem_split m ptr sz) (\<lambda>m. Inr (smem_account m (sz + SIZEOF_STRUCT_MEM)))
                  else Inr (smem_account m (mnext mem - ptr))) (\<lambda>m.
           cbind (item_at m ptr) (\<lambda>mem.
           let m = put_item m ptr (rt_smem_setname self (mem\<lparr>mpool := sm_self m, mused := True\<rparr>))
           in cbind (if ptr = lfree m
                     then cbind (smem_next_free (smem_fuel m) m (lfree m)) (\<lambda>p.
                          cbind (item_at m p) (\<lambda>i. cbind (rt_assert (p = heap_end m \<or> \<not> mused i)) (\<lambda>_.
                            Inr (m\<lparr>lfree := p\<rparr>))))
                     else Inr m) (\<lambda>m.
              cbind (rt_assert (ptr + SIZEOF_STRUCT_MEM + sz \<le> heap_end m)) (\<lambda>_.
              cbind (rt_assert ((heap_ptr m + ptr + SIZEOF_STRUCT_MEM) mod 4 = 0)) (\<lambda>_.
              cbind (rt_assert ((heap_ptr m + ptr) mod 4 = 0)) (\<lambda>_.
                Inr (heap_ptr m + ptr + SIZEOF_STRUCT_MEM, m))))))))))"

text \<open>\<open>rt_smem_free\<close> of a block of the pool \<open>m\<close>.\<close>

definition rt_smem_free :: "small_mem \<Rightarrow> ptr \<Rightarrow> small_mem cres" where
  "rt_smem_free m rmem =
     (if rmem = RT_NULL then Inr m
      else cbind (rt_assert (rmem mod 4 = 0)) (\<lambda>_.
        if rmem < heap_ptr m + SIZEOF_STRUCT_MEM then Inl WildDeref
        else let mem = rmem - SIZEOF_STRUCT_MEM - heap_ptr m
        in cbind (item_at m mem) (\<lambda>i.
           cbind (rt_assert (mpool i \<noteq> RT_NULL)) (\<lambda>_.
           cbind (rt_assert (mused i)) (\<lambda>_.
           cbind (rt_assert (rmem < heap_ptr m + heap_end m)) (\<lambda>_.
           cbind (item_at m (mnext i)) (\<lambda>ni.
           cbind (rt_assert (mpool ni = sm_self m)) (\<lambda>_.
           let m = put_item m mem (rt_smem_setname ''    '' (i\<lparr>mpool := sm_self m, mused := False\<rparr>));
               m = (if mem < lfree m then m\<lparr>lfree := mem\<rparr> else m);
               m = m\<lparr>sm_used := sm_used m - (mnext i - mem)\<rparr>
           in plug_holes m mem))))))))"

text \<open>
  \<open>rt_smem_realloc\<close> with the memory \<open>ram\<close> (bytes by offset from \<open>heap_ptr\<close>), which the move to
  a new block copies.
\<close>

definition rt_smem_realloc ::
  "string \<Rightarrow> small_mem \<Rightarrow> char list \<Rightarrow> ptr \<Rightarrow> nat \<Rightarrow> (ptr \<times> small_mem \<times> char list) cres" where
  "rt_smem_realloc self m ram rmem newsize =
     (let newsize = RT_ALIGN4 newsize
      in if newsize > mem_size_aligned m then Inr (RT_NULL, m, ram)
      else if newsize = 0 then cbind (rt_smem_free m rmem) (\<lambda>m. Inr (RT_NULL, m, ram))
      else if rmem = RT_NULL then cbind (rt_smem_alloc self m newsize) (\<lambda>(p, m). Inr (p, m, ram))
      else cbind (rt_assert (rmem mod 4 = 0)) (\<lambda>_.
           cbind (rt_assert (heap_ptr m \<le> rmem)) (\<lambda>_.
           cbind (rt_assert (rmem < heap_ptr m + heap_end m)) (\<lambda>_.
             if rmem < heap_ptr m + SIZEOF_STRUCT_MEM then Inl WildDeref
             else let ptr = rmem - SIZEOF_STRUCT_MEM - heap_ptr m
             in cbind (item_at m ptr) (\<lambda>mem.
                let sz = sub32 (sub32 (mnext mem) ptr) SIZEOF_STRUCT_MEM
                in if sz = newsize then Inr (rmem, m, ram)
                else if newsize + SIZEOF_STRUCT_MEM + 12 < sz
                then let m = m\<lparr>sm_used := sm_used m - (sz - newsize)\<rparr>;
                         ptr2 = ptr + SIZEOF_STRUCT_MEM + newsize
                     in cbind (smem_split m ptr newsize) (\<lambda>m.
                        let m = (if ptr2 < lfree m then m\<lparr>lfree := ptr2\<rparr> else m)
                        in cbind (plug_holes m ptr2) (\<lambda>m. Inr (rmem, m, ram)))
                else cbind (rt_smem_alloc self m newsize) (\<lambda>(nmem, m).
                       if nmem = RT_NULL then Inr (RT_NULL, m, ram)
                       else cbind (rt_memcpy ram (nmem - heap_ptr m) (rmem - heap_ptr m) (min sz newsize)) (\<lambda>ram.
                            cbind (rt_smem_free m rmem) (\<lambda>m. Inr (nmem, m, ram)))))))))"

section \<open>The block structure\<close>

text \<open>
  A heap is described by the list of its blocks in address order, each with the offset at which
  it ends and whether it is in use. \<open>endpos\<close> is where the blocks of a list end, \<open>lastst\<close> where
  the last of them starts.
\<close>

type_synonym block = "nat \<times> bool"

fun endpos :: "nat \<Rightarrow> block list \<Rightarrow> nat" where
  "endpos c [] = c"
| "endpos c ((n, u) # bs) = endpos n bs"

fun lastst :: "nat \<Rightarrow> nat \<Rightarrow> block list \<Rightarrow> nat" where
  "lastst p c [] = p"
| "lastst p c ((n, u) # bs) = lastst c n bs"

fun starts :: "nat \<Rightarrow> block list \<Rightarrow> nat list" where
  "starts c [] = []"
| "starts c ((n, u) # bs) = c # starts n bs"

fun first_free :: "nat \<Rightarrow> block list \<Rightarrow> nat \<Rightarrow> nat" where
  "first_free c [] e = e"
| "first_free c ((n, u) # bs) e = (if u then first_free n bs e else c)"

fun used_bytes :: "nat \<Rightarrow> block list \<Rightarrow> nat" where
  "used_bytes c [] = 0"
| "used_bytes c ((n, u) # bs) = (if u then n - c else 0) + used_bytes n bs"

fun used_list :: "nat \<Rightarrow> block list \<Rightarrow> (nat \<times> nat) list" where
  "used_list c [] = []"
| "used_list c ((n, u) # bs) = (if u then [(c, n)] else []) @ used_list n bs"

text \<open>The headers that describe the blocks; \<open>p\<close> is the start of the block before \<open>c\<close>.\<close>

definition header :: "(nat \<rightharpoonup> mem_item) \<Rightarrow> ptr \<Rightarrow> nat \<Rightarrow> nat \<Rightarrow> nat \<Rightarrow> bool \<Rightarrow> bool" where
  "header it s p c n u \<longleftrightarrow>
     (\<exists>i. it c = Some i \<and> mpool i = s \<and> mused i = u \<and> mnext i = n \<and> mprev i = p)"

fun blocks_at :: "(nat \<rightharpoonup> mem_item) \<Rightarrow> ptr \<Rightarrow> nat \<Rightarrow> nat \<Rightarrow> block list \<Rightarrow> nat \<Rightarrow> bool" where
  "blocks_at it s p c [] e \<longleftrightarrow> c = e"
| "blocks_at it s p c ((n, u) # bs) e \<longleftrightarrow>
     header it s p c n u \<and> c + 16 < n \<and> 4 dvd n \<and> blocks_at it s c n bs e"

definition no_adjacent_free :: "block list \<Rightarrow> bool" where
  "no_adjacent_free = successively (\<lambda>a b. snd a \<or> snd b)"

text \<open>\<open>heap_struct\<close> holds throughout an operation, \<open>heap_inv\<close> between operations.\<close>

definition heap_struct :: "small_mem \<Rightarrow> block list \<Rightarrow> bool" where
  "heap_struct m bs \<longleftrightarrow>
     blocks_at (items m) (sm_self m) 0 0 bs (heap_end m)
     \<and> (\<exists>i. items m (heap_end m) = Some i \<and> mpool i = sm_self m \<and> mused i \<and> mnext i = heap_end m)
     \<and> heap_end m = mem_size_aligned m + 16 \<and> 12 \<le> mem_size_aligned m
     \<and> sm_self m \<noteq> 0 \<and> 4 dvd heap_ptr m \<and> heap_ptr m + heap_end m + 16 \<le> 2 ^ 32
     \<and> lfree m = first_free 0 bs (heap_end m)
     \<and> sm_used m = used_bytes 0 bs"

definition heap_inv :: "small_mem \<Rightarrow> block list \<Rightarrow> bool" where
  "heap_inv m bs \<longleftrightarrow> heap_struct m bs \<and> no_adjacent_free bs"

section \<open>Lemmas on block lists\<close>

lemma endpos_append [simp]: "endpos c (xs @ ys) = endpos (endpos c xs) ys"
  by (induction c xs rule: endpos.induct) auto

lemma lastst_append [simp]: "lastst p c (xs @ ys) = lastst (lastst p c xs) (endpos c xs) ys"
  by (induction p c xs rule: lastst.induct) auto

lemma starts_append [simp]: "starts c (xs @ ys) = starts c xs @ starts (endpos c xs) ys"
  by (induction c xs rule: starts.induct) auto

lemma used_bytes_append [simp]: "used_bytes c (xs @ ys) = used_bytes c xs + used_bytes (endpos c xs) ys"
  by (induction c xs rule: used_bytes.induct) auto

lemma used_list_append [simp]: "used_list c (xs @ ys) = used_list c xs @ used_list (endpos c xs) ys"
  by (induction c xs rule: used_list.induct) auto

lemma first_free_append:
  "first_free c (xs @ ys) e =
     (if \<forall>b \<in> set xs. snd b then first_free (endpos c xs) ys e else first_free c xs e)"
  by (induction c xs e rule: first_free.induct) auto

lemma first_free_starts:
  "\<not> (\<forall>b \<in> set xs. snd b) \<Longrightarrow> first_free c xs e \<in> set (starts c xs)"
  by (induction c xs e rule: first_free.induct) auto

lemma first_free_cases: "first_free c xs e \<in> set (starts c xs) \<or> first_free c xs e = e"
  by (induction c xs e rule: first_free.induct) auto

lemma blocks_at_append:
  "blocks_at it s p c (xs @ ys) e \<longleftrightarrow>
     blocks_at it s p c xs (endpos c xs) \<and> blocks_at it s (lastst p c xs) (endpos c xs) ys e"
  by (induction it s p c xs e rule: blocks_at.induct) auto

lemma blocks_at_endpos: "blocks_at it s p c bs e \<Longrightarrow> endpos c bs = e"
  by (induction it s p c bs e rule: blocks_at.induct) auto

lemma blocks_at_le: "blocks_at it s p c bs e \<Longrightarrow> c + 16 * length bs \<le> e"
  by (induction it s p c bs e rule: blocks_at.induct) auto

lemma blocks_at_starts: "blocks_at it s p c bs e \<Longrightarrow> x \<in> set (starts c bs) \<Longrightarrow> c \<le> x \<and> x + 16 < e"
proof (induction it s p c bs e rule: blocks_at.induct)
  case (2 it s p c n u bs e)
  then show ?case using blocks_at_le [of it s c n bs e] by auto
qed auto

lemma header_upd [simp]: "x \<noteq> c \<Longrightarrow> header (it(x := v)) s p c n u = header it s p c n u"
  by (simp add: header_def)

lemma blocks_at_upd [simp]:
  "x \<notin> set (starts c bs) \<Longrightarrow> blocks_at (it(x := v)) s p c bs e = blocks_at it s p c bs e"
  by (induction it s p c bs e rule: blocks_at.induct) auto

lemma blocks_at_dvd: "blocks_at it s p c bs e \<Longrightarrow> 4 dvd c \<Longrightarrow> 4 dvd e"
  by (induction it s p c bs e rule: blocks_at.induct) auto

lemma starts_snoc_last: "xs \<noteq> [] \<Longrightarrow> lastst p c xs \<in> set (starts c xs)"
  by (induction p c xs rule: lastst.induct) (auto, case_tac bs, auto)

text \<open>Changing the back pointer of the first block of a list.\<close>

lemma blocks_at_set_prev:
  assumes "blocks_at it s p c bs e" and "it c = Some q"
  shows "blocks_at (it(c \<mapsto> q\<lparr>mprev := p'\<rparr>)) s p' c bs e"
proof (cases bs)
  case Nil
  then show ?thesis using assms by simp
next
  case (Cons b bs')
  obtain n u where b: "b = (n, u)" by (cases b)
  have "c \<notin> set (starts n bs')"
    using assms(1) blocks_at_starts [of it s c n bs' e c] by (auto simp: Cons b)
  then show ?thesis using assms by (auto simp: Cons b header_def)
qed

text \<open>A block strictly inside the list: what surrounds it.\<close>

lemma blocks_at_mid:
  assumes "blocks_at it s 0 0 (xs @ (n, u) # ys) e"
  shows "header it s (lastst 0 0 xs) (endpos 0 xs) n u" "endpos 0 xs + 16 < n" "4 dvd n" "4 dvd endpos 0 xs"
    "blocks_at it s 0 0 xs (endpos 0 xs)" "blocks_at it s (endpos 0 xs) n ys e" "n \<le> e"
    "endpos 0 xs \<notin> set (starts 0 xs)" "\<And>x. x \<in> set (starts n ys) \<Longrightarrow> n \<le> x"
    "\<And>x. x \<in> set (starts 0 xs) \<Longrightarrow> x + 16 < endpos 0 xs"
proof -
  have xs: "blocks_at it s 0 0 xs (endpos 0 xs)"
    and mid: "blocks_at it s (lastst 0 0 xs) (endpos 0 xs) ((n, u) # ys) e"
    using assms by (simp_all only: blocks_at_append)
  then show "header it s (lastst 0 0 xs) (endpos 0 xs) n u" "endpos 0 xs + 16 < n" "4 dvd n"
    "blocks_at it s 0 0 xs (endpos 0 xs)" "blocks_at it s (endpos 0 xs) n ys e" by auto
  show "4 dvd endpos 0 xs" using blocks_at_dvd [OF xs] by simp
  show "n \<le> e" using mid blocks_at_le [of it s "endpos 0 xs" n ys e] by simp
  show "endpos 0 xs \<notin> set (starts 0 xs)" using blocks_at_starts [OF xs] by auto
  show "\<And>x. x \<in> set (starts n ys) \<Longrightarrow> n \<le> x"
    using mid blocks_at_starts [of it s "endpos 0 xs" n ys e] by auto
  show "\<And>x. x \<in> set (starts 0 xs) \<Longrightarrow> x + 16 < endpos 0 xs"
    using blocks_at_starts [OF xs] by auto
qed

lemma sub32_eq [simp]: "b \<le> a \<Longrightarrow> a < 2 ^ 32 \<Longrightarrow> sub32 a b = a - b"
proof -
  assume "b \<le> a" "a < 2 ^ 32"
  then have "a + (2 ^ 32 - b) = (a - b) + 2 ^ 32" by simp
  then have "sub32 a b = (a - b) mod 2 ^ 32" unfolding sub32_def by (simp only: mod_add_self2)
  then show "sub32 a b = a - b" using \<open>a < 2 ^ 32\<close> by simp
qed

section \<open>The loops of the allocator\<close>

fun find_fit :: "nat \<Rightarrow> nat \<Rightarrow> block list \<Rightarrow> nat option" where
  "find_fit sz c [] = None"
| "find_fit sz c ((n, u) # bs) = (if \<not> u \<and> c + 16 + sz \<le> n then Some c else find_fit sz n bs)"

lemma find_fit_small: "blocks_at it s p c bs e \<Longrightarrow> e < c + 16 + sz \<Longrightarrow> find_fit sz c bs = None"
proof (induction it s p c bs e rule: blocks_at.induct)
  case (2 it s p c n u bs e)
  then show ?case using blocks_at_le [of it s c n bs e] by auto
qed auto

lemma item_at_header: "header (items m) s p c n u \<Longrightarrow> \<exists>i. item_at m c = Inr i \<and> mnext i = n \<and> mused i = u
    \<and> mprev i = p \<and> mpool i = s \<and> items m c = Some i"
  by (auto simp: header_def item_at_def)

lemma smem_find_eq:
  assumes "blocks_at (items m) (sm_self m) p c bs (heap_end m)" and "length bs < fuel"
    and "heap_end m = mem_size_aligned m + 16" and "sz \<le> mem_size_aligned m" and "heap_end m < 2 ^ 32"
    and "0 < sz"
  shows "smem_find fuel m sz c = Inr (find_fit sz c bs)"
  using assms
proof (induction bs arbitrary: fuel p c)
  case Nil
  then show ?case by (cases fuel) auto
next
  case (Cons b bs)
  obtain n u where b: "b = (n, u)" by (cases b)
  obtain f where f: "fuel = Suc f" "length bs < f"
    using Cons.prems(2) by (cases fuel) auto
  have rest: "blocks_at (items m) (sm_self m) c n bs (heap_end m)" "c + 16 < n"
    using Cons.prems(1) by (auto simp: b)
  have n: "n < 2 ^ 32" "n \<le> heap_end m"
    using blocks_at_le [OF rest(1)] Cons.prems(5) by auto
  obtain i where i: "item_at m c = Inr i" "mnext i = n" "mused i = u"
    using Cons.prems(1) item_at_header [of m "sm_self m" p c n u] by (auto simp: b)
  show ?case
  proof (cases "c \<le> mem_size_aligned m - sz")
    case True
    then show ?thesis
      using i f n rest(2) Cons.prems(3-6) Cons.IH [OF rest(1) f(2)] by (auto simp: b)
  next
    case False
    then have "find_fit sz c (b # bs) = None"
      using Cons.prems by (intro find_fit_small) auto
    then show ?thesis using False f Cons.prems(3-5) by auto
  qed
qed

lemma smem_next_free_eq:
  assumes "blocks_at (items m) (sm_self m) p c bs (heap_end m)" and "length bs < fuel"
    and "items m (heap_end m) = Some i"
  shows "smem_next_free fuel m c = Inr (first_free c bs (heap_end m))"
  using assms
proof (induction bs arbitrary: fuel p c)
  case Nil
  then show ?case by (cases fuel) (auto simp: item_at_def)
next
  case (Cons b bs)
  obtain n u where b: "b = (n, u)" by (cases b)
  obtain f where f: "fuel = Suc f" "length bs < f"
    using Cons.prems(2) by (cases fuel) auto
  have rest: "blocks_at (items m) (sm_self m) c n bs (heap_end m)" "c + 16 < n"
    using Cons.prems(1) by (auto simp: b)
  have "c \<noteq> heap_end m"
    using blocks_at_le [OF rest(1)] rest(2) by auto
  then show ?case
    using f Cons.IH [OF rest(1) f(2) Cons.prems(3)] Cons.prems(1) item_at_header [of m "sm_self m" p c n u]
    by (auto simp: b)
qed

lemma heap_invD:
  assumes "heap_inv m bs"
  shows "blocks_at (items m) (sm_self m) 0 0 bs (heap_end m)"
    "heap_end m = mem_size_aligned m + 16" "12 \<le> mem_size_aligned m" "sm_self m \<noteq> 0" "4 dvd heap_ptr m"
    "heap_ptr m + heap_end m + 16 \<le> 2 ^ 32" "no_adjacent_free bs"
    "lfree m = first_free 0 bs (heap_end m)" "sm_used m = used_bytes 0 bs"
  using assms unfolding heap_inv_def heap_struct_def by blast+

lemma heap_inv_fuel: "heap_inv m bs \<Longrightarrow> length bs < smem_fuel m"
  unfolding heap_inv_def heap_struct_def smem_fuel_def using blocks_at_le [of "items m" "sm_self m" 0 0 bs "heap_end m"]
  by auto

section \<open>First-fit allocation refines the code\<close>

text \<open>The specification: the first free block that is large enough, split when the rest can be
  a block of its own.\<close>

fun abs_alloc :: "nat \<Rightarrow> nat \<Rightarrow> block list \<Rightarrow> (nat \<times> block list) option" where
  "abs_alloc sz c [] = None"
| "abs_alloc sz c ((n, u) # bs) =
     (if \<not> u \<and> c + 16 + sz \<le> n
      then Some (c, if c + 44 + sz \<le> n then (c + 16 + sz, True) # (n, False) # bs else (n, True) # bs)
      else map_option (\<lambda>(p, bs'). (p, (n, u) # bs')) (abs_alloc sz n bs))"

lemma abs_alloc_find: "map_option fst (abs_alloc sz c bs) = find_fit sz c bs"
  by (induction sz c bs rule: abs_alloc.induct) (auto simp: option.map_comp comp_def case_prod_unfold)

lemma abs_alloc_Some:
  assumes "abs_alloc sz c bs = Some (p, bs')"
  shows "\<exists>xs n ys. bs = xs @ (n, False) # ys \<and> p = endpos c xs \<and> p + 16 + sz \<le> n
    \<and> bs' = xs @ (if p + 44 + sz \<le> n then (p + 16 + sz, True) # (n, False) # ys else (n, True) # ys)"
  using assms
proof (induction sz c bs arbitrary: bs' rule: abs_alloc.induct)
  case (1 sz c)
  then show ?case by simp
next
  case (2 sz c n u bs)
  show ?case
  proof (cases "\<not> u \<and> c + 16 + sz \<le> n")
    case True
    with 2 show ?thesis by (intro exI [of _ "[]"] exI [of _ n] exI [of _ bs]) auto
  next
    case False
    with 2 obtain bs'' where r: "abs_alloc sz n bs = Some (p, bs'')" "bs' = (n, u) # bs''"
      by auto
    obtain xs k ys where "bs = xs @ (k, False) # ys" "p = endpos n xs" "p + 16 + sz \<le> k"
      "bs'' = xs @ (if p + 44 + sz \<le> k then (p + 16 + sz, True) # (k, False) # ys else (k, True) # ys)"
      using "2.IH" [OF False r(1)] by blast
    then show ?thesis
      using r(2) by (intro exI [of _ "(n, u) # xs"] exI [of _ k] exI [of _ ys]) auto
  qed
qed

text \<open>The allocator starts its search at \<open>lfree\<close>; nothing before it is free.\<close>

lemma find_fit_used_prefix: "\<forall>b \<in> set xs. snd b \<Longrightarrow> find_fit sz c (xs @ ys) = find_fit sz (endpos c xs) ys"
  by (induction c xs rule: endpos.induct) auto

lemma split_at_first_free:
  "\<exists>xs ys. bs = xs @ ys \<and> (\<forall>b \<in> set xs. snd b) \<and> first_free c bs (endpos c bs) = endpos c xs
     \<and> (ys = [] \<or> \<not> snd (hd ys))"
proof (induction bs arbitrary: c)
  case Nil
  then show ?case by simp
next
  case (Cons b bs)
  obtain n u where b: "b = (n, u)" by (cases b)
  show ?case
  proof (cases u)
    case True
    obtain xs ys where "bs = xs @ ys" "\<forall>b \<in> set xs. snd b" "first_free n bs (endpos n bs) = endpos n xs"
      "ys = [] \<or> \<not> snd (hd ys)"
      using Cons.IH by blast
    then show ?thesis using b True by (intro exI [of _ "b # xs"] exI [of _ ys]) auto
  next
    case False
    then show ?thesis using b by (intro exI [of _ "[]"] exI [of _ "b # bs"]) auto
  qed
qed

lemma smem_find_lfree:
  assumes inv: "heap_inv m bs" and sz: "sz \<le> mem_size_aligned m" "0 < sz"
  shows "smem_find (smem_fuel m) m sz (lfree m) = Inr (find_fit sz 0 bs)"
proof -
  note ba = heap_invD(1) [OF inv]
  obtain xs ys where bs: "bs = xs @ ys" and used: "\<forall>b \<in> set xs. snd b"
    and ff: "first_free 0 bs (heap_end m) = endpos 0 xs"
    using split_at_first_free [of bs 0] blocks_at_endpos [OF ba] by auto
  have "blocks_at (items m) (sm_self m) (lastst 0 0 xs) (endpos 0 xs) ys (heap_end m)"
    using ba bs by (simp add: blocks_at_append)
  moreover have "length ys < smem_fuel m"
    using heap_inv_fuel [OF inv] bs by simp
  ultimately have "smem_find (smem_fuel m) m sz (endpos 0 xs) = Inr (find_fit sz (endpos 0 xs) ys)"
    using inv sz by (intro smem_find_eq) (auto simp: heap_inv_def heap_struct_def)
  then show ?thesis
    using heap_invD(8) [OF inv] ff bs find_fit_used_prefix [OF used] by simp
qed

text \<open>Splitting a block in the store.\<close>

lemma put_item_sel [simp]:
  "items (put_item m c i) = (items m)(c \<mapsto> i)" "heap_end (put_item m c i) = heap_end m"
  "lfree (put_item m c i) = lfree m" "mem_size_aligned (put_item m c i) = mem_size_aligned m"
  "sm_used (put_item m c i) = sm_used m" "sm_self (put_item m c i) = sm_self m"
  "heap_ptr (put_item m c i) = heap_ptr m"
  by (simp_all add: put_item_def)

lemma setname_sel [simp]:
  "mpool (rt_smem_setname nm i) = mpool i" "mused (rt_smem_setname nm i) = mused i"
  "mnext (rt_smem_setname nm i) = mnext i" "mprev (rt_smem_setname nm i) = mprev i"
  by (simp_all add: rt_smem_setname_def)

lemma smem_split_blocks:
  assumes ba: "blocks_at (items m) (sm_self m) 0 0 (xs @ (n, u) # ys) (heap_end m)"
    and he: "heap_end m = mem_size_aligned m + 16" and c: "c = endpos 0 xs"
    and sz: "c + 32 + sz < n" "4 dvd sz" "0 < sz"
  shows "\<exists>m'. smem_split m c sz = Inr m'
    \<and> blocks_at (items m') (sm_self m) 0 0 (xs @ (c + 16 + sz, u) # (n, False) # ys) (heap_end m)
    \<and> m' = m\<lparr>items := items m'\<rparr>
    \<and> (items m (heap_end m) = items m' (heap_end m))"
proof -
  note mid = blocks_at_mid [OF ba]
  let ?c2 = "c + 16 + sz"
  obtain i where i: "items m c = Some i" "mpool i = sm_self m" "mused i = u" "mnext i = n"
    "mprev i = lastst 0 0 xs"
    using mid(1) by (auto simp: header_def c)
  define i2 where "i2 = rt_smem_setname ''    ''
     \<lparr>mpool = sm_self m, mused = False, mnext = n, mprev = c, mthread = []\<rparr>"
  let ?it = "(items m)(?c2 \<mapsto> i2, c \<mapsto> i\<lparr>mnext := ?c2\<rparr>)"
  have cn: "?c2 < n" "c < ?c2" "4 dvd ?c2"
    using sz mid(4) c by auto
  have xs': "blocks_at ?it (sm_self m) 0 0 xs (endpos 0 xs)"
  proof -
    have "?c2 \<notin> set (starts 0 xs)" "c \<notin> set (starts 0 xs)"
      using mid(10) c cn by fastforce+
    then show ?thesis using mid(5) by simp
  qed
  have h: "header ?it (sm_self m) (lastst 0 0 xs) c ?c2 u" "header ?it (sm_self m) c ?c2 n False"
    using i cn by (auto simp: header_def i2_def)
  have ys': "blocks_at ?it (sm_self m) c n ys (heap_end m)"
  proof -
    have "?c2 \<notin> set (starts n ys)" "c \<notin> set (starts n ys)"
      using mid(9) cn by fastforce+
    then show ?thesis using mid(6) c by simp
  qed
  show ?thesis
  proof (cases ys)
    case Nil
    then have "n = heap_end m" using mid(6) by simp
    then have "smem_split m c sz = Inr (m\<lparr>items := ?it\<rparr>)"
      using i he by (simp add: smem_split_def item_at_def Let_def put_item_def i2_def)
    moreover have "blocks_at ?it (sm_self m) 0 0 (xs @ (?c2, u) # (n, False) # ys) (heap_end m)"
      using xs' h sz cn mid(3) Nil \<open>n = heap_end m\<close> c by (auto simp: blocks_at_append)
    moreover have "items m (heap_end m) = ?it (heap_end m)"
      using cn \<open>n = heap_end m\<close> by auto
    ultimately show ?thesis by (intro exI [of _ "m\<lparr>items := ?it\<rparr>"]) simp
  next
    case (Cons b ys')
    obtain k v where b: "b = (k, v)" by (cases b)
    have hd_ys: "header ?it (sm_self m) c n k v" "n + 16 < k" "k \<le> heap_end m"
      using ys' Cons b blocks_at_le [of ?it "sm_self m" n k ys' "heap_end m"] by auto
    then obtain q where q: "?it n = Some q" by (auto simp: header_def)
    let ?it2 = "?it(n \<mapsto> q\<lparr>mprev := ?c2\<rparr>)"
    have nh: "n \<noteq> heap_end m" using hd_ys by simp
    then have "smem_split m c sz = Inr (m\<lparr>items := ?it2\<rparr>)"
      using i q he by (simp add: smem_split_def item_at_def Let_def put_item_def i2_def)
    moreover have "blocks_at ?it2 (sm_self m) ?c2 n ys (heap_end m)"
      using ys' q by (rule blocks_at_set_prev)
    moreover have "blocks_at ?it2 (sm_self m) 0 0 xs (endpos 0 xs)"
      using xs' mid(10) cn c by (subst blocks_at_upd) fastforce+
    moreover have "header ?it2 (sm_self m) (lastst 0 0 xs) c ?c2 u" "header ?it2 (sm_self m) c ?c2 n False"
      using h cn by simp_all
    ultimately have "blocks_at ?it2 (sm_self m) 0 0 (xs @ (?c2, u) # (n, False) # ys) (heap_end m)"
      using sz cn mid(3) c by (auto simp: blocks_at_append)
    moreover have "items m (heap_end m) = ?it2 (heap_end m)"
      using cn nh hd_ys by auto
    ultimately show ?thesis
      using \<open>smem_split m c sz = Inr (m\<lparr>items := ?it2\<rparr>)\<close>
      by (intro exI [of _ "m\<lparr>items := ?it2\<rparr>"]) simp
  qed
qed

text \<open>Marking a block as used or free.\<close>

lemma blocks_at_mark:
  assumes ba: "blocks_at it s 0 0 (xs @ (n, u) # ys) e" and i: "it (endpos 0 xs) = Some i"
    and i': "mpool i' = s" "mused i' = u'" "mnext i' = n" "mprev i' = mprev i"
  shows "blocks_at (it(endpos 0 xs \<mapsto> i')) s 0 0 (xs @ (n, u') # ys) e"
proof -
  note mid = blocks_at_mid [OF ba]
  have "endpos 0 xs \<notin> set (starts n ys)"
    using mid(2,9) by fastforce
  then show ?thesis
    using mid i i' by (auto simp: blocks_at_append header_def)
qed

lemma no_adjacent_free_used:
  "no_adjacent_free (xs @ (n, u) # ys) \<Longrightarrow> no_adjacent_free (xs @ (n', True) # ys)"
  by (auto simp: no_adjacent_free_def successively_append_iff successively_Cons)

lemma no_adjacent_free_split:
  "no_adjacent_free (xs @ (n, False) # ys) \<Longrightarrow> no_adjacent_free (xs @ (k, True) # (n, False) # ys)"
  by (auto simp: no_adjacent_free_def successively_append_iff successively_Cons)

text \<open>The state after the allocator has chosen and cut the block at \<open>c\<close>, before \<open>lfree\<close> moves.\<close>

lemma first_free_marked:
  assumes "lf = first_free 0 (xs @ (n, False) # ys) e" and "blocks_at it s 0 0 (xs @ (n, False) # ys) e"
  shows "lf = endpos 0 xs \<longleftrightarrow> (\<forall>b \<in> set xs. snd b)"
proof -
  note mid = blocks_at_mid [OF assms(2)]
  have "first_free 0 xs e \<noteq> endpos 0 xs" if "\<not> (\<forall>b \<in> set xs. snd b)"
    using first_free_starts [OF that, of 0 e] mid(8) by metis
  then show ?thesis
    using assms(1) by (simp only: first_free_append first_free.simps) (auto split: if_splits)
qed

lemma first_free_item:
  assumes "blocks_at it s p c bs e" and "it e = Some ie"
  shows "\<exists>i. it (first_free c bs e) = Some i \<and> (first_free c bs e = e \<or> \<not> mused i)"
  using assms by (induction it s p c bs e rule: blocks_at.induct) (auto simp: header_def)

lemma alloc_finish:
  assumes inv: "heap_inv m (xs @ (n, False) # ys)" and c: "c = endpos 0 xs"
    and ba: "blocks_at (items m1) (sm_self m) 0 0 (xs @ (k, True) # zs) (heap_end m)"
    and m1: "m1 = m\<lparr>items := items m1, sm_used := used_bytes 0 (xs @ (k, True) # zs), sm_max := mx\<rparr>"
    and he: "items m1 (heap_end m) = items m (heap_end m)"
    and naf: "no_adjacent_free (xs @ (k, True) # zs)"
  shows "\<exists>m2. (if c = lfree m1
                then cbind (smem_next_free (smem_fuel m1) m1 (lfree m1)) (\<lambda>p.
                     cbind (item_at m1 p) (\<lambda>i. cbind (rt_assert (p = heap_end m1 \<or> \<not> mused i)) (\<lambda>_.
                       Inr (m1\<lparr>lfree := p\<rparr>))))
                else Inr m1) = Inr m2
     \<and> heap_inv m2 (xs @ (k, True) # zs) \<and> heap_ptr m2 = heap_ptr m \<and> heap_end m2 = heap_end m"
proof -
  let ?bs = "xs @ (k, True) # zs" and ?e = "heap_end m"
  obtain ie where ie: "items m ?e = Some ie" "mpool ie = sm_self m" "mused ie" "mnext ie = ?e"
    using inv by (auto simp: heap_inv_def heap_struct_def)
  have sel: "sm_self m1 = sm_self m" "heap_end m1 = ?e" "lfree m1 = lfree m" "heap_ptr m1 = heap_ptr m"
    "mem_size_aligned m1 = mem_size_aligned m" "sm_used m1 = used_bytes 0 ?bs"
    by (subst m1, simp)+
  have base: "heap_inv (m1\<lparr>lfree := p\<rparr>) ?bs" if "p = first_free 0 ?bs ?e" for p
    using ba inv he naf that ie unfolding heap_inv_def heap_struct_def by (simp add: sel)
  have cl: "c = lfree m1 \<longleftrightarrow> (\<forall>b \<in> set xs. snd b)"
    using first_free_marked [OF heap_invD(8) [OF inv] heap_invD(1) [OF inv]] c sel by auto
  show ?thesis
  proof (cases "\<forall>b \<in> set xs. snd b")
    case True
    let ?p = "first_free 0 ?bs ?e"
    have ba': "blocks_at (items m1) (sm_self m1) (lastst 0 0 xs) c ((k, True) # zs) (heap_end m1)"
      using ba c by (simp add: blocks_at_append sel)
    have "length ?bs < smem_fuel m1"
      using heap_inv_fuel [OF base [OF refl]] by (simp add: smem_fuel_def)
    then have "smem_next_free (smem_fuel m1) m1 c = Inr (first_free c ((k, True) # zs) ?e)"
      using smem_next_free_eq [OF ba'] ie he sel by simp
    moreover have p: "first_free c ((k, True) # zs) ?e = ?p"
      using True c by (simp add: first_free_append)
    moreover have "\<exists>i. item_at m1 ?p = Inr i \<and> (?p = ?e \<or> \<not> mused i)"
      using first_free_item [OF ba, of ie] ie he by (auto simp: item_at_def)
    ultimately show ?thesis
      using True cl base [OF refl] sel by auto
  next
    case False
    then have "lfree m1 = first_free 0 ?bs ?e"
      using heap_invD(8) [OF inv] sel by (auto simp: first_free_append)
    then have "heap_inv (m1\<lparr>lfree := lfree m1\<rparr>) ?bs"
      by (rule base)
    then have "heap_inv m1 ?bs" by simp
    moreover have "c \<noteq> lfree m1" using False cl by blast
    ultimately show ?thesis
      using sel by simp
  qed
qed

lemma smem_account_sel [simp]:
  "items (smem_account m n) = items m" "heap_end (smem_account m n) = heap_end m"
  "lfree (smem_account m n) = lfree m" "mem_size_aligned (smem_account m n) = mem_size_aligned m"
  "sm_used (smem_account m n) = sm_used m + n" "sm_self (smem_account m n) = sm_self m"
  "heap_ptr (smem_account m n) = heap_ptr m"
  by (simp_all add: smem_account_def Let_def)

definition alloc_size :: "nat \<Rightarrow> nat" where
  "alloc_size sz = max 12 (RT_ALIGN4 sz)"

lemma alloc_size_props [simp]: "4 dvd alloc_size sz" "12 \<le> alloc_size sz" "0 < alloc_size sz"
  unfolding alloc_size_def by (auto simp: max_def)

text \<open>The block is chosen: cut it and mark it.\<close>

lemma alloc_cut:
  assumes inv: "heap_inv m (xs @ (n, False) # ys)" and c: "c = endpos 0 xs"
    and fit: "c + 16 + sz \<le> n" and sz: "4 dvd sz" "12 \<le> sz" and i: "item_at m c = Inr i"
    and bs': "bs' = xs @ (if c + 44 + sz \<le> n then (c + 16 + sz, True) # (n, False) # ys else (n, True) # ys)"
  shows "\<exists>m1 i1. (if sub32 (mnext i) (c + 16) \<ge> sz + 16 + 12
             then cbind (smem_split m c sz) (\<lambda>m. Inr (smem_account m (sz + 16)))
             else Inr (smem_account m (mnext i - c))) = Inr m1 \<and> item_at m1 c = Inr i1
     \<and> blocks_at ((items m1)(c \<mapsto> rt_smem_setname self (i1\<lparr>mpool := sm_self m, mused := True\<rparr>)))
         (sm_self m) 0 0 bs' (heap_end m)
     \<and> m1 = m\<lparr>items := items m1, sm_used := used_bytes 0 bs', sm_max := sm_max m1\<rparr>
     \<and> items m1 (heap_end m) = items m (heap_end m)"
proof -
  note ba = heap_invD(1) [OF inv]
  note mid = blocks_at_mid [OF ba]
  have it: "items m c = Some i" "mnext i = n" "mused i = False" "mpool i = sm_self m"
    using mid(1) i c by (auto simp: header_def item_at_def)
  have n: "n < 2 ^ 32" using mid(7) heap_invD(6) [OF inv] by simp
  show ?thesis
  proof (cases "c + 44 + sz \<le> n")
    case True
    obtain m1 where m1: "smem_split m c sz = Inr m1"
      "blocks_at (items m1) (sm_self m) 0 0 (xs @ (c + 16 + sz, False) # (n, False) # ys) (heap_end m)"
      "m1 = m\<lparr>items := items m1\<rparr>" "items m (heap_end m) = items m1 (heap_end m)"
      using smem_split_blocks [OF ba heap_invD(2) [OF inv] c, of sz] sz True by auto
    note mid1 = blocks_at_mid [OF m1(2)]
    obtain i1 where i1: "items m1 c = Some i1" "mnext i1 = c + 16 + sz" using mid1(1) c
      by (auto simp: header_def)
    let ?m1 = "smem_account m1 (sz + 16)"
    have sel: "sm_used m1 = sm_used m" "sm_max m1 = sm_max m" "sm_self m1 = sm_self m"
      by (subst m1(3), simp)+
    have "?m1 = m\<lparr>items := items ?m1, sm_used := used_bytes 0 bs', sm_max := sm_max ?m1\<rparr>"
      using heap_invD(9) [OF inv] True c by (subst m1(3)) (simp add: smem_account_def Let_def bs' sel)
    moreover have "blocks_at ((items m1)(c \<mapsto> rt_smem_setname self (i1\<lparr>mpool := sm_self m, mused := True\<rparr>)))
         (sm_self m) 0 0 bs' (heap_end m)"
      using blocks_at_mark [OF m1(2), of i1 _ True] i1 c True by (simp add: bs')
    ultimately show ?thesis
      using True m1 i1 it n by (intro exI [of _ ?m1] exI [of _ i1]) (simp add: item_at_def)
  next
    case False
    let ?m1 = "smem_account m (n - c)"
    have "?m1 = m\<lparr>items := items ?m1, sm_used := used_bytes 0 bs', sm_max := sm_max ?m1\<rparr>"
      using heap_invD(9) [OF inv] False c by (simp add: smem_account_def Let_def bs')
    moreover have "blocks_at ((items m)(c \<mapsto> rt_smem_setname self (i\<lparr>mpool := sm_self m, mused := True\<rparr>)))
         (sm_self m) 0 0 bs' (heap_end m)"
      using blocks_at_mark [OF ba, of i _ True] it c False by (simp add: bs')
    ultimately show ?thesis
      using False it n mid(2) c by (intro exI [of _ ?m1] exI [of _ i]) (auto simp: item_at_def)
  qed
qed

lemma rt_smem_alloc_refines:
  assumes inv: "heap_inv m bs" and sz: "0 < sz" "sz \<le> 2 ^ 32 - 4"
  shows "case abs_alloc (alloc_size sz) 0 bs of
      None \<Rightarrow> rt_smem_alloc self m sz = Inr (RT_NULL, m)
    | Some (c, bs') \<Rightarrow> \<exists>m'. rt_smem_alloc self m sz = Inr (heap_ptr m + c + 16, m')
        \<and> heap_inv m' bs' \<and> heap_ptr m' = heap_ptr m \<and> heap_end m' = heap_end m"
proof (cases "RT_ALIGN4 sz > mem_size_aligned m")
  case True
  then have "find_fit (alloc_size sz) 0 bs = None"
    using heap_invD(2) [OF inv] by (intro find_fit_small [OF heap_invD(1) [OF inv]]) (simp add: alloc_size_def)
  then have "abs_alloc (alloc_size sz) 0 bs = None"
    by (simp add: abs_alloc_find [symmetric])
  then show ?thesis using True sz by (simp add: rt_smem_alloc_def)
next
  case False
  let ?s = "alloc_size sz"
  have s: "(if RT_ALIGN4 sz < 12 then 12 else RT_ALIGN4 sz) = ?s" by (simp add: alloc_size_def)
  have find: "smem_find (smem_fuel m) m ?s (lfree m) = Inr (find_fit ?s 0 bs)"
    using False heap_invD(3) [OF inv] by (intro smem_find_lfree [OF inv]) (simp_all add: alloc_size_def)
  show ?thesis
  proof (cases "abs_alloc ?s 0 bs")
    case None
    then have "find_fit ?s 0 bs = None"
      by (simp add: abs_alloc_find [symmetric])
    then show ?thesis
      using None False sz s find by (simp add: rt_smem_alloc_def Let_def)
  next
    case (Some r)
    obtain c bs' where r: "r = (c, bs')" by (cases r)
    have ff: "find_fit ?s 0 bs = Some c" using Some r by (simp add: abs_alloc_find [symmetric])
    obtain xs n ys where b: "bs = xs @ (n, False) # ys" and c: "c = endpos 0 xs" and fit: "c + 16 + ?s \<le> n"
      and bs': "bs' = xs @ (if c + 44 + ?s \<le> n then (c + 16 + ?s, True) # (n, False) # ys else (n, True) # ys)"
      using abs_alloc_Some [of ?s 0 bs c bs'] Some r by auto
    have inv': "heap_inv m (xs @ (n, False) # ys)" using inv b by simp
    note mid = blocks_at_mid [OF heap_invD(1) [OF inv']]
    obtain i where i: "item_at m c = Inr i" using mid(1) c by (auto simp: header_def item_at_def)
    obtain m1 i1 where cut: "(if sub32 (mnext i) (c + 16) \<ge> ?s + 16 + 12
             then cbind (smem_split m c ?s) (\<lambda>m. Inr (smem_account m (?s + 16)))
             else Inr (smem_account m (mnext i - c))) = Inr m1" and i1: "item_at m1 c = Inr i1"
      and ba1: "blocks_at ((items m1)(c \<mapsto> rt_smem_setname self (i1\<lparr>mpool := sm_self m, mused := True\<rparr>)))
         (sm_self m) 0 0 bs' (heap_end m)"
      and m1: "m1 = m\<lparr>items := items m1, sm_used := used_bytes 0 bs', sm_max := sm_max m1\<rparr>"
      and he: "items m1 (heap_end m) = items m (heap_end m)"
      using alloc_cut [OF inv' c fit alloc_size_props(1,2) i bs', of self] by blast
    define k zs where "k = (if c + 44 + ?s \<le> n then c + 16 + ?s else n)"
      and "zs = (if c + 44 + ?s \<le> n then (n, False) # ys else ys)"
    have kz: "bs' = xs @ (k, True) # zs" by (simp add: bs' k_def zs_def)
    have naf: "no_adjacent_free bs'"
      using no_adjacent_free_used no_adjacent_free_split heap_invD(7) [OF inv'] by (auto simp: bs')
    let ?m2 = "put_item m1 c (rt_smem_setname self (i1\<lparr>mpool := sm_self m1, mused := True\<rparr>))"
    have sel: "sm_self m1 = sm_self m" "heap_end m1 = heap_end m" "heap_ptr m1 = heap_ptr m" by (subst m1, simp)+
    have cn: "c \<noteq> heap_end m" using mid(2,7) c by simp
    have m2: "?m2 = m\<lparr>items := items ?m2, sm_used := used_bytes 0 (xs @ (k, True) # zs), sm_max := sm_max m1\<rparr>"
      by (subst m1) (simp add: put_item_def kz)
    obtain m3 where m3: "(if c = lfree ?m2
                then cbind (smem_next_free (smem_fuel ?m2) ?m2 (lfree ?m2)) (\<lambda>p.
                     cbind (item_at ?m2 p) (\<lambda>i. cbind (rt_assert (p = heap_end ?m2 \<or> \<not> mused i)) (\<lambda>_.
                       Inr (?m2\<lparr>lfree := p\<rparr>))))
                else Inr ?m2) = Inr m3"
     "heap_inv m3 (xs @ (k, True) # zs)" "heap_ptr m3 = heap_ptr m" "heap_end m3 = heap_end m"
      using alloc_finish [OF inv' c _ m2] ba1 kz he cn naf sel by auto
    have "(heap_ptr m + c + 16) mod 4 = 0" "(heap_ptr m + c) mod 4 = 0"
      using heap_invD(5) [OF inv] mid(4) c by (simp_all add: mod_add_eq [symmetric] flip: dvd_eq_mod_eq_0)
    moreover have "c + 16 + ?s \<le> heap_end m" using fit mid(7) by simp
    ultimately have "rt_smem_alloc self m sz = Inr (heap_ptr m + c + 16, m3)"
      using False sz s find ff i cut i1 m3 sel by (simp add: rt_smem_alloc_def Let_def)
    then show ?thesis using Some r m3 kz by auto
  qed
qed

section \<open>Freeing refines coalescing\<close>

fun merge_free :: "block list \<Rightarrow> block list" where
  "merge_free ((a, False) # (b, False) # bs) = merge_free ((b, False) # bs)"
| "merge_free (b # bs) = b # merge_free bs"
| "merge_free [] = []"

fun mark_free :: "nat \<Rightarrow> nat \<Rightarrow> block list \<Rightarrow> block list" where
  "mark_free p c [] = []"
| "mark_free p c ((n, u) # bs) = (if p = c then (n, False) # bs else (n, u) # mark_free p n bs)"

definition abs_free :: "nat \<Rightarrow> block list \<Rightarrow> block list" where
  "abs_free p bs = merge_free (mark_free p 0 bs)"

lemma merge_free_id: "no_adjacent_free bs \<Longrightarrow> merge_free bs = bs"
  by (induction bs rule: merge_free.induct) (auto simp: no_adjacent_free_def successively_Cons)

lemma merge_free_pair [simp]:
  "merge_free (xs @ (a, False) # (b, False) # ys) = merge_free (xs @ (b, False) # ys)"
proof (induction xs rule: merge_free.induct [case_names join used single pair])
  case (used v bs)
  then show ?case by (cases bs) auto
next
  case (single v)
  then show ?case by (cases v; cases "snd v") auto
next
  case (pair b v va)
  then show ?case by (cases b; cases "snd b") auto
qed auto

lemma used_list_merge [simp]: "used_list c (merge_free bs) = used_list c bs"
  by (induction bs arbitrary: c rule: merge_free.induct) auto

lemma mark_free_mid:
  assumes "blocks_at it s 0 0 (xs @ (n, u) # ys) e"
  shows "mark_free (endpos 0 xs) 0 (xs @ (n, u) # ys) = xs @ (n, False) # ys"
proof -
  have "p \<notin> set (starts c xs) \<Longrightarrow> p = endpos c xs \<Longrightarrow> mark_free p c (xs @ (n, u) # ys) = xs @ (n, False) # ys" for c p
    by (induction c xs rule: starts.induct) auto
  then show ?thesis using blocks_at_mid(8) [OF assms] by blast
qed

text \<open>Joining two neighbouring blocks in the store.\<close>

lemma blocks_at_merge:
  assumes ba: "blocks_at it s 0 0 (xs @ (n, u) # (k, v) # ys) e" and c: "c = endpos 0 xs"
    and it: "it c = Some i" "it e = Some ie"
  shows "\<exists>q. (it(n \<mapsto> ni, c \<mapsto> i\<lparr>mnext := k\<rparr>)) k = Some q
    \<and> blocks_at (it(n \<mapsto> ni, c \<mapsto> i\<lparr>mnext := k\<rparr>, k \<mapsto> q\<lparr>mprev := c\<rparr>)) s 0 0 (xs @ (k, u) # ys) e
    \<and> (\<exists>ie'. (it(n \<mapsto> ni, c \<mapsto> i\<lparr>mnext := k\<rparr>, k \<mapsto> q\<lparr>mprev := c\<rparr>)) e = Some ie'
         \<and> mpool ie' = mpool ie \<and> mused ie' = mused ie \<and> mnext ie' = mnext ie)"
proof -
  note mid = blocks_at_mid [OF ba]
  have ba2: "blocks_at it s 0 0 ((xs @ [(n, u)]) @ (k, v) # ys) e" using ba by simp
  note mid2 = blocks_at_mid [OF ba2]
  have lt: "c < n" "n < k" "k \<le> e" using mid(2) mid2(2,7) c by auto
  let ?it = "it(n \<mapsto> ni, c \<mapsto> i\<lparr>mnext := k\<rparr>)"
  obtain q where q: "it k = Some q"
    using mid2(6) it(2) by (cases ys) (auto simp: header_def)
  have ys: "blocks_at ?it s n k ys e"
  proof -
    have "n \<notin> set (starts k ys)" "c \<notin> set (starts k ys)"
      using mid2(9) lt by fastforce+
    then show ?thesis using mid2(6) by simp
  qed
  have qk: "?it k = Some q" using q lt by simp
  have xs: "blocks_at (?it(k \<mapsto> q\<lparr>mprev := c\<rparr>)) s 0 0 xs c"
  proof -
    have "n \<notin> set (starts 0 xs)" "c \<notin> set (starts 0 xs)" "k \<notin> set (starts 0 xs)"
      using mid(10) lt c by fastforce+
    then show ?thesis using mid(5) c by simp
  qed
  have "header (?it(k \<mapsto> q\<lparr>mprev := c\<rparr>)) s (lastst 0 0 xs) c k u"
    using mid(1) it(1) lt c by (auto simp: header_def)
  moreover have "blocks_at (?it(k \<mapsto> q\<lparr>mprev := c\<rparr>)) s c k ys e"
    using ys qk by (rule blocks_at_set_prev)
  moreover have "c + 16 < k" using mid(2) lt c by simp
  ultimately have "blocks_at (?it(k \<mapsto> q\<lparr>mprev := c\<rparr>)) s 0 0 (xs @ (k, u) # ys) e"
    using xs mid2(3) by (simp only: blocks_at_append blocks_at.simps flip: c)
  moreover have "\<exists>ie'. (?it(k \<mapsto> q\<lparr>mprev := c\<rparr>)) e = Some ie'
         \<and> mpool ie' = mpool ie \<and> mused ie' = mused ie \<and> mnext ie' = mnext ie"
    using it(2) q lt by auto
  ultimately show ?thesis using qk by blast
qed

lemma heap_structD:
  assumes "heap_struct m bs"
  shows "blocks_at (items m) (sm_self m) 0 0 bs (heap_end m)" "heap_end m = mem_size_aligned m + 16"
    "12 \<le> mem_size_aligned m" "sm_self m \<noteq> 0" "4 dvd heap_ptr m" "heap_ptr m + heap_end m + 16 \<le> 2 ^ 32"
    "lfree m = first_free 0 bs (heap_end m)" "sm_used m = used_bytes 0 bs"
    "\<exists>i. items m (heap_end m) = Some i \<and> mpool i = sm_self m \<and> mused i \<and> mnext i = heap_end m"
  using assms unfolding heap_struct_def by blast+

text \<open>The common step of both halves of \<open>plug_holes\<close>.\<close>

definition join_blocks :: "small_mem \<Rightarrow> nat \<Rightarrow> nat \<Rightarrow> nat \<Rightarrow> mem_item \<Rightarrow> mem_item \<Rightarrow> small_mem cres" where
  "join_blocks m c n k i ni =
     (let m = put_item (put_item m n (ni\<lparr>mpool := 0, mused := False\<rparr>)) c (i\<lparr>mnext := k\<rparr>)
      in cbind (item_at m k) (\<lambda>q. Inr (put_item m k (q\<lparr>mprev := c\<rparr>))))"

lemma heap_struct_join:
  assumes hs: "heap_struct m (xs @ (n, False) # (k, False) # ys)" and c: "c = endpos 0 xs"
    and it: "items m c = Some i"
  shows "\<exists>m'. join_blocks m c n k i ni = Inr m' \<and> heap_struct m' (xs @ (k, False) # ys)
    \<and> heap_ptr m' = heap_ptr m \<and> heap_end m' = heap_end m"
proof -
  obtain ie where ie: "items m (heap_end m) = Some ie" "mpool ie = sm_self m" "mused ie" "mnext ie = heap_end m"
    using heap_structD(9) [OF hs] by blast
  let ?it = "(items m)(n \<mapsto> ni\<lparr>mpool := 0, mused := False\<rparr>, c \<mapsto> i\<lparr>mnext := k\<rparr>)"
  obtain q where q: "?it k = Some q"
    and ba: "blocks_at (?it(k \<mapsto> q\<lparr>mprev := c\<rparr>)) (sm_self m) 0 0 (xs @ (k, False) # ys) (heap_end m)"
    and ee: "\<exists>ie'. (?it(k \<mapsto> q\<lparr>mprev := c\<rparr>)) (heap_end m) = Some ie'
         \<and> mpool ie' = mpool ie \<and> mused ie' = mused ie \<and> mnext ie' = mnext ie"
    using blocks_at_merge [OF heap_structD(1) [OF hs] c it ie(1)] by blast
  let ?m = "m\<lparr>items := ?it(k \<mapsto> q\<lparr>mprev := c\<rparr>)\<rparr>"
  have "join_blocks m c n k i ni = Inr ?m"
    using q by (simp add: join_blocks_def Let_def item_at_def put_item_def)
  moreover have "first_free 0 (xs @ (n, False) # (k, False) # ys) (heap_end m)
      = first_free 0 (xs @ (k, False) # ys) (heap_end m)"
    by (simp add: first_free_append)
  then have "heap_struct ?m (xs @ (k, False) # ys)"
    using ba ee ie heap_structD(2-8) [OF hs] unfolding heap_struct_def by simp
  ultimately show ?thesis by simp
qed

lemma first_free_le_mid:
  assumes "blocks_at it s 0 0 (xs @ (n, False) # ys) e"
  shows "first_free 0 (xs @ (n, False) # ys) e \<le> endpos 0 xs"
proof (cases "\<forall>b \<in> set xs. snd b")
  case False
  with first_free_starts [OF this, of 0 e] blocks_at_mid(10) [OF assms, of "first_free 0 xs e"] show ?thesis
    by (simp only: first_free_append) auto
qed (simp add: first_free_append)

definition join_next :: "nat \<Rightarrow> block list \<Rightarrow> block list" where
  "join_next n ys = (case ys of (k, False) # ys' \<Rightarrow> (k, False) # ys' | _ \<Rightarrow> (n, False) # ys)"

lemma plug_next_struct:
  assumes hs: "heap_struct m (xs @ (n, False) # ys)"
  shows "\<exists>m'. plug_next m (endpos 0 xs) = Inr m' \<and> heap_struct m' (xs @ join_next n ys)
    \<and> heap_ptr m' = heap_ptr m \<and> heap_end m' = heap_end m"
proof -
  let ?c = "endpos 0 xs"
  note ba = heap_structD(1) [OF hs]
  note mid = blocks_at_mid [OF ba]
  obtain i where i: "items m ?c = Some i" "mnext i = n" using mid(1) by (auto simp: header_def)
  obtain ie where ie: "items m (heap_end m) = Some ie" "mused ie"
    using heap_structD(9) [OF hs] by blast
  show ?thesis
  proof (cases "\<exists>k ys'. ys = (k, False) # ys'")
    case True
    then obtain k ys' where ys: "ys = (k, False) # ys'" by blast
    obtain ni where ni: "items m n = Some ni" "mnext ni = k" "\<not> mused ni"
      using mid(6) ys by (auto simp: header_def)
    have "n \<noteq> heap_end m" "lfree m \<noteq> n" "?c \<noteq> n"
      using mid(2,6) ys blocks_at_le [OF mid(6)] first_free_le_mid [OF ba] heap_structD(7) [OF hs] by auto
    then have "plug_next m ?c = join_blocks m ?c n k i ni"
      using i ni by (simp add: plug_next_def join_blocks_def item_at_def Let_def)
    then show ?thesis
      using heap_struct_join [OF hs [unfolded ys] refl i(1), of ni] ys by (simp add: join_next_def)
  next
    case False
    then have "join_next n ys = (n, False) # ys"
      by (auto simp: join_next_def split: list.splits prod.splits bool.splits)
    moreover have "\<exists>ni. items m n = Some ni \<and> mused ni"
      using False mid(6) ie by (cases ys) (auto simp: header_def)
    ultimately show ?thesis
      using hs i by (auto simp: plug_next_def item_at_def Let_def)
  qed
qed

lemma plug_prev_struct:
  assumes hs: "heap_struct m (xs @ (n, False) # ys)"
  shows "\<exists>m'. plug_prev m (endpos 0 xs) = Inr m'
    \<and> heap_struct m' ((if xs \<noteq> [] \<and> \<not> snd (last xs) then butlast xs else xs) @ (n, False) # ys)
    \<and> heap_ptr m' = heap_ptr m \<and> heap_end m' = heap_end m"
proof -
  let ?c = "endpos 0 xs"
  note ba = heap_structD(1) [OF hs]
  note mid = blocks_at_mid [OF ba]
  obtain i where i: "items m ?c = Some i" "mnext i = n" "mprev i = lastst 0 0 xs" "\<not> mused i"
    using mid(1) by (auto simp: header_def)
  show ?thesis
  proof (cases xs rule: rev_cases)
    case Nil
    then show ?thesis using i hs by (simp add: plug_prev_def item_at_def Let_def)
  next
    case (snoc xs' b)
    obtain k u where b: "b = (k, u)" by (cases b)
    have ba': "blocks_at (items m) (sm_self m) 0 0 (xs' @ (k, u) # (n, False) # ys) (heap_end m)"
      using ba snoc b by simp
    note mid' = blocks_at_mid [OF ba']
    have p: "lastst 0 0 xs = endpos 0 xs'" "?c = k" by (simp_all add: snoc b)
    obtain pi where pi: "items m (endpos 0 xs') = Some pi" "mused pi = u"
      using mid'(1) by (auto simp: header_def)
    show ?thesis
    proof (cases u)
      case True
      then show ?thesis
        using i pi hs p by (simp add: plug_prev_def item_at_def Let_def snoc b)
    next
      case False
      have hs': "heap_struct m (xs' @ (k, False) # (n, False) # ys)" using hs snoc b False by simp
      have "lfree m \<noteq> k"
        using first_free_le_mid [of "items m" "sm_self m" xs' k _ "heap_end m"] ba' False mid'(2)
          heap_structD(7) [OF hs'] by fastforce
      then have "plug_prev m ?c = join_blocks m (endpos 0 xs') k n pi i"
        using i pi p False mid'(2) by (simp add: plug_prev_def join_blocks_def item_at_def Let_def)
      then show ?thesis
        using heap_struct_join [OF hs' refl pi(1), of i] False by (simp add: snoc b)
    qed
  qed
qed

lemma join_next_naf:
  assumes "no_adjacent_free ys"
  shows "\<exists>n' ys'. join_next n ys = (n', False) # ys' \<and> no_adjacent_free ((n', False) # ys')"
  using assms by (auto simp: join_next_def no_adjacent_free_def successively_Cons
      split: list.splits prod.splits bool.splits)

lemma merge_free_join_next: "merge_free (xs @ join_next n ys) = merge_free (xs @ (n, False) # ys)"
  by (auto simp: join_next_def split: list.splits prod.splits bool.splits)

lemma plug_holes_struct:
  assumes hs: "heap_struct m (xs @ (n, False) # ys)" and naf: "no_adjacent_free xs" "no_adjacent_free ys"
  shows "\<exists>m'. plug_holes m (endpos 0 xs) = Inr m' \<and> heap_inv m' (merge_free (xs @ (n, False) # ys))
    \<and> heap_ptr m' = heap_ptr m \<and> heap_end m' = heap_end m"
proof -
  obtain n' ys' where j: "join_next n ys = (n', False) # ys'" and jn: "no_adjacent_free ((n', False) # ys')"
    using join_next_naf [OF naf(2)] by blast
  obtain m1 where m1: "plug_next m (endpos 0 xs) = Inr m1" "heap_struct m1 (xs @ (n', False) # ys')"
    "heap_ptr m1 = heap_ptr m" "heap_end m1 = heap_end m"
    using plug_next_struct [OF hs] j by auto
  let ?xs = "if xs \<noteq> [] \<and> \<not> snd (last xs) then butlast xs else xs"
  obtain m2 where m2: "plug_prev m1 (endpos 0 xs) = Inr m2" "heap_struct m2 (?xs @ (n', False) # ys')"
    "heap_ptr m2 = heap_ptr m" "heap_end m2 = heap_end m"
    using plug_prev_struct [OF m1(2)] m1(3,4) by auto
  have lt: "endpos 0 xs < heap_end m"
    using blocks_at_mid(2,7) [OF heap_structD(1) [OF hs]] by simp
  have "merge_free (?xs @ (n', False) # ys') = merge_free (xs @ (n', False) # ys')"
    by (cases xs rule: rev_cases) auto
  then have mf: "merge_free (?xs @ (n', False) # ys') = merge_free (xs @ (n, False) # ys)"
    using merge_free_join_next [of xs n ys] j by simp
  have "no_adjacent_free (?xs @ (n', False) # ys')"
    using naf(1) jn by (cases xs rule: rev_cases)
      (auto simp: no_adjacent_free_def successively_append_iff)
  then have "heap_inv m2 (merge_free (xs @ (n, False) # ys))"
    using m2(2) merge_free_id mf by (metis heap_inv_def)
  then show ?thesis using lt m1 m2 by (simp add: plug_holes_def)
qed

text \<open>Marking a used block as free, with \<open>lfree\<close> and \<open>used\<close> brought up to date.\<close>

lemma free_mark:
  assumes hs: "heap_struct m (xs @ (n, True) # ys)" and i: "items m (endpos 0 xs) = Some i"
    and i': "mpool i' = sm_self m" "\<not> mused i'" "mnext i' = n" "mprev i' = mprev i"
    and lf: "lf = (if endpos 0 xs < lfree m then endpos 0 xs else lfree m)"
  shows "heap_struct (m\<lparr>items := (items m)(endpos 0 xs \<mapsto> i'), lfree := lf,
      sm_used := sm_used m - (n - endpos 0 xs)\<rparr>) (xs @ (n, False) # ys)"
proof -
  let ?c = "endpos 0 xs"
  note ba = heap_structD(1) [OF hs]
  note mid = blocks_at_mid [OF ba]
  have ba': "blocks_at ((items m)(?c \<mapsto> i')) (sm_self m) 0 0 (xs @ (n, False) # ys) (heap_end m)"
    using blocks_at_mark [OF ba i, of i' False] i' by simp
  have e: "?c < heap_end m" using mid(2,7) by simp
  have "lf = first_free 0 (xs @ (n, False) # ys) (heap_end m)"
  proof (cases "\<forall>b \<in> set xs. snd b")
    case True
    then have "first_free n ys (heap_end m) = lfree m"
      using heap_structD(7) [OF hs] by (simp add: first_free_append)
    then have "?c < lfree m"
      using first_free_cases [of n ys "heap_end m"] mid(2,9) e by fastforce
    then show ?thesis using True lf by (simp add: first_free_append)
  next
    case False
    have eq: "lfree m = first_free 0 (xs @ (n, False) # ys) (heap_end m)"
      using False heap_structD(7) [OF hs] by (simp only: first_free_append if_False)
    then have "lfree m \<le> ?c"
      using first_free_le_mid [OF ba'] by simp
    then show ?thesis using eq lf by simp
  qed
  then show ?thesis
    using ba' hs e unfolding heap_struct_def by auto
qed

lemma rt_smem_free_refines:
  assumes inv: "heap_inv m (xs @ (n, True) # ys)"
  shows "\<exists>m'. rt_smem_free m (heap_ptr m + endpos 0 xs + 16) = Inr m'
    \<and> heap_inv m' (abs_free (endpos 0 xs) (xs @ (n, True) # ys))
    \<and> heap_ptr m' = heap_ptr m \<and> heap_end m' = heap_end m"
proof -
  let ?c = "endpos 0 xs"
  have hs: "heap_struct m (xs @ (n, True) # ys)" using inv by (simp add: heap_inv_def)
  note ba = heap_structD(1) [OF hs]
  note mid = blocks_at_mid [OF ba]
  obtain i where i: "items m ?c = Some i" "mnext i = n" "mpool i = sm_self m" "mused i"
    using mid(1) by (auto simp: header_def)
  obtain ni where ni: "items m n = Some ni" "mpool ni = sm_self m"
    using mid(6) heap_structD(9) [OF hs] by (cases ys) (auto simp: header_def)
  let ?i = "rt_smem_setname ''    '' (i\<lparr>mpool := sm_self m, mused := False\<rparr>)"
  let ?lf = "if ?c < lfree m then ?c else lfree m"
  let ?m = "m\<lparr>items := (items m)(?c \<mapsto> ?i), lfree := ?lf, sm_used := sm_used m - (n - ?c)\<rparr>"
  have hs': "heap_struct ?m (xs @ (n, False) # ys)"
    using i by (intro free_mark [OF hs i(1) _ _ _ _ refl]) simp_all
  have naf: "no_adjacent_free xs" "no_adjacent_free ys"
    using heap_invD(7) [OF inv]
    by (auto simp: no_adjacent_free_def successively_append_iff successively_Cons)
  obtain m' where m': "plug_holes ?m ?c = Inr m'" "heap_inv m' (merge_free (xs @ (n, False) # ys))"
    "heap_ptr m' = heap_ptr m" "heap_end m' = heap_end m"
    using plug_holes_struct [OF hs' naf] by auto
  have "4 dvd heap_ptr m + ?c + 16"
    using heap_structD(5) [OF hs] mid(4) by simp
  moreover have "heap_ptr m + ?c + 16 < heap_ptr m + heap_end m"
    using mid(2,7) by simp
  ultimately have "rt_smem_free m (heap_ptr m + ?c + 16) = plug_holes ?m ?c"
    using i ni heap_structD(4) [OF hs] by (simp add: rt_smem_free_def item_at_def Let_def put_item_def)
  then show ?thesis
    using m' mark_free_mid [OF ba] by (simp add: abs_free_def)
qed

section \<open>The live blocks\<close>

text \<open>The blocks read off the headers, and the allocated ones as pairs of the address the
  client holds and the number of bytes it may use.\<close>

fun walk :: "nat \<Rightarrow> small_mem \<Rightarrow> nat \<Rightarrow> block list" where
  "walk 0 m c = []"
| "walk (Suc fuel) m c =
     (if c = heap_end m then []
      else case items m c of None \<Rightarrow> [] | Some i \<Rightarrow> (mnext i, mused i) # walk fuel m (mnext i))"

definition heap_blocks :: "small_mem \<Rightarrow> block list" where
  "heap_blocks m = walk (smem_fuel m) m 0"

definition smem_inv :: "small_mem \<Rightarrow> bool" where
  "smem_inv m \<longleftrightarrow> heap_inv m (heap_blocks m)"

definition client_block :: "nat \<Rightarrow> nat \<times> nat \<Rightarrow> ptr \<times> nat" where
  "client_block h = (\<lambda>(c, n). (h + c + 16, n - c - 16))"

definition smem_live :: "small_mem \<Rightarrow> (ptr \<times> nat) set" where
  "smem_live m = set (map (client_block (heap_ptr m)) (used_list 0 (heap_blocks m)))"

lemma walk_blocks:
  "blocks_at (items m) s p c bs (heap_end m) \<Longrightarrow> length bs < fuel \<Longrightarrow> walk fuel m c = bs"
proof (induction bs arbitrary: fuel p c)
  case Nil
  then show ?case by (cases fuel) auto
next
  case (Cons b bs)
  obtain n u where b: "b = (n, u)" by (cases b)
  obtain f where f: "fuel = Suc f" "length bs < f" using Cons.prems(2) by (cases fuel) auto
  have rest: "blocks_at (items m) s c n bs (heap_end m)" "c + 16 < n" and "header (items m) s p c n u"
    using Cons.prems(1) by (auto simp: b)
  then show ?case
    using f Cons.IH [OF rest(1) f(2)] blocks_at_le [OF rest(1)] by (auto simp: b header_def)
qed

lemma heap_blocks_eq: "heap_inv m bs \<Longrightarrow> heap_blocks m = bs"
  unfolding heap_blocks_def using walk_blocks [OF heap_invD(1) heap_inv_fuel] by blast

lemma smem_inv_iff: "smem_inv m \<longleftrightarrow> (\<exists>bs. heap_inv m bs)"
  unfolding smem_inv_def using heap_blocks_eq by metis

lemma used_list_mid: "(c, n) \<in> set (used_list a bs) \<Longrightarrow> \<exists>xs ys. bs = xs @ (n, True) # ys \<and> c = endpos a xs"
proof (induction bs arbitrary: a)
  case (Cons b bs)
  obtain k u where b: "b = (k, u)" by (cases b)
  show ?case
  proof (cases "(c, n) \<in> set (used_list k bs)")
    case True
    then obtain xs ys where "bs = xs @ (n, True) # ys" "c = endpos k xs" using Cons.IH by blast
    then show ?thesis by (intro exI [of _ "b # xs"] exI [of _ ys]) (simp add: b)
  next
    case False
    then have "u" "c = a" "n = k" using Cons.prems by (auto simp: b split: if_splits)
    then show ?thesis by (intro exI [of _ "[]"] exI [of _ bs]) (simp add: b)
  qed
qed simp

lemma used_list_bounds:
  "blocks_at it s p a bs e \<Longrightarrow> (c, n) \<in> set (used_list a bs) \<Longrightarrow> a \<le> c \<and> c + 16 < n \<and> n \<le> e"
proof (induction it s p a bs e rule: blocks_at.induct)
  case (2 it s p a k u bs e)
  then show ?case using blocks_at_le [of it s a k bs e] by (auto split: if_splits)
qed auto

lemma used_list_distinct:
  "blocks_at it s p a bs e \<Longrightarrow> (c, n) \<in> set (used_list a bs) \<Longrightarrow> (d, k) \<in> set (used_list a bs)
    \<Longrightarrow> (c, n) = (d, k) \<or> n \<le> d \<or> k \<le> c"
proof (induction it s p a bs e rule: blocks_at.induct)
  case (2 it s p a l u bs e)
  then show ?case using used_list_bounds [of it s a l bs e] by (auto split: if_splits)
qed auto

lemma abs_free_used:
  assumes ba: "blocks_at it s 0 0 (xs @ (n, True) # ys) e"
  shows "set (used_list 0 (abs_free (endpos 0 xs) (xs @ (n, True) # ys)))
    = set (used_list 0 (xs @ (n, True) # ys)) - {(endpos 0 xs, n)}"
proof -
  note mid = blocks_at_mid [OF ba]
  have "(endpos 0 xs, n) \<notin> set (used_list 0 xs)" "(endpos 0 xs, n) \<notin> set (used_list n ys)"
    using used_list_bounds [OF mid(5)] used_list_bounds [OF mid(6)] mid(2) by fastforce+
  then show ?thesis using mark_free_mid [OF ba] by (auto simp: abs_free_def)
qed

lemma abs_alloc_used:
  assumes "blocks_at it s 0 0 bs e" and "abs_alloc sz 0 bs = Some (c, bs')"
  shows "\<exists>n. c + 16 + sz \<le> n \<and> n \<le> e \<and> set (used_list 0 bs') = insert (c, n) (set (used_list 0 bs))
    \<and> (\<forall>d k. (d, k) \<in> set (used_list 0 bs) \<longrightarrow> n \<le> d \<or> k \<le> c)"
proof -
  obtain xs n ys where b: "bs = xs @ (n, False) # ys" and c: "c = endpos 0 xs" and fit: "c + 16 + sz \<le> n"
    and bs': "bs' = xs @ (if c + 44 + sz \<le> n then (c + 16 + sz, True) # (n, False) # ys else (n, True) # ys)"
    using abs_alloc_Some [OF assms(2)] by auto
  note mid = blocks_at_mid [OF assms(1) [unfolded b]]
  let ?k = "if c + 44 + sz \<le> n then c + 16 + sz else n"
  have "set (used_list 0 bs') = insert (c, ?k) (set (used_list 0 bs))"
    by (simp add: bs' b c)
  moreover have "\<forall>d k. (d, k) \<in> set (used_list 0 bs) \<longrightarrow> ?k \<le> d \<or> k \<le> c"
    using used_list_bounds [OF mid(5)] used_list_bounds [OF mid(6)] b c by fastforce
  moreover have "c + 16 + sz \<le> ?k" "?k \<le> e" using fit mid(7) by auto
  ultimately show ?thesis by blast
qed

section \<open>The allocator interface\<close>

text \<open>
  What the clients of the heap rely on: an allocation yields either nothing or a block that is
  aligned, large enough and apart from every block that is in use, and it can be given back. \<open>live\<close>
  is the set of allocated blocks with their lengths, \<open>limit\<close> the largest request.
\<close>

definition apart :: "ptr \<times> nat \<Rightarrow> ptr \<times> nat \<Rightarrow> bool" where
  "apart a b \<longleftrightarrow> fst a + snd a \<le> fst b \<or> fst b + snd b \<le> fst a"

locale allocator =
  fixes inv :: "'s \<Rightarrow> bool" and live :: "'s \<Rightarrow> (ptr \<times> nat) set"
    and alloc :: "'s \<Rightarrow> nat \<Rightarrow> (ptr \<times> 's) cres" and free :: "'s \<Rightarrow> ptr \<Rightarrow> 's cres" and limit :: nat
  assumes alloc_law: "inv s \<Longrightarrow> 0 < n \<Longrightarrow> n \<le> limit \<Longrightarrow>
      \<exists>p s'. alloc s n = Inr (p, s') \<and> inv s' \<and>
        (p = RT_NULL \<and> s' = s \<or>
         p \<noteq> RT_NULL \<and> 4 dvd p \<and> (\<exists>l. n \<le> l \<and> live s' = insert (p, l) (live s) \<and> (\<forall>b \<in> live s. apart (p, l) b)))"
    and free_law: "inv s \<Longrightarrow> (p, l) \<in> live s \<Longrightarrow> \<exists>s'. free s p = Inr s' \<and> inv s' \<and> live s' = live s - {(p, l)}"
    and free_null: "free s RT_NULL = Inr s"
    and live_pos: "inv s \<Longrightarrow> (p, l) \<in> live s \<Longrightarrow> 0 < l \<and> p \<noteq> RT_NULL"
    and live_apart: "inv s \<Longrightarrow> a \<in> live s \<Longrightarrow> b \<in> live s \<Longrightarrow> a = b \<or> apart a b"
begin

lemma alloc_fresh:
  assumes "inv s" "0 < n" "n \<le> limit" "alloc s n = Inr (p, s')" "p \<noteq> RT_NULL"
  shows "\<exists>l. n \<le> l \<and> (p, l) \<notin> live s \<and> live s' = insert (p, l) (live s)"
proof -
  obtain l where l: "n \<le> l" "live s' = insert (p, l) (live s)" "\<forall>b \<in> live s. apart (p, l) b"
    using alloc_law [OF assms(1-3)] assms(4,5) by auto
  then have "(p, l) \<notin> live s" using assms(2) by (auto simp: apart_def)
  then show ?thesis using l by blast
qed

lemma alloc_free_live:
  assumes "inv s" "0 < n" "n \<le> limit" "alloc s n = Inr (p, s')" "p \<noteq> RT_NULL"
  shows "\<exists>s''. free s' p = Inr s'' \<and> inv s'' \<and> live s'' = live s"
proof -
  obtain l where l: "(p, l) \<notin> live s" "live s' = insert (p, l) (live s)"
    using alloc_fresh [OF assms] by blast
  have "inv s'" using alloc_law [OF assms(1-3)] assms(4) by auto
  then show ?thesis using free_law [of s' p l] l by auto
qed

lemma alloc2_apart:
  assumes "inv s" "0 < n" "n \<le> limit" "alloc s n = Inr (p, s1)" "p \<noteq> RT_NULL"
    and "0 < k" "k \<le> limit" "alloc s1 k = Inr (q, s2)" "q \<noteq> RT_NULL"
  shows "apart (p, n) (q, k)"
proof -
  obtain l where l: "n \<le> l" "live s1 = insert (p, l) (live s)"
    using alloc_fresh [OF assms(1-5)] by blast
  have "inv s1" using alloc_law [OF assms(1-3)] assms(4) by auto
  then obtain j where "k \<le> j" "\<forall>b \<in> live s1. apart (q, j) b"
    using alloc_law [OF _ assms(6,7)] assms(8,9) by force
  then show ?thesis using l by (auto simp: apart_def)
qed

end

lemma smem_inv_alloc:
  assumes "smem_inv m" "0 < n" "n \<le> 2 ^ 32 - 4"
  shows "\<exists>p m'. rt_smem_alloc self m n = Inr (p, m') \<and> smem_inv m' \<and>
    (p = RT_NULL \<and> m' = m \<or> p \<noteq> RT_NULL \<and> 4 dvd p
      \<and> (\<exists>l. n \<le> l \<and> smem_live m' = insert (p, l) (smem_live m) \<and> (\<forall>b \<in> smem_live m. apart (p, l) b)))"
proof -
  let ?bs = "heap_blocks m"
  have inv: "heap_inv m ?bs" using assms(1) by (simp add: smem_inv_def)
  note ref = rt_smem_alloc_refines [OF inv assms(2,3), of self]
  show ?thesis
  proof (cases "abs_alloc (alloc_size n) 0 ?bs")
    case None
    then show ?thesis using ref assms(1) by auto
  next
    case (Some r)
    obtain c bs' where r: "r = (c, bs')" by (cases r)
    obtain m' where m': "rt_smem_alloc self m n = Inr (heap_ptr m + c + 16, m')" "heap_inv m' bs'"
      "heap_ptr m' = heap_ptr m" "heap_end m' = heap_end m"
      using ref Some r by auto
    obtain k where k: "c + 16 + alloc_size n \<le> k" "set (used_list 0 bs') = insert (c, k) (set (used_list 0 ?bs))"
      "\<forall>d j. (d, j) \<in> set (used_list 0 ?bs) \<longrightarrow> k \<le> d \<or> j \<le> c"
      using abs_alloc_used [OF heap_invD(1) [OF inv], of "alloc_size n" c bs'] Some r by auto
    have n: "n \<le> alloc_size n" using RT_ALIGN4_ge [OF assms(3)] by (simp add: alloc_size_def)
    obtain xs j ys where "?bs = xs @ (j, False) # ys" "c = endpos 0 xs"
      using abs_alloc_Some [of "alloc_size n" 0 ?bs c bs'] Some r by auto
    then have "4 dvd heap_ptr m + c + 16"
      using blocks_at_mid(4) [of "items m" "sm_self m" xs j False ys] heap_invD(1,5) [OF inv] by simp
    moreover have "smem_live m' = insert (heap_ptr m + c + 16, k - c - 16) (smem_live m)"
      using k(2) heap_blocks_eq [OF m'(2)] m'(3) by (simp add: smem_live_def client_block_def)
    moreover have "\<forall>b \<in> smem_live m. apart (heap_ptr m + c + 16, k - c - 16) b"
    proof
      fix b assume "b \<in> smem_live m"
      then obtain d j where d: "(d, j) \<in> set (used_list 0 ?bs)" "b = (heap_ptr m + d + 16, j - d - 16)"
        by (auto simp: smem_live_def client_block_def)
      then have "k \<le> d \<or> j \<le> c" using k(3) by blast
      then show "apart (heap_ptr m + c + 16, k - c - 16) b"
        using d(2) used_list_bounds [OF heap_invD(1) [OF inv] d(1)] k(1) by (auto simp: apart_def)
    qed
    moreover have "n \<le> k - c - 16" using k(1) n by simp
    moreover have "smem_inv m'" using m'(2) smem_inv_iff by blast
    moreover have "heap_ptr m + c + 16 \<noteq> RT_NULL" by simp
    ultimately show ?thesis
      using m'(1) by (intro exI [of _ "heap_ptr m + c + 16"] exI [of _ m']) blast
  qed
qed

lemma live_remove:
  assumes inv: "heap_inv m bs" and "(c, n) \<in> set (used_list 0 bs)"
  shows "client_block (heap_ptr m) ` (set (used_list 0 bs) - {(c, n)})
    = smem_live m - {(heap_ptr m + c + 16, n - c - 16)}"
proof -
  have inj: "inj_on (client_block (heap_ptr m)) (set (used_list 0 bs))"
    using used_list_bounds [OF heap_invD(1) [OF inv]]
    by (intro inj_onI) (fastforce simp: client_block_def)
  then have "client_block (heap_ptr m) ` (set (used_list 0 bs) - {(c, n)})
      = client_block (heap_ptr m) ` set (used_list 0 bs) - client_block (heap_ptr m) ` {(c, n)}"
    using assms(2) by (intro inj_on_image_set_diff) auto
  then show ?thesis by (simp add: smem_live_def heap_blocks_eq [OF inv] client_block_def)
qed

lemma smem_inv_free:
  assumes "smem_inv m" "(p, l) \<in> smem_live m"
  shows "\<exists>m'. rt_smem_free m p = Inr m' \<and> smem_inv m' \<and> smem_live m' = smem_live m - {(p, l)}"
proof -
  let ?bs = "heap_blocks m"
  have inv: "heap_inv m ?bs" using assms(1) by (simp add: smem_inv_def)
  obtain c n where cn: "(c, n) \<in> set (used_list 0 ?bs)" "p = heap_ptr m + c + 16" "l = n - c - 16"
    using assms(2) by (auto simp: smem_live_def client_block_def)
  obtain xs ys where b: "?bs = xs @ (n, True) # ys" "c = endpos 0 xs"
    using used_list_mid [OF cn(1)] by blast
  have inv': "heap_inv m (xs @ (n, True) # ys)" using inv b by simp
  obtain m' where m': "rt_smem_free m p = Inr m'" "heap_inv m' (abs_free c ?bs)" "heap_ptr m' = heap_ptr m"
    using rt_smem_free_refines [OF inv'] b cn(2) by auto
  have used: "set (used_list 0 (heap_blocks m')) = set (used_list 0 ?bs) - {(c, n)}"
    using abs_free_used [OF heap_invD(1) [OF inv']] heap_blocks_eq [OF m'(2)] b by simp
  have "smem_live m' = client_block (heap_ptr m) ` (set (used_list 0 ?bs) - {(c, n)})"
    using used m'(3) by (simp add: smem_live_def)
  then have "smem_live m' = smem_live m - {(p, l)}"
    using live_remove [OF inv cn(1)] cn(2,3) by simp
  then show ?thesis using m' smem_inv_iff by blast
qed

interpretation smem: allocator smem_inv smem_live "rt_smem_alloc self" rt_smem_free "2 ^ 32 - 4"
proof
  fix s and n :: nat assume "smem_inv s" "0 < n" "n \<le> 2 ^ 32 - 4"
  then show "\<exists>p s'. rt_smem_alloc self s n = Inr (p, s') \<and> smem_inv s' \<and>
        (p = RT_NULL \<and> s' = s \<or>
         p \<noteq> RT_NULL \<and> 4 dvd p \<and> (\<exists>l. n \<le> l \<and> smem_live s' = insert (p, l) (smem_live s)
           \<and> (\<forall>b \<in> smem_live s. apart (p, l) b)))"
    by (rule smem_inv_alloc)
next
  fix s p l assume "smem_inv s" "(p, l) \<in> smem_live s"
  then show "\<exists>s'. rt_smem_free s p = Inr s' \<and> smem_inv s' \<and> smem_live s' = smem_live s - {(p, l)}"
    by (rule smem_inv_free)
next
  fix s p l assume "smem_inv s" "(p, l) \<in> smem_live s"
  then show "0 < l \<and> p \<noteq> RT_NULL"
    using used_list_bounds [OF heap_invD(1)] by (fastforce simp: smem_inv_def smem_live_def client_block_def)
next
  fix s a b assume s: "smem_inv s" and "a \<in> smem_live s" "b \<in> smem_live s"
  then obtain c n d k where "a = client_block (heap_ptr s) (c, n)" "b = client_block (heap_ptr s) (d, k)"
    and u: "(c, n) \<in> set (used_list 0 (heap_blocks s))" "(d, k) \<in> set (used_list 0 (heap_blocks s))"
    by (auto simp: smem_live_def)
  moreover have ba: "blocks_at (items s) (sm_self s) 0 0 (heap_blocks s) (heap_end s)"
    using s heap_invD(1) by (simp add: smem_inv_def)
  ultimately show "a = b \<or> apart a b"
    using used_list_distinct [OF ba u] used_list_bounds [OF ba u(1)] used_list_bounds [OF ba u(2)]
    by (auto simp: apart_def client_block_def)
qed (simp add: rt_smem_free_def)

section \<open>A new heap, and the limits of the allocator\<close>

lemma rt_smem_init_inv:
  assumes "rt_smem_init begin_addr sz = Some m" and "0 < begin_addr" and "begin_addr + sz \<le> 2 ^ 32"
    and "12 \<le> mem_size_aligned m" and "4 \<le> sz"
  shows "heap_inv m [(heap_end m, False)]"
proof -
  let ?s = "RT_ALIGN4 begin_addr" and ?b = "RT_ALIGN4 (RT_ALIGN4 begin_addr + 64)"
  let ?e = "RT_ALIGN_DOWN4 (begin_addr + sz)"
  have e: "?e \<le> begin_addr + sz" by (rule RT_ALIGN_DOWN4_le)
  have c: "?e > 32" "?e - 32 \<ge> ?s + 64"
    using assms(1) by (auto simp: rt_smem_init_def Let_def split: if_splits)
  have m: "m = \<lparr>sm_self = ?s, heap_ptr = ?b, heap_end = ?e - ?b - 32 + 16, lfree = 0,
      mem_size_aligned = ?e - ?b - 32, sm_used = 0, sm_max = 0,
      items = [0 \<mapsto> rt_smem_setname ''INIT''
                \<lparr>mpool = ?s, mused = False, mnext = ?e - ?b - 32 + 16, mprev = 0, mthread = []\<rparr>,
               ?e - ?b - 32 + 16 \<mapsto> rt_smem_setname ''INIT''
                \<lparr>mpool = ?s, mused = True, mnext = ?e - ?b - 32 + 16, mprev = ?e - ?b - 32 + 16, mthread = []\<rparr>]\<rparr>"
    using assms(1) c by (simp add: rt_smem_init_def Let_def)
  have big: "12 \<le> ?e - ?b - 32" using assms(4) m by simp
  have "0 < ?s" using RT_ALIGN4_ge [of begin_addr] assms(2,3,5) by simp
  have be: "?b + 44 \<le> ?e" using big by simp
  have "4 dvd ?e - ?b - 32" by (intro dvd_diff_nat) simp_all
  then show ?thesis
    using \<open>0 < ?s\<close> e assms(3) be
    by (subst m, subst m) (auto simp: heap_inv_def heap_struct_def header_def no_adjacent_free_def)
qed

text \<open>A request so large that the alignment wraps to zero is served with the smallest block.\<close>

lemma RT_ALIGN4_wraps: "2 ^ 32 - 4 < n \<Longrightarrow> n < 2 ^ 32 \<Longrightarrow> RT_ALIGN4 n = 0"
proof -
  assume "2 ^ 32 - 4 < n" "n < 2 ^ 32"
  then have "n + 3 = (n + 3 - 2 ^ 32) + 2 ^ 32" "n + 3 - 2 ^ 32 < 4" by simp_all
  then have "(n + 3) mod 2 ^ 32 < 4" by (metis mod_add_self2 mod_less_eq_dividend order_le_less_trans)
  then show ?thesis unfolding RT_ALIGN4_def by simp
qed

section \<open>Reallocation\<close>

lemma overlay_nth: "d + length xs \<le> length m \<Longrightarrow> j < length m \<Longrightarrow>
    overlay m d xs ! j = (if d \<le> j \<and> j < d + length xs then xs ! (j - d) else m ! j)"
  by (auto simp: overlay_def nth_append)

text \<open>Shrinking in place: the rest becomes a free block and joins a free successor.\<close>

lemma shrink_struct:
  assumes inv: "heap_inv m (xs @ (n, True) # ys)" and c: "c = endpos 0 xs"
    and ns: "4 dvd ns" "0 < ns" "c + ns + 44 < n"
    and m0: "m0 = m\<lparr>sm_used := sm_used m - (n - c - 16 - ns)\<rparr>"
  shows "\<exists>m' ys'. cbind (smem_split m0 c ns) (\<lambda>m. let m = (if c + 16 + ns < lfree m then m\<lparr>lfree := c + 16 + ns\<rparr> else m)
            in plug_holes m (c + 16 + ns)) = Inr m'
     \<and> heap_inv m' (xs @ (c + 16 + ns, True) # ys') \<and> used_list (c + 16 + ns) ys' = used_list n ys
     \<and> heap_ptr m' = heap_ptr m \<and> heap_end m' = heap_end m"
proof -
  let ?c2 = "c + 16 + ns"
  have sel: "items m0 = items m" "sm_self m0 = sm_self m" "heap_end m0 = heap_end m" "lfree m0 = lfree m"
    "mem_size_aligned m0 = mem_size_aligned m" "heap_ptr m0 = heap_ptr m"
    "sm_used m0 = sm_used m - (n - c - 16 - ns)" by (simp_all add: m0)
  note ba = heap_invD(1) [OF inv]
  note mid = blocks_at_mid [OF ba]
  have ba0: "blocks_at (items m0) (sm_self m0) 0 0 (xs @ (n, True) # ys) (heap_end m0)"
    using ba by (simp add: sel)
  have "\<exists>m1. smem_split m0 c ns = Inr m1
    \<and> blocks_at (items m1) (sm_self m0) 0 0 (xs @ (?c2, True) # (n, False) # ys) (heap_end m0)
    \<and> m1 = m0\<lparr>items := items m1\<rparr> \<and> items m0 (heap_end m0) = items m1 (heap_end m0)"
    using heap_invD(2) [OF inv] ns by (intro smem_split_blocks [OF ba0 _ c]) (simp_all add: sel)
  then obtain m1 where m1: "smem_split m0 c ns = Inr m1"
    "blocks_at (items m1) (sm_self m) 0 0 (xs @ (?c2, True) # (n, False) # ys) (heap_end m)"
    "m1 = m0\<lparr>items := items m1\<rparr>" "items m (heap_end m) = items m1 (heap_end m)"
    unfolding sel by blast
  let ?m2 = "if ?c2 < lfree m1 then m1\<lparr>lfree := ?c2\<rparr> else m1"
  let ?xs = "xs @ [(?c2, True)]"
  have sel1: "sm_self m1 = sm_self m" "heap_end m1 = heap_end m" "lfree m1 = lfree m" "heap_ptr m1 = heap_ptr m"
    "mem_size_aligned m1 = mem_size_aligned m" "sm_used m1 = sm_used m - (n - c - 16 - ns)"
    by (subst m1(3), simp add: sel)+
  have ff: "(if ?c2 < lfree m then ?c2 else lfree m) = first_free 0 (?xs @ (n, False) # ys) (heap_end m)"
  proof (cases "\<forall>b \<in> set xs. snd b")
    case True
    have "n \<le> first_free n ys (heap_end m)"
      using first_free_cases [of n ys "heap_end m"] mid(7,9) by fastforce
    then show ?thesis
      using True heap_invD(8) [OF inv] ns c by (simp add: first_free_append)
  next
    case False
    have "first_free 0 xs (heap_end m) < c"
      using mid(10) [OF first_free_starts [OF False, of 0 "heap_end m"]] c by simp
    moreover have "first_free 0 (xs @ (?c2, True) # (n, False) # ys) (heap_end m) = first_free 0 xs (heap_end m)"
      using False by (simp only: first_free_append if_False)
    moreover have "lfree m = first_free 0 xs (heap_end m)"
      using False heap_invD(8) [OF inv] by (simp only: first_free_append if_False)
    ultimately show ?thesis by simp
  qed
  have used: "sm_used m - (n - c - 16 - ns) = used_bytes 0 (?xs @ (n, False) # ys)"
    using heap_invD(9) [OF inv] ns c by simp
  have "heap_struct m (xs @ (n, True) # ys)" using inv by (simp add: heap_inv_def)
  then have hs: "heap_struct ?m2 (?xs @ (n, False) # ys)"
    using m1(2,4) ff used sel1 by (auto simp: heap_struct_def)
  have naf: "no_adjacent_free ?xs" "no_adjacent_free ys"
    using heap_invD(7) [OF inv]
    by (auto simp: no_adjacent_free_def successively_append_iff successively_Cons)
  have "endpos 0 ?xs = ?c2" by simp
  then obtain m' where m': "plug_holes ?m2 ?c2 = Inr m'" "heap_inv m' (merge_free (?xs @ (n, False) # ys))"
    "heap_ptr m' = heap_ptr ?m2" "heap_end m' = heap_end ?m2"
    using plug_holes_struct [OF hs naf] by metis
  have mf: "merge_free (?xs @ bs) = xs @ (?c2, True) # merge_free bs" for bs
  proof -
    have "no_adjacent_free ?xs \<Longrightarrow> merge_free (?xs @ bs) = ?xs @ merge_free bs"
      by (induction xs rule: merge_free.induct) (auto simp: no_adjacent_free_def successively_Cons)
    then show ?thesis using naf(1) by simp
  qed
  then show ?thesis
    using m1(1) m' sel1 by (intro exI [of _ m'] exI [of _ "merge_free ((n, False) # ys)"]) simp
qed

text \<open>What a caller of \<open>rt_smem_realloc\<close> gets for the block \<open>(p, l)\<close>: nothing changed, or a block
  with the first bytes of the old one in its place.\<close>

definition realloc_post ::
  "small_mem \<Rightarrow> char list \<Rightarrow> ptr \<Rightarrow> nat \<Rightarrow> nat \<Rightarrow> ptr \<Rightarrow> small_mem \<Rightarrow> char list \<Rightarrow> bool" where
  "realloc_post m ram p l n r m' ram' \<longleftrightarrow>
     smem_inv m' \<and> heap_ptr m' = heap_ptr m \<and> length ram' = length ram
     \<and> (r = RT_NULL \<and> m' = m \<and> ram' = ram
        \<or> r \<noteq> RT_NULL
          \<and> (\<exists>l'. n \<le> l' \<and> smem_live m' = insert (r, l') (smem_live m - {(p, l)}))
          \<and> (\<forall>j < min l n. ram' ! (r - heap_ptr m + j) = ram ! (p - heap_ptr m + j))
          \<and> (\<forall>(q, k) \<in> smem_live m - {(p, l)}. \<forall>j < k. ram' ! (q - heap_ptr m + j) = ram ! (q - heap_ptr m + j)))"

lemma smem_liveD:
  assumes "smem_inv m" "(p, l) \<in> smem_live m"
  shows "\<exists>xs n ys. heap_blocks m = xs @ (n, True) # ys \<and> p = heap_ptr m + endpos 0 xs + 16
      \<and> l = n - endpos 0 xs - 16 \<and> endpos 0 xs + 16 < n \<and> n \<le> heap_end m \<and> 4 dvd endpos 0 xs \<and> 4 dvd n"
proof -
  have inv: "heap_inv m (heap_blocks m)" using assms(1) by (simp add: smem_inv_def)
  obtain c n where cn: "(c, n) \<in> set (used_list 0 (heap_blocks m))" "p = heap_ptr m + c + 16" "l = n - c - 16"
    using assms(2) by (auto simp: smem_live_def client_block_def)
  obtain xs ys where b: "heap_blocks m = xs @ (n, True) # ys" "c = endpos 0 xs"
    using used_list_mid [OF cn(1)] by blast
  note mid = blocks_at_mid [OF heap_invD(1) [OF inv, unfolded b(1)]]
  show ?thesis
    using b cn mid(2,3,4,7) by (intro exI [of _ xs] exI [of _ n] exI [of _ ys]) simp
qed

text \<open>The three cases of the code behind its checks.\<close>

lemma realloc_shrink_post:
  assumes inv: "heap_inv m (xs @ (n, True) # ys)" and c: "c = endpos 0 xs"
    and ns: "4 dvd ns" "0 < ns" "c + ns + 44 < n" "k \<le> ns" and ram: "length ram = heap_end m"
  shows "\<exists>m'. cbind (smem_split (m\<lparr>sm_used := sm_used m - (n - c - 16 - ns)\<rparr>) c ns)
          (\<lambda>m. let m = (if c + 16 + ns < lfree m then m\<lparr>lfree := c + 16 + ns\<rparr> else m)
               in plug_holes m (c + 16 + ns)) = Inr m'
      \<and> realloc_post m ram (heap_ptr m + c + 16) (n - c - 16) k (heap_ptr m + c + 16) m' ram"
proof -
  obtain m' ys' where m': "cbind (smem_split (m\<lparr>sm_used := sm_used m - (n - c - 16 - ns)\<rparr>) c ns)
          (\<lambda>m. let m = (if c + 16 + ns < lfree m then m\<lparr>lfree := c + 16 + ns\<rparr> else m)
               in plug_holes m (c + 16 + ns)) = Inr m'"
     "heap_inv m' (xs @ (c + 16 + ns, True) # ys')" "used_list (c + 16 + ns) ys' = used_list n ys"
     "heap_ptr m' = heap_ptr m"
    using shrink_struct [OF inv c ns(1-3) refl] by blast
  note mid = blocks_at_mid [OF heap_invD(1) [OF inv]]
  have "(c, n) \<notin> set (used_list 0 xs)" "(c, n) \<notin> set (used_list n ys)"
    using used_list_bounds [OF mid(5)] used_list_bounds [OF mid(6)] mid(2) c by fastforce+
  then have "set (used_list 0 xs) \<union> set (used_list n ys) = set (used_list 0 (xs @ (n, True) # ys)) - {(c, n)}"
    using c by auto
  then have "client_block (heap_ptr m) ` (set (used_list 0 xs) \<union> set (used_list n ys))
      = smem_live m - {(heap_ptr m + c + 16, n - c - 16)}"
    using live_remove [OF inv, of c n] c by simp
  moreover have "smem_live m' = insert (heap_ptr m + c + 16, ns)
      (client_block (heap_ptr m) ` (set (used_list 0 xs) \<union> set (used_list n ys)))"
    using heap_blocks_eq [OF m'(2)] m'(3,4) c by (auto simp: smem_live_def client_block_def)
  moreover have "smem_inv m'" using m'(2) smem_inv_iff by blast
  ultimately have "realloc_post m ram (heap_ptr m + c + 16) (n - c - 16) k (heap_ptr m + c + 16) m' ram"
    using m'(4) ns(4) by (auto simp: realloc_post_def)
  then show ?thesis using m'(1) by blast
qed

lemma realloc_move_post:
  assumes inv: "smem_inv m" and pl: "(p, l) \<in> smem_live m" and ns: "0 < ns" "ns \<le> 2 ^ 32 - 4" "k \<le> ns"
    and ram: "length ram = heap_end m"
  shows "\<exists>r m' ram'. cbind (rt_smem_alloc self m ns) (\<lambda>(nmem, m).
           if nmem = RT_NULL then Inr (RT_NULL, m, ram)
           else cbind (rt_memcpy ram (nmem - heap_ptr m) (p - heap_ptr m) (min l ns)) (\<lambda>ram.
                cbind (rt_smem_free m p) (\<lambda>m. Inr (nmem, m, ram)))) = Inr (r, m', ram')
      \<and> realloc_post m ram p l k r m' ram'"
proof -
  obtain r m1 where a: "rt_smem_alloc self m ns = Inr (r, m1)" "smem_inv m1"
    and dis: "r = RT_NULL \<and> m1 = m \<or> r \<noteq> RT_NULL \<and> 4 dvd r
      \<and> (\<exists>l'. ns \<le> l' \<and> smem_live m1 = insert (r, l') (smem_live m) \<and> (\<forall>b \<in> smem_live m. apart (r, l') b))"
    using smem_inv_alloc [OF inv ns(1,2), of self] by blast
  have hp: "heap_ptr m1 = heap_ptr m" "heap_end m1 = heap_end m"
    using rt_smem_alloc_refines [OF inv [unfolded smem_inv_def] ns(1,2), of self] a(1)
    by (auto split: option.splits prod.splits)
  show ?thesis
  proof (cases "r = RT_NULL")
    case True
    then show ?thesis using a dis by (auto simp: realloc_post_def)
  next
    case False
    then obtain l' where l': "ns \<le> l'" "smem_live m1 = insert (r, l') (smem_live m)"
      "\<forall>b \<in> smem_live m. apart (r, l') b" using dis by blast
    have rl: "(r, l') \<in> smem_live m1" "(p, l) \<in> smem_live m1" using l' pl by auto
    have bnd: "heap_ptr m + 16 \<le> q \<and> q - heap_ptr m + j \<le> length ram" if "(q, j) \<in> smem_live m1" for q j
      using smem_liveD [OF a(2) that] hp ram by auto
    let ?d = "r - heap_ptr m" and ?s = "p - heap_ptr m" and ?n = "min l ns"
    let ?ram = "overlay ram ?d (take ?n (drop ?s ram))"
    have b1: "?d + l' \<le> length ram" "?s + l \<le> length ram" "heap_ptr m + 16 \<le> r" "heap_ptr m + 16 \<le> p"
      using bnd [OF rl(1)] bnd [OF rl(2)] by auto
    have ap: "apart (r, l') (p, l)" using l'(3) pl by blast
    have cp: "rt_memcpy ram ?d ?s ?n = Inr ?ram"
      using b1 ap l'(1) by (intro rt_memcpy_overlay) (auto simp: apart_def)
    have len: "length (take ?n (drop ?s ram)) = ?n" using b1 by simp
    obtain m2 where m2: "rt_smem_free m1 p = Inr m2" "smem_inv m2" "smem_live m2 = smem_live m1 - {(p, l)}"
      using smem_inv_free [OF a(2) rl(2)] by blast
    have "heap_ptr m2 = heap_ptr m"
    proof -
      obtain xs n ys where "heap_blocks m1 = xs @ (n, True) # ys" "p = heap_ptr m1 + endpos 0 xs + 16"
        using smem_liveD [OF a(2) rl(2)] by blast
      then show ?thesis
        using rt_smem_free_refines [of m1 xs n ys] a(2) m2(1) hp by (auto simp: smem_inv_def)
    qed
    moreover have "\<forall>j < min l k. ?ram ! (?d + j) = ram ! (?s + j)"
      using b1 len l'(1) ns(3) by (auto simp: overlay_nth)
    moreover have "\<forall>(q, i) \<in> smem_live m - {(p, l)}. \<forall>j < i. ?ram ! (q - heap_ptr m + j) = ram ! (q - heap_ptr m + j)"
    proof (clarsimp simp del: take_drop)
      fix q i j assume q: "(q, i) \<in> smem_live m" "j < i"
      have "apart (r, l') (q, i)" "heap_ptr m + 16 \<le> q \<and> q - heap_ptr m + i \<le> length ram"
        using l' q bnd by auto
      then show "?ram ! (q - heap_ptr m + j) = ram ! (q - heap_ptr m + j)"
        using q(2) b1 len l'(1) by (subst overlay_nth) (auto simp: apart_def)
    qed
    moreover have "(r, l') \<noteq> (p, l)" using ap ns l' by (auto simp: apart_def)
    then have "smem_live m2 = insert (r, l') (smem_live m - {(p, l)})" using m2(3) l'(2) by auto
    moreover have "length ?ram = length ram" using b1 l'(1) len by simp
    ultimately have "realloc_post m ram p l k r m2 ?ram"
      using m2(2) False l'(1) ns(3) unfolding realloc_post_def
      by (intro conjI disjI2) (auto intro: exI [of _ l'])
    then show ?thesis using a(1) False cp m2(1) hp by simp
  qed
qed

lemma rt_smem_realloc_post:
  assumes inv: "smem_inv m" and pl: "(p, l) \<in> smem_live m" and n: "0 < n" "n \<le> 2 ^ 32 - 4"
    and ram: "length ram = heap_end m"
  shows "\<exists>r m' ram'. rt_smem_realloc self m ram p n = Inr (r, m', ram') \<and> realloc_post m ram p l n r m' ram'"
proof -
  let ?ns = "RT_ALIGN4 n"
  have ns: "n \<le> ?ns" "4 dvd ?ns" "?ns < n + 4" using RT_ALIGN4_ge [OF n(2)] RT_ALIGN4_less [OF n(2)] by simp_all
  have nul: "realloc_post m ram p l n RT_NULL m ram" using inv by (simp add: realloc_post_def)
  have hi: "heap_inv m (heap_blocks m)" using inv by (simp add: smem_inv_def)
  obtain xs e ys where b: "heap_blocks m = xs @ (e, True) # ys" "p = heap_ptr m + endpos 0 xs + 16"
    "l = e - endpos 0 xs - 16" "endpos 0 xs + 16 < e" "e \<le> heap_end m" "4 dvd endpos 0 xs" "4 dvd e"
    using smem_liveD [OF inv pl] by blast
  let ?c = "endpos 0 xs"
  have hi': "heap_inv m (xs @ (e, True) # ys)" using hi b(1) by simp
  have lt: "heap_end m < 2 ^ 32" "mem_size_aligned m < 2 ^ 32" "4 dvd heap_ptr m"
    using heap_invD(2,5,6) [OF hi] by simp_all
  obtain i where i: "item_at m ?c = Inr i" "mnext i = e"
    using blocks_at_mid(1) [OF heap_invD(1) [OF hi']] by (auto simp: header_def item_at_def)
  have chk: "p mod 4 = 0" "heap_ptr m \<le> p" "p < heap_ptr m + heap_end m" "\<not> p < heap_ptr m + 16" "p \<noteq> RT_NULL"
    "p - 16 - heap_ptr m = ?c"
    using b lt(3) by (auto simp flip: dvd_eq_mod_eq_0)
  have sub: "sub32 (sub32 e ?c) 16 = l" using b lt by simp
  show ?thesis
  proof (cases "?ns > mem_size_aligned m")
    case True
    then show ?thesis using nul by (simp add: rt_smem_realloc_def)
  next
    case fits: False
    have body: "rt_smem_realloc self m ram p n =
       (if l = ?ns then Inr (p, m, ram)
        else if ?ns + 16 + 12 < l
        then cbind (cbind (smem_split (m\<lparr>sm_used := sm_used m - (l - ?ns)\<rparr>) ?c ?ns)
          (\<lambda>m. let m = (if ?c + 16 + ?ns < lfree m then m\<lparr>lfree := ?c + 16 + ?ns\<rparr> else m)
               in plug_holes m (?c + 16 + ?ns))) (\<lambda>m. Inr (p, m, ram))
        else cbind (rt_smem_alloc self m ?ns) (\<lambda>(nmem, m).
           if nmem = RT_NULL then Inr (RT_NULL, m, ram)
           else cbind (rt_memcpy ram (nmem - heap_ptr m) (p - heap_ptr m) (min l ?ns)) (\<lambda>ram.
                cbind (rt_smem_free m p) (\<lambda>m. Inr (nmem, m, ram)))))"
      using fits ns n i chk sub
      by (simp add: rt_smem_realloc_def Let_def cbind_assoc cong del: prod.case_cong_weak if_weak_cong)
    consider "l = ?ns" | "l \<noteq> ?ns" "?ns + 16 + 12 < l" | "l \<noteq> ?ns" "\<not> ?ns + 16 + 12 < l" by blast
    then show ?thesis
    proof cases
      case 1
      then have "realloc_post m ram p l n p m ram"
        using inv pl ns(1) chk(5) by (auto simp: realloc_post_def)
      then show ?thesis using 1 body by auto
    next
      case 2
      have "0 < ?ns" "?c + ?ns + 44 < e" using 2 b(3) ns(1) n by simp_all
      then obtain m' where "cbind (smem_split (m\<lparr>sm_used := sm_used m - (l - ?ns)\<rparr>) ?c ?ns)
          (\<lambda>m. let m = (if ?c + 16 + ?ns < lfree m then m\<lparr>lfree := ?c + 16 + ?ns\<rparr> else m)
               in plug_holes m (?c + 16 + ?ns)) = Inr m'" "realloc_post m ram p l n p m' ram"
        using realloc_shrink_post [OF hi' refl ns(2) _ _ ns(1) ram] unfolding b(2,3) by blast
      then show ?thesis using 2 body by auto
    next
      case 3
      have "?ns \<le> 2 ^ 32 - 4" using ns n by (auto simp: dvd_def)
      then show ?thesis
        using realloc_move_post [OF inv pl _ _ ns(1) ram, of self] 3 body ns(1) n by auto
    qed
  qed
qed

section \<open>Every heap a client can reach\<close>

text \<open>
  A heap as the system uses it: initialised once, then allocated from, resized and freed in any
  order, where clients only pass back blocks they hold.
\<close>

inductive smem_reach :: "small_mem \<Rightarrow> bool" where
  init: "rt_smem_init begin_addr sz = Some m \<Longrightarrow> 0 < begin_addr \<Longrightarrow> 4 \<le> sz \<Longrightarrow> begin_addr + sz \<le> 2 ^ 32 \<Longrightarrow>
    12 \<le> mem_size_aligned m \<Longrightarrow> smem_reach m"
| alloc: "smem_reach m \<Longrightarrow> n \<le> 2 ^ 32 - 4 \<Longrightarrow> rt_smem_alloc self m n = Inr (p, m') \<Longrightarrow> smem_reach m'"
| realloc: "smem_reach m \<Longrightarrow> (p, l) \<in> smem_live m \<Longrightarrow> 0 < n \<Longrightarrow> n \<le> 2 ^ 32 - 4 \<Longrightarrow> length ram = heap_end m \<Longrightarrow>
    rt_smem_realloc self m ram p n = Inr (r, m', ram') \<Longrightarrow> smem_reach m'"
| free: "smem_reach m \<Longrightarrow> (p, l) \<in> smem_live m \<Longrightarrow> rt_smem_free m p = Inr m' \<Longrightarrow> smem_reach m'"

lemma smem_reach_inv: "smem_reach m \<Longrightarrow> smem_inv m"
proof (induction rule: smem_reach.induct)
  case (init begin_addr sz m)
  then show ?case using rt_smem_init_inv smem_inv_iff by blast
next
  case (alloc m n self p m')
  then show ?case using smem_inv_alloc [of m n self] by (cases "n = 0") (auto simp: rt_smem_alloc_def)
next
  case (realloc m p l n ram self r m' ram')
  then show ?case using rt_smem_realloc_post [of m p l n ram self] by (auto simp: realloc_post_def)
next
  case (free m p l m')
  then show ?case using smem_inv_free [of m p l] by auto
qed

lemma used_list_Nil: "used_list c bs = [] \<longleftrightarrow> (\<forall>b \<in> set bs. \<not> snd b)"
  by (induction c bs rule: used_list.induct) auto

lemma no_live_one_block:
  assumes "smem_inv m" "smem_live m = {}"
  shows "heap_blocks m = [(heap_end m, False)]" "sm_used m = 0"
proof -
  have inv: "heap_inv m (heap_blocks m)" using assms(1) by (simp add: smem_inv_def)
  have free: "\<forall>b \<in> set (heap_blocks m). \<not> snd b"
    using assms(2) used_list_Nil [of 0 "heap_blocks m"] by (simp add: smem_live_def)
  have ne: "heap_blocks m \<noteq> []" using heap_invD(1-3) [OF inv] by auto
  then obtain n u bs where b: "heap_blocks m = (n, u) # bs" by (metis list.exhaust surj_pair)
  have "bs = []"
    using heap_invD(7) [OF inv] free b by (cases bs) (auto simp: no_adjacent_free_def)
  then show "heap_blocks m = [(heap_end m, False)]" "sm_used m = 0"
    using b free heap_invD(1,9) [OF inv] by auto
qed

lemma small_heap_spins:
  assumes "rt_smem_init begin_addr sz = Some m" "begin_addr + sz \<le> 2 ^ 32" "mem_size_aligned m < 12"
  shows "smem_find fuel m 12 (lfree m) = Inl OutOfFuel"
proof -
  let ?e = "heap_end m"
  have m: "?e = mem_size_aligned m + 16" "lfree m = 0" "\<exists>i. items m 0 = Some i \<and> mnext i = ?e"
    "\<exists>j. items m ?e = Some j \<and> mused j \<and> mnext j = ?e"
    using assms(1) by (auto simp: rt_smem_init_def Let_def split: if_splits)
  have s: "sub32 (mem_size_aligned m) 12 \<ge> 2 ^ 32 - 12"
    using assms(3) by (simp add: sub32_def)
  have "?e \<le> sub32 (mem_size_aligned m) 12" "sub32 ?e 16 < 12"
    using m(1) s assms(3) by simp_all
  then have step: "smem_find (Suc f) m 12 0 = smem_find f m 12 ?e"
    "smem_find (Suc f) m 12 ?e = smem_find f m 12 ?e" for f
    using m(3,4) by (auto simp: item_at_def)
  have "smem_find f m 12 ?e = Inl OutOfFuel" for f
    by (induction f) (simp_all only: step smem_find.simps(1))
  then show ?thesis using m(2) step(1) by (cases fuel) (simp_all del: smem_find.simps(2))
qed

section \<open>Properties\<close>

lemma example_heap:
  "\<exists>m. rt_smem_init 4096 1024 = Some m \<and> heap_inv m [(944, False)] \<and> heap_ptr m = 4160 \<and> heap_end m = 944"
proof -
  obtain m where m: "rt_smem_init 4096 1024 = Some m" "heap_ptr m = 4160" "heap_end m = 944" "mem_size_aligned m = 928"
    by (simp add: rt_smem_init_def Let_def RT_ALIGN4_def RT_ALIGN_DOWN4_def)
  then have "heap_inv m [(heap_end m, False)]"
    by (intro rt_smem_init_inv [OF m(1)]) simp_all
  then show ?thesis using m by auto
qed

text \<open>C16: an allocation takes exactly the block that first fit on the block list chooses: with no
  free block large enough it returns \<open>RT_NULL\<close> and leaves the heap as it was; otherwise it
  returns the address behind the header of the first fitting block, cuts the block when the rest
  can hold a block, and the heap describes the new block list. The search loops return.\<close>

theorem smem_alloc_first_fit:
  assumes "heap_inv m bs" and "0 < sz" and "sz \<le> 2 ^ 32 - 4"
  shows "case abs_alloc (alloc_size sz) 0 bs of
      None \<Rightarrow> rt_smem_alloc self m sz = Inr (RT_NULL, m)
    | Some (c, bs') \<Rightarrow> \<exists>m'. rt_smem_alloc self m sz = Inr (heap_ptr m + c + 16, m')
        \<and> heap_inv m' bs' \<and> heap_ptr m' = heap_ptr m \<and> heap_end m' = heap_end m"
  using assms by (rule rt_smem_alloc_refines)

theorem smem_alloc_first_fit_witness:
  "\<exists>m m'. rt_smem_init 4096 1024 = Some m \<and> heap_inv m [(944, False)]
     \<and> rt_smem_alloc ''ui'' m 21 = Inr (4176, m') \<and> heap_inv m' [(40, True), (944, False)]"
proof -
  obtain m where m: "rt_smem_init 4096 1024 = Some m" "heap_inv m [(944, False)]" "heap_ptr m = 4160"
    using example_heap by blast
  have "abs_alloc (alloc_size 21) 0 [(944, False)] = Some (0, [(40, True), (944, False)])"
    by (simp add: alloc_size_def RT_ALIGN4_def)
  then show ?thesis using smem_alloc_first_fit [OF m(2), of 21 "''ui''"] m by auto
qed

text \<open>C17: freeing a block that is in use marks it free and joins it with free neighbours on both
  sides; \<open>abs_free\<close> is that on the block list, and no assertion of the code fails.\<close>

theorem smem_free_coalesces:
  assumes "heap_inv m (xs @ (n, True) # ys)"
  shows "\<exists>m'. rt_smem_free m (heap_ptr m + endpos 0 xs + 16) = Inr m'
    \<and> heap_inv m' (abs_free (endpos 0 xs) (xs @ (n, True) # ys))
    \<and> heap_ptr m' = heap_ptr m \<and> heap_end m' = heap_end m"
  using assms by (rule rt_smem_free_refines)

theorem smem_free_coalesces_witness:
  "\<exists>m m'. heap_inv m [(40, True), (944, False)] \<and> rt_smem_free m 4176 = Inr m' \<and> heap_inv m' [(944, False)]"
proof -
  obtain m where m: "heap_inv m [(944, False)]" "heap_ptr m = 4160" using example_heap by blast
  have "abs_alloc (alloc_size 21) 0 [(944, False)] = Some (0, [(40, True), (944, False)])"
    by (simp add: alloc_size_def RT_ALIGN4_def)
  then obtain m1 where m1: "heap_inv m1 ([] @ (40, True) # [(944, False)])" "heap_ptr m1 = 4160"
    using rt_smem_alloc_refines [OF m(1), of 21] m(2) by auto
  then show ?thesis using smem_free_coalesces [OF m1(1)] by (auto simp: abs_free_def)
qed



text \<open>C38: resizing a block returns \<open>RT_NULL\<close> with everything as it was, or a block of at least the new
  size that starts with the bytes of the old one, up to the smaller of both sizes; the old block
  is gone, all other blocks are still there and their bytes have not changed.\<close>

theorem smem_realloc_contents:
  assumes "smem_inv m" and "(p, l) \<in> smem_live m" and "0 < n" and "n \<le> 2 ^ 32 - 4"
    and "length ram = heap_end m"
  shows "\<exists>r m' ram'. rt_smem_realloc self m ram p n = Inr (r, m', ram') \<and> realloc_post m ram p l n r m' ram'"
  using assms by (rule rt_smem_realloc_post)

theorem smem_realloc_contents_witness:
  "\<exists>m r m' ram'. (4176, 24) \<in> smem_live m
     \<and> rt_smem_realloc ''ui'' m (replicate 944 CHR ''x'') 4176 300 = Inr (r, m', ram')
     \<and> realloc_post m (replicate 944 CHR ''x'') 4176 24 300 r m' ram'"
proof -
  obtain m where m: "heap_inv m [(944, False)]" "heap_ptr m = 4160" "heap_end m = 944" using example_heap by blast
  have "abs_alloc (alloc_size 21) 0 [(944, False)] = Some (0, [(40, True), (944, False)])"
    by (simp add: alloc_size_def RT_ALIGN4_def)
  then obtain m1 where m1: "heap_inv m1 [(40, True), (944, False)]" "heap_ptr m1 = 4160" "heap_end m1 = 944"
    using rt_smem_alloc_refines [OF m(1), of 21] m(2,3) by auto
  have "smem_inv m1" "(4176, 24) \<in> smem_live m1"
    using m1 smem_inv_iff heap_blocks_eq [OF m1(1)] by (auto simp: smem_live_def client_block_def)
  then show ?thesis
    using smem_realloc_contents [of m1 4176 24 300 "replicate 944 CHR ''x''" "''ui''"] m1(3) by auto
qed

text \<open>A request for more than 2\<open>\<^sup>3\<^sup>2\<close> - 4 bytes wraps to zero when it is aligned, so the
  allocator serves it like a request for one byte instead of refusing it.\<close>

theorem smem_alloc_wraps:
  assumes "2 ^ 32 - 4 < sz" and "sz < 2 ^ 32"
  shows "rt_smem_alloc self m sz = rt_smem_alloc self m 1 \<or> mem_size_aligned m < 4"
  using RT_ALIGN4_wraps [OF assms] assms
  by (auto simp: rt_smem_alloc_def RT_ALIGN4_def)

theorem smem_alloc_wraps_witness:
  "\<exists>m m'. rt_smem_init 4096 1024 = Some m \<and> rt_smem_alloc ''ui'' m 4294967295 = Inr (4176, m')
     \<and> heap_inv m' [(28, True), (944, False)]"
proof -
  obtain m where m: "rt_smem_init 4096 1024 = Some m" "heap_inv m [(944, False)]" "heap_ptr m = 4160"
    using example_heap by blast
  have "abs_alloc (alloc_size 1) 0 [(944, False)] = Some (0, [(28, True), (944, False)])"
    by (simp add: alloc_size_def RT_ALIGN4_def)
  then have "\<exists>m'. rt_smem_alloc ''ui'' m 1 = Inr (4176, m') \<and> heap_inv m' [(28, True), (944, False)]"
    using rt_smem_alloc_refines [OF m(2), of 1 "''ui''"] m by auto
  then show ?thesis
    using smem_alloc_wraps [of 4294967295 "''ui''" m] m heap_invD(3) [OF m(2)] by auto
qed

text \<open>On a heap whose payload is smaller than 12 bytes an allocation never returns: the end of
  the search range underflows and the search stays on the end marker.\<close>

theorem smem_tiny_heap_diverges:
  assumes "rt_smem_init begin_addr sz = Some m" "begin_addr + sz \<le> 2 ^ 32" "mem_size_aligned m < 12"
  shows "smem_find fuel m 12 (lfree m) = Inl OutOfFuel"
  using assms by (rule small_heap_spins)

theorem smem_tiny_heap_diverges_witness:
  "\<exists>m. rt_smem_init 4096 104 = Some m \<and> (\<forall>fuel. smem_find fuel m 12 (lfree m) = Inl OutOfFuel)"
proof -
  obtain m where "rt_smem_init 4096 104 = Some m" "mem_size_aligned m = 8"
    by (simp add: rt_smem_init_def Let_def RT_ALIGN4_def RT_ALIGN_DOWN4_def)
  then show ?thesis using smem_tiny_heap_diverges [of 4096 104 m] by simp
qed

end
