(* ===== verification/Ringbuffer.thy ===== *)
theory Ringbuffer
  imports Kstring
begin

text \<open>
  The byte ring buffer of \<^verbatim>\<open>rt-thread/components/drivers/ipc/ringbuffer.c\<close>: two 15-bit indices, each
  with a mirror bit that tells a full buffer from an empty one. Byte arrays are lists; a copy
  between two arrays is \<open>memcpy_arrays\<close>, which \<open>rt_memcpy\<close> is shown to perform. \<open>contents\<close> is the
  abstract view, a sequence of bytes, and every operation is shown to be one on that sequence.
\<close>

section \<open>State and operations\<close>

record ringbuffer =
  buffer_ptr :: "char list"
  read_mirror :: bool
  read_index :: nat
  write_mirror :: bool
  write_index :: nat
  buffer_size :: int

datatype rt_ringbuffer_state = RT_RINGBUFFER_EMPTY | RT_RINGBUFFER_FULL | RT_RINGBUFFER_HALFFULL

text \<open>Assignment to a 15-bit field, and a signed difference used as a byte count.\<close>

definition idx15 :: "int \<Rightarrow> nat" where
  "idx15 i = nat (i mod 2 ^ 15)"

definition size_of_int :: "int \<Rightarrow> nat" where
  "size_of_int i = nat (i mod 2 ^ 32)"

definition rt_ringbuffer_status :: "ringbuffer \<Rightarrow> rt_ringbuffer_state" where
  "rt_ringbuffer_status rb =
     (if read_index rb = write_index rb
      then if read_mirror rb = write_mirror rb then RT_RINGBUFFER_EMPTY else RT_RINGBUFFER_FULL
      else RT_RINGBUFFER_HALFFULL)"

definition rt_ringbuffer_init :: "char list \<Rightarrow> int \<Rightarrow> ringbuffer cres" where
  "rt_ringbuffer_init pool sz = cbind (rt_assert (sz > 0)) (\<lambda>_.
     Inr \<lparr>buffer_ptr = pool, read_mirror = False, read_index = 0, write_mirror = False,
          write_index = 0, buffer_size = sz div 4 * 4\<rparr>)"

definition rt_ringbuffer_data_len :: "ringbuffer \<Rightarrow> nat" where
  "rt_ringbuffer_data_len rb =
     (case rt_ringbuffer_status rb of
        RT_RINGBUFFER_EMPTY \<Rightarrow> 0
      | RT_RINGBUFFER_FULL \<Rightarrow> size_of_int (buffer_size rb)
      | RT_RINGBUFFER_HALFFULL \<Rightarrow>
          (let wi = write_index rb; ri = read_index rb
           in if wi > ri then wi - ri else size_of_int (buffer_size rb - (int ri - int wi))))"

definition rt_ringbuffer_space_len :: "ringbuffer \<Rightarrow> nat" where
  "rt_ringbuffer_space_len rb = size_of_int (buffer_size rb - int (rt_ringbuffer_data_len rb))"

definition rt_ringbuffer_get_size :: "ringbuffer \<Rightarrow> nat" where
  "rt_ringbuffer_get_size rb = nat (buffer_size rb mod 2 ^ 16)"

definition rt_ringbuffer_put :: "ringbuffer \<Rightarrow> char list \<Rightarrow> nat \<Rightarrow> (nat \<times> ringbuffer) cres" where
  "rt_ringbuffer_put rb ptr len =
     (let sz = rt_ringbuffer_space_len rb mod 2 ^ 16
      in if sz = 0 then Inr (0, rb)
      else let len = (if sz < len then sz else len);
               room = buffer_size rb - int (write_index rb)
      in if room > int len
         then cbind (memcpy_arrays (buffer_ptr rb) (write_index rb) ptr 0 len) (\<lambda>b.
              Inr (len, rb\<lparr>buffer_ptr := b, write_index := idx15 (int (write_index rb) + int len)\<rparr>))
         else cbind (memcpy_arrays (buffer_ptr rb) (write_index rb) ptr 0 (size_of_int room)) (\<lambda>b.
              cbind (memcpy_arrays b 0 ptr (size_of_int room) (size_of_int (int len - room))) (\<lambda>b.
              Inr (len, rb\<lparr>buffer_ptr := b, write_mirror := \<not> write_mirror rb,
                             write_index := idx15 (int len - room)\<rparr>))))"

definition rt_ringbuffer_put_force :: "ringbuffer \<Rightarrow> char list \<Rightarrow> nat \<Rightarrow> (nat \<times> ringbuffer) cres" where
  "rt_ringbuffer_put_force rb ptr len =
     (let space_length = rt_ringbuffer_space_len rb mod 2 ^ 16;
          (ptr, len) = (if int len > buffer_size rb
                           then (drop (size_of_int (int len - buffer_size rb)) ptr, size_of_int (buffer_size rb) mod 2 ^ 16)
                           else (ptr, len));
          room = buffer_size rb - int (write_index rb)
      in if room > int len
         then cbind (memcpy_arrays (buffer_ptr rb) (write_index rb) ptr 0 len) (\<lambda>b.
              let rb = rb\<lparr>buffer_ptr := b, write_index := idx15 (int (write_index rb) + int len)\<rparr>;
                  rb = (if len > space_length then rb\<lparr>read_index := write_index rb\<rparr> else rb)
              in Inr (len, rb))
         else cbind (memcpy_arrays (buffer_ptr rb) (write_index rb) ptr 0 (size_of_int room)) (\<lambda>b.
              cbind (memcpy_arrays b 0 ptr (size_of_int room) (size_of_int (int len - room))) (\<lambda>b.
              let rb = rb\<lparr>buffer_ptr := b, write_mirror := \<not> write_mirror rb,
                          write_index := idx15 (int len - room)\<rparr>;
                  rb = (if len > space_length
                        then let rb = (if write_index rb \<le> read_index rb
                                       then rb\<lparr>read_mirror := \<not> read_mirror rb\<rparr> else rb)
                             in rb\<lparr>read_index := write_index rb\<rparr>
                        else rb)
              in Inr (len, rb))))"

definition rt_ringbuffer_get :: "ringbuffer \<Rightarrow> char list \<Rightarrow> nat \<Rightarrow> (nat \<times> char list \<times> ringbuffer) cres" where
  "rt_ringbuffer_get rb ptr len =
     (let sz = rt_ringbuffer_data_len rb
      in if sz = 0 then Inr (0, ptr, rb)
      else let len = (if sz < len then sz else len);
               room = buffer_size rb - int (read_index rb)
      in if room > int len
         then cbind (memcpy_arrays ptr 0 (buffer_ptr rb) (read_index rb) len) (\<lambda>p.
              Inr (len, p, rb\<lparr>read_index := idx15 (int (read_index rb) + int len)\<rparr>))
         else cbind (memcpy_arrays ptr 0 (buffer_ptr rb) (read_index rb) (size_of_int room)) (\<lambda>p.
              cbind (memcpy_arrays p (size_of_int room) (buffer_ptr rb) 0 (size_of_int (int len - room))) (\<lambda>p.
              Inr (len, p, rb\<lparr>read_mirror := \<not> read_mirror rb, read_index := idx15 (int len - room)\<rparr>))))"

text \<open>\<open>*ptr\<close> of \<open>rt_ringbuffer_peak\<close> is an index into the buffer, or none for \<open>RT_NULL\<close>.\<close>

definition rt_ringbuffer_peak :: "ringbuffer \<Rightarrow> nat \<times> nat option \<times> ringbuffer" where
  "rt_ringbuffer_peak rb =
     (let sz = rt_ringbuffer_data_len rb
      in if sz = 0 then (0, None, rb)
      else if size_of_int (buffer_size rb - int (read_index rb)) > sz
      then (sz, Some (read_index rb), rb\<lparr>read_index := idx15 (int (read_index rb) + int sz)\<rparr>)
      else (size_of_int (buffer_size rb - int (read_index rb)), Some (read_index rb),
            rb\<lparr>read_mirror := \<not> read_mirror rb, read_index := 0\<rparr>))"

definition rt_ringbuffer_putchar :: "ringbuffer \<Rightarrow> char \<Rightarrow> (nat \<times> ringbuffer) cres" where
  "rt_ringbuffer_putchar rb ch =
     (if rt_ringbuffer_space_len rb = 0 then Inr (0, rb)
      else cbind (wr (buffer_ptr rb) (write_index rb) ch) (\<lambda>b.
        Inr (1, if int (write_index rb) = buffer_size rb - 1
                then rb\<lparr>buffer_ptr := b, write_mirror := \<not> write_mirror rb, write_index := 0\<rparr>
                else rb\<lparr>buffer_ptr := b, write_index := idx15 (int (write_index rb) + 1)\<rparr>)))"

definition rt_ringbuffer_putchar_force :: "ringbuffer \<Rightarrow> char \<Rightarrow> (nat \<times> ringbuffer) cres" where
  "rt_ringbuffer_putchar_force rb ch =
     (let old_state = rt_ringbuffer_status rb
      in cbind (wr (buffer_ptr rb) (write_index rb) ch) (\<lambda>b.
        Inr (1, if int (write_index rb) = buffer_size rb - 1
                then let rb = rb\<lparr>buffer_ptr := b, write_mirror := \<not> write_mirror rb, write_index := 0\<rparr>
                     in if old_state = RT_RINGBUFFER_FULL
                        then rb\<lparr>read_mirror := \<not> read_mirror rb, read_index := write_index rb\<rparr> else rb
                else let rb = rb\<lparr>buffer_ptr := b, write_index := idx15 (int (write_index rb) + 1)\<rparr>
                     in if old_state = RT_RINGBUFFER_FULL then rb\<lparr>read_index := write_index rb\<rparr> else rb)))"

definition rt_ringbuffer_getchar :: "ringbuffer \<Rightarrow> (nat \<times> char option \<times> ringbuffer) cres" where
  "rt_ringbuffer_getchar rb =
     (if rt_ringbuffer_data_len rb = 0 then Inr (0, None, rb)
      else cbind (rd (buffer_ptr rb) (read_index rb)) (\<lambda>ch.
        Inr (1, Some ch, if int (read_index rb) = buffer_size rb - 1
                then rb\<lparr>read_mirror := \<not> read_mirror rb, read_index := 0\<rparr>
                else rb\<lparr>read_index := idx15 (int (read_index rb) + 1)\<rparr>)))"

definition rt_ringbuffer_reset :: "ringbuffer \<Rightarrow> ringbuffer" where
  "rt_ringbuffer_reset rb = rb\<lparr>read_mirror := False, read_index := 0, write_mirror := False, write_index := 0\<rparr>"

section \<open>The abstract view\<close>

definition rb_wf :: "ringbuffer \<Rightarrow> bool" where
  "rb_wf rb \<longleftrightarrow> 0 < buffer_size rb \<and> buffer_size rb < 2 ^ 15 \<and> buffer_size rb \<le> int (length (buffer_ptr rb))
     \<and> int (read_index rb) < buffer_size rb \<and> int (write_index rb) < buffer_size rb
     \<and> (if read_mirror rb = write_mirror rb then read_index rb \<le> write_index rb
        else write_index rb \<le> read_index rb)"

definition cap :: "ringbuffer \<Rightarrow> nat" where
  "cap rb = nat (buffer_size rb)"

text \<open>The \<open>n\<close> bytes from index \<open>i\<close> on, around the end of an array of \<open>sz\<close> bytes.\<close>

definition circ :: "char list \<Rightarrow> nat \<Rightarrow> nat \<Rightarrow> nat \<Rightarrow> char list" where
  "circ b sz i n = map (\<lambda>k. b ! ((i + k) mod sz)) [0..<n]"

definition contents :: "ringbuffer \<Rightarrow> char list" where
  "contents rb = circ (buffer_ptr rb) (cap rb) (read_index rb) (rt_ringbuffer_data_len rb)"

lemma length_circ [simp]: "length (circ b sz i n) = n"
  by (simp add: circ_def)

lemma nth_circ [simp]: "k < n \<Longrightarrow> circ b sz i n ! k = b ! ((i + k) mod sz)"
  by (simp add: circ_def)

lemma length_contents [simp]: "length (contents rb) = rt_ringbuffer_data_len rb"
  by (simp add: contents_def)

lemma idx15_id [simp]: "0 \<le> i \<Longrightarrow> i < 2 ^ 15 \<Longrightarrow> idx15 i = nat i"
  by (simp add: idx15_def)

lemma size_of_int_id [simp]: "0 \<le> i \<Longrightarrow> i < 2 ^ 32 \<Longrightarrow> size_of_int i = nat i"
  by (simp add: size_of_int_def)

section \<open>Indices of a well-formed buffer\<close>

lemma rb_wf_cap:
  assumes "rb_wf rb"
  shows "buffer_size rb = int (cap rb)" "0 < cap rb" "cap rb < 2 ^ 15" "cap rb \<le> length (buffer_ptr rb)"
    "read_index rb < cap rb" "write_index rb < cap rb"
  using assms by (auto simp: rb_wf_def cap_def)

lemma rb_data_len:
  assumes "rb_wf rb"
  shows "rt_ringbuffer_data_len rb =
    (if read_mirror rb = write_mirror rb then write_index rb - read_index rb
     else cap rb - read_index rb + write_index rb)"
  using assms rb_wf_cap [OF assms]
  by (auto simp: rt_ringbuffer_data_len_def rt_ringbuffer_status_def rb_wf_def Let_def split: if_splits)

lemma rb_len_le: "rb_wf rb \<Longrightarrow> rt_ringbuffer_data_len rb \<le> cap rb"
  using rb_wf_cap(5,6) [of rb] by (auto simp: rb_data_len rb_wf_def)

lemma rb_space_len:
  assumes "rb_wf rb"
  shows "rt_ringbuffer_space_len rb = cap rb - rt_ringbuffer_data_len rb"
    "rt_ringbuffer_space_len rb mod 2 ^ 16 = cap rb - rt_ringbuffer_data_len rb"
  using rb_len_le [OF assms] rb_wf_cap(1-3) [OF assms] by (auto simp: rt_ringbuffer_space_len_def)

lemma rb_write_index:
  assumes "rb_wf rb"
  shows "write_index rb = (read_index rb + rt_ringbuffer_data_len rb) mod cap rb"
  using assms rb_wf_cap [OF assms] rb_len_le [OF assms]
  by (auto simp: mod_once rb_data_len rb_wf_def split: if_splits)

section \<open>Writing around the end\<close>

definition ring_write :: "char list \<Rightarrow> nat \<Rightarrow> nat \<Rightarrow> char list \<Rightarrow> char list" where
  "ring_write b sz w d =
     (if sz - w > length d then overlay b w d else overlay (overlay b w (take (sz - w) d)) 0 (drop (sz - w) d))"

lemma nth_overlay: "d + length xs \<le> length b \<Longrightarrow> j < length b \<Longrightarrow>
    overlay b d xs ! j = (if d \<le> j \<and> j < d + length xs then xs ! (j - d) else b ! j)"
  by (auto simp: overlay_def nth_append)

lemma length_ring_write [simp]:
  "w < sz \<Longrightarrow> sz \<le> length b \<Longrightarrow> length d \<le> sz \<Longrightarrow> length (ring_write b sz w d) = length b"
  by (auto simp: ring_write_def)

lemma nth_ring_write:
  assumes "w < sz" "sz \<le> length b" "length d \<le> sz" "t < sz"
  shows "ring_write b sz w d ! ((w + t) mod sz) = (if t < length d then d ! t else b ! ((w + t) mod sz))"
  using assms by (auto simp: ring_write_def nth_overlay mod_once)

text \<open>Appending \<open>d\<close> to the \<open>n\<close> bytes from \<open>r\<close> on, and dropping the first \<open>e\<close> of all these.\<close>

lemma circ_append:
  assumes "sz \<le> length b" "0 < sz" "n \<le> sz" "length d \<le> sz" "e \<le> n + length d" "n + length d \<le> sz + e"
    and w: "w = (r + n) mod sz"
  shows "circ (ring_write b sz w d) sz ((r + e) mod sz) (n + length d - e) = drop e (circ b sz r n @ d)"
proof (rule nth_equalityI)
  fix k assume k: "k < length (circ (ring_write b sz w d) sz ((r + e) mod sz) (n + length d - e))"
  have ws: "w < sz" using w assms(2) by simp
  have pos: "((r + e) mod sz + k) mod sz = (r + e + k) mod sz" by (simp add: mod_simps)
  show "circ (ring_write b sz w d) sz ((r + e) mod sz) (n + length d - e) ! k = drop e (circ b sz r n @ d) ! k"
  proof (cases "e + k < n")
    case True
    let ?t = "sz - n + e + k"
    have "(w + ?t) mod sz = (r + n + ?t) mod sz" unfolding w by (simp add: mod_simps)
    also have "r + n + ?t = (r + e + k) + sz" using assms(3) by simp
    finally have t: "(w + ?t) mod sz = (r + e + k) mod sz" by simp
    have "?t < sz" "\<not> ?t < length d" using True assms(3,6) by simp_all
    then have "ring_write b sz w d ! ((r + e + k) mod sz) = b ! ((r + e + k) mod sz)"
      using nth_ring_write [OF ws assms(1,4), of ?t] t by simp
    moreover have "drop e (circ b sz r n @ d) ! k = b ! ((r + e + k) mod sz)"
      using True by (subst nth_drop) (simp_all add: nth_append add.assoc)
    ultimately show ?thesis using k pos by simp
  next
    case False
    let ?t = "e + k - n"
    have "(w + ?t) mod sz = (r + n + ?t) mod sz" unfolding w by (simp add: mod_simps)
    also have "r + n + ?t = r + e + k" using False by simp
    finally have t: "(w + ?t) mod sz = (r + e + k) mod sz" .
    have "?t < length d" using k False by simp
    then have "ring_write b sz w d ! ((r + e + k) mod sz) = d ! ?t"
      using nth_ring_write [OF ws assms(1,4), of ?t] t assms(4) by simp
    moreover have "drop e (circ b sz r n @ d) ! k = d ! ?t"
      using False assms(5) by (subst nth_drop) (simp_all add: nth_append)
    ultimately show ?thesis using k pos by simp
  qed
qed simp

lemma circ_drop: "e \<le> n \<Longrightarrow> circ b sz ((r + e) mod sz) (n - e) = drop e (circ b sz r n)"
  by (rule nth_equalityI) (simp_all add: mod_simps add.assoc)

text \<open>The two-step copy of the code is \<open>ring_write\<close>.\<close>

lemma copy_wrapped:
  assumes "w < sz" "sz \<le> length b" "n \<le> sz" "\<not> n < sz - w" "n \<le> length p"
  shows "cbind (memcpy_arrays b w p 0 (sz - w)) (\<lambda>b. cbind (memcpy_arrays b 0 p (sz - w) (n - (sz - w))) f)
    = f (ring_write b sz w (take n p))"
proof -
  have "length (take n p) = n" using assms(5) by simp
  moreover have "memcpy_arrays b w p 0 (sz - w) = Inr (overlay b w (take (sz - w) (take n p)))"
    using assms by (simp add: memcpy_arrays_def min_def)
  moreover have "take (n - (sz - w)) (drop (sz - w) p) = drop (sz - w) (take n p)"
    by (simp add: drop_take)
  moreover have "n + w - sz \<le> length b" using assms by linarith
  ultimately show ?thesis
    using assms by (simp add: memcpy_arrays_def ring_write_def)
qed

lemma copy_straight:
  assumes "w < sz" "sz \<le> length b" "n < sz - w" "n \<le> length p"
  shows "memcpy_arrays b w p 0 n = Inr (ring_write b sz w (take n p))"
  using assms by (simp add: memcpy_arrays_def ring_write_def)

section \<open>Every operation on the contents\<close>

lemma room_int: "rb_wf rb \<Longrightarrow> i < cap rb \<Longrightarrow> buffer_size rb - int i = int (cap rb - i)"
  using rb_wf_cap(1) by (simp add: of_nat_diff)

text \<open>Advancing the write side by \<open>n\<close> bytes within the free space.\<close>

definition write_advanced :: "ringbuffer \<Rightarrow> char list \<Rightarrow> nat \<Rightarrow> ringbuffer" where
  "write_advanced rb b n =
     (if n < cap rb - write_index rb then rb\<lparr>buffer_ptr := b, write_index := write_index rb + n\<rparr>
      else rb\<lparr>buffer_ptr := b, write_mirror := \<not> write_mirror rb, write_index := n - (cap rb - write_index rb)\<rparr>)"

lemma write_advanced_sel [simp]:
  "buffer_ptr (write_advanced rb b n) = b" "read_index (write_advanced rb b n) = read_index rb"
  "read_mirror (write_advanced rb b n) = read_mirror rb" "buffer_size (write_advanced rb b n) = buffer_size rb"
  "cap (write_advanced rb b n) = cap rb"
  by (simp_all add: write_advanced_def cap_def)

lemma rb_wf_cases:
  assumes "rb_wf rb"
  obtains (same) "read_mirror rb = write_mirror rb" "read_index rb \<le> write_index rb"
      "rt_ringbuffer_data_len rb = write_index rb - read_index rb"
    | (other) "read_mirror rb = (\<not> write_mirror rb)" "write_index rb \<le> read_index rb"
      "rt_ringbuffer_data_len rb = cap rb - read_index rb + write_index rb"
  using assms rb_data_len [OF assms] by (cases "read_mirror rb = write_mirror rb") (auto simp: rb_wf_def)

lemma rb_wfI:
  "buffer_size rb = int c \<Longrightarrow> 0 < c \<Longrightarrow> c < 2 ^ 15 \<Longrightarrow> c \<le> length (buffer_ptr rb) \<Longrightarrow> read_index rb < c \<Longrightarrow>
   write_index rb < c \<Longrightarrow> read_mirror rb = write_mirror rb \<and> read_index rb \<le> write_index rb
     \<or> read_mirror rb = (\<not> write_mirror rb) \<and> write_index rb \<le> read_index rb \<Longrightarrow> rb_wf rb"
  by (auto simp: rb_wf_def)

lemma rb_advance_write:
  assumes wf: "rb_wf rb" and b: "length b = length (buffer_ptr rb)" and n: "n \<le> cap rb - rt_ringbuffer_data_len rb"
  shows "rb_wf (write_advanced rb b n)"
    "rt_ringbuffer_data_len (write_advanced rb b n) = rt_ringbuffer_data_len rb + n"
proof -
  let ?rb = "write_advanced rb b n"
  note cap = rb_wf_cap [OF wf]
  have idx: "write_index ?rb = (if n < cap rb - write_index rb then write_index rb + n else n - (cap rb - write_index rb))"
    "write_mirror ?rb = (if n < cap rb - write_index rb then write_mirror rb else \<not> write_mirror rb)"
    by (simp_all add: write_advanced_def)
  from wf have "rb_wf ?rb \<and> rt_ringbuffer_data_len ?rb = rt_ringbuffer_data_len rb + n"
  proof (cases rule: rb_wf_cases)
    case same
    then have w: "rb_wf ?rb" using n cap b by (intro rb_wfI [of _ "cap rb"]) (auto simp: idx)
    then show ?thesis using same n cap rb_data_len [OF w] by (cases "n < cap rb - write_index rb") (auto simp: idx)
  next
    case other
    then have nw: "n < cap rb - write_index rb" using n cap by simp
    have w: "rb_wf ?rb" using other nw n cap b by (intro rb_wfI [of _ "cap rb"]) (auto simp: idx)
    then show ?thesis using other n nw cap rb_data_len [OF w] by (simp add: idx)
  qed
  then show "rb_wf ?rb" "rt_ringbuffer_data_len ?rb = rt_ringbuffer_data_len rb + n" by auto
qed

lemma rb_write_step:
  assumes wf: "rb_wf rb" and n: "n \<le> cap rb" "n \<le> length p"
  shows "(if buffer_size rb - int (write_index rb) > int n
          then cbind (memcpy_arrays (buffer_ptr rb) (write_index rb) p 0 n) F
          else cbind (memcpy_arrays (buffer_ptr rb) (write_index rb) p 0 (size_of_int (buffer_size rb - int (write_index rb))))
            (\<lambda>b. cbind (memcpy_arrays b 0 p (size_of_int (buffer_size rb - int (write_index rb)))
                     (size_of_int (int n - (buffer_size rb - int (write_index rb))))) G))
      = (if n < cap rb - write_index rb then F else G) (ring_write (buffer_ptr rb) (cap rb) (write_index rb) (take n p))"
proof -
  note cap = rb_wf_cap [OF wf]
  define w where "w = write_index rb"
  have room: "buffer_size rb - int w = int (cap rb - w)" using room_int [OF wf] cap by (simp add: w_def)
  have w: "w < cap rb" using cap by (simp add: w_def)
  show ?thesis
  proof (cases "n < cap rb - w")
    case True
    then have "buffer_size rb - int w > int n" unfolding room by simp
    then show ?thesis
      using True copy_straight [OF w cap(4) True n(2)] by (simp flip: w_def)
  next
    case False
    then have "\<not> buffer_size rb - int w > int n" unfolding room by simp
    moreover have "size_of_int (int n - (buffer_size rb - int w)) = n - (cap rb - w)"
      "size_of_int (buffer_size rb - int w) = cap rb - w"
      unfolding room using False cap(3) n(1) by (simp_all add: nat_diff_distrib)
    ultimately show ?thesis
      using copy_wrapped [OF w cap(4) n(1) False n(2)] False by (simp flip: w_def)
  qed
qed

lemma rb_write_idx:
  assumes wf: "rb_wf rb" and n: "n \<le> cap rb"
  shows "n < cap rb - write_index rb \<Longrightarrow> idx15 (int (write_index rb) + int n) = write_index rb + n"
    "\<not> n < cap rb - write_index rb \<Longrightarrow>
      idx15 (int n - (buffer_size rb - int (write_index rb))) = n - (cap rb - write_index rb)"
  using rb_wf_cap [OF wf] n room_int [OF wf, of "write_index rb"] by (simp_all add: nat_diff_distrib)

lemma rt_ringbuffer_put_contents:
  assumes wf: "rb_wf rb" and len: "len < 2 ^ 16" "len \<le> length ptr"
  shows "\<exists>rb'. rt_ringbuffer_put rb ptr len = Inr (min (cap rb - rt_ringbuffer_data_len rb) len, rb')
    \<and> rb_wf rb' \<and> cap rb' = cap rb
    \<and> contents rb' = contents rb @ take (min (cap rb - rt_ringbuffer_data_len rb) len) ptr"
proof -
  let ?sp = "cap rb - rt_ringbuffer_data_len rb"
  define n where "n = min ?sp len"
  note cap = rb_wf_cap [OF wf]
  let ?b = "ring_write (buffer_ptr rb) (cap rb) (write_index rb) (take n ptr)"
  let ?rb = "write_advanced rb ?b n"
  have n: "n \<le> ?sp" "n \<le> length ptr" "n \<le> cap rb" using len by (auto simp: n_def)
  have lb: "length ?b = length (buffer_ptr rb)" using cap n by simp
  note adv = rb_advance_write [OF wf lb n(1)]
  have "circ ?b (cap rb) ((read_index rb + 0) mod cap rb) (rt_ringbuffer_data_len rb + length (take n ptr) - 0)
      = drop 0 (circ (buffer_ptr rb) (cap rb) (read_index rb) (rt_ringbuffer_data_len rb) @ take n ptr)"
    using cap n rb_len_le [OF wf] by (intro circ_append rb_write_index [OF wf]) auto
  then have c: "contents ?rb = contents rb @ take n ptr"
    using adv(2) n(2) cap(5) by (simp add: contents_def)
  show ?thesis
  proof (cases "?sp = 0")
    case True
    then show ?thesis using wf rb_space_len(2) [OF wf] by (simp add: rt_ringbuffer_put_def)
  next
    case False
    have "(if ?sp < len then ?sp else len) = n" by (simp add: n_def)
    then have "rt_ringbuffer_put rb ptr len = Inr (n, ?rb)"
      using False rb_write_idx [OF wf n(3)]
      by (simp only: rt_ringbuffer_put_def Let_def rb_space_len(2) [OF wf] rb_write_step [OF wf n(3,2)] if_False)
        (simp add: write_advanced_def)
    then show ?thesis using adv(1) c by (simp flip: n_def)
  qed
qed

lemma rb_write_index_advanced:
  assumes "rb_wf rb" "n \<le> cap rb"
  shows "write_index (write_advanced rb b n) = (write_index rb + n) mod cap rb"
  using assms rb_wf_cap(6) [OF assms(1)] by (simp add: write_advanced_def mod_once) arith

text \<open>The buffer after \<open>n\<close> bytes have overrun the unread ones.\<close>

definition overrun :: "ringbuffer \<Rightarrow> char list \<Rightarrow> nat \<Rightarrow> ringbuffer" where
  "overrun rb b n =
     (let rb' = write_advanced rb b n
      in rb'\<lparr>read_index := write_index rb', read_mirror := \<not> write_mirror rb'\<rparr>)"

lemma overrun_full:
  assumes wf: "rb_wf rb" and b: "length b = length (buffer_ptr rb)" and n: "n \<le> cap rb"
  shows "rb_wf (overrun rb b n)" "rt_ringbuffer_data_len (overrun rb b n) = cap rb" "cap (overrun rb b n) = cap rb"
    "read_index (overrun rb b n) = (write_index rb + n) mod cap rb" "buffer_ptr (overrun rb b n) = b"
proof -
  note cap = rb_wf_cap [OF wf]
  let ?w = "(write_index rb + n) mod cap rb"
  have sel: "buffer_size (overrun rb b n) = int (cap rb)" "buffer_ptr (overrun rb b n) = b"
    "read_index (overrun rb b n) = ?w" "write_index (overrun rb b n) = ?w"
    "read_mirror (overrun rb b n) = (\<not> write_mirror (overrun rb b n))"
    using rb_write_index_advanced [OF wf n, of b] cap(1) by (simp_all add: overrun_def Let_def)
  have w: "?w < cap rb" using cap(2) by simp
  show c: "cap (overrun rb b n) = cap rb" using sel(1) by (simp add: cap_def)
  show wf': "rb_wf (overrun rb b n)" using sel cap b w by (intro rb_wfI [of _ "cap rb"]) auto
  show "rt_ringbuffer_data_len (overrun rb b n) = cap rb"
    unfolding rb_data_len [OF wf'] c using sel(3-5) w by simp
  show "read_index (overrun rb b n) = ?w" "buffer_ptr (overrun rb b n) = b" using sel by auto
qed

lemma overrun_straight:
  assumes wf: "rb_wf rb" and n: "cap rb - rt_ringbuffer_data_len rb < n" "n < cap rb - write_index rb"
  shows "overrun rb b n = rb\<lparr>buffer_ptr := b, write_index := write_index rb + n, read_index := write_index rb + n\<rparr>"
  using n by (cases rule: rb_wf_cases [OF wf]) (simp_all add: overrun_def write_advanced_def Let_def)

lemma overrun_wrapped:
  assumes wf: "rb_wf rb" and n: "n \<le> cap rb" "cap rb - rt_ringbuffer_data_len rb < n" "\<not> n < cap rb - write_index rb"
    and wi: "wi = n - (cap rb - write_index rb)"
  shows "overrun rb b n = (if wi \<le> read_index rb
        then rb\<lparr>buffer_ptr := b, write_mirror := \<not> write_mirror rb, write_index := wi,
                read_mirror := \<not> read_mirror rb, read_index := wi\<rparr>
        else rb\<lparr>buffer_ptr := b, write_mirror := \<not> write_mirror rb, write_index := wi, read_index := wi\<rparr>)"
  using n wi rb_wf_cap [OF wf]
  by (cases rule: rb_wf_cases [OF wf]) (simp_all add: overrun_def write_advanced_def Let_def)

lemma rt_ringbuffer_put_force_contents:
  assumes wf: "rb_wf rb" and len: "len < 2 ^ 16" "len = length ptr"
  shows "\<exists>rb'. rt_ringbuffer_put_force rb ptr len = Inr (min (cap rb) len, rb')
    \<and> rb_wf rb' \<and> cap rb' = cap rb
    \<and> contents rb' = (let all = contents rb @ ptr in drop (length all - cap rb) all)"
proof -
  let ?l = "rt_ringbuffer_data_len rb"
  note cap = rb_wf_cap [OF wf]
  define n p where "n = min (cap rb) len" and "p = drop (len - n) ptr"
  have n: "n \<le> cap rb" "length p = n" using len by (auto simp: n_def p_def)
  let ?b = "ring_write (buffer_ptr rb) (cap rb) (write_index rb) p"
  have lb: "length ?b = length (buffer_ptr rb)" using cap n by simp
  have arg: "(if int len > buffer_size rb then (drop (size_of_int (int len - buffer_size rb)) ptr, size_of_int (buffer_size rb) mod 2 ^ 16)
        else (ptr, len)) = (p, n)"
    using cap len by (auto simp: n_def p_def nat_diff_distrib)
  have run: "rt_ringbuffer_put_force rb ptr len =
      Inr (n, if n > cap rb - ?l then overrun rb ?b n else write_advanced rb ?b n)"
    unfolding rt_ringbuffer_put_force_def Let_def arg rb_space_len(2) [OF wf] prod.case
      rb_write_step [OF wf n(1) eq_refl [OF n(2) [symmetric]]]
    using n rb_write_idx [OF wf n(1)]
      overrun_straight [OF wf, of n ?b] overrun_wrapped [OF wf n(1) _ _ refl, of ?b]
    by (cases "n < cap rb - write_index rb"; cases "n > cap rb - ?l") (simp_all add: write_advanced_def)
  have l: "?l \<le> cap rb" by (rule rb_len_le [OF wf])
  have all: "drop (length (contents rb @ ptr) - cap rb) (contents rb @ ptr) = drop (?l + n - cap rb) (contents rb @ p)"
  proof (cases "len \<le> cap rb")
    case True
    then show ?thesis using len by (simp add: n_def p_def)
  next
    case False
    then show ?thesis using len l by (simp add: n_def p_def)
  qed
  show ?thesis
  proof (cases "n > cap rb - ?l")
    case True
    note ov = overrun_full [OF wf lb n(1)]
    have "circ ?b (cap rb) ((read_index rb + (?l + n - cap rb)) mod cap rb) (?l + length p - (?l + n - cap rb))
        = drop (?l + n - cap rb) (circ (buffer_ptr rb) (cap rb) (read_index rb) ?l @ p)"
      using cap n l True by (intro circ_append rb_write_index [OF wf]) auto
    moreover have "(read_index rb + (?l + n - cap rb)) mod cap rb = (write_index rb + n) mod cap rb"
    proof -
      have "(write_index rb + n) mod cap rb = (read_index rb + ?l + n) mod cap rb"
        unfolding rb_write_index [OF wf] by (simp add: mod_simps)
      also have "read_index rb + ?l + n = (read_index rb + (?l + n - cap rb)) + cap rb" using True by simp
      finally show ?thesis by simp
    qed
    ultimately have "contents (overrun rb ?b n) = drop (?l + n - cap rb) (contents rb @ p)"
      using ov n(2) True by (simp add: contents_def)
    then show ?thesis using run True ov unfolding Let_def all n_def [symmetric] by simp
  next
    case False
    then have adv: "rb_wf (write_advanced rb ?b n)" "rt_ringbuffer_data_len (write_advanced rb ?b n) = ?l + n"
      using rb_advance_write [OF wf lb] by auto
    have "circ ?b (cap rb) ((read_index rb + 0) mod cap rb) (?l + length p - 0)
        = drop 0 (circ (buffer_ptr rb) (cap rb) (read_index rb) ?l @ p)"
      using cap n l False by (intro circ_append rb_write_index [OF wf]) auto
    then have "contents (write_advanced rb ?b n) = drop (?l + n - cap rb) (contents rb @ p)"
      using adv(2) n(2) cap(5) False l by (simp add: contents_def)
    then show ?thesis using run False adv(1) unfolding Let_def all n_def [symmetric] by simp
  qed
qed

section \<open>Reading\<close>

lemma circ_straight: "r + n \<le> sz \<Longrightarrow> sz \<le> length b \<Longrightarrow> r < sz \<Longrightarrow> n < sz - r \<Longrightarrow> take n (drop r b) = circ b sz r n"
  by (rule nth_equalityI) simp_all

lemma circ_wrapped:
  assumes "r < sz" "sz \<le> length b" "n \<le> sz" "sz - r \<le> n"
  shows "take (sz - r) (drop r b) @ take (n - (sz - r)) b = circ b sz r n"
proof (rule nth_equalityI)
  show l: "length (take (sz - r) (drop r b) @ take (n - (sz - r)) b) = length (circ b sz r n)" using assms by simp
  fix k assume "k < length (take (sz - r) (drop r b) @ take (n - (sz - r)) b)"
  then have k: "k < n" unfolding l length_circ .
  have len: "length (take (sz - r) (drop r b)) = sz - r" using assms by simp
  show "(take (sz - r) (drop r b) @ take (n - (sz - r)) b) ! k = circ b sz r n ! k"
  proof (cases "k < sz - r")
    case True
    then show ?thesis using k assms len by (simp add: nth_append)
  next
    case False
    then have "(take (sz - r) (drop r b) @ take (n - (sz - r)) b) ! k = b ! (k - (sz - r))"
      using k assms len by (simp add: nth_append)
    moreover have "(r + k) mod sz = k - (sz - r)" using False k assms by (subst mod_once) auto
    ultimately show ?thesis using k by simp
  qed
qed

lemma rb_read_step:
  assumes wf: "rb_wf rb" and n: "n \<le> cap rb" "n \<le> length p"
  shows "(if buffer_size rb - int (read_index rb) > int n
          then cbind (memcpy_arrays p 0 (buffer_ptr rb) (read_index rb) n) F
          else cbind (memcpy_arrays p 0 (buffer_ptr rb) (read_index rb) (size_of_int (buffer_size rb - int (read_index rb))))
            (\<lambda>p. cbind (memcpy_arrays p (size_of_int (buffer_size rb - int (read_index rb))) (buffer_ptr rb) 0
                     (size_of_int (int n - (buffer_size rb - int (read_index rb))))) G))
      = (if n < cap rb - read_index rb then F else G)
          (overlay p 0 (circ (buffer_ptr rb) (cap rb) (read_index rb) n))"
proof -
  note cap = rb_wf_cap [OF wf]
  define r b where "r = read_index rb" and "b = buffer_ptr rb"
  have room: "buffer_size rb - int r = int (cap rb - r)" using room_int [OF wf] cap by (simp add: r_def)
  have r: "r < cap rb" "cap rb \<le> length b" using cap by (simp_all add: r_def b_def)
  show ?thesis
  proof (cases "n < cap rb - r")
    case True
    then have "buffer_size rb - int r > int n" unfolding room by simp
    moreover have "memcpy_arrays p 0 b r n = Inr (overlay p 0 (circ b (cap rb) r n))"
      using True r n circ_straight [of r n "cap rb" b] by (simp add: memcpy_arrays_def)
    ultimately show ?thesis using True by (simp flip: r_def b_def)
  next
    case False
    then have "\<not> buffer_size rb - int r > int n" unfolding room by simp
    moreover have "size_of_int (int n - (buffer_size rb - int r)) = n - (cap rb - r)"
      "size_of_int (buffer_size rb - int r) = cap rb - r"
      unfolding room using False cap(3) n(1) by (simp_all add: nat_diff_distrib)
    moreover have "memcpy_arrays p 0 b r (cap rb - r) = Inr (overlay p 0 (take (cap rb - r) (drop r b)))"
      using False r n by (simp add: memcpy_arrays_def)
    moreover have "memcpy_arrays (overlay p 0 (take (cap rb - r) (drop r b))) (cap rb - r) b 0 (n - (cap rb - r))
        = Inr (overlay p 0 (circ b (cap rb) r n))"
    proof -
      have len: "length (take (cap rb - r) (drop r b)) = cap rb - r" using r by simp
      have "overlay (overlay p 0 (take (cap rb - r) (drop r b))) (0 + length (take (cap rb - r) (drop r b)))
              (take (n - (cap rb - r)) b) = overlay p 0 (circ b (cap rb) r n)"
        using False r n circ_wrapped [of r "cap rb" b n] by (subst overlay_append) simp_all
      then show ?thesis using False r n len by (simp add: memcpy_arrays_def)
    qed
    ultimately show ?thesis using False by (simp flip: r_def b_def)
  qed
qed

definition read_advanced :: "ringbuffer \<Rightarrow> nat \<Rightarrow> ringbuffer" where
  "read_advanced rb n =
     (if n < cap rb - read_index rb then rb\<lparr>read_index := read_index rb + n\<rparr>
      else rb\<lparr>read_mirror := \<not> read_mirror rb, read_index := n - (cap rb - read_index rb)\<rparr>)"

lemma read_advanced_sel [simp]:
  "buffer_ptr (read_advanced rb n) = buffer_ptr rb" "write_index (read_advanced rb n) = write_index rb"
  "write_mirror (read_advanced rb n) = write_mirror rb" "buffer_size (read_advanced rb n) = buffer_size rb"
  "cap (read_advanced rb n) = cap rb"
  by (simp_all add: read_advanced_def cap_def)

lemma rb_advance_read:
  assumes wf: "rb_wf rb" and n: "n \<le> rt_ringbuffer_data_len rb"
  shows "rb_wf (read_advanced rb n)" "contents (read_advanced rb n) = drop n (contents rb)"
proof -
  let ?rb = "read_advanced rb n"
  note cap = rb_wf_cap [OF wf]
  have idx: "read_index ?rb = (if n < cap rb - read_index rb then read_index rb + n else n - (cap rb - read_index rb))"
    "read_mirror ?rb = (if n < cap rb - read_index rb then read_mirror rb else \<not> read_mirror rb)"
    by (simp_all add: read_advanced_def)
  from wf have len: "rb_wf ?rb \<and> rt_ringbuffer_data_len ?rb = rt_ringbuffer_data_len rb - n"
  proof (cases rule: rb_wf_cases)
    case same
    then have nw: "n < cap rb - read_index rb" using n cap by simp
    have w: "rb_wf ?rb" using same nw n cap by (intro rb_wfI [of _ "cap rb"]) (auto simp: idx)
    then show ?thesis using same n nw cap rb_data_len [OF w] by (simp add: idx)
  next
    case other
    then have w: "rb_wf ?rb" using n cap by (intro rb_wfI [of _ "cap rb"]) (auto simp: idx)
    then show ?thesis using other n cap rb_data_len [OF w] by (cases "n < cap rb - read_index rb") (auto simp: idx)
  qed
  then show "rb_wf ?rb" by simp
  have "n \<le> cap rb" using n rb_len_le [OF wf] by simp
  then have "read_index ?rb = (read_index rb + n) mod cap rb"
    using cap(5) by (simp add: idx mod_once) arith
  then show "contents ?rb = drop n (contents rb)"
    using len n by (simp add: contents_def circ_drop)
qed

lemma rt_ringbuffer_get_contents:
  assumes wf: "rb_wf rb" and len: "len \<le> length ptr"
  shows "\<exists>rb'. rt_ringbuffer_get rb ptr len
      = Inr (min (rt_ringbuffer_data_len rb) len, overlay ptr 0 (take len (contents rb)), rb')
    \<and> rb_wf rb' \<and> cap rb' = cap rb \<and> contents rb' = drop len (contents rb)"
proof -
  let ?l = "rt_ringbuffer_data_len rb"
  define n where "n = min ?l len"
  have n: "n \<le> ?l" "n \<le> cap rb" "n \<le> length ptr"
    using len rb_len_le [OF wf] by (auto simp: n_def)
  have tk: "circ (buffer_ptr rb) (cap rb) (read_index rb) n = take len (contents rb)"
    by (rule nth_equalityI) (simp_all add: n_def contents_def)
  have dr: "drop n (contents rb) = drop len (contents rb)"
    by (simp add: n_def min_def)
  show ?thesis
  proof (cases "?l = 0")
    case True
    then have "contents rb = []" by (simp add: contents_def circ_def)
    then show ?thesis using True wf by (simp add: rt_ringbuffer_get_def)
  next
    case False
    have m: "(if ?l < len then ?l else len) = n" by (simp add: n_def)
    have idx: "n < cap rb - read_index rb \<Longrightarrow> idx15 (int (read_index rb) + int n) = read_index rb + n"
      "\<not> n < cap rb - read_index rb \<Longrightarrow>
        idx15 (int n - (buffer_size rb - int (read_index rb))) = n - (cap rb - read_index rb)"
      using rb_wf_cap [OF wf] n room_int [OF wf, of "read_index rb"] by (simp_all add: nat_diff_distrib)
    have "rt_ringbuffer_get rb ptr len = Inr (n, overlay ptr 0 (take len (contents rb)), read_advanced rb n)"
      unfolding rt_ringbuffer_get_def Let_def m rb_read_step [OF wf n(2,3)] tk
      using False idx by (simp add: read_advanced_def)
    then show ?thesis
      using rb_advance_read [OF wf n(1)] dr by (simp flip: n_def)
  qed
qed

section \<open>Single bytes\<close>

text \<open>The byte-wise routines are the block routines on one byte.\<close>

lemma ring_write_one:
  "w < sz \<Longrightarrow> sz \<le> length b \<Longrightarrow> ring_write b sz w [c] = b[w := c]"
  by (auto simp: ring_write_def overlay_Cons)

lemma putchar_is_put:
  assumes wf: "rb_wf rb"
  shows "rt_ringbuffer_putchar rb c = rt_ringbuffer_put rb [c] 1"
proof (cases "cap rb - rt_ringbuffer_data_len rb = 0")
  case True
  then show ?thesis
    using rb_space_len [OF wf] by (simp add: rt_ringbuffer_put_def rt_ringbuffer_putchar_def)
next
  case False
  note cap = rb_wf_cap [OF wf]
  have one: "1 \<le> cap rb" "1 \<le> length [c]" using cap by simp_all
  have m: "(if cap rb - rt_ringbuffer_data_len rb < 1 then cap rb - rt_ringbuffer_data_len rb else 1) = (1 :: nat)"
    using False by simp
  have last: "int (write_index rb) = buffer_size rb - 1 \<longleftrightarrow> \<not> 1 < cap rb - write_index rb"
    using cap by auto
  have "write_index rb < length (buffer_ptr rb)" using cap by simp
  then show ?thesis
    unfolding rt_ringbuffer_put_def rt_ringbuffer_putchar_def Let_def rb_space_len(2) [OF wf]
    unfolding m rb_space_len(1) [OF wf] rb_write_step [OF wf one] last
    using False rb_write_idx [OF wf one(1)] cap
    by (cases "1 < cap rb - write_index rb") (simp_all add: ring_write_one)
qed

lemma putchar_force_is_put_force:
  assumes wf: "rb_wf rb"
  shows "rt_ringbuffer_putchar_force rb c = rt_ringbuffer_put_force rb [c] 1"
proof -
  note cap = rb_wf_cap [OF wf]
  have one: "1 \<le> cap rb" "1 \<le> length [c]" using cap by simp_all
  have arg: "(if int 1 > buffer_size rb then x else ([c], 1)) = ([c], 1 :: nat)" for x using cap by simp
  have last: "int (write_index rb) = buffer_size rb - 1 \<longleftrightarrow> \<not> 1 < cap rb - write_index rb"
    using cap by auto
  have full: "rt_ringbuffer_status rb = RT_RINGBUFFER_FULL \<longleftrightarrow> cap rb - rt_ringbuffer_data_len rb < 1"
    using cap by (cases rule: rb_wf_cases [OF wf]) (auto simp: rt_ringbuffer_status_def)
  have same: "read_index rb = write_index rb" if "rt_ringbuffer_status rb = RT_RINGBUFFER_FULL"
    using that by (auto simp: rt_ringbuffer_status_def split: if_splits)
  have "write_index rb < length (buffer_ptr rb)" using cap by simp
  then show ?thesis
    unfolding rt_ringbuffer_put_force_def rt_ringbuffer_putchar_force_def Let_def arg rb_space_len(2) [OF wf] prod.case
      rb_write_step [OF wf one] last full
    using rb_write_idx [OF wf one(1)] cap same full
    by (cases "1 < cap rb - write_index rb"; cases "cap rb - rt_ringbuffer_data_len rb < 1") (simp_all add: ring_write_one)
qed

lemma rt_ringbuffer_getchar_contents:
  assumes wf: "rb_wf rb"
  shows "(case contents rb of
      [] \<Rightarrow> rt_ringbuffer_getchar rb = Inr (0, None, rb)
    | c # cs \<Rightarrow> \<exists>rb'. rt_ringbuffer_getchar rb = Inr (1, Some c, rb') \<and> rb_wf rb' \<and> cap rb' = cap rb \<and> contents rb' = cs)"
proof (cases "contents rb")
  case Nil
  then have "rt_ringbuffer_data_len rb = 0" using length_contents [of rb] by simp
  then show ?thesis using Nil by (simp add: rt_ringbuffer_getchar_def)
next
  case (Cons c cs)
  note cap = rb_wf_cap [OF wf]
  have n: "1 \<le> rt_ringbuffer_data_len rb" using length_contents [of rb] Cons by simp
  then have "contents rb ! 0 = buffer_ptr rb ! read_index rb" using cap by (simp add: contents_def)
  then have c: "buffer_ptr rb ! read_index rb = c" using Cons by simp
  have idx: "idx15 (int (read_index rb) + 1) = read_index rb + 1" using cap by simp
  have last: "int (read_index rb) = buffer_size rb - 1 \<longleftrightarrow> \<not> 1 < cap rb - read_index rb"
    using cap by auto
  have "rt_ringbuffer_getchar rb = Inr (1, Some c, read_advanced rb 1)"
    unfolding rt_ringbuffer_getchar_def last using n cap c idx by (simp add: read_advanced_def)
  then show ?thesis using rb_advance_read [OF wf n] Cons by simp
qed

text \<open>\<open>rt_ringbuffer_peak\<close> removes what it points at: the bytes up to the end of the buffer.\<close>

lemma rt_ringbuffer_peak_contents:
  assumes wf: "rb_wf rb" and ne: "contents rb \<noteq> []"
  shows "\<exists>n rb'. rt_ringbuffer_peak rb = (n, Some (read_index rb), rb') \<and> 0 < n \<and> rb_wf rb'
    \<and> n = min (rt_ringbuffer_data_len rb) (cap rb - read_index rb) \<and> contents rb' = drop n (contents rb)"
proof -
  note cap = rb_wf_cap [OF wf]
  let ?l = "rt_ringbuffer_data_len rb"
  define n where "n = min ?l (cap rb - read_index rb)"
  have l: "?l \<noteq> 0" using ne by (simp add: contents_def circ_def)
  have room: "size_of_int (buffer_size rb - int (read_index rb)) = cap rb - read_index rb"
    using cap room_int [OF wf, of "read_index rb"] by simp
  have "rt_ringbuffer_peak rb = (n, Some (read_index rb), read_advanced rb n)"
    using l cap unfolding rt_ringbuffer_peak_def Let_def room
    by (auto simp: n_def read_advanced_def min_def)
  moreover have "0 < n" "n \<le> ?l" using l cap by (auto simp: n_def)
  ultimately show ?thesis using rb_advance_read [OF wf] by (auto simp: n_def)
qed

lemma rt_ringbuffer_init_wf:
  assumes "4 \<le> sz" "sz < 2 ^ 15" "sz \<le> int (length pool)"
  shows "\<exists>rb. rt_ringbuffer_init pool sz = Inr rb \<and> rb_wf rb \<and> contents rb = [] \<and> cap rb = nat (sz div 4 * 4)"
proof -
  let ?rb = "\<lparr>buffer_ptr = pool, read_mirror = False, read_index = 0, write_mirror = False,
          write_index = 0, buffer_size = sz div 4 * 4\<rparr>"
  have "0 < sz div 4 * 4" "sz div 4 * 4 \<le> sz" using assms by auto
  then have "rb_wf ?rb" using assms by (auto simp: rb_wf_def)
  moreover have "contents ?rb = []"
    by (simp add: contents_def circ_def rt_ringbuffer_data_len_def rt_ringbuffer_status_def)
  ultimately show ?thesis using assms by (simp add: rt_ringbuffer_init_def cap_def)
qed

lemma rt_ringbuffer_reset_empty:
  "rb_wf rb \<Longrightarrow> rb_wf (rt_ringbuffer_reset rb) \<and> contents (rt_ringbuffer_reset rb) = []"
  by (auto simp: rb_wf_def contents_def circ_def rt_ringbuffer_reset_def rt_ringbuffer_data_len_def
      rt_ringbuffer_status_def)

section \<open>The byte queue interface\<close>

text \<open>
  What a driver relies on: \<open>put\<close> accepts a prefix of the data and appends it, \<open>get\<close> hands out a
  prefix of what is queued. In any interleaving the bytes come out in the order they went in.
\<close>

datatype queue_op = Put "char list" | Get nat

fun run_ops :: "('s \<Rightarrow> char list \<Rightarrow> (nat \<times> 's) cres) \<Rightarrow> ('s \<Rightarrow> nat \<Rightarrow> (char list \<times> 's) cres)
    \<Rightarrow> queue_op list \<Rightarrow> 's \<Rightarrow> (char list \<times> char list \<times> 's) cres" where
  "run_ops put get [] s = Inr ([], [], s)"
| "run_ops put get (Put d # ops) s = cbind (put s d) (\<lambda>(n, s).
     cbind (run_ops put get ops s) (\<lambda>(i, out, s). Inr (take n d @ i, out, s)))"
| "run_ops put get (Get k # ops) s = cbind (get s k) (\<lambda>(xs, s).
     cbind (run_ops put get ops s) (\<lambda>(i, out, s). Inr (i, xs @ out, s)))"

locale byte_queue =
  fixes inv :: "'s \<Rightarrow> bool" and cont :: "'s \<Rightarrow> char list" and room :: "'s \<Rightarrow> nat"
    and put :: "'s \<Rightarrow> char list \<Rightarrow> (nat \<times> 's) cres" and get :: "'s \<Rightarrow> nat \<Rightarrow> (char list \<times> 's) cres"
  assumes put_law: "inv s \<Longrightarrow> length d < 2 ^ 16 \<Longrightarrow> \<exists>s'. put s d = Inr (min (room s) (length d), s') \<and> inv s'
      \<and> cont s' = cont s @ take (room s) d"
    and get_law: "inv s \<Longrightarrow> \<exists>s'. get s k = Inr (take k (cont s), s') \<and> inv s' \<and> cont s' = drop k (cont s)"
begin

lemma fifo:
  assumes "inv s" and "\<forall>d. Put d \<in> set ops \<longrightarrow> length d < 2 ^ 16"
  shows "\<exists>i out s'. run_ops put get ops s = Inr (i, out, s') \<and> inv s' \<and> cont s @ i = out @ cont s'"
  using assms
proof (induction ops arbitrary: s)
  case Nil
  then show ?case by simp
next
  case (Cons op ops)
  show ?case
  proof (cases op)
    case (Put d)
    obtain s1 where s1: "put s d = Inr (min (room s) (length d), s1)" "inv s1" "cont s1 = cont s @ take (room s) d"
      using put_law [OF Cons.prems(1), of d] Cons.prems(2) Put by auto
    obtain i out s' where "run_ops put get ops s1 = Inr (i, out, s')" "inv s'" "cont s1 @ i = out @ cont s'"
      using Cons.IH [OF s1(2)] Cons.prems(2) by auto
    moreover have "take (min (room s) (length d)) d = take (room s) d" by (simp add: min_def)
    ultimately show ?thesis using Put s1 by simp
  next
    case (Get k)
    obtain s1 where s1: "get s k = Inr (take k (cont s), s1)" "inv s1" "cont s1 = drop k (cont s)"
      using get_law [OF Cons.prems(1), of k] by auto
    obtain i out s' where r: "run_ops put get ops s1 = Inr (i, out, s')" "inv s'" "cont s1 @ i = out @ cont s'"
      using Cons.IH [OF s1(2)] Cons.prems(2) by auto
    have "cont s @ i = take k (cont s) @ cont s1 @ i" using s1(3) by simp
    then have "cont s @ i = take k (cont s) @ out @ cont s'" using r(3) by simp
    then show ?thesis using Get s1(1) r(1,2) by simp
  qed
qed

lemma put_get:
  assumes "inv s" "cont s = []" "length d < 2 ^ 16" "length d \<le> room s"
  shows "\<exists>s' s''. put s d = Inr (length d, s') \<and> get s' (length d) = Inr (d, s'') \<and> cont s'' = []"
proof -
  obtain s' where s': "put s d = Inr (length d, s')" "inv s'" "cont s' = d"
    using put_law [OF assms(1,3)] assms(2,4) by auto
  then show ?thesis using get_law [OF s'(2), of "length d"] by auto
qed

end

definition rb_put :: "ringbuffer \<Rightarrow> char list \<Rightarrow> (nat \<times> ringbuffer) cres" where
  "rb_put rb d = rt_ringbuffer_put rb d (length d)"

definition rb_get :: "ringbuffer \<Rightarrow> nat \<Rightarrow> (char list \<times> ringbuffer) cres" where
  "rb_get rb k = cbind (rt_ringbuffer_get rb (replicate k NUL) k) (\<lambda>(n, p, rb). Inr (take n p, rb))"

definition rb_room :: "ringbuffer \<Rightarrow> nat" where
  "rb_room rb = cap rb - length (contents rb)"

interpretation rbq: byte_queue rb_wf contents rb_room rb_put rb_get
proof
  fix rb and d :: "char list" assume "rb_wf rb" "length d < 2 ^ 16"
  then show "\<exists>s'. rb_put rb d = Inr (min (rb_room rb) (length d), s') \<and> rb_wf s'
      \<and> contents s' = contents rb @ take (rb_room rb) d"
    using rt_ringbuffer_put_contents [of rb "length d" d] by (auto simp: rb_put_def rb_room_def min_def)
next
  fix rb k assume wf: "rb_wf rb"
  obtain rb' where "rt_ringbuffer_get rb (replicate k NUL) k
      = Inr (min (rt_ringbuffer_data_len rb) k, overlay (replicate k NUL) 0 (take k (contents rb)), rb')"
    "rb_wf rb'" "contents rb' = drop k (contents rb)"
    using rt_ringbuffer_get_contents [OF wf, of k "replicate k NUL"] by auto
  moreover have "take (min (rt_ringbuffer_data_len rb) k) (overlay (replicate k NUL) 0 (take k (contents rb))) = take k (contents rb)"
    by (simp add: overlay_def min_def flip: length_contents)
  ultimately show "\<exists>s'. rb_get rb k = Inr (take k (contents rb), s') \<and> rb_wf s' \<and> contents s' = drop k (contents rb)"
    by (simp add: rb_get_def)
qed

section \<open>Properties\<close>

text \<open>C32: any sequence of \<open>rt_ringbuffer_put\<close> and \<open>rt_ringbuffer_get\<close> calls on a well-formed ring buffer succeeds,
  keeps it well formed and is first-in first-out: what was queued, followed by the bytes the puts
  accepted, is the bytes the gets handed out, followed by what is still queued.\<close>

theorem ringbuffer_fifo:
  assumes "rb_wf rb" and "\<forall>d. Put d \<in> set ops \<longrightarrow> length d < 2 ^ 16"
  shows "\<exists>i out rb'. run_ops rb_put rb_get ops rb = Inr (i, out, rb') \<and> rb_wf rb'
    \<and> contents rb @ i = out @ contents rb'"
  using assms by (rule rbq.fifo)

theorem ringbuffer_fifo_witness:
  "\<exists>rb i out rb'. rt_ringbuffer_init (replicate 8 NUL) 8 = Inr rb
     \<and> run_ops rb_put rb_get [Put ''abcdef'', Get 4, Put ''ghijkl'', Get 9] rb = Inr (i, out, rb') \<and> i = out @ contents rb'"
proof -
  obtain rb where rb: "rt_ringbuffer_init (replicate 8 NUL) 8 = Inr rb" "rb_wf rb" "contents rb = []"
    using rt_ringbuffer_init_wf [of 8 "replicate 8 NUL"] by auto
  have "\<forall>d. Put d \<in> set [Put ''abcdef'', Get 4, Put ''ghijkl'', Get 9] \<longrightarrow> length d < 2 ^ 16" by auto
  from ringbuffer_fifo [OF rb(2) this] show ?thesis using rb by auto
qed

text \<open>\<open>rt_ringbuffer_put_force\<close> always stores the data: afterwards the buffer holds the last bytes, as many
  as fit, of what it held before followed by the data.\<close>

theorem ringbuffer_put_force_keeps_newest:
  assumes "rb_wf rb" and "length ptr < 2 ^ 16"
  shows "\<exists>rb'. rt_ringbuffer_put_force rb ptr (length ptr) = Inr (min (cap rb) (length ptr), rb')
    \<and> rb_wf rb' \<and> cap rb' = cap rb
    \<and> contents rb' = (let all = contents rb @ ptr in drop (length all - cap rb) all)"
  using rt_ringbuffer_put_force_contents [OF assms(1) assms(2) refl] .

theorem ringbuffer_put_force_keeps_newest_witness:
  "\<exists>rb rb'. rt_ringbuffer_init (replicate 4 NUL) 4 = Inr rb
     \<and> rt_ringbuffer_put_force rb ''abcdef'' 6 = Inr (4, rb') \<and> contents rb' = ''cdef''"
proof -
  obtain rb where rb: "rt_ringbuffer_init (replicate 4 NUL) 4 = Inr rb" "rb_wf rb" "contents rb = []" "cap rb = 4"
    using rt_ringbuffer_init_wf [of 4 "replicate 4 NUL"] by auto
  have len: "length ''abcdef'' = 6" by simp
  show ?thesis
    using ringbuffer_put_force_keeps_newest [OF rb(2), of "''abcdef''", unfolded len] rb by auto
qed

text \<open>The byte routines \<open>rt_ringbuffer_putchar\<close> and \<open>rt_ringbuffer_putchar_force\<close> do exactly what the block
  routines do with one byte.\<close>

theorem ringbuffer_char_ops:
  assumes "rb_wf rb"
  shows "rt_ringbuffer_putchar rb c = rt_ringbuffer_put rb [c] 1
    \<and> rt_ringbuffer_putchar_force rb c = rt_ringbuffer_put_force rb [c] 1"
  using putchar_is_put [OF assms] putchar_force_is_put_force [OF assms] by simp

theorem ringbuffer_char_ops_witness:
  "\<exists>rb. rt_ringbuffer_init (replicate 4 NUL) 4 = Inr rb
     \<and> rt_ringbuffer_putchar rb CHR ''a'' = rt_ringbuffer_put rb ''a'' 1"
  using rt_ringbuffer_init_wf [of 4 "replicate 4 NUL"] ringbuffer_char_ops by fastforce

text \<open>\<open>rt_ringbuffer_peak\<close> is not a look-ahead: the bytes it points at are gone from the buffer.\<close>

theorem ringbuffer_peak_consumes:
  assumes "rb_wf rb" and "contents rb \<noteq> []"
  shows "\<exists>n rb'. rt_ringbuffer_peak rb = (n, Some (read_index rb), rb') \<and> 0 < n \<and> rb_wf rb'
    \<and> n = min (rt_ringbuffer_data_len rb) (cap rb - read_index rb) \<and> contents rb' = drop n (contents rb)"
  using assms by (rule rt_ringbuffer_peak_contents)

theorem ringbuffer_peak_consumes_witness:
  "\<exists>rb rb' n rb''. rt_ringbuffer_init (replicate 4 NUL) 4 = Inr rb \<and> rt_ringbuffer_put rb ''ab'' 2 = Inr (2, rb')
     \<and> contents rb' = ''ab'' \<and> rt_ringbuffer_peak rb' = (n, Some (read_index rb'), rb'')
     \<and> contents rb'' = drop n ''ab'' \<and> 0 < n"
proof -
  obtain rb where rb: "rt_ringbuffer_init (replicate 4 NUL) 4 = Inr rb" "rb_wf rb" "contents rb = []" "cap rb = 4"
    using rt_ringbuffer_init_wf [of 4 "replicate 4 NUL"] by auto
  have l: "rt_ringbuffer_data_len rb = 0" using rb(3) by (simp flip: length_contents)
  obtain rb' where rb': "rt_ringbuffer_put rb ''ab'' 2 = Inr (2, rb')" "rb_wf rb'" "contents rb' = ''ab''"
    using rt_ringbuffer_put_contents [OF rb(2), of 2 "''ab''"] rb l by auto
  then show ?thesis using ringbuffer_peak_consumes [OF rb'(2)] rb(1) by fastforce
qed

end
