(* ===== verification/Kernel.thy ===== *)
theory Kernel
  imports Prelude
begin

unbundle bit_operations_syntax

text \<open>
  Threads and the priority scheduler of \<^verbatim>\<open>rt-thread/src/scheduler.c\<close> and \<^verbatim>\<open>rt-thread/src/thread.c\<close>, for one
  CPU and 32 priorities, without signals. A thread is on at most one list (its \<open>tlist\<close> node): a
  ready list or the waiting list of a kernel object. At this level a list is the sequence of its
  threads; the operations on the nodes are those of the theory \<open>Klist\<close>. \<open>kinv\<close> is the invariant
  of the scheduler's data, and \<open>rt_schedule\<close> is shown to select the most urgent ready thread.
\<close>

section \<open>State\<close>

type_synonym tid = nat

datatype tstat = RT_THREAD_INIT | RT_THREAD_READY | RT_THREAD_SUSPEND | RT_THREAD_RUNNING | RT_THREAD_CLOSE

text \<open>\<open>stat\<close> is kept as its state and the yield bit; \<open>thread_timer\<close> holds the ticks the thread timer
  has been started with, if it is active.\<close>

record thread =
  stat :: tstat
  yield_flag :: bool
  current_priority :: nat
  terror :: int
  event_set :: u32
  event_info :: u8
  thread_timer :: "int option"

text \<open>The lists a thread can be on: \<open>rt_thread_priority_table[p]\<close>, the \<open>suspend_thread\<close> list of the kernel
  object with a number, and its \<open>suspend_sender_thread\<close> list.\<close>

datatype lid = ReadyQ nat | WaitQ nat | SenderQ nat

record kernel =
  threads :: "tid \<Rightarrow> thread"
  queues :: "lid \<Rightarrow> tid list"
  ready_group :: u32
  rt_current_thread :: tid
  lock_nest :: nat

abbreviation (input) RT_EOK :: int where "RT_EOK \<equiv> 0"
abbreviation (input) RT_ERROR :: int where "RT_ERROR \<equiv> 1"
abbreviation (input) RT_ETIMEOUT :: int where "RT_ETIMEOUT \<equiv> 2"
abbreviation (input) RT_EFULL :: int where "RT_EFULL \<equiv> 3"
abbreviation (input) RT_EINVAL :: int where "RT_EINVAL \<equiv> 10"

definition upd_thread :: "tid \<Rightarrow> (thread \<Rightarrow> thread) \<Rightarrow> kernel \<Rightarrow> kernel" where
  "upd_thread t f k = k\<lparr>threads := (threads k)(t := f (threads k t))\<rparr>"

definition number_mask :: "nat \<Rightarrow> u32" where
  "number_mask p = push_bit p 1"

text \<open>\<open>rt_list_remove(&thread->tlist)\<close>: off whatever list the thread is on.\<close>

definition unlink :: "tid \<Rightarrow> kernel \<Rightarrow> kernel" where
  "unlink t k = k\<lparr>queues := (\<lambda>l. removeAll t (queues k l))\<rparr>"

definition append_to :: "lid \<Rightarrow> tid \<Rightarrow> kernel \<Rightarrow> kernel" where
  "append_to l t k = k\<lparr>queues := (queues k)(l := queues k l @ [t])\<rparr>"

section \<open>Find first set\<close>

definition lowest_bit_row :: "nat \<Rightarrow> nat list" where
  "lowest_bit_row n = [n, 0, 1, 0, 2, 0, 1, 0, 3, 0, 1, 0, 2, 0, 1, 0]"

definition lowest_bit_bitmap :: "nat list" where
  "lowest_bit_bitmap = concat (map lowest_bit_row [0, 4, 5, 4, 6, 4, 5, 4, 7, 4, 5, 4, 6, 4, 5, 4])"

definition rt_ffs :: "u32 \<Rightarrow> nat" where
  "rt_ffs v =
     (if v = 0 then 0
      else if v AND 0xFF \<noteq> 0 then lowest_bit_bitmap ! unat (v AND 0xFF) + 1
      else if v AND 0xFF00 \<noteq> 0 then lowest_bit_bitmap ! unat (drop_bit 8 (v AND 0xFF00)) + 9
      else if v AND 0xFF0000 \<noteq> 0 then lowest_bit_bitmap ! unat (drop_bit 16 (v AND 0xFF0000)) + 17
      else lowest_bit_bitmap ! unat (drop_bit 24 (v AND 0xFF000000)) + 25)"

section \<open>Scheduler\<close>

definition rt_schedule_insert_thread :: "tid \<Rightarrow> kernel \<Rightarrow> kernel" where
  "rt_schedule_insert_thread t k =
     (if t = rt_current_thread k then upd_thread t (\<lambda>th. th\<lparr>stat := RT_THREAD_RUNNING\<rparr>) k
      else let k = upd_thread t (\<lambda>th. th\<lparr>stat := RT_THREAD_READY\<rparr>) k;
               p = current_priority (threads k t);
               k = append_to (ReadyQ p) t k
           in k\<lparr>ready_group := ready_group k OR number_mask p\<rparr>)"

definition rt_schedule_remove_thread :: "tid \<Rightarrow> kernel \<Rightarrow> kernel" where
  "rt_schedule_remove_thread t k =
     (let k = unlink t k; p = current_priority (threads k t)
      in if queues k (ReadyQ p) = [] then k\<lparr>ready_group := ready_group k AND NOT (number_mask p)\<rparr> else k)"

text \<open>\<open>_scheduler_get_highest_priority_thread\<close>: the thread and, through the pointer, its priority.\<close>

definition scheduler_get_highest_priority_thread :: "kernel \<Rightarrow> tid \<times> nat" where
  "scheduler_get_highest_priority_thread k =
     (let p = rt_ffs (ready_group k) - 1 in (hd (queues k (ReadyQ p)), p))"

definition rt_schedule :: "kernel \<Rightarrow> kernel" where
  "rt_schedule k =
     (if lock_nest k = 0 \<and> ready_group k \<noteq> 0
      then let (to_thread, highest) = scheduler_get_highest_priority_thread k;
               cur = rt_current_thread k;
               running = (stat (threads k cur) = RT_THREAD_RUNNING);
               keep = (running \<and> (current_priority (threads k cur) < highest
                       \<or> current_priority (threads k cur) = highest \<and> \<not> yield_flag (threads k cur)));
               need_insert_from_thread = (running \<and> \<not> keep);
               to_thread = (if keep then cur else to_thread);
               k = (if running then upd_thread cur (\<lambda>th. th\<lparr>yield_flag := False\<rparr>) k else k)
           in if to_thread \<noteq> cur
              then let k = k\<lparr>rt_current_thread := to_thread\<rparr>;
                       k = (if need_insert_from_thread then rt_schedule_insert_thread cur k else k);
                       k = rt_schedule_remove_thread to_thread k
                   in upd_thread to_thread (\<lambda>th. th\<lparr>stat := RT_THREAD_RUNNING\<rparr>) k
              else let k = rt_schedule_remove_thread cur k
                   in upd_thread cur (\<lambda>th. th\<lparr>stat := RT_THREAD_RUNNING\<rparr>) k
      else k)"

definition rt_enter_critical :: "kernel \<Rightarrow> kernel" where
  "rt_enter_critical k = k\<lparr>lock_nest := lock_nest k + 1\<rparr>"

definition rt_exit_critical :: "kernel \<Rightarrow> kernel" where
  "rt_exit_critical k =
     (let n = int (lock_nest k) - 1
      in if n \<le> 0 then rt_schedule (k\<lparr>lock_nest := 0\<rparr>) else k\<lparr>lock_nest := nat n\<rparr>)"

section \<open>Threads\<close>

definition rt_thread_suspend :: "tid \<Rightarrow> kernel \<Rightarrow> (int \<times> kernel) cres" where
  "rt_thread_suspend t k =
     cbind (rt_assert (t = rt_current_thread k)) (\<lambda>_.
       if stat (threads k t) \<noteq> RT_THREAD_READY \<and> stat (threads k t) \<noteq> RT_THREAD_RUNNING then Inr (- RT_ERROR, k)
       else Inr (RT_EOK, upd_thread t (\<lambda>th. th\<lparr>stat := RT_THREAD_SUSPEND, thread_timer := None\<rparr>)
                           (rt_schedule_remove_thread t k)))"

definition rt_thread_resume :: "tid \<Rightarrow> kernel \<Rightarrow> int \<times> kernel" where
  "rt_thread_resume t k =
     (if stat (threads k t) \<noteq> RT_THREAD_SUSPEND then (- RT_ERROR, k)
      else (RT_EOK, rt_schedule_insert_thread t (upd_thread t (\<lambda>th. th\<lparr>thread_timer := None\<rparr>) (unlink t k))))"

text \<open>\<open>_thread_timeout\<close>, the callback of the thread timer, which has expired.\<close>

definition thread_timeout :: "tid \<Rightarrow> kernel \<Rightarrow> kernel cres" where
  "thread_timeout t k =
     cbind (rt_assert (stat (threads k t) = RT_THREAD_SUSPEND)) (\<lambda>_.
       Inr (rt_schedule (rt_schedule_insert_thread t (unlink t
              (upd_thread t (\<lambda>th. th\<lparr>terror := - RT_ETIMEOUT, thread_timer := None\<rparr>) k)))))"

text \<open>\<open>rt_thread_control\<close> with \<open>RT_THREAD_CTRL_CHANGE_PRIORITY\<close>.\<close>

definition change_priority :: "tid \<Rightarrow> nat \<Rightarrow> kernel \<Rightarrow> kernel" where
  "change_priority t p k =
     (if stat (threads k t) = RT_THREAD_READY
      then rt_schedule_insert_thread t (upd_thread t (\<lambda>th. th\<lparr>current_priority := p\<rparr>) (rt_schedule_remove_thread t k))
      else upd_thread t (\<lambda>th. th\<lparr>current_priority := p\<rparr>) k)"

text \<open>\<open>rt_timer_control\<close> with \<open>RT_TIMER_CTRL_SET_TIME\<close>, which asserts that the time is below half of
  \<open>RT_TICK_MAX\<close>, and \<open>rt_timer_start\<close> on the thread timer.\<close>

definition start_thread_timer :: "tid \<Rightarrow> int \<Rightarrow> kernel \<Rightarrow> kernel cres" where
  "start_thread_timer t ticks k = cbind (rt_assert (ticks < 0x7FFFFFFF)) (\<lambda>_.
     Inr (upd_thread t (\<lambda>th. th\<lparr>thread_timer := Some ticks\<rparr>) k))"

definition rt_thread_yield :: "kernel \<Rightarrow> kernel" where
  "rt_thread_yield k = rt_schedule (upd_thread (rt_current_thread k) (\<lambda>th. th\<lparr>yield_flag := True\<rparr>) k)"

definition rt_thread_sleep :: "int \<Rightarrow> kernel \<Rightarrow> kernel cres" where
  "rt_thread_sleep ticks k =
     (let t = rt_current_thread k; k = upd_thread t (\<lambda>th. th\<lparr>terror := RT_EOK\<rparr>) k
      in cbind (rt_thread_suspend t k) (\<lambda>(_, k). cbind (start_thread_timer t ticks k) (\<lambda>k. Inr (rt_schedule k))))"

section \<open>The invariant\<close>

text \<open>
  \<open>kqx t k\<close>: every thread but \<open>t\<close> is where its state says it is, and \<open>t\<close> is on no list. \<open>kq\<close> is the
  same with no exception, \<open>kinv\<close> adds that at most the current thread is running.
\<close>

definition thread_ok :: "kernel \<Rightarrow> tid \<Rightarrow> bool" where
  "thread_ok k t \<longleftrightarrow> current_priority (threads k t) < 32
     \<and> (\<forall>p. t \<in> set (queues k (ReadyQ p)) \<longleftrightarrow> stat (threads k t) = RT_THREAD_READY \<and> current_priority (threads k t) = p)
     \<and> (\<forall>n. t \<in> set (queues k (WaitQ n)) \<or> t \<in> set (queues k (SenderQ n)) \<longrightarrow> stat (threads k t) = RT_THREAD_SUSPEND)"

definition lists_ok :: "kernel \<Rightarrow> bool" where
  "lists_ok k \<longleftrightarrow> (\<forall>l. distinct (queues k l))
     \<and> (\<forall>l l' t. t \<in> set (queues k l) \<longrightarrow> t \<in> set (queues k l') \<longrightarrow> l = l')
     \<and> (\<forall>p < 32. bit (ready_group k) p \<longleftrightarrow> queues k (ReadyQ p) \<noteq> [])"

definition kqx :: "tid \<Rightarrow> kernel \<Rightarrow> bool" where
  "kqx t k \<longleftrightarrow> lists_ok k \<and> (\<forall>u. u \<noteq> t \<longrightarrow> thread_ok k u) \<and> (\<forall>l. t \<notin> set (queues k l))"

definition kq :: "kernel \<Rightarrow> bool" where
  "kq k \<longleftrightarrow> lists_ok k \<and> (\<forall>t. thread_ok k t)"

definition kinv :: "kernel \<Rightarrow> bool" where
  "kinv k \<longleftrightarrow> kq k \<and> (\<forall>t. stat (threads k t) = RT_THREAD_RUNNING \<longrightarrow> t = rt_current_thread k)
     \<and> stat (threads k (rt_current_thread k)) \<noteq> RT_THREAD_READY"

abbreviation awake :: "kernel \<Rightarrow> tid \<Rightarrow> bool" where
  "awake k t \<equiv> stat (threads k t) \<noteq> RT_THREAD_SUSPEND"

lemma upd_thread_sel [simp]:
  "threads (upd_thread t f k) = (threads k)(t := f (threads k t))" "queues (upd_thread t f k) = queues k"
  "ready_group (upd_thread t f k) = ready_group k" "rt_current_thread (upd_thread t f k) = rt_current_thread k"
  "lock_nest (upd_thread t f k) = lock_nest k"
  by (simp_all add: upd_thread_def)

lemma unlink_sel [simp]:
  "threads (unlink t k) = threads k" "queues (unlink t k) = (\<lambda>l. removeAll t (queues k l))"
  "ready_group (unlink t k) = ready_group k" "rt_current_thread (unlink t k) = rt_current_thread k"
  "lock_nest (unlink t k) = lock_nest k"
  by (simp_all add: unlink_def)

lemma append_to_sel [simp]:
  "threads (append_to l t k) = threads k" "queues (append_to l t k) = (queues k)(l := queues k l @ [t])"
  "ready_group (append_to l t k) = ready_group k" "rt_current_thread (append_to l t k) = rt_current_thread k"
  "lock_nest (append_to l t k) = lock_nest k"
  by (simp_all add: append_to_def)

lemma bit_number_mask: "p < 32 \<Longrightarrow> q < 32 \<Longrightarrow> bit (number_mask p) q \<longleftrightarrow> p = q"
  by (auto simp: number_mask_def bit_exp_iff)

lemma bit_clear_mask: "p < 32 \<Longrightarrow> q < 32 \<Longrightarrow> bit (g AND NOT (number_mask p)) q \<longleftrightarrow> bit g q \<and> p \<noteq> q" for g :: u32
  by (simp add: bit_and_iff bit_not_iff bit_number_mask)

lemma bit_set_mask: "p < 32 \<Longrightarrow> q < 32 \<Longrightarrow> bit (g OR number_mask p) q \<longleftrightarrow> bit g q \<or> p = q" for g :: u32
  by (simp add: bit_or_iff bit_number_mask)

lemma kq_kqx: "kq k \<Longrightarrow> (\<forall>l. t \<notin> set (queues k l)) \<Longrightarrow> kqx t k"
  by (simp add: kq_def kqx_def)

lemma kqx_upd [simp]: "kqx t (upd_thread t f k) \<longleftrightarrow> kqx t k"
  by (simp add: kqx_def lists_ok_def thread_ok_def)

lemma kqx_kq:
  "kqx t k \<Longrightarrow> stat (threads k t) \<noteq> RT_THREAD_READY \<Longrightarrow> current_priority (threads k t) < 32 \<Longrightarrow> kq k"
  by (auto simp: kqx_def kq_def thread_ok_def)

lemma kq_priority: "kq k \<Longrightarrow> current_priority (threads k t) < 32"
  by (simp add: kq_def thread_ok_def)

lemma lists_ok_unlink:
  assumes "lists_ok k" "\<forall>p. t \<notin> set (queues k (ReadyQ p))"
  shows "lists_ok (unlink t k)"
  using assms by (auto simp: lists_ok_def distinct_removeAll)

lemma kqx_unlink:
  assumes "kq k" "stat (threads k t) \<noteq> RT_THREAD_READY"
  shows "kqx t (unlink t k)"
proof -
  have "\<forall>p. t \<notin> set (queues k (ReadyQ p))" using assms by (simp add: kq_def thread_ok_def)
  then have "lists_ok (unlink t k)" using assms(1) lists_ok_unlink by (simp add: kq_def)
  moreover have "\<forall>u. u \<noteq> t \<longrightarrow> thread_ok (unlink t k) u" using assms(1) by (simp add: kq_def thread_ok_def)
  ultimately show ?thesis by (simp add: kqx_def)
qed

lemma remove_thread_sel [simp]:
  "threads (rt_schedule_remove_thread t k) = threads k"
  "queues (rt_schedule_remove_thread t k) = (\<lambda>l. removeAll t (queues k l))"
  "rt_current_thread (rt_schedule_remove_thread t k) = rt_current_thread k"
  "lock_nest (rt_schedule_remove_thread t k) = lock_nest k"
  by (simp_all add: rt_schedule_remove_thread_def Let_def)

lemma remove_thread_group:
  "ready_group (rt_schedule_remove_thread t k) =
    (if removeAll t (queues k (ReadyQ (current_priority (threads k t)))) = []
     then ready_group k AND NOT (number_mask (current_priority (threads k t))) else ready_group k)"
  by (simp add: rt_schedule_remove_thread_def Let_def)

lemma kqx_remove:
  assumes kq: "kq k"
  shows "kqx t (rt_schedule_remove_thread t k)"
proof -
  let ?p = "current_priority (threads k t)"
  have p: "?p < 32" by (rule kq_priority [OF kq])
  have nt: "t \<notin> set (queues k (ReadyQ q))" if "q \<noteq> ?p" for q
    using kq that by (auto simp: kq_def thread_ok_def)
  have "bit (ready_group (rt_schedule_remove_thread t k)) q \<longleftrightarrow> removeAll t (queues k (ReadyQ q)) \<noteq> []" if q: "q < 32" for q
  proof (cases "q = ?p")
    case True
    then show ?thesis using kq q
      by (auto simp: remove_thread_group bit_clear_mask kq_def lists_ok_def)
  next
    case False
    then show ?thesis using kq q p nt [OF False]
      by (simp add: remove_thread_group bit_clear_mask kq_def lists_ok_def)
  qed
  then have "lists_ok (rt_schedule_remove_thread t k)"
    using kq by (auto simp: kq_def lists_ok_def distinct_removeAll)
  moreover have "\<forall>u. u \<noteq> t \<longrightarrow> thread_ok (rt_schedule_remove_thread t k) u"
    using kq by (simp add: kq_def thread_ok_def)
  ultimately show ?thesis by (simp add: kqx_def)
qed

lemma insert_thread_sel [simp]:
  "rt_current_thread (rt_schedule_insert_thread t k) = rt_current_thread k"
  "lock_nest (rt_schedule_insert_thread t k) = lock_nest k"
  "threads (rt_schedule_insert_thread t k) = (threads k)(t := (threads k t)\<lparr>stat :=
     (if t = rt_current_thread k then RT_THREAD_RUNNING else RT_THREAD_READY)\<rparr>)"
  by (simp_all add: rt_schedule_insert_thread_def Let_def)

lemma kq_insert:
  assumes kx: "kqx t k" and p: "current_priority (threads k t) < 32"
  shows "kq (rt_schedule_insert_thread t k)"
proof (cases "t = rt_current_thread k")
  case True
  then have "rt_schedule_insert_thread t k = upd_thread t (\<lambda>th. th\<lparr>stat := RT_THREAD_RUNNING\<rparr>) k"
    by (simp add: rt_schedule_insert_thread_def)
  then show ?thesis using kx p by (intro kqx_kq [of t]) simp_all
next
  case False
  let ?k = "rt_schedule_insert_thread t k" and ?p = "current_priority (threads k t)"
  have q: "queues ?k = (queues k)(ReadyQ ?p := queues k (ReadyQ ?p) @ [t])"
    and g: "ready_group ?k = ready_group k OR number_mask ?p"
    using False by (simp_all add: rt_schedule_insert_thread_def Let_def)
  have nt: "t \<notin> set (queues k l)" for l using kx by (simp add: kqx_def)
  have lk: "lists_ok k" using kx by (simp add: kqx_def)
  have "lists_ok ?k"
    unfolding lists_ok_def
  proof (intro conjI allI impI)
    fix l show "distinct (queues ?k l)" using lk nt by (auto simp: q lists_ok_def)
  next
    fix l l' u assume "u \<in> set (queues ?k l)" "u \<in> set (queues ?k l')"
    then show "l = l'" using lk nt by (auto simp: q lists_ok_def split: if_splits)
  next
    fix r :: nat assume "r < 32"
    then show "bit (ready_group ?k) r \<longleftrightarrow> queues ?k (ReadyQ r) \<noteq> []"
      using lk p by (auto simp: q g bit_set_mask lists_ok_def)
  qed
  moreover have "thread_ok ?k t" using False p nt by (auto simp: thread_ok_def q)
  moreover have "thread_ok ?k u" if "u \<noteq> t" for u
    using kx that by (auto simp: kqx_def thread_ok_def q)
  ultimately show ?thesis unfolding kq_def by metis
qed

section \<open>The lowest set bit\<close>

lemma nth_concat_rows:
  assumes "\<And>x. length (f x) = n" "l < n" "h < length xs"
  shows "concat (map f xs) ! (n * h + l) = f (xs ! h) ! l"
  using assms(2,3)
proof (induction xs arbitrary: h)
  case (Cons x xs)
  show ?case
  proof (cases h)
    case 0
    then show ?thesis using assms(1,2) by (simp add: nth_append)
  next
    case (Suc h')
    have "\<not> n * h + l < n" using Suc by simp
    then show ?thesis using Suc Cons assms(1) by (simp add: nth_append)
  qed
qed simp

lemma less_16_cases:
  "(l :: nat) < 16 \<Longrightarrow> l \<in> {0, 1, 2, 3, 4, 5, 6, 7, 8, 9, 10, 11, 12, 13, 14, 15}"
  unfolding insert_iff empty_iff by presburger

text \<open>\<open>p\<close> is the lowest set bit of \<open>b\<close>.\<close>

definition lowest_bit :: "nat \<Rightarrow> nat \<Rightarrow> bool" where
  "lowest_bit b p \<longleftrightarrow> b mod 2 ^ Suc p = 2 ^ p"

lemma lowest_bit_bits: "lowest_bit b p \<Longrightarrow> bit b p \<and> (\<forall>q < p. \<not> bit b q)"
proof -
  assume "lowest_bit b p"
  then have "take_bit (Suc p) b = 2 ^ p" by (simp add: lowest_bit_def take_bit_eq_mod)
  then have "q < Suc p \<and> bit b q \<longleftrightarrow> p = q" for q
    by (metis bit_exp_iff bit_take_bit_iff possible_bit_nat)
  then show ?thesis by (metis lessI less_SucI less_irrefl_nat)
qed

lemma lowest_bit_row_low: "l < 16 \<Longrightarrow> l \<noteq> 0 \<Longrightarrow> lowest_bit_row n ! l < 4 \<and> lowest_bit l (lowest_bit_row n ! l)"
  using less_16_cases [of l] by (auto simp: lowest_bit_row_def lowest_bit_def)

lemma lowest_bit_bitmap_byte:
  assumes b: "0 < b" "b < 256"
  shows "lowest_bit_bitmap ! b < 8 \<and> lowest_bit b (lowest_bit_bitmap ! b)"
proof -
  let ?hs = "[0, 4, 5, 4, 6, 4, 5, 4, 7, 4, 5, 4, 6, 4, 5, 4] :: nat list"
  define h l where "h = b div 16" and "l = b mod 16"
  have hl: "b = 16 * h + l" "h < 16" "l < 16" using b(2) by (auto simp: h_def l_def)
  have e: "lowest_bit_bitmap ! b = lowest_bit_row (?hs ! h) ! l"
    unfolding lowest_bit_bitmap_def hl(1) using hl(2,3)
    by (intro nth_concat_rows) (simp_all add: lowest_bit_row_def)
  show ?thesis
  proof (cases "l = 0")
    case True
    then have h: "h \<noteq> 0" using b hl by simp
    then obtain p where p: "?hs ! h = 4 + p" "p < 4" "lowest_bit h p"
      using less_16_cases [OF hl(2)] by (auto simp: lowest_bit_def)
    have "(16 * h) mod (16 * 2 ^ Suc p) = 16 * (h mod 2 ^ Suc p)" by (rule mult_mod_right [symmetric])
    then have "lowest_bit (16 * h) (4 + p)" using p(3) by (simp add: lowest_bit_def power_add)
    then show ?thesis using e p True hl by (simp add: lowest_bit_row_def)
  next
    case False
    let ?p = "lowest_bit_row (?hs ! h) ! l"
    have p: "?p < 4" "lowest_bit l ?p" using lowest_bit_row_low [OF hl(3) False] by auto
    have "(2 :: nat) ^ Suc ?p dvd 2 ^ 4" using p(1) by (intro le_imp_power_dvd) simp
    then have "(2 :: nat) ^ Suc ?p dvd 16 * h" by simp
    then obtain c where "16 * h = 2 ^ Suc ?p * c" by (rule dvdE)
    then have "(16 * h + l) mod 2 ^ Suc ?p = l mod 2 ^ Suc ?p" by (simp only: mod_mult_self4)
    then have "lowest_bit b ?p" using p(2) unfolding lowest_bit_def hl(1) by simp
    then show ?thesis using p(1) e by simp
  qed
qed

text \<open>One byte of a word, as the code extracts it.\<close>

lemma byte_mask:
  "(0xFF :: u32) = mask 8" "(0xFF00 :: u32) = push_bit 8 (mask 8)" "(0xFF0000 :: u32) = push_bit 16 (mask 8)"
  "(0xFF000000 :: u32) = push_bit 24 (mask 8)"
  by (simp_all add: mask_eq_exp_minus_1 push_bit_eq_mult)

lemma byte_ffs:
  fixes v :: u32
  assumes s: "s \<le> 24" and ne: "v AND push_bit s (mask 8) \<noteq> 0" and below: "\<forall>q < s. \<not> bit v q"
    and p: "p = lowest_bit_bitmap ! unat (drop_bit s (v AND push_bit s (mask 8)))"
  shows "p + s < 32 \<and> bit v (p + s) \<and> (\<forall>q < p + s. \<not> bit v q)"
proof -
  define b where "b = drop_bit s (v AND push_bit s (mask 8))"
  have bits: "bit b i \<longleftrightarrow> i < 8 \<and> bit v (s + i)" for i
    using s by (auto simp: b_def bit_drop_bit_eq bit_and_iff bit_push_bit_iff bit_mask_iff)
  obtain n where n: "bit (v AND push_bit s (mask 8)) n" using ne bit_eqI [of "v AND push_bit s (mask 8)" 0] by auto
  then have "s \<le> n" "n - s < 8" "bit v n" by (auto simp: bit_and_iff bit_push_bit_iff bit_mask_iff)
  then have "bit b (n - s)" using bits by simp
  then have nz: "b \<noteq> 0" by auto
  have "b = take_bit 8 b" using bits by (intro bit_eqI) (auto simp: bit_take_bit_iff)
  then have "unat b = take_bit 8 (unat b)" by (metis unsigned_take_bit_eq)
  then have lt: "unat b < 256" using take_bit_nat_less_exp [of 8 "unat b"] by simp
  have "0 < unat b" using nz by (simp add: unat_gt_0)
  from lowest_bit_bitmap_byte [OF this lt] have lb: "p < 8" "lowest_bit (unat b) p"
    using p by (auto simp: b_def)
  then have "bit b p" "\<forall>q < p. \<not> bit b q" using lowest_bit_bits [OF lb(2)] by (auto simp: bit_unsigned_iff)
  then have "bit v (s + p)" "\<forall>q < p. \<not> bit v (s + q)" using bits lb(1) by auto
  moreover have "\<not> bit v q" if "q < p + s" for q
  proof (cases "q < s")
    case False
    then have "q - s < p" "s + (q - s) = q" using that by auto
    then show ?thesis using calculation(2) by metis
  qed (use below in simp)
  ultimately show ?thesis using s lb(1) by (simp add: add.commute)
qed

lemma no_byte_bits: "v AND push_bit s (mask 8) = 0 \<Longrightarrow> s \<le> q \<Longrightarrow> q < s + 8 \<Longrightarrow> q < 32 \<Longrightarrow> \<not> bit v q" for v :: u32
proof
  assume z: "v AND push_bit s (mask 8) = 0" and q: "s \<le> q" "q < s + 8" "q < 32" "bit v q"
  from q have "bit (v AND push_bit s (mask 8)) q" by (auto simp: bit_and_iff bit_push_bit_iff bit_mask_iff)
  then show False using z by simp
qed

lemma rt_ffs_lowest:
  assumes "v \<noteq> 0"
  shows "\<exists>p < 32. rt_ffs v = p + 1 \<and> bit v p \<and> (\<forall>q < p. \<not> bit v q)"
proof -
  have b0: "v AND 0xFF = v AND push_bit 0 (mask 8)" by (simp add: byte_mask(1))
  note m = byte_mask(2-4)
  consider (0) "v AND 0xFF \<noteq> 0" | (1) "v AND 0xFF = 0" "v AND 0xFF00 \<noteq> 0"
    | (2) "v AND 0xFF = 0" "v AND 0xFF00 = 0" "v AND 0xFF0000 \<noteq> 0"
    | (3) "v AND 0xFF = 0" "v AND 0xFF00 = 0" "v AND 0xFF0000 = 0" by blast
  then show ?thesis
  proof cases
    case 0
    then have "rt_ffs v = lowest_bit_bitmap ! unat (drop_bit 0 (v AND push_bit 0 (mask 8))) + 0 + 1"
      using assms by (simp add: rt_ffs_def b0)
    then show ?thesis using byte_ffs [OF _ _ _ refl, of 0 v] 0 by (auto simp: b0)
  next
    case 1
    have "\<forall>q < 8. \<not> bit v q" using 1(1) no_byte_bits [of v 0] by (simp add: b0)
    moreover have "rt_ffs v = lowest_bit_bitmap ! unat (drop_bit 8 (v AND push_bit 8 (mask 8))) + 8 + 1"
      using assms 1 by (simp add: rt_ffs_def m)
    ultimately show ?thesis using byte_ffs [OF _ _ _ refl, of 8 v] 1(2) unfolding m by fastforce
  next
    case 2
    have "\<not> bit v q" if "q < 16" for q
      using that 2 no_byte_bits [of v 0 q] no_byte_bits [of v 8 q] by (cases "q < 8") (auto simp: b0 m)
    moreover have "rt_ffs v = lowest_bit_bitmap ! unat (drop_bit 16 (v AND push_bit 16 (mask 8))) + 16 + 1"
      using assms 2 by (simp add: rt_ffs_def m)
    ultimately show ?thesis using byte_ffs [OF _ _ _ refl, of 16 v] 2(3) unfolding m by fastforce
  next
    case 3
    have below: "\<not> bit v q" if "q < 24" for q
      using that 3 no_byte_bits [of v 0 q] no_byte_bits [of v 8 q] no_byte_bits [of v 16 q]
      by (cases "q < 8"; cases "q < 16") (auto simp: b0 m)
    obtain n where n: "bit v n" using assms bit_eqI [of v 0] by auto
    then have "n < 32" "24 \<le> n" using below bit_imp_le_length [of v n] by (auto simp: not_less [symmetric])
    then have "v AND push_bit 24 (mask 8) \<noteq> 0" using n no_byte_bits [of v 24 n] by auto
    moreover have "rt_ffs v = lowest_bit_bitmap ! unat (drop_bit 24 (v AND push_bit 24 (mask 8))) + 24 + 1"
      using assms 3 by (simp add: rt_ffs_def m)
    ultimately show ?thesis using byte_ffs [OF _ _ _ refl, of 24 v] below by fastforce
  qed
qed

section \<open>The scheduler selects the most urgent thread\<close>

lemma ready_group_nonzero: "lists_ok k \<Longrightarrow> ready_group k \<noteq> 0 \<Longrightarrow>
    \<exists>p < 32. scheduler_get_highest_priority_thread k = (hd (queues k (ReadyQ p)), p)
      \<and> queues k (ReadyQ p) \<noteq> [] \<and> (\<forall>q < p. queues k (ReadyQ q) = [])"
proof -
  assume k: "lists_ok k" "ready_group k \<noteq> 0"
  then obtain p where p: "p < 32" "rt_ffs (ready_group k) = p + 1" "bit (ready_group k) p" "\<forall>q < p. \<not> bit (ready_group k) q"
    using rt_ffs_lowest by blast
  then show ?thesis
    using k(1) by (intro exI [of _ p]) (auto simp: scheduler_get_highest_priority_thread_def lists_ok_def)
qed

lemma kq_ready: "kq k \<Longrightarrow> t \<in> set (queues k (ReadyQ p)) \<longleftrightarrow> stat (threads k t) = RT_THREAD_READY \<and> current_priority (threads k t) = p"
  by (simp add: kq_def thread_ok_def)

lemma kq_cong: "threads k' = threads k \<Longrightarrow> queues k' = queues k \<Longrightarrow> ready_group k' = ready_group k \<Longrightarrow> kq k' = kq k"
  by (simp add: kq_def lists_ok_def thread_ok_def)

lemma kqx_cong: "threads k' = threads k \<Longrightarrow> queues k' = queues k \<Longrightarrow> ready_group k' = ready_group k \<Longrightarrow> kqx t k' = kqx t k"
  by (simp add: kqx_def lists_ok_def thread_ok_def)

lemma kq_upd:
  assumes "kq k" "stat (f (threads k t)) = stat (threads k t)" "current_priority (f (threads k t)) = current_priority (threads k t)"
  shows "kq (upd_thread t f k)"
  using assms by (simp add: kq_def lists_ok_def thread_ok_def)

lemma kinv_upd:
  assumes "kinv k" "stat (f (threads k t)) = stat (threads k t)" "current_priority (f (threads k t)) = current_priority (threads k t)"
  shows "kinv (upd_thread t f k)"
proof -
  have "stat (threads (upd_thread t f k) u) = stat (threads k u)" for u using assms(2) by simp
  moreover have "kq (upd_thread t f k)" using assms kq_upd [of k f t] by (simp add: kinv_def)
  ultimately show ?thesis using assms(1) unfolding kinv_def upd_thread_sel(4) by simp
qed

text \<open>Making a thread the running one.\<close>

definition switch_to :: "tid \<Rightarrow> kernel \<Rightarrow> kernel" where
  "switch_to t k = upd_thread t (\<lambda>th. th\<lparr>stat := RT_THREAD_RUNNING\<rparr>) (rt_schedule_remove_thread t k)"

lemma kq_switch_to: "kq k \<Longrightarrow> kq (switch_to t k)"
  unfolding switch_to_def using kqx_remove [of k t] kq_priority [of k t]
  by (intro kqx_kq [of t]) simp_all

lemma rt_schedule_cases:
  assumes "lists_ok k" "lock_nest k = 0" "ready_group k \<noteq> 0"
  obtains p c where "p < 32" "c = rt_current_thread k" "queues k (ReadyQ p) \<noteq> []" "\<forall>q < p. queues k (ReadyQ q) = []"
    "rt_schedule k =
      (let running = (stat (threads k c) = RT_THREAD_RUNNING);
           keep = (running \<and> (current_priority (threads k c) < p \<or> current_priority (threads k c) = p \<and> \<not> yield_flag (threads k c)));
           t = (if keep then c else hd (queues k (ReadyQ p)));
           k = (if running then upd_thread c (\<lambda>th. th\<lparr>yield_flag := False\<rparr>) k else k)
       in if t \<noteq> c
          then switch_to t (let k = k\<lparr>rt_current_thread := t\<rparr> in if running then rt_schedule_insert_thread c k else k)
          else switch_to c k)"
proof -
  obtain p where p: "p < 32" "scheduler_get_highest_priority_thread k = (hd (queues k (ReadyQ p)), p)"
    "queues k (ReadyQ p) \<noteq> []" "\<forall>q < p. queues k (ReadyQ q) = []"
    using ready_group_nonzero [OF assms(1,3)] by blast
  show thesis
    by (rule that [OF p(1) refl p(3,4)]) (use assms(2,3) p(2) in \<open>auto simp: rt_schedule_def Let_def switch_to_def\<close>)
qed

lemma switch_to_sel [simp]:
  "threads (switch_to t k) = (threads k)(t := (threads k t)\<lparr>stat := RT_THREAD_RUNNING\<rparr>)"
  "queues (switch_to t k) = (\<lambda>l. removeAll t (queues k l))"
  "rt_current_thread (switch_to t k) = rt_current_thread k" "lock_nest (switch_to t k) = lock_nest k"
  by (simp_all add: switch_to_def)

text \<open>What a scheduling step leaves alone: everything of a thread but its state and yield flag, and the
  waiting lists.\<close>

definition same_but_sched :: "kernel \<Rightarrow> kernel \<Rightarrow> bool" where
  "same_but_sched k k' \<longleftrightarrow>
     (\<forall>t. \<exists>s y. threads k' t = (threads k t)\<lparr>stat := s, yield_flag := y\<rparr>
          \<and> (if stat (threads k t) \<in> {RT_THREAD_READY, RT_THREAD_RUNNING}
             then s \<in> {RT_THREAD_READY, RT_THREAD_RUNNING} else s = stat (threads k t)))
     \<and> (\<forall>n. queues k' (WaitQ n) = queues k (WaitQ n) \<and> queues k' (SenderQ n) = queues k (SenderQ n))
     \<and> lock_nest k' = lock_nest k"

lemma waiting_not_ready:
  "kq k \<Longrightarrow> stat (threads k t) \<noteq> RT_THREAD_SUSPEND \<Longrightarrow> t \<notin> set (queues k (WaitQ n)) \<and> t \<notin> set (queues k (SenderQ n))"
  by (auto simp: kq_def thread_ok_def)

lemma same_but_schedI:
  assumes "\<And>t. threads k' t = (threads k t)\<lparr>stat := s t, yield_flag := y t\<rparr>"
    and "\<And>t. if stat (threads k t) \<in> {RT_THREAD_READY, RT_THREAD_RUNNING}
             then s t \<in> {RT_THREAD_READY, RT_THREAD_RUNNING} else s t = stat (threads k t)"
    and "\<And>n. queues k' (WaitQ n) = queues k (WaitQ n)" "\<And>n. queues k' (SenderQ n) = queues k (SenderQ n)"
    and "lock_nest k' = lock_nest k"
  shows "same_but_sched k k'"
  unfolding same_but_sched_def using assms by metis

lemma same_but_schedD:
  assumes "same_but_sched k k'"
  shows "terror (threads k' t) = terror (threads k t)" "current_priority (threads k' t) = current_priority (threads k t)"
    "event_set (threads k' t) = event_set (threads k t)" "event_info (threads k' t) = event_info (threads k t)"
    "thread_timer (threads k' t) = thread_timer (threads k t)"
    "stat (threads k t) = RT_THREAD_SUSPEND \<longleftrightarrow> stat (threads k' t) = RT_THREAD_SUSPEND"
    "queues k' (WaitQ n) = queues k (WaitQ n)" "queues k' (SenderQ n) = queues k (SenderQ n)" "lock_nest k' = lock_nest k"
proof -
  obtain s y where "threads k' t = (threads k t)\<lparr>stat := s, yield_flag := y\<rparr>"
    "if stat (threads k t) \<in> {RT_THREAD_READY, RT_THREAD_RUNNING}
     then s \<in> {RT_THREAD_READY, RT_THREAD_RUNNING} else s = stat (threads k t)"
    using assms unfolding same_but_sched_def by blast
  then show "terror (threads k' t) = terror (threads k t)" "current_priority (threads k' t) = current_priority (threads k t)"
    "event_set (threads k' t) = event_set (threads k t)" "event_info (threads k' t) = event_info (threads k t)"
    "thread_timer (threads k' t) = thread_timer (threads k t)"
    "stat (threads k t) = RT_THREAD_SUSPEND \<longleftrightarrow> stat (threads k' t) = RT_THREAD_SUSPEND"
    by (auto split: if_splits)
  show "queues k' (WaitQ n) = queues k (WaitQ n)" "queues k' (SenderQ n) = queues k (SenderQ n)" "lock_nest k' = lock_nest k"
    using assms unfolding same_but_sched_def by auto
qed

text \<open>The three ways a scheduling step can go.\<close>

lemma schedule_keep:
  assumes inv: "kinv k" and c: "c = rt_current_thread k" and run: "stat (threads k c) = RT_THREAD_RUNNING"
  shows "kinv (switch_to c (upd_thread c (\<lambda>th. th\<lparr>yield_flag := False\<rparr>) k))"
    "same_but_sched k (switch_to c (upd_thread c (\<lambda>th. th\<lparr>yield_flag := False\<rparr>) k))"
proof -
  let ?k = "upd_thread c (\<lambda>th. th\<lparr>yield_flag := False\<rparr>) k"
  have kq: "kq k" using inv by (simp add: kinv_def)
  then have "kq (switch_to c ?k)" by (intro kq_switch_to kq_upd) simp_all
  then show "kinv (switch_to c ?k)" using inv c run by (auto simp: kinv_def)
  have "threads (switch_to c ?k) t = (threads k t)\<lparr>stat := stat (threads k t), yield_flag := (if t = c then False else yield_flag (threads k t))\<rparr>" for t
    using run by simp
  then show "same_but_sched k (switch_to c ?k)"
    by (rule same_but_schedI) (use waiting_not_ready [OF kq, of c] run in \<open>simp_all add: removeAll_id\<close>)
qed

lemma schedule_switch:
  assumes inv: "kinv k" and c: "c = rt_current_thread k" and t: "stat (threads k t) = RT_THREAD_READY"
    and k1: "k1 = (if stat (threads k c) = RT_THREAD_RUNNING
      then rt_schedule_insert_thread c ((upd_thread c (\<lambda>th. th\<lparr>yield_flag := False\<rparr>) k)\<lparr>rt_current_thread := t\<rparr>)
      else k\<lparr>rt_current_thread := t\<rparr>)"
  shows "kinv (switch_to t k1)" "same_but_sched k (switch_to t k1)" "rt_current_thread (switch_to t k1) = t"
    "\<And>u. stat (threads (switch_to t k1) u) = RT_THREAD_READY \<Longrightarrow> stat (threads k u) = RT_THREAD_READY
        \<or> u = c \<and> stat (threads k c) = RT_THREAD_RUNNING"
proof -
  have kq: "kq k" and cr: "stat (threads k c) \<noteq> RT_THREAD_READY" using inv c by (auto simp: kinv_def)
  have ct: "c \<noteq> t" using t cr by auto
  show cur: "rt_current_thread (switch_to t k1) = t" by (simp add: k1)
  let ?y = "upd_thread c (\<lambda>th. th\<lparr>yield_flag := False\<rparr>) k"
  have th: "threads k1 = (if stat (threads k c) = RT_THREAD_RUNNING
      then (threads k)(c := (threads k c)\<lparr>stat := RT_THREAD_READY, yield_flag := False\<rparr>) else threads k)"
    using ct by (auto simp: k1)
  have kq1: "kq k1"
  proof (cases "stat (threads k c) = RT_THREAD_RUNNING")
    case True
    have "\<forall>l. c \<notin> set (queues k l)"
    proof
      fix l show "c \<notin> set (queues k l)"
        using kq True waiting_not_ready [OF kq, of c] by (cases l) (auto simp: kq_ready)
    qed
    then have "kqx c (?y\<lparr>rt_current_thread := t\<rparr>)"
      using kq_kqx [OF kq] kqx_cong [of "?y\<lparr>rt_current_thread := t\<rparr>" ?y] by simp
    then show ?thesis using True kq_priority [OF kq, of c] by (auto simp: k1 intro: kq_insert)
  next
    case False
    then show ?thesis using kq kq_cong [of "k\<lparr>rt_current_thread := t\<rparr>" k] by (simp add: k1)
  qed
  then have kq2: "kq (switch_to t k1)" by (rule kq_switch_to)
  have run: "stat (threads k u) = RT_THREAD_RUNNING \<Longrightarrow> u = c" for u using inv c by (auto simp: kinv_def)
  have only: "u = t" if "stat (threads (switch_to t k1) u) = RT_THREAD_RUNNING" for u
  proof (rule ccontr)
    assume "u \<noteq> t"
    then have "stat (threads k1 u) = RT_THREAD_RUNNING" using that by simp
    then show False using run [of u] by (cases "u = c") (simp_all add: th split: if_splits)
  qed
  show "kinv (switch_to t k1)"
    unfolding kinv_def cur
  proof (intro conjI allI impI)
    show "kq (switch_to t k1)" by (rule kq2)
    show "u = t" if "stat (threads (switch_to t k1) u) = RT_THREAD_RUNNING" for u using that by (rule only)
  qed simp
  show "\<And>u. stat (threads (switch_to t k1) u) = RT_THREAD_READY \<Longrightarrow> stat (threads k u) = RT_THREAD_READY
        \<or> u = c \<and> stat (threads k c) = RT_THREAD_RUNNING"
    by (auto simp: th split: if_splits)
  have q: "queues k1 (WaitQ n) = queues k (WaitQ n)" "queues k1 (SenderQ n) = queues k (SenderQ n)" "lock_nest k1 = lock_nest k" for n
    by (auto simp: k1 rt_schedule_insert_thread_def Let_def)
  have tw: "t \<notin> set (queues k (WaitQ n)) \<and> t \<notin> set (queues k (SenderQ n))" for n
    using waiting_not_ready [OF kq, of t] t by simp
  have "threads (switch_to t k1) u = (threads k u)\<lparr>stat := (if u = t then RT_THREAD_RUNNING else stat (threads k1 u)),
      yield_flag := yield_flag (threads k1 u)\<rparr>" for u
    by (auto simp: th)
  moreover have "if stat (threads k u) \<in> {RT_THREAD_READY, RT_THREAD_RUNNING}
      then (if u = t then RT_THREAD_RUNNING else stat (threads k1 u)) \<in> {RT_THREAD_READY, RT_THREAD_RUNNING}
      else (if u = t then RT_THREAD_RUNNING else stat (threads k1 u)) = stat (threads k u)" for u
    using t by (auto simp: th)
  ultimately show "same_but_sched k (switch_to t k1)"
    by (rule same_but_schedI) (use q tw in \<open>simp_all add: removeAll_id\<close>)
qed

lemma ready_nonempty: "kq k \<Longrightarrow> stat (threads k t) = RT_THREAD_READY \<Longrightarrow> ready_group k \<noteq> 0"
proof
  assume kq: "kq k" and t: "stat (threads k t) = RT_THREAD_READY" and z: "ready_group k = 0"
  have "t \<in> set (queues k (ReadyQ (current_priority (threads k t))))" using kq t by (simp add: kq_ready)
  then have "bit (ready_group k) (current_priority (threads k t))"
    using kq kq_priority [OF kq, of t] by (auto simp: kq_def lists_ok_def)
  then show False using z by simp
qed

lemma rt_schedule_correct:
  assumes inv: "kinv k"
  shows "kinv (rt_schedule k)" "same_but_sched k (rt_schedule k)"
    "lock_nest k = 0 \<Longrightarrow> ready_group k \<noteq> 0 \<or> stat (threads k (rt_current_thread k)) = RT_THREAD_RUNNING \<Longrightarrow>
      stat (threads (rt_schedule k) (rt_current_thread (rt_schedule k))) = RT_THREAD_RUNNING
      \<and> (\<forall>t. stat (threads (rt_schedule k) t) = RT_THREAD_READY \<longrightarrow>
           current_priority (threads k (rt_current_thread (rt_schedule k))) \<le> current_priority (threads k t))"
proof -
  let ?c = "rt_current_thread k"
  have kq: "kq k" using inv by (simp add: kinv_def)
  have "kinv (rt_schedule k) \<and> same_but_sched k (rt_schedule k) \<and>
    (lock_nest k = 0 \<longrightarrow> ready_group k \<noteq> 0 \<or> stat (threads k ?c) = RT_THREAD_RUNNING \<longrightarrow>
      stat (threads (rt_schedule k) (rt_current_thread (rt_schedule k))) = RT_THREAD_RUNNING
      \<and> (\<forall>t. stat (threads (rt_schedule k) t) = RT_THREAD_READY \<longrightarrow>
           current_priority (threads k (rt_current_thread (rt_schedule k))) \<le> current_priority (threads k t)))"
  proof (cases "lock_nest k = 0 \<and> ready_group k \<noteq> 0")
    case False
    have "same_but_sched k k" by (rule same_but_schedI [where s = "\<lambda>t. stat (threads k t)" and y = "\<lambda>t. yield_flag (threads k t)"]) simp_all
    moreover have "rt_schedule k = k" unfolding rt_schedule_def using False by (rule if_not_P)
    ultimately show ?thesis using False inv ready_nonempty [OF kq] by auto
  next
    case True
    have "lists_ok k" using kq by (simp add: kq_def)
    then obtain p c where p: "p < 32" "c = ?c" "queues k (ReadyQ p) \<noteq> []" "\<forall>q < p. queues k (ReadyQ q) = []"
      and sch: "rt_schedule k =
      (let running = (stat (threads k c) = RT_THREAD_RUNNING);
           keep = (running \<and> (current_priority (threads k c) < p \<or> current_priority (threads k c) = p \<and> \<not> yield_flag (threads k c)));
           t = (if keep then c else hd (queues k (ReadyQ p)));
           k = (if running then upd_thread c (\<lambda>th. th\<lparr>yield_flag := False\<rparr>) k else k)
       in if t \<noteq> c
          then switch_to t (let k = k\<lparr>rt_current_thread := t\<rparr> in if running then rt_schedule_insert_thread c k else k)
          else switch_to c k)"
      using True by (elim rt_schedule_cases) auto
    have least: "p \<le> current_priority (threads k t)" if "stat (threads k t) = RT_THREAD_READY" for t
      using that p(4) kq kq_ready [OF kq, of t "current_priority (threads k t)"]
      by (metis leI list.set(1) empty_iff)
    let ?t = "hd (queues k (ReadyQ p))"
    have t: "stat (threads k ?t) = RT_THREAD_READY" "current_priority (threads k ?t) = p"
      using kq_ready [OF kq, of ?t p] p(3) by auto
    have ct: "?t \<noteq> c" using t(1) inv p(2) by (auto simp: kinv_def)
    show ?thesis
    proof (cases "stat (threads k c) = RT_THREAD_RUNNING \<and>
        (current_priority (threads k c) < p \<or> current_priority (threads k c) = p \<and> \<not> yield_flag (threads k c))")
      case keep: True
      then have run: "stat (threads k c) = RT_THREAD_RUNNING" by blast
      define k1 where "k1 = switch_to c (upd_thread c (\<lambda>th. th\<lparr>yield_flag := False\<rparr>) k)"
      have sw: "rt_schedule k = k1"
        unfolding sch Let_def k1_def using keep by simp
      have "current_priority (threads k c) \<le> current_priority (threads k u)" if "stat (threads k1 u) = RT_THREAD_READY" for u
      proof -
        have "stat (threads k u) = RT_THREAD_READY" using that by (auto simp: k1_def split: if_splits)
        then show ?thesis using least [of u] keep by auto
      qed
      moreover have "rt_current_thread k1 = c" "stat (threads k1 c) = RT_THREAD_RUNNING" using p(2) by (simp_all add: k1_def)
      ultimately show ?thesis
        unfolding sw using schedule_keep [OF inv p(2) run] by (simp flip: k1_def)
    next
      case nokeep: False
      define k1 where "k1 = (if stat (threads k c) = RT_THREAD_RUNNING
        then rt_schedule_insert_thread c ((upd_thread c (\<lambda>th. th\<lparr>yield_flag := False\<rparr>) k)\<lparr>rt_current_thread := ?t\<rparr>)
        else k\<lparr>rt_current_thread := ?t\<rparr>)"
      have sw: "rt_schedule k = switch_to ?t k1"
        unfolding sch Let_def k1_def using nokeep ct by (cases "stat (threads k c) = RT_THREAD_RUNNING") auto
      note res = schedule_switch [OF inv p(2) t(1) k1_def]
      have "p \<le> current_priority (threads k c)" if "stat (threads k c) = RT_THREAD_RUNNING"
        using that nokeep by auto
      then have "p \<le> current_priority (threads k u)" if "stat (threads (switch_to ?t k1) u) = RT_THREAD_READY" for u
        using res(4) [OF that] least by auto
      then show ?thesis unfolding sw using res(1-3) t(2) by simp
    qed
  qed
  then show "kinv (rt_schedule k)" "same_but_sched k (rt_schedule k)"
    "lock_nest k = 0 \<Longrightarrow> ready_group k \<noteq> 0 \<or> stat (threads k ?c) = RT_THREAD_RUNNING \<Longrightarrow>
      stat (threads (rt_schedule k) (rt_current_thread (rt_schedule k))) = RT_THREAD_RUNNING
      \<and> (\<forall>t. stat (threads (rt_schedule k) t) = RT_THREAD_READY \<longrightarrow>
           current_priority (threads k (rt_current_thread (rt_schedule k))) \<le> current_priority (threads k t))"
    by blast+
qed

section \<open>Suspending, resuming, changing the priority\<close>

lemma rt_thread_suspend_current:
  assumes inv: "kinv k" and t: "t = rt_current_thread k" "stat (threads k t) = RT_THREAD_RUNNING"
  shows "\<exists>k'. rt_thread_suspend t k = Inr (RT_EOK, k') \<and> kqx t k' \<and> rt_current_thread k' = t \<and> lock_nest k' = lock_nest k
    \<and> threads k' = (threads k)(t := (threads k t)\<lparr>stat := RT_THREAD_SUSPEND, thread_timer := None\<rparr>)
    \<and> (\<forall>l. queues k' l = queues k l)"
proof -
  have kq: "kq k" using inv by (simp add: kinv_def)
  have "t \<notin> set (queues k l)" for l
    using t(2) waiting_not_ready [OF kq, of t] by (cases l) (auto simp: kq_ready [OF kq])
  then show ?thesis
    using t kqx_remove [OF kq, of t] by (simp add: rt_thread_suspend_def removeAll_id)
qed

lemma rt_thread_resume_kinv:
  assumes inv: "kinv k" and t: "stat (threads k t) = RT_THREAD_SUSPEND"
  shows "\<exists>k'. rt_thread_resume t k = (RT_EOK, k') \<and> kinv k' \<and> rt_current_thread k' = rt_current_thread k
    \<and> lock_nest k' = lock_nest k
    \<and> (\<forall>u. u \<noteq> t \<longrightarrow> threads k' u = threads k u)
    \<and> threads k' t = (threads k t)\<lparr>thread_timer := None,
         stat := (if t = rt_current_thread k then RT_THREAD_RUNNING else RT_THREAD_READY)\<rparr>
    \<and> (\<forall>n. queues k' (WaitQ n) = removeAll t (queues k (WaitQ n)) \<and> queues k' (SenderQ n) = removeAll t (queues k (SenderQ n)))"
proof -
  have kq: "kq k" using inv by (simp add: kinv_def)
  let ?k = "upd_thread t (\<lambda>th. th\<lparr>thread_timer := None\<rparr>) (unlink t k)"
  have "kqx t ?k" using kqx_unlink [OF kq, of t] t by simp
  then have "kq (rt_schedule_insert_thread t ?k)"
    using kq_priority [OF kq, of t] by (intro kq_insert) simp_all
  then have "kinv (rt_schedule_insert_thread t ?k)" using inv by (auto simp: kinv_def)
  moreover have "\<forall>n. queues (rt_schedule_insert_thread t ?k) (WaitQ n) = removeAll t (queues k (WaitQ n))
      \<and> queues (rt_schedule_insert_thread t ?k) (SenderQ n) = removeAll t (queues k (SenderQ n))"
    by (simp add: rt_schedule_insert_thread_def Let_def)
  ultimately show ?thesis using t by (simp add: rt_thread_resume_def)
qed

lemma thread_timeout_kinv:
  assumes inv: "kinv k" and t: "stat (threads k t) = RT_THREAD_SUSPEND"
  shows "\<exists>k'. thread_timeout t k = Inr k' \<and> kinv k' \<and> terror (threads k' t) = - RT_ETIMEOUT
    \<and> (\<forall>n. queues k' (WaitQ n) = removeAll t (queues k (WaitQ n)) \<and> queues k' (SenderQ n) = removeAll t (queues k (SenderQ n)))
    \<and> (\<forall>u. current_priority (threads k' u) = current_priority (threads k u) \<and> event_set (threads k' u) = event_set (threads k u)
          \<and> event_info (threads k' u) = event_info (threads k u))
    \<and> awake k' t \<and> (\<forall>u. u \<noteq> t \<longrightarrow> terror (threads k' u) = terror (threads k u) \<and> (awake k' u \<longleftrightarrow> awake k u))"
proof -
  have kq: "kq k" using inv by (simp add: kinv_def)
  let ?f = "\<lambda>th. th\<lparr>terror := - RT_ETIMEOUT, thread_timer := None\<rparr>"
  let ?k = "unlink t (upd_thread t ?f k)"
  have "kq (upd_thread t ?f k)" using kq by (rule kq_upd) simp_all
  then have "kqx t ?k" using t by (intro kqx_unlink) simp_all
  then have "kq (rt_schedule_insert_thread t ?k)"
    using kq_priority [OF kq, of t] by (intro kq_insert) simp_all
  then have inv': "kinv (rt_schedule_insert_thread t ?k)" using inv by (auto simp: kinv_def)
  have q: "\<forall>n. queues (rt_schedule_insert_thread t ?k) (WaitQ n) = removeAll t (queues k (WaitQ n))
      \<and> queues (rt_schedule_insert_thread t ?k) (SenderQ n) = removeAll t (queues k (SenderQ n))"
    by (simp add: rt_schedule_insert_thread_def Let_def)
  have same: "same_but_sched (rt_schedule_insert_thread t ?k) (rt_schedule (rt_schedule_insert_thread t ?k))"
    by (rule rt_schedule_correct(2) [OF inv'])
  have "terror (threads (rt_schedule (rt_schedule_insert_thread t ?k)) t) = - RT_ETIMEOUT"
    unfolding same_but_schedD(1) [OF same] by simp
  moreover have "current_priority (threads (rt_schedule (rt_schedule_insert_thread t ?k)) u) = current_priority (threads k u)
      \<and> event_set (threads (rt_schedule (rt_schedule_insert_thread t ?k)) u) = event_set (threads k u)
      \<and> event_info (threads (rt_schedule (rt_schedule_insert_thread t ?k)) u) = event_info (threads k u)" for u
    unfolding same_but_schedD(2-4) [OF same] by simp
  moreover have "\<forall>n. queues (rt_schedule (rt_schedule_insert_thread t ?k)) (WaitQ n) = removeAll t (queues k (WaitQ n))
      \<and> queues (rt_schedule (rt_schedule_insert_thread t ?k)) (SenderQ n) = removeAll t (queues k (SenderQ n))"
    unfolding same_but_schedD(7,8) [OF same] by (rule q)
  moreover have "awake (rt_schedule (rt_schedule_insert_thread t ?k)) t
      \<and> (\<forall>u. u \<noteq> t \<longrightarrow> terror (threads (rt_schedule (rt_schedule_insert_thread t ?k)) u) = terror (threads k u)
          \<and> (awake (rt_schedule (rt_schedule_insert_thread t ?k)) u \<longleftrightarrow> awake k u))"
    unfolding same_but_schedD(1) [OF same] same_but_schedD(6) [OF same, symmetric] by simp
  ultimately show ?thesis
    using t rt_schedule_correct(1) [OF inv'] by (simp add: thread_timeout_def)
qed

lemma change_priority_kinv:
  assumes inv: "kinv k" and p: "p < 32"
  shows "kinv (change_priority t p k)"
    "\<forall>n. queues (change_priority t p k) (WaitQ n) = queues k (WaitQ n) \<and> queues (change_priority t p k) (SenderQ n) = queues k (SenderQ n)"
    "threads (change_priority t p k) = (threads k)(t := (threads k t)\<lparr>current_priority := p\<rparr>)"
    "rt_current_thread (change_priority t p k) = rt_current_thread k" "lock_nest (change_priority t p k) = lock_nest k"
proof -
  have kq: "kq k" using inv by (simp add: kinv_def)
  have tc: "stat (threads k t) = RT_THREAD_READY \<Longrightarrow> t \<noteq> rt_current_thread k" using inv by (auto simp: kinv_def)
  let ?k = "upd_thread t (\<lambda>th. th\<lparr>current_priority := p\<rparr>) (rt_schedule_remove_thread t k)"
  show th: "threads (change_priority t p k) = (threads k)(t := (threads k t)\<lparr>current_priority := p\<rparr>)"
    using tc by (auto simp: change_priority_def fun_upd_def)
  show cur: "rt_current_thread (change_priority t p k) = rt_current_thread k" "lock_nest (change_priority t p k) = lock_nest k"
    by (simp_all add: change_priority_def)
  have "kq (change_priority t p k)"
  proof (cases "stat (threads k t) = RT_THREAD_READY")
    case True
    then show ?thesis using kqx_remove [OF kq, of t] p by (simp add: change_priority_def kq_insert)
  next
    case False
    then show ?thesis using kq p by (auto simp: change_priority_def kq_def thread_ok_def lists_ok_def)
  qed
  then show "kinv (change_priority t p k)" using inv by (auto simp: kinv_def th cur)
  show "\<forall>n. queues (change_priority t p k) (WaitQ n) = queues k (WaitQ n) \<and> queues (change_priority t p k) (SenderQ n) = queues k (SenderQ n)"
    using waiting_not_ready [OF kq, of t]
    by (auto simp: change_priority_def rt_schedule_insert_thread_def Let_def removeAll_id)
qed

section \<open>Properties\<close>

text \<open>\<open>__rt_ffs\<close> on a non-zero word returns one more than the position of its lowest set bit.\<close>

theorem rt_ffs_finds_lowest_bit:
  assumes "v \<noteq> 0"
  shows "\<exists>p < 32. rt_ffs v = p + 1 \<and> bit v p \<and> (\<forall>q < p. \<not> bit v q)"
  using assms by (rule rt_ffs_lowest)

theorem rt_ffs_finds_lowest_bit_witness: "\<exists>p < 32. rt_ffs 0x280000 = p + 1 \<and> bit (0x280000 :: u32) p"
  using rt_ffs_finds_lowest_bit [of "0x280000"] by auto

text \<open>C14: a scheduling step keeps the scheduler's data consistent, changes no waiting list and no priority,
  and unless scheduling is locked or nothing can run, the thread it leaves running is at least
  as urgent as every ready thread.\<close>

theorem rt_schedule_selects_most_urgent:
  assumes "kinv k" and "lock_nest k = 0"
    and "ready_group k \<noteq> 0 \<or> stat (threads k (rt_current_thread k)) = RT_THREAD_RUNNING"
  shows "kinv (rt_schedule k) \<and> same_but_sched k (rt_schedule k)
    \<and> stat (threads (rt_schedule k) (rt_current_thread (rt_schedule k))) = RT_THREAD_RUNNING
    \<and> (\<forall>t. stat (threads (rt_schedule k) t) = RT_THREAD_READY \<longrightarrow>
         current_priority (threads k (rt_current_thread (rt_schedule k))) \<le> current_priority (threads k t))"
  using rt_schedule_correct [OF assms(1)] assms(2,3) by simp

text \<open>A system with one running thread and one more urgent ready thread.\<close>

definition sample_thread :: "tstat \<Rightarrow> nat \<Rightarrow> thread" where
  "sample_thread s p = \<lparr>stat = s, yield_flag = False, current_priority = p, terror = 0, event_set = 0, event_info = 0,
     thread_timer = None\<rparr>"

definition sample_kernel :: kernel where
  "sample_kernel = \<lparr>threads = (\<lambda>t. if t = 1 then sample_thread RT_THREAD_RUNNING 20
       else if t = 2 then sample_thread RT_THREAD_READY 10 else sample_thread RT_THREAD_INIT 31),
     queues = (\<lambda>l. if l = ReadyQ 10 then [2] else []), ready_group = 0x400, rt_current_thread = 1, lock_nest = 0\<rparr>"

lemma sample_kernel_kinv: "kinv sample_kernel"
proof -
  have "bit (0x400 :: u32) p \<longleftrightarrow> p = 10" for p
    using bit_exp_iff [where 'a = "32 word", of 10 p] by (auto simp: possible_bit_def)
  then show ?thesis
    by (auto simp: kinv_def kq_def lists_ok_def thread_ok_def sample_kernel_def sample_thread_def)
qed

theorem rt_schedule_selects_most_urgent_witness:
  "kinv (rt_schedule sample_kernel) \<and> rt_current_thread (rt_schedule sample_kernel) = 2"
proof -
  have "kinv (rt_schedule sample_kernel) \<and>
      stat (threads (rt_schedule sample_kernel) (rt_current_thread (rt_schedule sample_kernel))) = RT_THREAD_RUNNING"
    using rt_schedule_selects_most_urgent [OF sample_kernel_kinv] by (simp add: sample_kernel_def)
  moreover have "rt_current_thread (rt_schedule sample_kernel) = 2"
    by code_simp
  ultimately show ?thesis by simp
qed

end
