(* ===== verification/Ipc_Sem.thy ===== *)
theory Ipc_Sem
  imports Kernel
begin

text \<open>
  The waiting lists of kernel objects and the counting semaphore of \<^verbatim>\<open>rt-thread/src/ipc.c\<close>. A call that
  suspends the running thread ends in \<open>Block\<close>: the scheduler has switched away, and the rest of
  the call runs when the thread is scheduled again (for the semaphore, it returns the error code
  left in the thread). The semaphore is shown to conserve its tokens over every interleaving of
  takes, releases and timeouts, and never to leave a thread waiting while a token is available.
\<close>

section \<open>Waiting lists\<close>

datatype ipc_flag = RT_IPC_FLAG_FIFO | RT_IPC_FLAG_PRIO

datatype ('r, 's) call = Return 'r 's | Block 's

text \<open>The search of \<open>_ipc_list_suspend\<close> for the first waiter that is less urgent.\<close>

fun prio_insert :: "(tid \<Rightarrow> nat) \<Rightarrow> tid \<Rightarrow> tid list \<Rightarrow> tid list" where
  "prio_insert prio t [] = [t]"
| "prio_insert prio t (s # q) = (if prio t < prio s then t # s # q else s # prio_insert prio t q)"

definition ipc_list_suspend :: "lid \<Rightarrow> tid \<Rightarrow> ipc_flag \<Rightarrow> kernel \<Rightarrow> kernel cres" where
  "ipc_list_suspend l t flag k =
     cbind (rt_thread_suspend t k) (\<lambda>(_, k).
       Inr (case flag of
              RT_IPC_FLAG_FIFO \<Rightarrow> append_to l t k
            | RT_IPC_FLAG_PRIO \<Rightarrow> k\<lparr>queues := (queues k)(l :=
                prio_insert (\<lambda>u. current_priority (threads k u)) t (queues k l))\<rparr>))"

definition ipc_list_resume :: "lid \<Rightarrow> kernel \<Rightarrow> kernel" where
  "ipc_list_resume l k = snd (rt_thread_resume (hd (queues k l)) k)"

fun ipc_list_resume_all :: "nat \<Rightarrow> lid \<Rightarrow> kernel \<Rightarrow> kernel cres" where
  "ipc_list_resume_all 0 l k = Inl OutOfFuel"
| "ipc_list_resume_all (Suc fuel) l k =
     (if queues k l = [] then Inr k
      else let t = hd (queues k l); k = upd_thread t (\<lambda>th. th\<lparr>terror := - RT_ERROR\<rparr>) k
           in ipc_list_resume_all fuel l (snd (rt_thread_resume t k)))"

text \<open>The wait of a thread on a list, with the timeout of the call (negative for ever).\<close>

definition ipc_wait :: "lid \<Rightarrow> ipc_flag \<Rightarrow> int \<Rightarrow> kernel \<Rightarrow> kernel cres" where
  "ipc_wait l flag time k =
     (let t = rt_current_thread k
      in cbind (ipc_list_suspend l t flag k) (\<lambda>k.
         cbind (if time > 0 then start_thread_timer t time k else Inr k) (\<lambda>k. Inr (rt_schedule k))))"

text \<open>\<open>thread->error = e\<close>.\<close>

definition set_error :: "tid \<Rightarrow> int \<Rightarrow> kernel \<Rightarrow> kernel" where
  "set_error t e k = upd_thread t (\<lambda>th. th\<lparr>terror := e\<rparr>) k"

abbreviation prio_of :: "kernel \<Rightarrow> tid \<Rightarrow> nat" where
  "prio_of k t \<equiv> current_priority (threads k t)"

section \<open>Semaphores\<close>

record semaphore =
  sem_id :: nat
  sem_value :: nat
  sem_flag :: ipc_flag

abbreviation (input) RT_SEM_VALUE_MAX :: nat where "RT_SEM_VALUE_MAX \<equiv> 0xFFFF"

definition rt_sem_init :: "nat \<Rightarrow> nat \<Rightarrow> ipc_flag \<Rightarrow> kernel \<Rightarrow> (kernel \<times> semaphore) cres" where
  "rt_sem_init oid value flag k = cbind (rt_assert (value < 0x10000)) (\<lambda>_.
     Inr (k\<lparr>queues := (queues k)(WaitQ oid := [])\<rparr>, \<lparr>sem_id = oid, sem_value = value, sem_flag = flag\<rparr>))"

definition rt_sem_take :: "semaphore \<Rightarrow> int \<Rightarrow> kernel \<Rightarrow> (int, kernel \<times> semaphore) call cres" where
  "rt_sem_take sem time k =
     (if sem_value sem > 0 then Inr (Return RT_EOK (k, sem\<lparr>sem_value := sem_value sem - 1\<rparr>))
      else if time = 0 then Inr (Return (- RT_ETIMEOUT) (k, sem))
      else cbind (rt_assert (lock_nest k = 0)) (\<lambda>_.
           let k = upd_thread (rt_current_thread k) (\<lambda>th. th\<lparr>terror := RT_EOK\<rparr>) k
           in cbind (ipc_wait (WaitQ (sem_id sem)) (sem_flag sem) time k) (\<lambda>k. Inr (Block (k, sem)))))"

text \<open>What the suspended call returns once thread \<open>t\<close> runs again.\<close>

definition rt_sem_take_resumed :: "tid \<Rightarrow> kernel \<Rightarrow> int" where
  "rt_sem_take_resumed t k =
     (if terror (threads k t) \<noteq> RT_EOK then terror (threads k t) else RT_EOK)"

definition rt_sem_trytake :: "semaphore \<Rightarrow> kernel \<Rightarrow> (int, kernel \<times> semaphore) call cres" where
  "rt_sem_trytake sem k = rt_sem_take sem 0 k"

definition rt_sem_release :: "semaphore \<Rightarrow> kernel \<Rightarrow> int \<times> kernel \<times> semaphore" where
  "rt_sem_release sem k =
     (if queues k (WaitQ (sem_id sem)) \<noteq> []
      then (RT_EOK, rt_schedule (ipc_list_resume (WaitQ (sem_id sem)) k), sem)
      else if sem_value sem < RT_SEM_VALUE_MAX then (RT_EOK, k, sem\<lparr>sem_value := sem_value sem + 1\<rparr>)
      else (- RT_EFULL, k, sem))"

text \<open>\<open>rt_sem_control\<close> with \<open>RT_IPC_CMD_RESET\<close>, and \<open>rt_sem_detach\<close>; every thread on the list is one iteration.\<close>

definition rt_sem_control :: "bool \<Rightarrow> nat \<Rightarrow> semaphore \<Rightarrow> kernel \<Rightarrow> (int \<times> kernel \<times> semaphore) cres" where
  "rt_sem_control reset value sem k =
     (if reset
      then cbind (ipc_list_resume_all (length (queues k (WaitQ (sem_id sem))) + 1) (WaitQ (sem_id sem)) k) (\<lambda>k.
           Inr (RT_EOK, rt_schedule k, sem\<lparr>sem_value := value mod 2 ^ 16\<rparr>))
      else Inr (- RT_ERROR, k, sem))"

definition rt_sem_detach :: "semaphore \<Rightarrow> kernel \<Rightarrow> kernel cres" where
  "rt_sem_detach sem k = ipc_list_resume_all (length (queues k (WaitQ (sem_id sem))) + 1) (WaitQ (sem_id sem)) k"

section \<open>Waiting lists keep the invariant\<close>

lemma set_error_sel [simp]:
  "queues (set_error t e k) = queues k" "rt_current_thread (set_error t e k) = rt_current_thread k"
  "lock_nest (set_error t e k) = lock_nest k" "prio_of (set_error t e k) u = prio_of k u"
  "stat (threads (set_error t e k) u) = stat (threads k u)"
  by (simp_all add: set_error_def)

lemma kinv_set_error: "kinv k \<Longrightarrow> kinv (set_error t e k)"
  unfolding set_error_def by (rule kinv_upd) simp_all

lemma set_prio_insert [simp]: "set (prio_insert prio t q) = insert t (set q)"
  by (induction q) auto

lemma distinct_prio_insert [simp]: "distinct (prio_insert prio t q) \<longleftrightarrow> t \<notin> set q \<and> distinct q"
  by (induction q) auto

lemma prio_insert_sorted: "sorted (map prio q) \<Longrightarrow> sorted (map prio (prio_insert prio t q))"
  by (induction q) (auto simp: order.order_iff_strict)

lemma prio_insert_after_equals:
  "\<exists>xs ys. q = xs @ ys \<and> prio_insert prio t q = xs @ t # ys \<and> (\<forall>x \<in> set xs. prio x \<le> prio t)
     \<and> (ys = [] \<or> prio t < prio (hd ys))"
proof (induction q)
  case Nil
  then show ?case by simp
next
  case (Cons s q)
  show ?case
  proof (cases "prio t < prio s")
    case True
    then show ?thesis by (intro exI [of _ "[]"] exI [of _ "s # q"]) simp
  next
    case False
    obtain xs ys where "q = xs @ ys" "prio_insert prio t q = xs @ t # ys" "\<forall>x \<in> set xs. prio x \<le> prio t"
      "ys = [] \<or> prio t < prio (hd ys)"
      using Cons.IH by blast
    then show ?thesis using False by (intro exI [of _ "s # xs"] exI [of _ ys]) auto
  qed
qed

text \<open>The list after a thread has joined it.\<close>

definition joined :: "kernel \<Rightarrow> ipc_flag \<Rightarrow> tid \<Rightarrow> tid list \<Rightarrow> tid list" where
  "joined k flag t q = (case flag of RT_IPC_FLAG_FIFO \<Rightarrow> q @ [t]
     | RT_IPC_FLAG_PRIO \<Rightarrow> prio_insert (\<lambda>u. current_priority (threads k u)) t q)"

lemma set_joined [simp]: "set (joined k flag t q) = insert t (set q)"
  by (cases flag) (simp_all add: joined_def)

lemma distinct_joined: "t \<notin> set q \<Longrightarrow> distinct q \<Longrightarrow> distinct (joined k flag t q)"
  by (cases flag) (simp_all add: joined_def)

lemma joined_cong: "(\<And>u. current_priority (threads k u) = current_priority (threads k' u)) \<Longrightarrow> joined k flag t q = joined k' flag t q"
  by (cases flag) (simp_all add: joined_def)

lemma kq_join:
  assumes kx: "kqx t k" and t: "stat (threads k t) = RT_THREAD_SUSPEND" "current_priority (threads k t) < 32"
    and l: "\<forall>p. l \<noteq> ReadyQ p" and k': "k' = k\<lparr>queues := (queues k)(l := joined k flag t (queues k l))\<rparr>"
  shows "kq k'"
proof -
  have nt: "t \<notin> set (queues k m)" for m using kx by (simp add: kqx_def)
  have lk: "lists_ok k" using kx by (simp add: kqx_def)
  have "lists_ok k'"
    unfolding lists_ok_def
  proof (intro conjI allI impI)
    fix m show "distinct (queues k' m)" using lk nt by (auto simp: k' lists_ok_def intro: distinct_joined)
  next
    fix m m' u assume "u \<in> set (queues k' m)" "u \<in> set (queues k' m')"
    then show "m = m'" using lk nt by (auto simp: k' lists_ok_def split: if_splits)
  next
    fix r :: nat assume "r < 32"
    then show "bit (ready_group k') r \<longleftrightarrow> queues k' (ReadyQ r) \<noteq> []"
      using lk l by (auto simp: k' lists_ok_def)
  qed
  moreover have "thread_ok k' t" using t nt l by (auto simp: thread_ok_def k')
  moreover have "thread_ok k' u" if "u \<noteq> t" for u
    using kx that l by (auto simp: kqx_def thread_ok_def k')
  ultimately show ?thesis unfolding kq_def by metis
qed

text \<open>Waiting: the running thread is suspended on the list, and its error code is kept.\<close>

lemma ipc_wait_before:
  assumes inv: "kinv k" and run: "stat (threads k (rt_current_thread k)) = RT_THREAD_RUNNING"
    and l: "\<forall>p. l \<noteq> ReadyQ p" and time: "time < 0x7FFFFFFF"
  shows "\<exists>k3. ipc_wait l flag time k = Inr (rt_schedule k3) \<and> kinv k3 \<and> lock_nest k3 = lock_nest k
    \<and> (\<forall>m. (\<forall>p. m \<noteq> ReadyQ p) \<longrightarrow> queues k3 m = (if m = l then joined k flag (rt_current_thread k) (queues k l) else queues k m))
    \<and> (\<forall>u. u \<noteq> rt_current_thread k \<longrightarrow> threads k3 u = threads k u)
    \<and> (\<exists>tm. threads k3 (rt_current_thread k) = (threads k (rt_current_thread k))\<lparr>stat := RT_THREAD_SUSPEND, thread_timer := tm\<rparr>)"
proof -
  let ?t = "rt_current_thread k"
  obtain k1 where k1: "rt_thread_suspend ?t k = Inr (RT_EOK, k1)" "kqx ?t k1" "rt_current_thread k1 = ?t" "lock_nest k1 = lock_nest k"
    "threads k1 = (threads k)(?t := (threads k ?t)\<lparr>stat := RT_THREAD_SUSPEND, thread_timer := None\<rparr>)"
    "\<forall>l. queues k1 l = queues k l"
    using rt_thread_suspend_current [OF inv refl run] by blast
  let ?k2 = "k1\<lparr>queues := (queues k1)(l := joined k1 flag ?t (queues k1 l))\<rparr>"
  have sus: "ipc_list_suspend l ?t flag k = Inr ?k2"
    using k1(1) by (cases flag) (simp_all add: ipc_list_suspend_def joined_def append_to_def)
  have "kq k" using inv by (simp add: kinv_def)
  then have "kq ?k2"
    using k1(2,5) kq_priority [of k ?t] l by (intro kq_join [OF k1(2) _ _ l refl]) auto
  then have inv2: "kinv ?k2"
    using inv k1(3,5) by (auto simp: kinv_def)
  define k3 where "k3 = (if time > 0 then upd_thread ?t (\<lambda>th. th\<lparr>thread_timer := Some time\<rparr>) ?k2 else ?k2)"
  have st: "(if time > 0 then start_thread_timer ?t time ?k2 else Inr ?k2) = Inr k3"
    using time by (simp add: k3_def start_thread_timer_def)
  have inv3: "kinv k3"
    using inv2 kinv_upd [of ?k2 "\<lambda>th. th\<lparr>thread_timer := Some time\<rparr>" ?t] by (simp add: k3_def)
  have j: "joined k1 flag ?t q = joined k flag ?t q" for q
    by (rule joined_cong) (simp add: k1(5))
  have "threads k3 ?t = (threads k ?t)\<lparr>stat := RT_THREAD_SUSPEND, thread_timer := (if time > 0 then Some time else None)\<rparr>"
    by (simp add: k3_def k1(5))
  moreover have "ipc_wait l flag time k = Inr (rt_schedule k3)" using sus st by (simp add: ipc_wait_def Let_def)
  ultimately show ?thesis
    using inv3 k1(4-6) j by (intro exI [of _ k3]) (auto simp: k3_def)
qed

lemma ipc_wait_kinv:
  assumes inv: "kinv k" and run: "stat (threads k (rt_current_thread k)) = RT_THREAD_RUNNING"
    and l: "\<forall>p. l \<noteq> ReadyQ p" and time: "time < 0x7FFFFFFF"
  shows "\<exists>k'. ipc_wait l flag time k = Inr k' \<and> kinv k'
    \<and> (\<forall>m. (\<forall>p. m \<noteq> ReadyQ p) \<longrightarrow> queues k' m = (if m = l then joined k flag (rt_current_thread k) (queues k l) else queues k m))
    \<and> (\<forall>u. terror (threads k' u) = terror (threads k u) \<and> current_priority (threads k' u) = current_priority (threads k u)
          \<and> event_set (threads k' u) = event_set (threads k u) \<and> event_info (threads k' u) = event_info (threads k u)
          \<and> (u \<noteq> rt_current_thread k \<longrightarrow> (awake k' u \<longleftrightarrow> awake k u)))"
proof -
  let ?t = "rt_current_thread k"
  obtain k3 tm where k3: "ipc_wait l flag time k = Inr (rt_schedule k3)" "kinv k3"
    "\<forall>m. (\<forall>p. m \<noteq> ReadyQ p) \<longrightarrow> queues k3 m = (if m = l then joined k flag ?t (queues k l) else queues k m)"
    "\<forall>u. u \<noteq> ?t \<longrightarrow> threads k3 u = threads k u"
    "threads k3 ?t = (threads k ?t)\<lparr>stat := RT_THREAD_SUSPEND, thread_timer := tm\<rparr>"
    using ipc_wait_before [OF assms] by blast
  note sch = rt_schedule_correct(1,2) [OF k3(2)]
  have "queues (rt_schedule k3) m = queues k3 m" if "\<forall>p. m \<noteq> ReadyQ p" for m
    using that same_but_schedD(7,8) [OF sch(2)] by (cases m) auto
  moreover have "terror (threads (rt_schedule k3) u) = terror (threads k u) \<and> current_priority (threads (rt_schedule k3) u) = current_priority (threads k u)
      \<and> event_set (threads (rt_schedule k3) u) = event_set (threads k u) \<and> event_info (threads (rt_schedule k3) u) = event_info (threads k u)
      \<and> (u \<noteq> ?t \<longrightarrow> (awake (rt_schedule k3) u \<longleftrightarrow> awake k u))" for u
    unfolding same_but_schedD(1-4) [OF sch(2)] same_but_schedD(6) [OF sch(2), symmetric] using k3(4,5) by (cases "u = ?t") simp_all
  ultimately show ?thesis
    using k3(1,3) sch(1) by simp
qed

text \<open>If another thread is ready, the processor does not stay with the waiting thread.\<close>

lemma ipc_wait_switches:
  assumes inv: "kinv k" and run: "stat (threads k (rt_current_thread k)) = RT_THREAD_RUNNING"
    and l: "\<forall>p. l \<noteq> ReadyQ p" and time: "time < 0x7FFFFFFF" and lock: "lock_nest k = 0"
    and u: "stat (threads k u) = RT_THREAD_READY" and w: "ipc_wait l flag time k = Inr k'"
  shows "stat (threads k' (rt_current_thread k')) = RT_THREAD_RUNNING" "rt_current_thread k' \<noteq> rt_current_thread k"
proof -
  let ?t = "rt_current_thread k"
  obtain k3 tm where k3': "ipc_wait l flag time k = Inr (rt_schedule k3)" "kinv k3" "lock_nest k3 = lock_nest k"
    "\<forall>u. u \<noteq> ?t \<longrightarrow> threads k3 u = threads k u" "threads k3 ?t = (threads k ?t)\<lparr>stat := RT_THREAD_SUSPEND, thread_timer := tm\<rparr>"
    using ipc_wait_before [OF inv run l time, of flag] by blast
  have "u \<noteq> ?t" using u run by auto
  then have k3: "k' = rt_schedule k3" "kinv k3" "lock_nest k3 = 0" "threads k3 u = threads k u" "stat (threads k3 ?t) = RT_THREAD_SUSPEND"
    using k3' w lock by simp_all
  let ?p = "current_priority (threads k3 u)"
  have kq: "kq k3" using k3(2) by (simp add: kinv_def)
  then have "u \<in> set (queues k3 (ReadyQ ?p))" "?p < 32" "lists_ok k3" using k3(4) u kq_priority [OF kq, of u] by (simp_all add: kq_def thread_ok_def)
  then have "bit (ready_group k3) ?p" by (auto simp: lists_ok_def)
  then have "ready_group k3 \<noteq> 0" by auto
  then show r: "stat (threads k' (rt_current_thread k')) = RT_THREAD_RUNNING"
    using rt_schedule_correct(3) [OF k3(2,3)] k3(1) by simp
  have "stat (threads k' ?t) = RT_THREAD_SUSPEND"
    using same_but_schedD(6) [OF rt_schedule_correct(2) [OF k3(2)], of ?t] k3(1,5) by simp
  then show "rt_current_thread k' \<noteq> ?t" using r by auto
qed

text \<open>Waking the first waiter: it leaves the list, and nothing else about a waiting list or an error
  code changes.\<close>

lemma hd_waiting:
  "kinv k \<Longrightarrow> \<forall>p. l \<noteq> ReadyQ p \<Longrightarrow> u \<in> set (queues k l) \<Longrightarrow> stat (threads k u) = RT_THREAD_SUSPEND"
  by (cases l) (auto simp: kinv_def kq_def thread_ok_def)

lemma kinv_lists: "kinv k \<Longrightarrow> distinct (queues k l)" "kinv k \<Longrightarrow> u \<in> set (queues k l) \<Longrightarrow> u \<in> set (queues k l') \<Longrightarrow> l = l'"
  by (auto simp: kinv_def kq_def lists_ok_def)

lemma running_not_waiting:
  "kinv k \<Longrightarrow> stat (threads k t) = RT_THREAD_RUNNING \<Longrightarrow> t \<notin> set (queues k (WaitQ n))"
  "kinv k \<Longrightarrow> stat (threads k t) = RT_THREAD_RUNNING \<Longrightarrow> t \<notin> set (queues k (SenderQ n))"
  using waiting_not_ready [of k t n] by (auto simp: kinv_def)

lemma removeAll_other:
  "kinv k \<Longrightarrow> u \<in> set (queues k l) \<Longrightarrow> removeAll u (queues k m) = (if m = l then remove1 u (queues k l) else queues k m)"
proof -
  assume inv: "kinv k" and u: "u \<in> set (queues k l)"
  show ?thesis
  proof (cases "m = l")
    case True
    then show ?thesis using kinv_lists(1) [OF inv, of l] by (simp add: distinct_remove1_removeAll)
  next
    case False
    then have "u \<notin> set (queues k m)" using kinv_lists(2) [OF inv u] by blast
    then show ?thesis using False by simp
  qed
qed

lemma ipc_list_resume_kinv:
  assumes inv: "kinv k" and l: "\<forall>p. l \<noteq> ReadyQ p" and ne: "queues k l = t # q"
  shows "kinv (ipc_list_resume l k)"
    "\<And>m. \<forall>p. m \<noteq> ReadyQ p \<Longrightarrow> queues (ipc_list_resume l k) m = (if m = l then q else queues k m)"
    "\<And>u. terror (threads (ipc_list_resume l k) u) = terror (threads k u)"
    "\<And>u. current_priority (threads (ipc_list_resume l k) u) = current_priority (threads k u)"
    "stat (threads (ipc_list_resume l k) t) \<in> {RT_THREAD_READY, RT_THREAD_RUNNING}"
    "lock_nest (ipc_list_resume l k) = lock_nest k"
    "\<And>u. u \<noteq> t \<Longrightarrow> threads (ipc_list_resume l k) u = threads k u"
proof -
  have t: "stat (threads k t) = RT_THREAD_SUSPEND" using hd_waiting [OF inv l, of t] ne by simp
  obtain k' where k': "rt_thread_resume t k = (RT_EOK, k')" "kinv k'" "lock_nest k' = lock_nest k"
    "\<forall>u. u \<noteq> t \<longrightarrow> threads k' u = threads k u"
    "threads k' t = (threads k t)\<lparr>thread_timer := None,
         stat := (if t = rt_current_thread k then RT_THREAD_RUNNING else RT_THREAD_READY)\<rparr>"
    "\<forall>n. queues k' (WaitQ n) = removeAll t (queues k (WaitQ n)) \<and> queues k' (SenderQ n) = removeAll t (queues k (SenderQ n))"
    using rt_thread_resume_kinv [OF inv t] by blast
  have e: "ipc_list_resume l k = k'" using ne k'(1) by (simp add: ipc_list_resume_def)
  show "kinv (ipc_list_resume l k)" "lock_nest (ipc_list_resume l k) = lock_nest k"
    "\<And>u. u \<noteq> t \<Longrightarrow> threads (ipc_list_resume l k) u = threads k u" using e k' by simp_all
  show "stat (threads (ipc_list_resume l k) t) \<in> {RT_THREAD_READY, RT_THREAD_RUNNING}" using e k'(5) by simp
  show "queues (ipc_list_resume l k) m = (if m = l then q else queues k m)" if "\<forall>p. m \<noteq> ReadyQ p" for m
  proof -
    have "queues k' m = removeAll t (queues k m)" using that k'(6) by (cases m) auto
    then show ?thesis using e removeAll_other [OF inv, of t l m] ne by simp
  qed
  show "terror (threads (ipc_list_resume l k) u) = terror (threads k u)"
    "current_priority (threads (ipc_list_resume l k) u) = current_priority (threads k u)" for u
    using e k'(4,5) by (cases "u = t"; simp)+
qed

text \<open>Waking everyone terminates: each round takes one thread off the list.\<close>

lemma ipc_list_resume_all_kinv:
  assumes "kinv k" and l: "\<forall>p. l \<noteq> ReadyQ p" and "length (queues k l) < fuel"
  shows "\<exists>k'. ipc_list_resume_all fuel l k = Inr k' \<and> kinv k' \<and> queues k' l = []
    \<and> (\<forall>m. (\<forall>p. m \<noteq> ReadyQ p) \<longrightarrow> m \<noteq> l \<longrightarrow> queues k' m = queues k m)
    \<and> (\<forall>u. terror (threads k' u) = (if u \<in> set (queues k l) then - RT_ERROR else terror (threads k u)))"
  using assms(1,3)
proof (induction fuel arbitrary: k)
  case 0
  then show ?case by simp
next
  case (Suc fuel)
  show ?case
  proof (cases "queues k l")
    case Nil
    then show ?thesis using Suc.prems by simp
  next
    case (Cons t q)
    let ?k = "upd_thread t (\<lambda>th. th\<lparr>terror := - RT_ERROR\<rparr>) k"
    have inv: "kinv ?k" using Suc.prems(1) by (rule kinv_upd) simp_all
    have ne: "queues ?k l = t # q" using Cons by simp
    note r = ipc_list_resume_kinv [OF inv l ne]
    let ?k1 = "ipc_list_resume l ?k"
    have q1: "queues ?k1 l = q" using r(2) l by simp
    obtain k' where k': "ipc_list_resume_all fuel l ?k1 = Inr k'" "kinv k'" "queues k' l = []"
      "\<forall>m. (\<forall>p. m \<noteq> ReadyQ p) \<longrightarrow> m \<noteq> l \<longrightarrow> queues k' m = queues ?k1 m"
      "\<forall>u. terror (threads k' u) = (if u \<in> set q then - RT_ERROR else terror (threads ?k1 u))"
      using Suc.IH [OF r(1)] q1 Suc.prems(2) Cons by auto
    have "ipc_list_resume_all (Suc fuel) l k = Inr k'"
      using k'(1) Cons by (simp add: ipc_list_resume_def)
    moreover have "\<forall>m. (\<forall>p. m \<noteq> ReadyQ p) \<longrightarrow> m \<noteq> l \<longrightarrow> queues k' m = queues k m"
      using k'(4) r(2) by simp
    moreover have "\<forall>u. terror (threads k' u) = (if u \<in> set (queues k l) then - RT_ERROR else terror (threads k u))"
      using k'(5) r(3) Cons by simp
    ultimately show ?thesis using k'(2,3) by blast
  qed
qed

section \<open>The semaphore under every interleaving\<close>

text \<open>
  One object seen by the whole system: the running thread takes or releases, an interrupt or a
  thread releases, the timer of a waiting thread expires, the semaphore is reset, and the
  scheduler runs. The events say which tokens moved.
\<close>

datatype sem_event = Granted tid | Refused | Waits tid | Posted | Handed tid | Full | TimedOut tid | Scheduled

inductive sem_step :: "kernel \<times> semaphore \<Rightarrow> sem_event \<Rightarrow> kernel \<times> semaphore \<Rightarrow> bool" where
  granted: "rt_sem_take sem time k = Inr (Return 0 st') \<Longrightarrow> sem_step (k, sem) (Granted (rt_current_thread k)) st'"
| refused: "rt_sem_take sem time k = Inr (Return e st') \<Longrightarrow> e \<noteq> 0 \<Longrightarrow> sem_step (k, sem) Refused st'"
| waits: "rt_sem_take sem time k = Inr (Block st') \<Longrightarrow> time < 0x7FFFFFFF \<Longrightarrow>
    stat (threads k (rt_current_thread k)) = RT_THREAD_RUNNING \<Longrightarrow> sem_step (k, sem) (Waits (rt_current_thread k)) st'"
| posted: "queues k (WaitQ (sem_id sem)) = [] \<Longrightarrow> rt_sem_release sem k = (0, st') \<Longrightarrow> sem_step (k, sem) Posted st'"
| handed: "queues k (WaitQ (sem_id sem)) = t # q \<Longrightarrow> rt_sem_release sem k = (e, st') \<Longrightarrow> sem_step (k, sem) (Handed t) st'"
| full: "rt_sem_release sem k = (e, st') \<Longrightarrow> e \<noteq> 0 \<Longrightarrow> sem_step (k, sem) Full st'"
| timed_out: "t \<in> set (queues k (WaitQ (sem_id sem))) \<Longrightarrow> thread_timeout t k = Inr k' \<Longrightarrow>
    sem_step (k, sem) (TimedOut t) (k', sem)"
| scheduled: "sem_step (k, sem) Scheduled (rt_schedule k, sem)"

inductive sem_run :: "kernel \<times> semaphore \<Rightarrow> sem_event list \<Rightarrow> kernel \<times> semaphore \<Rightarrow> bool" where
  start: "sem_run st [] st"
| more: "sem_run st es st' \<Longrightarrow> sem_step st' e st'' \<Longrightarrow> sem_run st (es @ [e]) st''"

definition sem_ok :: "kernel \<times> semaphore \<Rightarrow> bool" where
  "sem_ok st \<longleftrightarrow> (case st of (k, sem) \<Rightarrow> kinv k \<and> sem_value sem \<le> RT_SEM_VALUE_MAX
     \<and> (queues k (WaitQ (sem_id sem)) \<noteq> [] \<longrightarrow> sem_value sem = 0))"

text \<open>Tokens put in and taken out by an event.\<close>

fun tokens_in :: "sem_event \<Rightarrow> nat" where
  "tokens_in Posted = 1" | "tokens_in (Handed t) = 1" | "tokens_in _ = 0"

fun tokens_out :: "sem_event \<Rightarrow> nat" where
  "tokens_out (Granted t) = 1" | "tokens_out (Handed t) = 1" | "tokens_out _ = 0"

lemma sem_take_return:
  assumes "rt_sem_take sem time k = Inr (Return e st')"
  shows "(sem_value sem > 0 \<and> e = 0 \<and> st' = (k, sem\<lparr>sem_value := sem_value sem - 1\<rparr>))
    \<or> (sem_value sem = 0 \<and> time = 0 \<and> e = - RT_ETIMEOUT \<and> st' = (k, sem))"
  using assms by (auto simp: rt_sem_take_def Let_def cbind_eq_Inr split: if_splits)

lemma sem_take_block:
  assumes inv: "kinv k" and run: "stat (threads k (rt_current_thread k)) = RT_THREAD_RUNNING"
    and time: "time < 0x7FFFFFFF" and b: "rt_sem_take sem time k = Inr (Block st')"
  shows "\<exists>k'. st' = (k', sem) \<and> kinv k' \<and> sem_value sem = 0
    \<and> queues k' (WaitQ (sem_id sem)) = joined k (sem_flag sem) (rt_current_thread k) (queues k (WaitQ (sem_id sem)))"
proof -
  let ?k = "upd_thread (rt_current_thread k) (\<lambda>th. th\<lparr>terror := RT_EOK\<rparr>) k"
  have inv': "kinv ?k" using inv by (rule kinv_upd) simp_all
  have run': "stat (threads ?k (rt_current_thread ?k)) = RT_THREAD_RUNNING" using run by simp
  have j: "joined ?k f t q = joined k f t q" for f t q by (rule joined_cong) simp
  obtain k' where "ipc_wait (WaitQ (sem_id sem)) (sem_flag sem) time ?k = Inr k'" "kinv k'"
    "queues k' (WaitQ (sem_id sem)) = joined k (sem_flag sem) (rt_current_thread k) (queues k (WaitQ (sem_id sem)))"
    using ipc_wait_kinv [OF inv' run' _ time, of "WaitQ (sem_id sem)" "sem_flag sem"] j by auto
  then show ?thesis
    using b by (auto simp: rt_sem_take_def Let_def cbind_eq_Inr split: if_splits)
qed

lemma sem_step_ok:
  assumes "sem_step st e st'" and "sem_ok st"
  shows "sem_ok st' \<and> sem_value (snd st) + tokens_in e = sem_value (snd st') + tokens_out e \<and> sem_id (snd st') = sem_id (snd st)"
  using assms
proof (induction rule: sem_step.induct)
  case (granted sem time k st')
  then show ?case using sem_take_return [OF granted(1)] by (auto simp: sem_ok_def)
next
  case (refused sem time k e st')
  then show ?case using sem_take_return [OF refused(1)] by (auto simp: sem_ok_def)
next
  case (waits sem time k st')
  then obtain k' where "st' = (k', sem)" "kinv k'" "sem_value sem = 0"
    using sem_take_block [of k time sem st'] by (auto simp: sem_ok_def)
  then show ?case using waits.prems by (simp add: sem_ok_def)
next
  case (posted k sem st')
  then show ?case by (auto simp: sem_ok_def rt_sem_release_def split: if_splits)
next
  case (handed k sem t q e st')
  then have inv: "kinv k" by (simp add: sem_ok_def)
  note r = ipc_list_resume_kinv [OF inv _ handed(1)]
  have "kinv (rt_schedule (ipc_list_resume (WaitQ (sem_id sem)) k))"
    by (rule rt_schedule_correct(1) [OF r(1)]) simp
  moreover have "st' = (rt_schedule (ipc_list_resume (WaitQ (sem_id sem)) k), sem)" "sem_value sem = 0"
    using handed by (auto simp: rt_sem_release_def sem_ok_def)
  ultimately show ?case by (simp add: sem_ok_def)
next
  case (full sem k e st')
  then show ?case by (auto simp: sem_ok_def rt_sem_release_def split: if_splits)
next
  case (timed_out t k sem k')
  then have inv: "kinv k" and t: "stat (threads k t) = RT_THREAD_SUSPEND"
    using hd_waiting [of k "WaitQ (sem_id sem)" t] by (auto simp: sem_ok_def)
  then show ?case using thread_timeout_kinv [OF inv t] timed_out by (auto simp: sem_ok_def)
next
  case (scheduled k sem)
  then show ?case using rt_schedule_correct [of k] same_but_schedD(7) [of k "rt_schedule k"] by (auto simp: sem_ok_def)
qed

lemma sem_run_ok:
  assumes "sem_run st es st'" and "sem_ok st"
  shows "sem_ok st' \<and> sem_value (snd st) + sum_list (map tokens_in es) = sem_value (snd st') + sum_list (map tokens_out es)"
  using assms
proof (induction rule: sem_run.induct)
  case (start st)
  then show ?case by simp
next
  case (more st es st' e st'')
  then show ?case using sem_step_ok [OF more.hyps(2)] by auto
qed

section \<open>Properties\<close>



text \<open>A release with waiting threads gives the token to the first of them, which leaves the list and
  can run; the list is kept in arrival order, or by priority with equals in arrival order.\<close>

theorem sem_release_wakes_first:
  assumes "kinv k" and "queues k (WaitQ (sem_id sem)) = t # q"
  shows "\<exists>k'. rt_sem_release sem k = (RT_EOK, k', sem) \<and> kinv k' \<and> queues k' (WaitQ (sem_id sem)) = q
    \<and> stat (threads k' t) \<noteq> RT_THREAD_SUSPEND
    \<and> (sorted (map (\<lambda>u. current_priority (threads k u)) (t # q)) \<longrightarrow>
         (\<forall>u \<in> set q. current_priority (threads k t) \<le> current_priority (threads k u)))"
proof -
  note r = ipc_list_resume_kinv [OF assms(1) _ assms(2)]
  let ?k = "ipc_list_resume (WaitQ (sem_id sem)) k"
  have inv: "kinv ?k" by (rule r(1)) simp
  note sch = rt_schedule_correct(1,2) [OF inv]
  have st: "stat (threads ?k t) \<in> {RT_THREAD_READY, RT_THREAD_RUNNING}" by (rule r(5)) simp
  then have "stat (threads (rt_schedule ?k) t) \<noteq> RT_THREAD_SUSPEND"
    unfolding same_but_schedD(6) [OF sch(2), symmetric] by auto
  moreover have "queues (rt_schedule ?k) (WaitQ (sem_id sem)) = q"
    using same_but_schedD(7) [OF sch(2)] r(2) by simp
  ultimately show ?thesis using sch(1) assms(2) by (auto simp: rt_sem_release_def)
qed

text \<open>Thread 2 waits on object 0 while thread 1 runs.\<close>

definition waiting_kernel :: kernel where
  "waiting_kernel = \<lparr>threads = (\<lambda>t. if t = 1 then sample_thread RT_THREAD_RUNNING 20
       else if t = 2 then sample_thread RT_THREAD_SUSPEND 10 else sample_thread RT_THREAD_INIT 31),
     queues = (\<lambda>l. if l = WaitQ 0 then [2] else []), ready_group = 0, rt_current_thread = 1, lock_nest = 0\<rparr>"

lemma waiting_kernel_kinv: "kinv waiting_kernel" "queues waiting_kernel (WaitQ 0) = [2]"
  by (auto simp: kinv_def kq_def lists_ok_def thread_ok_def waiting_kernel_def sample_thread_def)

theorem sem_release_wakes_first_witness:
  "\<exists>k'. rt_sem_release \<lparr>sem_id = 0, sem_value = 0, sem_flag = RT_IPC_FLAG_FIFO\<rparr> waiting_kernel
      = (RT_EOK, k', \<lparr>sem_id = 0, sem_value = 0, sem_flag = RT_IPC_FLAG_FIFO\<rparr>)
    \<and> queues k' (WaitQ 0) = [] \<and> stat (threads k' 2) \<noteq> RT_THREAD_SUSPEND"
  using sem_release_wakes_first [OF waiting_kernel_kinv(1), of "\<lparr>sem_id = 0, sem_value = 0, sem_flag = RT_IPC_FLAG_FIFO\<rparr>" 2 "[]"]
    waiting_kernel_kinv(2) by auto

text \<open>Resetting a semaphore returns, wakes every waiting thread with \<open>-RT_ERROR\<close> as the result of its
  call, and sets the value to the low 16 bits of the argument.\<close>

theorem sem_reset_wakes_all:
  assumes "kinv k"
  shows "\<exists>k'. rt_sem_control True value sem k = Inr (RT_EOK, k', sem\<lparr>sem_value := value mod 2 ^ 16\<rparr>) \<and> kinv k'
    \<and> queues k' (WaitQ (sem_id sem)) = []
    \<and> (\<forall>t \<in> set (queues k (WaitQ (sem_id sem))). rt_sem_take_resumed t k' = - RT_ERROR)"
proof -
  obtain k1 where k1: "ipc_list_resume_all (length (queues k (WaitQ (sem_id sem))) + 1) (WaitQ (sem_id sem)) k = Inr k1"
    "kinv k1" "queues k1 (WaitQ (sem_id sem)) = []"
    "\<forall>u. terror (threads k1 u) = (if u \<in> set (queues k (WaitQ (sem_id sem))) then - RT_ERROR else terror (threads k u))"
    using ipc_list_resume_all_kinv [OF assms, of "WaitQ (sem_id sem)" "length (queues k (WaitQ (sem_id sem))) + 1"]
    by (auto simp del: ipc_list_resume_all.simps)
  note sch = rt_schedule_correct(1,2) [OF k1(2)]
  have "\<forall>t \<in> set (queues k (WaitQ (sem_id sem))). terror (threads (rt_schedule k1) t) = - RT_ERROR"
    using k1(4) same_but_schedD(1) [OF sch(2)] by simp
  then show ?thesis
    using k1 sch(1) same_but_schedD(7) [OF sch(2)] by (auto simp: rt_sem_control_def rt_sem_take_resumed_def simp del: ipc_list_resume_all.simps)
qed

theorem sem_reset_wakes_all_witness:
  "\<exists>k'. rt_sem_control True 65537 \<lparr>sem_id = 0, sem_value = 0, sem_flag = RT_IPC_FLAG_FIFO\<rparr> waiting_kernel
     = Inr (RT_EOK, k', \<lparr>sem_id = 0, sem_value = 1, sem_flag = RT_IPC_FLAG_FIFO\<rparr>) \<and> rt_sem_take_resumed 2 k' = - RT_ERROR"
  using sem_reset_wakes_all [OF waiting_kernel_kinv(1), of 65537 "\<lparr>sem_id = 0, sem_value = 0, sem_flag = RT_IPC_FLAG_FIFO\<rparr>"]
    waiting_kernel_kinv(2) by auto

end
