(* ===== verification/Ipc_Mutex.thy ===== *)
theory Ipc_Mutex
  imports Ipc_Sem
begin

text \<open>
  The recursive mutex with priority inheritance of \<^verbatim>\<open>rt-thread/src/ipc.c\<close>. \<open>mutex_ok\<close> ties the fields
  of the mutex together and says that the owner is at least as urgent as every waiting thread;
  it holds over every interleaving of takes, releases and timeouts.
\<close>

section \<open>State and operations\<close>

record mutex =
  mutex_id :: nat
  mvalue :: nat
  mowner :: "tid option"
  original_priority :: nat
  mhold :: nat

abbreviation (input) RT_MUTEX_HOLD_MAX :: nat where "RT_MUTEX_HOLD_MAX \<equiv> 0xFF"
abbreviation (input) RT_MUTEX_VALUE_MAX :: nat where "RT_MUTEX_VALUE_MAX \<equiv> 0xFFFF"

abbreviation mwaiters :: "kernel \<Rightarrow> mutex \<Rightarrow> tid list" where
  "mwaiters k m \<equiv> queues k (WaitQ (mutex_id m))"

definition rt_mutex_init :: "nat \<Rightarrow> kernel \<Rightarrow> kernel \<times> mutex" where
  "rt_mutex_init oid k = (k\<lparr>queues := (queues k)(WaitQ oid := [])\<rparr>,
     \<lparr>mutex_id = oid, mvalue = 1, mowner = None, original_priority = 0xFF, mhold = 0\<rparr>)"

definition rt_mutex_take :: "mutex \<Rightarrow> int \<Rightarrow> kernel \<Rightarrow> (int, kernel \<times> mutex) call cres" where
  "rt_mutex_take m time k =
     cbind (rt_assert (lock_nest k = 0)) (\<lambda>_.
       let t = rt_current_thread k; k = set_error t RT_EOK k
       in if mowner m = Some t
          then if mhold m < RT_MUTEX_HOLD_MAX then Inr (Return RT_EOK (k, m\<lparr>mhold := mhold m + 1\<rparr>))
               else Inr (Return (- RT_EFULL) (k, m))
          else if mvalue m > 0
          then let m = m\<lparr>mvalue := mvalue m - 1, mowner := Some t, original_priority := prio_of k t\<rparr>
               in if mhold m < RT_MUTEX_HOLD_MAX then Inr (Return RT_EOK (k, m\<lparr>mhold := mhold m + 1\<rparr>))
                  else Inr (Return (- RT_EFULL) (k, m))
          else if time = 0 then Inr (Return (- RT_ETIMEOUT) (set_error t (- RT_ETIMEOUT) k, m))
          else case mowner m of None \<Rightarrow> Inl NullDeref
          | Some ow \<Rightarrow>
              let k = (if prio_of k t < prio_of k ow then change_priority ow (prio_of k t) k else k)
              in cbind (ipc_wait (WaitQ (mutex_id m)) RT_IPC_FLAG_PRIO time k) (\<lambda>k. Inr (Block (k, m))))"

text \<open>What the suspended call returns once thread \<open>t\<close> runs again.\<close>

definition rt_mutex_take_resumed :: "tid \<Rightarrow> kernel \<Rightarrow> int" where
  "rt_mutex_take_resumed t k =
     (if terror (threads k t) \<noteq> RT_EOK then terror (threads k t) else RT_EOK)"

definition rt_mutex_trytake :: "mutex \<Rightarrow> kernel \<Rightarrow> (int, kernel \<times> mutex) call cres" where
  "rt_mutex_trytake m k = rt_mutex_take m 0 k"

definition rt_mutex_release :: "mutex \<Rightarrow> kernel \<Rightarrow> int \<times> kernel \<times> mutex" where
  "rt_mutex_release m k =
     (let t = rt_current_thread k
      in if mowner m \<noteq> Some t then (- RT_ERROR, set_error t (- RT_ERROR) k, m)
         else let m = m\<lparr>mhold := (mhold m + 255) mod 256\<rparr>
         in if mhold m = 0
            then let k = (if original_priority m \<noteq> prio_of k t then change_priority t (original_priority m) k else k)
                 in case mwaiters k m of
                      w # _ \<Rightarrow>
                        let m = m\<lparr>mowner := Some w, original_priority := prio_of k w\<rparr>
                        in if mhold m < RT_MUTEX_HOLD_MAX
                           then (RT_EOK, rt_schedule (ipc_list_resume (WaitQ (mutex_id m)) k), m\<lparr>mhold := mhold m + 1\<rparr>)
                           else (- RT_EFULL, k, m)
                    | [] \<Rightarrow>
                        if mvalue m < RT_MUTEX_VALUE_MAX
                        then (RT_EOK, k, m\<lparr>mvalue := mvalue m + 1, mowner := None, original_priority := 0xFF\<rparr>)
                        else (- RT_EFULL, k, m)
            else (RT_EOK, k, m))"

definition rt_mutex_detach :: "mutex \<Rightarrow> kernel \<Rightarrow> kernel cres" where
  "rt_mutex_detach m k = ipc_list_resume_all (length (mwaiters k m) + 1) (WaitQ (mutex_id m)) k"

definition rt_mutex_control :: "mutex \<Rightarrow> int" where
  "rt_mutex_control m = - RT_ERROR"

section \<open>The invariant\<close>

definition mutex_ok :: "kernel \<times> mutex \<Rightarrow> bool" where
  "mutex_ok st \<longleftrightarrow> (case st of (k, m) \<Rightarrow> kinv k \<and>
     (case mowner m of
        None \<Rightarrow> mvalue m = 1 \<and> mhold m = 0 \<and> mwaiters k m = []
      | Some ow \<Rightarrow> mvalue m = 0 \<and> 1 \<le> mhold m \<and> mhold m \<le> RT_MUTEX_HOLD_MAX \<and> ow \<notin> set (mwaiters k m)
          \<and> original_priority m < 32 \<and> prio_of k ow \<le> original_priority m
          \<and> sorted (map (prio_of k) (mwaiters k m)) \<and> (\<forall>w \<in> set (mwaiters k m). prio_of k ow \<le> prio_of k w)))"

inductive mutex_step :: "kernel \<times> mutex \<Rightarrow> kernel \<times> mutex \<Rightarrow> bool" where
  take_return: "rt_mutex_take m time k = Inr (Return e st') \<Longrightarrow>
    stat (threads k (rt_current_thread k)) = RT_THREAD_RUNNING \<Longrightarrow> mutex_step (k, m) st'"
| take_block: "rt_mutex_take m time k = Inr (Block st') \<Longrightarrow> time < 0x7FFFFFFF \<Longrightarrow>
    stat (threads k (rt_current_thread k)) = RT_THREAD_RUNNING \<Longrightarrow> mutex_step (k, m) st'"
| release: "rt_mutex_release m k = (e, st') \<Longrightarrow>
    stat (threads k (rt_current_thread k)) = RT_THREAD_RUNNING \<Longrightarrow> mutex_step (k, m) st'"
| timed_out: "t \<in> set (mwaiters k m) \<Longrightarrow> thread_timeout t k = Inr k' \<Longrightarrow> mutex_step (k, m) (k', m)"
| scheduled: "mutex_step (k, m) (rt_schedule k, m)"

lemma mutex_ok_cong:
  assumes "mutex_ok (k, m)" "kinv k'" "mwaiters k' m = mwaiters k m" "\<And>u. prio_of k' u = prio_of k u"
  shows "mutex_ok (k', m)"
proof -
  have "map (prio_of k') xs = map (prio_of k) xs" for xs using assms(4) by simp
  then show ?thesis using assms by (simp add: mutex_ok_def split: option.splits)
qed

lemma sorted_removeAll: "sorted (map f xs) \<Longrightarrow> sorted (map f (removeAll t xs))"
  by (induction xs) auto

section \<open>Every step keeps it\<close>

lemma take_return_ok:
  assumes ok: "mutex_ok (k, m)" and run: "stat (threads k (rt_current_thread k)) = RT_THREAD_RUNNING"
    and r: "rt_mutex_take m time k = Inr (Return e st')"
  shows "mutex_ok st'"
proof -
  let ?t = "rt_current_thread k"
  have inv: "kinv k" using ok by (simp add: mutex_ok_def)
  have p: "prio_of k ?t < 32" using inv kq_priority [of k ?t] by (simp add: kinv_def)
  have base: "mutex_ok (set_error ?t x k, m)" for x
    using ok kinv_set_error [OF inv] by (rule mutex_ok_cong) simp_all
  show ?thesis
  proof (cases "mowner m")
    case None
    then show ?thesis
      using ok r p kinv_set_error [OF inv]
      by (auto simp: mutex_ok_def rt_mutex_take_def Let_def cbind_eq_Inr split: if_splits)
  next
    case (Some ow)
    then have v: "mvalue m = 0" using ok by (simp add: mutex_ok_def)
    show ?thesis
    proof (cases "ow = ?t")
      case True
      then have "st' = (set_error ?t RT_EOK k, m) \<or>
          mhold m < RT_MUTEX_HOLD_MAX \<and> st' = (set_error ?t RT_EOK k, m\<lparr>mhold := mhold m + 1\<rparr>)"
        using r Some by (auto simp: rt_mutex_take_def Let_def cbind_eq_Inr split: if_splits)
      then show ?thesis using base Some by (auto simp: mutex_ok_def)
    next
      case False
      then have "st' = (set_error ?t (- RT_ETIMEOUT) (set_error ?t RT_EOK k), m)"
        using r Some v by (auto simp: rt_mutex_take_def Let_def cbind_eq_Inr split: if_splits)
      moreover have "mutex_ok (set_error ?t (- RT_ETIMEOUT) (set_error ?t RT_EOK k), m)"
        using ok by (rule mutex_ok_cong) (simp_all add: kinv_set_error inv)
      ultimately show ?thesis by simp
    qed
  qed
qed

lemma take_block_ok:
  assumes ok: "mutex_ok (k, m)" and run: "stat (threads k (rt_current_thread k)) = RT_THREAD_RUNNING"
    and time: "time < 0x7FFFFFFF" and r: "rt_mutex_take m time k = Inr (Block st')"
  shows "mutex_ok st'"
proof -
  let ?t = "rt_current_thread k"
  have inv: "kinv k" using ok by (simp add: mutex_ok_def)
  have p: "prio_of k ?t < 32" using inv kq_priority [of k ?t] by (simp add: kinv_def)
  obtain ow where ow: "mowner m = Some ow" "ow \<noteq> ?t"
    using ok r by (cases "mowner m") (auto simp: mutex_ok_def rt_mutex_take_def Let_def cbind_eq_Inr split: if_splits)
  note okD = ok [unfolded mutex_ok_def, simplified, unfolded ow(1), simplified]
  define k1 where "k1 = set_error ?t RT_EOK k"
  define k2 where "k2 = (if prio_of k1 ?t < prio_of k1 ow then change_priority ow (prio_of k1 ?t) k1 else k1)"
  have inv1: "kinv k1" using kinv_set_error [OF inv] by (simp add: k1_def)
  note cp = change_priority_kinv [OF inv1, of "prio_of k1 ?t" ow]
  have k1s: "prio_of k1 u = prio_of k u" "queues k1 = queues k" "rt_current_thread k1 = ?t" "stat (threads k1 u) = stat (threads k u)" for u
    by (simp_all add: k1_def)
  have inv2: "kinv k2" using inv1 cp(1) p by (simp add: k2_def k1s)
  have q2: "mwaiters k2 m = mwaiters k m" "rt_current_thread k2 = ?t" using cp(2,4) p by (simp_all add: k2_def k1s)
  have pr: "prio_of k2 u = (if u = ow then min (prio_of k ow) (prio_of k ?t) else prio_of k u)" for u
    using cp(3) p by (auto simp: k2_def k1s min_def)
  have run2: "stat (threads k2 (rt_current_thread k2)) = RT_THREAD_RUNNING"
    using run cp(3) p ow(2) q2(2) by (simp add: k2_def k1s)
  obtain k3 where k3: "ipc_wait (WaitQ (mutex_id m)) RT_IPC_FLAG_PRIO time k2 = Inr k3" "kinv k3"
    "mwaiters k3 m = joined k2 RT_IPC_FLAG_PRIO ?t (mwaiters k m)" "\<And>u. prio_of k3 u = prio_of k2 u"
    using ipc_wait_kinv [OF inv2 run2 _ time, of "WaitQ (mutex_id m)" RT_IPC_FLAG_PRIO] q2 by auto
  have st': "st' = (k3, m)"
    using r k3(1) ow okD
    by (cases "prio_of k ?t < prio_of k ow") (auto simp: rt_mutex_take_def Let_def cbind_eq_Inr k2_def k1_def split: if_splits)
  have wq: "\<forall>w \<in> set (mwaiters k m). w \<noteq> ow" using okD by auto
  have "map (prio_of k2) (mwaiters k m) = map (prio_of k) (mwaiters k m)" using wq by (auto simp: pr)
  then have "sorted (map (prio_of k2) (mwaiters k m))" using okD by (simp del: map_eq_conv)
  then have "sorted (map (prio_of k3) (mwaiters k3 m))"
    using prio_insert_sorted [of "prio_of k2" "mwaiters k m" ?t] k3(3,4) by (simp add: joined_def)
  moreover have "\<forall>w \<in> set (mwaiters k3 m). prio_of k3 ow \<le> prio_of k3 w"
    using okD ow(2) wq by (auto simp: k3(3,4) pr min_def)
  moreover have "ow \<notin> set (mwaiters k3 m)" using okD ow(2) by (simp add: k3(3))
  moreover have "prio_of k3 ow \<le> original_priority m" using okD by (auto simp: k3(4) pr min_def)
  ultimately show ?thesis using k3(2) okD ow(1) st' by (simp add: mutex_ok_def)
qed

lemma release_hold: "mutex_ok (k, m) \<Longrightarrow> mowner m = Some t \<Longrightarrow> (mhold m + 255) mod 256 = mhold m - 1"
  using mod_add_self2 [of "mhold m - 1" 256] by (cases "mhold m") (simp_all add: mutex_ok_def)

lemma release_early:
  assumes ok: "mutex_ok (k, m)" and owner: "mowner m = Some (rt_current_thread k)" and h: "mhold m \<noteq> 1"
  shows "rt_mutex_release m k = (RT_EOK, k, m\<lparr>mhold := mhold m - 1\<rparr>)" "mhold m > 1"
  using ok owner h release_hold [OF ok owner] by (auto simp: rt_mutex_release_def Let_def mutex_ok_def)

text \<open>The release of the last hold, up to the hand-over.\<close>

lemma release_last:
  assumes ok: "mutex_ok (k, m)" and owner: "mowner m = Some (rt_current_thread k)" and one: "mhold m = 1"
  shows "\<exists>k2. kinv k2 \<and> mwaiters k2 m = mwaiters k m
    \<and> (\<forall>u. prio_of k2 u = (if u = rt_current_thread k then original_priority m else prio_of k u))
    \<and> rt_mutex_release m k = (case mwaiters k m of
        w # _ \<Rightarrow> (RT_EOK, rt_schedule (ipc_list_resume (WaitQ (mutex_id m)) k2), m\<lparr>mowner := Some w, original_priority := prio_of k2 w, mhold := 1\<rparr>)
      | [] \<Rightarrow> (RT_EOK, k2, m\<lparr>mhold := 0, mvalue := 1, mowner := None, original_priority := 0xFF\<rparr>))"
proof -
  let ?t = "rt_current_thread k"
  have inv: "kinv k" using ok by (simp add: mutex_ok_def)
  note okD = ok [unfolded mutex_ok_def, simplified, unfolded owner, simplified]
  define k2 where "k2 = (if original_priority m \<noteq> prio_of k ?t then change_priority ?t (original_priority m) k else k)"
  note cp = change_priority_kinv [OF inv, of "original_priority m" ?t]
  have "kinv k2" using inv cp(1) okD by (simp add: k2_def)
  moreover have q2: "mwaiters k2 m = mwaiters k m" using cp(2) okD by (simp add: k2_def)
  moreover have "\<forall>u. prio_of k2 u = (if u = ?t then original_priority m else prio_of k u)"
    using cp(3) okD by (auto simp: k2_def)
  moreover have "rt_mutex_release m k = (case mwaiters k m of
      w # _ \<Rightarrow> (RT_EOK, rt_schedule (ipc_list_resume (WaitQ (mutex_id m)) k2), m\<lparr>mowner := Some w, original_priority := prio_of k2 w, mhold := 1\<rparr>)
    | [] \<Rightarrow> (RT_EOK, k2, m\<lparr>mhold := 0, mvalue := 1, mowner := None, original_priority := 0xFF\<rparr>))"
    using owner one okD q2 release_hold [OF ok owner]
    by (cases "original_priority m = prio_of k ?t"; cases "mwaiters k m") (simp_all add: rt_mutex_release_def Let_def k2_def)
  ultimately show ?thesis by blast
qed

lemma resume_schedule:
  assumes inv: "kinv k" and ne: "queues k (WaitQ n) = w # q"
  shows "kinv (rt_schedule (ipc_list_resume (WaitQ n) k))"
    "prio_of (rt_schedule (ipc_list_resume (WaitQ n) k)) u = prio_of k u"
    "queues (rt_schedule (ipc_list_resume (WaitQ n) k)) (WaitQ n) = q"
    "stat (threads (rt_schedule (ipc_list_resume (WaitQ n) k)) w) \<noteq> RT_THREAD_SUSPEND"
proof -
  note ir = ipc_list_resume_kinv [OF inv _ ne, simplified]
  note sch = rt_schedule_correct(1,2) [OF ir(1)]
  show "kinv (rt_schedule (ipc_list_resume (WaitQ n) k))" by (rule sch(1))
  show "prio_of (rt_schedule (ipc_list_resume (WaitQ n) k)) u = prio_of k u"
    unfolding same_but_schedD(2) [OF sch(2)] by (rule ir(4))
  show "queues (rt_schedule (ipc_list_resume (WaitQ n) k)) (WaitQ n) = q"
    unfolding same_but_schedD(7) [OF sch(2)] by (simp add: ir(2))
  show "stat (threads (rt_schedule (ipc_list_resume (WaitQ n) k)) w) \<noteq> RT_THREAD_SUSPEND"
    unfolding same_but_schedD(6) [OF sch(2), symmetric] using ir(5) by auto
qed

lemma release_ok:
  assumes ok: "mutex_ok (k, m)" and r: "rt_mutex_release m k = (e, st')"
  shows "mutex_ok st'"
proof -
  let ?t = "rt_current_thread k"
  have inv: "kinv k" using ok by (simp add: mutex_ok_def)
  consider "mowner m \<noteq> Some ?t" | "mowner m = Some ?t" "mhold m \<noteq> 1" | "mowner m = Some ?t" "mhold m = 1" by blast
  then show ?thesis
  proof cases
    case 1
    then have "st' = (set_error ?t (- RT_ERROR) k, m)" using r by (auto simp: rt_mutex_release_def Let_def)
    then show ?thesis using mutex_ok_cong [OF ok] inv kinv_set_error by simp
  next
    case 2
    then show ?thesis using release_early [OF ok 2] r ok by (auto simp: mutex_ok_def)
  next
    case 3
    note okD = ok [unfolded mutex_ok_def, simplified, unfolded 3(1), simplified]
    obtain k2 where k2: "kinv k2" "mwaiters k2 m = mwaiters k m"
      "\<forall>u. prio_of k2 u = (if u = ?t then original_priority m else prio_of k u)"
      and rel: "rt_mutex_release m k = (case mwaiters k m of
        w # _ \<Rightarrow> (RT_EOK, rt_schedule (ipc_list_resume (WaitQ (mutex_id m)) k2), m\<lparr>mowner := Some w, original_priority := prio_of k2 w, mhold := 1\<rparr>)
      | [] \<Rightarrow> (RT_EOK, k2, m\<lparr>mhold := 0, mvalue := 1, mowner := None, original_priority := 0xFF\<rparr>))"
      using release_last [OF ok 3] by blast
    show ?thesis
    proof (cases "mwaiters k m")
      case Nil
      then show ?thesis using r rel k2 by (auto simp: mutex_ok_def)
    next
      case (Cons w q)
      then have ne: "queues k2 (WaitQ (mutex_id m)) = w # q" using k2(2) by simp
      note rs = resume_schedule [OF k2(1) ne]
      have nt: "\<forall>u \<in> set (w # q). u \<noteq> ?t" using okD Cons by auto
      have "w \<notin> set q" using kinv_lists(1) [OF inv, of "WaitQ (mutex_id m)"] Cons by simp
      moreover have "prio_of k w < 32" using inv kq_priority [of k w] by (simp add: kinv_def)
      moreover have "map (prio_of (rt_schedule (ipc_list_resume (WaitQ (mutex_id m)) k2))) q = map (prio_of k) q"
        using nt k2(3) by (auto simp: rs(2))
      then have "sorted (map (prio_of (rt_schedule (ipc_list_resume (WaitQ (mutex_id m)) k2))) q)"
        using okD Cons by (simp del: map_eq_conv)
      moreover have "\<forall>u \<in> set q. prio_of k2 w \<le> prio_of k2 u" "prio_of k2 w = prio_of k w"
        using okD Cons nt k2(3) by auto
      ultimately show ?thesis
        using r rel Cons rs(1,3) okD by (auto simp: mutex_ok_def rs(2))
    qed
  qed
qed

text \<open>Every outcome of a release.\<close>

lemma mutex_release_cases:
  assumes ok: "mutex_ok (k, m)"
  shows "\<exists>e k' m'. rt_mutex_release m k = (e, k', m') \<and>
    (if mowner m \<noteq> Some (rt_current_thread k) then e = - RT_ERROR \<and> m' = m
     else e = RT_EOK \<and> (if mhold m > 1 then m' = m\<lparr>mhold := mhold m - 1\<rparr> \<and> k' = k
       else prio_of k' (rt_current_thread k) = original_priority m
         \<and> (case mwaiters k m of
             [] \<Rightarrow> mowner m' = None \<and> mvalue m' = 1
           | w # q \<Rightarrow> mowner m' = Some w \<and> mhold m' = 1 \<and> mvalue m' = 0 \<and> mwaiters k' m = q
               \<and> stat (threads k' w) \<noteq> RT_THREAD_SUSPEND \<and> (\<forall>u \<in> set q. prio_of k w \<le> prio_of k u))))"
proof -
  let ?t = "rt_current_thread k"
  consider "mowner m \<noteq> Some ?t" | "mowner m = Some ?t" "mhold m \<noteq> 1" | "mowner m = Some ?t" "mhold m = 1" by blast
  then show ?thesis
  proof cases
    case 1
    then show ?thesis by (simp add: rt_mutex_release_def Let_def)
  next
    case 2
    then show ?thesis using release_early [OF ok 2] by simp
  next
    case 3
    note okD = ok [unfolded mutex_ok_def, simplified, unfolded 3(1), simplified]
    obtain k2 where k2: "kinv k2" "mwaiters k2 m = mwaiters k m"
      "\<forall>u. prio_of k2 u = (if u = ?t then original_priority m else prio_of k u)"
      and rel: "rt_mutex_release m k = (case mwaiters k m of
        w # _ \<Rightarrow> (RT_EOK, rt_schedule (ipc_list_resume (WaitQ (mutex_id m)) k2), m\<lparr>mowner := Some w, original_priority := prio_of k2 w, mhold := 1\<rparr>)
      | [] \<Rightarrow> (RT_EOK, k2, m\<lparr>mhold := 0, mvalue := 1, mowner := None, original_priority := 0xFF\<rparr>))"
      using release_last [OF ok 3] by blast
    show ?thesis
    proof (cases "mwaiters k m")
      case Nil
      then show ?thesis using rel 3 k2(3) by simp
    next
      case (Cons w q)
      then have ne: "queues k2 (WaitQ (mutex_id m)) = w # q" using k2(2) by simp
      show ?thesis
        using rel 3 Cons okD k2(3) resume_schedule [OF k2(1) ne] by simp
    qed
  qed
qed

lemma mutex_step_ok: "mutex_step st st' \<Longrightarrow> mutex_ok st \<Longrightarrow> mutex_ok st'"
proof (induction rule: mutex_step.induct)
  case (take_return m time k e st')
  then show ?case by (metis take_return_ok)
next
  case (take_block m time k st')
  then show ?case by (metis take_block_ok)
next
  case (release m k e st')
  then show ?case by (metis release_ok)
next
  case (timed_out t k m k')
  have inv: "kinv k" using timed_out.prems by (simp add: mutex_ok_def)
  have t: "stat (threads k t) = RT_THREAD_SUSPEND" using hd_waiting [OF inv _ timed_out(1)] by simp
  have k': "kinv k'" "mwaiters k' m = removeAll t (mwaiters k m)" and pr: "prio_of k' u = prio_of k u" for u
    using thread_timeout_kinv [OF inv t] timed_out(2) by auto
  have "map (prio_of k') xs = map (prio_of k) xs" for xs by (simp add: pr)
  then show ?case
    using timed_out.prems k' sorted_removeAll [of "prio_of k" "mwaiters k m" t]
    by (auto simp: mutex_ok_def pr split: option.splits)
next
  case (scheduled k m)
  have inv: "kinv k" using scheduled by (simp add: mutex_ok_def)
  note sch = rt_schedule_correct(1,2) [OF inv]
  show ?case
    by (rule mutex_ok_cong [OF scheduled sch(1)]) (simp_all add: same_but_schedD [OF sch(2)])
qed

inductive mutex_reach :: "kernel \<times> mutex \<Rightarrow> bool" where
  fresh: "kinv k \<Longrightarrow> queues k (WaitQ oid) = [] \<Longrightarrow> mutex_reach (rt_mutex_init oid k)"
| step: "mutex_reach st \<Longrightarrow> mutex_step st st' \<Longrightarrow> mutex_reach st'"

lemma mutex_reach_ok: "mutex_reach st \<Longrightarrow> mutex_ok st"
proof (induction rule: mutex_reach.induct)
  case (fresh k oid)
  then have "k\<lparr>queues := (queues k)(WaitQ oid := [])\<rparr> = k" by (simp add: fun_upd_idem)
  then show ?case using fresh by (simp add: mutex_ok_def rt_mutex_init_def)
next
  case (step st st')
  then show ?case using mutex_step_ok by blast
qed

text \<open>Thread 1 has taken a new mutex.\<close>

definition held_mutex :: mutex where
  "held_mutex = \<lparr>mutex_id = 0, mvalue = 0, mowner = Some 1, original_priority = 20, mhold = 1\<rparr>"

lemma held_mutex_reach: "mutex_reach (set_error 1 RT_EOK sample_kernel, held_mutex)"
proof -
  let ?k = sample_kernel and ?m = "\<lparr>mutex_id = 0, mvalue = 1, mowner = None, original_priority = 0xFF, mhold = 0\<rparr>"
  have cur: "rt_current_thread ?k = 1" "queues ?k (WaitQ 0) = []" "lock_nest ?k = 0" "prio_of ?k 1 = 20"
    "stat (threads ?k (rt_current_thread ?k)) = RT_THREAD_RUNNING" by (simp_all add: sample_kernel_def sample_thread_def)
  have "rt_mutex_init 0 ?k = (?k, ?m)" using cur(2) by (simp add: rt_mutex_init_def fun_upd_idem)
  then have 0: "mutex_reach (?k, ?m)" using mutex_reach.fresh [OF sample_kernel_kinv cur(2)] by simp
  have "rt_mutex_take ?m 0 ?k = Inr (Return RT_EOK (set_error 1 RT_EOK ?k, held_mutex))"
    using cur by (simp add: rt_mutex_take_def held_mutex_def)
  then show ?thesis
    using mutex_step.take_return cur(5) mutex_reach.step [OF 0] by blast
qed

section \<open>Properties\<close>



text \<open>C35: only the owner can release. The release that ends its last hold gives it back the priority
  it had before it was raised and makes the first waiting thread, a most urgent one, the owner with a
  hold count of one; with nobody waiting the mutex becomes free. An earlier release only
  counts down.\<close>

theorem mutex_release_hands_over:
  assumes "mutex_reach (k, m)"
  shows "\<exists>e k' m'. rt_mutex_release m k = (e, k', m') \<and>
    (if mowner m \<noteq> Some (rt_current_thread k) then e = - RT_ERROR \<and> m' = m
     else e = RT_EOK \<and> (if mhold m > 1 then m' = m\<lparr>mhold := mhold m - 1\<rparr> \<and> k' = k
       else current_priority (threads k' (rt_current_thread k)) = original_priority m
         \<and> (case queues k (WaitQ (mutex_id m)) of
             [] \<Rightarrow> mowner m' = None \<and> mvalue m' = 1
           | w # q \<Rightarrow> mowner m' = Some w \<and> mhold m' = 1 \<and> mvalue m' = 0 \<and> queues k' (WaitQ (mutex_id m)) = q
               \<and> stat (threads k' w) \<noteq> RT_THREAD_SUSPEND
               \<and> (\<forall>u \<in> set q. current_priority (threads k w) \<le> current_priority (threads k u)))))"
  using mutex_release_cases [OF mutex_reach_ok [OF assms]] .

theorem mutex_release_hands_over_witness:
  "\<exists>k' m'. rt_mutex_release held_mutex (set_error 1 RT_EOK sample_kernel) = (RT_EOK, k', m') \<and> mowner m' = None \<and> mvalue m' = 1"
proof -
  have "rt_current_thread sample_kernel = 1" "queues sample_kernel (WaitQ 0) = []" by (simp_all add: sample_kernel_def)
  then show ?thesis
    using mutex_release_hands_over [OF held_mutex_reach] by (auto simp: held_mutex_def)
qed

end
