(* ===== verification/Ipc_Event.thy ===== *)
theory Ipc_Event
  imports Ipc_Sem
begin

unbundle bit_operations_syntax

text \<open>
  The event object of \<^verbatim>\<open>rt-thread/src/ipc.c\<close>: 32 flags, and threads that wait for all or for any of a set
  of them. The loop of \<open>rt_event_send\<close> is shown to implement a delivery of the flags along the
  waiting list, and no thread is left waiting for flags that are there.
\<close>

section \<open>State and operations\<close>

record event =
  event_id :: nat
  ev_set :: u32
  event_flag :: ipc_flag

abbreviation (input) RT_EVENT_FLAG_AND :: u8 where "RT_EVENT_FLAG_AND \<equiv> 1"
abbreviation (input) RT_EVENT_FLAG_OR :: u8 where "RT_EVENT_FLAG_OR \<equiv> 2"
abbreviation (input) RT_EVENT_FLAG_CLEAR :: u8 where "RT_EVENT_FLAG_CLEAR \<equiv> 4"

abbreviation ewaiters :: "kernel \<Rightarrow> event \<Rightarrow> tid list" where
  "ewaiters k ev \<equiv> queues k (WaitQ (event_id ev))"

definition rt_event_init :: "nat \<Rightarrow> ipc_flag \<Rightarrow> kernel \<Rightarrow> kernel \<times> event" where
  "rt_event_init oid flag k =
     (k\<lparr>queues := (queues k)(WaitQ oid := [])\<rparr>, \<lparr>event_id = oid, ev_set = 0, event_flag = flag\<rparr>)"

text \<open>The loop of \<open>rt_event_send\<close> from the node \<open>n\<close> on: the threads still to visit, the flags,
  \<open>need_schedule\<close> and the kernel. The next node is read before a thread leaves the list, so the threads
  visited are those of the list at the start.\<close>

fun event_send_loop :: "tid list \<Rightarrow> u32 \<Rightarrow> bool \<Rightarrow> kernel \<Rightarrow> int \<times> bool \<times> u32 \<times> kernel" where
  "event_send_loop [] s need k = (RT_EOK, need, s, k)"
| "event_send_loop (t # ts) s need k =
     (let th = threads k t
      in if event_info th AND RT_EVENT_FLAG_AND = 0 \<and> event_info th AND RT_EVENT_FLAG_OR = 0
         then (- RT_EINVAL, need, s, k)
         else let status = (if event_info th AND RT_EVENT_FLAG_AND \<noteq> 0 then event_set th AND s = event_set th
                            else event_set th AND s \<noteq> 0);
                  th = (if event_info th AND RT_EVENT_FLAG_AND = 0 \<and> status then th\<lparr>event_set := event_set th AND s\<rparr> else th)
              in if status
                 then event_send_loop ts
                        (if event_info th AND RT_EVENT_FLAG_CLEAR \<noteq> 0 then s AND NOT (event_set th) else s) True
                        (snd (rt_thread_resume t (upd_thread t (\<lambda>_. th) k)))
                 else event_send_loop ts s need k)"

definition rt_event_send :: "event \<Rightarrow> u32 \<Rightarrow> kernel \<Rightarrow> int \<times> kernel \<times> event" where
  "rt_event_send ev flags k =
     (if flags = 0 then (- RT_ERROR, k, ev)
      else case event_send_loop (ewaiters k ev) (ev_set ev OR flags) False k of
        (e, need, s, k) \<Rightarrow> (e, if e = RT_EOK \<and> need then rt_schedule k else k, ev\<lparr>ev_set := s\<rparr>))"

text \<open>The result carries the flags stored through \<open>recved\<close>.\<close>

definition rt_event_recv :: "event \<Rightarrow> u32 \<Rightarrow> u8 \<Rightarrow> int \<Rightarrow> kernel \<Rightarrow> (int \<times> u32 option, kernel \<times> event) call cres" where
  "rt_event_recv ev flags opt timeout k =
     cbind (rt_assert (lock_nest k = 0)) (\<lambda>_.
     if flags = 0 then Inr (Return (- RT_ERROR, None) (k, ev))
     else let t = rt_current_thread k; k = upd_thread t (\<lambda>th. th\<lparr>terror := RT_EOK\<rparr>) k
     in cbind (rt_assert (opt AND RT_EVENT_FLAG_AND \<noteq> 0 \<or> opt AND RT_EVENT_FLAG_OR \<noteq> 0)) (\<lambda>_.
        if (if opt AND RT_EVENT_FLAG_AND \<noteq> 0 then ev_set ev AND flags = flags else ev_set ev AND flags \<noteq> 0)
        then Inr (Return (RT_EOK, Some (ev_set ev AND flags))
               (upd_thread t (\<lambda>th. th\<lparr>event_set := ev_set ev AND flags, event_info := opt\<rparr>) k,
                if opt AND RT_EVENT_FLAG_CLEAR \<noteq> 0 then ev\<lparr>ev_set := ev_set ev AND NOT flags\<rparr> else ev))
        else if timeout = 0
        then Inr (Return (- RT_ETIMEOUT, None) (upd_thread t (\<lambda>th. th\<lparr>terror := - RT_ETIMEOUT\<rparr>) k, ev))
        else let k = upd_thread t (\<lambda>th. th\<lparr>event_set := flags, event_info := opt\<rparr>) k
             in cbind (ipc_wait (WaitQ (event_id ev)) (event_flag ev) timeout k) (\<lambda>k. Inr (Block (k, ev)))))"

text \<open>What the suspended call returns once thread \<open>t\<close> runs again.\<close>

definition rt_event_recv_resumed :: "tid \<Rightarrow> kernel \<Rightarrow> int \<times> u32 option" where
  "rt_event_recv_resumed t k =
     (if terror (threads k t) \<noteq> RT_EOK then (terror (threads k t), None) else (RT_EOK, Some (event_set (threads k t))))"

definition rt_event_control :: "bool \<Rightarrow> event \<Rightarrow> kernel \<Rightarrow> (int \<times> kernel \<times> event) cres" where
  "rt_event_control reset ev k =
     (if reset
      then cbind (ipc_list_resume_all (length (ewaiters k ev) + 1) (WaitQ (event_id ev)) k) (\<lambda>k.
           Inr (RT_EOK, rt_schedule k, ev\<lparr>ev_set := 0\<rparr>))
      else Inr (- RT_ERROR, k, ev))"

definition rt_event_detach :: "event \<Rightarrow> kernel \<Rightarrow> kernel cres" where
  "rt_event_detach ev k = ipc_list_resume_all (length (ewaiters k ev) + 1) (WaitQ (event_id ev)) k"

section \<open>Delivery of flags\<close>

text \<open>The specification: a wait for \<open>want\<close> is over when all, or any, of its flags are set; it then
  receives them and, with \<open>RT_EVENT_FLAG_CLEAR\<close>, takes them away.\<close>

definition valid_wait :: "u8 \<Rightarrow> bool" where
  "valid_wait info \<longleftrightarrow> info AND RT_EVENT_FLAG_AND \<noteq> 0 \<or> info AND RT_EVENT_FLAG_OR \<noteq> 0"

definition satisfied :: "u8 \<Rightarrow> u32 \<Rightarrow> u32 \<Rightarrow> bool" where
  "satisfied info want flags \<longleftrightarrow> (if info AND RT_EVENT_FLAG_AND \<noteq> 0 then want AND flags = want else want AND flags \<noteq> 0)"

fun deliver :: "(tid \<Rightarrow> u8) \<Rightarrow> (tid \<Rightarrow> u32) \<Rightarrow> tid list \<Rightarrow> u32 \<Rightarrow> (tid \<times> u32) list \<times> u32" where
  "deliver info want [] s = ([], s)"
| "deliver info want (t # ts) s =
     (if satisfied (info t) (want t) s
      then let got = want t AND s;
               r = deliver info want ts (if info t AND RT_EVENT_FLAG_CLEAR \<noteq> 0 then s AND NOT got else s)
           in ((t, got) # fst r, snd r)
      else deliver info want ts s)"

lemma sub_trans: "a AND b = a \<Longrightarrow> b AND c = b \<Longrightarrow> a AND c = a" for a b c :: u32
  by (metis and.assoc)

lemma deliver_subset:
  "snd (deliver info want ts s) AND s = snd (deliver info want ts s)" "fst ` set (fst (deliver info want ts s)) \<subseteq> set ts"
proof -
  show "snd (deliver info want ts s) AND s = snd (deliver info want ts s)"
  proof (induction info want ts s rule: deliver.induct)
    case (2 info want t ts s)
    let ?s = "if info t AND 4 \<noteq> 0 then s AND NOT (want t AND s) else s"
    show ?case
    proof (cases "satisfied (info t) (want t) s")
      case True
      then have "snd (deliver info want ts ?s) AND ?s = snd (deliver info want ts ?s)" using 2(1) by simp
      moreover have "?s AND s = ?s" by (auto simp: bit_eq_iff bit_simps)
      ultimately have "snd (deliver info want ts ?s) AND s = snd (deliver info want ts ?s)" by (rule sub_trans)
      then show ?thesis using True by (simp add: Let_def)
    next
      case False
      then show ?thesis using 2(2) by simp
    qed
  qed simp
  show "fst ` set (fst (deliver info want ts s)) \<subseteq> set ts"
  proof -
    have "x \<in> set (fst (deliver info want ts s)) \<Longrightarrow> fst x \<in> set ts" for x
      by (induction ts arbitrary: s) (auto simp: Let_def split: if_splits)
    then show ?thesis by blast
  qed
qed

lemma satisfied_mono: "satisfied info want s \<Longrightarrow> s AND s' = s \<Longrightarrow> satisfied info want s'"
  unfolding satisfied_def by (auto simp: bit_eq_iff bit_simps split: if_splits)

text \<open>Nobody is passed over: a thread the delivery leaves is not satisfied by the remaining flags.\<close>

lemma deliver_complete:
  "u \<in> set ts \<Longrightarrow> u \<notin> fst ` set (fst (deliver info want ts s)) \<Longrightarrow> \<not> satisfied (info u) (want u) (snd (deliver info want ts s))"
proof (induction info want ts s rule: deliver.induct)
  case (2 info want t ts s)
  then show ?case
    using satisfied_mono [of "info t" "want t" "snd (deliver info want ts s)" s] deliver_subset(1) [of info want ts s]
    by (auto simp: Let_def split: if_splits)
qed simp

lemma deliver_cong:
  "(\<And>u. u \<in> set ts \<Longrightarrow> info u = info' u \<and> want u = want' u) \<Longrightarrow> deliver info want ts s = deliver info' want' ts s"
  by (induction ts arbitrary: s) (auto simp: Let_def)

lemma deliver_distinct: "distinct ts \<Longrightarrow> distinct (map fst (fst (deliver info want ts s)))"
proof (induction info want ts s rule: deliver.induct)
  case (2 info want t ts s)
  then show ?case using deliver_subset(2) [of info want ts] by (fastforce simp: Let_def)
qed simp

section \<open>The send loop implements it\<close>

abbreviation delivery :: "kernel \<Rightarrow> tid list \<Rightarrow> u32 \<Rightarrow> (tid \<times> u32) list \<times> u32" where
  "delivery k \<equiv> deliver (\<lambda>u. event_info (threads k u)) (\<lambda>u. event_set (threads k u))"

lemma event_resume:
  assumes inv: "kinv k" and t: "t \<in> set (queues k (WaitQ n))" and th: "th = (threads k t)\<lparr>event_set := got\<rparr>"
  defines "k1 \<equiv> snd (rt_thread_resume t (upd_thread t (\<lambda>_. th) k))"
  shows "kinv k1" "\<And>u. u \<noteq> t \<Longrightarrow> threads k1 u = threads k u" "event_set (threads k1 t) = got"
    "event_info (threads k1 t) = event_info (threads k t)" "terror (threads k1 t) = terror (threads k t)"
    "stat (threads k1 t) \<noteq> RT_THREAD_SUSPEND" "queues k1 (WaitQ m) = removeAll t (queues k (WaitQ m))"
proof -
  let ?k = "upd_thread t (\<lambda>_. th) k"
  have e: "?k = upd_thread t (\<lambda>x. x\<lparr>event_set := got\<rparr>) k" by (simp add: upd_thread_def th)
  have inv': "kinv ?k" unfolding e using inv by (rule kinv_upd) simp_all
  have st: "stat (threads ?k t) = RT_THREAD_SUSPEND" using hd_waiting [OF inv _ t] th by simp
  obtain k' where k': "rt_thread_resume t ?k = (RT_EOK, k')" "kinv k'"
    "\<forall>u. u \<noteq> t \<longrightarrow> threads k' u = threads ?k u"
    "threads k' t = (threads ?k t)\<lparr>thread_timer := None,
         stat := (if t = rt_current_thread ?k then RT_THREAD_RUNNING else RT_THREAD_READY)\<rparr>"
    "\<forall>n. queues k' (WaitQ n) = removeAll t (queues ?k (WaitQ n)) \<and> queues k' (SenderQ n) = removeAll t (queues ?k (SenderQ n))"
    using rt_thread_resume_kinv [OF inv' st] by blast
  show "kinv k1" "\<And>u. u \<noteq> t \<Longrightarrow> threads k1 u = threads k u" "event_set (threads k1 t) = got"
    "event_info (threads k1 t) = event_info (threads k t)" "terror (threads k1 t) = terror (threads k t)"
    "stat (threads k1 t) \<noteq> RT_THREAD_SUSPEND" "queues k1 (WaitQ m) = removeAll t (queues k (WaitQ m))"
    using k' th by (simp_all add: k1_def)
qed

text \<open>What a delivery leaves behind, seen from the kernel before it.\<close>

definition delivered :: "nat \<Rightarrow> tid list \<Rightarrow> (tid \<times> u32) list \<Rightarrow> kernel \<Rightarrow> kernel \<Rightarrow> bool" where
  "delivered n ts ws k k' \<longleftrightarrow> kinv k'
     \<and> queues k' (WaitQ n) = filter (\<lambda>u. u \<notin> fst ` set ws) (queues k (WaitQ n))
     \<and> (\<forall>u. event_info (threads k' u) = event_info (threads k u) \<and> terror (threads k' u) = terror (threads k u))
     \<and> (\<forall>u. u \<notin> fst ` set ws \<longrightarrow> threads k' u = threads k u)
     \<and> (\<forall>(u, got) \<in> set ws. event_set (threads k' u) = got \<and> stat (threads k' u) \<noteq> RT_THREAD_SUSPEND)"

lemma event_send_loop_delivers:
  assumes "kinv k" "distinct ts" "set ts \<subseteq> set (queues k (WaitQ n))" "\<forall>t \<in> set ts. valid_wait (event_info (threads k t))"
  shows "\<exists>k'. event_send_loop ts s need k = (RT_EOK, need \<or> fst (delivery k ts s) \<noteq> [], snd (delivery k ts s), k')
    \<and> delivered n ts (fst (delivery k ts s)) k k'"
  using assms
proof (induction ts arbitrary: s need k)
  case Nil
  then show ?case by (simp add: delivered_def)
next
  case (Cons t ts)
  let ?th = "threads k t"
  have v: "valid_wait (event_info ?th)" using Cons.prems by simp
  show ?case
  proof (cases "satisfied (event_info ?th) (event_set ?th) s")
    case False
    then show ?thesis using Cons.IH [of k s need] Cons.prems v
      by (auto simp: satisfied_def valid_wait_def Let_def delivered_def split: if_splits)
  next
    case True
    let ?got = "event_set ?th AND s" and ?s = "if event_info ?th AND 4 \<noteq> 0 then s AND NOT (event_set ?th AND s) else s"
    define k1 where "k1 = snd (rt_thread_resume t (upd_thread t (\<lambda>_. ?th\<lparr>event_set := ?got\<rparr>) k))"
    have t: "t \<in> set (queues k (WaitQ n))" using Cons.prems by simp
    note r = event_resume [OF Cons.prems(1) t refl, where got = ?got, folded k1_def]
    have sub: "set ts \<subseteq> set (queues k1 (WaitQ n))" "distinct ts" "t \<notin> set ts" using Cons.prems r(7) by auto
    have keep: "threads k1 u = threads k u" if "u \<in> set ts" for u using r(2) [of u] that sub(3) by blast
    then have v1: "\<forall>t \<in> set ts. valid_wait (event_info (threads k1 t))" using Cons.prems by simp
    have d: "delivery k1 ts ?s = delivery k ts ?s" by (rule deliver_cong) (simp add: keep)
    obtain k' where k': "event_send_loop ts ?s True k1 = (RT_EOK, True, snd (delivery k ts ?s), k')"
      "delivered n ts (fst (delivery k ts ?s)) k1 k'"
      using Cons.IH [OF r(1) sub(2,1) v1, of ?s True] unfolding d by auto
    have got: "event_info ?th AND 1 \<noteq> 0 \<Longrightarrow> ?got = event_set ?th" using True by (simp add: satisfied_def)
    have loop: "event_send_loop (t # ts) s need k = event_send_loop ts ?s True k1"
    proof (cases "event_info ?th AND 1 = 0")
      case True
      then show ?thesis using \<open>satisfied _ _ _\<close> v by (simp add: satisfied_def valid_wait_def Let_def k1_def)
    next
      case False
      then show ?thesis using True v got [OF False] by (simp add: satisfied_def valid_wait_def Let_def k1_def)
    qed
    have del: "delivery k (t # ts) s = ((t, ?got) # fst (delivery k ts ?s), snd (delivery k ts ?s))"
      using True by (simp add: Let_def)
    have nt: "t \<notin> fst ` set (fst (delivery k ts ?s))" using deliver_subset(2) sub(3) by blast
    have "delivered n (t # ts) ((t, ?got) # fst (delivery k ts ?s)) k k'"
      unfolding delivered_def
    proof (intro conjI)
      have "kinv k \<Longrightarrow> removeAll t q = filter (\<lambda>u. u \<noteq> t) q" for q by (simp add: removeAll_filter_not_eq eq_commute)
      then show "queues k' (WaitQ n) = filter (\<lambda>u. u \<notin> fst ` set ((t, ?got) # fst (delivery k ts ?s))) (queues k (WaitQ n))"
        using k'(2) r(7) Cons.prems(1) by (simp add: delivered_def conj_commute)
      show "\<forall>u. event_info (threads k' u) = event_info (threads k u) \<and> terror (threads k' u) = terror (threads k u)"
        using k'(2) r(2,4,5) unfolding delivered_def by metis
      show "\<forall>u. u \<notin> fst ` set ((t, ?got) # fst (delivery k ts ?s)) \<longrightarrow> threads k' u = threads k u"
        using k'(2) r(2) by (simp add: delivered_def)
      have "threads k' t = threads k1 t" using k'(2) nt by (simp add: delivered_def)
      then show "\<forall>(u, got) \<in> set ((t, ?got) # fst (delivery k ts ?s)). event_set (threads k' u) = got \<and> stat (threads k' u) \<noteq> RT_THREAD_SUSPEND"
        using k'(2) r(3,6) by (simp add: delivered_def)
    qed (use k'(2) in \<open>simp add: delivered_def\<close>)
    then show ?thesis using loop del k'(1) by simp
  qed
qed

text \<open>The whole send.\<close>

lemma same_delivered:
  assumes d: "delivered n ts ws k k'" and same: "same_but_sched k' k''" "kinv k''"
  shows "kinv k''" "queues k'' (WaitQ n) = filter (\<lambda>u. u \<notin> fst ` set ws) (queues k (WaitQ n))"
    "terror (threads k'' u) = terror (threads k u)" "event_info (threads k'' u) = event_info (threads k u)"
    "u \<notin> fst ` set ws \<Longrightarrow> event_set (threads k'' u) = event_set (threads k u)"
    "(u, got) \<in> set ws \<Longrightarrow> event_set (threads k'' u) = got \<and> stat (threads k'' u) \<noteq> RT_THREAD_SUSPEND"
proof -
  show "kinv k''" by (rule same(2))
  show "queues k'' (WaitQ n) = filter (\<lambda>u. u \<notin> fst ` set ws) (queues k (WaitQ n))"
    unfolding same_but_schedD(7) [OF same(1)] using d by (simp add: delivered_def)
  show "terror (threads k'' u) = terror (threads k u)" "event_info (threads k'' u) = event_info (threads k u)"
    unfolding same_but_schedD(1,4) [OF same(1)] using d by (simp_all add: delivered_def)
  show "u \<notin> fst ` set ws \<Longrightarrow> event_set (threads k'' u) = event_set (threads k u)"
    unfolding same_but_schedD(3) [OF same(1)] using d by (simp add: delivered_def)
  show "(u, got) \<in> set ws \<Longrightarrow> event_set (threads k'' u) = got \<and> stat (threads k'' u) \<noteq> RT_THREAD_SUSPEND"
    unfolding same_but_schedD(3) [OF same(1)] same_but_schedD(6) [OF same(1), symmetric] using d by (auto simp: delivered_def)
qed

lemma same_but_sched_refl: "same_but_sched k k"
  by (rule same_but_schedI [where s = "\<lambda>t. stat (threads k t)" and y = "\<lambda>t. yield_flag (threads k t)"]) simp_all

lemma rt_event_send_delivers:
  assumes inv: "kinv k" and v: "\<forall>t \<in> set (ewaiters k ev). valid_wait (event_info (threads k t))" and f: "flags \<noteq> 0"
  shows "\<exists>k' k1. rt_event_send ev flags k = (RT_EOK, k', ev\<lparr>ev_set := snd (delivery k (ewaiters k ev) (ev_set ev OR flags))\<rparr>)
    \<and> delivered (event_id ev) (ewaiters k ev) (fst (delivery k (ewaiters k ev) (ev_set ev OR flags))) k k1
    \<and> same_but_sched k1 k' \<and> kinv k'"
proof -
  let ?r = "delivery k (ewaiters k ev) (ev_set ev OR flags)"
  obtain k1 where k1: "event_send_loop (ewaiters k ev) (ev_set ev OR flags) False k = (RT_EOK, fst ?r \<noteq> [], snd ?r, k1)"
    "delivered (event_id ev) (ewaiters k ev) (fst ?r) k k1"
    using event_send_loop_delivers [OF inv kinv_lists(1) [OF inv] subset_refl v, of "ev_set ev OR flags" False] by auto
  have "kinv k1" using k1(2) by (simp add: delivered_def)
  then show ?thesis
    using k1 f rt_schedule_correct(1,2) same_but_sched_refl by (cases "fst ?r = []") (auto simp: rt_event_send_def)
qed

section \<open>No lost wake-up\<close>

definition event_ok :: "kernel \<times> event \<Rightarrow> bool" where
  "event_ok st \<longleftrightarrow> (case st of (k, ev) \<Rightarrow> kinv k \<and>
     (\<forall>t \<in> set (ewaiters k ev). valid_wait (event_info (threads k t))
        \<and> \<not> satisfied (event_info (threads k t)) (event_set (threads k t)) (ev_set ev)))"

inductive event_step :: "kernel \<times> event \<Rightarrow> kernel \<times> event \<Rightarrow> bool" where
  recv_return: "rt_event_recv ev flags opt timeout k = Inr (Return r st') \<Longrightarrow>
    stat (threads k (rt_current_thread k)) = RT_THREAD_RUNNING \<Longrightarrow> event_step (k, ev) st'"
| recv_block: "rt_event_recv ev flags opt timeout k = Inr (Block st') \<Longrightarrow> timeout < 0x7FFFFFFF \<Longrightarrow>
    stat (threads k (rt_current_thread k)) = RT_THREAD_RUNNING \<Longrightarrow> event_step (k, ev) st'"
| send: "rt_event_send ev flags k = (e, st') \<Longrightarrow> event_step (k, ev) st'"
| reset: "rt_event_control True ev k = Inr (e, st') \<Longrightarrow> event_step (k, ev) st'"
| timed_out: "t \<in> set (ewaiters k ev) \<Longrightarrow> thread_timeout t k = Inr k' \<Longrightarrow> event_step (k, ev) (k', ev)"
| scheduled: "event_step (k, ev) (rt_schedule k, ev)"

lemma event_ok_same:
  assumes ok: "event_ok (k, ev)" and k': "kinv k'" "set (ewaiters k' ev) \<subseteq> set (ewaiters k ev)"
    "\<And>u. u \<in> set (ewaiters k ev) \<Longrightarrow> event_set (threads k' u) = event_set (threads k u) \<and> event_info (threads k' u) = event_info (threads k u)"
  shows "event_ok (k', ev)"
  using assms by (auto simp: event_ok_def)

lemma event_ok_less: "event_ok (k, ev) \<Longrightarrow> s AND ev_set ev = s \<Longrightarrow> event_ok (k, ev\<lparr>ev_set := s\<rparr>)"
  using satisfied_mono by (auto simp: event_ok_def)

lemma recv_return_ok:
  assumes ok: "event_ok (k, ev)" and run: "stat (threads k (rt_current_thread k)) = RT_THREAD_RUNNING"
    and r: "rt_event_recv ev flags opt timeout k = Inr (Return e st')"
  shows "event_ok st'"
proof -
  let ?t = "rt_current_thread k"
  have inv: "kinv k" using ok by (simp add: event_ok_def)
  have nt: "?t \<notin> set (ewaiters k ev)" using running_not_waiting(1) [OF inv run] .
  have up: "event_ok (upd_thread ?t f (upd_thread ?t (\<lambda>th. th\<lparr>terror := RT_EOK\<rparr>) k), ev)"
    if "\<And>th. stat (f th) = stat th" "\<And>th. current_priority (f th) = current_priority th" for f
    using ok nt that by (intro event_ok_same [OF ok] kinv_upd inv) auto
  have le: "(ev_set ev AND NOT flags) AND ev_set ev = ev_set ev AND NOT flags"
    by (auto simp: bit_eq_iff bit_simps)
  show ?thesis
    using r ok up [of "\<lambda>th. th\<lparr>event_set := ev_set ev AND flags, event_info := opt\<rparr>"] up [of "\<lambda>th. th\<lparr>terror := - RT_ETIMEOUT\<rparr>"]
      event_ok_less [OF up [of "\<lambda>th. th\<lparr>event_set := ev_set ev AND flags, event_info := opt\<rparr>"] le]
    by (simp add: rt_event_recv_def Let_def cbind_eq_Inr split: if_splits)
qed

lemma recv_block_ok:
  assumes ok: "event_ok (k, ev)" and run: "stat (threads k (rt_current_thread k)) = RT_THREAD_RUNNING"
    and time: "timeout < 0x7FFFFFFF" and r: "rt_event_recv ev flags opt timeout k = Inr (Block st')"
  shows "event_ok st'"
proof -
  let ?t = "rt_current_thread k"
  let ?k1 = "upd_thread ?t (\<lambda>th. th\<lparr>terror := RT_EOK\<rparr>) k"
  let ?k2 = "upd_thread ?t (\<lambda>th. th\<lparr>event_set := flags, event_info := opt\<rparr>) ?k1"
  have inv: "kinv k" using ok by (simp add: event_ok_def)
  have inv2: "kinv ?k2" by (intro kinv_upd inv) simp_all
  have run2: "stat (threads ?k2 (rt_current_thread ?k2)) = RT_THREAD_RUNNING" using run by simp
  obtain k3 where k3: "ipc_wait (WaitQ (event_id ev)) (event_flag ev) timeout ?k2 = Inr k3" "kinv k3"
    "set (ewaiters k3 ev) = insert ?t (set (ewaiters k ev))"
    "\<And>u. event_set (threads k3 u) = event_set (threads ?k2 u) \<and> event_info (threads k3 u) = event_info (threads ?k2 u)"
    using ipc_wait_kinv [OF inv2 run2 _ time, of "WaitQ (event_id ev)" "event_flag ev"] by auto
  have nt: "?t \<notin> set (ewaiters k ev)" using running_not_waiting(1) [OF inv run] .
  have st': "st' = (k3, ev)" "valid_wait opt" "\<not> satisfied opt flags (ev_set ev)"
    using r k3(1) by (auto simp: rt_event_recv_def Let_def cbind_eq_Inr valid_wait_def satisfied_def and.commute split: if_splits)
  show ?thesis
    using ok k3(2,3) nt st' by (auto simp: event_ok_def k3(4))
qed

lemma send_ok:
  assumes ok: "event_ok (k, ev)" and r: "rt_event_send ev flags k = (e, st')"
  shows "event_ok st'"
proof (cases "flags = 0")
  case True
  then show ?thesis using ok r by (simp add: rt_event_send_def)
next
  case False
  let ?r = "delivery k (ewaiters k ev) (ev_set ev OR flags)"
  have inv: "kinv k" and v: "\<forall>t \<in> set (ewaiters k ev). valid_wait (event_info (threads k t))" using ok by (auto simp: event_ok_def)
  obtain k' k1 where k': "rt_event_send ev flags k = (RT_EOK, k', ev\<lparr>ev_set := snd ?r\<rparr>)"
    "delivered (event_id ev) (ewaiters k ev) (fst ?r) k k1" "same_but_sched k1 k'" "kinv k'"
    using rt_event_send_delivers [OF inv v False] by blast
  note d = same_delivered [OF k'(2-4)]
  show ?thesis
    using r k'(1,4) v d(2,4,5) deliver_complete [of _ "ewaiters k ev" "\<lambda>u. event_info (threads k u)" "\<lambda>u. event_set (threads k u)" "ev_set ev OR flags"]
    by (auto simp: event_ok_def)
qed

lemma event_step_ok: "event_step st st' \<Longrightarrow> event_ok st \<Longrightarrow> event_ok st'"
proof (induction rule: event_step.induct)
  case (recv_return ev flags opt timeout k r st')
  then show ?case by (metis recv_return_ok)
next
  case (recv_block ev flags opt timeout k st')
  then show ?case by (metis recv_block_ok)
next
  case (send ev flags k e st')
  then show ?case by (metis send_ok)
next
  case (reset ev k e st')
  then have inv: "kinv k" by (simp add: event_ok_def)
  obtain k1 where k1: "ipc_list_resume_all (length (ewaiters k ev) + 1) (WaitQ (event_id ev)) k = Inr k1" "kinv k1" "ewaiters k1 ev = []"
    using ipc_list_resume_all_kinv [OF inv, of "WaitQ (event_id ev)" "length (ewaiters k ev) + 1"] by (auto simp del: ipc_list_resume_all.simps)
  note sch = rt_schedule_correct(1,2) [OF k1(2)]
  show ?case
    using reset k1 sch(1) same_but_schedD(7) [OF sch(2)] by (auto simp: rt_event_control_def event_ok_def simp del: ipc_list_resume_all.simps)
next
  case (timed_out t k ev k')
  have inv: "kinv k" using timed_out.prems by (simp add: event_ok_def)
  have t: "stat (threads k t) = RT_THREAD_SUSPEND" using hd_waiting [OF inv _ timed_out(1)] by simp
  show ?case
    using thread_timeout_kinv [OF inv t] timed_out(2) by (intro event_ok_same [OF timed_out.prems]) auto
next
  case (scheduled k ev)
  have inv: "kinv k" using scheduled by (simp add: event_ok_def)
  note sch = rt_schedule_correct(1,2) [OF inv]
  show ?case by (rule event_ok_same [OF scheduled sch(1)]) (simp_all add: same_but_schedD [OF sch(2)])
qed

inductive event_reach :: "kernel \<times> event \<Rightarrow> bool" where
  fresh: "kinv k \<Longrightarrow> queues k (WaitQ oid) = [] \<Longrightarrow> event_reach (rt_event_init oid flag k)"
| step: "event_reach st \<Longrightarrow> event_step st st' \<Longrightarrow> event_reach st'"

lemma event_reach_ok: "event_reach st \<Longrightarrow> event_ok st"
proof (induction rule: event_reach.induct)
  case (fresh k oid flag)
  then have "k\<lparr>queues := (queues k)(WaitQ oid := [])\<rparr> = k" by (simp add: fun_upd_idem)
  then show ?case using fresh by (simp add: event_ok_def rt_event_init_def)
next
  case (step st st')
  then show ?case using event_step_ok by blast
qed

text \<open>Thread 1 waits for the flags 0 and 2 of a new event.\<close>

lemma event_waiting_reach:
  "\<exists>k. event_reach (k, \<lparr>event_id = 0, ev_set = 0, event_flag = RT_IPC_FLAG_FIFO\<rparr>) \<and> queues k (WaitQ 0) = [1]
     \<and> event_info (threads k 1) = 1 \<and> event_set (threads k 1) = 5 \<and> terror (threads k 1) = RT_EOK"
proof -
  let ?k = sample_kernel and ?ev = "\<lparr>event_id = 0, ev_set = 0, event_flag = RT_IPC_FLAG_FIFO\<rparr>"
  have cur: "rt_current_thread ?k = 1" "queues ?k (WaitQ 0) = []" "lock_nest ?k = 0"
    "stat (threads ?k (rt_current_thread ?k)) = RT_THREAD_RUNNING" by (simp_all add: sample_kernel_def sample_thread_def)
  have "rt_event_init 0 RT_IPC_FLAG_FIFO ?k = (?k, ?ev)" using cur(2) by (simp add: rt_event_init_def fun_upd_idem)
  then have 0: "event_reach (?k, ?ev)" using event_reach.fresh [OF sample_kernel_kinv cur(2)] by metis
  let ?k2 = "upd_thread 1 (\<lambda>th. th\<lparr>event_set := 5, event_info := 1\<rparr>) (upd_thread 1 (\<lambda>th. th\<lparr>terror := RT_EOK\<rparr>) ?k)"
  have inv2: "kinv ?k2" by (intro kinv_upd sample_kernel_kinv) simp_all
  have run2: "stat (threads ?k2 (rt_current_thread ?k2)) = RT_THREAD_RUNNING" using cur by simp
  obtain k3 where k3: "ipc_wait (WaitQ 0) RT_IPC_FLAG_FIFO (- 1) ?k2 = Inr k3" "queues k3 (WaitQ 0) = [1]"
    "event_info (threads k3 1) = 1" "event_set (threads k3 1) = 5" "terror (threads k3 1) = RT_EOK"
    using ipc_wait_kinv [OF inv2 run2, of "WaitQ 0" "- 1" RT_IPC_FLAG_FIFO] cur(1,2) by (auto simp: joined_def)
  have "rt_event_recv ?ev 5 1 (- 1) ?k = Inr (Block (k3, ?ev))"
    using k3(1) cur by (simp add: rt_event_recv_def Let_def)
  then have "event_reach (k3, ?ev)"
    using event_step.recv_block cur(4) event_reach.step [OF 0] by fastforce
  then show ?thesis using k3(2-5) by blast
qed

section \<open>Properties\<close>

text \<open>C28: no wake-up of an event is lost: over every interleaving of sends, receives, resets, timeouts and
  scheduling, no thread is left waiting whose condition (all, or any, of its flags) the flags of
  the event fulfil.\<close>

theorem event_no_lost_wakeup:
  assumes "event_reach (k, ev)" and "t \<in> set (queues k (WaitQ (event_id ev)))"
  shows "stat (threads k t) = RT_THREAD_SUSPEND \<and> \<not> satisfied (event_info (threads k t)) (event_set (threads k t)) (ev_set ev)"
proof -
  have ok: "event_ok (k, ev)" by (rule event_reach_ok [OF assms(1)])
  then have "kinv k" by (simp add: event_ok_def)
  then show ?thesis using ok assms(2) hd_waiting [of k "WaitQ (event_id ev)" t] by (auto simp: event_ok_def)
qed

theorem event_no_lost_wakeup_witness:
  "\<exists>k. event_reach (k, \<lparr>event_id = 0, ev_set = 0, event_flag = RT_IPC_FLAG_FIFO\<rparr>) \<and> 1 \<in> set (queues k (WaitQ 0))
     \<and> stat (threads k 1) = RT_THREAD_SUSPEND"
proof -
  obtain k where k: "event_reach (k, \<lparr>event_id = 0, ev_set = 0, event_flag = RT_IPC_FLAG_FIFO\<rparr>)" "queues k (WaitQ 0) = [1]"
    using event_waiting_reach by blast
  then show ?thesis using event_no_lost_wakeup [OF k(1), of 1] by (intro exI [of _ k]) simp
qed

text \<open>C29: sending flags returns \<open>RT_EOK\<close> and implements the delivery along the waiting list: exactly the
  threads whose condition is met when the flags reach them leave the list and can run, each with
  the flags it was waiting for, the flags taken by \<open>RT_EVENT_FLAG_CLEAR\<close> are gone for the threads
  behind it and for the event, and the others stay in their order.\<close>

theorem event_send_implements_delivery:
  assumes "event_reach (k, ev)" and "flags \<noteq> 0"
  shows "\<exists>k'. rt_event_send ev flags k = (RT_EOK, k', ev\<lparr>ev_set := snd (delivery k (ewaiters k ev) (ev_set ev OR flags))\<rparr>)
    \<and> queues k' (WaitQ (event_id ev)) = filter (\<lambda>u. u \<notin> fst ` set (fst (delivery k (ewaiters k ev) (ev_set ev OR flags)))) (ewaiters k ev)
    \<and> (\<forall>(t, got) \<in> set (fst (delivery k (ewaiters k ev) (ev_set ev OR flags))).
         stat (threads k' t) \<noteq> RT_THREAD_SUSPEND \<and> event_set (threads k' t) = got
         \<and> (terror (threads k t) = RT_EOK \<longrightarrow> rt_event_recv_resumed t k' = (RT_EOK, Some got)))"
proof -
  let ?r = "delivery k (ewaiters k ev) (ev_set ev OR flags)"
  have inv: "kinv k" and v: "\<forall>t \<in> set (ewaiters k ev). valid_wait (event_info (threads k t))"
    using event_reach_ok [OF assms(1)] by (auto simp: event_ok_def)
  obtain k' k1 where k': "rt_event_send ev flags k = (RT_EOK, k', ev\<lparr>ev_set := snd ?r\<rparr>)"
    "delivered (event_id ev) (ewaiters k ev) (fst ?r) k k1" "same_but_sched k1 k'" "kinv k'"
    using rt_event_send_delivers [OF inv v assms(2)] by blast
  note d = same_delivered [OF k'(2-4)]
  show ?thesis
    using k'(1) d(2,3,6) by (intro exI [of _ k']) (auto simp: rt_event_recv_resumed_def)
qed

theorem event_send_implements_delivery_witness:
  "\<exists>k k'. rt_event_send \<lparr>event_id = 0, ev_set = 0, event_flag = RT_IPC_FLAG_FIFO\<rparr> 7 k
      = (RT_EOK, k', \<lparr>event_id = 0, ev_set = 7, event_flag = RT_IPC_FLAG_FIFO\<rparr>)
    \<and> queues k (WaitQ 0) = [1] \<and> queues k' (WaitQ 0) = [] \<and> rt_event_recv_resumed 1 k' = (RT_EOK, Some 5)"
proof -
  obtain k where k: "event_reach (k, \<lparr>event_id = 0, ev_set = 0, event_flag = RT_IPC_FLAG_FIFO\<rparr>)" "queues k (WaitQ 0) = [1]"
    "event_info (threads k 1) = 1" "event_set (threads k 1) = 5" "terror (threads k 1) = RT_EOK"
    using event_waiting_reach by blast
  have "delivery k [1] 7 = ([(1, 5)], 7)" using k(3,4) by (simp add: satisfied_def Let_def)
  then show ?thesis using event_send_implements_delivery [OF k(1), of 7] k(2,5) by auto
qed

end
