(* ===== verification/Ipc_Queue.thy ===== *)
theory Ipc_Queue
  imports Ipc_Sem
begin

text \<open>
  What the mailbox and the message queue of \<^verbatim>\<open>rt-thread/src/ipc.c\<close> share: the bounded queue of messages with
  an urgent end that both promise to their clients, as an interface, and the time that remains
  of a timeout when a waiting call is resumed.
\<close>

section \<open>Remaining time\<close>

text \<open>\<open>timeout -= tick_delta\<close> on a signed timeout and an unsigned tick count of 32 bits, cut off at 0.\<close>

definition remaining :: "int \<Rightarrow> u32 \<Rightarrow> int" where
  "remaining timeout tick_delta =
     (if timeout > 0 then let left = sint (word_of_int timeout - tick_delta) in if left < 0 then 0 else left else timeout)"

lemma remaining_eq:
  assumes "timeout < 2 ^ 31" "uint d < 2 ^ 31"
  shows "remaining timeout d = (if timeout > 0 then max 0 (timeout - uint d) else timeout)"
proof (cases "timeout > 0")
  case True
  have "word_of_int timeout - d = (word_of_int (timeout - uint d) :: u32)" by simp
  moreover have "sint (word_of_int (timeout - uint d) :: u32) = signed_take_bit 31 (timeout - uint d)"
    by (subst sint_sbintrunc') simp
  moreover have "- (2 ^ 31) \<le> timeout - uint d" "timeout - uint d < 2 ^ 31" using assms True uint_ge_0 [of d] by linarith+
  then have "signed_take_bit 31 (timeout - uint d) = timeout - uint d" by (intro signed_take_bit_int_eq_self) simp_all
  ultimately show ?thesis using True by (simp only: remaining_def Let_def) auto
qed (simp add: remaining_def)

lemma remaining_less:
  assumes "timeout < 0x7FFFFFFF" "uint d < 2 ^ 31"
  shows "remaining timeout d < 0x7FFFFFFF"
proof (cases "timeout > 0")
  case True
  have "0 \<le> uint d" by simp
  moreover have "remaining timeout d = max 0 (timeout - uint d)" using remaining_eq [of timeout d] assms True by simp
  ultimately show ?thesis using assms by linarith
qed (use assms in \<open>simp add: remaining_def\<close>)

section \<open>The queue of messages\<close>

datatype 'm qop = Send 'm | Urgent 'm | Recv

text \<open>The promise: a list of messages, from the one received next to the last one sent.\<close>

fun qspec :: "nat \<Rightarrow> 'm qop list \<Rightarrow> 'm list \<Rightarrow> 'm option list \<times> 'm list" where
  "qspec cap [] q = ([], q)"
| "qspec cap (Send m # ops) q = (if length q < cap then apfst ((#) (Some m)) (qspec cap ops (q @ [m])) else apfst ((#) None) (qspec cap ops q))"
| "qspec cap (Urgent m # ops) q = (if length q < cap then apfst ((#) (Some m)) (qspec cap ops (m # q)) else apfst ((#) None) (qspec cap ops q))"
| "qspec cap (Recv # ops) q = (case q of [] \<Rightarrow> apfst ((#) None) (qspec cap ops []) | m # q \<Rightarrow> apfst ((#) (Some m)) (qspec cap ops q))"

locale message_queue =
  fixes qinv :: "'q \<Rightarrow> bool" and msgs :: "'q \<Rightarrow> 'm list" and cap :: "'q \<Rightarrow> nat" and fits :: "'q \<Rightarrow> 'm \<Rightarrow> bool"
    and put :: "'m \<Rightarrow> 'q \<Rightarrow> 'q cres" and put_urgent :: "'m \<Rightarrow> 'q \<Rightarrow> 'q cres" and get :: "'q \<Rightarrow> ('m \<times> 'q) cres"
  assumes put_law: "qinv q \<Longrightarrow> fits q m \<Longrightarrow> length (msgs q) < cap q \<Longrightarrow>
      \<exists>q'. put m q = Inr q' \<and> qinv q' \<and> msgs q' = msgs q @ [m] \<and> cap q' = cap q \<and> fits q' = fits q"
    and urgent_law: "qinv q \<Longrightarrow> fits q m \<Longrightarrow> length (msgs q) < cap q \<Longrightarrow>
      \<exists>q'. put_urgent m q = Inr q' \<and> qinv q' \<and> msgs q' = m # msgs q \<and> cap q' = cap q \<and> fits q' = fits q"
    and get_law: "qinv q \<Longrightarrow> msgs q = m # ms \<Longrightarrow>
      \<exists>q'. get q = Inr (m, q') \<and> qinv q' \<and> msgs q' = ms \<and> cap q' = cap q \<and> fits q' = fits q"
    and bounded: "qinv q \<Longrightarrow> length (msgs q) \<le> cap q"
begin

text \<open>A client that tests for room, or for a message, before each operation.\<close>

fun qexec :: "'m qop list \<Rightarrow> 'q \<Rightarrow> ('m option list \<times> 'q) cres" where
  "qexec [] q = Inr ([], q)"
| "qexec (Send m # ops) q =
     (if length (msgs q) < cap q then cbind (put m q) (\<lambda>q. cbind (qexec ops q) (\<lambda>(rs, q). Inr (Some m # rs, q)))
      else cbind (qexec ops q) (\<lambda>(rs, q). Inr (None # rs, q)))"
| "qexec (Urgent m # ops) q =
     (if length (msgs q) < cap q then cbind (put_urgent m q) (\<lambda>q. cbind (qexec ops q) (\<lambda>(rs, q). Inr (Some m # rs, q)))
      else cbind (qexec ops q) (\<lambda>(rs, q). Inr (None # rs, q)))"
| "qexec (Recv # ops) q =
     (if msgs q = [] then cbind (qexec ops q) (\<lambda>(rs, q). Inr (None # rs, q))
      else cbind (get q) (\<lambda>(m, q). cbind (qexec ops q) (\<lambda>(rs, q). Inr (Some m # rs, q))))"

lemma qexec_refines:
  assumes "qinv q" "\<forall>m. Send m \<in> set ops \<or> Urgent m \<in> set ops \<longrightarrow> fits q m"
  shows "\<exists>q'. qexec ops q = Inr (fst (qspec (cap q) ops (msgs q)), q') \<and> qinv q' \<and> msgs q' = snd (qspec (cap q) ops (msgs q)) \<and> cap q' = cap q"
  using assms
proof (induction ops arbitrary: q)
  case Nil
  then show ?case by simp
next
  case (Cons oper ops)
  have next_q: "\<exists>q''. qexec ops q' = Inr (fst (qspec (cap q) ops (msgs q')), q'') \<and> qinv q'' \<and> msgs q'' = snd (qspec (cap q) ops (msgs q')) \<and> cap q'' = cap q"
    if "qinv q'" "cap q' = cap q" "fits q' = fits q" for q'
    using Cons.IH [OF that(1)] Cons.prems(2) that(2,3) by auto
  show ?case
  proof (cases oper)
    case (Send m)
    show ?thesis
    proof (cases "length (msgs q) < cap q")
      case True
      then obtain q' where "put m q = Inr q'" "qinv q'" "msgs q' = msgs q @ [m]" "cap q' = cap q" "fits q' = fits q"
        using put_law Cons.prems Send by (metis list.set_intros(1))
      then show ?thesis using Send True next_q [of q'] by fastforce
    next
      case False
      then show ?thesis using Send next_q [of q] Cons.prems by fastforce
    qed
  next
    case (Urgent m)
    show ?thesis
    proof (cases "length (msgs q) < cap q")
      case True
      then obtain q' where "put_urgent m q = Inr q'" "qinv q'" "msgs q' = m # msgs q" "cap q' = cap q" "fits q' = fits q"
        using urgent_law Cons.prems Urgent by (metis list.set_intros(1))
      then show ?thesis using Urgent True next_q [of q'] by fastforce
    next
      case False
      then show ?thesis using Urgent next_q [of q] Cons.prems by fastforce
    qed
  next
    case Recv
    show ?thesis
    proof (cases "msgs q")
      case Nil
      then show ?thesis using Recv next_q [of q] Cons.prems by fastforce
    next
      case (Cons m ms)
      then obtain q' where "get q = Inr (m, q')" "qinv q'" "msgs q' = ms" "cap q' = cap q" "fits q' = fits q"
        using get_law Cons.prems(1) by blast
      then show ?thesis using Recv Cons next_q [of q'] by fastforce
    qed
  qed
qed

end

end
