(* ===== verification/Ipc_Waiters.thy ===== *)
theory Ipc_Waiters
  imports Ipc_Queue
begin

text \<open>
  What the two-sided waiting of the mailbox and the message queue of \<^verbatim>\<open>rt-thread/src/ipc.c\<close> have in common: waking the first thread of
  a list, and the count of the threads that have been woken and will go on with their call, which is what makes sure that no
  wake-up is lost.
\<close>

text \<open>Waking the first thread on a list, if there is one, and scheduling.\<close>

definition wake_first :: "lid \<Rightarrow> kernel \<Rightarrow> kernel" where
  "wake_first l k = (if queues k l \<noteq> [] then rt_schedule (ipc_list_resume l k) else k)"

text \<open>Waking everybody on both lists, as reset, detach and delete do.\<close>

definition mb_resume_all :: "nat \<Rightarrow> kernel \<Rightarrow> kernel cres" where
  "mb_resume_all oid k =
     cbind (ipc_list_resume_all (length (queues k (WaitQ oid)) + 1) (WaitQ oid) k) (\<lambda>k'.
       ipc_list_resume_all (length (queues k' (SenderQ oid)) + 1) (SenderQ oid) k')"

lemma mb_resume_all_kinv:
  assumes "kinv k"
  shows "\<exists>k'. mb_resume_all oid k = Inr k' \<and> kinv k' \<and> queues k' (WaitQ oid) = [] \<and> queues k' (SenderQ oid) = []
    \<and> (\<forall>t \<in> set (queues k (WaitQ oid)) \<union> set (queues k (SenderQ oid)). terror (threads k' t) = - RT_ERROR)"
proof -
  obtain k1 where k1: "ipc_list_resume_all (length (queues k (WaitQ oid)) + 1) (WaitQ oid) k = Inr k1" "kinv k1" "queues k1 (WaitQ oid) = []"
    "queues k1 (SenderQ oid) = queues k (SenderQ oid)"
    "\<forall>u. terror (threads k1 u) = (if u \<in> set (queues k (WaitQ oid)) then - RT_ERROR else terror (threads k u))"
    using ipc_list_resume_all_kinv [OF assms, of "WaitQ oid" "length (queues k (WaitQ oid)) + 1"] by (auto simp del: ipc_list_resume_all.simps)
  obtain k2 where k2: "ipc_list_resume_all (length (queues k1 (SenderQ oid)) + 1) (SenderQ oid) k1 = Inr k2" "kinv k2" "queues k2 (SenderQ oid) = []"
    "queues k2 (WaitQ oid) = queues k1 (WaitQ oid)"
    "\<forall>u. terror (threads k2 u) = (if u \<in> set (queues k1 (SenderQ oid)) then - RT_ERROR else terror (threads k1 u))"
    using ipc_list_resume_all_kinv [OF k1(2), of "SenderQ oid" "length (queues k1 (SenderQ oid)) + 1"] by (auto simp del: ipc_list_resume_all.simps)
  have "mb_resume_all oid k = Inr k2" using k1(1) k2(1) by (simp add: mb_resume_all_def del: ipc_list_resume_all.simps)
  then show ?thesis using k1(3-5) k2(2-5) by auto
qed

section \<open>Two sides of waiting threads\<close>

text \<open>
  A call that has been suspended is pending for its thread. \<open>side_ok k pend l P n\<close> speaks about the list
  \<open>l\<close> of the threads whose pending call is of kind \<open>P\<close>: nobody waits there without such a call or
  with an error, and if somebody waits, at least \<open>n\<close> threads have been woken from the list and will
  go on with their call.
\<close>

definition pends :: "('p \<Rightarrow> bool) \<Rightarrow> 'p option \<Rightarrow> bool" where
  "pends P c \<longleftrightarrow> (case c of None \<Rightarrow> False | Some p \<Rightarrow> P p)"

lemma pends_simps [simp]: "\<not> pends P None" "pends P (Some p) = P p"
  by (simp_all add: pends_def)

definition woken :: "kernel \<Rightarrow> (tid \<Rightarrow> 'p option) \<Rightarrow> lid \<Rightarrow> ('p \<Rightarrow> bool) \<Rightarrow> tid set" where
  "woken k pend l P = {t. pends P (pend t) \<and> t \<notin> set (queues k l) \<and> awake k t \<and> terror (threads k t) = RT_EOK}"

definition side_ok :: "kernel \<Rightarrow> (tid \<Rightarrow> 'p option) \<Rightarrow> lid \<Rightarrow> ('p \<Rightarrow> bool) \<Rightarrow> nat \<Rightarrow> bool" where
  "side_ok k pend l P n \<longleftrightarrow> finite (dom pend) \<and> (\<forall>t \<in> set (queues k l). pends P (pend t) \<and> terror (threads k t) = RT_EOK)
     \<and> (queues k l \<noteq> [] \<longrightarrow> n \<le> card (woken k pend l P))"

lemma finite_woken: "finite (dom pend) \<Longrightarrow> finite (woken k pend l P)"
  by (rule finite_subset [of _ "dom pend"]) (auto simp: woken_def pends_def split: option.splits)

lemma side_mono: "side_ok k pend l P n \<Longrightarrow> n' \<le> n \<Longrightarrow> side_ok k pend l P n'"
  by (auto simp: side_ok_def)

lemma side_grow:
  assumes "side_ok k pend l P n" "finite (dom pend')" "woken k pend l P \<subseteq> woken k' pend' l P" "set (queues k' l) \<subseteq> set (queues k l)"
    and "\<And>t. t \<in> set (queues k' l) \<Longrightarrow> pend' t = pend t \<and> terror (threads k' t) = terror (threads k t)"
  shows "side_ok k' pend' l P n"
proof -
  have "card (woken k pend l P) \<le> card (woken k' pend' l P)"
    by (rule card_mono [OF finite_woken [OF assms(2)] assms(3)])
  then show ?thesis using assms by (fastforce simp: side_ok_def)
qed

text \<open>The call of thread \<open>t\<close> ends or leaves the kind \<open>P\<close>: the side of its kind may lose one woken thread, the other none.\<close>

lemma side_done:
  assumes s: "side_ok k pend l P n" and t: "t \<notin> set (queues k l)" and c: "\<not> pends P c"
  shows "side_ok k (pend(t := c)) l P (n - 1)"
    "\<not> pends P (pend t) \<or> terror (threads k t) \<noteq> RT_EOK \<Longrightarrow> side_ok k (pend(t := c)) l P n"
proof -
  have w: "woken k (pend(t := c)) l P = woken k pend l P - {t}" using c by (auto simp: woken_def)
  have f: "finite (dom pend)" "finite (dom (pend(t := c)))"
    using s finite_subset [of "dom (pend(t := c))" "insert t (dom pend)"] by (auto simp: side_ok_def)
  then have cd: "card (woken k pend l P) - 1 \<le> card (woken k pend l P - {t})"
    using finite_woken card_Diff1_le by (simp add: card_Diff_singleton_if)
  show "side_ok k (pend(t := c)) l P (n - 1)" using s t cd f(2) by (auto simp: side_ok_def w)
  assume "\<not> pends P (pend t) \<or> terror (threads k t) \<noteq> RT_EOK"
  then have "woken k pend l P - {t} = woken k pend l P" by (auto simp: woken_def)
  then show "side_ok k (pend(t := c)) l P n" using s t f(2) by (auto simp: side_ok_def w)
qed

text \<open>An error code is set for a thread whose call is not of the kind, or to what it is.\<close>

lemma side_set_error:
  assumes "side_ok k pend l P n" "t \<notin> set (queues k l)" "\<not> pends P (pend t) \<or> terror (threads k t) = e"
  shows "side_ok (set_error t e k) pend l P n"
  using assms by (intro side_grow [OF assms(1)]) (auto simp: side_ok_def woken_def set_error_def)

text \<open>Waking the first thread of a list.\<close>

lemma wake_first_kinv:
  assumes inv: "kinv k" and l: "\<forall>p. l \<noteq> ReadyQ p"
  shows "kinv (wake_first l k)"
    "\<forall>p. m \<noteq> ReadyQ p \<Longrightarrow> queues (wake_first l k) m = (if m = l then tl (queues k l) else queues k m)"
    "terror (threads (wake_first l k) u) = terror (threads k u)"
    "awake (wake_first l k) u \<longleftrightarrow> awake k u \<or> queues k l \<noteq> [] \<and> u = hd (queues k l)"
proof -
  have "kinv (wake_first l k) \<and> ((\<forall>p. m \<noteq> ReadyQ p) \<longrightarrow> queues (wake_first l k) m = (if m = l then tl (queues k l) else queues k m))
    \<and> terror (threads (wake_first l k) u) = terror (threads k u)
    \<and> (awake (wake_first l k) u \<longleftrightarrow> awake k u \<or> queues k l \<noteq> [] \<and> u = hd (queues k l))"
  proof (cases "queues k l")
    case Nil
    then show ?thesis using inv by (simp add: wake_first_def)
  next
    case (Cons w q)
    let ?k = "ipc_list_resume l k"
    note ir = ipc_list_resume_kinv [OF inv l Cons]
    note sch = rt_schedule_correct(1,2) [OF ir(1)]
    have w: "wake_first l k = rt_schedule ?k" using Cons by (simp add: wake_first_def)
    have "queues (rt_schedule ?k) m = queues ?k m" if "\<forall>p. m \<noteq> ReadyQ p"
      using that same_but_schedD(7,8) [OF sch(2)] by (cases m) auto
    moreover have "awake ?k u \<longleftrightarrow> awake k u \<or> u = w" using ir(5) ir(7) [of u] by (cases "u = w") auto
    then have "awake (rt_schedule ?k) u \<longleftrightarrow> awake k u \<or> u = w" unfolding same_but_schedD(6) [OF sch(2), symmetric] .
    ultimately show ?thesis
      using sch(1) same_but_schedD(1) [OF sch(2)] ir(2,3) Cons unfolding w by simp
  qed
  then show "kinv (wake_first l k)" "\<forall>p. m \<noteq> ReadyQ p \<Longrightarrow> queues (wake_first l k) m = (if m = l then tl (queues k l) else queues k m)"
    "terror (threads (wake_first l k) u) = terror (threads k u)"
    "awake (wake_first l k) u \<longleftrightarrow> awake k u \<or> queues k l \<noteq> [] \<and> u = hd (queues k l)"
    by blast+
qed

lemma side_wake:
  assumes inv: "kinv k" and l: "\<forall>p. l \<noteq> ReadyQ p" and s: "side_ok k pend l P n"
  shows "side_ok (wake_first l k) pend l P (n + 1)" "\<forall>p. m \<noteq> ReadyQ p \<Longrightarrow> m \<noteq> l \<Longrightarrow> side_ok (wake_first m k) pend l P n"
proof -
  note w = wake_first_kinv [OF inv l]
  show "side_ok (wake_first m k) pend l P n" if "\<forall>p. m \<noteq> ReadyQ p" "m \<noteq> l"
    using s l that by (intro side_grow [OF s]) (auto simp: side_ok_def woken_def wake_first_kinv [OF inv that(1)])
  show "side_ok (wake_first l k) pend l P (n + 1)"
  proof (cases "queues k l")
    case Nil
    then show ?thesis using s l w(2) [of l] by (simp add: side_ok_def)
  next
    case (Cons u q)
    have f: "finite (dom pend)" and u: "pends P (pend u)" "terror (threads k u) = RT_EOK" "u \<notin> set q"
      using s Cons kinv_lists(1) [OF inv, of l] by (auto simp: side_ok_def)
    have ql: "queues (wake_first l k) l = q" using w(2) l Cons by simp
    have "insert u (woken k pend l P) \<subseteq> woken (wake_first l k) pend l P" "u \<notin> woken k pend l P"
      using u Cons by (auto simp: woken_def w(3,4) ql)
    then have "Suc (card (woken k pend l P)) \<le> card (woken (wake_first l k) pend l P)"
      using card_mono [OF finite_woken [OF f], of "insert u (woken k pend l P)" "wake_first l k" l P] finite_woken [OF f, of k l P] by simp
    then show ?thesis using s Cons by (auto simp: side_ok_def ql w(3))
  qed
qed

text \<open>Thread \<open>t\<close> starts to wait.\<close>

lemma side_wait:
  assumes s: "side_ok k pend l P n" and q: "set (queues k' l) = insert t (set (queues k l))" and p: "P p"
    and e: "\<And>u. terror (threads k' u) = terror (threads k u)" "terror (threads k t) = RT_EOK"
  shows "side_ok k' (pend(t \<mapsto> p)) l P 0"
  using s q p e by (auto simp: side_ok_def)

lemma side_wait_other:
  assumes s: "side_ok k pend l P n" and q: "queues k' l = queues k l" "t \<notin> set (queues k l)" and p: "\<not> P p" "\<not> pends P (pend t)"
    and e: "\<And>u. terror (threads k' u) = terror (threads k u)" "\<And>u. u \<noteq> t \<Longrightarrow> awake k' u \<longleftrightarrow> awake k u"
  shows "side_ok k' (pend(t \<mapsto> p)) l P n"
  using assms by (intro side_grow [OF s]) (auto simp: side_ok_def woken_def)

text \<open>The timer of a waiting thread expires.\<close>

lemma side_timeout:
  assumes s: "side_ok k pend l P n" and q: "queues k' l = removeAll t (queues k l)" and t: "\<not> awake k t"
    and e: "\<And>u. u \<noteq> t \<Longrightarrow> terror (threads k' u) = terror (threads k u) \<and> (awake k' u \<longleftrightarrow> awake k u)"
  shows "side_ok k' pend l P n"
  using assms by (intro side_grow [OF s]) (auto simp: side_ok_def woken_def, metis+)

text \<open>A scheduling step.\<close>

lemma side_scheduled:
  assumes inv: "kinv k" and l: "\<forall>p. l \<noteq> ReadyQ p"
  shows "side_ok (rt_schedule k) pend l P n = side_ok k pend l P n"
proof -
  note sch = rt_schedule_correct(1,2) [OF inv]
  have "queues (rt_schedule k) l = queues k l" using l same_but_schedD(7,8) [OF sch(2)] by (cases l) auto
  moreover have "awake (rt_schedule k) u \<longleftrightarrow> awake k u" for u using same_but_schedD(6) [OF sch(2)] by simp
  ultimately show ?thesis by (simp add: side_ok_def woken_def same_but_schedD(1) [OF sch(2)])
qed

text \<open>A side with a positive promise has a woken thread.\<close>

lemma side_woken:
  assumes "side_ok k pend l P n" "queues k l \<noteq> []" "n > 0"
  obtains t p where "pend t = Some p" "P p" "t \<notin> set (queues k l)" "awake k t" "terror (threads k t) = RT_EOK"
proof -
  have "card (woken k pend l P) > 0" using assms by (simp add: side_ok_def)
  then obtain t where "t \<in> woken k pend l P" by (metis card_gt_0_iff ex_in_conv)
  then show thesis using that by (auto simp: woken_def pends_def split: option.splits)
qed

section \<open>Calls in progress\<close>

definition running :: "kernel \<Rightarrow> bool" where
  "running k \<longleftrightarrow> stat (threads k (rt_current_thread k)) = RT_THREAD_RUNNING"

definition time_left :: "'p option \<Rightarrow> int \<Rightarrow> u32 \<Rightarrow> int" where
  "time_left c timeout delta = (if c = None then timeout else remaining timeout delta)"

lemma time_left_less: "timeout < 0x7FFFFFFF \<Longrightarrow> uint delta < 2 ^ 31 \<Longrightarrow> time_left c timeout delta < 0x7FFFFFFF"
  using remaining_less [of timeout delta] by (simp add: time_left_def)

section \<open>Objects with waiting receivers and senders\<close>

text \<open>
  The waiting lists of object \<open>oid\<close> with \<open>n\<close> things to receive and room for \<open>m\<close> more.
\<close>

definition sides_ok :: "kernel \<Rightarrow> (tid \<Rightarrow> 'p option) \<Rightarrow> nat \<Rightarrow> ('p \<Rightarrow> bool) \<Rightarrow> nat \<Rightarrow> ('p \<Rightarrow> bool) \<Rightarrow> nat \<Rightarrow> bool" where
  "sides_ok k pend oid R n S m \<longleftrightarrow> kinv k \<and> side_ok k pend (WaitQ oid) R n \<and> side_ok k pend (SenderQ oid) S m"

lemma sides_okD:
  assumes "sides_ok k pend oid R n S m"
  shows "kinv k" "side_ok k pend (WaitQ oid) R n" "side_ok k pend (SenderQ oid) S m"
  using assms by (simp_all add: sides_ok_def)

lemma sides_mono: "sides_ok k pend oid R n S m \<Longrightarrow> n' \<le> n \<Longrightarrow> m' \<le> m \<Longrightarrow> sides_ok k pend oid R n' S m'"
  using side_mono by (auto simp: sides_ok_def)

lemma set_error_twice: "set_error t e (set_error t e' k) = set_error t e k"
  by (simp add: set_error_def)

text \<open>The running thread waits nowhere.\<close>

lemma running_free:
  "kinv k \<Longrightarrow> running k \<Longrightarrow> t = rt_current_thread k \<Longrightarrow> t \<notin> set (queues k (WaitQ oid)) \<and> t \<notin> set (queues k (SenderQ oid))"
  using running_not_waiting [of k t] by (simp add: running_def)

text \<open>The two kinds of pending calls of an object, and what each part of a call does to its waiting lists.\<close>

locale two_sided =
  fixes R S :: "'p \<Rightarrow> bool"
  assumes excl: "R p \<Longrightarrow> \<not> S p"
begin

lemma pends_excl: "pends R c \<Longrightarrow> \<not> pends S c"
  using excl by (cases c) auto

text \<open>A pending call ends because of an error, or it was not pending at all.\<close>

lemma end_quiet:
  assumes ok: "sides_ok k pend oid R n S m" and run: "running k" "t = rt_current_thread k"
    and e: "pend t = None \<or> terror (threads k t) \<noteq> RT_EOK"
  shows "sides_ok k (pend(t := None)) oid R n S m"
proof -
  note o = sides_okD [OF ok]
  have "\<not> pends P (pend t) \<or> terror (threads k t) \<noteq> RT_EOK" for P using e by (auto simp: pends_def)
  then show ?thesis
    using o running_free [OF o(1) run, of oid] side_done(2) [OF o(2), of t None] side_done(2) [OF o(3), of t None] by (simp add: sides_ok_def)
qed

text \<open>The running thread takes one of the things to receive, or one place, and its call goes on as \<open>c\<close>.\<close>

lemma took_received:
  assumes ok: "sides_ok k pend oid R n S m" and run: "running k" "t = rt_current_thread k"
    and c: "\<not> pends S (pend t)" "\<not> pends R c" "\<not> pends S c"
  shows "sides_ok k (pend(t := c)) oid R (n - 1) S m"
  using sides_okD [OF ok] running_free [OF sides_okD(1) [OF ok] run, of oid] c
  using side_done [OF sides_okD(2) [OF ok], of t c] side_done [OF sides_okD(3) [OF ok], of t c] by (simp add: sides_ok_def)

lemma took_room:
  assumes ok: "sides_ok k pend oid R n S m" and run: "running k" "t = rt_current_thread k"
    and c: "\<not> pends R (pend t)" "\<not> pends R c" "\<not> pends S c"
  shows "sides_ok k (pend(t := c)) oid R n S (m - 1)"
  using sides_okD [OF ok] running_free [OF sides_okD(1) [OF ok] run, of oid] c
  using side_done [OF sides_okD(2) [OF ok], of t c] side_done [OF sides_okD(3) [OF ok], of t c] by (simp add: sides_ok_def)

text \<open>A call that is neither a waiting receive nor a waiting send moves on.\<close>

lemma moves_on:
  assumes ok: "sides_ok k pend oid R n S m" and run: "running k" "t = rt_current_thread k"
    and c: "\<not> pends R (pend t)" "\<not> pends S (pend t)" "\<not> pends R c" "\<not> pends S c"
  shows "sides_ok k (pend(t := c)) oid R n S m"
  using sides_okD [OF ok] running_free [OF sides_okD(1) [OF ok] run, of oid] c
  using side_done [OF sides_okD(2) [OF ok], of t c] side_done [OF sides_okD(3) [OF ok], of t c] by (simp add: sides_ok_def)

text \<open>Something to receive, or room, has been added and the first waiting thread is woken for it.\<close>

lemma added_received:
  "sides_ok k pend oid R n S m \<Longrightarrow> sides_ok (wake_first (WaitQ oid) k) pend oid R (n + 1) S m"
  using wake_first_kinv(1) [of k "WaitQ oid"] side_wake(1) [of k "WaitQ oid" pend R n] side_wake(2) [of k "SenderQ oid" pend S m "WaitQ oid"]
  by (simp add: sides_ok_def)

lemma added_room:
  "sides_ok k pend oid R n S m \<Longrightarrow> sides_ok (wake_first (SenderQ oid) k) pend oid R n S (m + 1)"
  using wake_first_kinv(1) [of k "SenderQ oid"] side_wake(1) [of k "SenderQ oid" pend S m] side_wake(2) [of k "WaitQ oid" pend R n "SenderQ oid"]
  by (simp add: sides_ok_def)

text \<open>The time of a call is up although nobody has woken it with an error.\<close>

lemma end_fail:
  assumes ok: "sides_ok k pend oid R n S m" and run: "running k" "t = rt_current_thread k"
    and n: "pends S (pend t) \<Longrightarrow> m = 0" "pends R (pend t) \<Longrightarrow> n = 0"
  shows "sides_ok (set_error t x k) (pend(t := None)) oid R n S m"
proof -
  note o = sides_okD [OF ok]
  have nt: "t \<notin> set (queues k (WaitQ oid))" "t \<notin> set (queues k (SenderQ oid))" using running_free [OF o(1) run, of oid] by auto
  have "side_ok k (pend(t := None)) (WaitQ oid) R n"
    using n(2) side_done [OF o(2) nt(1), of None] by (cases "pends R (pend t)") auto
  moreover have "side_ok k (pend(t := None)) (SenderQ oid) S m"
    using n(1) side_done [OF o(3) nt(2), of None] by (cases "pends S (pend t)") auto
  ultimately show ?thesis
    using kinv_set_error [OF o(1)] nt by (auto simp: sides_ok_def intro: side_set_error)
qed

text \<open>A call is suspended, for the first time or again.\<close>

lemma blocks:
  assumes ok: "sides_ok k pend oid R n S m" and run: "running k" "t = rt_current_thread k"
    and e: "pend t = None \<or> terror (threads k t) = RT_EOK"
    and time: "timeout < 0x7FFFFFFF" and w: "ipc_wait l flag timeout (set_error t RT_EOK k) = Inr k'"
  shows "l = SenderQ oid \<Longrightarrow> \<not> pends R (pend t) \<Longrightarrow> S p \<Longrightarrow> sides_ok k' (pend(t \<mapsto> p)) oid R n S 0"
    "l = WaitQ oid \<Longrightarrow> \<not> pends S (pend t) \<Longrightarrow> R p \<Longrightarrow> sides_ok k' (pend(t \<mapsto> p)) oid R 0 S m"
proof -
  let ?k = "set_error t RT_EOK k"
  note o = sides_okD [OF ok]
  have nt: "t \<notin> set (queues k (WaitQ oid))" "t \<notin> set (queues k (SenderQ oid))" using running_free [OF o(1) run, of oid] by auto
  have e': "\<not> pends P (pend t) \<or> terror (threads k t) = RT_EOK" for P using e by auto
  have rx1: "side_ok ?k pend (WaitQ oid) R n" and tx1: "side_ok ?k pend (SenderQ oid) S m"
    using side_set_error [OF o(2) nt(1) e'] side_set_error [OF o(3) nt(2) e'] by auto
  have run1: "stat (threads ?k (rt_current_thread ?k)) = RT_THREAD_RUNNING" and cur: "rt_current_thread ?k = t"
    using run by (simp_all add: running_def)
  have e1: "terror (threads ?k t) = RT_EOK" by (simp add: set_error_def)
  have facts: "\<forall>p. l \<noteq> ReadyQ p \<Longrightarrow> kinv k' \<and> set (queues k' l) = insert t (set (queues ?k l))
      \<and> (\<forall>m. (\<forall>p. m \<noteq> ReadyQ p) \<longrightarrow> m \<noteq> l \<longrightarrow> queues k' m = queues ?k m)
      \<and> (\<forall>u. terror (threads k' u) = terror (threads ?k u)) \<and> (\<forall>u. u \<noteq> t \<longrightarrow> (awake k' u \<longleftrightarrow> awake ?k u))"
    using ipc_wait_kinv [OF kinv_set_error [OF o(1)] run1 _ time, of l flag] w cur by auto
  show "sides_ok k' (pend(t \<mapsto> p)) oid R n S 0" if l: "l = SenderQ oid" and c: "\<not> pends R (pend t)" and p: "S p"
  proof -
    note f = facts [unfolded l, simplified]
    have "side_ok k' (pend(t \<mapsto> p)) (SenderQ oid) S 0" using f e1 p by (intro side_wait [OF tx1]) auto
    moreover have "side_ok k' (pend(t \<mapsto> p)) (WaitQ oid) R n" using f c nt p excl by (intro side_wait_other [OF rx1]) auto
    ultimately show ?thesis using f by (simp add: sides_ok_def)
  qed
  show "sides_ok k' (pend(t \<mapsto> p)) oid R 0 S m" if l: "l = WaitQ oid" and c: "\<not> pends S (pend t)" and p: "R p"
  proof -
    note f = facts [unfolded l, simplified]
    have "side_ok k' (pend(t \<mapsto> p)) (WaitQ oid) R 0" using f e1 p by (intro side_wait [OF rx1]) auto
    moreover have "side_ok k' (pend(t \<mapsto> p)) (SenderQ oid) S m" using f c nt p excl by (intro side_wait_other [OF tx1]) auto
    ultimately show ?thesis using f by (simp add: sides_ok_def)
  qed
qed

text \<open>The timer of a waiting thread expires; a scheduling step.\<close>

lemma timed_out:
  assumes ok: "sides_ok k pend oid R n S m" and t: "t \<in> set (queues k (WaitQ oid)) \<or> t \<in> set (queues k (SenderQ oid))"
    and r: "thread_timeout t k = Inr k'"
  shows "sides_ok k' pend oid R n S m"
proof -
  note o = sides_okD [OF ok]
  have st: "stat (threads k t) = RT_THREAD_SUSPEND"
    using t hd_waiting [OF o(1), of "WaitQ oid" t] hd_waiting [OF o(1), of "SenderQ oid" t] by auto
  have k': "kinv k'" "\<forall>n. queues k' (WaitQ n) = removeAll t (queues k (WaitQ n)) \<and> queues k' (SenderQ n) = removeAll t (queues k (SenderQ n))"
    and same: "u \<noteq> t \<Longrightarrow> terror (threads k' u) = terror (threads k u) \<and> (awake k' u \<longleftrightarrow> awake k u)" for u
    using thread_timeout_kinv [OF o(1) st] r by auto
  show ?thesis using o(2,3) st k' by (auto intro!: side_timeout [of k] same simp: sides_ok_def)
qed

lemma scheduled:
  "sides_ok k pend oid R n S m \<Longrightarrow> sides_ok (rt_schedule k) pend oid R n S m"
  using rt_schedule_correct(1) by (simp add: sides_ok_def side_scheduled)

text \<open>No wake-up is lost: with something to receive, or room, a waiting thread is not the only one.\<close>

lemma woken_receiver:
  assumes "sides_ok k pend oid R n S m" "queues k (WaitQ oid) \<noteq> []" "n > 0"
  shows "\<exists>t p. pend t = Some p \<and> R p \<and> t \<notin> set (queues k (WaitQ oid)) \<and> awake k t \<and> terror (threads k t) = RT_EOK"
  using side_woken [OF sides_okD(2) [OF assms(1)] assms(2,3)] by blast

lemma woken_sender:
  assumes "sides_ok k pend oid R n S m" "queues k (SenderQ oid) \<noteq> []" "m > 0"
  shows "\<exists>t p. pend t = Some p \<and> S p \<and> t \<notin> set (queues k (SenderQ oid)) \<and> awake k t \<and> terror (threads k t) = RT_EOK"
  using side_woken [OF sides_okD(3) [OF assms(1)] assms(2,3)] by blast

end

section \<open>A thread that waits forever\<close>

text \<open>The running thread starts to wait, and another ready thread runs.\<close>

lemma wait_forever:
  assumes inv: "kinv k" and run: "running k" and lock: "lock_nest k = 0"
  shows "\<exists>k'. ipc_wait (WaitQ oid) RT_IPC_FLAG_FIFO (- 1) (set_error (rt_current_thread k) RT_EOK k) = Inr k' \<and> kinv k' \<and> lock_nest k' = 0
    \<and> queues k' (WaitQ oid) = queues k (WaitQ oid) @ [rt_current_thread k]
    \<and> (stat (threads k u) = RT_THREAD_READY \<longrightarrow> running k' \<and> rt_current_thread k' \<noteq> rt_current_thread k)"
proof -
  let ?k = "set_error (rt_current_thread k) RT_EOK k"
  have inv': "kinv ?k" by (rule kinv_set_error [OF inv])
  have run': "stat (threads ?k (rt_current_thread ?k)) = RT_THREAD_RUNNING" using run by (simp add: running_def)
  obtain k3 where k3: "ipc_wait (WaitQ oid) RT_IPC_FLAG_FIFO (- 1) ?k = Inr (rt_schedule k3)" "kinv k3" "lock_nest k3 = 0"
    "queues k3 (WaitQ oid) = queues k (WaitQ oid) @ [rt_current_thread k]"
    using ipc_wait_before [OF inv' run', of "WaitQ oid" "- 1" RT_IPC_FLAG_FIFO] lock by (auto simp: joined_def)
  note sch = rt_schedule_correct(1,2) [OF k3(2)]
  have "running (rt_schedule k3) \<and> rt_current_thread (rt_schedule k3) \<noteq> rt_current_thread k" if "stat (threads k u) = RT_THREAD_READY"
    using ipc_wait_switches [OF inv' run' _ _ _ _ k3(1), of u] lock that by (simp add: running_def)
  then show ?thesis
    using k3(1) sch(1) same_but_schedD(7,9) [OF sch(2)] k3(3,4) by (intro exI [of _ "rt_schedule k3"]) auto
qed

end
