(* ===== verification/Ipc_Mailbox.thy ===== *)
theory Ipc_Mailbox
  imports Ipc_Waiters
begin

text \<open>
  The mailbox of \<^verbatim>\<open>rt-thread/src/ipc.c\<close>: a ring of 32-bit mails with waiting senders and receivers. The ring
  implements the queue of messages of \<open>Ipc_Queue\<close>; over every interleaving of calls, resumed calls
  and timeouts the mails come out in the order of the queue, and no receiver is left asleep
  while there is a mail nobody is on the way to fetch.
\<close>

section \<open>State and operations\<close>

record mailbox =
  mb_id :: nat
  msg_pool :: "u32 list"
  mb_size :: nat
  entry :: nat
  in_offset :: nat
  out_offset :: nat
  mb_flag :: ipc_flag

abbreviation (input) RT_MB_ENTRY_MAX :: nat where "RT_MB_ENTRY_MAX \<equiv> 0xFFFF"

definition rt_mb_init :: "nat \<Rightarrow> u32 list \<Rightarrow> nat \<Rightarrow> ipc_flag \<Rightarrow> kernel \<Rightarrow> kernel \<times> mailbox" where
  "rt_mb_init oid pool sz flag k =
     (k\<lparr>queues := (queues k)(WaitQ oid := [], SenderQ oid := [])\<rparr>,
      \<lparr>mb_id = oid, msg_pool = pool, mb_size = sz mod 2 ^ 16, entry = 0, in_offset = 0, out_offset = 0, mb_flag = flag\<rparr>)"

text \<open>Storing at \<open>in_offset\<close>, storing before \<open>out_offset\<close>, loading at \<open>out_offset\<close>, with the count.\<close>

definition mb_put :: "u32 \<Rightarrow> mailbox \<Rightarrow> mailbox cres" where
  "mb_put value mb =
     (if length (msg_pool mb) \<le> in_offset mb then Inl OutOfBounds
      else let mb = mb\<lparr>msg_pool := (msg_pool mb)[in_offset mb := value]\<rparr>;
               mb = mb\<lparr>in_offset := (in_offset mb + 1) mod 2 ^ 16\<rparr>;
               mb = (if in_offset mb \<ge> mb_size mb then mb\<lparr>in_offset := 0\<rparr> else mb)
           in Inr (if entry mb < RT_MB_ENTRY_MAX then mb\<lparr>entry := entry mb + 1\<rparr> else mb))"

definition mb_put_urgent :: "u32 \<Rightarrow> mailbox \<Rightarrow> mailbox cres" where
  "mb_put_urgent value mb =
     (let mb = (if out_offset mb > 0 then mb\<lparr>out_offset := out_offset mb - 1\<rparr>
                else mb\<lparr>out_offset := (mb_size mb + 0xFFFF) mod 2 ^ 16\<rparr>)
      in if length (msg_pool mb) \<le> out_offset mb then Inl OutOfBounds
         else Inr (mb\<lparr>msg_pool := (msg_pool mb)[out_offset mb := value], entry := (entry mb + 1) mod 2 ^ 16\<rparr>))"

definition mb_get :: "mailbox \<Rightarrow> (u32 \<times> mailbox) cres" where
  "mb_get mb =
     (if length (msg_pool mb) \<le> out_offset mb then Inl OutOfBounds
      else let value = msg_pool mb ! out_offset mb;
               mb = mb\<lparr>out_offset := (out_offset mb + 1) mod 2 ^ 16\<rparr>;
               mb = (if out_offset mb \<ge> mb_size mb then mb\<lparr>out_offset := 0\<rparr> else mb)
           in Inr (value, if entry mb > 0 then mb\<lparr>entry := entry mb - 1\<rparr> else mb))"

text \<open>The loop of \<open>rt_mb_send_wait\<close> and what follows it; \<open>Block\<close> when the thread has been suspended in it.\<close>

definition mb_send_loop :: "mailbox \<Rightarrow> u32 \<Rightarrow> int \<Rightarrow> kernel \<Rightarrow> (int, kernel \<times> mailbox) call cres" where
  "mb_send_loop mb value timeout k =
     (if entry mb = mb_size mb
      then let k = set_error (rt_current_thread k) RT_EOK k
           in if timeout = 0 then Inr (Return (- RT_EFULL) (k, mb))
              else cbind (ipc_wait (SenderQ (mb_id mb)) (mb_flag mb) timeout k) (\<lambda>k. Inr (Block (k, mb)))
      else cbind (mb_put value mb) (\<lambda>mb'.
           if entry mb < RT_MB_ENTRY_MAX then Inr (Return RT_EOK (wake_first (WaitQ (mb_id mb)) k, mb'))
           else Inr (Return (- RT_EFULL) (k, mb'))))"

definition rt_mb_send_wait :: "mailbox \<Rightarrow> u32 \<Rightarrow> int \<Rightarrow> kernel \<Rightarrow> (int, kernel \<times> mailbox) call cres" where
  "rt_mb_send_wait mb value timeout k =
     cbind (rt_assert (timeout \<noteq> 0 \<longrightarrow> lock_nest k = 0)) (\<lambda>_.
       if entry mb = mb_size mb \<and> timeout = 0 then Inr (Return (- RT_EFULL) (k, mb))
       else mb_send_loop mb value timeout k)"

text \<open>The suspended call when its thread runs again, \<open>delta\<close> ticks later.\<close>

definition rt_mb_send_resumed :: "mailbox \<Rightarrow> u32 \<Rightarrow> int \<Rightarrow> u32 \<Rightarrow> kernel \<Rightarrow> (int, kernel \<times> mailbox) call cres" where
  "rt_mb_send_resumed mb value timeout delta k =
     (let e = terror (threads k (rt_current_thread k))
      in if e \<noteq> RT_EOK then Inr (Return e (k, mb)) else mb_send_loop mb value (remaining timeout delta) k)"

definition rt_mb_send :: "mailbox \<Rightarrow> u32 \<Rightarrow> kernel \<Rightarrow> (int, kernel \<times> mailbox) call cres" where
  "rt_mb_send mb value k = rt_mb_send_wait mb value 0 k"

definition rt_mb_urgent :: "mailbox \<Rightarrow> u32 \<Rightarrow> kernel \<Rightarrow> (int \<times> kernel \<times> mailbox) cres" where
  "rt_mb_urgent mb value k =
     (if entry mb = mb_size mb then Inr (- RT_EFULL, k, mb)
      else cbind (mb_put_urgent value mb) (\<lambda>mb'. Inr (RT_EOK, wake_first (WaitQ (mb_id mb)) k, mb')))"

definition mb_recv_loop :: "mailbox \<Rightarrow> int \<Rightarrow> kernel \<Rightarrow> (int \<times> u32 option, kernel \<times> mailbox) call cres" where
  "mb_recv_loop mb timeout k =
     (if entry mb = 0
      then let t = rt_current_thread k; k = set_error t RT_EOK k
           in if timeout = 0 then Inr (Return (- RT_ETIMEOUT, None) (set_error t (- RT_ETIMEOUT) k, mb))
              else cbind (ipc_wait (WaitQ (mb_id mb)) (mb_flag mb) timeout k) (\<lambda>k. Inr (Block (k, mb)))
      else cbind (mb_get mb) (\<lambda>(value, mb'). Inr (Return (RT_EOK, Some value) (wake_first (SenderQ (mb_id mb)) k, mb'))))"

definition rt_mb_recv :: "mailbox \<Rightarrow> int \<Rightarrow> kernel \<Rightarrow> (int \<times> u32 option, kernel \<times> mailbox) call cres" where
  "rt_mb_recv mb timeout k =
     cbind (rt_assert (timeout \<noteq> 0 \<longrightarrow> lock_nest k = 0)) (\<lambda>_.
       if entry mb = 0 \<and> timeout = 0 then Inr (Return (- RT_ETIMEOUT, None) (k, mb)) else mb_recv_loop mb timeout k)"

definition rt_mb_recv_resumed :: "mailbox \<Rightarrow> int \<Rightarrow> u32 \<Rightarrow> kernel \<Rightarrow> (int \<times> u32 option, kernel \<times> mailbox) call cres" where
  "rt_mb_recv_resumed mb timeout delta k =
     (let e = terror (threads k (rt_current_thread k))
      in if e \<noteq> RT_EOK then Inr (Return (e, None) (k, mb)) else mb_recv_loop mb (remaining timeout delta) k)"

definition rt_mb_control :: "bool \<Rightarrow> mailbox \<Rightarrow> kernel \<Rightarrow> (int \<times> kernel \<times> mailbox) cres" where
  "rt_mb_control reset mb k =
     (if reset
      then cbind (mb_resume_all (mb_id mb) k) (\<lambda>k.
           Inr (RT_EOK, rt_schedule k, mb\<lparr>entry := 0, in_offset := 0, out_offset := 0\<rparr>))
      else Inr (- RT_ERROR, k, mb))"

definition rt_mb_detach :: "mailbox \<Rightarrow> kernel \<Rightarrow> kernel cres" where
  "rt_mb_detach mb k = mb_resume_all (mb_id mb) k"

section \<open>The ring is a queue\<close>

definition mb_inv :: "mailbox \<Rightarrow> bool" where
  "mb_inv mb \<longleftrightarrow> length (msg_pool mb) = mb_size mb \<and> mb_size mb \<le> 0xFFFF \<and> entry mb \<le> mb_size mb
     \<and> (mb_size mb > 0 \<longrightarrow> in_offset mb < mb_size mb \<and> out_offset mb < mb_size mb
          \<and> in_offset mb = (out_offset mb + entry mb) mod mb_size mb)"

definition mails :: "mailbox \<Rightarrow> u32 list" where
  "mails mb = map (\<lambda>i. msg_pool mb ! ((out_offset mb + i) mod mb_size mb)) [0..<entry mb]"

lemma length_mails [simp]: "length (mails mb) = entry mb"
  by (simp add: mails_def)

lemma mb_put_law:
  assumes inv: "mb_inv mb" and room: "length (mails mb) < mb_size mb"
  shows "\<exists>mb'. mb_put v mb = Inr mb' \<and> mb_inv mb' \<and> mails mb' = mails mb @ [v] \<and> mb_size mb' = mb_size mb
    \<and> mb_id mb' = mb_id mb \<and> mb_flag mb' = mb_flag mb \<and> entry mb' = entry mb + 1"
proof -
  let ?n = "mb_size mb" and ?i = "in_offset mb" and ?o = "out_offset mb"
  have b: "length (msg_pool mb) = ?n" "?n \<le> 0xFFFF" "entry mb < ?n" "?i < ?n" "?o < ?n" "?i = (?o + entry mb) mod ?n"
    using inv room by (auto simp: mb_inv_def)
  let ?mb = "mb\<lparr>msg_pool := (msg_pool mb)[?i := v], in_offset := (?i + 1) mod ?n, entry := entry mb + 1\<rparr>"
  have "(?i + 1) mod ?n = (if ?i + 1 \<ge> ?n then 0 else ?i + 1)" using b(4) by (auto simp: le_Suc_eq)
  then have put: "mb_put v mb = Inr ?mb" using b(1-5) by (simp add: mb_put_def Let_def)
  have "(?i + 1) mod ?n = (?o + (entry mb + 1)) mod ?n" unfolding b(6) by (simp add: mod_simps add.assoc)
  then have inv': "mb_inv ?mb" using b by (simp add: mb_inv_def)
  have ne: "?i \<noteq> (?o + i) mod ?n" if "i < entry mb" for i
    using that b(3,5) mod_once [of ?o ?n i] mod_once [of ?o ?n "entry mb"] unfolding b(6) by (auto split: if_splits)
  have "mails ?mb = mails mb @ [v]"
    using ne b(1,4) by (simp add: mails_def flip: b(6))
  then show ?thesis using put inv' by simp
qed

lemma mb_put_urgent_law:
  assumes inv: "mb_inv mb" and room: "length (mails mb) < mb_size mb"
  shows "\<exists>mb'. mb_put_urgent v mb = Inr mb' \<and> mb_inv mb' \<and> mails mb' = v # mails mb \<and> mb_size mb' = mb_size mb
    \<and> mb_id mb' = mb_id mb \<and> mb_flag mb' = mb_flag mb \<and> entry mb' = entry mb + 1"
proof -
  let ?n = "mb_size mb" and ?i = "in_offset mb" and ?o = "out_offset mb"
  have b: "length (msg_pool mb) = ?n" "?n \<le> 0xFFFF" "entry mb < ?n" "?i < ?n" "?o < ?n" "?i = (?o + entry mb) mod ?n"
    using inv room by (auto simp: mb_inv_def)
  define p where "p = (if ?o > 0 then ?o - 1 else ?n - 1)"
  have "(?n + 0xFFFF) mod 2 ^ 16 = ?n - 1" using b(2,3) mod_add_self2 [of "?n - 1" "2 ^ 16"] by (cases ?n) simp_all
  then have put: "mb_put_urgent v mb = Inr (mb\<lparr>out_offset := p, msg_pool := (msg_pool mb)[p := v], entry := entry mb + 1\<rparr>)"
    using b by (auto simp: mb_put_urgent_def Let_def p_def)
  have p: "p < ?n" "(p + Suc i) mod ?n = (?o + i) mod ?n" for i
  proof -
    have "p + Suc i = ?o + i \<or> p + Suc i = i + ?n \<and> ?o = 0" using b(3) by (auto simp: p_def)
    then show "(p + Suc i) mod ?n = (?o + i) mod ?n" by (metis add_0 mod_add_self2)
  qed (use b(3,5) in \<open>auto simp: p_def\<close>)
  have ne: "p \<noteq> (?o + i) mod ?n" if "i < entry mb" for i
    using that b(3,5) mod_once [of ?o ?n i] by (auto simp: p_def split: if_splits)
  have "[0..<entry mb + 1] = 0 # map Suc [0..<entry mb]" by (simp add: map_Suc_upt upt_conv_Cons del: upt_Suc)
  then have "mails (mb\<lparr>out_offset := p, msg_pool := (msg_pool mb)[p := v], entry := entry mb + 1\<rparr>) = v # mails mb"
    using p ne b(1) by (simp add: mails_def del: upt_Suc)
  moreover have "mb_inv (mb\<lparr>out_offset := p, msg_pool := (msg_pool mb)[p := v], entry := entry mb + 1\<rparr>)"
    using b p by (simp add: mb_inv_def)
  ultimately show ?thesis using put by simp
qed

lemma mb_get_law:
  assumes inv: "mb_inv mb" and ne: "mails mb = v # vs"
  shows "\<exists>mb'. mb_get mb = Inr (v, mb') \<and> mb_inv mb' \<and> mails mb' = vs \<and> mb_size mb' = mb_size mb
    \<and> mb_id mb' = mb_id mb \<and> mb_flag mb' = mb_flag mb \<and> entry mb' + 1 = entry mb"
proof -
  let ?n = "mb_size mb" and ?i = "in_offset mb" and ?o = "out_offset mb"
  have e: "entry mb = Suc (length vs)" using length_mails [of mb] ne by simp
  then have b: "length (msg_pool mb) = ?n" "?n \<le> 0xFFFF" "entry mb \<le> ?n" "?i < ?n" "?o < ?n" "?i = (?o + entry mb) mod ?n"
    using inv by (auto simp: mb_inv_def)
  let ?mb = "mb\<lparr>out_offset := (?o + 1) mod ?n, entry := entry mb - 1\<rparr>"
  have up: "[0..<entry mb] = 0 # map Suc [0..<length vs]" unfolding e by (simp add: map_Suc_upt upt_conv_Cons del: upt_Suc)
  then have v: "v = msg_pool mb ! ?o" "vs = map (\<lambda>i. msg_pool mb ! ((?o + Suc i) mod ?n)) [0..<length vs]"
    using ne b(5) by (simp_all add: mails_def comp_def)
  have "(?o + 1) mod ?n = (if ?o + 1 \<ge> ?n then 0 else ?o + 1)" using b(5) by (auto simp: le_Suc_eq)
  then have get: "mb_get mb = Inr (v, ?mb)" using b(1-5) v(1) e by (simp add: mb_get_def Let_def)
  have "((?o + 1) mod ?n + i) mod ?n = (?o + Suc i) mod ?n" for i by (simp add: mod_simps)
  moreover from this [of "entry mb - 1"] have "mb_inv ?mb" using b e by (simp add: mb_inv_def)
  ultimately have "mails ?mb = vs" "mb_inv ?mb" using v(2) e by (simp_all add: mails_def)
  then show ?thesis using get e by simp
qed

lemma mb_inv_bounded: "mb_inv mb \<Longrightarrow> length (mails mb) \<le> mb_size mb"
  by (simp add: mb_inv_def)

interpretation mbq: message_queue mb_inv mails mb_size "\<lambda>_ _. True" mb_put mb_put_urgent mb_get
proof unfold_locales
  show "mb_inv q \<Longrightarrow> length (mails q) < mb_size q \<Longrightarrow>
      \<exists>q'. mb_put m q = Inr q' \<and> mb_inv q' \<and> mails q' = mails q @ [m] \<and> mb_size q' = mb_size q \<and> (\<lambda>_. True) = (\<lambda>_. True)" for q m
    using mb_put_law [of q m] by auto
  show "mb_inv q \<Longrightarrow> length (mails q) < mb_size q \<Longrightarrow>
      \<exists>q'. mb_put_urgent m q = Inr q' \<and> mb_inv q' \<and> mails q' = m # mails q \<and> mb_size q' = mb_size q \<and> (\<lambda>_. True) = (\<lambda>_. True)" for q m
    using mb_put_urgent_law [of q m] by auto
  show "mb_inv q \<Longrightarrow> mails q = m # ms \<Longrightarrow>
      \<exists>q'. mb_get q = Inr (m, q') \<and> mb_inv q' \<and> mails q' = ms \<and> mb_size q' = mb_size q \<and> (\<lambda>_. True) = (\<lambda>_. True)" for q m ms
    using mb_get_law [of q m ms] by auto
  show "mb_inv q \<Longrightarrow> length (mails q) \<le> mb_size q" for q by (rule mb_inv_bounded)
qed

section \<open>The mailbox under every interleaving\<close>

text \<open>
  The whole system around one mailbox: the running thread calls, or goes on with its pending call;
  a mail is sent urgently; the timer of a waiting thread expires; the scheduler runs. The
  events say which mails went in and came out.
\<close>

datatype pending = Sending u32 int | Receiving int

fun is_sending :: "pending \<Rightarrow> bool" where
  "is_sending (Sending v timeout) = True" | "is_sending (Receiving timeout) = False"

fun is_receiving :: "pending \<Rightarrow> bool" where
  "is_receiving (Sending v timeout) = False" | "is_receiving (Receiving timeout) = True"

interpretation mbs: two_sided is_receiving is_sending
  by unfold_locales (auto elim: is_receiving.elims)

datatype mb_event = Sent u32 | SentUrgent u32 | Got u32 | Quiet

type_synonym mb_sys = "kernel \<times> mailbox \<times> (tid \<Rightarrow> pending option)"

definition send_call :: "pending option \<Rightarrow> mailbox \<Rightarrow> u32 \<Rightarrow> int \<Rightarrow> u32 \<Rightarrow> kernel \<Rightarrow> (int, kernel \<times> mailbox) call cres" where
  "send_call c mb value timeout delta k =
     (if c = None then rt_mb_send_wait mb value timeout k else rt_mb_send_resumed mb value timeout delta k)"

definition recv_call :: "pending option \<Rightarrow> mailbox \<Rightarrow> int \<Rightarrow> u32 \<Rightarrow> kernel \<Rightarrow> (int \<times> u32 option, kernel \<times> mailbox) call cres" where
  "recv_call c mb timeout delta k =
     (if c = None then rt_mb_recv mb timeout k else rt_mb_recv_resumed mb timeout delta k)"

inductive mb_step :: "mb_sys \<Rightarrow> mb_event \<Rightarrow> mb_sys \<Rightarrow> bool" where
  send_done: "running k \<Longrightarrow> t = rt_current_thread k \<Longrightarrow> pend t = None \<or> pend t = Some (Sending v timeout) \<Longrightarrow>
    send_call (pend t) mb v timeout delta k = Inr (Return 0 (k', mb')) \<Longrightarrow>
    mb_step (k, mb, pend) (Sent v) (k', mb', pend(t := None))"
| send_fail: "running k \<Longrightarrow> t = rt_current_thread k \<Longrightarrow> pend t = None \<or> pend t = Some (Sending v timeout) \<Longrightarrow>
    send_call (pend t) mb v timeout delta k = Inr (Return e (k', mb')) \<Longrightarrow> e \<noteq> 0 \<Longrightarrow>
    mb_step (k, mb, pend) Quiet (k', mb', pend(t := None))"
| send_block: "running k \<Longrightarrow> t = rt_current_thread k \<Longrightarrow> pend t = None \<or> pend t = Some (Sending v timeout) \<Longrightarrow>
    send_call (pend t) mb v timeout delta k = Inr (Block (k', mb')) \<Longrightarrow> timeout < 0x7FFFFFFF \<Longrightarrow> uint delta < 2 ^ 31 \<Longrightarrow>
    mb_step (k, mb, pend) Quiet (k', mb', pend(t \<mapsto> Sending v (time_left (pend t) timeout delta)))"
| recv_done: "running k \<Longrightarrow> t = rt_current_thread k \<Longrightarrow> pend t = None \<or> pend t = Some (Receiving timeout) \<Longrightarrow>
    recv_call (pend t) mb timeout delta k = Inr (Return (e, Some v) (k', mb')) \<Longrightarrow>
    mb_step (k, mb, pend) (Got v) (k', mb', pend(t := None))"
| recv_fail: "running k \<Longrightarrow> t = rt_current_thread k \<Longrightarrow> pend t = None \<or> pend t = Some (Receiving timeout) \<Longrightarrow>
    recv_call (pend t) mb timeout delta k = Inr (Return (e, None) (k', mb')) \<Longrightarrow>
    mb_step (k, mb, pend) Quiet (k', mb', pend(t := None))"
| recv_block: "running k \<Longrightarrow> t = rt_current_thread k \<Longrightarrow> pend t = None \<or> pend t = Some (Receiving timeout) \<Longrightarrow>
    recv_call (pend t) mb timeout delta k = Inr (Block (k', mb')) \<Longrightarrow> timeout < 0x7FFFFFFF \<Longrightarrow> uint delta < 2 ^ 31 \<Longrightarrow>
    mb_step (k, mb, pend) Quiet (k', mb', pend(t \<mapsto> Receiving (time_left (pend t) timeout delta)))"
| urgent_done: "rt_mb_urgent mb v k = Inr (0, k', mb') \<Longrightarrow> mb_step (k, mb, pend) (SentUrgent v) (k', mb', pend)"
| urgent_fail: "rt_mb_urgent mb v k = Inr (e, k', mb') \<Longrightarrow> e \<noteq> 0 \<Longrightarrow> mb_step (k, mb, pend) Quiet (k', mb', pend)"
| timed_out: "t \<in> set (queues k (WaitQ (mb_id mb))) \<or> t \<in> set (queues k (SenderQ (mb_id mb))) \<Longrightarrow> thread_timeout t k = Inr k' \<Longrightarrow>
    mb_step (k, mb, pend) Quiet (k', mb, pend)"
| scheduled: "mb_step (k, mb, pend) Quiet (rt_schedule k, mb, pend)"

text \<open>What an event does to the queue of mails.\<close>

fun replay1 :: "mb_event \<Rightarrow> u32 list \<Rightarrow> u32 list option" where
  "replay1 (Sent v) q = Some (q @ [v])"
| "replay1 (SentUrgent v) q = Some (v # q)"
| "replay1 (Got v) q = (case q of [] \<Rightarrow> None | x # q' \<Rightarrow> if x = v then Some q' else None)"
| "replay1 Quiet q = Some q"

definition mb_sys_ok :: "mb_sys \<Rightarrow> bool" where
  "mb_sys_ok st \<longleftrightarrow> (case st of (k, mb, pend) \<Rightarrow>
     mb_inv mb \<and> sides_ok k pend (mb_id mb) is_receiving (entry mb) is_sending (mb_size mb - entry mb))"

lemma mb_sys_okD:
  assumes "mb_sys_ok (k, mb, pend)"
  shows "mb_inv mb" "sides_ok k pend (mb_id mb) is_receiving (entry mb) is_sending (mb_size mb - entry mb)"
  using assms by (simp_all add: mb_sys_ok_def)

text \<open>The ways a call goes: it returns an error at once, or it goes through the loop.\<close>

lemma send_call_cases:
  assumes "send_call c mb v timeout delta k = Inr r"
  shows "(\<exists>e. r = Return e (k, mb) \<and> e \<noteq> 0 \<and> (c = None \<or> terror (threads k (rt_current_thread k)) \<noteq> RT_EOK))
    \<or> mb_send_loop mb v (time_left c timeout delta) k = Inr r \<and> (c = None \<or> terror (threads k (rt_current_thread k)) = RT_EOK)"
proof (cases "c = None")
  case True
  then have "rt_mb_send_wait mb v timeout k = Inr r" using assms by (simp add: send_call_def)
  then have "(if entry mb = mb_size mb \<and> timeout = 0 then Inr (Return (- RT_EFULL) (k, mb)) else mb_send_loop mb v timeout k) = Inr r"
    unfolding rt_mb_send_wait_def by (rule cbind_eq_InrE)
  then have "r = Return (- RT_EFULL) (k, mb) \<or> mb_send_loop mb v timeout k = Inr r" by (simp split: if_split_asm)
  then show ?thesis using True by (elim disjE) (simp_all add: time_left_def)
next
  case False
  then show ?thesis
    using assms by (cases "terror (threads k (rt_current_thread k)) = RT_EOK") (auto simp: send_call_def rt_mb_send_resumed_def time_left_def)
qed

lemma recv_call_cases:
  assumes "recv_call c mb timeout delta k = Inr r"
  shows "(\<exists>e. r = Return (e, None) (k, mb) \<and> (c = None \<or> terror (threads k (rt_current_thread k)) \<noteq> RT_EOK))
    \<or> mb_recv_loop mb (time_left c timeout delta) k = Inr r \<and> (c = None \<or> terror (threads k (rt_current_thread k)) = RT_EOK)"
proof (cases "c = None")
  case True
  then show ?thesis
    using assms by (cases "entry mb = 0 \<and> timeout = 0") (auto simp: recv_call_def rt_mb_recv_def time_left_def cbind_eq_Inr)
next
  case False
  then show ?thesis
    using assms by (cases "terror (threads k (rt_current_thread k)) = RT_EOK") (auto simp: recv_call_def rt_mb_recv_resumed_def time_left_def)
qed

text \<open>A call that goes through.\<close>

lemma send_loop_done:
  assumes ok: "mb_sys_ok (k, mb, pend)" and run: "running k" "t = rt_current_thread k"
    and c: "\<not> pends is_receiving (pend t)" and r: "mb_send_loop mb v timeout k = Inr (Return 0 (k', mb'))"
  shows "mb_sys_ok (k', mb', pend(t := None)) \<and> mails mb' = mails mb @ [v] \<and> mb_id mb' = mb_id mb"
proof -
  note o = mb_sys_okD [OF ok]
  have ne: "entry mb \<noteq> mb_size mb" using r by (auto simp: mb_send_loop_def Let_def cbind_eq_Inr split: if_splits)
  then have room: "length (mails mb) < mb_size mb" "entry mb < 0xFFFF" using o(1) by (auto simp: mb_inv_def)
  obtain mb1 where mb1: "mb_put v mb = Inr mb1" "mb_inv mb1" "mails mb1 = mails mb @ [v]" "mb_size mb1 = mb_size mb"
    "mb_id mb1 = mb_id mb" "entry mb1 = entry mb + 1"
    using mb_put_law [OF o(1) room(1)] by blast
  have res: "k' = wake_first (WaitQ (mb_id mb)) k" "mb' = mb1" using r ne room(2) mb1(1) by (simp_all add: mb_send_loop_def)
  have "sides_ok k (pend(t := None)) (mb_id mb) is_receiving (entry mb) is_sending (mb_size mb - entry mb - 1)"
    by (rule mbs.took_room [OF o(2) run c]) simp_all
  from mbs.added_received [OF this] show ?thesis using mb1 res by (simp add: mb_sys_ok_def)
qed

lemma recv_loop_done:
  assumes ok: "mb_sys_ok (k, mb, pend)" and run: "running k" "t = rt_current_thread k"
    and c: "\<not> pends is_sending (pend t)" and r: "mb_recv_loop mb timeout k = Inr (Return (e, Some v) (k', mb'))"
  shows "mb_sys_ok (k', mb', pend(t := None)) \<and> mails mb = v # mails mb' \<and> mb_id mb' = mb_id mb"
proof -
  note o = mb_sys_okD [OF ok]
  have ne: "entry mb \<noteq> 0" using r by (auto simp: mb_recv_loop_def Let_def cbind_eq_Inr split: if_splits)
  then obtain x xs where m: "mails mb = x # xs" using length_mails [of mb] by (cases "mails mb") auto
  obtain mb1 where mb1: "mb_get mb = Inr (x, mb1)" "mb_inv mb1" "mails mb1 = xs" "mb_size mb1 = mb_size mb"
    "mb_id mb1 = mb_id mb" "entry mb1 + 1 = entry mb"
    using mb_get_law [OF o(1) m] by blast
  have res: "k' = wake_first (SenderQ (mb_id mb)) k" "mb' = mb1" "v = x"
    using r ne mb1(1) by (simp_all add: mb_recv_loop_def)
  have en: "entry mb1 = entry mb - 1" "mb_size mb - entry mb + 1 = mb_size mb - entry mb1"
    using mb1(6) o(1) ne by (auto simp: mb_inv_def)
  have "sides_ok k (pend(t := None)) (mb_id mb) is_receiving (entry mb - 1) is_sending (mb_size mb - entry mb)"
    by (rule mbs.took_received [OF o(2) run c]) simp_all
  from mbs.added_room [OF this] show ?thesis using mb1 res m en by (simp add: mb_sys_ok_def)
qed

lemma urgent_ok:
  assumes ok: "mb_sys_ok (k, mb, pend)" and r: "rt_mb_urgent mb v k = Inr (e, k', mb')"
  shows "mb_sys_ok (k', mb', pend) \<and> (if e = 0 then mails mb' = v # mails mb else mails mb' = mails mb)"
proof (cases "entry mb = mb_size mb")
  case True
  then have "e = - RT_EFULL" "k' = k" "mb' = mb" using r by (simp_all add: rt_mb_urgent_def)
  then show ?thesis using ok by simp
next
  case False
  note o = mb_sys_okD [OF ok]
  have room: "length (mails mb) < mb_size mb" using o(1) False by (auto simp: mb_inv_def)
  obtain mb1 where mb1: "mb_put_urgent v mb = Inr mb1" "mb_inv mb1" "mails mb1 = v # mails mb" "mb_size mb1 = mb_size mb"
    "mb_id mb1 = mb_id mb" "entry mb1 = entry mb + 1"
    using mb_put_urgent_law [OF o(1) room] by blast
  have res: "k' = wake_first (WaitQ (mb_id mb)) k" "mb' = mb1" "e = 0" using r False mb1(1) by (simp_all add: rt_mb_urgent_def)
  have "sides_ok k pend (mb_id mb) is_receiving (entry mb) is_sending (mb_size mb - (entry mb + 1))"
    by (rule sides_mono [OF o(2)]) simp_all
  from mbs.added_received [OF this] show ?thesis using mb1 res by (simp add: mb_sys_ok_def)
qed

text \<open>Every outcome of a call.\<close>

lemma send_loop_outcomes:
  assumes "mb_send_loop mb v timeout k = Inr r"
  shows "(\<exists>k' mb'. r = Return 0 (k', mb') \<or> r = Return (- RT_EFULL) (k', mb') \<and> entry mb \<noteq> mb_size mb \<and> \<not> entry mb < RT_MB_ENTRY_MAX)
    \<or> (entry mb = mb_size mb \<and> r = Return (- RT_EFULL) (set_error (rt_current_thread k) RT_EOK k, mb))
    \<or> (\<exists>k'. entry mb = mb_size mb \<and> r = Block (k', mb)
         \<and> ipc_wait (SenderQ (mb_id mb)) (mb_flag mb) timeout (set_error (rt_current_thread k) RT_EOK k) = Inr k')"
  using assms by (auto simp: mb_send_loop_def Let_def cbind_eq_Inr split: if_splits)

lemma recv_loop_outcomes:
  assumes "mb_recv_loop mb timeout k = Inr r"
  shows "(\<exists>v k' mb'. r = Return (0, Some v) (k', mb'))
    \<or> (entry mb = 0 \<and> r = Return (- RT_ETIMEOUT, None)
         (set_error (rt_current_thread k) (- RT_ETIMEOUT) (set_error (rt_current_thread k) RT_EOK k), mb))
    \<or> (\<exists>k'. entry mb = 0 \<and> r = Block (k', mb)
         \<and> ipc_wait (WaitQ (mb_id mb)) (mb_flag mb) timeout (set_error (rt_current_thread k) RT_EOK k) = Inr k')"
  using assms by (auto simp: mb_recv_loop_def Let_def cbind_eq_Inr split: if_splits)

lemma entry_room: "mb_sys_ok (k, mb, pend) \<Longrightarrow> entry mb \<noteq> mb_size mb \<Longrightarrow> entry mb < RT_MB_ENTRY_MAX"
  by (auto simp: mb_sys_ok_def mb_inv_def)

lemma mb_send_step_ok:
  assumes ok: "mb_sys_ok (k, mb, pend)" and run: "running k" "t = rt_current_thread k"
    and c: "pend t = None \<or> pend t = Some (Sending v timeout)" and r: "send_call (pend t) mb v timeout delta k = Inr r"
  shows "r = Return 0 (k', mb') \<Longrightarrow> mb_sys_ok (k', mb', pend(t := None)) \<and> mails mb' = mails mb @ [v]"
    "r = Return e (k', mb') \<Longrightarrow> e \<noteq> 0 \<Longrightarrow> mb_sys_ok (k', mb', pend(t := None)) \<and> mails mb' = mails mb"
    "r = Block (k', mb') \<Longrightarrow> timeout < 0x7FFFFFFF \<Longrightarrow> uint delta < 2 ^ 31 \<Longrightarrow>
       mb_sys_ok (k', mb', pend(t \<mapsto> Sending v left)) \<and> mails mb' = mails mb"
proof -
  note o = mb_sys_okD [OF ok]
  have nr: "\<not> pends is_receiving (pend t)" using c by auto
  note cs = send_call_cases [OF r]
  show "mb_sys_ok (k', mb', pend(t := None)) \<and> mails mb' = mails mb @ [v]" if "r = Return 0 (k', mb')"
    using cs that send_loop_done [OF ok run nr] by auto
  show "mb_sys_ok (k', mb', pend(t := None)) \<and> mails mb' = mails mb" if re: "r = Return e (k', mb')" "e \<noteq> 0"
    using cs
  proof (rule disjE)
    assume "\<exists>e'. r = Return e' (k, mb) \<and> e' \<noteq> 0 \<and> (pend t = None \<or> terror (threads k (rt_current_thread k)) \<noteq> RT_EOK)"
    then show ?thesis using re o mbs.end_quiet [OF o(2) run] run(2) by (auto simp: mb_sys_ok_def)
  next
    assume l: "mb_send_loop mb v (time_left (pend t) timeout delta) k = Inr r \<and> (pend t = None \<or> terror (threads k (rt_current_thread k)) = RT_EOK)"
    then have "entry mb = mb_size mb" "mb' = mb" "k' = set_error t RT_EOK k"
      using send_loop_outcomes [OF conjunct1 [OF l]] re entry_room [OF ok] run(2) by auto
    then show ?thesis using o(1) mbs.end_fail [OF o(2) run, of RT_EOK] nr by (simp add: mb_sys_ok_def)
  qed
  show "mb_sys_ok (k', mb', pend(t \<mapsto> Sending v left)) \<and> mails mb' = mails mb"
    if rb: "r = Block (k', mb')" and tm: "timeout < 0x7FFFFFFF" "uint delta < 2 ^ 31"
  proof -
    have l: "mb_send_loop mb v (time_left (pend t) timeout delta) k = Inr r" and e: "pend t = None \<or> terror (threads k t) = RT_EOK"
      using cs rb run(2) by auto
    then have w: "mb' = mb" "entry mb = mb_size mb"
      "ipc_wait (SenderQ (mb_id mb)) (mb_flag mb) (time_left (pend t) timeout delta) (set_error t RT_EOK k) = Inr k'"
      using send_loop_outcomes [OF l] rb run(2) by auto
    show ?thesis
      using mbs.blocks(1) [OF o(2) run e time_left_less [OF tm] w(3) refl nr, of "Sending v left"] w(1,2) o(1) by (simp add: mb_sys_ok_def)
  qed
qed

lemma mb_recv_step_ok:
  assumes ok: "mb_sys_ok (k, mb, pend)" and run: "running k" "t = rt_current_thread k"
    and c: "pend t = None \<or> pend t = Some (Receiving timeout)" and r: "recv_call (pend t) mb timeout delta k = Inr r"
  shows "r = Return (e, Some v) (k', mb') \<Longrightarrow> mb_sys_ok (k', mb', pend(t := None)) \<and> mails mb = v # mails mb'"
    "r = Return (e, None) (k', mb') \<Longrightarrow> mb_sys_ok (k', mb', pend(t := None)) \<and> mails mb' = mails mb"
    "r = Block (k', mb') \<Longrightarrow> timeout < 0x7FFFFFFF \<Longrightarrow> uint delta < 2 ^ 31 \<Longrightarrow>
       mb_sys_ok (k', mb', pend(t \<mapsto> Receiving left)) \<and> mails mb' = mails mb"
proof -
  note o = mb_sys_okD [OF ok]
  have ns: "\<not> pends is_sending (pend t)" using c by auto
  note cs = recv_call_cases [OF r]
  show "mb_sys_ok (k', mb', pend(t := None)) \<and> mails mb = v # mails mb'" if "r = Return (e, Some v) (k', mb')"
    using cs that recv_loop_done [OF ok run ns] by auto
  show "mb_sys_ok (k', mb', pend(t := None)) \<and> mails mb' = mails mb" if re: "r = Return (e, None) (k', mb')"
    using cs
  proof (rule disjE)
    assume "\<exists>e'. r = Return (e', None) (k, mb) \<and> (pend t = None \<or> terror (threads k (rt_current_thread k)) \<noteq> RT_EOK)"
    then show ?thesis using re o mbs.end_quiet [OF o(2) run] run(2) by (auto simp: mb_sys_ok_def)
  next
    assume l: "mb_recv_loop mb (time_left (pend t) timeout delta) k = Inr r \<and> (pend t = None \<or> terror (threads k (rt_current_thread k)) = RT_EOK)"
    then have "entry mb = 0" "mb' = mb" "k' = set_error t (- RT_ETIMEOUT) (set_error t RT_EOK k)"
      using recv_loop_outcomes [OF conjunct1 [OF l]] re run(2) by auto
    then show ?thesis using o(1) mbs.end_fail [OF o(2) run, of "- RT_ETIMEOUT"] ns by (simp add: mb_sys_ok_def set_error_twice)
  qed
  show "mb_sys_ok (k', mb', pend(t \<mapsto> Receiving left)) \<and> mails mb' = mails mb"
    if rb: "r = Block (k', mb')" and tm: "timeout < 0x7FFFFFFF" "uint delta < 2 ^ 31"
  proof -
    have l: "mb_recv_loop mb (time_left (pend t) timeout delta) k = Inr r" and e: "pend t = None \<or> terror (threads k t) = RT_EOK"
      using cs rb run(2) by auto
    then have w: "mb' = mb" "entry mb = 0"
      "ipc_wait (WaitQ (mb_id mb)) (mb_flag mb) (time_left (pend t) timeout delta) (set_error t RT_EOK k) = Inr k'"
      using recv_loop_outcomes [OF l] rb run(2) by auto
    show ?thesis
      using mbs.blocks(2) [OF o(2) run e time_left_less [OF tm] w(3) refl ns, of "Receiving left"] w(1,2) o(1) by (simp add: mb_sys_ok_def)
  qed
qed

lemma mb_step_ok:
  "mb_step st e st' \<Longrightarrow> mb_sys_ok st \<Longrightarrow> mb_sys_ok st' \<and> replay1 e (mails (fst (snd st))) = Some (mails (fst (snd st')))"
proof (induction rule: mb_step.induct)
  case (send_done k t pend v timeout mb delta k' mb')
  then show ?case using mb_send_step_ok(1) [OF send_done.prems] by simp
next
  case (send_fail k t pend v timeout mb delta e k' mb')
  then show ?case using mb_send_step_ok(2) [OF send_fail.prems] by simp
next
  case (send_block k t pend v timeout mb delta k' mb')
  then show ?case using mb_send_step_ok(3) [OF send_block.prems] by simp
next
  case (recv_done k t pend timeout mb delta e v k' mb')
  then show ?case using mb_recv_step_ok(1) [OF recv_done.prems] by simp
next
  case (recv_fail k t pend timeout mb delta e k' mb')
  then show ?case using mb_recv_step_ok(2) [OF recv_fail.prems] by simp
next
  case (recv_block k t pend timeout mb delta k' mb')
  then show ?case using mb_recv_step_ok(3) [OF recv_block.prems] by simp
next
  case (urgent_done mb v k k' mb' pend)
  then show ?case using urgent_ok [OF urgent_done.prems urgent_done(1)] by simp
next
  case (urgent_fail mb v k e k' mb' pend)
  then show ?case using urgent_ok [OF urgent_fail.prems urgent_fail(1)] by simp
next
  case (timed_out t k mb k' pend)
  then show ?case using mbs.timed_out [OF mb_sys_okD(2) [OF timed_out.prems] timed_out(1,2)] by (simp add: mb_sys_ok_def)
next
  case (scheduled k mb pend)
  then show ?case using mbs.scheduled by (simp add: mb_sys_ok_def)
qed

inductive mb_run :: "mb_sys \<Rightarrow> mb_event list \<Rightarrow> mb_sys \<Rightarrow> bool" where
  fresh: "kinv k \<Longrightarrow> queues k (WaitQ oid) = [] \<Longrightarrow> queues k (SenderQ oid) = [] \<Longrightarrow> length pool = sz \<Longrightarrow> sz < 2 ^ 16 \<Longrightarrow>
    rt_mb_init oid pool sz flag k = (k', mb) \<Longrightarrow> mb_run (k', mb, Map.empty) [] (k', mb, Map.empty)"
| step: "mb_run st es st' \<Longrightarrow> mb_step st' e st'' \<Longrightarrow> mb_run st (es @ [e]) st''"

fun replay :: "mb_event list \<Rightarrow> u32 list \<Rightarrow> u32 list option" where
  "replay [] q = Some q"
| "replay (e # es) q = (case replay1 e q of None \<Rightarrow> None | Some q' \<Rightarrow> replay es q')"

lemma replay_snoc: "replay (es @ [e]) q = (case replay es q of None \<Rightarrow> None | Some q' \<Rightarrow> replay1 e q')"
  by (induction es arbitrary: q) (auto split: option.splits)

lemma mb_fresh_ok:
  assumes "kinv k" "queues k (WaitQ oid) = []" "queues k (SenderQ oid) = []" "length pool = sz" "sz < 2 ^ 16"
    and r: "rt_mb_init oid pool sz flag k = (k', mb)"
  shows "k' = k" "mb_sys_ok (k, mb, Map.empty)" "mails mb = []"
proof -
  have "(queues k)(WaitQ oid := [], SenderQ oid := []) = queues k" using assms(2,3) by (simp add: fun_upd_idem)
  then show k': "k' = k" using r by (simp add: rt_mb_init_def)
  have mb: "mb = \<lparr>mb_id = oid, msg_pool = pool, mb_size = sz, entry = 0, in_offset = 0, out_offset = 0, mb_flag = flag\<rparr>"
    using r assms(5) by (simp add: rt_mb_init_def)
  show "mb_sys_ok (k, mb, Map.empty)" "mails mb = []"
    using assms by (simp_all add: mb mb_sys_ok_def mb_inv_def sides_ok_def side_ok_def mails_def)
qed

lemma mb_run_ok:
  "mb_run st es st' \<Longrightarrow> mb_sys_ok st' \<and> replay es [] = Some (mails (fst (snd st')))"
proof (induction rule: mb_run.induct)
  case (fresh k oid pool sz flag k' mb)
  then show ?case using mb_fresh_ok [OF fresh(1-6)] by simp
next
  case (step st es st' e st'')
  then show ?case using mb_step_ok [OF step.hyps(2)] by (auto simp: replay_snoc)
qed

text \<open>A mailbox of two places into which a mail has been sent.\<close>

definition sample_mailbox :: "u32 list \<Rightarrow> nat \<Rightarrow> mailbox" where
  "sample_mailbox pool n = \<lparr>mb_id = 0, msg_pool = pool, mb_size = 2, entry = n, in_offset = n, out_offset = 0, mb_flag = RT_IPC_FLAG_FIFO\<rparr>"

lemma sample_mb_run: "mb_run (sample_kernel, sample_mailbox [0, 0] 0, Map.empty) ([] @ [Sent 7]) (sample_kernel, sample_mailbox [7, 0] 1, Map.empty(1 := None))"
proof (rule mb_run.step)
  have q: "queues sample_kernel (WaitQ 0) = []" "queues sample_kernel (SenderQ 0) = []" by (simp_all add: sample_kernel_def)
  show "mb_run (sample_kernel, sample_mailbox [0, 0] 0, Map.empty) [] (sample_kernel, sample_mailbox [0, 0] 0, Map.empty)"
    by (rule mb_run.fresh [OF sample_kernel_kinv q, of "[0, 0]" 2 RT_IPC_FLAG_FIFO])
      (simp_all add: rt_mb_init_def sample_mailbox_def fun_upd_idem q)
  have "send_call None (sample_mailbox [0, 0] 0) 7 0 0 sample_kernel = Inr (Return 0 (sample_kernel, sample_mailbox [7, 0] 1))"
    by (simp add: send_call_def rt_mb_send_wait_def mb_send_loop_def mb_put_def wake_first_def q sample_mailbox_def Let_def)
  then show "mb_step (sample_kernel, sample_mailbox [0, 0] 0, Map.empty) (Sent 7) (sample_kernel, sample_mailbox [7, 0] 1, Map.empty(1 := None))"
    by (intro mb_step.send_done [where timeout = 0 and delta = 0]) (simp_all add: running_def sample_kernel_def sample_thread_def)
qed

section \<open>Properties\<close>

text \<open>C3: mails are delivered exactly once and in order: over every interleaving of sends, urgent sends,
  receives, resumed calls, timeouts and scheduling, replaying the completed operations on an
  empty queue (sends at the back, urgent sends at the front, receives from the front) never fails and
  gives the mails that are in the mailbox, at most as many as it has room for.\<close>

theorem mailbox_delivers_in_order:
  assumes "mb_run st es (k, mb, pend)"
  shows "replay es [] = Some (mails mb) \<and> length (mails mb) \<le> mb_size mb \<and> kinv k"
  using mb_run_ok [OF assms] by (simp add: mb_sys_ok_def sides_ok_def mb_inv_def)

theorem mailbox_delivers_in_order_witness: "mails (sample_mailbox [7, 0] 1) = [7] \<and> replay [Sent 7] [] = Some [7]"
  using mailbox_delivers_in_order [OF sample_mb_run] by simp

text \<open>C4: no wake-up of a mailbox is lost: if a thread waits for a mail although there is one, another
  thread whose receive has been woken is ready or running to take it; and if a thread waits for room
  although there is some, another woken sender is ready or running to use it.\<close>

theorem mailbox_no_lost_wakeup:
  assumes "mb_run st es (k, mb, pend)"
  shows "(queues k (WaitQ (mb_id mb)) \<noteq> [] \<and> entry mb > 0 \<longrightarrow>
      (\<exists>t timeout. pend t = Some (Receiving timeout) \<and> t \<notin> set (queues k (WaitQ (mb_id mb))) \<and> awake k t \<and> terror (threads k t) = RT_EOK))
    \<and> (queues k (SenderQ (mb_id mb)) \<noteq> [] \<and> entry mb < mb_size mb \<longrightarrow>
      (\<exists>t v timeout. pend t = Some (Sending v timeout) \<and> t \<notin> set (queues k (SenderQ (mb_id mb))) \<and> awake k t \<and> terror (threads k t) = RT_EOK))"
proof -
  have ok: "sides_ok k pend (mb_id mb) is_receiving (entry mb) is_sending (mb_size mb - entry mb)"
    using mb_run_ok [OF assms] by (simp add: mb_sys_ok_def)
  have "is_receiving p \<Longrightarrow> \<exists>timeout. p = Receiving timeout" "is_sending p \<Longrightarrow> \<exists>v timeout. p = Sending v timeout" for p
    by (cases p; simp)+
  then show ?thesis using mbs.woken_receiver [OF ok] mbs.woken_sender [OF ok] by (metis zero_less_diff)
qed

text \<open>Two threads wait for a mail and one is sent: the first has been woken, the second still waits.\<close>

lemma recv_blocks:
  assumes inv: "kinv k" and run: "running k" and lock: "lock_nest k = 0" and e: "entry mb = 0" "mb_flag mb = RT_IPC_FLAG_FIFO"
  shows "\<exists>k'. recv_call None mb (- 1) 0 k = Inr (Block (k', mb)) \<and> kinv k' \<and> lock_nest k' = 0
    \<and> queues k' (WaitQ (mb_id mb)) = queues k (WaitQ (mb_id mb)) @ [rt_current_thread k]
    \<and> (stat (threads k u) = RT_THREAD_READY \<longrightarrow> running k' \<and> rt_current_thread k' \<noteq> rt_current_thread k)"
  using wait_forever [OF inv run lock, of "mb_id mb" u] lock e
  by (auto simp: recv_call_def rt_mb_recv_def mb_recv_loop_def Let_def)

theorem mailbox_no_lost_wakeup_witness:
  "\<exists>st es k mb pend t timeout. mb_run st es (k, mb, pend) \<and> queues k (WaitQ (mb_id mb)) \<noteq> [] \<and> entry mb = 1
     \<and> pend t = Some (Receiving timeout) \<and> awake k t"
proof -
  let ?mb = "sample_mailbox [0, 0] 0" and ?k = sample_kernel
  have q: "queues ?k (WaitQ 0) = []" "queues ?k (SenderQ 0) = []" "rt_current_thread ?k = 1" "lock_nest ?k = 0" "running ?k"
    "stat (threads ?k 2) = RT_THREAD_READY" and m: "entry ?mb = 0" "mb_flag ?mb = RT_IPC_FLAG_FIFO" "mb_id ?mb = 0"
    by (simp_all add: sample_kernel_def sample_thread_def running_def sample_mailbox_def)
  obtain k1 where 1: "recv_call None ?mb (- 1) 0 ?k = Inr (Block (k1, ?mb))" "kinv k1" "lock_nest k1 = 0" "queues k1 (WaitQ 0) = [1]"
    "running k1" "rt_current_thread k1 \<noteq> 1"
    using recv_blocks [OF sample_kernel_kinv q(5,4) m(1,2), of 2] q m(3) by auto
  obtain k2 where 2: "recv_call None ?mb (- 1) 0 k1 = Inr (Block (k2, ?mb))" "kinv k2" "queues k2 (WaitQ 0) = [1, rt_current_thread k1]"
    using recv_blocks [OF 1(2,5,3) m(1,2)] 1(4) m(3) by auto
  let ?p1 = "Map.empty(1 \<mapsto> Receiving (time_left (None :: pending option) (- 1) 0))"
  have r0: "mb_run (?k, ?mb, Map.empty) [] (?k, ?mb, Map.empty)"
    by (rule mb_run.fresh [OF sample_kernel_kinv q(1,2), of "[0, 0]" 2 RT_IPC_FLAG_FIFO])
      (simp_all add: rt_mb_init_def sample_mailbox_def fun_upd_idem q)
  have r1: "mb_step (?k, ?mb, Map.empty) Quiet (k1, ?mb, ?p1)"
    using mb_step.recv_block [of ?k 1 Map.empty "- 1" ?mb 0 k1 ?mb] 1(1) q(3,5) by simp
  obtain p2 where r2: "mb_step (k1, ?mb, ?p1) Quiet (k2, ?mb, p2)"
    using mb_step.recv_block [of k1 "rt_current_thread k1" ?p1 "- 1" ?mb 0 k2 ?mb] 1(5,6) 2(1) by auto
  have w: "wake_first (WaitQ 0) k2 = rt_schedule (ipc_list_resume (WaitQ 0) k2)" using 2(3) by (simp add: wake_first_def)
  obtain mb3 where r3: "mb_step (k2, ?mb, p2) (SentUrgent 7) (wake_first (WaitQ 0) k2, mb3, p2)" and m3: "entry mb3 = 1" "mb_id mb3 = 0"
    using mb_step.urgent_done [of ?mb 7 k2 "wake_first (WaitQ 0) k2" _ p2] by (fastforce simp: rt_mb_urgent_def mb_put_urgent_def sample_mailbox_def Let_def)
  have run: "mb_run (?k, ?mb, Map.empty) ((([] @ [Quiet]) @ [Quiet]) @ [SentUrgent 7]) (wake_first (WaitQ 0) k2, mb3, p2)"
    by (intro mb_run.step [OF mb_run.step [OF mb_run.step [OF r0 r1] r2] r3])
  have "queues (wake_first (WaitQ 0) k2) (WaitQ 0) = [rt_current_thread k1]" using wake_first_kinv(2) [OF 2(2), of "WaitQ 0" "WaitQ 0"] 2(3) by simp
  then show ?thesis using mailbox_no_lost_wakeup [OF run] run m3 by (metis list.distinct(1) zero_less_one)
qed

end
