(* ===== verification/Ipc_Mq.thy ===== *)
theory Ipc_Mq
  imports Ipc_Waiters Kstring
begin

text \<open>
  The message queue of \<^verbatim>\<open>rt-thread/src/ipc.c\<close>: a pool of blocks, each with a \<open>next\<close> pointer and the bytes of a message,
  on a list of queued and a list of free blocks. A send takes a free block, enables interrupts
  while it copies the message, and then links the block; a receive unlinks a block, copies with interrupts enabled, and then
  gives the block back. The parts before and after the copy are definitions of their own, so that the
  interleavings at these points are modelled.
\<close>

section \<open>State and operations\<close>

text \<open>\<open>struct rt_mq_message\<close> with the bytes behind it.\<close>

record mq_block =
  bnext :: ptr
  bdata :: "char list"

record messagequeue =
  mq_id :: nat
  msg_size :: nat
  max_msgs :: nat
  mq_entry :: nat
  msg_queue_head :: ptr
  msg_queue_tail :: ptr
  msg_queue_free :: ptr
  mq_blocks :: "ptr \<rightharpoonup> mq_block"
  mq_flag :: ipc_flag

abbreviation (input) RT_MQ_ENTRY_MAX :: nat where "RT_MQ_ENTRY_MAX \<equiv> 0xFFFF"

definition mq_load :: "messagequeue \<Rightarrow> ptr \<Rightarrow> mq_block cres" where
  "mq_load mq p = (if p = RT_NULL then Inl NullDeref else case mq_blocks mq p of None \<Rightarrow> Inl WildDeref | Some b \<Rightarrow> Inr b)"

definition mq_set_next :: "ptr \<Rightarrow> ptr \<Rightarrow> messagequeue \<Rightarrow> messagequeue cres" where
  "mq_set_next p q mq = cbind (mq_load mq p) (\<lambda>b. Inr (mq\<lparr>mq_blocks := (mq_blocks mq)(p \<mapsto> b\<lparr>bnext := q\<rparr>)\<rparr>))"

text \<open>The loop of \<open>rt_mq_init\<close> over the pool at \<open>base\<close>, whose bytes are \<open>junk\<close>.\<close>

fun mq_init_loop :: "ptr \<Rightarrow> char \<Rightarrow> nat \<Rightarrow> nat \<Rightarrow> messagequeue \<Rightarrow> messagequeue" where
  "mq_init_loop base junk temp 0 mq = mq"
| "mq_init_loop base junk temp (Suc n) mq =
     (let head = base + temp * (msg_size mq + 4)
      in mq_init_loop base junk (Suc temp) n
           (mq\<lparr>mq_blocks := (mq_blocks mq)(head \<mapsto> \<lparr>bnext = msg_queue_free mq, bdata = replicate (msg_size mq) junk\<rparr>),
              msg_queue_free := head\<rparr>))"

definition rt_mq_init :: "nat \<Rightarrow> ptr \<Rightarrow> char \<Rightarrow> nat \<Rightarrow> nat \<Rightarrow> ipc_flag \<Rightarrow> kernel \<Rightarrow> kernel \<times> messagequeue" where
  "rt_mq_init oid msgpool junk msize pool_size flag k =
     (let ms = RT_ALIGN4 msize mod 2 ^ 16; mx = (pool_size div (ms + 4)) mod 2 ^ 16
      in (k\<lparr>queues := (queues k)(WaitQ oid := [], SenderQ oid := [])\<rparr>,
          mq_init_loop msgpool junk 0 mx
            \<lparr>mq_id = oid, msg_size = ms, max_msgs = mx, mq_entry = 0, msg_queue_head = RT_NULL, msg_queue_tail = RT_NULL,
             msg_queue_free = RT_NULL, mq_blocks = Map.empty, mq_flag = flag\<rparr>))"

text \<open>Taking a free block; copying into it; linking it at the tail or at the head; \<open>False\<close> when the count was at its limit.\<close>

definition mq_take :: "messagequeue \<Rightarrow> (ptr \<times> messagequeue) cres" where
  "mq_take mq = (let msg = msg_queue_free mq
     in cbind (mq_load mq msg) (\<lambda>b. Inr (msg, mq\<lparr>msg_queue_free := bnext b\<rparr>)))"

definition mq_fill :: "ptr \<Rightarrow> char list \<Rightarrow> nat \<Rightarrow> messagequeue \<Rightarrow> messagequeue cres" where
  "mq_fill msg buffer sz mq = cbind (mq_load mq msg) (\<lambda>b.
     cbind (memcpy_arrays (bdata b) 0 buffer 0 sz) (\<lambda>d.
     Inr (mq\<lparr>mq_blocks := (mq_blocks mq)(msg \<mapsto> b\<lparr>bdata := d\<rparr>)\<rparr>)))"

definition mq_count :: "messagequeue \<Rightarrow> bool \<times> messagequeue" where
  "mq_count mq = (if mq_entry mq < RT_MQ_ENTRY_MAX then (True, mq\<lparr>mq_entry := mq_entry mq + 1\<rparr>) else (False, mq))"

definition mq_link_tail :: "ptr \<Rightarrow> messagequeue \<Rightarrow> (bool \<times> messagequeue) cres" where
  "mq_link_tail msg mq =
     cbind (if msg_queue_tail mq \<noteq> RT_NULL then mq_set_next (msg_queue_tail mq) msg mq else Inr mq) (\<lambda>mq.
       let mq = mq\<lparr>msg_queue_tail := msg\<rparr>;
           mq = (if msg_queue_head mq = RT_NULL then mq\<lparr>msg_queue_head := msg\<rparr> else mq)
       in Inr (mq_count mq))"

definition mq_link_head :: "ptr \<Rightarrow> messagequeue \<Rightarrow> (bool \<times> messagequeue) cres" where
  "mq_link_head msg mq =
     cbind (mq_set_next msg (msg_queue_head mq) mq) (\<lambda>mq.
       let mq = mq\<lparr>msg_queue_head := msg\<rparr>;
           mq = (if msg_queue_tail mq = RT_NULL then mq\<lparr>msg_queue_tail := msg\<rparr> else mq)
       in Inr (mq_count mq))"

text \<open>Unlinking the first block and giving a block back.\<close>

definition mq_unlink :: "messagequeue \<Rightarrow> (ptr \<times> messagequeue) cres" where
  "mq_unlink mq = (let msg = msg_queue_head mq
     in cbind (mq_load mq msg) (\<lambda>b.
        let mq = mq\<lparr>msg_queue_head := bnext b\<rparr>;
            mq = (if msg_queue_tail mq = msg then mq\<lparr>msg_queue_tail := RT_NULL\<rparr> else mq)
        in Inr (msg, if mq_entry mq > 0 then mq\<lparr>mq_entry := mq_entry mq - 1\<rparr> else mq)))"

definition mq_release :: "ptr \<Rightarrow> messagequeue \<Rightarrow> messagequeue cres" where
  "mq_release msg mq = cbind (mq_set_next msg (msg_queue_free mq) mq) (\<lambda>mq. Inr (mq\<lparr>msg_queue_free := msg\<rparr>))"

text \<open>\<open>rt_mq_send_wait\<close> up to the point where it has a block (\<open>Inr\<close> the block), and from there on.\<close>

definition mq_send_loop :: "messagequeue \<Rightarrow> int \<Rightarrow> kernel \<Rightarrow> (int + ptr, kernel \<times> messagequeue) call cres" where
  "mq_send_loop mq timeout k =
     (if msg_queue_free mq = RT_NULL
      then let k = set_error (rt_current_thread k) RT_EOK k
           in if timeout = 0 then Inr (Return (Inl (- RT_EFULL)) (k, mq))
              else cbind (ipc_wait (SenderQ (mq_id mq)) (mq_flag mq) timeout k) (\<lambda>k. Inr (Block (k, mq)))
      else cbind (mq_take mq) (\<lambda>(p, mq). Inr (Return (Inr p) (k, mq))))"

definition mq_send_begin :: "messagequeue \<Rightarrow> nat \<Rightarrow> int \<Rightarrow> kernel \<Rightarrow> (int + ptr, kernel \<times> messagequeue) call cres" where
  "mq_send_begin mq sz timeout k =
     cbind (rt_assert (sz \<noteq> 0)) (\<lambda>_. cbind (rt_assert (timeout \<noteq> 0 \<longrightarrow> lock_nest k = 0)) (\<lambda>_.
       if sz > msg_size mq then Inr (Return (Inl (- RT_ERROR)) (k, mq))
       else if msg_queue_free mq = RT_NULL \<and> timeout = 0 then Inr (Return (Inl (- RT_EFULL)) (k, mq))
       else mq_send_loop mq timeout k))"

definition mq_send_resumed :: "messagequeue \<Rightarrow> int \<Rightarrow> u32 \<Rightarrow> kernel \<Rightarrow> (int + ptr, kernel \<times> messagequeue) call cres" where
  "mq_send_resumed mq timeout delta k =
     (let e = terror (threads k (rt_current_thread k))
      in if e \<noteq> RT_EOK then Inr (Return (Inl e) (k, mq)) else mq_send_loop mq (remaining timeout delta) k)"

definition mq_send_finish :: "ptr \<Rightarrow> char list \<Rightarrow> nat \<Rightarrow> messagequeue \<Rightarrow> kernel \<Rightarrow> (int \<times> kernel \<times> messagequeue) cres" where
  "mq_send_finish msg buffer sz mq k =
     cbind (mq_set_next msg RT_NULL mq) (\<lambda>mq. cbind (mq_fill msg buffer sz mq) (\<lambda>mq. cbind (mq_link_tail msg mq) (\<lambda>(counted, mq).
       if counted then Inr (RT_EOK, wake_first (WaitQ (mq_id mq)) k, mq) else Inr (- RT_EFULL, k, mq))))"

text \<open>The whole call when nothing comes in between.\<close>

definition rt_mq_send_wait :: "messagequeue \<Rightarrow> char list \<Rightarrow> nat \<Rightarrow> int \<Rightarrow> kernel \<Rightarrow> (int, kernel \<times> messagequeue) call cres" where
  "rt_mq_send_wait mq buffer sz timeout k =
     cbind (mq_send_begin mq sz timeout k) (\<lambda>r. case r of
       Block s \<Rightarrow> Inr (Block s)
     | Return (Inl e) s \<Rightarrow> Inr (Return e s)
     | Return (Inr p) (k, mq) \<Rightarrow> cbind (mq_send_finish p buffer sz mq k) (\<lambda>(e, s). Inr (Return e s)))"

definition rt_mq_send :: "messagequeue \<Rightarrow> char list \<Rightarrow> nat \<Rightarrow> kernel \<Rightarrow> (int, kernel \<times> messagequeue) call cres" where
  "rt_mq_send mq buffer sz k = rt_mq_send_wait mq buffer sz 0 k"

definition mq_urgent_begin :: "messagequeue \<Rightarrow> nat \<Rightarrow> ((int + ptr) \<times> messagequeue) cres" where
  "mq_urgent_begin mq sz =
     cbind (rt_assert (sz \<noteq> 0)) (\<lambda>_.
       if sz > msg_size mq then Inr (Inl (- RT_ERROR), mq)
       else if msg_queue_free mq = RT_NULL then Inr (Inl (- RT_EFULL), mq)
       else cbind (mq_take mq) (\<lambda>(p, mq). Inr (Inr p, mq)))"

definition mq_urgent_finish :: "ptr \<Rightarrow> char list \<Rightarrow> nat \<Rightarrow> messagequeue \<Rightarrow> kernel \<Rightarrow> (int \<times> kernel \<times> messagequeue) cres" where
  "mq_urgent_finish msg buffer sz mq k =
     cbind (mq_fill msg buffer sz mq) (\<lambda>mq. cbind (mq_link_head msg mq) (\<lambda>(counted, mq).
       if counted then Inr (RT_EOK, wake_first (WaitQ (mq_id mq)) k, mq) else Inr (- RT_EFULL, k, mq)))"

definition rt_mq_urgent :: "messagequeue \<Rightarrow> char list \<Rightarrow> nat \<Rightarrow> kernel \<Rightarrow> (int \<times> kernel \<times> messagequeue) cres" where
  "rt_mq_urgent mq buffer sz k =
     cbind (mq_urgent_begin mq sz) (\<lambda>(r, mq). case r of
       Inl e \<Rightarrow> Inr (e, k, mq) | Inr p \<Rightarrow> mq_urgent_finish p buffer sz mq k)"

definition mq_recv_loop :: "messagequeue \<Rightarrow> int \<Rightarrow> kernel \<Rightarrow> (int + ptr, kernel \<times> messagequeue) call cres" where
  "mq_recv_loop mq timeout k =
     (if mq_entry mq = 0
      then let t = rt_current_thread k; k = set_error t RT_EOK k
           in if timeout = 0 then Inr (Return (Inl (- RT_ETIMEOUT)) (set_error t (- RT_ETIMEOUT) k, mq))
              else cbind (ipc_wait (WaitQ (mq_id mq)) (mq_flag mq) timeout k) (\<lambda>k. Inr (Block (k, mq)))
      else cbind (mq_unlink mq) (\<lambda>(p, mq). Inr (Return (Inr p) (k, mq))))"

definition mq_recv_begin :: "messagequeue \<Rightarrow> nat \<Rightarrow> int \<Rightarrow> kernel \<Rightarrow> (int + ptr, kernel \<times> messagequeue) call cres" where
  "mq_recv_begin mq sz timeout k =
     cbind (rt_assert (sz \<noteq> 0)) (\<lambda>_. cbind (rt_assert (timeout \<noteq> 0 \<longrightarrow> lock_nest k = 0)) (\<lambda>_.
       if mq_entry mq = 0 \<and> timeout = 0 then Inr (Return (Inl (- RT_ETIMEOUT)) (k, mq)) else mq_recv_loop mq timeout k))"

definition mq_recv_resumed :: "messagequeue \<Rightarrow> int \<Rightarrow> u32 \<Rightarrow> kernel \<Rightarrow> (int + ptr, kernel \<times> messagequeue) call cres" where
  "mq_recv_resumed mq timeout delta k =
     (let e = terror (threads k (rt_current_thread k))
      in if e \<noteq> RT_EOK then Inr (Return (Inl e) (k, mq)) else mq_recv_loop mq (remaining timeout delta) k)"

text \<open>The receiver's buffer after the copy is part of the result.\<close>

definition mq_recv_finish :: "ptr \<Rightarrow> char list \<Rightarrow> nat \<Rightarrow> messagequeue \<Rightarrow> kernel \<Rightarrow> (char list \<times> kernel \<times> messagequeue) cres" where
  "mq_recv_finish msg buffer sz mq k =
     cbind (mq_load mq msg) (\<lambda>b.
     cbind (memcpy_arrays buffer 0 (bdata b) 0 (if sz > msg_size mq then msg_size mq else sz)) (\<lambda>buffer.
     cbind (mq_release msg mq) (\<lambda>mq.
       Inr (buffer, wake_first (SenderQ (mq_id mq)) k, mq))))"

definition rt_mq_recv :: "messagequeue \<Rightarrow> char list \<Rightarrow> nat \<Rightarrow> int \<Rightarrow> kernel \<Rightarrow> (int \<times> char list, kernel \<times> messagequeue) call cres" where
  "rt_mq_recv mq buffer sz timeout k =
     cbind (mq_recv_begin mq sz timeout k) (\<lambda>r. case r of
       Block s \<Rightarrow> Inr (Block s)
     | Return (Inl e) s \<Rightarrow> Inr (Return (e, buffer) s)
     | Return (Inr p) (k, mq) \<Rightarrow> cbind (mq_recv_finish p buffer sz mq k) (\<lambda>(buffer, s). Inr (Return (RT_EOK, buffer) s)))"

text \<open>\<open>rt_mq_control\<close> with \<open>RT_IPC_CMD_RESET\<close>: every queued block goes back to the free list.\<close>

fun mq_reset_loop :: "nat \<Rightarrow> messagequeue \<Rightarrow> messagequeue cres" where
  "mq_reset_loop 0 mq = Inl OutOfFuel"
| "mq_reset_loop (Suc fuel) mq =
     (if msg_queue_head mq = RT_NULL then Inr mq
      else let msg = msg_queue_head mq
      in cbind (mq_load mq msg) (\<lambda>b.
         let mq = mq\<lparr>msg_queue_head := bnext b\<rparr>;
             mq = (if msg_queue_tail mq = msg then mq\<lparr>msg_queue_tail := RT_NULL\<rparr> else mq)
         in cbind (mq_set_next msg (msg_queue_free mq) mq) (\<lambda>mq. mq_reset_loop fuel (mq\<lparr>msg_queue_free := msg\<rparr>))))"

definition rt_mq_control :: "bool \<Rightarrow> messagequeue \<Rightarrow> kernel \<Rightarrow> (int \<times> kernel \<times> messagequeue) cres" where
  "rt_mq_control reset mq k =
     (if reset
      then cbind (mb_resume_all (mq_id mq) k) (\<lambda>k. cbind (mq_reset_loop (max_msgs mq + 1) mq) (\<lambda>mq.
           Inr (RT_EOK, rt_schedule k, mq\<lparr>mq_entry := 0\<rparr>)))
      else Inr (- RT_ERROR, k, mq))"

definition rt_mq_detach :: "messagequeue \<Rightarrow> kernel \<Rightarrow> kernel cres" where
  "rt_mq_detach mq k = mb_resume_all (mq_id mq) k"

section \<open>The two lists of blocks\<close>

text \<open>A list of blocks from a pointer to \<open>RT_NULL\<close>.\<close>

fun spath :: "(ptr \<rightharpoonup> mq_block) \<Rightarrow> ptr \<Rightarrow> ptr list \<Rightarrow> bool" where
  "spath h p [] \<longleftrightarrow> p = RT_NULL"
| "spath h p (x # xs) \<longleftrightarrow> p = x \<and> x \<noteq> RT_NULL \<and> (case h x of None \<Rightarrow> False | Some b \<Rightarrow> spath h (bnext b) xs)"

lemma spath_Cons: "spath h p (x # xs) \<longleftrightarrow> (\<exists>b. h x = Some b \<and> x = p \<and> x \<noteq> RT_NULL \<and> spath h (bnext b) xs)"
  by (cases "h x") auto

lemma spath_upd [simp]: "a \<notin> set xs \<Longrightarrow> spath (h(a := v)) p xs = spath h p xs"
  by (induction xs arbitrary: p) (auto split: option.splits)

lemma spath_data: "h a = Some b \<Longrightarrow> spath (h(a \<mapsto> b\<lparr>bdata := d\<rparr>)) p xs = spath h p xs"
  by (induction xs arbitrary: p) (auto split: option.splits)

lemma spath_dom: "spath h p xs \<Longrightarrow> set xs \<subseteq> dom h"
  by (induction xs arbitrary: p) (auto split: option.splits)

lemma spath_not_null: "spath h p xs \<Longrightarrow> RT_NULL \<notin> set xs"
  by (induction xs arbitrary: p) (auto split: option.splits)

lemma spath_snoc:
  assumes "spath h p xs" "a \<notin> set xs" "a \<noteq> RT_NULL" "distinct xs" "h a = Some b" "bnext b = RT_NULL"
  shows "xs = [] \<Longrightarrow> spath h a [a]"
    "xs \<noteq> [] \<Longrightarrow> h (last xs) = Some c \<Longrightarrow> spath (h(last xs \<mapsto> c\<lparr>bnext := a\<rparr>)) p (xs @ [a])"
proof -
  show "spath h a [a]" if "xs = []" using assms by simp
  show "spath (h(last xs \<mapsto> c\<lparr>bnext := a\<rparr>)) p (xs @ [a])" if "xs \<noteq> []" "h (last xs) = Some c"
    using assms that
  proof (induction xs arbitrary: p)
    case (Cons x xs)
    show ?case
    proof (cases "xs = []")
      case True
      then show ?thesis using Cons.prems by auto
    next
      case False
      obtain d where d: "h x = Some d" "spath h (bnext d) xs" "p = x" "x \<noteq> RT_NULL" using Cons.prems(1) by (auto split: option.splits)
      have "x \<noteq> last xs" using Cons.prems(4) False by auto
      moreover have "spath (h(last xs \<mapsto> c\<lparr>bnext := a\<rparr>)) (bnext d) (xs @ [a])"
        by (rule Cons.IH [OF d(2)]) (use Cons.prems False in \<open>auto simp del: fun_upd_apply\<close>)
      ultimately show ?thesis using d False by (simp add: fun_upd_other del: fun_upd_apply)
    qed
  qed simp
qed

text \<open>The blocks \<open>qs\<close> are queued, \<open>fs\<close> are free, and \<open>F\<close> are in the hands of a call between its two parts.\<close>

definition mq_rep :: "messagequeue \<Rightarrow> ptr list \<Rightarrow> ptr list \<Rightarrow> ptr set \<Rightarrow> bool" where
  "mq_rep mq qs fs F \<longleftrightarrow> spath (mq_blocks mq) (msg_queue_head mq) qs \<and> spath (mq_blocks mq) (msg_queue_free mq) fs
     \<and> distinct (qs @ fs) \<and> (set qs \<union> set fs) \<inter> F = {} \<and> dom (mq_blocks mq) = set qs \<union> set fs \<union> F \<and> finite F \<and> RT_NULL \<notin> F
     \<and> msg_queue_tail mq = (if qs = [] then RT_NULL else last qs) \<and> mq_entry mq = length qs
     \<and> length qs + length fs + card F = max_msgs mq \<and> max_msgs mq \<le> RT_MQ_ENTRY_MAX
     \<and> (\<forall>b \<in> ran (mq_blocks mq). length (bdata b) = msg_size mq)"

definition block_data :: "messagequeue \<Rightarrow> ptr \<Rightarrow> char list" where
  "block_data mq p = (case mq_blocks mq p of None \<Rightarrow> [] | Some b \<Rightarrow> bdata b)"

lemma mq_repD:
  assumes "mq_rep mq qs fs F"
  shows "spath (mq_blocks mq) (msg_queue_head mq) qs" "spath (mq_blocks mq) (msg_queue_free mq) fs"
    "distinct (qs @ fs)" "(set qs \<union> set fs) \<inter> F = {}" "dom (mq_blocks mq) = set qs \<union> set fs \<union> F" "finite F" "RT_NULL \<notin> F"
    "msg_queue_tail mq = (if qs = [] then RT_NULL else last qs)" "mq_entry mq = length qs"
    "length qs + length fs + card F = max_msgs mq" "max_msgs mq \<le> RT_MQ_ENTRY_MAX"
    "\<forall>b \<in> ran (mq_blocks mq). length (bdata b) = msg_size mq"
  using assms by (simp_all add: mq_rep_def)

lemma mq_rep_block:
  assumes "mq_rep mq qs fs F" "p \<in> F"
  obtains b where "mq_blocks mq p = Some b" "mq_load mq p = Inr b" "length (bdata b) = msg_size mq" "p \<noteq> RT_NULL" "p \<notin> set qs" "p \<notin> set fs"
proof -
  note r = mq_repD [OF assms(1)]
  obtain b where b: "mq_blocks mq p = Some b" using r(5) assms(2) by blast
  moreover have "p \<noteq> RT_NULL" "p \<notin> set qs" "p \<notin> set fs" using r(4,7) assms(2) by auto
  moreover have "length (bdata b) = msg_size mq" using r(12) b by (auto simp: ran_def)
  ultimately show thesis using that by (simp add: mq_load_def)
qed

lemma ran_upd: "b \<in> ran (h(a \<mapsto> c)) \<Longrightarrow> b = c \<or> b \<in> ran h"
  by (auto simp: ran_def split: if_splits)

lemma mq_rep_upd:
  assumes rep: "mq_rep mq qs fs F" and p: "p \<in> F" and c: "length (bdata c) = msg_size mq"
  shows "mq_rep (mq\<lparr>mq_blocks := (mq_blocks mq)(p \<mapsto> c)\<rparr>) qs fs F"
proof -
  note r = mq_repD [OF rep]
  have "p \<notin> set qs" "p \<notin> set fs" using r(4) p by auto
  then have sp: "spath ((mq_blocks mq)(p \<mapsto> c)) (msg_queue_head mq) qs" "spath ((mq_blocks mq)(p \<mapsto> c)) (msg_queue_free mq) fs"
    using r(1,2) by simp_all
  have "dom ((mq_blocks mq)(p \<mapsto> c)) = set qs \<union> set fs \<union> F" using r(5) p by auto
  moreover have "\<forall>b \<in> ran ((mq_blocks mq)(p \<mapsto> c)). length (bdata b) = msg_size mq" using r(12) c ran_upd by fast
  ultimately show ?thesis using r sp by (simp add: mq_rep_def)
qed

lemma mq_take_law:
  assumes rep: "mq_rep mq qs (p # fs) F"
  shows "mq_take mq = Inr (p, mq\<lparr>msg_queue_free := bnext (the (mq_blocks mq p))\<rparr>)"
    "mq_rep (mq\<lparr>msg_queue_free := bnext (the (mq_blocks mq p))\<rparr>) qs fs (insert p F)" "msg_queue_free mq \<noteq> RT_NULL"
proof -
  note r = mq_repD [OF rep]
  obtain b where b: "mq_blocks mq p = Some b" "p = msg_queue_free mq" "p \<noteq> RT_NULL" "spath (mq_blocks mq) (bnext b) fs"
    using r(2) [unfolded spath_Cons] by blast
  show "mq_take mq = Inr (p, mq\<lparr>msg_queue_free := bnext (the (mq_blocks mq p))\<rparr>)" "msg_queue_free mq \<noteq> RT_NULL"
    using b by (simp_all add: mq_take_def mq_load_def)
  show "mq_rep (mq\<lparr>msg_queue_free := bnext (the (mq_blocks mq p))\<rparr>) qs fs (insert p F)"
  proof -
    have "p \<notin> F" using r(4) by auto
    then have "card (insert p F) = Suc (card F)" using r(6) by simp
    moreover have "(set qs \<union> set fs) \<inter> insert p F = {}" using r(3,4) by auto
    ultimately show ?thesis using r(1,3,5-12) b(1,3,4) by (simp add: mq_rep_def)
  qed
qed

lemma mq_set_next_law:
  assumes rep: "mq_rep mq qs fs F" and p: "p \<in> F"
  shows "mq_set_next p q mq = Inr (mq\<lparr>mq_blocks := (mq_blocks mq)(p \<mapsto> (the (mq_blocks mq p))\<lparr>bnext := q\<rparr>)\<rparr>)"
    "mq_rep (mq\<lparr>mq_blocks := (mq_blocks mq)(p \<mapsto> (the (mq_blocks mq p))\<lparr>bnext := q\<rparr>)\<rparr>) qs fs F"
proof -
  obtain b where b: "mq_blocks mq p = Some b" "mq_load mq p = Inr b" "length (bdata b) = msg_size mq" "p \<noteq> RT_NULL" "p \<notin> set qs" "p \<notin> set fs"
    using mq_rep_block [OF rep p] .
  show "mq_set_next p q mq = Inr (mq\<lparr>mq_blocks := (mq_blocks mq)(p \<mapsto> (the (mq_blocks mq p))\<lparr>bnext := q\<rparr>)\<rparr>)"
    using b by (simp add: mq_set_next_def)
  show "mq_rep (mq\<lparr>mq_blocks := (mq_blocks mq)(p \<mapsto> (the (mq_blocks mq p))\<lparr>bnext := q\<rparr>)\<rparr>) qs fs F"
    by (rule mq_rep_upd [OF rep p]) (simp add: b)
qed

lemma mq_fill_law:
  assumes rep: "mq_rep mq qs fs F" and p: "p \<in> F" and sz: "sz \<le> msg_size mq" "sz \<le> length buffer"
  defines "d \<equiv> take sz buffer @ drop sz (block_data mq p)"
  shows "mq_fill p buffer sz mq = Inr (mq\<lparr>mq_blocks := (mq_blocks mq)(p \<mapsto> (the (mq_blocks mq p))\<lparr>bdata := d\<rparr>)\<rparr>)"
    "mq_rep (mq\<lparr>mq_blocks := (mq_blocks mq)(p \<mapsto> (the (mq_blocks mq p))\<lparr>bdata := d\<rparr>)\<rparr>) qs fs F" "length d = msg_size mq"
proof -
  obtain b where b: "mq_blocks mq p = Some b" "mq_load mq p = Inr b" "length (bdata b) = msg_size mq" "p \<noteq> RT_NULL" "p \<notin> set qs" "p \<notin> set fs"
    using mq_rep_block [OF rep p] .
  show len: "length d = msg_size mq" using b(1,3) sz by (simp add: d_def block_data_def)
  show "mq_fill p buffer sz mq = Inr (mq\<lparr>mq_blocks := (mq_blocks mq)(p \<mapsto> (the (mq_blocks mq p))\<lparr>bdata := d\<rparr>)\<rparr>)"
    using b sz by (simp add: mq_fill_def memcpy_arrays_def overlay_def d_def block_data_def min_absorb2)
  show "mq_rep (mq\<lparr>mq_blocks := (mq_blocks mq)(p \<mapsto> (the (mq_blocks mq p))\<lparr>bdata := d\<rparr>)\<rparr>) qs fs F"
    by (rule mq_rep_upd [OF rep p]) (simp add: len)
qed

lemma mq_entry_room:
  assumes rep: "mq_rep mq qs fs F" and p: "p \<in> F"
  shows "mq_entry mq < RT_MQ_ENTRY_MAX"
proof -
  have "card F > 0" using mq_repD(6) [OF rep] p by (auto simp: card_gt_0_iff)
  then show ?thesis using mq_repD(9-11) [OF rep] by simp
qed

lemma mq_link_head_law:
  assumes rep: "mq_rep mq qs fs F" and p: "p \<in> F"
  shows "\<exists>mq'. mq_link_head p mq = Inr (True, mq') \<and> mq_rep mq' (p # qs) fs (F - {p}) \<and> block_data mq' = block_data mq
    \<and> mq_id mq' = mq_id mq \<and> msg_size mq' = msg_size mq \<and> max_msgs mq' = max_msgs mq \<and> mq_flag mq' = mq_flag mq \<and> mq_entry mq' = mq_entry mq + 1"
proof -
  let ?h = "(mq_blocks mq)(p \<mapsto> (the (mq_blocks mq p))\<lparr>bnext := msg_queue_head mq\<rparr>)"
  obtain b where b: "mq_blocks mq p = Some b" "p \<noteq> RT_NULL" "p \<notin> set qs" "p \<notin> set fs" using mq_rep_block [OF rep p] .
  note s = mq_set_next_law [OF rep p, of "msg_queue_head mq"]
  note r = mq_repD [OF s(2)]
  define mq' where "mq' = mq\<lparr>mq_blocks := ?h, msg_queue_head := p, msg_queue_tail := (if msg_queue_tail mq = RT_NULL then p else msg_queue_tail mq),
    mq_entry := mq_entry mq + 1\<rparr>"
  have run: "mq_link_head p mq = Inr (True, mq')"
    using s(1) mq_entry_room [OF rep p] by (simp add: mq_link_head_def mq_count_def mq'_def)
  have tl: "msg_queue_tail mq = (if qs = [] then RT_NULL else last qs)" "RT_NULL \<notin> set qs"
    using mq_repD(8) [OF rep] spath_not_null [OF mq_repD(1) [OF rep]] by auto
  have ln: "qs \<noteq> [] \<Longrightarrow> last qs \<noteq> RT_NULL" using tl(2) last_in_set [of qs] by metis
  have c: "length qs + length fs + card F = max_msgs mq" "card (F - {p}) = card F - 1" "card F > 0"
    using mq_repD(6,10) [OF rep] p by (auto simp: card_gt_0_iff)
  have "mq_rep mq' (p # qs) fs (F - {p})"
    using r b tl c p ln by (auto simp: mq_rep_def mq'_def)
  moreover have "block_data mq' = block_data mq" using b(1) by (auto simp: block_data_def mq'_def)
  ultimately show ?thesis using run by (intro exI [of _ mq']) (simp add: mq'_def)
qed

lemma mq_link_tail_law:
  assumes rep: "mq_rep mq qs fs F" and p: "p \<in> F" and nx: "mq_blocks mq p = Some b" "bnext b = RT_NULL"
  shows "\<exists>mq'. mq_link_tail p mq = Inr (True, mq') \<and> mq_rep mq' (qs @ [p]) fs (F - {p}) \<and> block_data mq' = block_data mq
    \<and> mq_id mq' = mq_id mq \<and> msg_size mq' = msg_size mq \<and> max_msgs mq' = max_msgs mq \<and> mq_flag mq' = mq_flag mq \<and> mq_entry mq' = mq_entry mq + 1"
proof -
  note r = mq_repD [OF rep]
  have b: "p \<noteq> RT_NULL" "p \<notin> set qs" "p \<notin> set fs" using r(4,7) p by auto
  have c: "length qs + length fs + card F = max_msgs mq" "card (F - {p}) = card F - 1" "card F > 0"
    using r(6,10) p by (auto simp: card_gt_0_iff)
  show ?thesis
  proof (cases "qs = []")
    case True
    let ?mq = "mq\<lparr>msg_queue_tail := p, msg_queue_head := p, mq_entry := mq_entry mq + 1\<rparr>"
    have hd: "msg_queue_head mq = RT_NULL" "msg_queue_tail mq = RT_NULL" using r(1,8) True by auto
    have "mq_link_tail p mq = Inr (True, ?mq)" using hd mq_entry_room [OF rep p] by (simp add: mq_link_tail_def mq_count_def)
    moreover have "mq_rep ?mq (qs @ [p]) fs (F - {p})" using r b c p nx True by (auto simp: mq_rep_def)
    ultimately show ?thesis by (intro exI [of _ ?mq]) (auto simp: block_data_def)
  next
    case False
    let ?l = "last qs"
    obtain e where e: "mq_blocks mq ?l = Some e" using r(5) last_in_set [OF False] by auto
    have l: "?l \<noteq> RT_NULL" "msg_queue_tail mq = ?l" "?l \<in> set qs" "?l \<notin> set fs" "?l \<notin> F"
      using spath_not_null [OF r(1)] r(3,4,8) False last_in_set [OF False] by (auto simp del: last_in_set)
    let ?h = "(mq_blocks mq)(?l \<mapsto> e\<lparr>bnext := p\<rparr>)"
    let ?mq = "mq\<lparr>mq_blocks := ?h, msg_queue_tail := p, mq_entry := mq_entry mq + 1\<rparr>"
    have hn: "msg_queue_head mq \<noteq> RT_NULL" using r(1) False by (cases qs) auto
    have "mq_link_tail p mq = Inr (True, ?mq)"
      using l e hn mq_entry_room [OF rep p] by (simp add: mq_link_tail_def mq_count_def mq_set_next_def mq_load_def)
    moreover have "spath ?h (msg_queue_head mq) (qs @ [p])"
      by (rule spath_snoc(2) [OF r(1) b(2,1) _ nx False e]) (use r(3) in simp)
    moreover have "spath ?h (msg_queue_free mq) fs" using r(2) l(4) by simp
    moreover have "\<forall>x \<in> ran ?h. length (bdata x) = msg_size mq"
      using r(12) e by (auto simp: ran_def split: if_splits)
    ultimately have "mq_rep ?mq (qs @ [p]) fs (F - {p})" using r(3-11) b c p l by (auto simp: mq_rep_def)
    then show ?thesis using \<open>mq_link_tail p mq = Inr (True, ?mq)\<close> e by (intro exI [of _ ?mq]) (auto simp: block_data_def)
  qed
qed

lemma mq_unlink_law:
  assumes rep: "mq_rep mq (p # qs) fs F"
  shows "\<exists>mq'. mq_unlink mq = Inr (p, mq') \<and> mq_rep mq' qs fs (insert p F) \<and> mq_blocks mq' = mq_blocks mq
    \<and> mq_id mq' = mq_id mq \<and> msg_size mq' = msg_size mq \<and> max_msgs mq' = max_msgs mq \<and> mq_flag mq' = mq_flag mq \<and> mq_entry mq' + 1 = mq_entry mq"
proof -
  note r = mq_repD [OF rep]
  obtain b where b: "mq_blocks mq p = Some b" "p = msg_queue_head mq" "p \<noteq> RT_NULL" "spath (mq_blocks mq) (bnext b) qs"
    using r(1) [unfolded spath_Cons] by blast
  let ?mq = "mq\<lparr>msg_queue_head := bnext b, msg_queue_tail := (if qs = [] then RT_NULL else last qs), mq_entry := length qs\<rparr>"
  have t: "msg_queue_tail mq = p \<longleftrightarrow> qs = []" "qs \<noteq> [] \<Longrightarrow> msg_queue_tail mq = last qs"
    using r(3,8) last_in_set [of qs] by auto
  have "mq_unlink mq = Inr (p, ?mq)"
    using b t r(9) by (cases "qs = []") (simp_all add: mq_unlink_def mq_load_def)
  moreover have "mq_rep ?mq qs fs (insert p F)"
  proof -
    have "p \<notin> F" using r(4) by auto
    then have "card (insert p F) = Suc (card F)" using r(6) by simp
    moreover have "(set qs \<union> set fs) \<inter> insert p F = {}" using r(3,4) by auto
    ultimately show ?thesis using r(2,3,5-7,10-12) b(1,3,4) by (simp add: mq_rep_def)
  qed
  ultimately show ?thesis using r(9) by (intro exI [of _ ?mq]) simp
qed

lemma mq_release_law:
  assumes rep: "mq_rep mq qs fs F" and p: "p \<in> F"
  shows "\<exists>mq'. mq_release p mq = Inr mq' \<and> mq_rep mq' qs (p # fs) (F - {p}) \<and> block_data mq' = block_data mq
    \<and> mq_id mq' = mq_id mq \<and> msg_size mq' = msg_size mq \<and> max_msgs mq' = max_msgs mq \<and> mq_flag mq' = mq_flag mq \<and> mq_entry mq' = mq_entry mq"
proof -
  let ?h = "(mq_blocks mq)(p \<mapsto> (the (mq_blocks mq p))\<lparr>bnext := msg_queue_free mq\<rparr>)"
  obtain b where b: "mq_blocks mq p = Some b" "p \<noteq> RT_NULL" "p \<notin> set qs" "p \<notin> set fs" using mq_rep_block [OF rep p] .
  note s = mq_set_next_law [OF rep p, of "msg_queue_free mq"]
  note r = mq_repD [OF s(2)]
  define mq' where "mq' = mq\<lparr>mq_blocks := ?h, msg_queue_free := p\<rparr>"
  have run: "mq_release p mq = Inr mq'" using s(1) by (simp add: mq_release_def mq'_def)
  have c: "length qs + length fs + card F = max_msgs mq" "card (F - {p}) = card F - 1" "card F > 0"
    using mq_repD(6,10) [OF rep] p by (auto simp: card_gt_0_iff)
  have "mq_rep mq' qs (p # fs) (F - {p})" using r b c p by (auto simp: mq_rep_def mq'_def)
  moreover have "block_data mq' = block_data mq" using b(1) by (auto simp: block_data_def mq'_def)
  ultimately show ?thesis using run by (intro exI [of _ mq']) (simp add: mq'_def)
qed

section \<open>The parts of a call together\<close>

lemma mq_send_finish_law:
  assumes rep: "mq_rep mq qs fs F" and p: "p \<in> F" and sz: "sz \<le> msg_size mq" "sz \<le> length buffer"
  obtains mq' where "mq_send_finish p buffer sz mq k = Inr (RT_EOK, wake_first (WaitQ (mq_id mq)) k, mq')"
    "mq_rep mq' (qs @ [p]) fs (F - {p})" "mq_id mq' = mq_id mq" "msg_size mq' = msg_size mq" "max_msgs mq' = max_msgs mq"
    "mq_flag mq' = mq_flag mq" "mq_entry mq' = mq_entry mq + 1"
    "block_data mq' = (block_data mq)(p := take sz buffer @ drop sz (block_data mq p))"
proof -
  note s = mq_set_next_law [OF rep p, of RT_NULL]
  obtain b where b: "mq_blocks mq p = Some b" using mq_rep_block [OF rep p] by blast
  let ?m1 = "mq\<lparr>mq_blocks := (mq_blocks mq)(p \<mapsto> (the (mq_blocks mq p))\<lparr>bnext := RT_NULL\<rparr>)\<rparr>"
  let ?d = "take sz buffer @ drop sz (block_data ?m1 p)"
  have d: "block_data ?m1 p = block_data mq p" using b by (simp add: block_data_def)
  have f: "mq_fill p buffer sz ?m1 = Inr (?m1\<lparr>mq_blocks := (mq_blocks ?m1)(p \<mapsto> (the (mq_blocks ?m1 p))\<lparr>bdata := ?d\<rparr>)\<rparr>)"
    "mq_rep (?m1\<lparr>mq_blocks := (mq_blocks ?m1)(p \<mapsto> (the (mq_blocks ?m1 p))\<lparr>bdata := ?d\<rparr>)\<rparr>) qs fs F"
    using mq_fill_law(1,2) [OF s(2) p, of sz buffer] sz by simp_all
  define m2 where "m2 = ?m1\<lparr>mq_blocks := (mq_blocks ?m1)(p \<mapsto> (the (mq_blocks ?m1 p))\<lparr>bdata := ?d\<rparr>)\<rparr>"
  have n: "mq_blocks m2 p = Some (b\<lparr>bnext := RT_NULL, bdata := ?d\<rparr>)" using b by (simp add: m2_def)
  have bd2: "block_data m2 = (block_data mq)(p := take sz buffer @ drop sz (block_data mq p))"
    using b by (auto simp: m2_def block_data_def)
  obtain mq' where l: "mq_link_tail p m2 = Inr (True, mq')" "mq_rep mq' (qs @ [p]) fs (F - {p})" "block_data mq' = block_data m2"
    "mq_id mq' = mq_id m2" "msg_size mq' = msg_size m2" "max_msgs mq' = max_msgs m2" "mq_flag mq' = mq_flag m2" "mq_entry mq' = mq_entry m2 + 1"
    using mq_link_tail_law [OF f(2) [folded m2_def] p n] by auto
  have "mq_send_finish p buffer sz mq k = Inr (RT_EOK, wake_first (WaitQ (mq_id mq)) k, mq')"
    unfolding mq_send_finish_def s(1) cbind_Inr f(1) m2_def [symmetric] l(1) using l(4) by (simp add: m2_def)
  then show ?thesis using that [of mq'] l(2-8) bd2 by (simp add: m2_def)
qed

lemma mq_urgent_finish_law:
  assumes rep: "mq_rep mq qs fs F" and p: "p \<in> F" and sz: "sz \<le> msg_size mq" "sz \<le> length buffer"
  obtains mq' where "mq_urgent_finish p buffer sz mq k = Inr (RT_EOK, wake_first (WaitQ (mq_id mq)) k, mq')"
    "mq_rep mq' (p # qs) fs (F - {p})" "mq_id mq' = mq_id mq" "msg_size mq' = msg_size mq" "max_msgs mq' = max_msgs mq"
    "mq_flag mq' = mq_flag mq" "mq_entry mq' = mq_entry mq + 1"
    "block_data mq' = (block_data mq)(p := take sz buffer @ drop sz (block_data mq p))"
proof -
  let ?d = "take sz buffer @ drop sz (block_data mq p)"
  note f = mq_fill_law [OF rep p sz]
  define m2 where "m2 = mq\<lparr>mq_blocks := (mq_blocks mq)(p \<mapsto> (the (mq_blocks mq p))\<lparr>bdata := ?d\<rparr>)\<rparr>"
  have bd2: "block_data m2 = (block_data mq)(p := ?d)" by (auto simp: m2_def block_data_def)
  obtain mq' where l: "mq_link_head p m2 = Inr (True, mq')" "mq_rep mq' (p # qs) fs (F - {p})" "block_data mq' = block_data m2"
    "mq_id mq' = mq_id m2" "msg_size mq' = msg_size m2" "max_msgs mq' = max_msgs m2" "mq_flag mq' = mq_flag m2" "mq_entry mq' = mq_entry m2 + 1"
    using mq_link_head_law [OF f(2) [folded m2_def] p] by auto
  have "mq_urgent_finish p buffer sz mq k = Inr (RT_EOK, wake_first (WaitQ (mq_id mq)) k, mq')"
    unfolding mq_urgent_finish_def f(1) cbind_Inr m2_def [symmetric] l(1) using l(4) by (simp add: m2_def)
  then show ?thesis using that [of mq'] l(2-8) bd2 by (simp add: m2_def)
qed

text \<open>What a receiver's buffer holds after the copy of a block \<open>d\<close>.\<close>

definition received :: "nat \<Rightarrow> char list \<Rightarrow> nat \<Rightarrow> char list \<Rightarrow> char list" where
  "received msize buffer sz d = take (min sz msize) d @ drop (min sz msize) buffer"

lemma mq_recv_finish_law:
  assumes rep: "mq_rep mq qs fs F" and p: "p \<in> F" and sz: "min sz (msg_size mq) \<le> length buffer"
  obtains mq' where "mq_recv_finish p buffer sz mq k
      = Inr (received (msg_size mq) buffer sz (block_data mq p), wake_first (SenderQ (mq_id mq)) k, mq')"
    "mq_rep mq' qs (p # fs) (F - {p})" "mq_id mq' = mq_id mq" "msg_size mq' = msg_size mq" "max_msgs mq' = max_msgs mq"
    "mq_flag mq' = mq_flag mq" "mq_entry mq' = mq_entry mq" "block_data mq' = block_data mq"
proof -
  obtain b where b: "mq_blocks mq p = Some b" "mq_load mq p = Inr b" "length (bdata b) = msg_size mq" using mq_rep_block [OF rep p] by blast
  have n: "(if sz > msg_size mq then msg_size mq else sz) = min sz (msg_size mq)" by simp
  have m: "memcpy_arrays buffer 0 (bdata b) 0 (min sz (msg_size mq)) = Inr (received (msg_size mq) buffer sz (bdata b))"
    using b(3) sz by (simp add: memcpy_arrays_def overlay_def received_def min_absorb2)
  obtain mq' where l: "mq_release p mq = Inr mq'" "mq_rep mq' qs (p # fs) (F - {p})" "block_data mq' = block_data mq" "mq_id mq' = mq_id mq"
    "msg_size mq' = msg_size mq" "max_msgs mq' = max_msgs mq" "mq_flag mq' = mq_flag mq" "mq_entry mq' = mq_entry mq"
    using mq_release_law [OF rep p] by blast
  have "block_data mq p = bdata b" using b(1) by (simp add: block_data_def)
  then have "mq_recv_finish p buffer sz mq k = Inr (received (msg_size mq) buffer sz (block_data mq p), wake_first (SenderQ (mq_id mq)) k, mq')"
    unfolding mq_recv_finish_def b(2) cbind_Inr n m l(1) using l(4) by simp
  then show ?thesis using that [of mq'] l(2-8) by simp
qed

text \<open>Whole calls that nothing interrupts.\<close>

lemma rt_mq_send_law:
  assumes rep: "mq_rep mq qs (p # fs) F" and sz: "sz \<noteq> 0" "sz \<le> msg_size mq" "sz \<le> length buffer"
  obtains mq' where "rt_mq_send mq buffer sz k = Inr (Return RT_EOK (wake_first (WaitQ (mq_id mq)) k, mq'))"
    "mq_rep mq' (qs @ [p]) fs F" "mq_id mq' = mq_id mq" "msg_size mq' = msg_size mq" "max_msgs mq' = max_msgs mq" "mq_entry mq' = mq_entry mq + 1"
    "block_data mq' = (block_data mq)(p := take sz buffer @ drop sz (block_data mq p))"
proof -
  note t = mq_take_law [OF rep]
  let ?m = "mq\<lparr>msg_queue_free := bnext (the (mq_blocks mq p))\<rparr>"
  have pF: "p \<notin> F" "insert p F - {p} = F" using mq_repD(4) [OF rep] by auto
  have b: "block_data ?m = block_data mq" by (auto simp: block_data_def)
  have sz': "sz \<le> msg_size ?m" using sz by simp
  obtain mq' where f: "mq_send_finish p buffer sz ?m k = Inr (RT_EOK, wake_first (WaitQ (mq_id ?m)) k, mq')"
    "mq_rep mq' (qs @ [p]) fs (insert p F - {p})" "mq_id mq' = mq_id ?m" "msg_size mq' = msg_size ?m" "max_msgs mq' = max_msgs ?m"
    "mq_flag mq' = mq_flag ?m" "mq_entry mq' = mq_entry ?m + 1"
    "block_data mq' = (block_data ?m)(p := take sz buffer @ drop sz (block_data ?m p))"
    by (rule mq_send_finish_law [OF t(2) insertI1 sz' sz(3)])
  have "rt_mq_send mq buffer sz k = Inr (Return RT_EOK (wake_first (WaitQ (mq_id mq)) k, mq'))"
    using t(1,3) sz(1,2) f(1) by (simp add: rt_mq_send_def rt_mq_send_wait_def mq_send_begin_def mq_send_loop_def)
  then show ?thesis using that f(2-8) pF(2) b by simp
qed

lemma rt_mq_urgent_law:
  assumes rep: "mq_rep mq qs (p # fs) F" and sz: "sz \<noteq> 0" "sz \<le> msg_size mq" "sz \<le> length buffer"
  obtains mq' where "rt_mq_urgent mq buffer sz k = Inr (RT_EOK, wake_first (WaitQ (mq_id mq)) k, mq')"
    "mq_rep mq' (p # qs) fs F" "mq_id mq' = mq_id mq" "msg_size mq' = msg_size mq" "max_msgs mq' = max_msgs mq" "mq_entry mq' = mq_entry mq + 1"
    "block_data mq' = (block_data mq)(p := take sz buffer @ drop sz (block_data mq p))"
proof -
  note t = mq_take_law [OF rep]
  let ?m = "mq\<lparr>msg_queue_free := bnext (the (mq_blocks mq p))\<rparr>"
  have pF: "p \<notin> F" "insert p F - {p} = F" using mq_repD(4) [OF rep] by auto
  have b: "block_data ?m = block_data mq" by (auto simp: block_data_def)
  have sz': "sz \<le> msg_size ?m" using sz by simp
  obtain mq' where f: "mq_urgent_finish p buffer sz ?m k = Inr (RT_EOK, wake_first (WaitQ (mq_id ?m)) k, mq')"
    "mq_rep mq' (p # qs) fs (insert p F - {p})" "mq_id mq' = mq_id ?m" "msg_size mq' = msg_size ?m" "max_msgs mq' = max_msgs ?m"
    "mq_flag mq' = mq_flag ?m" "mq_entry mq' = mq_entry ?m + 1"
    "block_data mq' = (block_data ?m)(p := take sz buffer @ drop sz (block_data ?m p))"
    by (rule mq_urgent_finish_law [OF t(2) insertI1 sz' sz(3)])
  have "rt_mq_urgent mq buffer sz k = Inr (RT_EOK, wake_first (WaitQ (mq_id mq)) k, mq')"
    using t(1,3) sz(1,2) f(1) by (simp add: rt_mq_urgent_def mq_urgent_begin_def)
  then show ?thesis using that f(2-8) pF(2) b by simp
qed

lemma rt_mq_recv_law:
  assumes rep: "mq_rep mq (p # qs) fs F" and sz: "sz \<noteq> 0" "min sz (msg_size mq) \<le> length buffer" and lk: "timeout \<noteq> 0 \<longrightarrow> lock_nest k = 0"
  obtains mq' where "rt_mq_recv mq buffer sz timeout k
      = Inr (Return (RT_EOK, received (msg_size mq) buffer sz (block_data mq p)) (wake_first (SenderQ (mq_id mq)) k, mq'))"
    "mq_rep mq' qs (p # fs) F" "mq_id mq' = mq_id mq" "msg_size mq' = msg_size mq" "max_msgs mq' = max_msgs mq" "block_data mq' = block_data mq"
proof -
  obtain m where u: "mq_unlink mq = Inr (p, m)" "mq_rep m qs fs (insert p F)" "mq_blocks m = mq_blocks mq" "mq_id m = mq_id mq"
    "msg_size m = msg_size mq" "max_msgs m = max_msgs mq" using mq_unlink_law [OF rep] by blast
  have pF: "insert p F - {p} = F" using mq_repD(4) [OF rep] by auto
  have b: "block_data m = block_data mq" using u(3) by (auto simp: block_data_def)
  have sz': "min sz (msg_size m) \<le> length buffer" using sz(2) u(5) by simp
  obtain mq' where f: "mq_recv_finish p buffer sz m k = Inr (received (msg_size m) buffer sz (block_data m p), wake_first (SenderQ (mq_id m)) k, mq')"
    "mq_rep mq' qs (p # fs) (insert p F - {p})" "mq_id mq' = mq_id m" "msg_size mq' = msg_size m" "max_msgs mq' = max_msgs m"
    "mq_flag mq' = mq_flag m" "mq_entry mq' = mq_entry m" "block_data mq' = block_data m"
    by (rule mq_recv_finish_law [OF u(2) insertI1 sz'])
  have "mq_entry mq \<noteq> 0" using mq_repD(9) [OF rep] by simp
  then have "rt_mq_recv mq buffer sz timeout k
      = Inr (Return (RT_EOK, received (msg_size mq) buffer sz (block_data mq p)) (wake_first (SenderQ (mq_id mq)) k, mq'))"
    using u(1,4,5) sz(1) f(1) lk b by (simp add: rt_mq_recv_def mq_recv_begin_def mq_recv_loop_def)
  then show ?thesis using that f(2-8) pF u(4-6) b by simp
qed

section \<open>The pool is a queue\<close>

fun mq_walk :: "nat \<Rightarrow> (ptr \<rightharpoonup> mq_block) \<Rightarrow> ptr \<Rightarrow> ptr list" where
  "mq_walk 0 h p = []"
| "mq_walk (Suc n) h p = (if p = RT_NULL then [] else p # mq_walk n h (case h p of None \<Rightarrow> RT_NULL | Some b \<Rightarrow> bnext b))"

definition queued :: "messagequeue \<Rightarrow> char list list" where
  "queued mq = map (block_data mq) (mq_walk (max_msgs mq) (mq_blocks mq) (msg_queue_head mq))"

lemma mq_walk_spath: "spath h p xs \<Longrightarrow> length xs \<le> n \<Longrightarrow> mq_walk n h p = xs"
proof (induction xs arbitrary: p n)
  case Nil
  then show ?case by (cases n) auto
next
  case (Cons x xs)
  then obtain b where b: "h x = Some b" "x = p" "x \<noteq> RT_NULL" "spath h (bnext b) xs" by (auto simp: spath_Cons simp del: spath.simps(2))
  obtain j where "n = Suc j" "length xs \<le> j" using Cons.prems(2) by (cases n) auto
  then show ?case using b Cons.IH [OF b(4)] by simp
qed

lemma queued_rep: "mq_rep mq qs fs F \<Longrightarrow> queued mq = map (block_data mq) qs"
  using mq_walk_spath [OF mq_repD(1), of mq qs fs F "max_msgs mq"] mq_repD(10) [of mq qs fs F] by (simp add: queued_def)

definition mq_inv :: "messagequeue \<Rightarrow> bool" where
  "mq_inv mq \<longleftrightarrow> 0 < msg_size mq \<and> (\<exists>qs fs. mq_rep mq qs fs {})"

text \<open>The state after a call that nothing interrupts; messages of the full size are stored as they are.\<close>

definition mq_after :: "('r, kernel \<times> messagequeue) call cres \<Rightarrow> messagequeue cres" where
  "mq_after r = cbind r (\<lambda>c. case c of Return _ (_, mq) \<Rightarrow> Inr mq | Block (_, mq) \<Rightarrow> Inr mq)"

definition mq_get :: "kernel \<Rightarrow> messagequeue \<Rightarrow> (char list \<times> messagequeue) cres" where
  "mq_get k mq = cbind (rt_mq_recv mq (replicate (msg_size mq) NUL) (msg_size mq) 0 k) (\<lambda>c. case c of
     Return (_, m) (_, mq) \<Rightarrow> Inr (m, mq) | Block (_, mq) \<Rightarrow> Inr ([], mq))"

lemma mq_rep_free:
  assumes "mq_rep mq qs fs {}" "length (queued mq) < max_msgs mq"
  obtains p fs' where "fs = p # fs'"
  using assms queued_rep [OF assms(1)] mq_repD(10) [OF assms(1)] by (cases fs) auto

lemma block_data_other:
  assumes "mq_rep mq qs (p # fs) F"
  shows "map ((block_data mq)(p := d)) qs = map (block_data mq) qs"
  using mq_repD(3) [OF assms] by auto

lemma block_data_len:
  assumes "mq_rep mq qs fs F" "p \<in> set qs \<union> set fs \<union> F"
  shows "length (block_data mq p) = msg_size mq"
proof -
  obtain b where b: "mq_blocks mq p = Some b" using assms mq_repD(5) [OF assms(1)] by blast
  then show ?thesis using mq_repD(12) [OF assms(1)] by (auto simp: block_data_def ran_def)
qed

interpretation mqq: message_queue mq_inv queued max_msgs "\<lambda>q m. length m = msg_size q"
  "\<lambda>m q. mq_after (rt_mq_send q m (length m) k)" "\<lambda>m q. cbind (rt_mq_urgent q m (length m) k) (\<lambda>(_, _, q). Inr q)" "mq_get k"
proof unfold_locales
  fix q and m :: "char list" assume q: "mq_inv q" "length m = msg_size q" "length (queued q) < max_msgs q"
  obtain qs fs where r: "mq_rep q qs fs {}" using q(1) by (auto simp: mq_inv_def)
  obtain p fs' where fs: "fs = p # fs'" using mq_rep_free [OF r q(3)] .
  note r = r [unfolded fs]
  have sz: "length m \<noteq> 0" "length m \<le> msg_size q" "length m \<le> length m" using q(1,2) by (auto simp: mq_inv_def)
  have d: "take (length m) m @ drop (length m) (block_data q p) = m" using block_data_len [OF r, of p] q(2) by simp
  obtain q' where s: "rt_mq_send q m (length m) k = Inr (Return RT_EOK (wake_first (WaitQ (mq_id q)) k, q'))"
    "mq_rep q' (qs @ [p]) fs' {}" "msg_size q' = msg_size q" "max_msgs q' = max_msgs q"
    "block_data q' = (block_data q)(p := take (length m) m @ drop (length m) (block_data q p))"
    using rt_mq_send_law [OF r sz] by metis
  have "queued q' = queued q @ [m]"
    unfolding queued_rep [OF r] queued_rep [OF s(2)] s(5) d using block_data_other [OF r] by simp
  then show "\<exists>q'. mq_after (rt_mq_send q m (length m) k) = Inr q' \<and> mq_inv q' \<and> queued q' = queued q @ [m] \<and> max_msgs q' = max_msgs q
      \<and> (\<lambda>m. length m = msg_size q') = (\<lambda>m. length m = msg_size q)"
    using s q(1) by (auto simp: mq_after_def mq_inv_def)
  obtain q' where s: "rt_mq_urgent q m (length m) k = Inr (RT_EOK, wake_first (WaitQ (mq_id q)) k, q')"
    "mq_rep q' (p # qs) fs' {}" "msg_size q' = msg_size q" "max_msgs q' = max_msgs q"
    "block_data q' = (block_data q)(p := take (length m) m @ drop (length m) (block_data q p))"
    using rt_mq_urgent_law [OF r sz] by metis
  have "queued q' = m # queued q"
    unfolding queued_rep [OF r] queued_rep [OF s(2)] s(5) d using block_data_other [OF r] by simp
  then show "\<exists>q'. cbind (rt_mq_urgent q m (length m) k) (\<lambda>(_, _, q). Inr q) = Inr q' \<and> mq_inv q' \<and> queued q' = m # queued q \<and> max_msgs q' = max_msgs q
      \<and> (\<lambda>m. length m = msg_size q') = (\<lambda>m. length m = msg_size q)"
    using s q(1) by (auto simp: mq_inv_def)
next
  fix q m ms assume q: "mq_inv q" "queued q = m # ms"
  obtain qs fs where r: "mq_rep q qs fs {}" using q(1) by (auto simp: mq_inv_def)
  obtain p qs' where qs: "qs = p # qs'" "m = block_data q p" "ms = map (block_data q) qs'" using q(2) queued_rep [OF r] by auto
  let ?n = "msg_size q" and ?b = "replicate (msg_size q) NUL"
  have sz: "?n \<noteq> 0" "min ?n ?n \<le> length ?b" "(0 :: int) \<noteq> 0 \<longrightarrow> lock_nest k = 0" using q(1) by (auto simp: mq_inv_def)
  obtain q' where s: "rt_mq_recv q ?b ?n 0 k = Inr (Return (RT_EOK, received ?n ?b ?n (block_data q p)) (wake_first (SenderQ (mq_id q)) k, q'))"
    "mq_rep q' qs' (p # fs) {}" "msg_size q' = ?n" "max_msgs q' = max_msgs q" "block_data q' = block_data q"
    using rt_mq_recv_law [OF r [unfolded qs(1)] sz] by metis
  have "received ?n ?b ?n (block_data q p) = m" using block_data_len [OF r, of p] qs(1,2) by (simp add: received_def)
  moreover have "queued q' = ms" unfolding queued_rep [OF s(2)] s(5) qs(3) ..
  ultimately show "\<exists>q'. mq_get k q = Inr (m, q') \<and> mq_inv q' \<and> queued q' = ms \<and> max_msgs q' = max_msgs q
      \<and> (\<lambda>m. length m = msg_size q') = (\<lambda>m. length m = msg_size q)"
    using s q(1) by (auto simp: mq_get_def mq_inv_def)
next
  show "mq_inv q \<Longrightarrow> length (queued q) \<le> max_msgs q" for q
    using queued_rep mq_repD(10) by (fastforce simp: mq_inv_def)
qed

section \<open>Setting up and resetting\<close>

lemma mq_init_loop_ok:
  assumes "spath (mq_blocks mq) (msg_queue_free mq) fs" "distinct fs" "length fs = temp"
    "set fs = (\<lambda>i. base + i * (msg_size mq + 4)) ` {..<temp}" "dom (mq_blocks mq) = set fs" "\<forall>b \<in> ran (mq_blocks mq). length (bdata b) = msg_size mq"
    "base \<noteq> RT_NULL"
  shows "\<exists>fs' h p. mq_init_loop base junk temp n mq = mq\<lparr>mq_blocks := h, msg_queue_free := p\<rparr> \<and> spath h p fs' \<and> distinct fs'
    \<and> length fs' = temp + n \<and> dom h = set fs' \<and> (\<forall>b \<in> ran h. length (bdata b) = msg_size mq)"
  using assms
proof (induction n arbitrary: temp mq fs)
  case 0
  then show ?case by (intro exI [of _ fs] exI [of _ "mq_blocks mq"] exI [of _ "msg_queue_free mq"]) simp
next
  case (Suc n)
  define a where "a = base + temp * (msg_size mq + 4)"
  define c where "c = \<lparr>bnext = msg_queue_free mq, bdata = replicate (msg_size mq) junk\<rparr>"
  let ?mq = "mq\<lparr>mq_blocks := (mq_blocks mq)(a \<mapsto> c), msg_queue_free := a\<rparr>"
  have new: "a \<notin> set fs" using Suc.prems(4) by (auto simp: a_def)
  have sp: "spath (mq_blocks ?mq) (msg_queue_free ?mq) (a # fs)"
    using Suc.prems(1,7) new by (simp add: c_def) (simp add: a_def)
  have d: "distinct (a # fs)" "length (a # fs) = Suc temp" using Suc.prems(2,3) new by simp_all
  have s: "set (a # fs) = (\<lambda>i. base + i * (msg_size ?mq + 4)) ` {..<Suc temp}"
    using Suc.prems(4) by (simp add: lessThan_Suc a_def)
  have dm: "dom (mq_blocks ?mq) = set (a # fs)" using Suc.prems(5) by auto
  have rn: "\<forall>b \<in> ran (mq_blocks ?mq). length (bdata b) = msg_size ?mq"
    using Suc.prems(6) by (auto simp: c_def dest!: ran_upd)
  have "mq_init_loop base junk temp (Suc n) mq = mq_init_loop base junk (Suc temp) n ?mq"
    by (simp add: a_def c_def Let_def)
  then show ?case using Suc.IH [OF sp d s dm rn Suc.prems(7)] by simp
qed

lemma rt_mq_init_rep:
  assumes r: "rt_mq_init oid base junk msize pool_size flag k = (k', mq)" and base: "base \<noteq> RT_NULL"
  shows "\<exists>fs. mq_rep mq [] fs {}" "queued mq = []" "mq_id mq = oid" "mq_entry mq = 0"
    "msg_size mq = RT_ALIGN4 msize mod 2 ^ 16" "max_msgs mq = (pool_size div (msg_size mq + 4)) mod 2 ^ 16"
    "mq_flag mq = flag"
proof -
  let ?ms = "RT_ALIGN4 msize mod 2 ^ 16" and ?mx = "(pool_size div (RT_ALIGN4 msize mod 2 ^ 16 + 4)) mod 2 ^ 16"
  let ?m0 = "\<lparr>mq_id = oid, msg_size = ?ms, max_msgs = ?mx, mq_entry = 0, msg_queue_head = RT_NULL, msg_queue_tail = RT_NULL,
     msg_queue_free = RT_NULL, mq_blocks = Map.empty, mq_flag = flag\<rparr>"
  obtain fs h p where l: "mq_init_loop base junk 0 ?mx ?m0 = ?m0\<lparr>mq_blocks := h, msg_queue_free := p\<rparr>" "spath h p fs" "distinct fs"
    "length fs = ?mx" "dom h = set fs" "\<forall>b \<in> ran h. length (bdata b) = msg_size ?m0"
    using mq_init_loop_ok [of ?m0 "[]" 0 base junk ?mx] base by auto
  have mq: "mq = ?m0\<lparr>mq_blocks := h, msg_queue_free := p\<rparr>" using r l(1) by (simp add: rt_mq_init_def Let_def)
  have "?mx \<le> 0xFFFF" using mod_less_divisor [of "2 ^ 16" "pool_size div (?ms + 4)"] by simp
  then have rep: "mq_rep mq [] fs {}" using l(2-6) by (simp add: mq_rep_def mq)
  then show "\<exists>fs. mq_rep mq [] fs {}" by blast
  show "queued mq = []" using queued_rep [OF rep] by simp
  show "mq_id mq = oid" "mq_entry mq = 0" "msg_size mq = ?ms" "max_msgs mq = (pool_size div (msg_size mq + 4)) mod 2 ^ 16" "mq_flag mq = flag"
    by (simp_all add: mq)
qed

lemma mq_reset_loop_ok:
  assumes "mq_rep (mq\<lparr>mq_entry := length qs\<rparr>) qs fs F" "length qs < fuel"
  shows "\<exists>mq'. mq_reset_loop fuel mq = Inr mq' \<and> mq_rep (mq'\<lparr>mq_entry := 0\<rparr>) [] (rev qs @ fs) F
    \<and> mq_id mq' = mq_id mq \<and> msg_size mq' = msg_size mq \<and> max_msgs mq' = max_msgs mq"
  using assms
proof (induction qs arbitrary: mq fs fuel)
  case Nil
  obtain f where "fuel = Suc f" using Nil.prems(2) by (cases fuel) auto
  moreover have "msg_queue_head mq = RT_NULL" using mq_repD(1) [OF Nil.prems(1)] by simp
  ultimately show ?case using Nil.prems(1) by simp
next
  case (Cons p qs)
  obtain f where f: "fuel = Suc f" "length qs < f" using Cons.prems(2) by (cases fuel) auto
  let ?m = "mq\<lparr>mq_entry := length (p # qs)\<rparr>"
  note r = mq_repD [OF Cons.prems(1)]
  obtain b where b: "mq_blocks mq p = Some b" "p = msg_queue_head mq" "p \<noteq> RT_NULL" using r(1) [unfolded spath_Cons] by auto
  obtain m1 where u: "mq_unlink ?m = Inr (p, m1)" "mq_rep m1 qs fs (insert p F)" using mq_unlink_law [OF Cons.prems(1)] by blast
  let ?n1 = "mq\<lparr>msg_queue_head := bnext b, msg_queue_tail := (if msg_queue_tail mq = p then RT_NULL else msg_queue_tail mq)\<rparr>"
  have m1: "m1 = ?n1\<lparr>mq_entry := length qs\<rparr>" using u(1) b by (auto simp: mq_unlink_def mq_load_def Let_def)
  obtain m2 where l: "mq_release p m1 = Inr m2" "mq_rep m2 qs (p # fs) (insert p F - {p})" using mq_release_law [OF u(2) insertI1] by blast
  let ?n2 = "?n1\<lparr>mq_blocks := (mq_blocks mq)(p \<mapsto> b\<lparr>bnext := msg_queue_free mq\<rparr>), msg_queue_free := p\<rparr>"
  have m2: "m2 = ?n2\<lparr>mq_entry := length qs\<rparr>" 
    using l(1) b by (cases "msg_queue_tail mq = p") (auto simp: mq_release_def mq_set_next_def mq_load_def m1)
  have "insert p F - {p} = F" using r(4) by auto
  then have rep: "mq_rep (?n2\<lparr>mq_entry := length qs\<rparr>) qs (p # fs) F" using l(2) m2 by simp
  have step: "mq_reset_loop fuel mq = mq_reset_loop f ?n2"
    using b f(1) by (auto simp: mq_load_def mq_set_next_def Let_def)
  obtain mq' where "mq_reset_loop f ?n2 = Inr mq'" "mq_rep (mq'\<lparr>mq_entry := 0\<rparr>) [] (rev qs @ p # fs) F"
    "mq_id mq' = mq_id mq" "msg_size mq' = msg_size mq" "max_msgs mq' = max_msgs mq"
    using Cons.IH [OF rep f(2)] by auto
  then show ?case using step by auto
qed

end
