(* ===== verification/Ipc_Mq_Steps.thy ===== *)
theory Ipc_Mq_Steps
  imports Ipc_Mq
begin

text \<open>
  The message queue of \<^verbatim>\<open>rt-thread/src/ipc.c\<close> in a system of threads: calls are interrupted between their two parts, wait, are
  resumed and time out, and interrupt handlers send. The invariant says which blocks are queued, which are free and
  which are in the hands of a call, and counts the threads that have been woken.
\<close>

section \<open>The message queue under every interleaving\<close>

text \<open>
  A call in progress waits for a free block or for a message, or holds a block between its two parts. \<open>MDrain\<close> also
  remembers what the block held when it was unlinked.
\<close>

datatype mq_pending =
    MSend "char list" nat int
  | MRecv "char list" nat int
  | MFill ptr "char list" nat
  | MFillUrgent ptr "char list" nat
  | MDrain ptr "char list" "char list" nat

fun is_msend :: "mq_pending \<Rightarrow> bool" where
  "is_msend (MSend b n timeout) = True" | "is_msend _ = False"

fun is_mrecv :: "mq_pending \<Rightarrow> bool" where
  "is_mrecv (MRecv b n timeout) = True" | "is_mrecv _ = False"

fun holds :: "mq_pending \<Rightarrow> ptr option" where
  "holds (MFill p b n) = Some p"
| "holds (MFillUrgent p b n) = Some p"
| "holds (MDrain p d b n) = Some p"
| "holds _ = None"

interpretation mqs: two_sided is_mrecv is_msend
  by unfold_locales (auto elim: is_mrecv.elims)

datatype mq_event = Linked "char list" | LinkedFront "char list" | Taken "char list" | MQuiet

type_synonym mq_sys = "kernel \<times> messagequeue \<times> (tid \<Rightarrow> mq_pending option)"

definition mq_send_call :: "mq_pending option \<Rightarrow> messagequeue \<Rightarrow> nat \<Rightarrow> int \<Rightarrow> u32 \<Rightarrow> kernel \<Rightarrow> (int + ptr, kernel \<times> messagequeue) call cres" where
  "mq_send_call c mq sz timeout delta k = (if c = None then mq_send_begin mq sz timeout k else mq_send_resumed mq timeout delta k)"

definition mq_recv_call :: "mq_pending option \<Rightarrow> messagequeue \<Rightarrow> nat \<Rightarrow> int \<Rightarrow> u32 \<Rightarrow> kernel \<Rightarrow> (int + ptr, kernel \<times> messagequeue) call cres" where
  "mq_recv_call c mq sz timeout delta k = (if c = None then mq_recv_begin mq sz timeout k else mq_recv_resumed mq timeout delta k)"

inductive mq_step :: "mq_sys \<Rightarrow> mq_event \<Rightarrow> mq_sys \<Rightarrow> bool" where
  send_took: "running k \<Longrightarrow> t = rt_current_thread k \<Longrightarrow> pend t = None \<or> pend t = Some (MSend b n timeout) \<Longrightarrow> n \<le> length b \<Longrightarrow>
    mq_send_call (pend t) mq n timeout delta k = Inr (Return (Inr p) (k', mq')) \<Longrightarrow>
    mq_step (k, mq, pend) MQuiet (k', mq', pend(t \<mapsto> MFill p b n))"
| send_fail: "running k \<Longrightarrow> t = rt_current_thread k \<Longrightarrow> pend t = None \<or> pend t = Some (MSend b n timeout) \<Longrightarrow>
    mq_send_call (pend t) mq n timeout delta k = Inr (Return (Inl e) (k', mq')) \<Longrightarrow>
    mq_step (k, mq, pend) MQuiet (k', mq', pend(t := None))"
| send_block: "running k \<Longrightarrow> t = rt_current_thread k \<Longrightarrow> pend t = None \<or> pend t = Some (MSend b n timeout) \<Longrightarrow> n \<le> length b \<Longrightarrow>
    mq_send_call (pend t) mq n timeout delta k = Inr (Block (k', mq')) \<Longrightarrow> timeout < 0x7FFFFFFF \<Longrightarrow> uint delta < 2 ^ 31 \<Longrightarrow>
    mq_step (k, mq, pend) MQuiet (k', mq', pend(t \<mapsto> MSend b n (time_left (pend t) timeout delta)))"
| send_end: "running k \<Longrightarrow> t = rt_current_thread k \<Longrightarrow> pend t = Some (MFill p b n) \<Longrightarrow>
    mq_send_finish p b n mq k = Inr (e, k', mq') \<Longrightarrow>
    mq_step (k, mq, pend) (Linked (block_data mq' p)) (k', mq', pend(t := None))"
| urgent_took: "running k \<Longrightarrow> t = rt_current_thread k \<Longrightarrow> pend t = None \<Longrightarrow> n \<le> length b \<Longrightarrow>
    mq_urgent_begin mq n = Inr (Inr p, mq') \<Longrightarrow> mq_step (k, mq, pend) MQuiet (k, mq', pend(t \<mapsto> MFillUrgent p b n))"
| urgent_fail: "mq_urgent_begin mq n = Inr (Inl e, mq') \<Longrightarrow> mq_step (k, mq, pend) MQuiet (k, mq', pend)"
| urgent_end: "running k \<Longrightarrow> t = rt_current_thread k \<Longrightarrow> pend t = Some (MFillUrgent p b n) \<Longrightarrow>
    mq_urgent_finish p b n mq k = Inr (e, k', mq') \<Longrightarrow>
    mq_step (k, mq, pend) (LinkedFront (block_data mq' p)) (k', mq', pend(t := None))"
| recv_took: "running k \<Longrightarrow> t = rt_current_thread k \<Longrightarrow> pend t = None \<or> pend t = Some (MRecv b n timeout) \<Longrightarrow> n \<le> length b \<Longrightarrow>
    mq_recv_call (pend t) mq n timeout delta k = Inr (Return (Inr p) (k', mq')) \<Longrightarrow>
    mq_step (k, mq, pend) (Taken (block_data mq p)) (k', mq', pend(t \<mapsto> MDrain p (block_data mq p) b n))"
| recv_fail: "running k \<Longrightarrow> t = rt_current_thread k \<Longrightarrow> pend t = None \<or> pend t = Some (MRecv b n timeout) \<Longrightarrow>
    mq_recv_call (pend t) mq n timeout delta k = Inr (Return (Inl e) (k', mq')) \<Longrightarrow>
    mq_step (k, mq, pend) MQuiet (k', mq', pend(t := None))"
| recv_block: "running k \<Longrightarrow> t = rt_current_thread k \<Longrightarrow> pend t = None \<or> pend t = Some (MRecv b n timeout) \<Longrightarrow> n \<le> length b \<Longrightarrow>
    mq_recv_call (pend t) mq n timeout delta k = Inr (Block (k', mq')) \<Longrightarrow> timeout < 0x7FFFFFFF \<Longrightarrow> uint delta < 2 ^ 31 \<Longrightarrow>
    mq_step (k, mq, pend) MQuiet (k', mq', pend(t \<mapsto> MRecv b n (time_left (pend t) timeout delta)))"
| recv_end: "running k \<Longrightarrow> t = rt_current_thread k \<Longrightarrow> pend t = Some (MDrain p d b n) \<Longrightarrow>
    mq_recv_finish p b n mq k = Inr (b', k', mq') \<Longrightarrow> mq_step (k, mq, pend) MQuiet (k', mq', pend(t := None))"
| isr_sent: "n \<le> length b \<Longrightarrow> rt_mq_send mq b n k = Inr (Return RT_EOK (k', mq')) \<Longrightarrow>
    mq_step (k, mq, pend) (Linked (last (queued mq'))) (k', mq', pend)"
| timed_out: "t \<in> set (queues k (WaitQ (mq_id mq))) \<or> t \<in> set (queues k (SenderQ (mq_id mq))) \<Longrightarrow> thread_timeout t k = Inr k' \<Longrightarrow>
    mq_step (k, mq, pend) MQuiet (k', mq, pend)"
| scheduled: "mq_step (k, mq, pend) MQuiet (rt_schedule k, mq, pend)"

fun mq_replay1 :: "mq_event \<Rightarrow> char list list \<Rightarrow> char list list option" where
  "mq_replay1 (Linked d) q = Some (q @ [d])"
| "mq_replay1 (LinkedFront d) q = Some (d # q)"
| "mq_replay1 (Taken d) q = (case q of [] \<Rightarrow> None | x # q' \<Rightarrow> if x = d then Some q' else None)"
| "mq_replay1 MQuiet q = Some q"

section \<open>The invariant\<close>

definition holding :: "mq_pending option \<Rightarrow> ptr option" where
  "holding c = (case c of None \<Rightarrow> None | Some x \<Rightarrow> holds x)"

lemma holding_simps [simp]: "holding None = None" "holding (Some x) = holds x"
  by (simp_all add: holding_def)

definition held :: "(tid \<Rightarrow> mq_pending option) \<Rightarrow> ptr set" where
  "held pend = {p. \<exists>t. holding (pend t) = Some p}"

definition held_once :: "(tid \<Rightarrow> mq_pending option) \<Rightarrow> bool" where
  "held_once pend \<longleftrightarrow> (\<forall>t u p. holding (pend t) = Some p \<and> holding (pend u) = Some p \<longrightarrow> t = u)"

fun pend_ok :: "messagequeue \<Rightarrow> mq_pending \<Rightarrow> bool" where
  "pend_ok mq (MSend b n timeout) \<longleftrightarrow> n \<le> length b \<and> n \<le> msg_size mq"
| "pend_ok mq (MRecv b n timeout) \<longleftrightarrow> n \<le> length b"
| "pend_ok mq (MFill p b n) \<longleftrightarrow> n \<le> length b \<and> n \<le> msg_size mq"
| "pend_ok mq (MFillUrgent p b n) \<longleftrightarrow> n \<le> length b \<and> n \<le> msg_size mq"
| "pend_ok mq (MDrain p d b n) \<longleftrightarrow> n \<le> length b \<and> block_data mq p = d"

definition mq_sys_inv :: "kernel \<Rightarrow> messagequeue \<Rightarrow> (tid \<Rightarrow> mq_pending option) \<Rightarrow> ptr list \<Rightarrow> ptr list \<Rightarrow> bool" where
  "mq_sys_inv k mq pend qs fs \<longleftrightarrow> mq_rep mq qs fs (held pend) \<and> held_once pend
     \<and> (\<forall>t c. pend t = Some c \<longrightarrow> pend_ok mq c)
     \<and> sides_ok k pend (mq_id mq) is_mrecv (length qs) is_msend (length fs)"

lemma mq_sys_invD:
  assumes "mq_sys_inv k mq pend qs fs"
  shows "mq_rep mq qs fs (held pend)" "held_once pend" "\<And>t c. pend t = Some c \<Longrightarrow> pend_ok mq c"
    "sides_ok k pend (mq_id mq) is_mrecv (length qs) is_msend (length fs)"
  using assms by (auto simp: mq_sys_inv_def)

definition held_by_others :: "(tid \<Rightarrow> mq_pending option) \<Rightarrow> tid \<Rightarrow> ptr set" where
  "held_by_others pend t = (\<Union>u \<in> - {t}. set_option (holding (pend u)))"

lemma held_split: "held pend = set_option (holding (pend t)) \<union> held_by_others pend t"
  by (auto simp: held_def held_by_others_def)

lemma held_by_others_upd [simp]: "held_by_others (pend(t := c)) t = held_by_others pend t"
  by (simp add: held_by_others_def)

lemma held_take:
  assumes "held_once pend" "holding (pend t) = None" "holding c = Some p" "p \<notin> held pend"
  shows "held (pend(t := c)) = insert p (held pend)" "held_once (pend(t := c))"
  using held_split [of pend t] held_split [of "pend(t := c)" t] assms(2,3) apply simp
  using assms by (auto simp: held_def held_once_def)

lemma held_drop:
  assumes "held_once pend" "holding (pend t) = Some p"
  shows "held (pend(t := None)) = held pend - {p}" "held_once (pend(t := None))" "p \<in> held pend"
proof -
  have "p \<notin> held_by_others pend t" using assms by (auto simp: held_by_others_def held_once_def)
  then show "held (pend(t := None)) = held pend - {p}"
    using held_split [of pend t] held_split [of "pend(t := None)" t] assms(2) by auto
  show "held_once (pend(t := None))" "p \<in> held pend" using assms by (auto simp: held_def held_once_def)
qed

lemma held_same:
  assumes "held_once pend" "holding (pend t) = None" "holding c = None"
  shows "held (pend(t := c)) = held pend" "held_once (pend(t := c))"
  using held_split [of pend t] held_split [of "pend(t := c)" t] assms(2,3) apply simp
  using assms by (auto simp: held_once_def)

text \<open>What other threads have in progress stays valid when the data of a block nobody else holds changes.\<close>

lemma pend_ok_upd:
  assumes "pend_ok mq c" "msg_size mq' = msg_size mq" "\<And>q. holds c = Some q \<Longrightarrow> block_data mq' q = block_data mq q"
  shows "pend_ok mq' c"
  using assms by (cases c) auto

text \<open>Taking a free block.\<close>

lemma sys_take:
  assumes inv: "mq_sys_inv k mq pend qs (p # fs)" and run: "running k" "t = rt_current_thread k"
    and c: "\<not> pends is_mrecv (pend t)" "holding (pend t) = None" "holds c = Some p" "pend_ok mq c"
  obtains mq' where "mq_take mq = Inr (p, mq')" "mq_sys_inv k mq' (pend(t \<mapsto> c)) qs fs" "queued mq' = queued mq"
proof -
  note i = mq_sys_invD [OF inv]
  let ?m = "mq\<lparr>msg_queue_free := bnext (the (mq_blocks mq p))\<rparr>"
  note tk = mq_take_law [OF i(1)]
  have bd: "block_data ?m = block_data mq" by (auto simp: block_data_def)
  have new: "p \<notin> held pend" using mq_repD(4) [OF i(1)] by auto
  have h: "held (pend(t \<mapsto> c)) = insert p (held pend)" "held_once (pend(t \<mapsto> c))"
    using held_take [OF i(2) c(2) _ new, of "Some c"] c(3) by simp_all
  have ok: "pend_ok ?m x" if "pend_ok mq x" for x by (rule pend_ok_upd [OF that]) (simp_all add: bd)
  have nc: "\<not> pends is_mrecv (Some c)" "\<not> pends is_msend (Some c)" using c(3) by (cases c; simp)+
  have "sides_ok k (pend(t \<mapsto> c)) (mq_id mq) is_mrecv (length qs) is_msend (length (p # fs) - 1)"
    by (rule mqs.took_room [OF i(4) run c(1) nc])
  then have "mq_sys_inv k ?m (pend(t \<mapsto> c)) qs fs"
    unfolding mq_sys_inv_def using tk(2) h i(3) c(4) ok by (auto split: if_splits)
  then show ?thesis using that tk(1) queued_rep [OF i(1)] queued_rep [OF tk(2)] bd by simp
qed

text \<open>Linking the block the running thread holds.\<close>

lemma sys_link:
  assumes inv: "mq_sys_inv k mq pend qs fs" and run: "running k" "t = rt_current_thread k"
    and c: "pend t = Some c" "holds c = Some p" and rep: "mq_rep mq' qs' fs (held pend - {p})" "length qs' = length qs + 1"
    and same: "mq_id mq' = mq_id mq" "msg_size mq' = msg_size mq" "block_data mq' = (block_data mq)(p := d)"
  shows "mq_sys_inv (wake_first (WaitQ (mq_id mq)) k) mq' (pend(t := None)) qs' fs"
proof -
  note i = mq_sys_invD [OF inv]
  have h: "held (pend(t := None)) = held pend - {p}" "held_once (pend(t := None))" using held_drop [OF i(2)] c by simp_all
  have ok: "pend_ok mq' x" if "(pend(t := None)) u = Some x" for u x
  proof (rule pend_ok_upd [of mq])
    have u: "u \<noteq> t" "pend u = Some x" using that by (auto split: if_splits)
    show "pend_ok mq x" by (rule i(3) [OF u(2)])
    fix q assume "holds x = Some q"
    then have "q \<noteq> p" using i(2) u c unfolding held_once_def by (metis holding_simps(2))
    then show "block_data mq' q = block_data mq q" using same(3) by simp
  qed (rule same)
  have nc: "\<not> pends is_mrecv (pend t)" "\<not> pends is_msend (pend t)" using c by (cases c; simp)+
  have "sides_ok k (pend(t := None)) (mq_id mq) is_mrecv (length qs) is_msend (length fs)"
    by (rule mqs.moves_on [OF i(4) run nc]) simp_all
  from mqs.added_received [OF this] show ?thesis
    unfolding mq_sys_inv_def using rep h ok same(1) by auto
qed

text \<open>Unlinking the first message, and giving its block back.\<close>

lemma sys_unlink:
  assumes inv: "mq_sys_inv k mq pend (p # qs) fs" and run: "running k" "t = rt_current_thread k"
    and c: "\<not> pends is_msend (pend t)" "holding (pend t) = None" "n \<le> length b"
  obtains mq' where "mq_unlink mq = Inr (p, mq')" "mq_sys_inv k mq' (pend(t \<mapsto> MDrain p (block_data mq p) b n)) qs fs"
    "queued mq = block_data mq p # queued mq'"
proof -
  note i = mq_sys_invD [OF inv]
  let ?c = "MDrain p (block_data mq p) b n"
  obtain m where u: "mq_unlink mq = Inr (p, m)" "mq_rep m qs fs (insert p (held pend))" "mq_blocks m = mq_blocks mq" "mq_id m = mq_id mq"
    "msg_size m = msg_size mq" using mq_unlink_law [OF i(1)] by blast
  have bd: "block_data m = block_data mq" using u(3) by (auto simp: block_data_def)
  have new: "p \<notin> held pend" using mq_repD(4) [OF i(1)] by auto
  have h: "held (pend(t \<mapsto> ?c)) = insert p (held pend)" "held_once (pend(t \<mapsto> ?c))"
    using held_take [OF i(2) c(2) _ new, of "Some ?c"] by simp_all
  have ok: "pend_ok m x" if "pend_ok mq x" for x by (rule pend_ok_upd [OF that]) (simp_all add: bd u(5))
  have "sides_ok k (pend(t \<mapsto> ?c)) (mq_id mq) is_mrecv (length (p # qs) - 1) is_msend (length fs)"
    by (rule mqs.took_received [OF i(4) run c(1)]) simp_all
  then have "mq_sys_inv k m (pend(t \<mapsto> ?c)) qs fs"
    unfolding mq_sys_inv_def using u(2,4) h i(3) c(3) ok bd by (auto split: if_splits)
  then show ?thesis using that u(1) queued_rep [OF i(1)] queued_rep [OF u(2)] bd by simp
qed

lemma sys_release:
  assumes inv: "mq_sys_inv k mq pend qs fs" and run: "running k" "t = rt_current_thread k"
    and c: "pend t = Some c" "holds c = Some p" and rep: "mq_rep mq' qs (p # fs) (held pend - {p})"
    and same: "mq_id mq' = mq_id mq" "msg_size mq' = msg_size mq" "block_data mq' = block_data mq"
  shows "mq_sys_inv (wake_first (SenderQ (mq_id mq)) k) mq' (pend(t := None)) qs (p # fs)"
proof -
  note i = mq_sys_invD [OF inv]
  have h: "held (pend(t := None)) = held pend - {p}" "held_once (pend(t := None))" using held_drop [OF i(2)] c by simp_all
  have ok: "pend_ok mq' x" if "pend_ok mq x" for x by (rule pend_ok_upd [OF that]) (simp_all add: same)
  have nc: "\<not> pends is_mrecv (pend t)" "\<not> pends is_msend (pend t)" using c by (cases c; simp)+
  have "sides_ok k (pend(t := None)) (mq_id mq) is_mrecv (length qs) is_msend (length fs)"
    by (rule mqs.moves_on [OF i(4) run nc]) simp_all
  from mqs.added_room [OF this] show ?thesis
    unfolding mq_sys_inv_def using rep h ok i(3) same(1) by (auto split: if_splits)
qed

text \<open>A call that waits, or ends, without touching the queue.\<close>

lemma sys_pend:
  assumes inv: "mq_sys_inv k mq pend qs fs" and c: "holding (pend t) = None" "holding c = None" "\<And>x. c = Some x \<Longrightarrow> pend_ok mq x"
    and s: "sides_ok k' (pend(t := c)) (mq_id mq) is_mrecv (length qs) is_msend (length fs)"
  shows "mq_sys_inv k' mq (pend(t := c)) qs fs"
  using mq_sys_invD [OF inv] held_same [OF mq_sys_invD(2) [OF inv] c(1,2)] c(3) s by (auto simp: mq_sys_inv_def split: if_splits)

text \<open>The ways a call goes.\<close>

lemma mq_send_call_cases:
  assumes "mq_send_call c mq n timeout delta k = Inr r"
  obtains (error) e where "r = Return (Inl e) (k, mq)" "c = None \<or> terror (threads k (rt_current_thread k)) \<noteq> RT_EOK"
  | (loop) "mq_send_loop mq (time_left c timeout delta) k = Inr r" "c = None \<or> terror (threads k (rt_current_thread k)) = RT_EOK"
      "c = None \<longrightarrow> n \<le> msg_size mq"
proof (cases "c = None")
  case True
  then have "n > msg_size mq \<and> r = Return (Inl (- RT_ERROR)) (k, mq) \<or> r = Return (Inl (- RT_EFULL)) (k, mq)
      \<or> n \<le> msg_size mq \<and> mq_send_loop mq timeout k = Inr r"
    using assms by (auto simp: mq_send_call_def mq_send_begin_def cbind_eq_Inr split: if_splits)
  then show thesis using True error loop by (auto simp: time_left_def)
next
  case False
  then show thesis
    using assms error loop by (cases "terror (threads k (rt_current_thread k)) = RT_EOK") (auto simp: mq_send_call_def mq_send_resumed_def time_left_def)
qed

lemma mq_recv_call_cases:
  assumes "mq_recv_call c mq n timeout delta k = Inr r"
  obtains (error) e where "r = Return (Inl e) (k, mq)" "c = None \<or> terror (threads k (rt_current_thread k)) \<noteq> RT_EOK"
  | (loop) "mq_recv_loop mq (time_left c timeout delta) k = Inr r" "c = None \<or> terror (threads k (rt_current_thread k)) = RT_EOK"
proof (cases "c = None")
  case True
  then have "r = Return (Inl (- RT_ETIMEOUT)) (k, mq) \<or> mq_recv_loop mq timeout k = Inr r"
    using assms by (auto simp: mq_recv_call_def mq_recv_begin_def cbind_eq_Inr split: if_splits)
  then show thesis using True error loop by (auto simp: time_left_def)
next
  case False
  then show thesis
    using assms error loop by (cases "terror (threads k (rt_current_thread k)) = RT_EOK") (auto simp: mq_recv_call_def mq_recv_resumed_def time_left_def)
qed

lemma mq_send_loop_cases:
  assumes "mq_send_loop mq timeout k = Inr r" "mq_rep mq qs fs F"
  obtains (full) "fs = []" "r = Return (Inl (- RT_EFULL)) (set_error (rt_current_thread k) RT_EOK k, mq)"
  | (block) k' where "fs = []" "r = Block (k', mq)" "ipc_wait (SenderQ (mq_id mq)) (mq_flag mq) timeout (set_error (rt_current_thread k) RT_EOK k) = Inr k'"
  | (took) p fs' mq' where "fs = p # fs'" "mq_take mq = Inr (p, mq')" "r = Return (Inr p) (k, mq')"
proof (cases fs)
  case Nil
  then have "msg_queue_free mq = RT_NULL" using mq_repD(2) [OF assms(2)] by simp
  then show thesis using assms(1) Nil full block by (cases "timeout = 0") (auto simp: mq_send_loop_def Let_def cbind_eq_Inr)
next
  case (Cons p fs')
  note t = mq_take_law [OF assms(2) [unfolded Cons]]
  then show thesis using assms(1) Cons took by (auto simp: mq_send_loop_def)
qed

lemma mq_recv_loop_cases:
  assumes "mq_recv_loop mq timeout k = Inr r" "mq_rep mq qs fs F"
  obtains (empty) "qs = []"
      "r = Return (Inl (- RT_ETIMEOUT)) (set_error (rt_current_thread k) (- RT_ETIMEOUT) (set_error (rt_current_thread k) RT_EOK k), mq)"
  | (block) k' where "qs = []" "r = Block (k', mq)" "ipc_wait (WaitQ (mq_id mq)) (mq_flag mq) timeout (set_error (rt_current_thread k) RT_EOK k) = Inr k'"
  | (took) p qs' mq' where "qs = p # qs'" "mq_unlink mq = Inr (p, mq')" "r = Return (Inr p) (k, mq')"
proof (cases qs)
  case Nil
  then have "mq_entry mq = 0" using mq_repD(9) [OF assms(2)] by simp
  then show thesis using assms(1) Nil empty block by (cases "timeout = 0") (auto simp: mq_recv_loop_def Let_def cbind_eq_Inr)
next
  case (Cons p qs')
  obtain mq' where "mq_unlink mq = Inr (p, mq')" using mq_unlink_law [OF assms(2) [unfolded Cons]] by blast
  moreover have "mq_entry mq \<noteq> 0" using mq_repD(9) [OF assms(2)] Cons by simp
  ultimately show thesis using assms(1) Cons took by (auto simp: mq_recv_loop_def)
qed

section \<open>Every step keeps the invariant\<close>

definition mq_sys_ok :: "mq_sys \<Rightarrow> bool" where
  "mq_sys_ok st \<longleftrightarrow> (case st of (k, mq, pend) \<Rightarrow> \<exists>qs fs. mq_sys_inv k mq pend qs fs)"

lemma send_step_ok:
  assumes inv: "mq_sys_inv k mq pend qs fs" and run: "running k" "t = rt_current_thread k"
    and c: "pend t = None \<or> pend t = Some (MSend b n timeout)" and r: "mq_send_call (pend t) mq n timeout delta k = Inr r"
  shows "r = Return (Inr p) (k', mq') \<Longrightarrow> n \<le> length b \<Longrightarrow> mq_sys_ok (k', mq', pend(t \<mapsto> MFill p b n)) \<and> queued mq' = queued mq"
    "r = Return (Inl e) (k', mq') \<Longrightarrow> mq_sys_ok (k', mq', pend(t := None)) \<and> queued mq' = queued mq"
    "r = Block (k', mq') \<Longrightarrow> n \<le> length b \<Longrightarrow> timeout < 0x7FFFFFFF \<Longrightarrow> uint delta < 2 ^ 31 \<Longrightarrow>
       mq_sys_ok (k', mq', pend(t \<mapsto> MSend b n left)) \<and> queued mq' = queued mq"
proof -
  note i = mq_sys_invD [OF inv]
  have nr: "\<not> pends is_mrecv (pend t)" "holding (pend t) = None" using c by auto
  have ms: "pend t = None \<longrightarrow> n \<le> msg_size mq \<Longrightarrow> n \<le> msg_size mq" using c i(3) [of t] by auto
  show "mq_sys_ok (k', mq', pend(t \<mapsto> MFill p b n)) \<and> queued mq' = queued mq" if rr: "r = Return (Inr p) (k', mq')" and n: "n \<le> length b"
    using r
  proof (cases rule: mq_send_call_cases)
    case loop
    from loop(1) i(1) show ?thesis
    proof (cases rule: mq_send_loop_cases)
      case (took q fs' m)
      have ok: "pend_ok mq (MFill q b n)" "holds (MFill q b n) = Some q" using n ms loop(3) by simp_all
      obtain m' where "mq_take mq = Inr (q, m')" "mq_sys_inv k m' (pend(t \<mapsto> MFill q b n)) qs fs'" "queued m' = queued mq"
        using sys_take [OF inv [unfolded took(1)] run nr ok(2,1)] .
      then show ?thesis using took rr by (auto simp: mq_sys_ok_def)
    qed (use rr in auto)
  qed (use rr in auto)
  show "mq_sys_ok (k', mq', pend(t := None)) \<and> queued mq' = queued mq" if rr: "r = Return (Inl e) (k', mq')"
    using r
  proof (cases rule: mq_send_call_cases)
    case (error e')
    then have "mq_sys_inv k mq (pend(t := None)) qs fs"
      using mqs.end_quiet [OF i(4) run] run(2) nr(2) by (intro sys_pend [OF inv]) auto
    then show ?thesis using error rr by (auto simp: mq_sys_ok_def)
  next
    case loop
    from loop(1) i(1) show ?thesis
    proof (cases rule: mq_send_loop_cases)
      case full
      then have "mq_sys_inv (set_error t RT_EOK k) mq (pend(t := None)) qs fs"
        using mqs.end_fail [OF i(4) run] nr by (intro sys_pend [OF inv]) auto
      then show ?thesis using full rr run(2) by (auto simp: mq_sys_ok_def)
    qed (use rr in auto)
  qed
  show "mq_sys_ok (k', mq', pend(t \<mapsto> MSend b n left)) \<and> queued mq' = queued mq"
    if rr: "r = Block (k', mq')" and n: "n \<le> length b" and tm: "timeout < 0x7FFFFFFF" "uint delta < 2 ^ 31"
    using r
  proof (cases rule: mq_send_call_cases)
    case loop
    from loop(1) i(1) show ?thesis
    proof (cases rule: mq_send_loop_cases)
      case (block k1)
      have e: "pend t = None \<or> terror (threads k t) = RT_EOK" using loop(2) run(2) by simp
      have w: "ipc_wait (SenderQ (mq_id mq)) (mq_flag mq) (time_left (pend t) timeout delta) (set_error t RT_EOK k) = Inr k1"
        using block(3) run(2) by simp
      have "mq_sys_inv k1 mq (pend(t \<mapsto> MSend b n left)) qs fs"
        using mqs.blocks(1) [OF i(4) run e time_left_less [OF tm] w refl nr(1), of "MSend b n left"] nr(2) n ms loop(3) block(1)
        by (intro sys_pend [OF inv]) auto
      then show ?thesis using block rr by (auto simp: mq_sys_ok_def)
    qed (use rr in auto)
  qed (use rr in auto)
qed

lemma recv_step_ok:
  assumes inv: "mq_sys_inv k mq pend qs fs" and run: "running k" "t = rt_current_thread k"
    and c: "pend t = None \<or> pend t = Some (MRecv b n timeout)" and r: "mq_recv_call (pend t) mq n timeout delta k = Inr r"
  shows "r = Return (Inr p) (k', mq') \<Longrightarrow> n \<le> length b \<Longrightarrow>
      mq_sys_ok (k', mq', pend(t \<mapsto> MDrain p (block_data mq p) b n)) \<and> queued mq = block_data mq p # queued mq'"
    "r = Return (Inl e) (k', mq') \<Longrightarrow> mq_sys_ok (k', mq', pend(t := None)) \<and> queued mq' = queued mq"
    "r = Block (k', mq') \<Longrightarrow> n \<le> length b \<Longrightarrow> timeout < 0x7FFFFFFF \<Longrightarrow> uint delta < 2 ^ 31 \<Longrightarrow>
       mq_sys_ok (k', mq', pend(t \<mapsto> MRecv b n left)) \<and> queued mq' = queued mq"
proof -
  note i = mq_sys_invD [OF inv]
  have nr: "\<not> pends is_msend (pend t)" "holding (pend t) = None" using c by auto
  show "mq_sys_ok (k', mq', pend(t \<mapsto> MDrain p (block_data mq p) b n)) \<and> queued mq = block_data mq p # queued mq'"
    if rr: "r = Return (Inr p) (k', mq')" and n: "n \<le> length b"
    using r
  proof (cases rule: mq_recv_call_cases)
    case loop
    from loop(1) i(1) show ?thesis
    proof (cases rule: mq_recv_loop_cases)
      case (took q qs' m)
      obtain m' where "mq_unlink mq = Inr (q, m')" "mq_sys_inv k m' (pend(t \<mapsto> MDrain q (block_data mq q) b n)) qs' fs"
        "queued mq = block_data mq q # queued m'"
        using sys_unlink [OF inv [unfolded took(1)] run nr n] .
      then show ?thesis using took rr by (auto simp: mq_sys_ok_def)
    qed (use rr in auto)
  qed (use rr in auto)
  show "mq_sys_ok (k', mq', pend(t := None)) \<and> queued mq' = queued mq" if rr: "r = Return (Inl e) (k', mq')"
    using r
  proof (cases rule: mq_recv_call_cases)
    case (error e')
    then have "mq_sys_inv k mq (pend(t := None)) qs fs"
      using mqs.end_quiet [OF i(4) run] run(2) nr(2) by (intro sys_pend [OF inv]) auto
    then show ?thesis using error rr by (auto simp: mq_sys_ok_def)
  next
    case loop
    from loop(1) i(1) show ?thesis
    proof (cases rule: mq_recv_loop_cases)
      case empty
      then have "mq_sys_inv (set_error t (- RT_ETIMEOUT) k) mq (pend(t := None)) qs fs"
        using mqs.end_fail [OF i(4) run] nr by (intro sys_pend [OF inv]) auto
      then show ?thesis using empty rr run(2) by (auto simp: mq_sys_ok_def set_error_twice)
    qed (use rr in auto)
  qed
  show "mq_sys_ok (k', mq', pend(t \<mapsto> MRecv b n left)) \<and> queued mq' = queued mq"
    if rr: "r = Block (k', mq')" and n: "n \<le> length b" and tm: "timeout < 0x7FFFFFFF" "uint delta < 2 ^ 31"
    using r
  proof (cases rule: mq_recv_call_cases)
    case loop
    from loop(1) i(1) show ?thesis
    proof (cases rule: mq_recv_loop_cases)
      case (block k1)
      have e: "pend t = None \<or> terror (threads k t) = RT_EOK" using loop(2) run(2) by simp
      have w: "ipc_wait (WaitQ (mq_id mq)) (mq_flag mq) (time_left (pend t) timeout delta) (set_error t RT_EOK k) = Inr k1"
        using block(3) run(2) by simp
      have "mq_sys_inv k1 mq (pend(t \<mapsto> MRecv b n left)) qs fs"
        using mqs.blocks(2) [OF i(4) run e time_left_less [OF tm] w refl nr(1), of "MRecv b n left"] nr(2) n block(1)
        by (intro sys_pend [OF inv]) auto
      then show ?thesis using block rr by (auto simp: mq_sys_ok_def)
    qed (use rr in auto)
  qed (use rr in auto)
qed

lemma map_data_upd: "p \<notin> set qs \<Longrightarrow> map (f(p := d)) qs = map f qs"
  by auto

lemma send_end_ok:
  assumes inv: "mq_sys_inv k mq pend qs fs" and run: "running k" "t = rt_current_thread k" and c: "pend t = Some (MFill p b n)"
  shows "\<exists>mq'. mq_send_finish p b n mq k = Inr (RT_EOK, wake_first (WaitQ (mq_id mq)) k, mq')
    \<and> mq_sys_ok (wake_first (WaitQ (mq_id mq)) k, mq', pend(t := None)) \<and> queued mq' = queued mq @ [block_data mq' p] \<and> take n (block_data mq' p) = take n b"
proof -
  note i = mq_sys_invD [OF inv]
  have n: "n \<le> msg_size mq" "n \<le> length b" using i(3) [OF c] by simp_all
  have p: "p \<in> held pend" using held_drop(3) [OF i(2), of t p] c by simp
  have np: "p \<notin> set qs" using mq_repD(4) [OF i(1)] p by auto
  obtain mq' where f: "mq_send_finish p b n mq k = Inr (RT_EOK, wake_first (WaitQ (mq_id mq)) k, mq')"
    "mq_rep mq' (qs @ [p]) fs (held pend - {p})" "mq_id mq' = mq_id mq" "msg_size mq' = msg_size mq"
    "block_data mq' = (block_data mq)(p := take n b @ drop n (block_data mq p))"
    using mq_send_finish_law [OF i(1) p n] by metis
  have "mq_sys_inv (wake_first (WaitQ (mq_id mq)) k) mq' (pend(t := None)) (qs @ [p]) fs"
    by (rule sys_link [OF inv run c _ f(2) _ f(3-5)]) simp_all
  moreover have "queued mq' = queued mq @ [block_data mq' p]"
    unfolding queued_rep [OF f(2)] queued_rep [OF i(1)] f(5) using np by (simp add: map_data_upd)
  moreover have "take n (block_data mq' p) = take n b" using f(5) n by simp
  ultimately show ?thesis using f(1) by (auto simp: mq_sys_ok_def)
qed

lemma urgent_end_ok:
  assumes inv: "mq_sys_inv k mq pend qs fs" and run: "running k" "t = rt_current_thread k" and c: "pend t = Some (MFillUrgent p b n)"
  shows "\<exists>mq'. mq_urgent_finish p b n mq k = Inr (RT_EOK, wake_first (WaitQ (mq_id mq)) k, mq')
    \<and> mq_sys_ok (wake_first (WaitQ (mq_id mq)) k, mq', pend(t := None)) \<and> queued mq' = block_data mq' p # queued mq \<and> take n (block_data mq' p) = take n b"
proof -
  note i = mq_sys_invD [OF inv]
  have n: "n \<le> msg_size mq" "n \<le> length b" using i(3) [OF c] by simp_all
  have p: "p \<in> held pend" using held_drop(3) [OF i(2), of t p] c by simp
  have np: "p \<notin> set qs" using mq_repD(4) [OF i(1)] p by auto
  obtain mq' where f: "mq_urgent_finish p b n mq k = Inr (RT_EOK, wake_first (WaitQ (mq_id mq)) k, mq')"
    "mq_rep mq' (p # qs) fs (held pend - {p})" "mq_id mq' = mq_id mq" "msg_size mq' = msg_size mq"
    "block_data mq' = (block_data mq)(p := take n b @ drop n (block_data mq p))"
    using mq_urgent_finish_law [OF i(1) p n] by metis
  have "mq_sys_inv (wake_first (WaitQ (mq_id mq)) k) mq' (pend(t := None)) (p # qs) fs"
    by (rule sys_link [OF inv run c _ f(2) _ f(3-5)]) simp_all
  moreover have "queued mq' = block_data mq' p # queued mq"
    unfolding queued_rep [OF f(2)] queued_rep [OF i(1)] f(5) using np by (simp add: map_data_upd)
  moreover have "take n (block_data mq' p) = take n b" using f(5) n by simp
  ultimately show ?thesis using f(1) by (auto simp: mq_sys_ok_def)
qed

lemma recv_end_ok:
  assumes inv: "mq_sys_inv k mq pend qs fs" and run: "running k" "t = rt_current_thread k" and c: "pend t = Some (MDrain p d b n)"
  shows "\<exists>mq'. mq_recv_finish p b n mq k = Inr (received (msg_size mq) b n d, wake_first (SenderQ (mq_id mq)) k, mq')
    \<and> mq_sys_ok (wake_first (SenderQ (mq_id mq)) k, mq', pend(t := None)) \<and> queued mq' = queued mq"
proof -
  note i = mq_sys_invD [OF inv]
  have n: "min n (msg_size mq) \<le> length b" "block_data mq p = d" using i(3) [OF c] by (auto simp: min.coboundedI1)
  have p: "p \<in> held pend" using held_drop(3) [OF i(2), of t p] c by simp
  obtain mq' where f: "mq_recv_finish p b n mq k = Inr (received (msg_size mq) b n (block_data mq p), wake_first (SenderQ (mq_id mq)) k, mq')"
    "mq_rep mq' qs (p # fs) (held pend - {p})" "mq_id mq' = mq_id mq" "msg_size mq' = msg_size mq" "block_data mq' = block_data mq"
    using mq_recv_finish_law [OF i(1) p n(1)] by metis
  have "mq_sys_inv (wake_first (SenderQ (mq_id mq)) k) mq' (pend(t := None)) qs (p # fs)"
    by (rule sys_release [OF inv run c _ f(2-5)]) simp
  moreover have "queued mq' = queued mq" unfolding queued_rep [OF f(2)] queued_rep [OF i(1)] f(5) ..
  ultimately show ?thesis using f(1) n(2) by (auto simp: mq_sys_ok_def)
qed

text \<open>An interrupt handler sends a message.\<close>

lemma isr_send_ok:
  assumes inv: "mq_sys_inv k mq pend qs fs" and n: "n \<le> length b" and r: "rt_mq_send mq b n k = Inr (Return RT_EOK (k', mq'))"
  shows "mq_sys_ok (k', mq', pend) \<and> queued mq' = queued mq @ [last (queued mq')]"
proof -
  note i = mq_sys_invD [OF inv]
  have sz: "n \<noteq> 0" "n \<le> msg_size mq" "msg_queue_free mq \<noteq> RT_NULL"
    using r by (auto simp: rt_mq_send_def rt_mq_send_wait_def mq_send_begin_def cbind_eq_Inr split: if_splits)
  obtain p fs' where fs: "fs = p # fs'" using sz(3) mq_repD(2) [OF i(1)] by (cases fs) auto
  obtain m where m: "rt_mq_send mq b n k = Inr (Return RT_EOK (wake_first (WaitQ (mq_id mq)) k, m))" "mq_rep m (qs @ [p]) fs' (held pend)"
    "mq_id m = mq_id mq" "msg_size m = msg_size mq" "block_data m = (block_data mq)(p := take n b @ drop n (block_data mq p))"
    using rt_mq_send_law [OF i(1) [unfolded fs] sz(1,2) n] by metis
  have res: "k' = wake_first (WaitQ (mq_id mq)) k" "mq' = m" using r m(1) by simp_all
  have np: "p \<notin> set qs" "p \<notin> held pend" using mq_repD(3,4) [OF i(1)] fs by auto
  have ok: "pend_ok m x" if "pend u = Some x" for u x
  proof (rule pend_ok_upd [OF i(3) [OF that] m(4)])
    fix q assume "holds x = Some q"
    then have "q \<in> held pend" using that by (auto simp: held_def intro!: exI [of _ u])
    then show "block_data m q = block_data mq q" using np(2) m(5) by auto
  qed
  have "sides_ok k pend (mq_id mq) is_mrecv (length qs) is_msend (length fs')"
    by (rule sides_mono [OF i(4)]) (simp_all add: fs)
  from mqs.added_received [OF this] have "mq_sys_inv k' m pend (qs @ [p]) fs'"
    unfolding mq_sys_inv_def using m(2,3) i(2) ok res(1) by auto
  moreover have "queued m = queued mq @ [block_data m p]"
    unfolding queued_rep [OF m(2)] queued_rep [OF i(1)] m(5) using np(1) by (simp add: map_data_upd)
  ultimately show ?thesis using res by (auto simp: mq_sys_ok_def)
qed

lemma urgent_begin_ok:
  assumes inv: "mq_sys_inv k mq pend qs fs" and r: "mq_urgent_begin mq n = Inr (r, mq')"
  shows "r = Inl e \<Longrightarrow> mq' = mq"
    "r = Inr p \<Longrightarrow> running k \<Longrightarrow> t = rt_current_thread k \<Longrightarrow> pend t = None \<Longrightarrow> n \<le> length b \<Longrightarrow>
      mq_sys_ok (k, mq', pend(t \<mapsto> MFillUrgent p b n)) \<and> queued mq' = queued mq"
proof -
  note i = mq_sys_invD [OF inv]
  show "mq' = mq" if "r = Inl e" using r that by (auto simp: mq_urgent_begin_def cbind_eq_Inr split: if_splits)
  show "mq_sys_ok (k, mq', pend(t \<mapsto> MFillUrgent p b n)) \<and> queued mq' = queued mq"
    if rr: "r = Inr p" and run: "running k" "t = rt_current_thread k" and pn: "pend t = None" and n: "n \<le> length b"
  proof -
    have sz: "n \<le> msg_size mq" "msg_queue_free mq \<noteq> RT_NULL" "mq_take mq = Inr (p, mq')"
      using r rr by (auto simp: mq_urgent_begin_def cbind_eq_Inr split: if_splits)
    obtain q fs' where fs: "fs = q # fs'" using sz(2) mq_repD(2) [OF i(1)] by (cases fs) auto
    have "mq_take mq = Inr (q, mq\<lparr>msg_queue_free := bnext (the (mq_blocks mq q))\<rparr>)" by (rule mq_take_law(1) [OF i(1) [unfolded fs]])
    then have q: "q = p" using sz(3) by simp
    have c: "\<not> pends is_mrecv (pend t)" "holding (pend t) = None" "holds (MFillUrgent p b n) = Some p" "pend_ok mq (MFillUrgent p b n)"
      using pn n sz(1) by simp_all
    obtain m where "mq_take mq = Inr (p, m)" "mq_sys_inv k m (pend(t \<mapsto> MFillUrgent p b n)) qs fs'" "queued m = queued mq"
      using sys_take [OF inv [unfolded fs q] run c] .
    then show ?thesis using sz(3) by (auto simp: mq_sys_ok_def)
  qed
qed

lemma mq_step_ok:
  "mq_step st e st' \<Longrightarrow> mq_sys_ok st \<Longrightarrow> mq_sys_ok st' \<and> mq_replay1 e (queued (fst (snd st))) = Some (queued (fst (snd st')))"
proof (induction rule: mq_step.induct)
  case (send_took k t pend b n timeout mq delta p k' mq')
  obtain qs fs where inv: "mq_sys_inv k mq pend qs fs" using send_took.prems by (auto simp: mq_sys_ok_def)
  show ?case using send_step_ok(1) [OF inv send_took(1-3,5) refl send_took(4)] by simp
next
  case (send_fail k t pend b n timeout mq delta e k' mq')
  obtain qs fs where inv: "mq_sys_inv k mq pend qs fs" using send_fail.prems by (auto simp: mq_sys_ok_def)
  show ?case using send_step_ok(2) [OF inv send_fail(1-4) refl] by simp
next
  case (send_block k t pend b n timeout mq delta k' mq')
  obtain qs fs where inv: "mq_sys_inv k mq pend qs fs" using send_block.prems by (auto simp: mq_sys_ok_def)
  show ?case using send_step_ok(3) [OF inv send_block(1-3,5) refl send_block(4,6,7)] by simp
next
  case (send_end k t pend p b n mq e k' mq')
  obtain qs fs where inv: "mq_sys_inv k mq pend qs fs" using send_end.prems by (auto simp: mq_sys_ok_def)
  show ?case using send_end_ok [OF inv send_end(1-3)] send_end(4) by auto
next
  case (urgent_took k t pend n b mq p mq')
  obtain qs fs where inv: "mq_sys_inv k mq pend qs fs" using urgent_took.prems by (auto simp: mq_sys_ok_def)
  show ?case using urgent_begin_ok(2) [OF inv urgent_took(5) refl urgent_took(1-4)] by simp
next
  case (urgent_fail mq n e mq' k pend)
  obtain qs fs where inv: "mq_sys_inv k mq pend qs fs" using urgent_fail.prems by (auto simp: mq_sys_ok_def)
  show ?case using urgent_begin_ok(1) [OF inv urgent_fail(1) refl] urgent_fail.prems by simp
next
  case (urgent_end k t pend p b n mq e k' mq')
  obtain qs fs where inv: "mq_sys_inv k mq pend qs fs" using urgent_end.prems by (auto simp: mq_sys_ok_def)
  show ?case using urgent_end_ok [OF inv urgent_end(1-3)] urgent_end(4) by auto
next
  case (recv_took k t pend b n timeout mq delta p k' mq')
  obtain qs fs where inv: "mq_sys_inv k mq pend qs fs" using recv_took.prems by (auto simp: mq_sys_ok_def)
  show ?case using recv_step_ok(1) [OF inv recv_took(1-3,5) refl recv_took(4)] by simp
next
  case (recv_fail k t pend b n timeout mq delta e k' mq')
  obtain qs fs where inv: "mq_sys_inv k mq pend qs fs" using recv_fail.prems by (auto simp: mq_sys_ok_def)
  show ?case using recv_step_ok(2) [OF inv recv_fail(1-4) refl] by simp
next
  case (recv_block k t pend b n timeout mq delta k' mq')
  obtain qs fs where inv: "mq_sys_inv k mq pend qs fs" using recv_block.prems by (auto simp: mq_sys_ok_def)
  show ?case using recv_step_ok(3) [OF inv recv_block(1-3,5) refl recv_block(4,6,7)] by simp
next
  case (recv_end k t pend p d b n mq b' k' mq')
  obtain qs fs where inv: "mq_sys_inv k mq pend qs fs" using recv_end.prems by (auto simp: mq_sys_ok_def)
  show ?case using recv_end_ok [OF inv recv_end(1-3)] recv_end(4) by auto
next
  case (isr_sent n b mq k k' mq' pend)
  obtain qs fs where inv: "mq_sys_inv k mq pend qs fs" using isr_sent.prems by (auto simp: mq_sys_ok_def)
  show ?case using isr_send_ok [OF inv isr_sent(1,2)] by simp
next
  case (timed_out t k mq k' pend)
  obtain qs fs where inv: "mq_sys_inv k mq pend qs fs" using timed_out.prems by (auto simp: mq_sys_ok_def)
  show ?case using inv mqs.timed_out [OF mq_sys_invD(4) [OF inv] timed_out(1,2)] by (auto simp: mq_sys_ok_def mq_sys_inv_def)
next
  case (scheduled k mq pend)
  obtain qs fs where inv: "mq_sys_inv k mq pend qs fs" using scheduled.prems by (auto simp: mq_sys_ok_def)
  show ?case using inv mqs.scheduled [OF mq_sys_invD(4) [OF inv]] by (auto simp: mq_sys_ok_def mq_sys_inv_def)
qed

inductive mq_run :: "mq_sys \<Rightarrow> mq_event list \<Rightarrow> mq_sys \<Rightarrow> bool" where
  fresh: "kinv k \<Longrightarrow> queues k (WaitQ oid) = [] \<Longrightarrow> queues k (SenderQ oid) = [] \<Longrightarrow> base \<noteq> RT_NULL \<Longrightarrow>
    rt_mq_init oid base junk msize pool_size flag k = (k', mq) \<Longrightarrow> mq_run (k', mq, Map.empty) [] (k', mq, Map.empty)"
| step: "mq_run st es st' \<Longrightarrow> mq_step st' e st'' \<Longrightarrow> mq_run st (es @ [e]) st''"

fun mq_replay :: "mq_event list \<Rightarrow> char list list \<Rightarrow> char list list option" where
  "mq_replay [] q = Some q"
| "mq_replay (e # es) q = (case mq_replay1 e q of None \<Rightarrow> None | Some q' \<Rightarrow> mq_replay es q')"

lemma mq_replay_snoc: "mq_replay (es @ [e]) q = (case mq_replay es q of None \<Rightarrow> None | Some q' \<Rightarrow> mq_replay1 e q')"
  by (induction es arbitrary: q) (auto split: option.splits)

lemma mq_fresh_ok:
  assumes "kinv k" "queues k (WaitQ oid) = []" "queues k (SenderQ oid) = []" "base \<noteq> RT_NULL"
    and r: "rt_mq_init oid base junk msize pool_size flag k = (k', mq)"
  shows "k' = k" "mq_sys_ok (k, mq, Map.empty)" "queued mq = []"
proof -
  have "(queues k)(WaitQ oid := [], SenderQ oid := []) = queues k" using assms(2,3) by (simp add: fun_upd_idem)
  then show k': "k' = k" using r by (auto simp: rt_mq_init_def Let_def)
  note q = rt_mq_init_rep [OF r assms(4)]
  show "queued mq = []" by (rule q(2))
  obtain fs where fs: "mq_rep mq [] fs {}" using q(1) by blast
  have h: "held (Map.empty) = {}" "held_once Map.empty" by (simp_all add: held_def held_once_def)
  have "sides_ok k Map.empty oid is_mrecv n is_msend m" for n m using assms(1-3) by (simp add: sides_ok_def side_ok_def)
  then have "mq_sys_inv k mq Map.empty [] fs" unfolding mq_sys_inv_def using fs h q(3) by simp
  then show "mq_sys_ok (k, mq, Map.empty)" by (auto simp: mq_sys_ok_def)
qed

lemma mq_run_ok: "mq_run st es st' \<Longrightarrow> mq_sys_ok st' \<and> mq_replay es [] = Some (queued (fst (snd st')))"
proof (induction rule: mq_run.induct)
  case (fresh k oid base junk msize pool_size flag k' mq)
  then show ?case using mq_fresh_ok [OF fresh(1-5)] by simp
next
  case (step st es st' e st'')
  then show ?case using mq_step_ok [OF step.hyps(2)] by (auto simp: mq_replay_snoc)
qed

section \<open>Properties\<close>

text \<open>C5: messages are delivered exactly once and in order: over every interleaving of sends, urgent sends, receives, the
  two parts of each call, sends from interrupt handlers, timeouts and scheduling, replaying the
  events (blocks linked at the back or at the front, blocks taken from the front) on an empty
  queue never fails and gives the messages that are queued. A receive that has taken a block returns what the block held
  when it was taken, and a send that has a block queues the bytes of its message.\<close>

theorem mq_delivers_in_order:
  assumes "mq_run st es (k, mq, pend)"
  shows "mq_replay es [] = Some (queued mq) \<and> length (queued mq) \<le> max_msgs mq \<and> kinv k
    \<and> (running k \<longrightarrow> (case pend (rt_current_thread k) of
         Some (MDrain p d b n) \<Rightarrow> \<exists>k' mq'. mq_recv_finish p b n mq k = Inr (received (msg_size mq) b n d, k', mq')
       | Some (MFill p b n) \<Rightarrow> \<exists>k' mq' m. mq_send_finish p b n mq k = Inr (RT_EOK, k', mq') \<and> queued mq' = queued mq @ [m] \<and> take n m = take n b
       | _ \<Rightarrow> True))"
proof -
  obtain qs fs where inv: "mq_sys_inv k mq pend qs fs" and rp: "mq_replay es [] = Some (queued mq)"
    using mq_run_ok [OF assms] by (auto simp: mq_sys_ok_def)
  note i = mq_sys_invD [OF inv]
  have l: "length (queued mq) \<le> max_msgs mq" using queued_rep [OF i(1)] mq_repD(10) [OF i(1)] by simp
  have "running k \<longrightarrow> (case pend (rt_current_thread k) of
         Some (MDrain p d b n) \<Rightarrow> \<exists>k' mq'. mq_recv_finish p b n mq k = Inr (received (msg_size mq) b n d, k', mq')
       | Some (MFill p b n) \<Rightarrow> \<exists>k' mq' m. mq_send_finish p b n mq k = Inr (RT_EOK, k', mq') \<and> queued mq' = queued mq @ [m] \<and> take n m = take n b
       | _ \<Rightarrow> True)"
    using recv_end_ok [OF inv _ refl] send_end_ok [OF inv _ refl] by (fastforce split: option.split mq_pending.split)
  then show ?thesis using rp l sides_okD(1) [OF i(4)] by blast
qed


text \<open>C7: no wake-up of a message queue is lost: if a thread waits for a message although there is one, another thread whose
  receive has been woken is ready or running to take it; and if a thread waits for a block although one is
  free, another woken sender is ready or running to use it.\<close>

theorem mq_no_lost_wakeup:
  assumes "mq_run st es (k, mq, pend)"
  shows "(queues k (WaitQ (mq_id mq)) \<noteq> [] \<and> mq_entry mq > 0 \<longrightarrow>
      (\<exists>t b n timeout. pend t = Some (MRecv b n timeout) \<and> t \<notin> set (queues k (WaitQ (mq_id mq))) \<and> awake k t \<and> terror (threads k t) = RT_EOK))
    \<and> (queues k (SenderQ (mq_id mq)) \<noteq> [] \<and> msg_queue_free mq \<noteq> RT_NULL \<longrightarrow>
      (\<exists>t b n timeout. pend t = Some (MSend b n timeout) \<and> t \<notin> set (queues k (SenderQ (mq_id mq))) \<and> awake k t \<and> terror (threads k t) = RT_EOK))"
proof -
  obtain qs fs where inv: "mq_sys_inv k mq pend qs fs" using mq_run_ok [OF assms] by (auto simp: mq_sys_ok_def)
  note i = mq_sys_invD [OF inv]
  have n1: "length qs = mq_entry mq" using mq_repD(9) [OF i(1)] by simp
  have n2: "msg_queue_free mq \<noteq> RT_NULL \<Longrightarrow> 0 < length fs" using mq_repD(2) [OF i(1)] by (cases fs) auto
  have "is_mrecv p \<Longrightarrow> \<exists>b n timeout. p = MRecv b n timeout" "is_msend p \<Longrightarrow> \<exists>b n timeout. p = MSend b n timeout" for p
    by (cases p; simp)+
  then show ?thesis using mqs.woken_receiver [OF i(4)] mqs.woken_sender [OF i(4)] n1 n2 by metis
qed


text \<open>A queue of three messages of four bytes into which an interrupt handler has sent two bytes.\<close>

lemma sample_mq:
  "\<exists>mq p fs. rt_mq_init 0 4096 CHR ''?'' 2 24 RT_IPC_FLAG_FIFO sample_kernel = (sample_kernel, mq) \<and> mq_rep mq [] (p # fs) {}
     \<and> msg_size mq = 4 \<and> mq_id mq = 0 \<and> mq_flag mq = RT_IPC_FLAG_FIFO \<and> mq_entry mq = 0"
proof -
  obtain k' mq where r: "rt_mq_init 0 4096 CHR ''?'' 2 24 RT_IPC_FLAG_FIFO sample_kernel = (k', mq)" by (metis surj_pair)
  have q: "queues sample_kernel (WaitQ 0) = []" "queues sample_kernel (SenderQ 0) = []" by (simp_all add: sample_kernel_def)
  have k': "k' = sample_kernel" using mq_fresh_ok(1) [OF sample_kernel_kinv q _ r] by simp
  have b: "(4096 :: ptr) \<noteq> RT_NULL" by simp
  note i = rt_mq_init_rep [OF r b]
  have m: "msg_size mq = 4" "max_msgs mq = 3" using i(5,6) by (simp_all add: RT_ALIGN4_def)
  obtain fs where fs: "mq_rep mq [] fs {}" using i(1) by blast
  then have "length fs = 3" using mq_repD(10) [OF fs] m(2) by simp
  then obtain p fs' where "fs = p # fs'" by (cases fs) auto
  then show ?thesis using fs r k' i(3,4,7) m(1) by blast
qed

lemma sample_mq_sent:
  "\<exists>st mq p fs m. mq_run st ([] @ [Linked m]) (sample_kernel, mq, Map.empty) \<and> mq_rep mq [p] fs {} \<and> queued mq = [m] \<and> take 2 m = ''ok''"
proof -
  obtain mq p fs where mq: "rt_mq_init 0 4096 CHR ''?'' 2 24 RT_IPC_FLAG_FIFO sample_kernel = (sample_kernel, mq)" "mq_rep mq [] (p # fs) {}"
    "msg_size mq = 4" "mq_id mq = 0" using sample_mq by blast
  have q: "queues sample_kernel (WaitQ 0) = []" "queues sample_kernel (SenderQ 0) = []" by (simp_all add: sample_kernel_def)
  have sz: "(2 :: nat) \<noteq> 0" "2 \<le> msg_size mq" "2 \<le> length ''ok''" using mq(3) by simp_all
  obtain mq' where s: "rt_mq_send mq ''ok'' 2 sample_kernel = Inr (Return RT_EOK (wake_first (WaitQ (mq_id mq)) sample_kernel, mq'))"
    "mq_rep mq' ([] @ [p]) fs {}" "block_data mq' = (block_data mq)(p := take 2 ''ok'' @ drop 2 (block_data mq p))"
    using rt_mq_send_law [OF mq(2) sz] by metis
  have w: "wake_first (WaitQ (mq_id mq)) sample_kernel = sample_kernel" using mq(4) q by (simp add: wake_first_def)
  have m: "queued mq' = [take 2 ''ok'' @ drop 2 (block_data mq p)]" using queued_rep [OF s(2)] s(3) by simp
  have b: "(4096 :: ptr) \<noteq> RT_NULL" by simp
  have "mq_run (sample_kernel, mq, Map.empty) ([] @ [Linked (last (queued mq'))]) (sample_kernel, mq', Map.empty)"
    by (rule mq_run.step [OF mq_run.fresh [OF sample_kernel_kinv q b mq(1)] mq_step.isr_sent [OF sz(3)]]) (use s(1) w in simp)
  then show ?thesis using s(2) m by fastforce
qed

theorem mq_delivers_in_order_witness:
  "\<exists>mq m. mq_replay [Linked m] [] = Some (queued mq) \<and> queued mq = [m] \<and> take 2 m = ''ok'' \<and> length (queued mq) \<le> max_msgs mq"
proof -
  obtain st mq p fs m where r: "mq_run st ([] @ [Linked m]) (sample_kernel, mq, Map.empty)" "queued mq = [m]" "take 2 m = ''ok''"
    using sample_mq_sent by blast
  show ?thesis using mq_delivers_in_order [OF r(1)] r(2,3) by (intro exI [of _ mq] exI [of _ m]) simp
qed



text \<open>Two threads wait for a message and one is sent: the first has been woken, the second still waits.\<close>

lemma mq_recv_blocks:
  assumes inv: "kinv k" and run: "running k" and lock: "lock_nest k = 0" and e: "mq_entry mq = 0" "mq_flag mq = RT_IPC_FLAG_FIFO"
  shows "\<exists>k'. mq_recv_call None mq 4 (- 1) 0 k = Inr (Block (k', mq)) \<and> kinv k' \<and> lock_nest k' = 0
    \<and> queues k' (WaitQ (mq_id mq)) = queues k (WaitQ (mq_id mq)) @ [rt_current_thread k]
    \<and> (stat (threads k u) = RT_THREAD_READY \<longrightarrow> running k' \<and> rt_current_thread k' \<noteq> rt_current_thread k)"
  using wait_forever [OF inv run lock, of "mq_id mq" u] lock e
  by (auto simp: mq_recv_call_def mq_recv_begin_def mq_recv_loop_def Let_def)

theorem mq_no_lost_wakeup_witness:
  "\<exists>st es k mq pend t b n timeout. mq_run st es (k, mq, pend) \<and> queues k (WaitQ (mq_id mq)) \<noteq> [] \<and> mq_entry mq = 1
     \<and> pend t = Some (MRecv b n timeout) \<and> awake k t"
proof -
  let ?k = sample_kernel and ?b = "replicate 4 NUL"
  obtain mq p fs where mq: "rt_mq_init 0 4096 CHR ''?'' 2 24 RT_IPC_FLAG_FIFO ?k = (?k, mq)" "mq_rep mq [] (p # fs) {}"
    "msg_size mq = 4" "mq_id mq = 0" "mq_flag mq = RT_IPC_FLAG_FIFO" "mq_entry mq = 0" using sample_mq by blast
  have q: "queues ?k (WaitQ 0) = []" "queues ?k (SenderQ 0) = []" "rt_current_thread ?k = 1" "lock_nest ?k = 0" "running ?k"
    "stat (threads ?k 2) = RT_THREAD_READY" by (simp_all add: sample_kernel_def sample_thread_def running_def)
  obtain k1 where 1: "mq_recv_call None mq 4 (- 1) 0 ?k = Inr (Block (k1, mq))" "kinv k1" "lock_nest k1 = 0" "queues k1 (WaitQ 0) = [1]"
    "running k1" "rt_current_thread k1 \<noteq> 1"
    using mq_recv_blocks [OF sample_kernel_kinv q(5,4) mq(6,5), of 2] q mq(4) by auto
  obtain k2 where 2: "mq_recv_call None mq 4 (- 1) 0 k1 = Inr (Block (k2, mq))" "kinv k2" "queues k2 (WaitQ 0) = [1, rt_current_thread k1]"
    using mq_recv_blocks [OF 1(2,5,3) mq(6,5)] 1(4) mq(4) by auto
  have b: "(4096 :: ptr) \<noteq> RT_NULL" by simp
  let ?p1 = "Map.empty(1 \<mapsto> MRecv ?b 4 (time_left (None :: mq_pending option) (- 1) 0))"
  note r0 = mq_run.fresh [OF sample_kernel_kinv q(1,2) b mq(1)]
  have r1: "mq_step (?k, mq, Map.empty) MQuiet (k1, mq, ?p1)"
    using mq_step.recv_block [of ?k 1 Map.empty ?b 4 "- 1" mq 0 k1 mq] 1(1) q(3,5) by simp
  obtain p2 where r2: "mq_step (k1, mq, ?p1) MQuiet (k2, mq, p2)"
    using mq_step.recv_block [of k1 "rt_current_thread k1" ?p1 ?b 4 "- 1" mq 0 k2 mq] 1(5,6) 2(1) by auto
  have sz: "(2 :: nat) \<noteq> 0" "2 \<le> msg_size mq" "2 \<le> length ''ok''" using mq(3) by simp_all
  obtain mq' where s: "rt_mq_send mq ''ok'' 2 k2 = Inr (Return RT_EOK (wake_first (WaitQ (mq_id mq)) k2, mq'))"
    "mq_rep mq' ([] @ [p]) fs {}" "mq_id mq' = mq_id mq" using rt_mq_send_law [OF mq(2) sz] by metis
  let ?k3 = "wake_first (WaitQ 0) k2"
  have r3: "mq_step (k2, mq, p2) (Linked (last (queued mq'))) (?k3, mq', p2)"
    by (rule mq_step.isr_sent [OF sz(3)]) (use s(1) mq(4) in simp)
  note run = mq_run.step [OF mq_run.step [OF mq_run.step [OF r0 r1] r2] r3]
  have w: "queues ?k3 (WaitQ 0) = [rt_current_thread k1]" using wake_first_kinv(2) [OF 2(2), of "WaitQ 0" "WaitQ 0"] 2(3) by simp
  have e: "mq_entry mq' = 1" "mq_id mq' = 0" using mq_repD(9) [OF s(2)] s(3) mq(4) by simp_all
  have "queues ?k3 (WaitQ (mq_id mq')) \<noteq> [] \<and> mq_entry mq' > 0" using w e by simp
  then obtain t c n timeout where "p2 t = Some (MRecv c n timeout)" "awake ?k3 t" using mq_no_lost_wakeup [OF run] by blast
  then show ?thesis using run w e by (metis list.distinct(1))
qed

end
