(* ===== verification/App_Heap.thy ===== *)
theory App_Heap
  imports Smem Klist Common_Paths
begin

text \<open>
  The system heap of \<^verbatim>\<open>rt-thread/src/kservice.c\<close> as the application uses it: \<open>rt_malloc\<close>, \<open>rt_free\<close>, \<open>rt_calloc\<close>
  and \<open>rt_strdup\<close> on the small memory allocator, together with what the application keeps in the
  blocks it has been given: strings, image nodes and list nodes. \<open>app_ok\<close> says that the allocator
  is consistent and that everything the application knows is in a block in use or outside
  the heap, so that a new block is never known already.
\<close>

section \<open>State and operations\<close>

text \<open>\<open>struct image_node\<close> without its list node, which has the address of the image node.\<close>

record image_node =
  ipath :: ptr
  iformat :: ptr

text \<open>
  \<open>junk\<close> is the byte found in new memory, \<open>self_name\<close> the name of the running thread, which the
  allocator records, and \<open>oom\<close> tells whether an allocation has failed.
\<close>

record app_mem =
  heap :: small_mem
  strs :: "ptr \<rightharpoonup> char list"
  inodes :: "ptr \<rightharpoonup> image_node"
  lists :: list_heap
  junk :: char
  self_name :: string
  oom :: bool

definition rt_malloc :: "nat \<Rightarrow> app_mem \<Rightarrow> (ptr \<times> app_mem) cres" where
  "rt_malloc n s = cbind (rt_smem_alloc (self_name s) (heap s) n) (\<lambda>(p, m).
     Inr (p, s\<lparr>heap := m, oom := (oom s \<or> p = RT_NULL)\<rparr>))"

text \<open>What was in a released block is gone: a later access to it is a fault.\<close>

definition rt_free :: "ptr \<Rightarrow> app_mem \<Rightarrow> app_mem cres" where
  "rt_free p s = cbind (rt_smem_free (heap s) p) (\<lambda>m.
     Inr (s\<lparr>heap := m, strs := (strs s)(p := None), inodes := (inodes s)(p := None),
            lists := \<lparr>nx = (nx (lists s))(p := None), pv = (pv (lists s))(p := None)\<rparr>\<rparr>))"

definition rt_calloc :: "nat \<Rightarrow> nat \<Rightarrow> app_mem \<Rightarrow> (ptr \<times> app_mem) cres" where
  "rt_calloc cnt sz s =
     (let n = (cnt * sz) mod 2 ^ 32
      in cbind (rt_malloc n s) (\<lambda>(p, s).
         if p \<noteq> RT_NULL
         then cbind (rt_memset (replicate n (junk s)) 0 0 n) (\<lambda>a. Inr (p, s\<lparr>strs := (strs s)(p \<mapsto> a)\<rparr>))
         else Inr (p, s)))"

text \<open>The argument is the bytes from the pointer on, \<open>None\<close> for \<open>RT_NULL\<close>.\<close>

definition rt_strdup :: "char list option \<Rightarrow> app_mem \<Rightarrow> (ptr \<times> app_mem) cres" where
  "rt_strdup src s =
     cbind (deref src) (\<lambda>a. cbind (rt_strlen a) (\<lambda>n.
       let len = (n + 1) mod 2 ^ 32
       in cbind (rt_malloc len s) (\<lambda>(p, s).
          if p = RT_NULL then Inr (RT_NULL, s)
          else cbind (memcpy_arrays (replicate len (junk s)) 0 a 0 len) (\<lambda>b. Inr (p, s\<lparr>strs := (strs s)(p \<mapsto> b)\<rparr>)))))"

text \<open>The bytes a pointer points to.\<close>

definition str_at :: "app_mem \<Rightarrow> ptr \<Rightarrow> char list option cres" where
  "str_at s p = (if p = RT_NULL then Inr None else case strs s p of None \<Rightarrow> Inl WildDeref | Some a \<Rightarrow> Inr (Some a))"

section \<open>The range of the heap\<close>

lemma smem_live_range:
  assumes "smem_inv m" "(p, l) \<in> smem_live m"
  shows "heap_ptr m + 16 \<le> p" "p < heap_ptr m + heap_end m"
  using smem_liveD [OF assms] by auto

lemma smem_alloc_range:
  assumes "smem_inv m" "0 < n" "n \<le> 2 ^ 32 - 4" "rt_smem_alloc self m n = Inr (p, m')"
  shows "heap_ptr m' = heap_ptr m \<and> heap_end m' = heap_end m"
  using rt_smem_alloc_refines [of m "heap_blocks m" n self] assms by (auto simp: smem_inv_def split: option.splits)

lemma smem_free_range:
  assumes "smem_inv m" "(p, l) \<in> smem_live m" "rt_smem_free m p = Inr m'"
  shows "heap_ptr m' = heap_ptr m \<and> heap_end m' = heap_end m"
proof -
  obtain xs n ys where "heap_blocks m = xs @ (n, True) # ys" "p = heap_ptr m + endpos 0 xs + 16"
    using smem_liveD [OF assms(1,2)] by blast
  then show ?thesis using rt_smem_free_refines [of m xs n ys] assms by (auto simp: smem_inv_def)
qed

text \<open>An allocator whose blocks stay inside a fixed range of addresses.\<close>

locale ranged_allocator = allocator +
  fixes region :: "'a \<Rightarrow> nat set"
  assumes live_region: "inv s \<Longrightarrow> (p, l) \<in> live s \<Longrightarrow> p \<in> region s"
    and alloc_region: "inv s \<Longrightarrow> 0 < n \<Longrightarrow> n \<le> limit \<Longrightarrow> alloc s n = Inr (p, s') \<Longrightarrow> region s' = region s"
    and free_region: "inv s \<Longrightarrow> (p, l) \<in> live s \<Longrightarrow> free s p = Inr s' \<Longrightarrow> region s' = region s"
begin

lemma live_unique: "inv s \<Longrightarrow> (p, l) \<in> live s \<Longrightarrow> (p, l') \<in> live s \<Longrightarrow> l = l'"
  using live_apart [of s "(p, l)" "(p, l')"] live_pos [of s p l] live_pos [of s p l'] by (auto simp: apart_def)

lemma alloc_addrs:
  assumes inv: "inv s" "0 < n" "n \<le> limit" and c: "\<forall>q \<in> A. q \<in> fst ` live s \<or> q \<notin> region s"
  shows "\<exists>p s'. alloc s n = Inr (p, s') \<and> inv s' \<and> region s' = region s \<and>
    (p = RT_NULL \<and> s' = s \<or> p \<noteq> RT_NULL \<and> p \<in> region s \<and> p \<notin> A \<and> p \<notin> fst ` live s \<and> fst ` live s' = insert p (fst ` live s))"
proof -
  obtain p s' where r: "alloc s n = Inr (p, s')" "inv s'"
    "p = RT_NULL \<and> s' = s \<or> p \<noteq> RT_NULL \<and> (\<exists>l. n \<le> l \<and> live s' = insert (p, l) (live s) \<and> (\<forall>b \<in> live s. apart (p, l) b))"
    using alloc_law [OF inv] by blast
  have reg: "region s' = region s" by (rule alloc_region [OF inv r(1)])
  show ?thesis
  proof (cases "p = RT_NULL")
    case True
    then show ?thesis using r reg by blast
  next
    case False
    then obtain l where l: "n \<le> l" "live s' = insert (p, l) (live s)" "\<forall>b \<in> live s. apart (p, l) b" using r(3) by blast
    have new: "p \<notin> fst ` live s"
    proof
      assume "p \<in> fst ` live s"
      then obtain l' where "(p, l') \<in> live s" by auto
      then show False using l(1,3) live_pos [OF inv(1), of p l'] inv(2) by (auto simp: apart_def)
    qed
    have pr: "p \<in> region s" using live_region [OF r(2), of p l] l(2) reg by simp
    have pA: "p \<notin> A" using c new pr by blast
    have live: "fst ` live s' = insert p (fst ` live s)" using l(2) by simp
    show ?thesis
      by (intro exI [of _ p] exI [of _ s'] conjI disjI2) (rule r(1) r(2) reg False pr pA new live)+
  qed
qed

lemma free_addrs:
  assumes inv: "inv s" and p: "p \<in> fst ` live s"
  shows "\<exists>s'. free s p = Inr s' \<and> inv s' \<and> region s' = region s \<and> fst ` live s' = fst ` live s - {p}"
proof -
  obtain l where l: "(p, l) \<in> live s" using p by auto
  obtain s' where s': "free s p = Inr s'" "inv s'" "live s' = live s - {(p, l)}" using free_law [OF inv l] by blast
  have "fst ` live s' = fst ` live s - {p}"
  proof (intro equalityI subsetI)
    fix q assume "q \<in> fst ` live s'"
    then obtain j where "(q, j) \<in> live s'" by auto
    then have j: "(q, j) \<in> live s" "(q, j) \<noteq> (p, l)" using s'(3) by auto
    then have "q \<noteq> p" using live_unique [OF inv l] by auto
    then show "q \<in> fst ` live s - {p}" using j(1) by force
  next
    fix q assume "q \<in> fst ` live s - {p}"
    then obtain j where "(q, j) \<in> live s" "q \<noteq> p" by auto
    then show "q \<in> fst ` live s'" unfolding s'(3) by force
  qed
  then show ?thesis using s' free_region [OF inv l s'(1)] by blast
qed

end

definition heap_region :: "small_mem \<Rightarrow> nat set" where
  "heap_region m = {heap_ptr m + 16 ..< heap_ptr m + heap_end m}"

interpretation sysheap: ranged_allocator smem_inv smem_live "rt_smem_alloc self" rt_smem_free "2 ^ 32 - 4" heap_region
proof
  show "smem_inv s \<Longrightarrow> (p, l) \<in> smem_live s \<Longrightarrow> p \<in> heap_region s" for s p l
    using smem_live_range [of s p l] by (simp add: heap_region_def)
  show "smem_inv s \<Longrightarrow> 0 < n \<Longrightarrow> n \<le> 2 ^ 32 - 4 \<Longrightarrow> rt_smem_alloc self s n = Inr (p, s') \<Longrightarrow> heap_region s' = heap_region s" for s n p s'
    using smem_alloc_range [of s n self p s'] by (simp add: heap_region_def)
  show "smem_inv s \<Longrightarrow> (p, l) \<in> smem_live s \<Longrightarrow> rt_smem_free s p = Inr s' \<Longrightarrow> heap_region s' = heap_region s" for s p l s'
    using smem_free_range [of s p l s'] by (simp add: heap_region_def)
qed

end
