(* ===== verification/Image_Node.thy ===== *)
theory Image_Node
  imports App_Heap
begin

text \<open>
  The image nodes of \<^verbatim>\<open>applications/image_node.c\<close>: each owns a copy of its path and of its format. Creating
  a node allocates three blocks, destroying it releases exactly these.
\<close>

section \<open>Operations\<close>

text \<open>\<open>rt_calloc(sizeof(image_node_t), 1)\<close> and its zeroed block seen as an image node.\<close>

definition as_image_node :: "ptr \<Rightarrow> app_mem \<Rightarrow> app_mem" where
  "as_image_node p s = s\<lparr>strs := (strs s)(p := None), inodes := (inodes s)(p \<mapsto> \<lparr>ipath = RT_NULL, iformat = RT_NULL\<rparr>),
     lists := \<lparr>nx = (nx (lists s))(p \<mapsto> RT_NULL), pv = (pv (lists s))(p \<mapsto> RT_NULL)\<rparr>\<rparr>"

definition set_path :: "ptr \<Rightarrow> ptr \<Rightarrow> app_mem \<Rightarrow> app_mem" where
  "set_path p q s = s\<lparr>inodes := (inodes s)(p := map_option (\<lambda>i. i\<lparr>ipath := q\<rparr>) (inodes s p))\<rparr>"

definition set_format :: "ptr \<Rightarrow> ptr \<Rightarrow> app_mem \<Rightarrow> app_mem" where
  "set_format p q s = s\<lparr>inodes := (inodes s)(p := map_option (\<lambda>i. i\<lparr>iformat := q\<rparr>) (inodes s p))\<rparr>"

definition image_node_create2 :: "char list option \<Rightarrow> char list option \<Rightarrow> app_mem \<Rightarrow> (ptr \<times> app_mem) cres" where
  "image_node_create2 path format s =
     (if path = None then Inr (RT_NULL, s)
      else cbind (rt_calloc 16 1 s) (\<lambda>(p, s).
        if p = RT_NULL then Inr (RT_NULL, s)
        else cbind (rt_strdup path (as_image_node p s)) (\<lambda>(q, s).
             let s = set_path p q s
             in cbind (rt_strdup format s) (\<lambda>(f, s).
                let s = set_format p f s
                in cbind (set_next (lists s) p RT_NULL) (\<lambda>h. cbind (set_prev h p RT_NULL) (\<lambda>h.
                   Inr (p, s\<lparr>lists := h\<rparr>)))))))"

definition image_node_create :: "char list option \<Rightarrow> app_mem \<Rightarrow> (ptr \<times> app_mem) cres" where
  "image_node_create path s =
     (if path = None then Inr (RT_NULL, s)
      else cbind (path_get_ext path) (\<lambda>ext. image_node_create2 path ext s))"

definition image_node_copy :: "ptr \<Rightarrow> app_mem \<Rightarrow> (ptr \<times> app_mem) cres" where
  "image_node_copy node s =
     (if node = RT_NULL then Inr (RT_NULL, s)
      else case inodes s node of None \<Rightarrow> Inl WildDeref
      | Some i \<Rightarrow> cbind (str_at s (ipath i)) (\<lambda>path. cbind (str_at s (iformat i)) (\<lambda>format.
                  image_node_create2 path format s)))"

definition image_node_destroy :: "ptr \<Rightarrow> app_mem \<Rightarrow> app_mem cres" where
  "image_node_destroy node s =
     (if node = RT_NULL then Inr s
      else case inodes s node of None \<Rightarrow> Inl WildDeref
      | Some i \<Rightarrow> cbind (rt_free (ipath i) s) (\<lambda>s. cbind (rt_free (iformat i) s) (\<lambda>s. rt_free node s)))"

section \<open>The application's view of the heap\<close>

text \<open>The addresses of the blocks in use.\<close>

definition haddrs :: "app_mem \<Rightarrow> ptr set" where
  "haddrs s = fst ` smem_live (heap s)"

lemma haddrs_cong: "heap s' = heap s \<Longrightarrow> haddrs s' = haddrs s"
  by (simp add: haddrs_def)

definition objs :: "app_mem \<Rightarrow> ptr set" where
  "objs s = dom (strs s) \<union> dom (inodes s) \<union> dom (nx (lists s)) \<union> dom (pv (lists s))"

definition app_ok :: "app_mem \<Rightarrow> bool" where
  "app_ok s \<longleftrightarrow> smem_inv (heap s) \<and> RT_NULL \<notin> objs s \<and> (\<forall>p \<in> objs s. p \<in> haddrs s \<or> p \<notin> heap_region (heap s))"

text \<open>Everything but the allocator.\<close>

definition same_view :: "app_mem \<Rightarrow> app_mem \<Rightarrow> bool" where
  "same_view s s' \<longleftrightarrow> strs s' = strs s \<and> inodes s' = inodes s \<and> lists s' = lists s \<and> junk s' = junk s \<and> self_name s' = self_name s"

lemma rt_malloc_ok:
  assumes ok: "app_ok s" and n: "0 < n" "n \<le> 2 ^ 32 - 4"
  shows "\<exists>p s'. rt_malloc n s = Inr (p, s') \<and> app_ok s' \<and> same_view s s' \<and> heap_region (heap s') = heap_region (heap s) \<and>
    (p = RT_NULL \<and> oom s' \<and> haddrs s' = haddrs s \<or>
     p \<noteq> RT_NULL \<and> oom s' = oom s \<and> p \<notin> objs s \<and> p \<notin> haddrs s \<and> p \<in> heap_region (heap s) \<and> haddrs s' = insert p (haddrs s))"
proof -
  have inv: "smem_inv (heap s)" and c: "\<forall>p \<in> objs s. p \<in> haddrs s \<or> p \<notin> heap_region (heap s)" and z: "RT_NULL \<notin> objs s"
    using ok by (auto simp: app_ok_def)
  obtain p m where r: "rt_smem_alloc (self_name s) (heap s) n = Inr (p, m)" "smem_inv m" "heap_region m = heap_region (heap s)"
    "p = RT_NULL \<and> m = heap s \<or> p \<noteq> RT_NULL \<and> p \<in> heap_region (heap s) \<and> p \<notin> objs s \<and> p \<notin> haddrs s
       \<and> fst ` smem_live m = insert p (haddrs s)"
    using sysheap.alloc_addrs [OF inv n c [unfolded haddrs_def], of "self_name s"] unfolding haddrs_def by blast
  let ?s = "s\<lparr>heap := m, oom := (oom s \<or> p = RT_NULL)\<rparr>"
  have o: "objs ?s = objs s" by (simp add: objs_def)
  have h: "haddrs ?s = (if p = RT_NULL then haddrs s else insert p (haddrs s))" using r(4) by (auto simp: haddrs_def)
  have "app_ok ?s" unfolding app_ok_def o h using r(2-4) c z by auto
  moreover have "rt_malloc n s = Inr (p, ?s)" using r(1) by (simp add: rt_malloc_def)
  moreover have "same_view s ?s" by (simp add: same_view_def)
  ultimately show ?thesis using r(3,4) h by (intro exI [of _ p] exI [of _ ?s]) auto
qed

text \<open>An allocation gives a block that was not known, or fails, marks \<open>oom\<close> and changes nothing else.\<close>

definition allocated :: "app_mem \<Rightarrow> ptr \<Rightarrow> app_mem \<Rightarrow> bool" where
  "allocated s p s' \<longleftrightarrow> app_ok s' \<and> heap_region (heap s') = heap_region (heap s) \<and> junk s' = junk s \<and> self_name s' = self_name s \<and>
    (p = RT_NULL \<and> oom s' \<and> haddrs s' = haddrs s \<or>
     p \<noteq> RT_NULL \<and> oom s' = oom s \<and> p \<notin> objs s \<and> p \<notin> haddrs s \<and> haddrs s' = insert p (haddrs s))"

lemma rt_malloc_allocated:
  assumes "app_ok s" "0 < n" "n \<le> 2 ^ 32 - 4"
  obtains p s' where "rt_malloc n s = Inr (p, s')" "allocated s p s'" "same_view s s'"
  using rt_malloc_ok [OF assms] unfolding allocated_def same_view_def by blast

text \<open>Writing to a block in use.\<close>

lemma app_ok_upd:
  assumes "app_ok s" "heap s' = heap s" "objs s' \<subseteq> insert p (objs s)" "p \<in> haddrs s" "p \<noteq> RT_NULL"
  shows "app_ok s'"
  using assms haddrs_cong [of s' s] by (auto simp: app_ok_def)

lemma allocated_upd:
  assumes "allocated s p s'" "p \<noteq> RT_NULL" "objs t \<subseteq> insert p (objs s')" "heap t = heap s'" "junk t = junk s'"
    "self_name t = self_name s'" "oom t = oom s'"
  shows "allocated s p t"
  using assms app_ok_upd [of s' t p] haddrs_cong [of t s'] by (auto simp: allocated_def)

lemma same_view_objs: "same_view s s' \<Longrightarrow> objs s' = objs s"
  by (simp add: same_view_def objs_def)

lemma rt_calloc_allocated:
  assumes ok: "app_ok s" and n: "0 < cnt * sz" "cnt * sz \<le> 2 ^ 32 - 4"
  obtains p s' where "rt_calloc cnt sz s = Inr (p, s')" "allocated s p s'"
    "inodes s' = inodes s" "lists s' = lists s"
    "strs s' = (if p = RT_NULL then strs s else (strs s)(p \<mapsto> replicate (cnt * sz) NUL))"
proof -
  obtain p s1 where m: "rt_malloc (cnt * sz) s = Inr (p, s1)" "allocated s p s1" "same_view s s1"
    using rt_malloc_allocated [OF ok n] .
  have wrap: "(cnt * sz) mod 2 ^ 32 = cnt * sz" using n(2) by (intro mod_less) simp
  show ?thesis
  proof (cases "p = RT_NULL")
    case True
    then show ?thesis using that [of p s1] m wrap by (simp add: rt_calloc_def same_view_def)
  next
    case False
    let ?t = "s1\<lparr>strs := (strs s1)(p \<mapsto> replicate (cnt * sz) NUL)\<rparr>"
    have z: "rt_memset (replicate (cnt * sz) c) 0 0 (cnt * sz) = Inr (replicate (cnt * sz) NUL)" for c
      by (simp add: rt_memset_overlay overlay_def char_of_def)
    have "rt_calloc cnt sz s = Inr (p, ?t)" using False m(1) wrap z by (simp add: rt_calloc_def)
    moreover have "allocated s p ?t" by (rule allocated_upd [OF m(2) False]) (auto simp: objs_def)
    ultimately show ?thesis using that [of p ?t] m(3) False by (simp add: same_view_def)
  qed
qed

lemma memcpy_arrays_fresh:
  "memcpy_arrays (replicate (Suc (length t)) c) 0 (cstr t r) 0 (Suc (length t)) = Inr (cstr t [])"
  by (simp add: memcpy_arrays_def cstr_def overlay_def)

lemma rt_strdup_allocated:
  assumes ok: "app_ok s" and t: "NUL \<notin> set t" "length t + 1 \<le> 2 ^ 32 - 4"
  obtains p s' where "rt_strdup (Some (cstr t r)) s = Inr (p, s')" "allocated s p s'"
    "inodes s' = inodes s" "lists s' = lists s"
    "strs s' = (if p = RT_NULL then strs s else (strs s)(p \<mapsto> cstr t []))"
proof -
  obtain p s1 where m: "rt_malloc (length t + 1) s = Inr (p, s1)" "allocated s p s1" "same_view s s1"
    using rt_malloc_allocated [OF ok _ t(2)] by auto
  have wrap: "(length t + 1) mod 2 ^ 32 = length t + 1" using t(2) by (intro mod_less) simp
  show ?thesis
  proof (cases "p = RT_NULL")
    case True
    then show ?thesis using that [of p s1] m wrap t(1) by (simp add: rt_strdup_def same_view_def)
  next
    case False
    let ?t = "s1\<lparr>strs := (strs s1)(p \<mapsto> cstr t [])\<rparr>"
    have "rt_strdup (Some (cstr t r)) s = Inr (p, ?t)"
      using False m(1) wrap t(1) memcpy_arrays_fresh [of t "junk s1" r] by (simp add: rt_strdup_def)
    moreover have "allocated s p ?t" by (rule allocated_upd [OF m(2) False]) (auto simp: objs_def)
    ultimately show ?thesis using that [of p ?t] m(3) False by (simp add: same_view_def)
  qed
qed

lemma rt_free_ok:
  assumes ok: "app_ok s" and p: "p \<in> haddrs s"
  obtains s' where "rt_free p s = Inr s'" "app_ok s'" "haddrs s' = haddrs s - {p}" "heap_region (heap s') = heap_region (heap s)"
    "strs s' = (strs s)(p := None)" "inodes s' = (inodes s)(p := None)"
    "nx (lists s') = (nx (lists s))(p := None)" "pv (lists s') = (pv (lists s))(p := None)"
    "junk s' = junk s" "self_name s' = self_name s" "oom s' = oom s"
proof -
  have inv: "smem_inv (heap s)" using ok by (simp add: app_ok_def)
  obtain m where m: "rt_smem_free (heap s) p = Inr m" "smem_inv m" "heap_region m = heap_region (heap s)" "fst ` smem_live m = haddrs s - {p}"
    using sysheap.free_addrs [OF inv p [unfolded haddrs_def]] unfolding haddrs_def by blast
  let ?s = "s\<lparr>heap := m, strs := (strs s)(p := None), inodes := (inodes s)(p := None),
    lists := \<lparr>nx = (nx (lists s))(p := None), pv = (pv (lists s))(p := None)\<rparr>\<rparr>"
  have o: "objs ?s = objs s - {p}" by (auto simp: objs_def)
  have h: "haddrs ?s = haddrs s - {p}" using m(4) by (simp add: haddrs_def)
  have "app_ok ?s" unfolding app_ok_def o h using m(2,3) ok by (auto simp: app_ok_def)
  moreover have "rt_free p s = Inr ?s" using m(1) by (simp add: rt_free_def)
  ultimately show ?thesis using that [of ?s] m(3) h by simp
qed

lemma rt_free_null:
  assumes "app_ok s"
  shows "rt_free RT_NULL s = Inr s"
proof -
  have u: "f RT_NULL = None \<Longrightarrow> f(RT_NULL := None) = f" for f :: "ptr \<rightharpoonup> 'a" by (metis fun_upd_triv)
  have "strs s RT_NULL = None" "inodes s RT_NULL = None" "nx (lists s) RT_NULL = None" "pv (lists s) RT_NULL = None"
    using assms by (auto simp: app_ok_def objs_def)
  then show ?thesis by (simp add: rt_free_def rt_smem_free_def u)
qed

section \<open>Creating and destroying a node\<close>

text \<open>The blocks of a node, and the texts it shows: \<open>RT_NULL\<close> stands for a copy for which there was no memory.\<close>

definition owned :: "app_mem \<Rightarrow> ptr \<Rightarrow> ptr set" where
  "owned s p = (case inodes s p of None \<Rightarrow> {} | Some i \<Rightarrow> {p, ipath i, iformat i} - {RT_NULL})"

definition shows_text :: "app_mem \<Rightarrow> ptr \<Rightarrow> string \<Rightarrow> bool" where
  "shows_text s q t \<longleftrightarrow> (if q = RT_NULL then oom s else strs s q = Some (cstr t []))"

definition image_at :: "app_mem \<Rightarrow> ptr \<Rightarrow> string \<Rightarrow> string \<Rightarrow> bool" where
  "image_at s p path format \<longleftrightarrow> p \<noteq> RT_NULL \<and> (case inodes s p of None \<Rightarrow> False
     | Some i \<Rightarrow> shows_text s (ipath i) path \<and> shows_text s (iformat i) format
         \<and> ipath i \<noteq> p \<and> iformat i \<noteq> p \<and> (ipath i = iformat i \<longrightarrow> ipath i = RT_NULL))"

definition node_created :: "app_mem \<Rightarrow> ptr \<Rightarrow> string \<Rightarrow> string \<Rightarrow> app_mem \<Rightarrow> bool" where
  "node_created s p path format s' \<longleftrightarrow> app_ok s' \<and> image_at s' p path format
     \<and> haddrs s' = haddrs s \<union> owned s' p \<and> owned s' p \<inter> (haddrs s \<union> objs s) = {}
     \<and> strs s \<subseteq>\<^sub>m strs s' \<and> inodes s' = (inodes s)(p := inodes s' p)
     \<and> nx (lists s') = (nx (lists s))(p \<mapsto> RT_NULL) \<and> pv (lists s') = (pv (lists s))(p \<mapsto> RT_NULL)
     \<and> heap_region (heap s') = heap_region (heap s) \<and> (oom s \<longrightarrow> oom s')"

lemma allocated_ok: "allocated s p s' \<Longrightarrow> app_ok s'"
  by (simp add: allocated_def)

lemma app_ok_relabel:
  "app_ok s \<Longrightarrow> heap s' = heap s \<Longrightarrow> objs s' = objs s \<Longrightarrow> app_ok s'"
  by (simp add: app_ok_def haddrs_def)

lemma set_path_simps [simp]:
  "heap (set_path p q s) = heap s" "strs (set_path p q s) = strs s" "lists (set_path p q s) = lists s" "oom (set_path p q s) = oom s"
  "inodes (set_path p q s) = (inodes s)(p := map_option (\<lambda>i. i\<lparr>ipath := q\<rparr>) (inodes s p))" "objs (set_path p q s) = objs s"
  by (auto simp: set_path_def objs_def dom_def)

lemma set_format_simps [simp]:
  "heap (set_format p q s) = heap s" "strs (set_format p q s) = strs s" "lists (set_format p q s) = lists s" "oom (set_format p q s) = oom s"
  "inodes (set_format p q s) = (inodes s)(p := map_option (\<lambda>i. i\<lparr>iformat := q\<rparr>) (inodes s p))" "objs (set_format p q s) = objs s"
  by (auto simp: set_format_def objs_def dom_def)

text \<open>The three allocations of a node, and what each of them finds.\<close>

lemma image_node_create2_run:
  assumes ok: "app_ok s" and t: "NUL \<notin> set t" "length t + 1 \<le> 2 ^ 32 - 4" and f: "NUL \<notin> set f" "length f + 1 \<le> 2 ^ 32 - 4"
  obtains (failed) s' where "image_node_create2 (Some (cstr t r)) (Some (cstr f r')) s = Inr (RT_NULL, s')"
      "allocated s RT_NULL s'" "strs s' = strs s" "inodes s' = inodes s" "lists s' = lists s"
  | (created) p s1 q s2 g s3 s' where "image_node_create2 (Some (cstr t r)) (Some (cstr f r')) s = Inr (p, s')"
      "p \<noteq> RT_NULL" "allocated s p s1" "allocated s1 q s2" "allocated s2 g s3" "objs s1 = insert p (objs s)"
      "objs s2 = (if q = RT_NULL then objs s1 else insert q (objs s1))" "heap s' = heap s3" "oom s' = oom s3" "app_ok s'"
      "strs s1 = strs s" "strs s2 = (if q = RT_NULL then strs s1 else (strs s1)(q \<mapsto> cstr t []))"
      "strs s' = (if g = RT_NULL then strs s2 else (strs s2)(g \<mapsto> cstr f []))"
      "inodes s' = (inodes s)(p \<mapsto> \<lparr>ipath = q, iformat = g\<rparr>)"
      "nx (lists s') = (nx (lists s))(p \<mapsto> RT_NULL)" "pv (lists s') = (pv (lists s))(p \<mapsto> RT_NULL)"
proof -
  obtain p s0 where c: "rt_calloc 16 1 s = Inr (p, s0)" "allocated s p s0" "inodes s0 = inodes s" "lists s0 = lists s"
    "strs s0 = (if p = RT_NULL then strs s else (strs s)(p \<mapsto> replicate (16 * 1) NUL))"
    using rt_calloc_allocated [OF ok, of 16 1] by auto
  show ?thesis
  proof (cases "p = RT_NULL")
    case True
    then show ?thesis using c failed [of s0] by (simp add: image_node_create2_def)
  next
    case False
    have new: "p \<notin> objs s" and p: "p \<in> haddrs s0" using c(2) False by (auto simp: allocated_def)
    let ?s1 = "as_image_node p s0"
    have st1: "strs ?s1 = strs s" using c(5) False new by (auto simp: as_image_node_def objs_def)
    have o1: "objs ?s1 = insert p (objs s)" using c(3-5) False by (auto simp: as_image_node_def objs_def)
    have a1: "allocated s p ?s1"
      using c(2-5) False o1 by (intro allocated_upd [OF c(2) False]) (auto simp: as_image_node_def objs_def)
    obtain q s2 where d: "rt_strdup (Some (cstr t r)) ?s1 = Inr (q, s2)" "allocated ?s1 q s2" "inodes s2 = inodes ?s1" "lists s2 = lists ?s1"
      "strs s2 = (if q = RT_NULL then strs ?s1 else (strs ?s1)(q \<mapsto> cstr t []))"
      using rt_strdup_allocated [OF allocated_ok [OF a1] t] .
    let ?s2 = "set_path p q s2"
    have ok2: "app_ok ?s2" by (rule app_ok_relabel [OF allocated_ok [OF d(2)]]) simp_all
    obtain g s3 where e: "rt_strdup (Some (cstr f r')) ?s2 = Inr (g, s3)" "allocated ?s2 g s3" "inodes s3 = inodes ?s2" "lists s3 = lists ?s2"
      "strs s3 = (if g = RT_NULL then strs ?s2 else (strs ?s2)(g \<mapsto> cstr f []))"
      using rt_strdup_allocated [OF ok2 f] .
    let ?h = "\<lparr>nx = (nx (lists s))(p \<mapsto> RT_NULL), pv = (pv (lists s))(p \<mapsto> RT_NULL)\<rparr>"
    let ?s3 = "set_format p g s3\<lparr>lists := ?h\<rparr>"
    have l3: "lists s3 = ?h" using e(4) d(4) c(4) by (simp add: as_image_node_def)
    have run: "image_node_create2 (Some (cstr t r)) (Some (cstr f r')) s = Inr (p, ?s3)"
      using c(1) False d(1) e(1) l3 by (simp add: image_node_create2_def Let_def)
    have a2: "allocated ?s1 q ?s2"
      using d(2) ok2 by (simp add: allocated_def set_path_def haddrs_def)
    have ok3: "app_ok ?s3"
      by (rule app_ok_relabel [OF allocated_ok [OF e(2)]]) (auto simp: l3 objs_def dom_def)
    have o2: "objs ?s2 = (if q = RT_NULL then objs ?s1 else insert q (objs ?s1))"
      using d(3-5) by (auto simp: objs_def)
    show ?thesis
      by (rule created [of p ?s3 ?s1 q ?s2 g s3])
        (use run False a1 a2 e(2,3,5) o1 o2 ok3 st1 d(3,5) c(3) in \<open>auto simp: as_image_node_def\<close>)
  qed
qed

lemma live_not_null: "app_ok s \<Longrightarrow> RT_NULL \<notin> haddrs s"
  using smem_live_range(1) [of "heap s" RT_NULL] by (auto simp: app_ok_def haddrs_def)

lemma three_blocks:
  "H1 = insert p H \<Longrightarrow> p \<noteq> 0 \<Longrightarrow> q = 0 \<and> H2 = H1 \<or> q \<noteq> 0 \<and> H2 = insert q H1 \<Longrightarrow> g = 0 \<and> H3 = H2 \<or> g \<noteq> 0 \<and> H3 = insert g H2 \<Longrightarrow>
   H3 = H \<union> ({p, q, g} - {0})" for p q g :: ptr
  by auto

lemma three_fresh:
  "p \<notin> A \<Longrightarrow> q = 0 \<or> q \<notin> A \<Longrightarrow> g = 0 \<or> g \<notin> A \<Longrightarrow> ({p, q, g} - {0}) \<inter> A = {}" for p q g :: ptr
  by auto

lemma image_node_create2_ok:
  assumes ok: "app_ok s" and t: "NUL \<notin> set t" "length t + 1 \<le> 2 ^ 32 - 4" and f: "NUL \<notin> set f" "length f + 1 \<le> 2 ^ 32 - 4"
  obtains (failed) s' where "image_node_create2 (Some (cstr t r)) (Some (cstr f r')) s = Inr (RT_NULL, s')"
      "allocated s RT_NULL s'" "strs s' = strs s" "inodes s' = inodes s" "lists s' = lists s"
  | (created) p s' where "image_node_create2 (Some (cstr t r)) (Some (cstr f r')) s = Inr (p, s')" "node_created s p t f s'"
  using ok t f
proof (cases rule: image_node_create2_run [where r = r and r' = r'])
  case (failed s')
  then show ?thesis by (rule that(1))
next
  case (created p s1 q s2 g s3 s')
  let ?i = "\<lparr>ipath = q, iformat = g\<rparr>"
  have i: "inodes s' p = Some ?i" using created(14) by simp
  have own: "owned s' p = {p, q, g} - {RT_NULL}" by (simp add: owned_def i)
  have pn: "p \<notin> haddrs s \<union> objs s" "haddrs s1 = insert p (haddrs s)" "oom s1 = oom s"
    using created(2,3) by (auto simp: allocated_def)
  have qn: "q = RT_NULL \<and> oom s2 \<and> haddrs s2 = haddrs s1 \<or> q \<noteq> RT_NULL \<and> oom s2 = oom s1 \<and> q \<notin> objs s1 \<and> q \<notin> haddrs s1 \<and> haddrs s2 = insert q (haddrs s1)"
    using created(4) by (auto simp: allocated_def)
  have gn: "g = RT_NULL \<and> oom s3 \<and> haddrs s3 = haddrs s2 \<or> g \<noteq> RT_NULL \<and> oom s3 = oom s2 \<and> g \<notin> objs s2 \<and> g \<notin> haddrs s2 \<and> haddrs s3 = insert g (haddrs s2)"
    using created(5) by (auto simp: allocated_def)
  have h: "haddrs s' = haddrs s3" using created(8) by (rule haddrs_cong)
  have live: "haddrs s' = haddrs s \<union> owned s' p" 
  proof -
    have "q = RT_NULL \<and> haddrs s2 = haddrs s1 \<or> q \<noteq> RT_NULL \<and> haddrs s2 = insert q (haddrs s1)"
      "g = RT_NULL \<and> haddrs s3 = haddrs s2 \<or> g \<noteq> RT_NULL \<and> haddrs s3 = insert g (haddrs s2)"
      using qn gn by (elim disjE conjE; simp)+
    then show ?thesis unfolding own h by (rule three_blocks [OF pn(2) created(2)])
  qed
  have fresh: "owned s' p \<inter> (haddrs s \<union> objs s) = {}"
  proof -
    have "q = RT_NULL \<or> q \<notin> haddrs s \<union> objs s" using qn pn(2) created(6) by (elim disjE conjE) simp_all
    moreover have "g = RT_NULL \<or> g \<notin> haddrs s \<union> objs s"
      using gn qn pn(2) created(6,7) by (elim disjE conjE) simp_all
    ultimately show ?thesis unfolding own by (rule three_fresh [OF pn(1)])
  qed
  have np: "q \<noteq> p" "g \<noteq> p" "q = g \<longrightarrow> q = RT_NULL"
    using qn gn created(2) pn(2) by (elim disjE conjE; simp; fail | elim disjE conjE; force)+
  have st: "strs s' = (if g = RT_NULL then strs s2 else (strs s2)(g \<mapsto> cstr f []))"
    "strs s2 = (if q = RT_NULL then strs s else (strs s)(q \<mapsto> cstr t []))"
    using created(11-13) by simp_all
  have shown: "shows_text s' q t" "shows_text s' g f"
    using st np qn gn created(9) by (auto simp: shows_text_def)
  have img: "image_at s' p t f" using created(2) i shown np by (simp add: image_at_def)
  have "q \<notin> dom (strs s) \<or> q = RT_NULL" "g \<notin> dom (strs s2) \<or> g = RT_NULL"
    using qn gn created(6) by (auto simp: objs_def)
  then have le: "strs s \<subseteq>\<^sub>m strs s'" using st by (auto simp: map_le_def)
  have rest: "inodes s' = (inodes s)(p := inodes s' p)" "heap_region (heap s') = heap_region (heap s)" "oom s \<longrightarrow> oom s'"
    using created(3-5,8,9,14) qn gn pn(3) by (auto simp: allocated_def)
  have "node_created s p t f s'"
    unfolding node_created_def using created(10,15,16) img live fresh le rest by blast
  then show ?thesis using that(2) created(1) by blast
qed

lemma extension_le: "set (extension t) \<subseteq> set t" "length (extension t) \<le> length t"
  using set_takeWhileD [of _ "\<lambda>c. c \<noteq> CHR ''.''" "rev t"] length_takeWhile_le [of "\<lambda>c. c \<noteq> CHR ''.''" "rev t"]
  by (auto simp: extension_def)

text \<open>The same for \<open>image_node_create\<close>, which takes the format from the path.\<close>

lemma image_node_create_ok:
  assumes ok: "app_ok s" and t: "NUL \<notin> set t" "CHR ''.'' \<in> set t" "length t + 1 \<le> 2 ^ 32 - 4"
  obtains (failed) s' where "image_node_create (Some (cstr t r)) s = Inr (RT_NULL, s')"
      "allocated s RT_NULL s'" "strs s' = strs s" "inodes s' = inodes s" "lists s' = lists s"
  | (created) p s' where "image_node_create (Some (cstr t r)) s = Inr (p, s')" "node_created s p t (extension t) s'"
proof -
  obtain b where b: "t = b @ CHR ''.'' # extension t" "CHR ''.'' \<notin> set (extension t)" using extension_split [OF t(2)] by blast
  have e: "path_get_ext (Some (cstr t r)) = Inr (Some (cstr (extension t) r))"
    using path_get_ext_found [of b "extension t" r] b t(1) by simp
  have f: "NUL \<notin> set (extension t)" "length (extension t) + 1 \<le> 2 ^ 32 - 4"
    using extension_le [of t] t(1,3) by auto
  have run: "image_node_create (Some (cstr t r)) s = image_node_create2 (Some (cstr t r)) (Some (cstr (extension t) r)) s"
    using e by (simp add: image_node_create_def)
  show ?thesis using ok t(1,3) f
    by (rule image_node_create2_ok [where r = r and r' = r]) (use run that in auto)
qed

text \<open>Releasing the blocks \<open>B\<close> takes them off the heap and forgets what was in them.\<close>

definition released :: "app_mem \<Rightarrow> ptr set \<Rightarrow> app_mem \<Rightarrow> bool" where
  "released s B s' \<longleftrightarrow> app_ok s' \<and> haddrs s' = haddrs s - B \<and> heap_region (heap s') = heap_region (heap s) \<and> oom s' = oom s
     \<and> strs s' = strs s |` (- B) \<and> inodes s' = inodes s |` (- B)
     \<and> nx (lists s') = nx (lists s) |` (- B) \<and> pv (lists s') = pv (lists s) |` (- B)"

lemma restrict_compl1: "f |` (- {p}) = f(p := None)"
  by (auto simp: restrict_map_def)

lemma rt_free_released:
  assumes ok: "app_ok s" and p: "p = RT_NULL \<or> p \<in> haddrs s"
  obtains s' where "rt_free p s = Inr s'" "released s {p} s'"
proof (cases "p = RT_NULL")
  case True
  have u: "f RT_NULL = None \<Longrightarrow> f(RT_NULL := None) = f" for f :: "ptr \<rightharpoonup> 'a" by (metis fun_upd_triv)
  have "strs s RT_NULL = None" "inodes s RT_NULL = None" "nx (lists s) RT_NULL = None" "pv (lists s) RT_NULL = None"
    using ok by (auto simp: app_ok_def objs_def)
  moreover have "RT_NULL \<notin> haddrs s" by (rule live_not_null [OF ok])
  ultimately have "released s {p} s" using ok True by (simp add: released_def restrict_compl1 u)
  then show ?thesis using that rt_free_null [OF ok] True by blast
next
  case False
  then have "p \<in> haddrs s" using p by simp
  then show ?thesis using that by (rule rt_free_ok [OF ok]) (simp_all add: released_def restrict_compl1)
qed

lemma released_trans:
  assumes "released s A s'" "released s' B s''"
  shows "released s (A \<union> B) s''"
proof -
  have "- A \<inter> - B = - (A \<union> B)" "haddrs s - A - B = haddrs s - (A \<union> B)" by auto
  then show ?thesis using assms by (simp add: released_def)
qed

lemma diff_null: "z \<notin> A \<Longrightarrow> A - (B - {z}) = A - B"
  by auto

lemma released_null:
  assumes "app_ok s" "released s B s'"
  shows "released s (B - {RT_NULL}) s'"
proof -
  have r: "f RT_NULL = None \<Longrightarrow> f |` insert RT_NULL (- B) = f |` (- B)" for f :: "ptr \<rightharpoonup> 'a"
    by (auto simp: restrict_map_def)
  have "strs s RT_NULL = None" "inodes s RT_NULL = None" "nx (lists s) RT_NULL = None" "pv (lists s) RT_NULL = None"
    using assms(1) by (auto simp: app_ok_def objs_def)
  moreover have "haddrs s - (B - {RT_NULL}) = haddrs s - B"
    using live_not_null [OF assms(1)] by (rule diff_null)
  ultimately show ?thesis using assms(2) by (simp add: released_def r)
qed

lemma image_node_destroy_ok:
  assumes ok: "app_ok s" and im: "image_at s p t f" and own: "owned s p \<subseteq> haddrs s"
  obtains s' where "image_node_destroy p s = Inr s'" "released s (owned s p) s'"
proof -
  obtain i where i: "p \<noteq> RT_NULL" "inodes s p = Some i" "ipath i \<noteq> p" "iformat i \<noteq> p" "ipath i = iformat i \<longrightarrow> ipath i = RT_NULL"
    using im by (auto simp: image_at_def split: option.splits)
  have o: "owned s p = {p, ipath i, iformat i} - {RT_NULL}" using i(2) by (simp add: owned_def)
  have h: "p \<in> haddrs s" "ipath i = RT_NULL \<or> ipath i \<in> haddrs s" "iformat i = RT_NULL \<or> iformat i \<in> haddrs s"
    using own i(1) unfolding o by (simp_all add: subset_iff) (metis gr0I)+
  obtain s1 where s1: "rt_free (ipath i) s = Inr s1" "released s {ipath i} s1" using rt_free_released [OF ok h(2)] .
  have l1: "haddrs s1 = haddrs s - {ipath i}" "app_ok s1" using s1(2) by (simp_all add: released_def)
  have "iformat i = RT_NULL \<or> iformat i \<in> haddrs s1" using h(3) i(5) unfolding l1(1) by auto
  then obtain s2 where s2: "rt_free (iformat i) s1 = Inr s2" "released s1 {iformat i} s2" using rt_free_released [OF l1(2)] by blast
  have l2: "haddrs s2 = haddrs s1 - {iformat i}" "app_ok s2" using s2(2) by (simp_all add: released_def)
  have "p = RT_NULL \<or> p \<in> haddrs s2" using h(1) i(3,4) unfolding l2(1) l1(1) by simp
  then obtain s3 where s3: "rt_free p s2 = Inr s3" "released s2 {p} s3" using rt_free_released [OF l2(2)] by blast
  have "released s ({ipath i} \<union> {iformat i} \<union> {p}) s3"
    by (rule released_trans [OF released_trans [OF s1(2) s2(2)] s3(2)])
  then have "released s (owned s p) s3"
    unfolding o using released_null [OF ok, of "{p, ipath i, iformat i}" s3] by (simp add: insert_commute)
  moreover have "image_node_destroy p s = Inr s3"
    using i(1,2) s1(1) s2(1) s3(1) by (simp add: image_node_destroy_def)
  ultimately show ?thesis using that by blast
qed

section \<open>Properties\<close>

text \<open>C40: creating a node for a path with a dot returns. It gives \<open>RT_NULL\<close> when memory has run out, or a node
  that owns copies of the path and of the text after its last dot (a copy for which there was no memory is
  \<open>RT_NULL\<close>) in blocks nobody knew; destroying the node returns and gives back exactly those
  blocks, and nothing else of the application's memory has changed.\<close>

theorem image_node_roundtrip:
  assumes "app_ok s" and "NUL \<notin> set t" and "CHR ''.'' \<in> set t" and "length t + 1 \<le> 2 ^ 32 - 4"
  shows "\<exists>p s'. image_node_create (Some (cstr t r)) s = Inr (p, s') \<and> app_ok s' \<and> strs s \<subseteq>\<^sub>m strs s' \<and>
    (p = RT_NULL \<and> oom s' \<and> haddrs s' = haddrs s \<or>
     image_at s' p t (extension t) \<and> owned s' p \<inter> haddrs s = {} \<and> haddrs s' = haddrs s \<union> owned s' p \<and>
     (\<exists>s''. image_node_destroy p s' = Inr s'' \<and> app_ok s'' \<and> haddrs s'' = haddrs s \<and> strs s \<subseteq>\<^sub>m strs s'' \<and> inodes s'' = inodes s \<and> lists s'' = lists s))"
  using assms
proof (cases rule: image_node_create_ok [where r = r])
  case (failed s')
  then show ?thesis by (auto simp: allocated_def)
next
  case (created p s')
  note c = created(2) [unfolded node_created_def]
  have sub: "owned s' p \<subseteq> haddrs s'" using c by simp
  obtain s'' where d: "image_node_destroy p s' = Inr s''" "released s' (owned s' p) s''"
    using c sub by (elim conjE) (rule image_node_destroy_ok)
  have p: "p \<in> owned s' p" using c by (auto simp: image_at_def owned_def split: option.splits)
  have h: "haddrs s'' = haddrs s"
  proof -
    have "haddrs s'' = (haddrs s \<union> owned s' p) - owned s' p" using d(2) c by (simp add: released_def)
    then show ?thesis using c by (metis Int_Un_distrib Un_Diff_cancel2 Un_Diff Diff_cancel Diff_triv Un_empty inf_commute sup_bot_right)
  qed
  have o: "owned s' p \<inter> objs s = {}" "owned s' p \<inter> haddrs s = {}" using c by (simp_all add: Int_Un_distrib)
  have u: "dom f \<subseteq> objs s \<Longrightarrow> f(p := v) |` (- owned s' p) = f" for f :: "ptr \<rightharpoonup> 'b" and v
    using o(1) p by (intro ext) (auto simp: restrict_map_def disjoint_iff subset_iff domIff eq_commute [of None])
  have st: "strs s \<subseteq>\<^sub>m strs s''"
    using c d(2) o(1) by (auto simp: released_def map_le_def restrict_map_def objs_def)
  have dm: "dom (inodes s) \<subseteq> objs s" "dom (nx (lists s)) \<subseteq> objs s" "dom (pv (lists s)) \<subseteq> objs s"
    by (auto simp: objs_def)
  have i: "inodes s'' = inodes s"
    using d(2) c u [OF dm(1), of "inodes s' p"] unfolding released_def by metis
  have l: "nx (lists s'') = nx (lists s)" "pv (lists s'') = pv (lists s)"
    using d(2) c u [OF dm(2), of "Some RT_NULL"] u [OF dm(3), of "Some RT_NULL"] unfolding released_def by metis+
  show ?thesis
    using created(1) c d h st i l o(2) by (intro exI [of _ p] exI [of _ s'] conjI disjI2 exI [of _ s'']) (simp_all add: released_def)
qed

text \<open>An application with nothing but the empty list with head 64, and with \<open>p\<close> in a block outside the heap.\<close>

definition app_example :: "small_mem \<Rightarrow> string \<Rightarrow> app_mem" where
  "app_example m t = \<lparr>heap = m, strs = [128 \<mapsto> cstr t []], inodes = Map.empty, lists = \<lparr>nx = [64 \<mapsto> 64], pv = [64 \<mapsto> 64]\<rparr>,
     junk = CHR ''?'', self_name = ''scan'', oom = False\<rparr>"

lemma app_example_ok: "\<exists>m. rt_smem_init 4096 1024 = Some m \<and> (\<forall>t. app_ok (app_example m t))"
proof -
  obtain m where m: "rt_smem_init 4096 1024 = Some m" "heap_inv m [(944, False)]" "heap_ptr m = 4160" "heap_end m = 944"
    using example_heap by blast
  have "smem_inv m" using m(2) heap_blocks_eq [OF m(2)] by (simp add: smem_inv_def)
  then have "app_ok (app_example m t)" for t
    using m(3,4) by (auto simp: app_ok_def app_example_def objs_def heap_region_def)
  then show ?thesis using m(1) by blast
qed

theorem image_node_roundtrip_witness:
  "\<exists>m p s'. rt_smem_init 4096 1024 = Some m
     \<and> image_node_create (Some (cstr ''/sd/a.png'' [])) (app_example m []) = Inr (p, s') \<and> app_ok s'"
proof -
  obtain m where m: "rt_smem_init 4096 1024 = Some m" "app_ok (app_example m [])" using app_example_ok by blast
  have "\<exists>p s'. image_node_create (Some (cstr ''/sd/a.png'' [])) (app_example m []) = Inr (p, s') \<and> app_ok s'"
    using image_node_roundtrip [OF m(2), of "''/sd/a.png''" "[]"] by auto
  then show ?thesis using m(1) by blast
qed

text \<open>For a path without a dot, \<open>image_node_create\<close> passes \<open>RT_NULL\<close> to \<open>rt_strdup\<close>, which dereferences it, unless
  there is no memory for the node in the first place.\<close>

theorem image_node_create_no_dot:
  assumes "app_ok s" and "NUL \<notin> set t" and "CHR ''.'' \<notin> set t" and "length t + 1 \<le> 2 ^ 32 - 4"
  shows "image_node_create (Some (cstr t r)) s = Inl NullDeref
    \<or> (\<exists>s'. image_node_create (Some (cstr t r)) s = Inr (RT_NULL, s') \<and> oom s')"
proof -
  obtain p s0 where c: "rt_calloc 16 1 s = Inr (p, s0)" "allocated s p s0" "inodes s0 = inodes s" "lists s0 = lists s"
    "strs s0 = (if p = RT_NULL then strs s else (strs s)(p \<mapsto> replicate (16 * 1) NUL))"
    using rt_calloc_allocated [OF assms(1), of 16 1] by auto
  have e: "path_get_ext (Some (cstr t r)) = Inr None" by (rule path_get_ext_none [OF assms(2,3)])
  show ?thesis
  proof (cases "p = RT_NULL")
    case True
    then show ?thesis using c(1,2) e by (simp add: image_node_create_def image_node_create2_def allocated_def)
  next
    case False
    then have s0: "p \<in> haddrs s0" "app_ok s0" using c(2) by (auto simp: allocated_def)
    have ok: "app_ok (as_image_node p s0)"
      by (rule app_ok_upd [OF s0(2) _ _ s0(1) False]) (auto simp: as_image_node_def objs_def)
    obtain q s1 where "rt_strdup (Some (cstr t r)) (as_image_node p s0) = Inr (q, s1)"
      using rt_strdup_allocated [OF ok assms(2,4)] .
    then have "image_node_create (Some (cstr t r)) s = Inl NullDeref"
      using e c(1) False by (simp add: image_node_create_def image_node_create2_def Let_def rt_strdup_def)
    then show ?thesis by blast
  qed
qed

theorem image_node_create_no_dot_witness:
  "\<exists>m s. rt_smem_init 4096 1024 = Some m \<and> s = app_example m [] \<and>
     (image_node_create (Some (cstr ''/sd/README'' [])) s = Inl NullDeref
      \<or> (\<exists>s'. image_node_create (Some (cstr ''/sd/README'' [])) s = Inr (RT_NULL, s') \<and> oom s'))"
proof -
  obtain m where m: "rt_smem_init 4096 1024 = Some m" "app_ok (app_example m [])" using app_example_ok by blast
  show ?thesis using image_node_create_no_dot [OF m(2), of "''/sd/README''" "[]"] m(1) by simp
qed

end
