(* ===== verification/Image_Scaner.thy ===== *)
theory Image_Scaner
  imports Image_Node Common_Lists "HOL-Library.Sublist"
begin

text \<open>
  The directory scan of \<^verbatim>\<open>applications/image_scaner.c\<close> on the application's heap. What the file systems
  answer is the parameter \<open>dfs\<close>: the entries of a directory, or \<open>None\<close> where there is none. The pure function
  \<open>images\<close> says which paths a scan has to find; the theorems say that the scan finds them in this order,
  that it releases all its temporary blocks, and how many levels of recursion it needs.
\<close>

section \<open>Directories\<close>

record dirent =
  d_type :: u8
  d_namlen :: u8
  d_name :: "char list"

definition DT_REG :: u8 where "DT_REG = 1"
definition DT_DIR :: u8 where "DT_DIR = 2"

definition ctext :: "char list \<Rightarrow> string" where
  "ctext a = takeWhile (\<lambda>c. c \<noteq> NUL) a"

text \<open>\<open>opendir\<close> takes the 524 bytes of a \<open>DIR\<close> from the heap, \<open>closedir\<close> gives them back; the entries are what
  \<open>readdir\<close> returns one after the other. \<open>opendir(RT_NULL)\<close> fails the assertion of \<open>dfs_normalize_path\<close>.\<close>

type_synonym file_systems = "string \<Rightarrow> dirent list option"

definition opendir :: "file_systems \<Rightarrow> char list option \<Rightarrow> app_mem \<Rightarrow> (ptr \<times> dirent list \<times> app_mem) cres" where
  "opendir dfs name s =
     (case name of None \<Rightarrow> Inl AssertFail
      | Some a \<Rightarrow> (case dfs (ctext a) of None \<Rightarrow> Inr (RT_NULL, [], s)
                   | Some es \<Rightarrow> cbind (rt_malloc 524 s) (\<lambda>(t, s). Inr (t, es, s))))"

definition closedir :: "ptr \<Rightarrow> app_mem \<Rightarrow> app_mem cres" where
  "closedir d s = rt_free d s"

text \<open>\<open>path_join\<close> with its block from the heap.\<close>

definition path_join_heap :: "char list option \<Rightarrow> char list option \<Rightarrow> nat \<Rightarrow> app_mem \<Rightarrow> (ptr \<times> app_mem) cres" where
  "path_join_heap dir file file_len s =
     (case (dir, file) of
        (Some d, Some f) \<Rightarrow>
          cbind (rt_strlen d) (\<lambda>dir_len.
          cbind (rt_malloc ((dir_len + 1 + file_len + 1) mod 2 ^ 32) s) (\<lambda>(p, s).
          cbind (path_join (\<lambda>n. if p = RT_NULL then None else Some (replicate n (junk s))) dir file file_len) (\<lambda>r.
          case r of None \<Rightarrow> Inr (RT_NULL, s) | Some a \<Rightarrow> Inr (p, s\<lparr>strs := (strs s)(p \<mapsto> a)\<rparr>))))
      | _ \<Rightarrow> Inr (RT_NULL, s))"

section \<open>The scan\<close>

text \<open>The branch for a regular file; \<open>scaning\<close> is the address of the scaner's \<open>scaning_list\<close>.\<close>

definition scan_file :: "ptr \<Rightarrow> ptr \<Rightarrow> app_mem \<Rightarrow> app_mem cres" where
  "scan_file scaning sub s =
     cbind (str_at s sub) (\<lambda>sub_path. cbind (path_is_image sub_path) (\<lambda>b.
       if b then cbind (image_node_create sub_path s) (\<lambda>(img_node, s).
              if img_node \<noteq> RT_NULL
              then cbind (rt_list_insert_before (lists s) scaning img_node) (\<lambda>h. Inr (s\<lparr>lists := h\<rparr>))
              else Inr s)
       else Inr s))"

definition is_dot :: "dirent \<Rightarrow> bool cres" where
  "is_dot e = cbind (rt_strcmp (d_name e) (cstr ''.'' [])) (\<lambda>r.
     if r = 0 then Inr True else cbind (rt_strcmp (d_name e) (cstr ''..'' [])) (\<lambda>r. Inr (r = 0)))"

text \<open>\<open>scaner_scan\<close> and its loop over the entries; the fuel bounds the depth of the recursion.\<close>

fun scaner_scan :: "nat \<Rightarrow> file_systems \<Rightarrow> ptr \<Rightarrow> ptr \<Rightarrow> app_mem \<Rightarrow> app_mem cres"
and scan_loop :: "nat \<Rightarrow> file_systems \<Rightarrow> ptr \<Rightarrow> ptr \<Rightarrow> dirent list \<Rightarrow> app_mem \<Rightarrow> app_mem cres" where
  "scaner_scan 0 dfs scaning cur s = Inl OutOfFuel"
| "scaner_scan (Suc fuel) dfs scaning cur s =
     cbind (str_at s cur) (\<lambda>cur_path. cbind (opendir dfs cur_path s) (\<lambda>(dir, es, s).
       if dir = RT_NULL \<or> cur = RT_NULL then Inr s
       else cbind (scan_loop fuel dfs scaning cur es s) (\<lambda>s. closedir dir s)))"
| "scan_loop fuel dfs scaning cur [] s = Inr s"
| "scan_loop fuel dfs scaning cur (e # es) s =
     cbind (is_dot e) (\<lambda>skip.
       if skip then scan_loop fuel dfs scaning cur es s
       else cbind (str_at s cur) (\<lambda>cur_path.
            cbind (path_join_heap cur_path (Some (d_name e)) (unat (d_namlen e)) s) (\<lambda>(sub, s).
            if sub = RT_NULL then Inr s
            else cbind (if d_type e = DT_DIR then scaner_scan fuel dfs scaning sub s
                        else if d_type e = DT_REG then scan_file scaning sub s
                        else Inr s) (\<lambda>s.
                 cbind (rt_free sub s) (\<lambda>s. scan_loop fuel dfs scaning cur es s)))))"

section \<open>What a scan has to find\<close>

definition entry_path :: "string \<Rightarrow> dirent \<Rightarrow> string" where
  "entry_path p e = p @ ''/'' @ ctext (d_name e)"

definition dot_entry :: "dirent \<Rightarrow> bool" where
  "dot_entry e \<longleftrightarrow> ctext (d_name e) = ''.'' \<or> ctext (d_name e) = ''..''"

definition image_path :: "string \<Rightarrow> bool" where
  "image_path p \<longleftrightarrow> extension p = ''jpg'' \<or> extension p = ''png''"

text \<open>The images below a directory, to a depth, in the order of the entries.\<close>

fun images :: "nat \<Rightarrow> file_systems \<Rightarrow> string \<Rightarrow> string list" where
  "images 0 dfs p = []"
| "images (Suc k) dfs p = (case dfs p of None \<Rightarrow> [] | Some es \<Rightarrow>
     concat (map (\<lambda>e. if dot_entry e then []
                      else if d_type e = DT_DIR then images k dfs (entry_path p e)
                      else if d_type e = DT_REG \<and> image_path (entry_path p e) then [entry_path p e]
                      else []) es))"

text \<open>A tree of a depth below the bound whose entries are terminated names with their lengths, and whose regular
  files have a dot somewhere in their paths.\<close>

fun tree_ok :: "nat \<Rightarrow> file_systems \<Rightarrow> string \<Rightarrow> bool" where
  "tree_ok 0 dfs p \<longleftrightarrow> False"
| "tree_ok (Suc k) dfs p \<longleftrightarrow> (case dfs p of None \<Rightarrow> True | Some es \<Rightarrow>
     (\<forall>e \<in> set es. NUL \<in> set (d_name e) \<and> unat (d_namlen e) = length (ctext (d_name e))
        \<and> (dot_entry e \<or> length (entry_path p e) + 1 \<le> 2 ^ 32 - 4
             \<and> (d_type e = DT_DIR \<longrightarrow> tree_ok k dfs (entry_path p e))
             \<and> (d_type e = DT_REG \<longrightarrow> CHR ''.'' \<in> set (entry_path p e)))))"

section \<open>Names and paths\<close>

lemma ctext_no_nul [simp]: "NUL \<notin> set (ctext a)"
  by (auto simp: ctext_def dest: set_takeWhileD)

lemma ctext_cstr [simp]: "NUL \<notin> set t \<Longrightarrow> ctext (cstr t r) = t"
  unfolding ctext_def cstr_def by (subst takeWhile_append2) auto

lemma cstr_ctext: "NUL \<in> set a \<Longrightarrow> \<exists>r. a = cstr (ctext a) r"
  unfolding ctext_def cstr_def by (induction a) auto

lemma is_dot_ok:
  assumes "NUL \<in> set (d_name e)"
  shows "is_dot e = Inr (dot_entry e)"
proof -
  obtain r where r: "d_name e = cstr (ctext (d_name e)) r" using cstr_ctext [OF assms] by blast
  obtain a b where "rt_strcmp (d_name e) (cstr ''.'' []) = Inr a" "a = 0 \<longleftrightarrow> ctext (d_name e) = ''.''"
    "rt_strcmp (d_name e) (cstr ''..'' []) = Inr b" "b = 0 \<longleftrightarrow> ctext (d_name e) = ''..''"
    using rt_strcmp_cstr [of "ctext (d_name e)" "''.''" r "[]"] rt_strcmp_cstr [of "ctext (d_name e)" "''..''" r "[]"] r by auto
  then show ?thesis by (auto simp: is_dot_def dot_entry_def)
qed

lemma path_join_heap_ok:
  assumes ok: "app_ok s" and p: "NUL \<notin> set p" and f: "NUL \<notin> set f" and len: "length (p @ ''/'' @ f) + 1 \<le> 2 ^ 32 - 4"
  obtains q s' where "path_join_heap (Some (cstr p x)) (Some (cstr f y)) (length f) s = Inr (q, s')" "allocated s q s'"
    "inodes s' = inodes s" "lists s' = lists s"
    "strs s' = (if q = RT_NULL then strs s else (strs s)(q \<mapsto> cstr (p @ ''/'' @ f) []))"
proof -
  let ?n = "length p + length f + 2"
  have n: "0 < ?n" "?n \<le> 2 ^ 32 - 4" "(length p + 1 + length f + 1) mod 2 ^ 32 = ?n" using len by simp_all
  obtain q s1 where m: "rt_malloc ?n s = Inr (q, s1)" "allocated s q s1" "same_view s s1" using rt_malloc_allocated [OF ok n(1,2)] .
  show ?thesis
  proof (cases "q = RT_NULL")
    case True
    then have "path_join_heap (Some (cstr p x)) (Some (cstr f y)) (length f) s = Inr (q, s1)"
      using p m(1) n(3) by (simp add: path_join_heap_def path_join_def)
    then show ?thesis using that [of q s1] True m by (simp add: same_view_def)
  next
    case False
    let ?t = "s1\<lparr>strs := (strs s1)(q \<mapsto> cstr (p @ ''/'' @ f) [])\<rparr>"
    have "path_join (\<lambda>n. if q = RT_NULL then None else Some (replicate n (junk s1))) (Some (cstr p x)) (Some (cstr f y)) (length f)
        = Inr (Some (cstr (p @ ''/'' @ f) []))"
      using path_join_some [OF p f, of "length f" "\<lambda>n. if q = RT_NULL then None else Some (replicate n (junk s1))" _ x y] n False
      by (simp add: cstr_def)
    then have "path_join_heap (Some (cstr p x)) (Some (cstr f y)) (length f) s = Inr (q, ?t)"
      using p m(1) n(3) by (simp add: path_join_heap_def)
    moreover have "allocated s q ?t" by (rule allocated_upd [OF m(2) False]) (auto simp: objs_def)
    ultimately show ?thesis using that [of q ?t] m(3) False by (simp add: same_view_def)
  qed
qed

section \<open>The list grows\<close>

text \<open>The images \<open>zs\<close> are appended as the nodes \<open>ys\<close>; the blocks in use are those of before and those the new nodes own. The nodes
  of other lists are untouched.\<close>

definition list_nodes :: "app_mem \<Rightarrow> ptr set" where
  "list_nodes s = dom (nx (lists s)) \<union> dom (pv (lists s))"

definition untouched :: "ptr set \<Rightarrow> app_mem \<Rightarrow> app_mem \<Rightarrow> bool" where
  "untouched N s s' \<longleftrightarrow> (\<forall>a \<in> N. nx (lists s') a = nx (lists s) a \<and> pv (lists s') a = pv (lists s) a)"

definition grown :: "ptr \<Rightarrow> ptr list \<Rightarrow> app_mem \<Rightarrow> ptr list \<Rightarrow> string list \<Rightarrow> app_mem \<Rightarrow> bool" where
  "grown l xs s ys zs s' \<longleftrightarrow> app_ok s' \<and> clist (lists s') l (xs @ ys)
     \<and> strs s \<subseteq>\<^sub>m strs s' \<and> inodes s \<subseteq>\<^sub>m inodes s'
     \<and> haddrs s' = haddrs s \<union> (\<Union>y \<in> set ys. owned s' y) \<and> (\<Union>y \<in> set ys. owned s' y) \<inter> haddrs s = {}
     \<and> pairwise (\<lambda>a b. owned s' a \<inter> owned s' b = {}) (set ys)
     \<and> list_all2 (\<lambda>y z. image_at s' y z (extension z)) ys zs \<and> (oom s \<longrightarrow> oom s')
     \<and> (\<Union>y \<in> set ys. owned s' y) \<inter> objs s = {} \<and> untouched (list_nodes s - set (l # xs)) s s'"

lemma grownD:
  assumes "grown l xs s ys zs s'"
  shows "app_ok s'" "clist (lists s') l (xs @ ys)" "strs s \<subseteq>\<^sub>m strs s'" "inodes s \<subseteq>\<^sub>m inodes s'"
    "haddrs s' = haddrs s \<union> (\<Union>y \<in> set ys. owned s' y)" "(\<Union>y \<in> set ys. owned s' y) \<inter> haddrs s = {}"
    "pairwise (\<lambda>a b. owned s' a \<inter> owned s' b = {}) (set ys)"
    "list_all2 (\<lambda>y z. image_at s' y z (extension z)) ys zs" "oom s \<longrightarrow> oom s'"
    "(\<Union>y \<in> set ys. owned s' y) \<inter> objs s = {}" "untouched (list_nodes s - set (l # xs)) s s'"
  using assms by (simp_all add: grown_def)

lemma grown_refl: "app_ok s \<Longrightarrow> clist (lists s) l xs \<Longrightarrow> grown l xs s [] [] s"
  by (simp add: grown_def untouched_def)

lemma grown_failed:
  assumes "allocated s RT_NULL s'" "strs s' = strs s" "inodes s' = inodes s" "lists s' = lists s" "clist (lists s) l xs"
  shows "grown l xs s [] [] s'"
  using assms by (simp add: grown_def allocated_def untouched_def)

lemma map_leD: "f \<subseteq>\<^sub>m g \<Longrightarrow> f a = Some b \<Longrightarrow> g a = Some b"
  by (force simp: map_le_def)

lemma owned_mono: "inodes s \<subseteq>\<^sub>m inodes s' \<Longrightarrow> image_at s y z f \<Longrightarrow> owned s' y = owned s y"
  by (auto simp: owned_def image_at_def split: option.splits dest: map_leD)

lemma shows_text_mono:
  assumes "strs s \<subseteq>\<^sub>m strs s'" "oom s \<longrightarrow> oom s'" "shows_text s q t"
  shows "shows_text s' q t"
  using assms map_leD [OF assms(1), of q] by (auto simp: shows_text_def split: if_splits)

lemma image_at_mono:
  assumes "inodes s \<subseteq>\<^sub>m inodes s'" "strs s \<subseteq>\<^sub>m strs s'" "oom s \<longrightarrow> oom s'" "image_at s y z f"
  shows "image_at s' y z f"
proof -
  obtain i where i: "inodes s y = Some i" using assms(4) by (auto simp: image_at_def split: option.splits)
  then have "inodes s' y = Some i" using map_leD [OF assms(1)] by blast
  then show ?thesis
    using assms(4) i shows_text_mono [OF assms(2,3)] by (simp add: image_at_def)
qed

lemma list_all2_left: "list_all2 P xs ys \<Longrightarrow> x \<in> set xs \<Longrightarrow> \<exists>y. P x y"
  by (auto simp: list_all2_conv_all_nth in_set_conv_nth)

lemma clist_objs: "clist (lists s) l xs \<Longrightarrow> set (l # xs) \<subseteq> objs s"
  using clist_nodes [of "lists s" l xs] by (auto simp: node_at_def objs_def)

lemma image_at_self: "image_at s y z f \<Longrightarrow> y \<in> owned s y"
  by (auto simp: image_at_def owned_def split: option.splits)

lemma grown_objs:
  assumes "grown l xs s ys zs s'"
  shows "objs s \<subseteq> objs s'"
proof -
  note g = grownD [OF assms]
  have "list_nodes s - set (l # xs) \<subseteq> list_nodes s'" using g(11) by (auto simp: untouched_def list_nodes_def domIff)
  then have "list_nodes s \<subseteq> objs s'" using clist_objs [OF g(2)] by (auto simp: list_nodes_def objs_def)
  then show ?thesis using map_le_implies_dom_le [OF g(3)] map_le_implies_dom_le [OF g(4)] by (auto simp: objs_def list_nodes_def)
qed

lemma grown_new:
  assumes "grown l xs s ys zs s'"
  shows "set ys \<inter> objs s = {}"
proof -
  have "y \<in> owned s' y" if "y \<in> set ys" for y using list_all2_left [OF grownD(8) [OF assms] that] image_at_self by blast
  then show ?thesis using grownD(10) [OF assms] by auto
qed

lemma untouched_trans: "untouched A s s' \<Longrightarrow> untouched B s' s'' \<Longrightarrow> C \<subseteq> A \<Longrightarrow> C \<subseteq> B \<Longrightarrow> untouched C s s''"
  unfolding untouched_def by (metis subsetD)

lemma grown_trans:
  assumes ab: "grown l xs s ys zs s'" "grown l (xs @ ys) s' ys' zs' s''"
  shows "grown l xs s (ys @ ys') (zs @ zs') s''"
proof -
  note a = grownD [OF ab(1)] and b = grownD [OF ab(2)]
  have im: "list_all2 (\<lambda>y z. image_at s'' y z (extension z)) ys zs"
    using a(8) by (rule list_all2_mono) (rule image_at_mono [OF b(4,3,9)])
  have o: "owned s'' y = owned s' y" if "y \<in> set ys" for y
    using list_all2_left [OF a(8) that] owned_mono [OF b(4)] by blast
  have u: "(\<Union>y \<in> set ys. owned s'' y) = (\<Union>y \<in> set ys. owned s' y)" using o by simp
  have pw: "pairwise (\<lambda>a b. owned s'' a \<inter> owned s'' b = {}) (set (ys @ ys'))"
    using a(5,7) b(6,7) o unfolding pairwise_def by (simp add: ball_Un) blast
  have "haddrs s'' = haddrs s \<union> (\<Union>y \<in> set (ys @ ys'). owned s'' y)" using a(5) b(5) u by auto
  moreover have "(\<Union>y \<in> set (ys @ ys'). owned s'' y) \<inter> haddrs s = {}" using a(5,6) b(6) u by auto
  moreover have "(\<Union>y \<in> set (ys @ ys'). owned s'' y) \<inter> objs s = {}" using a(10) b(10) u grown_objs [OF ab(1)] by auto
  moreover have "untouched (list_nodes s - set (l # xs)) s s''"
  proof (rule untouched_trans [OF a(11) b(11)])
    have "list_nodes s - set (l # xs) \<subseteq> list_nodes s'" using a(11) by (auto simp: untouched_def list_nodes_def domIff)
    moreover have "list_nodes s \<subseteq> objs s" by (auto simp: list_nodes_def objs_def)
    ultimately show "list_nodes s - set (l # xs) \<subseteq> list_nodes s' - set (l # xs @ ys)" using grown_new [OF ab(1)] by auto
  qed simp
  ultimately show ?thesis
    unfolding grown_def using b(1,2) map_le_trans [OF a(3) b(3)] map_le_trans [OF a(4) b(4)] pw list_all2_appendI [OF im b(8)] a(9) b(9)
    by simp
qed

text \<open>A step between the allocation of a block and its release.\<close>

lemma image_at_free:
  assumes "inodes s' = (inodes s)(q := None)" "strs s' = (strs s)(q := None)" "oom s' = oom s" "image_at s y z f" "q \<notin> owned s y" "q \<noteq> RT_NULL"
  shows "image_at s' y z f" "owned s' y = owned s y"
  using assms by (auto simp: image_at_def owned_def shows_text_def split: option.splits if_splits)

lemma grown_within:
  assumes al: "allocated s q s1" and q: "q \<noteq> RT_NULL" and le: "strs s \<subseteq>\<^sub>m strs s1" "inodes s1 = inodes s" and li: "lists s1 = lists s"
    and cl: "clist (lists s) l xs" and gr: "grown l xs s1 ys zs s2"
  obtains s3 where "rt_free q s2 = Inr s3" "grown l xs s ys zs s3" "oom s3 = oom s2"
proof -
  note g = grownD [OF gr]
  have q1: "q \<notin> objs s" "q \<notin> haddrs s" "haddrs s1 = insert q (haddrs s)" "oom s1 = oom s"
    using al q by (auto simp: allocated_def)
  have q2: "q \<in> haddrs s2" using g(5) q1(3) by auto
  have qn: "q \<notin> (\<Union>y \<in> set ys. owned s2 y)" using g(6) q1(3) by auto
  obtain s3 where f: "rt_free q s2 = Inr s3" "app_ok s3" "haddrs s3 = haddrs s2 - {q}"
    "strs s3 = (strs s2)(q := None)" "inodes s3 = (inodes s2)(q := None)"
    "nx (lists s3) = (nx (lists s2))(q := None)" "pv (lists s3) = (pv (lists s2))(q := None)" "oom s3 = oom s2"
    using rt_free_ok [OF g(1) q2] by metis
  have im: "list_all2 (\<lambda>y z. image_at s2 y z (extension z) \<and> q \<notin> owned s2 y) ys zs"
    using g(8) qn by (auto simp: list_all2_conv_all_nth)
  then have im3: "list_all2 (\<lambda>y z. image_at s3 y z (extension z) \<and> owned s3 y = owned s2 y) ys zs"
    by (rule list_all2_mono) (use image_at_free [OF f(5,4,8) _ _ q] in blast)
  then have o: "\<forall>y \<in> set ys. owned s3 y = owned s2 y" by (auto simp: list_all2_conv_all_nth in_set_conv_nth)
  have y: "\<forall>y \<in> set ys. y \<in> owned s2 y"
    using list_all2_left [OF g(8)] image_at_self by blast
  have "q \<notin> set (l # xs @ ys)" using clist_objs [OF cl] q1(1) qn y by auto
  then have c3: "clist (lists s3) l (xs @ ys)"
    by (subst clist_cong [of l "xs @ ys" "lists s3" "lists s2"]) (use g(2) f(6,7) in auto)
  have le3: "strs s \<subseteq>\<^sub>m strs s3" "inodes s \<subseteq>\<^sub>m inodes s3"
    using map_le_trans [OF le(1) g(3)] g(4) le(2) q1(1) f(4,5) by (auto simp: map_le_def objs_def domIff)
  have "haddrs s3 = haddrs s \<union> (\<Union>y \<in> set ys. owned s3 y)"
    using f(3) g(5) q1(2,3) qn o by auto
  moreover have "(\<Union>y \<in> set ys. owned s3 y) \<inter> haddrs s = {}" "pairwise (\<lambda>a b. owned s3 a \<inter> owned s3 b = {}) (set ys)"
    using g(6,7) o q1(3) by (auto simp: pairwise_def)
  moreover have "list_all2 (\<lambda>y z. image_at s3 y z (extension z)) ys zs" using im3 by (rule list_all2_mono) blast
  moreover have "objs s \<subseteq> objs s1" using map_le_implies_dom_le [OF le(1)] le(2) li by (auto simp: objs_def)
  then have "(\<Union>y \<in> set ys. owned s3 y) \<inter> objs s = {}" using g(10) o by auto
  moreover have "untouched (list_nodes s - set (l # xs)) s s3"
    using g(11) f(6,7) q1(1) li unfolding untouched_def list_nodes_def objs_def by auto
  ultimately have "grown l xs s ys zs s3" unfolding grown_def using f(2,8) c3 le3 g(9) q1(4) by simp
  then show ?thesis using that f(1,8) by blast
qed

section \<open>One file\<close>

lemma node_createdD:
  assumes "node_created s p t f s'"
  shows "app_ok s'" "image_at s' p t f" "haddrs s' = haddrs s \<union> owned s' p" "owned s' p \<inter> (haddrs s \<union> objs s) = {}"
    "strs s \<subseteq>\<^sub>m strs s'" "inodes s' = (inodes s)(p := inodes s' p)"
    "nx (lists s') = (nx (lists s))(p \<mapsto> RT_NULL)" "pv (lists s') = (pv (lists s))(p \<mapsto> RT_NULL)" "oom s \<longrightarrow> oom s'"
  using assms unfolding node_created_def by blast+

lemma node_created_grown:
  assumes nc: "node_created s n t (extension t) s1" and cl: "clist (lists s) l xs"
  obtains h where "rt_list_insert_before (lists s1) l n = Inr h" "grown l xs s [n] [t] (s1\<lparr>lists := h\<rparr>)"
proof -
  note c = node_createdD [OF nc]
  have n: "n \<in> owned s1 n" "n \<noteq> RT_NULL" using image_at_self [OF c(2)] c(2) by (auto simp: image_at_def)
  have new: "n \<notin> objs s" using c(4) n(1) by blast
  have fr: "n \<notin> set (l # xs)" using new clist_objs [OF cl] by auto
  have cl1: "clist (lists s1) l xs"
    by (subst clist_cong [of l xs "lists s1" "lists s"]) (use c(7,8) fr cl in auto)
  have nd: "node_at (lists s1) n" using c(7,8) n(2) by (auto simp: node_at_def)
  obtain h where h: "rt_list_insert_before (lists s1) l n = Inr h" "clist h l (xs @ [n])"
    "nx h = (nx (lists s1))(last (l # xs) \<mapsto> n, n \<mapsto> l)" "pv h = (pv (lists s1))(n \<mapsto> last (l # xs), l \<mapsto> n)"
    using clist_insert_before [OF cl1 nd fr] by blast
  let ?s = "s1\<lparr>lists := h\<rparr>"
  have "node_at (lists s1) l" "node_at (lists s1) (last (l # xs))" using clist_nodes [OF cl1] by (auto split: if_splits)
  then have d: "dom (nx h) = dom (nx (lists s1))" "dom (pv h) = dom (pv (lists s1))" using nd h(3,4) by (auto simp: node_at_def)
  have ok: "app_ok ?s" by (rule app_ok_relabel [OF c(1)]) (auto simp: objs_def d)
  have eq: "owned ?s = owned s1" "image_at ?s = image_at s1" "haddrs ?s = haddrs s1"
    by (auto simp: owned_def image_at_def shows_text_def haddrs_def fun_eq_iff split: option.splits)
  have "n \<notin> dom (inodes s)" using new by (auto simp: objs_def)
  then have "inodes s \<subseteq>\<^sub>m inodes s1" by (subst c(6)) (auto simp: map_le_def)
  moreover have "untouched (list_nodes s - set (l # xs)) s ?s"
    unfolding untouched_def using new h(3,4) c(7,8) by (auto simp: objs_def list_nodes_def split: if_splits)
  ultimately have "grown l xs s [n] [t] ?s" unfolding grown_def eq using ok h(2) c(2,3,4,5,9) by (auto simp: pairwise_def)
  then show ?thesis using that h(1) by blast
qed

lemma scan_file_grown:
  assumes ok: "app_ok s" and cl: "clist (lists s) l xs" and sub: "strs s sub = Some (cstr t [])" and t: "NUL \<notin> set t" "CHR ''.'' \<in> set t"
    "length t + 1 \<le> 2 ^ 32 - 4"
  obtains s' ys zs where "scan_file l sub s = Inr s'" "grown l xs s ys zs s'" "subseq zs (if image_path t then [t] else [])"
    "\<not> oom s' \<longrightarrow> zs = (if image_path t then [t] else [])"
proof -
  have "sub \<noteq> RT_NULL" using ok sub by (auto simp: app_ok_def objs_def)
  then have st: "str_at s sub = Inr (Some (cstr t []))" using sub by (simp add: str_at_def)
  obtain b where b: "t = b @ CHR ''.'' # extension t" "CHR ''.'' \<notin> set (extension t)" using extension_split [OF t(2)] by blast
  have im: "path_is_image (Some (cstr t [])) = Inr (image_path t)"
    using path_is_image_found [of b "extension t" "[]"] b t(1) by (simp add: image_path_def)
  show ?thesis
  proof (cases "image_path t")
    case False
    then show ?thesis using that [of s "[]" "[]"] st im grown_refl [OF ok cl] by (simp add: scan_file_def)
  next
    case True
    from ok t show ?thesis
    proof (cases rule: image_node_create_ok [where r = "[]"])
      case (failed s')
      then show ?thesis
        using that [of s' "[]" "[]"] st im True grown_failed [OF failed(2-5) cl] by (simp add: scan_file_def allocated_def)
    next
      case (created n s1)
      obtain h where h: "rt_list_insert_before (lists s1) l n = Inr h" "grown l xs s [n] [t] (s1\<lparr>lists := h\<rparr>)"
        using node_created_grown [OF created(2) cl] .
      have "n \<noteq> RT_NULL" using created(2) by (auto simp: node_created_def image_at_def)
      then show ?thesis using that [of "s1\<lparr>lists := h\<rparr>" "[n]" "[t]"] st im True created(1) h by (simp add: scan_file_def)
    qed
  qed
qed

section \<open>The whole scan\<close>

definition entry_images :: "nat \<Rightarrow> file_systems \<Rightarrow> string \<Rightarrow> dirent \<Rightarrow> string list" where
  "entry_images k dfs p e =
     (if dot_entry e then []
      else if d_type e = DT_DIR then images k dfs (entry_path p e)
      else if d_type e = DT_REG \<and> image_path (entry_path p e) then [entry_path p e]
      else [])"

definition entry_ok :: "nat \<Rightarrow> file_systems \<Rightarrow> string \<Rightarrow> dirent \<Rightarrow> bool" where
  "entry_ok k dfs p e \<longleftrightarrow> NUL \<in> set (d_name e) \<and> unat (d_namlen e) = length (ctext (d_name e))
     \<and> (dot_entry e \<or> length (entry_path p e) + 1 \<le> 2 ^ 32 - 4
          \<and> (d_type e = DT_DIR \<longrightarrow> tree_ok k dfs (entry_path p e))
          \<and> (d_type e = DT_REG \<longrightarrow> CHR ''.'' \<in> set (entry_path p e)))"

lemma images_step: "images (Suc k) dfs p = (case dfs p of None \<Rightarrow> [] | Some es \<Rightarrow> concat (map (entry_images k dfs p) es))"
  by (simp add: entry_images_def [abs_def] split: option.split)

lemma tree_ok_step: "tree_ok (Suc k) dfs p \<longleftrightarrow> (case dfs p of None \<Rightarrow> True | Some es \<Rightarrow> \<forall>e \<in> set es. entry_ok k dfs p e)"
  by (simp add: entry_ok_def split: option.split)

declare images.simps(2) [simp del] tree_ok.simps(2) [simp del]

text \<open>What a part of the scan that has to find \<open>ts\<close> yields.\<close>

definition scans :: "app_mem cres \<Rightarrow> ptr \<Rightarrow> ptr list \<Rightarrow> app_mem \<Rightarrow> string list \<Rightarrow> bool" where
  "scans r l xs s ts \<longleftrightarrow> (\<exists>ys zs s'. r = Inr s' \<and> grown l xs s ys zs s' \<and> subseq zs ts \<and> (\<not> oom s' \<longrightarrow> zs = ts))"

lemma scans_refl: "app_ok s \<Longrightarrow> clist (lists s) l xs \<Longrightarrow> scans (Inr s) l xs s []"
  unfolding scans_def using grown_refl by blast

lemma scans_seq:
  assumes a: "scans r l xs s ts" and f: "\<And>ys zs s'. grown l xs s ys zs s' \<Longrightarrow> scans (f s') l (xs @ ys) s' us"
  shows "scans (cbind r f) l xs s (ts @ us)"
proof -
  obtain ys zs s' where 1: "r = Inr s'" "grown l xs s ys zs s'" "subseq zs ts" "\<not> oom s' \<longrightarrow> zs = ts"
    using a by (auto simp: scans_def)
  obtain ys' zs' s'' where 2: "f s' = Inr s''" "grown l (xs @ ys) s' ys' zs' s''" "subseq zs' us" "\<not> oom s'' \<longrightarrow> zs' = us"
    using f [OF 1(2)] by (auto simp: scans_def)
  have "\<not> oom s'' \<longrightarrow> zs @ zs' = ts @ us" using 1(4) 2(4) grownD(9) [OF 2(2)] by blast
  then show ?thesis
    unfolding scans_def using 1(1) 2(1) grown_trans [OF 1(2) 2(2)] list_emb_append_mono [OF 1(3) 2(3)] by auto
qed

text \<open>A part of the scan between an allocation and the release of the block.\<close>

lemma scans_within:
  assumes al: "allocated s q s1" and q: "q \<noteq> RT_NULL" and le: "strs s \<subseteq>\<^sub>m strs s1" "inodes s1 = inodes s" and li: "lists s1 = lists s"
    and cl: "clist (lists s) l xs" and sc: "scans r l xs s1 ts"
  shows "scans (cbind r (rt_free q)) l xs s ts"
proof -
  obtain ys zs s2 where 1: "r = Inr s2" "grown l xs s1 ys zs s2" "subseq zs ts" "\<not> oom s2 \<longrightarrow> zs = ts"
    using sc by (auto simp: scans_def)
  obtain s3 where "rt_free q s2 = Inr s3" "grown l xs s ys zs s3" "oom s3 = oom s2"
    using grown_within [OF al q le li cl 1(2)] .
  then show ?thesis using 1 by (auto simp: scans_def)
qed

lemma scans_failed:
  assumes "allocated s RT_NULL s'" "strs s' = strs s" "inodes s' = inodes s" "lists s' = lists s" "clist (lists s) l xs"
  shows "scans (Inr s') l xs s ts"
proof -
  have "oom s'" using assms(1) by (simp add: allocated_def)
  then show ?thesis unfolding scans_def using grown_failed [OF assms] by auto
qed

lemma scan_entry_scans:
  assumes IH: "\<And>cur p s. app_ok s \<Longrightarrow> clist (lists s) l xs \<Longrightarrow> strs s cur = Some (cstr p []) \<Longrightarrow> NUL \<notin> set p \<Longrightarrow> tree_ok k dfs p \<Longrightarrow>
      scans (scaner_scan k dfs l cur s) l xs s (images k dfs p)"
    and ok: "app_ok s" "clist (lists s) l xs" and q: "strs s q = Some (cstr (entry_path p e) [])" and p: "NUL \<notin> set p"
    and e: "entry_ok k dfs p e" "\<not> dot_entry e"
  shows "scans (if d_type e = DT_DIR then scaner_scan k dfs l q s else if d_type e = DT_REG then scan_file l q s else Inr s)
    l xs s (entry_images k dfs p e)"
proof -
  have n: "NUL \<notin> set (entry_path p e)" using p by (simp add: entry_path_def)
  consider "d_type e = DT_DIR" | "d_type e \<noteq> DT_DIR" "d_type e = DT_REG" | "d_type e \<noteq> DT_DIR" "d_type e \<noteq> DT_REG" by blast
  then show ?thesis
  proof cases
    case 1
    then show ?thesis using IH [OF ok q n] e by (simp add: entry_images_def entry_ok_def)
  next
    case 2
    then have "CHR ''.'' \<in> set (entry_path p e)" "length (entry_path p e) + 1 \<le> 2 ^ 32 - 4" using e by (auto simp: entry_ok_def)
    then obtain s' ys zs where "scan_file l q s = Inr s'" "grown l xs s ys zs s'"
      "subseq zs (if image_path (entry_path p e) then [entry_path p e] else [])"
      "\<not> oom s' \<longrightarrow> zs = (if image_path (entry_path p e) then [entry_path p e] else [])"
      using scan_file_grown [OF ok q n] by blast
    then have "scans (scan_file l q s) l xs s (if image_path (entry_path p e) then [entry_path p e] else [])"
      unfolding scans_def by blast
    then show ?thesis using 2 e(2) by (simp add: entry_images_def)
  next
    case 3
    then show ?thesis using scans_refl [OF ok] e(2) by (simp add: entry_images_def)
  qed
qed

lemma scan_loop_scans:
  assumes IH: "\<And>cur p s xs. app_ok s \<Longrightarrow> clist (lists s) l xs \<Longrightarrow> strs s cur = Some (cstr p []) \<Longrightarrow> NUL \<notin> set p \<Longrightarrow> tree_ok k dfs p \<Longrightarrow>
      scans (scaner_scan k dfs l cur s) l xs s (images k dfs p)"
    and "app_ok s" "clist (lists s) l xs" "strs s cur = Some (cstr p [])" "NUL \<notin> set p" "\<forall>e \<in> set es. entry_ok k dfs p e"
  shows "scans (scan_loop k dfs l cur es s) l xs s (concat (map (entry_images k dfs p) es))"
  using assms(2-)
proof (induction es arbitrary: s xs)
  case Nil
  then show ?case by (simp add: scans_refl)
next
  case (Cons e es)
  have e: "entry_ok k dfs p e" and es: "\<forall>e \<in> set es. entry_ok k dfs p e" using Cons.prems(5) by auto
  have dot: "is_dot e = Inr (dot_entry e)" using e by (intro is_dot_ok) (simp add: entry_ok_def)
  show ?case
  proof (cases "dot_entry e")
    case True
    then show ?thesis using dot Cons.IH [OF Cons.prems(1-4) es] by (simp add: entry_images_def)
  next
    case False
    let ?f = "ctext (d_name e)"
    obtain y where y: "d_name e = cstr ?f y" using cstr_ctext [of "d_name e"] e by (auto simp: entry_ok_def)
    have n: "unat (d_namlen e) = length ?f" "length (p @ ''/'' @ ?f) + 1 \<le> 2 ^ 32 - 4"
      using e False by (auto simp: entry_ok_def entry_path_def)
    obtain q s1 where j: "path_join_heap (Some (cstr p [])) (Some (cstr ?f y)) (length ?f) s = Inr (q, s1)" "allocated s q s1"
      "inodes s1 = inodes s" "lists s1 = lists s" "strs s1 = (if q = RT_NULL then strs s else (strs s)(q \<mapsto> cstr (entry_path p e) []))"
      using path_join_heap_ok [OF Cons.prems(1,4) ctext_no_nul n(2)] unfolding entry_path_def .
    have "cur \<noteq> RT_NULL" using Cons.prems(1,3) by (auto simp: app_ok_def objs_def)
    then have st: "str_at s cur = Inr (Some (cstr p []))" using Cons.prems(3) by (simp add: str_at_def)
    show ?thesis
    proof (cases "q = RT_NULL")
      case True
      then have "scan_loop k dfs l cur (e # es) s = Inr s1" using dot False st j(1) n(1) y by simp
      then show ?thesis using scans_failed [of s s1] j(2-5) Cons.prems(2) True by simp
    next
      case q: False
      let ?r = "if d_type e = DT_DIR then scaner_scan k dfs l q s1 else if d_type e = DT_REG then scan_file l q s1 else Inr s1"
      have s1: "app_ok s1" "clist (lists s1) l xs" "strs s1 q = Some (cstr (entry_path p e) [])"
        using j(2,4,5) q Cons.prems(2) by (auto simp: allocated_def)
      have r: "scans ?r l xs s1 (entry_images k dfs p e)"
        by (rule scan_entry_scans [OF IH s1 Cons.prems(4) e False])
      have "q \<notin> dom (strs s)" using j(2) q by (auto simp: allocated_def objs_def)
      then have le: "strs s \<subseteq>\<^sub>m strs s1" using j(5) by (auto simp: map_le_def)
      have w: "scans (cbind ?r (rt_free q)) l xs s (entry_images k dfs p e)"
        by (rule scans_within [OF j(2) q le j(3,4) Cons.prems(2) r])
      have "scan_loop k dfs l cur (e # es) s = cbind (cbind ?r (rt_free q)) (\<lambda>s. scan_loop k dfs l cur es s)"
        using dot False st j(1) n(1) y q by (simp add: cbind_assoc)
      moreover have "scans (cbind (cbind ?r (rt_free q)) (\<lambda>s. scan_loop k dfs l cur es s)) l xs s
          (entry_images k dfs p e @ concat (map (entry_images k dfs p) es))"
        using w
      proof (rule scans_seq)
        fix ys zs s' assume g: "grown l xs s ys zs s'"
        show "scans (scan_loop k dfs l cur es s') l (xs @ ys) s' (concat (map (entry_images k dfs p) es))"
          using Cons.IH [OF grownD(1,2) [OF g] map_leD [OF grownD(3) [OF g] Cons.prems(3)] Cons.prems(4) es] .
      qed
      ultimately show ?thesis by simp
    qed
  qed
qed

lemma scaner_scan_scans:
  assumes "app_ok s" "clist (lists s) l xs" "strs s cur = Some (cstr p [])" "NUL \<notin> set p" "tree_ok k dfs p"
  shows "scans (scaner_scan k dfs l cur s) l xs s (images k dfs p)"
  using assms
proof (induction k arbitrary: s xs cur p)
  case 0
  then show ?case by simp
next
  case (Suc k)
  have "cur \<noteq> RT_NULL" using Suc.prems(1,3) by (auto simp: app_ok_def objs_def)
  then have st: "str_at s cur = Inr (Some (cstr p []))" using Suc.prems(3) by (simp add: str_at_def)
  show ?case
  proof (cases "dfs p")
    case None
    then show ?thesis using st Suc.prems scans_refl by (simp add: opendir_def images_step)
  next
    case (Some es)
    have n: "0 < (524 :: nat)" "(524 :: nat) \<le> 2 ^ 32 - 4" by simp_all
    obtain d s1 where m: "rt_malloc 524 s = Inr (d, s1)" "allocated s d s1" "same_view s s1" using rt_malloc_allocated [OF Suc.prems(1) n] .
    have op: "opendir dfs (Some (cstr p [])) s = Inr (d, es, s1)" using Some m(1) Suc.prems(4) by (simp add: opendir_def)
    have v: "strs s1 = strs s" "inodes s1 = inodes s" "lists s1 = lists s" using m(3) by (simp_all add: same_view_def)
    show ?thesis
    proof (cases "d = RT_NULL")
      case True
      then show ?thesis using st op scans_failed [of s s1] m(2) v Suc.prems(2) by simp
    next
      case False
      have es: "\<forall>e \<in> set es. entry_ok k dfs p e" using Suc.prems(5) Some by (simp add: tree_ok_step)
      have s1: "app_ok s1" "clist (lists s1) l xs" "strs s1 cur = Some (cstr p [])"
        using m(2) v Suc.prems(2,3) by (auto simp: allocated_def)
      have "scans (scan_loop k dfs l cur es s1) l xs s1 (concat (map (entry_images k dfs p) es))"
        by (rule scan_loop_scans [OF Suc.IH s1 Suc.prems(4) es])
      then have "scans (cbind (scan_loop k dfs l cur es s1) (rt_free d)) l xs s (images (Suc k) dfs p)"
        using scans_within [OF m(2) False _ v(2,3) Suc.prems(2)] v(1) Some by (simp add: images_step)
      then show ?thesis using st op False \<open>cur \<noteq> RT_NULL\<close> by (simp add: closedir_def [abs_def])
    qed
  qed
qed

text \<open>More levels than the tree has change nothing.\<close>

lemma tree_ok_more:
  assumes "tree_ok k dfs p" "k \<le> n"
  shows "tree_ok n dfs p \<and> images n dfs p = images k dfs p"
  using assms
proof (induction k arbitrary: n p)
  case 0
  then show ?case by simp
next
  case (Suc k)
  then obtain j where n: "n = Suc j" "k \<le> j" by (cases n) auto
  have ih: "tree_ok k dfs q \<Longrightarrow> tree_ok j dfs q \<and> images j dfs q = images k dfs q" for q using Suc.IH n(2) by blast
  have "entry_ok k dfs p e \<Longrightarrow> entry_ok j dfs p e \<and> entry_images j dfs p e = entry_images k dfs p e" for e
    using ih by (auto simp: entry_ok_def entry_images_def)
  then show ?case
    using Suc.prems(1) unfolding n(1) by (auto simp: tree_ok_step images_step split: option.splits intro!: arg_cong [where f = concat])
qed

section \<open>Properties\<close>

text \<open>C15: the scan of a directory tree returns, given more levels of recursion than the tree has, without a fault,
  whatever allocations fail. It appends to the scanning list one node for each of a
  subsequence of the images of the tree, with the path and the extension of the image; the blocks in use are those
  of before and those the new nodes own, so every temporary path and directory handle has been
  released. When no allocation has failed, the nodes are those of all images, in the order of the
  entries.\<close>

theorem scaner_scan_finds_images:
  assumes "app_ok s" and "clist (lists s) l xs" and "strs s cur = Some (cstr p [])" and "NUL \<notin> set p"
    and "tree_ok k dfs p" and "k \<le> fuel"
  shows "\<exists>s' ys zs. scaner_scan fuel dfs l cur s = Inr s' \<and> app_ok s' \<and> clist (lists s') l (xs @ ys)
    \<and> list_all2 (\<lambda>y z. image_at s' y z (extension z)) ys zs
    \<and> haddrs s' = haddrs s \<union> (\<Union>y \<in> set ys. owned s' y) \<and> (\<Union>y \<in> set ys. owned s' y) \<inter> haddrs s = {}
    \<and> subseq zs (images k dfs p) \<and> (\<not> oom s' \<longrightarrow> zs = images k dfs p)"
proof -
  have t: "tree_ok fuel dfs p" "images fuel dfs p = images k dfs p" using tree_ok_more [OF assms(5,6)] by auto
  obtain ys zs s' where r: "scaner_scan fuel dfs l cur s = Inr s'" and g: "grown l xs s ys zs s'"
    and z: "subseq zs (images k dfs p)" "\<not> oom s' \<longrightarrow> zs = images k dfs p"
    using scaner_scan_scans [OF assms(1-4) t(1)] unfolding t(2) scans_def by blast
  show ?thesis
    by (intro exI conjI) (rule r grownD(1,2,8,5,6) [OF g] z)+
qed

definition example_card :: file_systems where
  "example_card p =
     (if p = ''/sd'' then Some [\<lparr>d_type = DT_DIR, d_namlen = 1, d_name = cstr ''.'' []\<rparr>,
        \<lparr>d_type = DT_REG, d_namlen = 5, d_name = cstr ''a.png'' []\<rparr>, \<lparr>d_type = DT_DIR, d_namlen = 1, d_name = cstr ''d'' []\<rparr>,
        \<lparr>d_type = DT_REG, d_namlen = 5, d_name = cstr ''b.txt'' []\<rparr>]
      else if p = ''/sd/d'' then Some [\<lparr>d_type = DT_REG, d_namlen = 5, d_name = cstr ''c.jpg'' []\<rparr>]
      else None)"

lemma example_card_ok: "tree_ok (Suc (Suc 0)) example_card ''/sd'' \<and> images (Suc (Suc 0)) example_card ''/sd'' = [''/sd/a.png'', ''/sd/d/c.jpg'']"
  by (simp add: tree_ok_step images_step example_card_def entry_ok_def entry_images_def entry_path_def
      dot_entry_def image_path_def extension_def DT_DIR_def DT_REG_def cstr_def ctext_def)

theorem scaner_scan_finds_images_witness:
  "\<exists>m s' ys zs. rt_smem_init 4096 1024 = Some m \<and> scaner_scan 5 example_card 64 128 (app_example m ''/sd'') = Inr s'
     \<and> clist (lists s') 64 ys \<and> list_all2 (\<lambda>y z. image_at s' y z (extension z)) ys zs
     \<and> (\<not> oom s' \<longrightarrow> zs = [''/sd/a.png'', ''/sd/d/c.jpg''])"
proof -
  obtain m where m: "rt_smem_init 4096 1024 = Some m" "app_ok (app_example m ''/sd'')" using app_example_ok by blast
  have "clist (lists (app_example m ''/sd'')) 64 []" "strs (app_example m ''/sd'') 128 = Some (cstr ''/sd'' [])"
    by (simp_all add: app_example_def clist_nil_iff)
  from scaner_scan_finds_images [OF m(2) this, of "Suc (Suc 0)" example_card 5] example_card_ok show ?thesis
    using m(1) by auto
qed

end
