(* ===== verification/Scaner_Work.thy ===== *)
theory Scaner_Work
  imports Image_Scaner
begin

text \<open>
  The scaner as two threads (\<^verbatim>\<open>applications/image_scaner.c\<close>, and its use in \<open>get_image_list\<close> of
  \<^verbatim>\<open>applications/ui_photo_view.c\<close>): the worker \<open>scaner_work\<close> and a client that triggers a scan, fetches its images, and may
  do so again or stop the worker. Between two points where a thread can be interrupted lies one step. The semaphores
  count tokens and the mutex has an owner, which is what \<open>Ipc_Sem\<close> and \<open>Ipc_Mutex\<close> show of them; the lists and
  the heap are those of \<open>Image_Scaner\<close>.
\<close>

section \<open>State\<close>

datatype agent = Worker | Client

text \<open>\<open>struct image_scaner\<close>: the addresses of its list heads and of the name of its top directory.\<close>

record image_scaner =
  image_list :: ptr
  scaning_list :: ptr
  running :: bool
  top_dir :: ptr
  owner :: "agent option"
  trig_sem :: nat
  done_sem :: nat
  stop_sem :: nat

datatype worker_pc = WTop | WTake | WCheck | WScan | WLock | WMove | WUnlock | WPost | WStop | WExit

datatype client_pc = CIdle | CTake | CLock | CMove | CUnlock u32 | CStop | CStopped

text \<open>\<open>got\<close> is what the last \<open>image_scaner_get_images\<close> returned.\<close>

record scaner_sys =
  scaner :: image_scaner
  mem :: app_mem
  wpc :: worker_pc
  cpc :: client_pc
  got :: "u32 option"

text \<open>A release at the maximum fails, which the worker only logs.\<close>

definition sem_up :: "nat \<Rightarrow> nat" where
  "sem_up v = (if v < 65535 then v + 1 else v)"

section \<open>Steps\<close>

text \<open>\<open>scaner_work\<close>; \<open>None\<close> when the thread waits or has ended.\<close>

definition scaner_work :: "nat \<Rightarrow> file_systems \<Rightarrow> scaner_sys \<Rightarrow> scaner_sys cres option" where
  "scaner_work fuel dfs s = (let sc = scaner s in case wpc s of
     WTop \<Rightarrow> Some (Inr (s\<lparr>wpc := if running sc then WTake else WStop\<rparr>))
   | WTake \<Rightarrow> if trig_sem sc > 0 then Some (Inr (s\<lparr>scaner := sc\<lparr>trig_sem := trig_sem sc - 1\<rparr>, wpc := WCheck\<rparr>)) else None
   | WCheck \<Rightarrow> Some (Inr (s\<lparr>wpc := if running sc then WScan else WStop\<rparr>))
   | WScan \<Rightarrow> Some (cbind (rt_list_init (lists (mem s)) (scaning_list sc)) (\<lambda>h.
       cbind (scaner_scan fuel dfs (scaning_list sc) (top_dir sc) ((mem s)\<lparr>lists := h\<rparr>)) (\<lambda>m.
       Inr (s\<lparr>mem := m, wpc := WLock\<rparr>))))
   | WLock \<Rightarrow> if owner sc = None then Some (Inr (s\<lparr>scaner := sc\<lparr>owner := Some Worker\<rparr>, wpc := WMove\<rparr>)) else None
   | WMove \<Rightarrow> Some (cbind (list_move fuel (lists (mem s)) (image_list sc) (scaning_list sc)) (\<lambda>(count, h).
       Inr (s\<lparr>mem := (mem s)\<lparr>lists := h\<rparr>, wpc := WUnlock\<rparr>)))
   | WUnlock \<Rightarrow> Some (Inr (s\<lparr>scaner := sc\<lparr>owner := None\<rparr>, wpc := WPost\<rparr>))
   | WPost \<Rightarrow> Some (Inr (s\<lparr>scaner := sc\<lparr>done_sem := sem_up (done_sem sc)\<rparr>, wpc := WTop\<rparr>))
   | WStop \<Rightarrow> Some (Inr (s\<lparr>scaner := sc\<lparr>stop_sem := sem_up (stop_sem sc)\<rparr>, wpc := WExit\<rparr>))
   | WExit \<Rightarrow> None)"

text \<open>The calls of the client. \<open>image_scaner_trigger_scan\<close> is at once followed by the call of \<open>image_scaner_get_images\<close>, as
  in \<open>get_image_list\<close>; \<open>img_list\<close> is the address of the client's list.\<close>

definition image_scaner_trigger_scan :: "scaner_sys \<Rightarrow> scaner_sys option" where
  "image_scaner_trigger_scan s = (if cpc s = CIdle
     then Some (s\<lparr>scaner := (scaner s)\<lparr>trig_sem := sem_up (trig_sem (scaner s))\<rparr>, cpc := CTake\<rparr>) else None)"

definition image_scaner_get_images :: "nat \<Rightarrow> ptr \<Rightarrow> scaner_sys \<Rightarrow> scaner_sys cres option" where
  "image_scaner_get_images fuel img_list s = (let sc = scaner s in case cpc s of
     CTake \<Rightarrow> if done_sem sc > 0 then Some (Inr (s\<lparr>scaner := sc\<lparr>done_sem := done_sem sc - 1\<rparr>, cpc := CLock\<rparr>)) else None
   | CLock \<Rightarrow> if owner sc = None then Some (Inr (s\<lparr>scaner := sc\<lparr>owner := Some Client\<rparr>, cpc := CMove\<rparr>)) else None
   | CMove \<Rightarrow> Some (cbind (list_move fuel (lists (mem s)) img_list (image_list sc)) (\<lambda>(count, h).
       Inr (s\<lparr>mem := (mem s)\<lparr>lists := h\<rparr>, cpc := CUnlock count\<rparr>)))
   | CUnlock count \<Rightarrow> Some (Inr (s\<lparr>scaner := sc\<lparr>owner := None\<rparr>, cpc := CIdle, got := Some count\<rparr>))
   | _ \<Rightarrow> None)"

definition image_scaner_stop :: "scaner_sys \<Rightarrow> scaner_sys option" where
  "image_scaner_stop s = (let sc = scaner s in case cpc s of
     CIdle \<Rightarrow> Some (s\<lparr>scaner := sc\<lparr>running := False, trig_sem := sem_up (trig_sem sc)\<rparr>, cpc := CStop\<rparr>)
   | CStop \<Rightarrow> if stop_sem sc > 0 then Some (s\<lparr>scaner := sc\<lparr>stop_sem := stop_sem sc - 1\<rparr>, cpc := CStopped\<rparr>) else None
   | _ \<Rightarrow> None)"

inductive scaner_step :: "nat \<Rightarrow> file_systems \<Rightarrow> ptr \<Rightarrow> scaner_sys \<Rightarrow> scaner_sys \<Rightarrow> bool" for fuel dfs ul where
  work: "scaner_work fuel dfs s = Some (Inr s') \<Longrightarrow> scaner_step fuel dfs ul s s'"
| trigger: "image_scaner_trigger_scan s = Some s' \<Longrightarrow> scaner_step fuel dfs ul s s'"
| get: "image_scaner_get_images fuel ul s = Some (Inr s') \<Longrightarrow> scaner_step fuel dfs ul s s'"
| stop: "image_scaner_stop s = Some s' \<Longrightarrow> scaner_step fuel dfs ul s s'"

text \<open>After \<open>image_scaner_create\<close> and \<open>image_scaner_start\<close>.\<close>

definition scaner_started :: "scaner_sys \<Rightarrow> bool" where
  "scaner_started s \<longleftrightarrow> wpc s = WTop \<and> cpc s = CIdle \<and> got s = None \<and> running (scaner s) \<and> owner (scaner s) = None
     \<and> trig_sem (scaner s) = 0 \<and> done_sem (scaner s) = 0 \<and> stop_sem (scaner s) = 0"

inductive scaner_run :: "nat \<Rightarrow> file_systems \<Rightarrow> ptr \<Rightarrow> scaner_sys \<Rightarrow> scaner_sys \<Rightarrow> bool" for fuel dfs ul s0 where
  start: "scaner_started s0 \<Longrightarrow> scaner_run fuel dfs ul s0 s0"
| step: "scaner_run fuel dfs ul s0 s \<Longrightarrow> scaner_step fuel dfs ul s s' \<Longrightarrow> scaner_run fuel dfs ul s0 s'"

section \<open>The invariant\<close>

text \<open>The three list heads, the top directory and the heap.\<close>

definition memory_ok :: "ptr \<Rightarrow> string \<Rightarrow> image_scaner \<Rightarrow> app_mem \<Rightarrow> bool" where
  "memory_ok ul p sc m \<longleftrightarrow> app_ok m \<and> distinct [scaning_list sc, image_list sc, ul]
     \<and> node_at (lists m) (scaning_list sc) \<and> node_at (lists m) (image_list sc) \<and> node_at (lists m) ul
     \<and> strs m (top_dir sc) = Some (cstr p [])"

text \<open>A list holds nodes for the images of the tree.\<close>

definition holds_images :: "app_mem \<Rightarrow> ptr \<Rightarrow> ptr list \<Rightarrow> string list \<Rightarrow> bool" where
  "holds_images m l ys ts \<longleftrightarrow> clist (lists m) l ys
     \<and> (\<exists>zs. list_all2 (\<lambda>y z. image_at m y z (extension z)) ys zs \<and> subseq zs ts \<and> (\<not> oom m \<longrightarrow> zs = ts))"

definition found :: "ptr \<Rightarrow> image_scaner \<Rightarrow> string list \<Rightarrow> app_mem \<Rightarrow> ptr \<Rightarrow> bool" where
  "found ul sc ts m l \<longleftrightarrow> (\<exists>ys. holds_images m l ys ts \<and> set ys \<inter> {scaning_list sc, image_list sc, ul} = {})"

text \<open>Where the token of a triggered scan is, and where its images are.\<close>

definition scan_phase :: "ptr \<Rightarrow> string list \<Rightarrow> scaner_sys \<Rightarrow> bool" where
  "scan_phase ul ts s \<longleftrightarrow> (let sc = scaner s; f = found ul sc ts (mem s) in
     trig_sem sc = (if wpc s \<in> {WTop, WTake} \<and> done_sem sc = 0 then 1 else 0)
     \<and> done_sem sc \<le> (if wpc s \<in> {WTop, WTake} then 1 else 0)
     \<and> (wpc s \<in> {WLock, WMove} \<longrightarrow> f (scaning_list sc))
     \<and> (wpc s \<in> {WUnlock, WPost} \<or> done_sem sc = 1 \<longrightarrow> f (image_list sc))
     \<and> wpc s \<notin> {WStop, WExit} \<and> owner sc = (if wpc s \<in> {WMove, WUnlock} then Some Worker else None))"

definition worker_idle :: "scaner_sys \<Rightarrow> bool" where
  "worker_idle s \<longleftrightarrow> wpc s \<in> {WTop, WTake} \<and> trig_sem (scaner s) = 0 \<and> done_sem (scaner s) = 0"

definition stop_phase :: "scaner_sys \<Rightarrow> bool" where
  "stop_phase s \<longleftrightarrow> wpc s \<in> {WTop, WTake, WCheck, WStop, WExit} \<and> owner (scaner s) = None
     \<and> stop_sem (scaner s) = (if wpc s = WExit then 1 else 0) \<and> (wpc s \<in> {WTop, WTake} \<longrightarrow> trig_sem (scaner s) = 1)"

definition scaner_inv :: "ptr \<Rightarrow> string \<Rightarrow> string list \<Rightarrow> scaner_sys \<Rightarrow> bool" where
  "scaner_inv ul p ts s \<longleftrightarrow> memory_ok ul p (scaner s) (mem s) \<and> (running (scaner s) \<longleftrightarrow> cpc s \<notin> {CStop, CStopped})
     \<and> (cpc s \<noteq> CStop \<longrightarrow> stop_sem (scaner s) = 0)
     \<and> (case cpc s of
          CIdle \<Rightarrow> worker_idle s \<and> owner (scaner s) = None
            \<and> (\<forall>n. got s = Some n \<longrightarrow> (\<exists>ys. holds_images (mem s) ul ys ts \<and> n = of_nat (length ys)))
        | CTake \<Rightarrow> scan_phase ul ts s
        | CLock \<Rightarrow> worker_idle s \<and> owner (scaner s) = None \<and> found ul (scaner s) ts (mem s) (image_list (scaner s))
        | CMove \<Rightarrow> worker_idle s \<and> owner (scaner s) = Some Client \<and> found ul (scaner s) ts (mem s) (image_list (scaner s))
        | CUnlock n \<Rightarrow> worker_idle s \<and> owner (scaner s) = Some Client \<and> (\<exists>ys. holds_images (mem s) ul ys ts \<and> n = of_nat (length ys))
        | CStop \<Rightarrow> stop_phase s
        | CStopped \<Rightarrow> wpc s = WExit)"

section \<open>What the steps do to the lists\<close>

text \<open>A change of list links that keeps the nodes.\<close>

lemma image_at_lists [simp]: "image_at (m\<lparr>lists := h\<rparr>) = image_at m"
  by (simp add: image_at_def shows_text_def fun_eq_iff split: option.splits)

lemma node_at_dom: "node_at h a \<longleftrightarrow> a \<noteq> RT_NULL \<and> a \<in> dom (nx h) \<and> a \<in> dom (pv h)"
  by (auto simp: node_at_def)

lemma memory_ok_relink:
  assumes "memory_ok ul p sc m" "dom (nx h) = dom (nx (lists m))" "dom (pv h) = dom (pv (lists m))"
  shows "memory_ok ul p sc (m\<lparr>lists := h\<rparr>)"
proof -
  have "app_ok (m\<lparr>lists := h\<rparr>)"
    by (rule app_ok_relabel [of m]) (use assms in \<open>auto simp: memory_ok_def objs_def\<close>)
  then show ?thesis using assms by (simp add: memory_ok_def node_at_dom)
qed

lemma holds_images_length: "holds_images m l ys ts \<Longrightarrow> length ys \<le> length ts"
  unfolding holds_images_def using list_all2_lengthD list_emb_length by fastforce

lemma move_images:
  assumes ok: "memory_ok ul p sc m" and src: "holds_images m src ys ts" "length ts < fuel"
    and dst: "node_at (lists m) dst" "dst \<notin> set (src # ys)"
  obtains h where "list_move fuel (lists m) dst src = Inr (of_nat (length ys), h)"
    "memory_ok ul p sc (m\<lparr>lists := h\<rparr>)" "holds_images (m\<lparr>lists := h\<rparr>) dst ys ts"
proof -
  have cl: "clist (lists m) src ys" using src(1) by (simp add: holds_images_def)
  have "length ys < fuel" using holds_images_length [OF src(1)] src(2) by simp
  from list_move_correct [OF cl dst this] obtain h where
    h: "list_move fuel (lists m) dst src = Inr (of_nat (length ys), h)" "clist h dst ys"
      "\<forall>a. a \<notin> set (dst # ys) \<longrightarrow> nx h a = nx (lists m) a \<and> pv h a = pv (lists m) a"
    by (elim exE conjE) (rule that)
  have "node_at (lists m) a \<and> node_at h a" if "a \<in> set (dst # ys)" for a
    using that clist_nodes [OF h(2), of a] clist_nodes [OF cl, of a] dst(1) by auto
  then have "a \<in> dom (nx h) \<longleftrightarrow> a \<in> dom (nx (lists m))" "a \<in> dom (pv h) \<longleftrightarrow> a \<in> dom (pv (lists m))" for a
    using h(3) unfolding node_at_dom by (cases "a \<in> set (dst # ys)"; fastforce)+
  then have "memory_ok ul p sc (m\<lparr>lists := h\<rparr>)" by (intro memory_ok_relink [OF ok]) blast+
  moreover have "holds_images (m\<lparr>lists := h\<rparr>) dst ys ts" using h(2) src(1) by (simp add: holds_images_def)
  ultimately show ?thesis using that h(1) by blast
qed

lemma scan_images:
  assumes ok: "memory_ok ul p sc m" and t: "tree_ok k dfs p" "k \<le> fuel" "NUL \<notin> set p"
  obtains h m' where "rt_list_init (lists m) (scaning_list sc) = Inr h"
    "scaner_scan fuel dfs (scaning_list sc) (top_dir sc) (m\<lparr>lists := h\<rparr>) = Inr m'"
    "memory_ok ul p sc m'" "found ul sc (images k dfs p) m' (scaning_list sc)"
proof -
  let ?l = "scaning_list sc"
  have n: "node_at (lists m) ?l" using ok by (simp add: memory_ok_def)
  obtain h where h: "rt_list_init (lists m) ?l = Inr h" "clist h ?l []" "h = (lists m)\<lparr>nx := (nx (lists m))(?l \<mapsto> ?l), pv := (pv (lists m))(?l \<mapsto> ?l)\<rparr>"
    using rt_list_init_clist [OF n] by blast
  let ?m = "m\<lparr>lists := h\<rparr>"
  have ok1: "memory_ok ul p sc ?m" by (rule memory_ok_relink [OF ok]) (use h(3) n in \<open>auto simp: node_at_dom\<close>)
  have a: "app_ok ?m" "strs ?m (top_dir sc) = Some (cstr p [])" "clist (lists ?m) ?l []" using ok1 h(2) by (simp_all add: memory_ok_def)
  have t': "tree_ok fuel dfs p" "images fuel dfs p = images k dfs p" using tree_ok_more [OF t(1,2)] by auto
  obtain ys zs m' where r: "scaner_scan fuel dfs ?l (top_dir sc) ?m = Inr m'" and g: "grown ?l [] ?m ys zs m'"
    and z: "subseq zs (images k dfs p)" "\<not> oom m' \<longrightarrow> zs = images k dfs p"
    using scaner_scan_scans [OF a(1,3,2) t(3) t'(1)] unfolding t'(2) scans_def by blast
  have heads: "a \<in> list_nodes ?m \<and> a \<in> objs ?m" if "node_at (lists ?m) a" for a
    using that by (auto simp: node_at_dom list_nodes_def objs_def)
  have keep: "node_at (lists m') a" if "node_at (lists ?m) a" for a
  proof (cases "a = ?l")
    case True
    then show ?thesis using clist_nodes [OF grownD(2) [OF g], of a] by simp
  next
    case False
    then show ?thesis using grownD(11) [OF g] heads [OF that] that unfolding untouched_def node_at_dom by (metis DiffI domIff empty_set list.simps(15) singletonD)
  qed
  have "memory_ok ul p sc m'"
    using ok1 keep grownD(1) [OF g] map_leD [OF grownD(3) [OF g] a(2)] by (simp add: memory_ok_def)
  moreover have "set ys \<inter> {?l, image_list sc, ul} = {}"
    using grown_new [OF g] heads ok1 unfolding memory_ok_def by blast
  then have "found ul sc (images k dfs p) m' ?l"
    unfolding found_def holds_images_def using grownD(2,8) [OF g] z by auto
  ultimately show ?thesis using that h(1) r by blast
qed

section \<open>Every step keeps the invariant\<close>

lemmas phase_defs = scaner_inv_def scan_phase_def worker_idle_def stop_phase_def sem_up_def Let_def

lemma scaner_inv_memory: "scaner_inv ul p ts s \<Longrightarrow> memory_ok ul p (scaner s) (mem s)"
  by (simp add: scaner_inv_def)

text \<open>Only the counters and the mutex change.\<close>

lemma memory_ok_counters [simp]:
  "memory_ok ul p (sc\<lparr>trig_sem := a\<rparr>) m = memory_ok ul p sc m" "memory_ok ul p (sc\<lparr>done_sem := a\<rparr>) m = memory_ok ul p sc m"
  "memory_ok ul p (sc\<lparr>stop_sem := a\<rparr>) m = memory_ok ul p sc m" "memory_ok ul p (sc\<lparr>owner := o'\<rparr>) m = memory_ok ul p sc m"
  "memory_ok ul p (sc\<lparr>running := b\<rparr>) m = memory_ok ul p sc m"
  by (simp_all add: memory_ok_def)

lemma found_counters [simp]:
  "found ul (sc\<lparr>trig_sem := a\<rparr>) = found ul sc" "found ul (sc\<lparr>done_sem := a\<rparr>) = found ul sc"
  "found ul (sc\<lparr>stop_sem := a\<rparr>) = found ul sc" "found ul (sc\<lparr>owner := o'\<rparr>) = found ul sc"
  by (simp_all add: found_def fun_eq_iff)

lemma work_busy:
  assumes "scaner_inv ul p ts s" "wpc s \<in> {WScan, WLock, WMove, WUnlock, WPost}"
  shows "cpc s = CTake"
  using assms by (auto simp: phase_defs split: client_pc.splits)

lemma work_inv:
  assumes inv: "scaner_inv ul p (images k dfs p) s" and r: "scaner_work fuel dfs s = Some r"
    and t: "tree_ok k dfs p" "k \<le> fuel" "NUL \<notin> set p" "length (images k dfs p) < fuel"
  shows "\<exists>s'. r = Inr s' \<and> scaner_inv ul p (images k dfs p) s'"
proof (cases "wpc s")
  case WScan
  have c: "cpc s = CTake" by (rule work_busy [OF inv]) (simp add: WScan)
  obtain h m' where "rt_list_init (lists (mem s)) (scaning_list (scaner s)) = Inr h"
    "scaner_scan fuel dfs (scaning_list (scaner s)) (top_dir (scaner s)) ((mem s)\<lparr>lists := h\<rparr>) = Inr m'"
    "memory_ok ul p (scaner s) m'" "found ul (scaner s) (images k dfs p) m' (scaning_list (scaner s))"
    using scan_images [OF scaner_inv_memory [OF inv] t(1-3)] .
  then show ?thesis using r inv WScan c by (auto simp: scaner_work_def phase_defs)
next
  case WMove
  have c: "cpc s = CTake" by (rule work_busy [OF inv]) (simp add: WMove)
  have ok: "memory_ok ul p (scaner s) (mem s)" by (rule scaner_inv_memory [OF inv])
  obtain ys where ys: "holds_images (mem s) (scaning_list (scaner s)) ys (images k dfs p)"
    "set ys \<inter> {scaning_list (scaner s), image_list (scaner s), ul} = {}"
    using inv WMove c by (auto simp: phase_defs found_def)
  obtain h where "list_move fuel (lists (mem s)) (image_list (scaner s)) (scaning_list (scaner s)) = Inr (of_nat (length ys), h)"
    "memory_ok ul p (scaner s) ((mem s)\<lparr>lists := h\<rparr>)" "holds_images ((mem s)\<lparr>lists := h\<rparr>) (image_list (scaner s)) ys (images k dfs p)"
    using move_images [OF ok ys(1) t(4), of "image_list (scaner s)"] ok ys(2) by (auto simp: memory_ok_def)
  then show ?thesis using r inv WMove c ys(2) by (auto simp: scaner_work_def phase_defs found_def)
qed (cases "cpc s"; use r inv in \<open>auto simp: scaner_work_def phase_defs split: if_splits\<close>)+

lemma get_inv:
  assumes inv: "scaner_inv ul p ts s" and r: "image_scaner_get_images fuel ul s = Some r" and t: "length ts < fuel"
  shows "\<exists>s'. r = Inr s' \<and> scaner_inv ul p ts s'"
proof (cases "cpc s")
  case CMove
  have ok: "memory_ok ul p (scaner s) (mem s)" by (rule scaner_inv_memory [OF inv])
  obtain ys where ys: "holds_images (mem s) (image_list (scaner s)) ys ts" "set ys \<inter> {scaning_list (scaner s), image_list (scaner s), ul} = {}"
    using inv CMove by (auto simp: scaner_inv_def found_def)
  obtain h where "list_move fuel (lists (mem s)) ul (image_list (scaner s)) = Inr (of_nat (length ys), h)"
    "memory_ok ul p (scaner s) ((mem s)\<lparr>lists := h\<rparr>)" "holds_images ((mem s)\<lparr>lists := h\<rparr>) ul ys ts"
    using move_images [OF ok ys(1) t, of ul] ok ys(2) by (auto simp: memory_ok_def)
  then show ?thesis using r inv CMove by (auto simp: image_scaner_get_images_def phase_defs)
qed (use r inv in \<open>auto simp: image_scaner_get_images_def phase_defs split: if_splits\<close>)

lemma step_inv:
  assumes "scaner_step fuel dfs ul s s'" "scaner_inv ul p (images k dfs p) s"
    and "tree_ok k dfs p" "k \<le> fuel" "NUL \<notin> set p" "length (images k dfs p) < fuel"
  shows "scaner_inv ul p (images k dfs p) s'"
  using assms(1)
proof cases
  case work
  then show ?thesis using work_inv [OF assms(2) _ assms(3-6)] by fastforce
next
  case get
  then show ?thesis using get_inv [OF assms(2) _ assms(6)] by fastforce
next
  case trigger
  then show ?thesis using assms(2) by (auto simp: image_scaner_trigger_scan_def phase_defs split: if_splits)
next
  case stop
  then show ?thesis using assms(2) by (cases "cpc s") (auto simp: image_scaner_stop_def phase_defs split: if_splits)
qed

lemma run_inv:
  assumes "scaner_run fuel dfs ul s0 s" and "memory_ok ul p (scaner s0) (mem s0)"
    and t: "tree_ok k dfs p" "k \<le> fuel" "NUL \<notin> set p" "length (images k dfs p) < fuel"
  shows "scaner_inv ul p (images k dfs p) s"
  using assms(1)
proof induction
  case start
  then show ?case using assms(2) by (simp add: scaner_started_def phase_defs)
next
  case (step s s')
  show ?case by (rule step_inv [OF step.hyps(2) step.IH t])
qed

section \<open>Every call returns\<close>

text \<open>An upper bound on the number of steps until the client's call has returned.\<close>

definition worker_left :: "scaner_sys \<Rightarrow> nat" where
  "worker_left s = (case wpc s of WTop \<Rightarrow> if trig_sem (scaner s) > 0 then 12 else 2 | WTake \<Rightarrow> if trig_sem (scaner s) > 0 then 11 else 1
     | WCheck \<Rightarrow> 10 | WScan \<Rightarrow> 9 | WLock \<Rightarrow> 8 | WMove \<Rightarrow> 7 | WUnlock \<Rightarrow> 6 | WPost \<Rightarrow> 5 | WStop \<Rightarrow> 1 | WExit \<Rightarrow> 0)"

definition client_left :: "scaner_sys \<Rightarrow> nat" where
  "client_left s = (case cpc s of CTake \<Rightarrow> 4 | CLock \<Rightarrow> 3 | CMove \<Rightarrow> 2 | CUnlock _ \<Rightarrow> 1 | CStop \<Rightarrow> 1 | _ \<Rightarrow> 0)"

definition steps_left :: "scaner_sys \<Rightarrow> nat" where
  "steps_left s = worker_left s + client_left s"

lemmas left_defs = steps_left_def worker_left_def client_left_def

lemma step_left:
  assumes "scaner_step fuel dfs ul s s'" "scaner_inv ul p ts s" "cpc s \<noteq> CIdle"
  shows "steps_left s' < steps_left s"
  using assms(1)
proof cases
  case work
  then show ?thesis using assms(2,3)
    by (cases "wpc s"; cases "cpc s") (auto simp: scaner_work_def left_defs phase_defs cbind_eq_Inr split: if_splits)
next
  case get
  then show ?thesis using assms(2,3)
    by (cases "cpc s") (auto simp: image_scaner_get_images_def left_defs phase_defs cbind_eq_Inr split: if_splits)
next
  case trigger
  then show ?thesis using assms(3) by (simp add: image_scaner_trigger_scan_def split: if_splits)
next
  case stop
  then show ?thesis using assms(3) by (cases "cpc s") (auto simp: image_scaner_stop_def left_defs Let_def split: if_splits)
qed

lemma step_possible:
  assumes inv: "scaner_inv ul p (images k dfs p) s" and c: "cpc s \<noteq> CIdle" "cpc s \<noteq> CStopped"
    and t: "tree_ok k dfs p" "k \<le> fuel" "NUL \<notin> set p" "length (images k dfs p) < fuel"
  shows "\<exists>s'. scaner_step fuel dfs ul s s'"
proof -
  have "(\<exists>r. scaner_work fuel dfs s = Some r) \<or> (\<exists>r. image_scaner_get_images fuel ul s = Some r) \<or> (\<exists>r. image_scaner_stop s = Some r)"
    using inv c by (cases "cpc s"; cases "wpc s")
      (auto simp: scaner_work_def image_scaner_get_images_def image_scaner_stop_def phase_defs)
  then show ?thesis
    using work_inv [OF inv _ t] get_inv [OF inv _ t(4)] scaner_step.work scaner_step.get scaner_step.stop by metis
qed

text \<open>The calls keep to their code.\<close>

lemma step_call:
  assumes "scaner_step fuel dfs ul s s'" "cpc s \<notin> {CIdle, CStop, CStopped}"
  shows "cpc s' \<notin> {CStop, CStopped} \<and> (cpc s' = CIdle \<longrightarrow> got s' \<noteq> None)"
  using assms(1)
proof cases
  case work
  then show ?thesis using assms(2) by (cases "wpc s") (auto simp: scaner_work_def Let_def cbind_eq_Inr split: if_splits)
next
  case get
  then show ?thesis using assms(2)
    by (cases "cpc s") (auto simp: image_scaner_get_images_def Let_def cbind_eq_Inr split: if_splits)
next
  case trigger
  then show ?thesis using assms(2) by (simp add: image_scaner_trigger_scan_def split: if_splits)
next
  case stop
  then show ?thesis using assms(2) by (cases "cpc s") (auto simp: image_scaner_stop_def)
qed

lemma get_completes:
  assumes "scaner_run fuel dfs ul s0 s" and m: "memory_ok ul p (scaner s0) (mem s0)"
    and t: "tree_ok k dfs p" "k \<le> fuel" "NUL \<notin> set p" "length (images k dfs p) < fuel" and "cpc s \<notin> {CIdle, CStop, CStopped}"
  shows "\<exists>s'. scaner_run fuel dfs ul s0 s' \<and> cpc s' = CIdle \<and> got s' \<noteq> None"
  using assms(1,7)
proof (induction "steps_left s" arbitrary: s rule: less_induct)
  case less
  note inv = run_inv [OF less.prems(1) m t]
  obtain s' where s': "scaner_step fuel dfs ul s s'" using step_possible [OF inv _ _ t] less.prems(2) by blast
  have r: "scaner_run fuel dfs ul s0 s'" by (rule scaner_run.step [OF less.prems(1) s'])
  have "steps_left s' < steps_left s" by (rule step_left [OF s' inv]) (use less.prems(2) in blast)
  then show ?case using less.hyps [OF _ r] step_call [OF s' less.prems(2)] r by blast
qed

section \<open>Properties\<close>

text \<open>C9: the scaner works: over every interleaving of the worker and of a client that triggers scans and fetches their images,
  neither thread ever faults or loops, the mutex keeps them apart, and whenever \<open>image_scaner_get_images\<close> has returned, the client's list holds a node for each image below
  the top directory, in order (as many as there was memory for), and the result is their number. Once \<open>image_scaner_stop\<close> has returned, the worker has ended.\<close>

theorem scaner_delivers_images:
  assumes "scaner_run fuel dfs ul s0 s" and "memory_ok ul p (scaner s0) (mem s0)"
    and "tree_ok k dfs p" and "k \<le> fuel" and "NUL \<notin> set p" and "length (images k dfs p) < fuel"
  shows "scaner_work fuel dfs s \<noteq> Some (Inl e) \<and> image_scaner_get_images fuel ul s \<noteq> Some (Inl e)
    \<and> \<not> (wpc s \<in> {WMove, WUnlock} \<and> (cpc s = CMove \<or> (\<exists>n. cpc s = CUnlock n)))
    \<and> (\<forall>n. cpc s = CIdle \<and> got s = Some n \<longrightarrow> (\<exists>ys. holds_images (mem s) ul ys (images k dfs p) \<and> n = of_nat (length ys)))
    \<and> (cpc s = CStopped \<longrightarrow> wpc s = WExit)"
proof -
  note inv = run_inv [OF assms]
  have "scaner_work fuel dfs s \<noteq> Some (Inl e)" "image_scaner_get_images fuel ul s \<noteq> Some (Inl e)"
    using work_inv [OF inv _ assms(3-6)] get_inv [OF inv _ assms(6)] by blast+
  moreover have "\<not> (wpc s \<in> {WMove, WUnlock} \<and> (cpc s = CMove \<or> (\<exists>n. cpc s = CUnlock n)))"
    using work_busy [OF inv] by auto
  ultimately show ?thesis using inv by (auto simp: scaner_inv_def)
qed

text \<open>C13: every call returns: as long as the client is inside \<open>image_scaner_get_images\<close> or \<open>image_scaner_stop\<close>, some thread can
  run, and every step of either thread brings the return nearer.\<close>

theorem scaner_calls_return:
  assumes "scaner_run fuel dfs ul s0 s" and "memory_ok ul p (scaner s0) (mem s0)"
    and "tree_ok k dfs p" and "k \<le> fuel" and "NUL \<notin> set p" and "length (images k dfs p) < fuel"
    and "cpc s \<noteq> CIdle" and "cpc s \<noteq> CStopped"
  shows "(\<exists>s'. scaner_step fuel dfs ul s s') \<and> (\<forall>s'. scaner_step fuel dfs ul s s' \<longrightarrow> steps_left s' < steps_left s)"
proof -
  note inv = run_inv [OF assms(1-6)]
  show ?thesis using step_possible [OF inv assms(7,8,3-6)] step_left [OF _ inv assms(7)] by blast
qed

text \<open>A card with two images, fetched once.\<close>

definition sample_scaner :: "small_mem \<Rightarrow> scaner_sys" where
  "sample_scaner m = \<lparr>scaner = \<lparr>image_list = 72, scaning_list = 64, running = True, top_dir = 128, owner = None, trig_sem = 0, done_sem = 0,
       stop_sem = 0\<rparr>,
     mem = (app_example m ''/sd'')\<lparr>lists := \<lparr>nx = [64 \<mapsto> 64, 72 \<mapsto> 72, 80 \<mapsto> 80], pv = [64 \<mapsto> 64, 72 \<mapsto> 72, 80 \<mapsto> 80]\<rparr>\<rparr>,
     wpc = WTop, cpc = CIdle, got = None\<rparr>"

lemma sample_scaner_ok:
  "\<exists>m. rt_smem_init 4096 1024 = Some m \<and> memory_ok 80 ''/sd'' (scaner (sample_scaner m)) (mem (sample_scaner m)) \<and> scaner_started (sample_scaner m)"
proof -
  obtain m where m: "rt_smem_init 4096 1024 = Some m" "heap_inv m [(944, False)]" "heap_ptr m = 4160" "heap_end m = 944"
    using example_heap by blast
  have "smem_inv m" using m(2) heap_blocks_eq [OF m(2)] by (simp add: smem_inv_def)
  then have "app_ok (mem (sample_scaner m))"
    using m(3,4) by (auto simp: app_ok_def app_example_def objs_def heap_region_def sample_scaner_def)
  then show ?thesis using m(1)
    by (auto simp: memory_ok_def sample_scaner_def node_at_def app_example_def scaner_started_def)
qed

lemma sample_triggered:
  assumes "scaner_started s"
  shows "\<exists>s'. scaner_run fuel dfs ul s s' \<and> cpc s' = CTake"
proof -
  obtain s' where s': "image_scaner_trigger_scan s = Some s'" "cpc s' = CTake"
    using assms by (auto simp: image_scaner_trigger_scan_def scaner_started_def)
  then show ?thesis using scaner_run.step [OF scaner_run.start [OF assms] scaner_step.trigger] by blast
qed

theorem scaner_delivers_images_witness:
  "\<exists>m s ys n. rt_smem_init 4096 1024 = Some m \<and> scaner_run 5 example_card 80 (sample_scaner m) s \<and> got s = Some n
     \<and> n = of_nat (length ys) \<and> holds_images (mem s) 80 ys [''/sd/a.png'', ''/sd/d/c.jpg'']"
proof -
  obtain m where m: "rt_smem_init 4096 1024 = Some m" "memory_ok 80 ''/sd'' (scaner (sample_scaner m)) (mem (sample_scaner m))"
    "scaner_started (sample_scaner m)" using sample_scaner_ok by blast
  have t: "tree_ok (Suc (Suc 0)) example_card ''/sd''" "Suc (Suc 0) \<le> 5" "NUL \<notin> set ''/sd''"
    "length (images (Suc (Suc 0)) example_card ''/sd'') < 5" using example_card_ok by simp_all
  obtain s1 where s1: "scaner_run 5 example_card 80 (sample_scaner m) s1" "cpc s1 = CTake" using sample_triggered [OF m(3)] by blast
  obtain s where s: "scaner_run 5 example_card 80 (sample_scaner m) s" "cpc s = CIdle" "got s \<noteq> None"
    using get_completes [OF s1(1) m(2) t] s1(2) by auto
  show ?thesis using scaner_delivers_images [OF s(1) m(2) t] s example_card_ok m(1) by (auto split: option.splits) blast
qed

theorem scaner_calls_return_witness:
  "\<exists>m s s'. rt_smem_init 4096 1024 = Some m \<and> scaner_run 5 example_card 80 (sample_scaner m) s \<and> cpc s = CTake
     \<and> scaner_step 5 example_card 80 s s' \<and> steps_left s' < steps_left s"
proof -
  obtain m where m: "rt_smem_init 4096 1024 = Some m" "memory_ok 80 ''/sd'' (scaner (sample_scaner m)) (mem (sample_scaner m))"
    "scaner_started (sample_scaner m)" using sample_scaner_ok by blast
  have t: "tree_ok (Suc (Suc 0)) example_card ''/sd''" "Suc (Suc 0) \<le> 5" "NUL \<notin> set ''/sd''"
    "length (images (Suc (Suc 0)) example_card ''/sd'') < 5" using example_card_ok by simp_all
  obtain s1 where s1: "scaner_run 5 example_card 80 (sample_scaner m) s1" "cpc s1 = CTake" using sample_triggered [OF m(3)] by blast
  show ?thesis using scaner_calls_return [OF s1(1) m(2) t] s1 m(1) by auto
qed

end
