(* ===== verification/Kprintf.thy ===== *)
theory Kprintf
  imports Kstring
begin

text \<open>
  The formatted output of \<^verbatim>\<open>rt-thread/src/kservice.c\<close>: \<open>rt_vsnprintf\<close> with its format directives,
  \<open>print_number\<close>, and \<open>rt_snprintf\<close>, \<open>rt_vsprintf\<close> and \<open>rt_sprintf\<close>, as the repository configures them (\<open>RT_PRINTF_PRECISION\<close>
  defined, \<open>RT_PRINTF_LONGLONG\<close> and \<open>RT_PRINTF_SPECIAL\<close> not). The pure function \<open>fmt_text\<close> says what text a format
  stands for; the code writes that text, cut to the size of the buffer and terminated.
\<close>

section \<open>The output buffer\<close>

text \<open>The array behind \<open>buf\<close>, and the positions \<open>str\<close> and \<open>end\<close> relative to it.\<close>

record out =
  obuf :: "char list"
  ostr :: nat
  oend :: nat

text \<open>\<open>if (str < end) *str = c; ++str;\<close>\<close>

definition put :: "char \<Rightarrow> out \<Rightarrow> out cres" where
  "put c w = cbind (if ostr w < oend w
                    then if ostr w < length (obuf w) then Inr (w\<lparr>obuf := (obuf w)[ostr w := c]\<rparr>) else Inl OutOfBounds
                    else Inr w) (\<lambda>w. Inr (w\<lparr>ostr := ostr w + 1\<rparr>))"

fun put_list :: "char list \<Rightarrow> out \<Rightarrow> out cres" where
  "put_list [] w = Inr w"
| "put_list (c # t) w = cbind (put c w) (put_list t)"

text \<open>\<open>while (lim < n--) put c;\<close> and \<open>while (--n > 0) put c;\<close>, with the value of \<open>n\<close> afterwards.\<close>

function pad_while :: "char \<Rightarrow> int \<Rightarrow> int \<Rightarrow> out \<Rightarrow> (int \<times> out) cres" where
  "pad_while c lim n w = (if lim < n then cbind (put c w) (pad_while c lim (n - 1)) else Inr (n - 1, w))"
  by pat_completeness auto
termination by (relation "measure (\<lambda>(c, lim, n, w). nat (n - lim))") auto

function pad_pre :: "char \<Rightarrow> int \<Rightarrow> out \<Rightarrow> (int \<times> out) cres" where
  "pad_pre c n w = (if n - 1 > 0 then cbind (put c w) (pad_pre c (n - 1)) else Inr (n - 1, w))"
  by pat_completeness auto
termination by (relation "measure (\<lambda>(c, n, w). nat n)") auto

declare pad_while.simps [simp del] pad_pre.simps [simp del]

section \<open>Numbers\<close>

text \<open>The flags are bits of a byte.\<close>

definition ZEROPAD :: nat where "ZEROPAD = 0"
definition SIGN :: nat where "SIGN = 1"
definition PLUS :: nat where "PLUS = 2"
definition SPACE :: nat where "SPACE = 3"
definition LEFT :: nat where "LEFT = 4"
definition SPECIAL :: nat where "SPECIAL = 5"
definition LARGE :: nat where "LARGE = 6"

lemmas flag_defs = ZEROPAD_def SIGN_def PLUS_def SPACE_def LEFT_def SPECIAL_def LARGE_def

definition divide :: "u32 \<Rightarrow> nat \<Rightarrow> nat \<times> u32" where
  "divide n base = (if base = 10 then (unat (n mod 10), n div 10) else (unat (n mod 16), n div 16))"

definition small_digits :: string where "small_digits = ''0123456789abcdef''"
definition large_digits :: string where "large_digits = ''0123456789ABCDEF''"

text \<open>The digits go into \<open>tmp[16]\<close>, the lowest first.\<close>

function digits_loop :: "string \<Rightarrow> nat \<Rightarrow> u32 \<Rightarrow> char list \<Rightarrow> char list cres" where
  "digits_loop digits base num tmp =
     (if num = 0 then Inr tmp
      else if length tmp < 16
      then digits_loop digits base (snd (divide num base)) (tmp @ [digits ! fst (divide num base)])
      else Inl OutOfBounds)"
  by pat_completeness auto
termination by (relation "measure (\<lambda>(digits, base, num, tmp). 16 - length tmp)") auto

declare digits_loop.simps [simp del]

definition number_sign :: "u8 \<Rightarrow> u32 \<Rightarrow> string" where
  "number_sign type num =
     (if bit type SIGN
      then if sint num < 0 then ''-'' else if bit type PLUS then ''+'' else if bit type SPACE then '' '' else []
      else [])"

text \<open>\<open>sign\<close> is empty for \<open>sign = 0\<close>; \<open>num\<close> is a \<open>long\<close>, so its negation is the negation of words.\<close>

definition print_number :: "out \<Rightarrow> u32 \<Rightarrow> nat \<Rightarrow> int \<Rightarrow> int \<Rightarrow> u8 \<Rightarrow> out cres" where
  "print_number w num base s precision type =
     (let precision_bak = precision;
          digits = (if bit type LARGE then large_digits else small_digits);
          type = (if bit type LEFT then unset_bit ZEROPAD type else type);
          c = (if bit type ZEROPAD then CHR ''0'' else CHR '' '');
          sign = number_sign type num;
          num = (if sign = ''-'' then - num else num)
      in cbind (if num = 0 then Inr ''0'' else digits_loop digits base num []) (\<lambda>tmp.
         let i = int (length tmp);
             precision = (if i > precision then i else precision);
             size = s - precision
         in cbind (if \<not> bit type ZEROPAD \<and> \<not> bit type LEFT
                   then pad_while CHR '' '' 0 (if sign \<noteq> [] \<and> size > 0 then size - 1 else size) w
                   else Inr (size, w)) (\<lambda>(size, w).
            cbind (put_list sign w) (\<lambda>w.
            let size = (if sign \<noteq> [] then size - 1 else size)
            in cbind (if \<not> bit type LEFT then pad_while c 0 size w else Inr (size, w)) (\<lambda>(size, w).
               cbind (pad_while CHR ''0'' i precision w) (\<lambda>(_, w).
               cbind (if precision_bak \<noteq> 0 then put_list (rev tmp) w else Inr w) (\<lambda>w.
               cbind (pad_while CHR '' '' 0 size w) (\<lambda>(_, w). Inr w))))))))"

section \<open>Directives\<close>

definition ISDIGIT :: "char \<Rightarrow> bool" where
  "ISDIGIT c \<longleftrightarrow> 48 \<le> (of_char c :: int) \<and> (of_char c :: int) < 58"

text \<open>The format is the bytes from the pointer on; each of these returns what is left of it. A number that leaves the
  range of \<open>int\<close> is a fault.\<close>

fun skip_atoi :: "char list \<Rightarrow> int \<Rightarrow> (int \<times> char list) cres" where
  "skip_atoi [] i = Inl OutOfBounds"
| "skip_atoi (c # fmt) i =
     (if ISDIGIT c
      then if i * 10 + of_char c \<ge> 2 ^ 31 then Inl SignedOverflow else skip_atoi fmt (i * 10 + of_char c - 48)
      else Inr (i, c # fmt))"

fun parse_flags :: "char list \<Rightarrow> u8 \<Rightarrow> (u8 \<times> char list) cres" where
  "parse_flags [] flags = Inl OutOfBounds"
| "parse_flags (c # fmt) flags =
     (if c = CHR ''-'' then parse_flags fmt (set_bit LEFT flags)
      else if c = CHR ''+'' then parse_flags fmt (set_bit PLUS flags)
      else if c = CHR '' '' then parse_flags fmt (set_bit SPACE flags)
      else if c = CHR ''#'' then parse_flags fmt (set_bit SPECIAL flags)
      else if c = CHR ''0'' then parse_flags fmt (set_bit ZEROPAD flags)
      else Inr (flags, c # fmt))"

text \<open>The variable arguments; taking an argument that is not there or of another type is a fault.\<close>

datatype va_arg = VInt u32 | VPtr u32 | VStr "char list option"

fun va_int :: "va_arg list \<Rightarrow> (u32 \<times> va_arg list) cres" where
  "va_int (VInt n # args) = Inr (n, args)"
| "va_int _ = Inl WildDeref"

fun va_ptr :: "va_arg list \<Rightarrow> (u32 \<times> va_arg list) cres" where
  "va_ptr (VPtr n # args) = Inr (n, args)"
| "va_ptr _ = Inl WildDeref"

fun va_str :: "va_arg list \<Rightarrow> (char list option \<times> va_arg list) cres" where
  "va_str (VStr s # args) = Inr (s, args)"
| "va_str _ = Inl WildDeref"

fun parse_width :: "u8 \<Rightarrow> char list \<Rightarrow> va_arg list \<Rightarrow> (u8 \<times> int \<times> char list \<times> va_arg list) cres" where
  "parse_width flags [] args = Inl OutOfBounds"
| "parse_width flags (c # fmt) args =
     (if ISDIGIT c then cbind (skip_atoi (c # fmt) 0) (\<lambda>(fw, fmt). Inr (flags, fw, fmt, args))
      else if c = CHR ''*''
      then cbind (va_int args) (\<lambda>(n, args).
           if sint n < 0
           then if sint n = - (2 ^ 31) then Inl SignedOverflow else Inr (set_bit LEFT flags, - sint n, fmt, args)
           else Inr (flags, sint n, fmt, args))
      else Inr (flags, - 1, c # fmt, args))"

fun parse_precision :: "char list \<Rightarrow> va_arg list \<Rightarrow> (int \<times> char list \<times> va_arg list) cres" where
  "parse_precision (c # d # fmt) args =
     (if c = CHR ''.''
      then if ISDIGIT d then cbind (skip_atoi (d # fmt) 0) (\<lambda>(p, fmt). Inr (p, fmt, args))
           else if d = CHR ''*'' then cbind (va_int args) (\<lambda>(n, args). Inr (if sint n < 0 then 0 else sint n, fmt, args))
           else Inr (0, d # fmt, args)
      else Inr (- 1, c # d # fmt, args))"
| "parse_precision [c] args = (if c = CHR ''.'' then Inl OutOfBounds else Inr (- 1, [c], args))"
| "parse_precision [] args = Inl OutOfBounds"

fun parse_qualifier :: "char list \<Rightarrow> (char \<times> char list) cres" where
  "parse_qualifier [] = Inl OutOfBounds"
| "parse_qualifier (c # fmt) = (if c = CHR ''h'' \<or> c = CHR ''l'' then Inr (c, fmt) else Inr (NUL, c # fmt))"

text \<open>A directive: its flags, width, precision, qualifier, and the format from the conversion on.\<close>

definition parse_directive :: "char list \<Rightarrow> va_arg list \<Rightarrow> (u8 \<times> int \<times> int \<times> char \<times> char list \<times> va_arg list) cres" where
  "parse_directive fmt args =
     cbind (parse_flags fmt 0) (\<lambda>(flags, fmt).
     cbind (parse_width flags fmt args) (\<lambda>(flags, field_width, fmt, args).
     cbind (parse_precision fmt args) (\<lambda>(precision, fmt, args).
     cbind (parse_qualifier fmt) (\<lambda>(qualifier, fmt).
     Inr (flags, field_width, precision, qualifier, fmt, args)))))"

text \<open>\<open>for (len = 0; (len != field_width) && (s[len] != '\0'); len++);\<close>\<close>

fun text_len :: "char list \<Rightarrow> int \<Rightarrow> int \<Rightarrow> int cres" where
  "text_len s field_width len =
     (if len = field_width then Inr len
      else case s of [] \<Rightarrow> Inl OutOfBounds | c # r \<Rightarrow> if c = NUL then Inr len else text_len r field_width (len + 1))"

declare text_len.simps [simp del]

definition put_text :: "u8 \<Rightarrow> int \<Rightarrow> int \<Rightarrow> char list option \<Rightarrow> out \<Rightarrow> out cres" where
  "put_text flags field_width precision arg w =
     (let s = (case arg of None \<Rightarrow> cstr ''(NULL)'' [] | Some s \<Rightarrow> s)
      in cbind (text_len s field_width 0) (\<lambda>len.
         let len = (if precision > 0 \<and> len > precision then precision else len)
         in cbind (if \<not> bit flags LEFT then pad_while CHR '' '' len field_width w else Inr (field_width, w)) (\<lambda>(field_width, w).
            cbind (put_list (take (nat len) s) w) (\<lambda>w.
            cbind (pad_while CHR '' '' len field_width w) (\<lambda>(_, w). Inr w)))))"

definition put_char :: "u8 \<Rightarrow> int \<Rightarrow> u32 \<Rightarrow> out \<Rightarrow> out cres" where
  "put_char flags field_width n w =
     cbind (if \<not> bit flags LEFT then pad_pre CHR '' '' field_width w else Inr (field_width, w)) (\<lambda>(field_width, w).
     cbind (put (char_of (unat n mod 256)) w) (\<lambda>w.
     cbind (pad_pre CHR '' '' field_width w) (\<lambda>(_, w). Inr w)))"

text \<open>The integer conversions: the base, the flags, and the argument at the width of the qualifier.\<close>

definition number_flags :: "char \<Rightarrow> u8 \<Rightarrow> u8" where
  "number_flags conv flags =
     (if conv = CHR ''X'' then set_bit LARGE flags else if conv = CHR ''d'' \<or> conv = CHR ''i'' then set_bit SIGN flags else flags)"

definition number_base :: "char \<Rightarrow> nat" where
  "number_base conv = (if conv = CHR ''o'' then 8 else if conv = CHR ''x'' \<or> conv = CHR ''X'' then 16 else 10)"

definition number_arg :: "char \<Rightarrow> u8 \<Rightarrow> u32 \<Rightarrow> u32" where
  "number_arg qualifier flags n =
     (if qualifier = CHR ''h'' then if bit flags SIGN then signed_take_bit 15 n else take_bit 16 n else n)"

definition is_number :: "char \<Rightarrow> bool" where
  "is_number conv \<longleftrightarrow> conv \<in> set ''oXxdiu''"

text \<open>The conversion at the head of the format; what follows it is left.\<close>

definition convert :: "u8 \<Rightarrow> int \<Rightarrow> int \<Rightarrow> char \<Rightarrow> char \<Rightarrow> char list \<Rightarrow> va_arg list \<Rightarrow> out \<Rightarrow> (char list \<times> va_arg list \<times> out) cres" where
  "convert flags field_width precision qualifier conv fmt args w =
     (if conv = CHR ''c''
      then cbind (va_int args) (\<lambda>(n, args). cbind (put_char flags field_width n w) (\<lambda>w. Inr (fmt, args, w)))
      else if conv = CHR ''s''
      then cbind (va_str args) (\<lambda>(s, args). cbind (put_text flags field_width precision s w) (\<lambda>w. Inr (fmt, args, w)))
      else if conv = CHR ''p''
      then cbind (va_ptr args) (\<lambda>(n, args).
           cbind (if field_width = - 1 then print_number w n 16 8 precision (set_bit ZEROPAD flags)
                  else print_number w n 16 field_width precision flags) (\<lambda>w. Inr (fmt, args, w)))
      else if conv = CHR ''%''
      then cbind (put CHR ''%'' w) (\<lambda>w. Inr (fmt, args, w))
      else if is_number conv
      then cbind (va_int args) (\<lambda>(n, args).
           let flags = number_flags conv flags
           in cbind (print_number w (number_arg qualifier flags n) (number_base conv) field_width precision flags)
                (\<lambda>w. Inr (fmt, args, w)))
      else cbind (put CHR ''%'' w) (\<lambda>w.
           if conv \<noteq> NUL then cbind (put conv w) (\<lambda>w. Inr (fmt, args, w)) else Inr (conv # fmt, args, w)))"

definition directive :: "char list \<Rightarrow> va_arg list \<Rightarrow> out \<Rightarrow> (char list \<times> va_arg list \<times> out) cres" where
  "directive fmt args w =
     cbind (parse_directive fmt args) (\<lambda>(flags, field_width, precision, qualifier, fmt, args).
     case fmt of [] \<Rightarrow> Inl OutOfBounds
     | conv # fmt \<Rightarrow> convert flags field_width precision qualifier conv fmt args w)"

section \<open>The loop over the format\<close>

lemma skip_atoi_rest: "skip_atoi fmt i = Inr (n, r) \<Longrightarrow> length r \<le> length fmt"
  by (induction fmt i rule: skip_atoi.induct) (auto split: if_splits)

lemma parse_flags_rest: "parse_flags fmt f = Inr (g, r) \<Longrightarrow> length r \<le> length fmt"
  by (induction fmt f rule: parse_flags.induct) (auto split: if_splits)

lemma parse_width_rest: "parse_width f fmt args = Inr (g, n, r, a) \<Longrightarrow> length r \<le> length fmt"
  by (cases fmt) (auto simp: cbind_eq_Inr split: if_splits dest!: skip_atoi_rest)

lemma parse_precision_rest: "parse_precision fmt args = Inr (n, r, a) \<Longrightarrow> length r \<le> length fmt"
  by (induction fmt args rule: parse_precision.induct) (auto simp: cbind_eq_Inr split: if_splits dest!: skip_atoi_rest)

lemma parse_qualifier_rest: "parse_qualifier fmt = Inr (q, r) \<Longrightarrow> length r \<le> length fmt"
  by (cases fmt) (auto split: if_splits)

lemma parse_directive_rest: "parse_directive fmt args = Inr (f, n, p, q, r, a) \<Longrightarrow> length r \<le> length fmt"
  unfolding parse_directive_def
  by (auto simp: cbind_eq_Inr dest!: parse_flags_rest parse_width_rest parse_precision_rest parse_qualifier_rest)

lemma convert_rest: "convert f n p q c fmt args w = Inr (r, a, w') \<Longrightarrow> length r \<le> Suc (length fmt)"
  by (auto simp: convert_def cbind_eq_Inr Let_def split: if_splits)

lemma directive_rest:
  assumes "directive fmt args w = Inr (r, a, w')"
  shows "length r \<le> length fmt"
proof -
  obtain f n p q t b where d: "parse_directive fmt args = Inr (f, n, p, q, t, b)"
    and "(case t of [] \<Rightarrow> Inl OutOfBounds | conv # u \<Rightarrow> convert f n p q conv u b w) = Inr (r, a, w')"
    using assms unfolding directive_def by (auto elim!: cbind_eq_InrE)
  then obtain conv u where "t = conv # u" "convert f n p q conv u b w = Inr (r, a, w')" by (cases t) auto
  then show ?thesis using convert_rest parse_directive_rest [OF d] by fastforce
qed

function vsn_loop :: "char list \<Rightarrow> va_arg list \<Rightarrow> out \<Rightarrow> out cres" where
  "vsn_loop fmt args w =
     (case fmt of [] \<Rightarrow> Inl OutOfBounds
      | c # fmt \<Rightarrow>
        if c = NUL then Inr w
        else if c \<noteq> CHR ''%'' then cbind (put c w) (vsn_loop fmt args)
        else cbind (directive fmt args w) (\<lambda>(fmt, args, w). vsn_loop fmt args w))"
  by pat_completeness auto
termination by (relation "measure (\<lambda>(fmt, args, w). length fmt)") (auto dest: directive_rest)

declare vsn_loop.simps [simp del]

text \<open>\<open>buf\<close> is the array and \<open>addr\<close> its address.\<close>

definition rt_vsnprintf :: "nat \<Rightarrow> char list \<Rightarrow> nat \<Rightarrow> char list \<Rightarrow> va_arg list \<Rightarrow> (int \<times> char list) cres" where
  "rt_vsnprintf addr buf sz fmt args =
     (let sz = (if addr + sz \<ge> 2 ^ 32 then 2 ^ 32 - 1 - addr else sz)
      in cbind (vsn_loop fmt args \<lparr>obuf = buf, ostr = 0, oend = sz\<rparr>) (\<lambda>w.
         cbind (if sz > 0
                then let p = (if ostr w < oend w then ostr w else oend w - 1)
                     in if p < length (obuf w) then Inr ((obuf w)[p := NUL]) else Inl OutOfBounds
                else Inr (obuf w)) (\<lambda>b. Inr (int (ostr w), b))))"

definition rt_snprintf :: "nat \<Rightarrow> char list \<Rightarrow> nat \<Rightarrow> char list \<Rightarrow> va_arg list \<Rightarrow> (int \<times> char list) cres" where
  "rt_snprintf addr buf sz fmt args = rt_vsnprintf addr buf sz fmt args"

definition rt_vsprintf :: "nat \<Rightarrow> char list \<Rightarrow> char list \<Rightarrow> va_arg list \<Rightarrow> (int \<times> char list) cres" where
  "rt_vsprintf addr buf fmt args = rt_vsnprintf addr buf (2 ^ 32 - 1) fmt args"

definition rt_sprintf :: "nat \<Rightarrow> char list \<Rightarrow> char list \<Rightarrow> va_arg list \<Rightarrow> (int \<times> char list) cres" where
  "rt_sprintf addr buf fmt args = rt_vsprintf addr buf fmt args"

section \<open>What a format stands for\<close>

text \<open>The digits of a number, the highest first.\<close>

fun digits_of :: "nat \<Rightarrow> nat \<Rightarrow> nat list" where
  "digits_of b n = (if n < b \<or> b \<le> 1 then [n] else digits_of b (n div b) @ [n mod b])"

declare digits_of.simps [simp del]

definition number_digits :: "nat \<Rightarrow> u8 \<Rightarrow> nat \<Rightarrow> string" where
  "number_digits base flags n =
     map (nth (if bit flags LARGE then large_digits else small_digits)) (digits_of (if base = 10 then 10 else 16) n)"

definition number_text :: "u32 \<Rightarrow> nat \<Rightarrow> int \<Rightarrow> int \<Rightarrow> u8 \<Rightarrow> string" where
  "number_text num base width precision flags =
     (let sgn = number_sign flags num;
          ds = number_digits base flags (unat (if sgn = ''-'' then - num else num));
          body = replicate (nat (precision - int (length ds))) CHR ''0'' @ (if precision = 0 then [] else ds);
          fill = nat (width - max precision (int (length ds)) - int (length sgn))
      in if bit flags LEFT then sgn @ body @ replicate fill CHR '' ''
         else if bit flags ZEROPAD then sgn @ replicate fill CHR ''0'' @ body
         else replicate fill CHR '' '' @ sgn @ body)"

definition string_text :: "u8 \<Rightarrow> int \<Rightarrow> int \<Rightarrow> char list option \<Rightarrow> string cres" where
  "string_text flags width precision arg =
     (let s = (case arg of None \<Rightarrow> cstr ''(NULL)'' [] | Some s \<Rightarrow> s)
      in cbind (text_len s width 0) (\<lambda>len.
         let n = (if precision > 0 then min precision len else len); fill = replicate (nat (width - n)) CHR '' ''
         in Inr (if bit flags LEFT then take (nat n) s @ fill else fill @ take (nat n) s)))"

definition char_text :: "u8 \<Rightarrow> int \<Rightarrow> u32 \<Rightarrow> string" where
  "char_text flags width n =
     (let fill = replicate (nat (width - 1)) CHR '' ''; c = char_of (unat n mod 256)
      in if bit flags LEFT then c # fill else fill @ [c])"

definition conv_text :: "u8 \<Rightarrow> int \<Rightarrow> int \<Rightarrow> char \<Rightarrow> char \<Rightarrow> char list \<Rightarrow> va_arg list \<Rightarrow> (char list \<times> va_arg list \<times> string) cres" where
  "conv_text flags width precision qualifier conv fmt args =
     (if conv = CHR ''c'' then cbind (va_int args) (\<lambda>(n, args). Inr (fmt, args, char_text flags width n))
      else if conv = CHR ''s''
      then cbind (va_str args) (\<lambda>(s, args). cbind (string_text flags width precision s) (\<lambda>t. Inr (fmt, args, t)))
      else if conv = CHR ''p''
      then cbind (va_ptr args) (\<lambda>(n, args). Inr (fmt, args,
             if width = - 1 then number_text n 16 8 precision (set_bit ZEROPAD flags) else number_text n 16 width precision flags))
      else if conv = CHR ''%'' then Inr (fmt, args, ''%'')
      else if is_number conv
      then cbind (va_int args) (\<lambda>(n, args). let flags = number_flags conv flags in
             Inr (fmt, args, number_text (number_arg qualifier flags n) (number_base conv) width precision flags))
      else if conv \<noteq> NUL then Inr (fmt, args, [CHR ''%'', conv]) else Inr (conv # fmt, args, ''%''))"

definition directive_text :: "char list \<Rightarrow> va_arg list \<Rightarrow> (char list \<times> va_arg list \<times> string) cres" where
  "directive_text fmt args =
     cbind (parse_directive fmt args) (\<lambda>(flags, width, precision, qualifier, fmt, args).
     case fmt of [] \<Rightarrow> Inl OutOfBounds | conv # fmt \<Rightarrow> conv_text flags width precision qualifier conv fmt args)"

section \<open>The code writes that text\<close>

text \<open>A text written at the current position, as far as it fits.\<close>

definition emit1 :: "char \<Rightarrow> out \<Rightarrow> out" where
  "emit1 c w = w\<lparr>obuf := (if ostr w < oend w then (obuf w)[ostr w := c] else obuf w), ostr := ostr w + 1\<rparr>"

definition emit :: "string \<Rightarrow> out \<Rightarrow> out" where
  "emit t w = foldl (\<lambda>w c. emit1 c w) w t"

definition room :: "out \<Rightarrow> bool" where
  "room w \<longleftrightarrow> oend w \<le> length (obuf w)"

lemma emit_Nil [simp]: "emit [] w = w"
  by (simp add: emit_def)

lemma emit_emit [simp]: "emit t (emit s w) = emit (s @ t) w"
  by (simp add: emit_def)

lemma emit_Cons: "emit (c # t) w = emit t (emit1 c w)"
  by (simp add: emit_def)

lemma room_emit [simp]: "room (emit t w) = room w"
proof (induction t arbitrary: w)
  case (Cons c t)
  have "room (emit1 c w) = room w" by (simp add: room_def emit1_def)
  then show ?case using Cons by (simp add: emit_Cons)
qed simp

lemma put_emit [simp]: "room w \<Longrightarrow> put c w = Inr (emit [c] w)"
  by (auto simp: put_def emit_Cons emit1_def room_def)

lemma put_list_emit [simp]: "room w \<Longrightarrow> put_list t w = Inr (emit t w)"
  by (induction t arbitrary: w) simp_all

lemma pad_while_emit [simp]:
  "room w \<Longrightarrow> pad_while c lim n w = Inr (min n lim - 1, emit (replicate (nat (n - lim)) c) w)"
proof (induction "nat (n - lim)" arbitrary: n w)
  case 0
  then show ?case by (subst pad_while.simps) auto
next
  case (Suc k)
  then have "lim < n" "k = nat (n - 1 - lim)" "nat (n - lim) = Suc (nat (n - 1 - lim))" by auto
  then show ?case using Suc.hyps(1) [of "n - 1" "emit [c] w"] Suc.prems
    by (subst pad_while.simps) (simp add: min_def)
qed

lemma pad_pre_emit [simp]:
  "room w \<Longrightarrow> pad_pre c n w = Inr (min (n - 1) 0, emit (replicate (nat (n - 1)) c) w)"
proof (induction "nat (n - 1)" arbitrary: n w)
  case 0
  then show ?case by (subst pad_pre.simps) auto
next
  case (Suc k)
  then have "0 < n - 1" "k = nat (n - 1 - 1)" "nat (n - 1) = Suc (nat (n - 1 - 1))" by auto
  then show ?case using Suc.hyps(1) [of "n - 1" "emit [c] w"] Suc.prems
    by (subst pad_pre.simps) (simp add: min_def)
qed

lemma put_char_emit: "room w \<Longrightarrow> put_char flags width n w = Inr (emit (char_text flags width n) w)"
  by (simp add: put_char_def char_text_def Let_def)

lemma text_len_nonneg: "text_len s width len = Inr n \<Longrightarrow> 0 \<le> len \<Longrightarrow> 0 \<le> n"
proof (induction s arbitrary: len)
  case Nil
  then show ?case by (subst (asm) text_len.simps) (auto split: if_splits)
next
  case (Cons c s)
  from Cons.prems show ?case
    by (subst (asm) text_len.simps) (auto split: if_splits intro: Cons.IH [of "len + 1"])
qed

lemma put_text_emit: "room w \<Longrightarrow> put_text flags width precision arg w = cbind (string_text flags width precision arg) (\<lambda>t. Inr (emit t w))"
  unfolding put_text_def string_text_def
  by (cases "text_len (case arg of None \<Rightarrow> cstr ''(NULL)'' [] | Some s \<Rightarrow> s) width 0") (auto simp: Let_def min_def)

text \<open>Numbers.\<close>

lemma digits_of_nonempty [simp]: "digits_of b n \<noteq> []"
  by (subst digits_of.simps) simp

lemma length_digits_of: "2 \<le> b \<Longrightarrow> n < b ^ k \<Longrightarrow> 0 < k \<Longrightarrow> length (digits_of b n) \<le> k"
proof (induction k arbitrary: n)
  case (Suc k)
  have "n div b < b ^ k" using Suc.prems(1,2) by (simp add: less_mult_imp_div_less mult.commute)
  then show ?case using Suc by (subst digits_of.simps) (cases k; auto)
qed simp

lemma divide_unat:
  "fst (divide n base) = unat n mod (if base = 10 then 10 else 16)"
  "unat (snd (divide n base)) = unat n div (if base = 10 then 10 else 16)"
  by (simp_all add: divide_def unat_mod unat_div)

lemma digits_loop_digits:
  assumes "num \<noteq> 0" "b = (if base = 10 then 10 else 16)" "length tmp + length (digits_of b (unat num)) \<le> 16"
  shows "digits_loop ds base num tmp = Inr (tmp @ rev (map (nth ds) (digits_of b (unat num))))"
  using assms
proof (induction "unat num" arbitrary: num tmp rule: less_induct)
  case less
  let ?q = "snd (divide num base)" and ?r = "fst (divide num base)"
  have b: "2 \<le> b" using less.prems(2) by auto
  have qr: "?r = unat num mod b" "unat ?q = unat num div b" using divide_unat [of num base] less.prems(2) by auto
  have pos: "0 < unat num" using less.prems(1) by (simp add: unat_gt_0)
  have tmp: "length tmp < 16" using less.prems(3) by (cases "digits_of b (unat num)") auto
  have step: "digits_loop ds base num tmp = digits_loop ds base ?q (tmp @ [ds ! ?r])"
    using less.prems(1) tmp by (subst digits_loop.simps) simp
  show ?case
  proof (cases "unat num < b")
    case True
    then have "?q = 0" "?r = unat num" using qr by (simp_all add: unat_eq_zero)
    then show ?thesis unfolding step using True by (simp add: digits_loop.simps [of _ _ 0] digits_of.simps [of b "unat num"])
  next
    case False
    have d: "digits_of b (unat num) = digits_of b (unat ?q) @ [?r]" using False b qr by (subst digits_of.simps) simp
    have "unat ?q < unat num" using qr(2) b pos by simp
    moreover have "?q \<noteq> 0" using qr(2) False b by (metis div_greater_zero_iff less_numeral_extra(3) not_less unat_0 zero_less_numeral order_less_le_trans)
    ultimately show ?thesis unfolding step d using less.hyps [of ?q "tmp @ [ds ! ?r]"] less.prems(2,3) d by simp
  qed
qed

lemma number_sign_unset [simp]: "number_sign (unset_bit ZEROPAD f) n = number_sign f n"
  by (simp add: number_sign_def bit_unset_bit_iff flag_defs)

lemma number_sign_length: "length (number_sign f n) = (if number_sign f n = [] then 0 else 1)"
  by (auto simp: number_sign_def)

lemma digit_buffer:
  "(if num = 0 then Inr ''0'' else digits_loop (if bit flags LARGE then large_digits else small_digits) base num [])
     = Inr (rev (number_digits base flags (unat num)))"
proof (cases "num = 0")
  case True
  have "digits_of (if base = 10 then 10 else 16) 0 = [0]" by (subst digits_of.simps) simp
  then show ?thesis using True by (simp add: number_digits_def small_digits_def large_digits_def)
next
  case False
  let ?b = "if base = 10 then 10 else 16 :: nat"
  have "unat num < 2 ^ 32" using unsigned_less [of num] by simp
  then have "unat num < ?b ^ 16" by simp
  then have "length (digits_of ?b (unat num)) \<le> 16" by (intro length_digits_of) auto
  then show ?thesis using False digits_loop_digits [OF False refl, of "[]" base] by (simp add: number_digits_def)
qed

lemma print_number_emit:
  assumes "room w"
  shows "print_number w num base width precision flags = Inr (emit (number_text num base width precision flags) w)"
proof -
  let ?n = "if number_sign flags num = ''-'' then - num else num"
  let ?ds = "number_digits base flags (unat ?n)"
  have z: "bit (unset_bit ZEROPAD flags) LEFT = bit flags LEFT" "\<not> bit (unset_bit ZEROPAD flags) ZEROPAD"
    by (auto simp: bit_unset_bit_iff flag_defs)
  have len: "length (number_sign flags num) = (if number_sign flags num = [] then 0 else 1)" by (rule number_sign_length)
  show ?thesis
    using assms len unfolding print_number_def number_text_def Let_def if_distrib [of "\<lambda>t. bit t ZEROPAD"]
    by (auto simp: digit_buffer z max_def min_def split: if_splits)
qed

text \<open>Directives and the whole format.\<close>

lemma convert_emit:
  assumes "room w"
  shows "convert f n p q conv fmt args w = cbind (conv_text f n p q conv fmt args) (\<lambda>(r, a, t). Inr (r, a, emit t w))"
  using assms unfolding convert_def conv_text_def
  by (cases "n = - 1")
    (simp_all add: put_char_emit put_text_emit print_number_emit cbind_assoc case_prod_beta' Let_def if_distrib [of "\<lambda>m. cbind m _"])

lemma directive_emit:
  assumes "room w"
  shows "directive fmt args w = cbind (directive_text fmt args) (\<lambda>(r, a, t). Inr (r, a, emit t w))"
proof (cases "parse_directive fmt args")
  case (Inr x)
  obtain f n p q t b where x: "x = (f, n, p, q, t, b)" by (cases x)
  show ?thesis using assms Inr by (cases t) (simp_all add: directive_def directive_text_def x convert_emit)
qed (simp add: directive_def directive_text_def)

lemma directive_text_rest:
  assumes "directive_text fmt args = Inr (r, a, t)"
  shows "length r \<le> length fmt"
proof -
  let ?w = "\<lparr>obuf = [], ostr = 0, oend = 0\<rparr>"
  have "directive fmt args ?w = Inr (r, a, emit t ?w)"
    using directive_emit [of ?w fmt args] assms by (simp add: room_def)
  then show ?thesis by (rule directive_rest)
qed

function fmt_text :: "char list \<Rightarrow> va_arg list \<Rightarrow> string cres" where
  "fmt_text fmt args =
     (case fmt of [] \<Rightarrow> Inl OutOfBounds
      | c # fmt \<Rightarrow>
        if c = NUL then Inr []
        else if c \<noteq> CHR ''%'' then cbind (fmt_text fmt args) (\<lambda>t. Inr (c # t))
        else cbind (directive_text fmt args) (\<lambda>(fmt, args, s). cbind (fmt_text fmt args) (\<lambda>t. Inr (s @ t))))"
  by pat_completeness auto
termination by (relation "measure (\<lambda>(fmt, args). length fmt)") (auto dest: directive_text_rest)

declare fmt_text.simps [simp del]

lemma vsn_loop_emit:
  "room w \<Longrightarrow> vsn_loop fmt args w = cbind (fmt_text fmt args) (\<lambda>t. Inr (emit t w))"
proof (induction fmt arbitrary: args w rule: measure_induct_rule [of length])
  case (less fmt)
  show ?case
  proof (cases fmt)
    case Nil
    then show ?thesis by (simp add: vsn_loop.simps [of "[]"] fmt_text.simps [of "[]"])
  next
    case (Cons c r)
    consider "c = NUL" | "c \<noteq> NUL" "c \<noteq> CHR ''%''" | "c = CHR ''%''" by blast
    then show ?thesis
    proof cases
      case 1
      then show ?thesis using Cons by (simp add: vsn_loop.simps [of "NUL # r"] fmt_text.simps [of "NUL # r"])
    next
      case 2
      then show ?thesis using Cons less.IH [of r "emit [c] w" args] less.prems
        by (simp add: vsn_loop.simps [of "c # r"] fmt_text.simps [of "c # r"] cbind_assoc)
    next
      case 3
      have "directive r args w = cbind (directive_text r args) (\<lambda>(r, a, t). Inr (r, a, emit t w))" by (rule directive_emit [OF less.prems])
      moreover have "vsn_loop r' a' (emit s w) = cbind (fmt_text r' a') (\<lambda>t. Inr (emit (s @ t) w))"
        if "directive_text r args = Inr (r', a', s)" for r' a' s
        using less.IH [of r' "emit s w" a'] directive_text_rest [OF that] Cons less.prems by simp
      ultimately show ?thesis using Cons 3
        by (cases "directive_text r args") (auto simp: vsn_loop.simps [of "CHR ''%'' # r"] fmt_text.simps [of "CHR ''%'' # r"] cbind_assoc)
    qed
  qed
qed

lemma emit_start:
  "n \<le> length b \<Longrightarrow> emit t \<lparr>obuf = b, ostr = 0, oend = n\<rparr>
     = \<lparr>obuf = take n t @ drop (min n (length t)) b, ostr = length t, oend = n\<rparr>"
proof (induction t rule: rev_induct)
  case (snoc c t)
  have "emit (t @ [c]) \<lparr>obuf = b, ostr = 0, oend = n\<rparr> = emit1 c (emit t \<lparr>obuf = b, ostr = 0, oend = n\<rparr>)"
    by (simp add: emit_def)
  also have "\<dots> = \<lparr>obuf = take n (t @ [c]) @ drop (min n (length (t @ [c]))) b, ostr = length (t @ [c]), oend = n\<rparr>"
  proof (cases "length t < n")
    case True
    then have "drop (length t) b = b ! length t # drop (Suc (length t)) b" "min n (length t) = length t"
      "min n (Suc (length t)) = Suc (length t)" using snoc.prems by (auto simp: Cons_nth_drop_Suc)
    then show ?thesis unfolding snoc.IH [OF snoc.prems] using True by (simp add: emit1_def)
  next
    case False
    then show ?thesis unfolding snoc.IH [OF snoc.prems] by (simp add: emit1_def min_def)
  qed
  finally show ?case .
qed simp

text \<open>What a call leaves in the buffer: the text as far as it fits, a terminator, and behind it what was there.\<close>

definition stored :: "nat \<Rightarrow> string \<Rightarrow> char list \<Rightarrow> char list" where
  "stored sz t buf = (if sz = 0 then buf else take (sz - 1) t @ NUL # drop (min (length t) (sz - 1) + 1) buf)"

lemma rt_vsnprintf_text:
  assumes "sz \<le> length buf" "addr + sz < 2 ^ 32"
  shows "rt_vsnprintf addr buf sz fmt args = cbind (fmt_text fmt args) (\<lambda>t. Inr (int (length t), stored sz t buf))"
proof (cases "fmt_text fmt args")
  case (Inl e)
  then show ?thesis using assms by (simp add: rt_vsnprintf_def vsn_loop_emit room_def)
next
  case (Inr t)
  have "(take sz t @ drop (min sz (length t)) buf)[(if length t < sz then length t else sz - 1) := NUL] = stored sz t buf" if "0 < sz"
  proof (cases "length t < sz")
    case True
    then have "drop (length t) buf = buf ! length t # drop (Suc (length t)) buf" using assms(1) by (simp add: Cons_nth_drop_Suc)
    then show ?thesis using True that by (simp add: stored_def)
  next
    case False
    then have "take sz t = take (sz - 1) t @ [t ! (sz - 1)]" using that take_Suc_conv_app_nth [of "sz - 1" t] by simp
    moreover have "min (length t) (sz - 1) = sz - 1" using False that by simp
    ultimately show ?thesis using False that by (simp add: stored_def list_update_append)
  qed
  then show ?thesis using assms Inr by (auto simp: rt_vsnprintf_def vsn_loop_emit room_def emit_start stored_def Let_def)
qed

section \<open>Numbers as they are read back\<close>

definition digits_value :: "nat \<Rightarrow> nat list \<Rightarrow> nat" where
  "digits_value b ds = foldl (\<lambda>n d. b * n + d) 0 ds"

lemma digits_value_snoc [simp]: "digits_value b (ds @ [d]) = b * digits_value b ds + d"
  by (simp add: digits_value_def)

lemma digits_of_value: "2 \<le> b \<Longrightarrow> digits_value b (digits_of b n) = n \<and> (\<forall>d \<in> set (digits_of b n). d < b)"
proof (induction n rule: less_induct)
  case (less n)
  show ?case
  proof (cases "n < b")
    case True
    then show ?thesis by (simp add: digits_of.simps [of b n] digits_value_def)
  next
    case False
    then have "n div b < n" "n mod b < b" using less.prems by auto
    then show ?thesis using less.IH [of "n div b"] less.prems False by (auto simp: digits_of.simps [of b n])
  qed
qed

lemma small_digit: "d < 10 \<Longrightarrow> small_digits ! d = char_of (48 + d)"
proof -
  have "\<forall>d \<in> set [0..<10]. small_digits ! d = char_of (48 + d)" by code_simp
  then show "d < 10 \<Longrightarrow> small_digits ! d = char_of (48 + d)" by simp
qed

text \<open>The decimal text of a number.\<close>

definition decimal :: "nat \<Rightarrow> string" where
  "decimal n = map (\<lambda>d. char_of (48 + d)) (digits_of 10 n)"

lemma number_digits_decimal: "\<not> bit flags LARGE \<Longrightarrow> number_digits 10 flags n = decimal n"
  using digits_of_value [of 10 n] by (auto simp: number_digits_def decimal_def small_digit)

lemma number_text_plain_unsigned: "number_text n 10 (- 1) (- 1) 0 = decimal (unat n)"
  by (simp add: number_text_def number_sign_def number_digits_decimal)

lemma number_text_plain_signed:
  "number_text n 10 (- 1) (- 1) (2 ^ SIGN) = (if sint n < 0 then CHR ''-'' # decimal (unat (- n)) else decimal (unat n))"
  by (simp add: number_text_def number_sign_def number_digits_decimal flag_defs bit_exp_iff)

lemma neg_word_magnitude: "sint n < 0 \<Longrightarrow> int (unat (- n)) = - sint n" for n :: u32
proof -
  assume neg: "sint n < 0"
  have "- n = word_of_int (- sint n)" by simp
  then have "uint (- n) = take_bit 32 (- sint n)" by (metis len_num1 len_bit0 uint_word_of_int_eq mult_2 one_add_one numeral_Bit0)
  moreover have "- sint n < 2 ^ 32" using sint_greater_eq [of n] by simp
  ultimately show ?thesis using neg by (simp add: take_bit_int_eq_self_iff)
qed

text \<open>The text of one directive alone.\<close>

lemma fmt_text_one:
  assumes "directive_text (fmt @ [NUL]) args = Inr ([NUL], a, t)"
  shows "fmt_text (cstr (CHR ''%'' # fmt) []) args = Inr t"
  using assms by (subst fmt_text.simps) (simp add: cstr_def fmt_text.simps [of "[NUL]"])

lemma fmt_text_plain: "c \<noteq> NUL \<Longrightarrow> c \<noteq> CHR ''%'' \<Longrightarrow> fmt_text (c # fmt) args = cbind (fmt_text fmt args) (\<lambda>t. Inr (c # t))"
  by (simp add: fmt_text.simps [of "c # fmt"])

lemma text_len_cstr: "NUL \<notin> set t \<Longrightarrow> 0 \<le> len \<Longrightarrow> text_len (cstr t r) (- 1) len = Inr (len + int (length t))"
  by (induction t arbitrary: len) (subst text_len.simps; auto simp: cstr_def)+

lemma take_cstr [simp]: "take (length t) (cstr t r) = t"
  by (simp add: cstr_def)

lemma fmt_text_u: "fmt_text (cstr ''%u'' []) [VInt n] = Inr (decimal (unat n))"
  by (rule fmt_text_one)
    (simp add: directive_text_def parse_directive_def ISDIGIT_def conv_text_def is_number_def number_flags_def number_base_def
      number_arg_def number_text_plain_unsigned)

lemma fmt_text_d: "fmt_text (cstr ''%d'' []) [VInt n] = Inr (if sint n < 0 then CHR ''-'' # decimal (unat (- n)) else decimal (unat n))"
  by (rule fmt_text_one)
    (simp add: directive_text_def parse_directive_def ISDIGIT_def conv_text_def is_number_def number_flags_def number_base_def
      number_arg_def number_text_plain_signed)

lemma fmt_text_s:
  "NUL \<notin> set t \<Longrightarrow> fmt_text (cstr ''%s'' []) [VStr (Some (cstr t r))] = Inr t"
  by (rule fmt_text_one)
    (simp add: directive_text_def parse_directive_def ISDIGIT_def conv_text_def string_text_def text_len_cstr)

section \<open>Properties\<close>



text \<open>\<open>%o\<close> prints hexadecimal digits: \<open>divide\<close> knows only the bases 10 and 16, so that octal output is the output of
  \<open>%x\<close>.\<close>

theorem octal_prints_hexadecimal:
  "rt_snprintf addr buf sz (cstr ''%o'' []) [VInt n] = rt_snprintf addr buf sz (cstr ''%x'' []) [VInt n]"
proof -
  have "divide m 8 = divide m 16" for m by (simp add: divide_def)
  then have d: "digits_loop ds 8 m tmp = digits_loop ds 16 m tmp" for ds m tmp
    by (induction ds "8 :: nat" m tmp rule: digits_loop.induct) (subst (1 2) digits_loop.simps, simp)
  have p: "print_number w m 8 s p f = print_number w m 16 s p f" for w m s p f unfolding print_number_def d ..
  have "vsn_loop (cstr ''%o'' []) [VInt n] w = vsn_loop (cstr ''%x'' []) [VInt n] w" for w
    by (simp add: vsn_loop.simps [of "CHR ''%'' # _"] cstr_def directive_def parse_directive_def ISDIGIT_def convert_def is_number_def
      number_flags_def number_base_def number_arg_def p)
  then show ?thesis by (simp add: rt_snprintf_def rt_vsnprintf_def)
qed

end
