(* ===== verification/Kv_Config.thy ===== *)
theory Kv_Config
  imports Kprintf
begin

text \<open>
  The configuration store of \<^verbatim>\<open>applications/kv_config.c\<close>, the slider that writes the switch interval
  (\<open>slider_event_cb\<close> of \<^verbatim>\<open>ui_config_view.c\<close>) and the code that reads it (\<open>get_switch_interval_config\<close> of
  \<^verbatim>\<open>ui_photo_view.c\<close>). The FlashDB package is a parameter: what its three calls do to a database of any type.
\<close>

section \<open>The store\<close>

text \<open>\<open>fdb_kvdb_init\<close> and \<open>fdb_kv_set_blob\<close> return an error code, 0 for \<open>FDB_NO_ERR\<close>; \<open>fdb_kv_get_blob\<close> gives the bytes it
  has copied to a buffer of the given size.\<close>

record 'db flash_db =
  fdb_kvdb_init :: "'db \<Rightarrow> int \<times> 'db"
  fdb_kv_set_blob :: "'db \<Rightarrow> string \<Rightarrow> char list \<Rightarrow> int \<times> 'db"
  fdb_kv_get_blob :: "'db \<Rightarrow> string \<Rightarrow> nat \<Rightarrow> char list"

text \<open>The static variables: the database, \<open>inited\<close>, and whether \<open>config_mtx\<close> has been initialised. A thread that takes the mutex
  gives it back before it returns.\<close>

record 'db config =
  config_db :: 'db
  inited :: bool
  config_mtx :: bool

definition kv_config_init_locked :: "'db flash_db \<Rightarrow> 'db config \<Rightarrow> bool \<times> 'db config" where
  "kv_config_init_locked fdb c = (let (err, db) = fdb_kvdb_init fdb (config_db c) in (err = 0, c\<lparr>config_db := db\<rparr>))"

definition kv_config_init :: "'db flash_db \<Rightarrow> 'db config \<Rightarrow> bool \<times> 'db config" where
  "kv_config_init fdb c =
     (if inited c then (True, c)
      else let (ok, c) = kv_config_init_locked fdb (c\<lparr>config_mtx := True\<rparr>) in (ok, c\<lparr>inited := ok\<rparr>))"

text \<open>Taking a mutex that has not been initialised fails the assertion on its type.\<close>

definition config_ready :: "'db flash_db \<Rightarrow> 'db config \<Rightarrow> 'db config cres" where
  "config_ready fdb c = cbind (rt_assert (config_mtx c)) (\<lambda>_.
     Inr (if inited c then c else let (ok, c) = kv_config_init_locked fdb c in c\<lparr>inited := ok\<rparr>))"

definition kv_config_set :: "'db flash_db \<Rightarrow> string option \<Rightarrow> char list option \<Rightarrow> 'db config \<Rightarrow> (bool \<times> 'db config) cres" where
  "kv_config_set fdb key val c =
     (case (key, val) of (Some k, Some v) \<Rightarrow>
        cbind (config_ready fdb c) (\<lambda>c. cbind (rt_strlen v) (\<lambda>n.
        let (err, db) = fdb_kv_set_blob fdb (config_db c) k (take (n + 1) v) in Inr (err = 0, c\<lparr>config_db := db\<rparr>)))
      | _ \<Rightarrow> Inr (False, c))"

text \<open>The buffer is an array; FlashDB writes the bytes it has read to its start.\<close>

definition kv_config_get :: "'db flash_db \<Rightarrow> string \<Rightarrow> char list \<Rightarrow> nat \<Rightarrow> 'db config \<Rightarrow> (bool \<times> char list \<times> 'db config) cres" where
  "kv_config_get fdb key val val_len c =
     cbind (config_ready fdb c) (\<lambda>c.
     let bytes = fdb_kv_get_blob fdb (config_db c) key val_len
     in if length bytes \<le> length val then Inr (length bytes > 0, bytes @ drop (length bytes) val, c) else Inl OutOfBounds)"

section \<open>The switch interval\<close>

definition CFG_SWITCH_INTERVAL :: string where "CFG_SWITCH_INTERVAL = ''switch_interval''"
definition CFG_SWITCH_INTERVAL_DEFAULT :: string where "CFG_SWITCH_INTERVAL_DEFAULT = ''10''"

text \<open>\<open>atoi\<close> of the C library: white space, a sign, digits; a value outside of \<open>int\<close> is undefined.\<close>

definition is_space :: "char \<Rightarrow> bool" where
  "is_space c \<longleftrightarrow> c \<in> set [CHR '' '', CHR 0x09, CHR 0x0A, CHR 0x0B, CHR 0x0C, CHR 0x0D]"

fun atoi_digits :: "char list \<Rightarrow> int \<Rightarrow> int cres" where
  "atoi_digits [] n = Inl OutOfBounds"
| "atoi_digits (c # s) n = (if ISDIGIT c then atoi_digits s (10 * n + (of_char c - 48)) else Inr n)"

definition in_int :: "int \<Rightarrow> int cres" where
  "in_int n = (if - (2 ^ 31) \<le> n \<and> n < 2 ^ 31 then Inr n else Inl SignedOverflow)"

definition atoi :: "char list \<Rightarrow> int cres" where
  "atoi s = (case dropWhile is_space s of [] \<Rightarrow> Inl OutOfBounds
     | c # t \<Rightarrow> if c = CHR ''-'' then cbind (atoi_digits t 0) (\<lambda>n. in_int (- n))
               else if c = CHR ''+'' then cbind (atoi_digits t 0) in_int else cbind (atoi_digits (c # t) 0) in_int)"

definition get_switch_interval_config :: "'db flash_db \<Rightarrow> 'db config \<Rightarrow> (int \<times> 'db config) cres" where
  "get_switch_interval_config fdb c =
     (let switch_seconds = CFG_SWITCH_INTERVAL_DEFAULT @ replicate (16 - length CFG_SWITCH_INTERVAL_DEFAULT) NUL
      in cbind (kv_config_get fdb CFG_SWITCH_INTERVAL switch_seconds 16 c) (\<lambda>(_, switch_seconds, c).
         cbind (rt_strlen switch_seconds) (\<lambda>n.
         cbind (if n = 0
                then cbind (rt_strcpy switch_seconds 0 (cstr CFG_SWITCH_INTERVAL_DEFAULT [])) (\<lambda>switch_seconds.
                     cbind (kv_config_set fdb (Some CFG_SWITCH_INTERVAL) (Some switch_seconds) c) (\<lambda>(_, c). Inr (switch_seconds, c)))
                else Inr (switch_seconds, c)) (\<lambda>(switch_seconds, c).
         cbind (atoi switch_seconds) (\<lambda>s. cbind (in_int (s * 1000)) (\<lambda>ms. Inr (ms, c)))))))"

text \<open>The event of the slider with the value \<open>v\<close>; \<open>addr\<close> is the address of its static buffer.\<close>

definition slider_event_cb :: "nat \<Rightarrow> 'db flash_db \<Rightarrow> u32 \<Rightarrow> char list \<Rightarrow> 'db config \<Rightarrow> (char list \<times> bool \<times> 'db config) cres" where
  "slider_event_cb addr fdb v buf c =
     cbind (rt_snprintf addr buf 4 (cstr ''%u'' []) [VInt v]) (\<lambda>(_, buf).
     cbind (kv_config_set fdb (Some CFG_SWITCH_INTERVAL) (Some buf) c) (\<lambda>(ok, c). Inr (buf, ok, c)))"

section \<open>Decimal text read back\<close>

lemma digit_char:
  assumes "d < 10"
  shows "ISDIGIT (char_of (48 + d))" "of_char (char_of (48 + d)) = (48 + int d)"
    "\<not> is_space (char_of (48 + d))" "char_of (48 + d) \<notin> {CHR ''-'', CHR ''+'', NUL}"
proof -
  have "\<forall>d \<in> set [0..<10]. ISDIGIT (char_of (48 + d)) \<and> of_char (char_of (48 + d)) = (48 + int d) \<and> \<not> is_space (char_of (48 + d))
      \<and> char_of (48 + d) \<notin> {CHR ''-'', CHR ''+'', NUL}" by code_simp
  then show "ISDIGIT (char_of (48 + d))" "of_char (char_of (48 + d)) = (48 + int d)"
    "\<not> is_space (char_of (48 + d))" "char_of (48 + d) \<notin> {CHR ''-'', CHR ''+'', NUL}" using assms by auto
qed

lemma atoi_digits_map:
  "\<forall>d \<in> set ds. d < 10 \<Longrightarrow> atoi_digits (map (\<lambda>d. char_of (48 + d)) ds @ NUL # r) a = Inr (foldl (\<lambda>n d. 10 * n + int d) a ds)"
  by (induction ds arbitrary: a) (simp_all add: digit_char ISDIGIT_def [of NUL])

lemma int_digits_value: "int (digits_value b ds) = foldl (\<lambda>n d. int b * n + int d) 0 ds"
  unfolding digits_value_def by (induction ds rule: rev_induct) simp_all

lemma atoi_decimal: "atoi (cstr (decimal n) r) = in_int (int n)"
proof -
  have d: "\<forall>d \<in> set (digits_of 10 n). d < 10" "digits_value 10 (digits_of 10 n) = n" using digits_of_value [of 10 n] by auto
  obtain e es where e: "digits_of 10 n = e # es" "e < 10" using d(1) by (cases "digits_of 10 n") auto
  have t: "cstr (decimal n) r = char_of (48 + e) # map (\<lambda>d. char_of (48 + d)) es @ NUL # r" by (simp add: cstr_def decimal_def e)
  then have "dropWhile is_space (cstr (decimal n) r) = cstr (decimal n) r" using digit_char [OF e(2)] by simp
  moreover have "atoi_digits (cstr (decimal n) r) 0 = Inr (int n)"
    using atoi_digits_map [OF d(1), of r 0] int_digits_value [of 10 "digits_of 10 n"] d(2) by (simp add: cstr_def decimal_def)
  ultimately show ?thesis using t digit_char [OF e(2)] by (simp add: atoi_def)
qed

lemma decimal_no_nul: "NUL \<notin> set (decimal n)"
  using digits_of_value [of 10 n] digit_char(4) by (fastforce simp: decimal_def)

lemma decimal_nonempty [simp]: "decimal n \<noteq> []"
  by (simp add: decimal_def)

lemma length_decimal: "n < 10 ^ k \<Longrightarrow> 0 < k \<Longrightarrow> length (decimal n) \<le> k"
  by (simp add: decimal_def length_digits_of)

section \<open>Properties\<close>

text \<open>What FlashDB documents: after a value has been stored without an error, its bytes are read back, as many as the buffer takes.\<close>

definition fdb_keeps :: "'db flash_db \<Rightarrow> bool" where
  "fdb_keeps fdb \<longleftrightarrow> (\<forall>db key val db' n. fdb_kv_set_blob fdb db key val = (0, db') \<longrightarrow> fdb_kv_get_blob fdb db' key n = take n val)"

text \<open>The configuration is open and holds an interval of \<open>v\<close> seconds.\<close>

definition interval_stored :: "'db flash_db \<Rightarrow> 'db config \<Rightarrow> nat \<Rightarrow> bool" where
  "interval_stored fdb c v \<longleftrightarrow> config_mtx c \<and> inited c
     \<and> fdb_kv_get_blob fdb (config_db c) CFG_SWITCH_INTERVAL 16 = cstr (decimal v) []"

lemma interval_read:
  assumes "interval_stored fdb c v" "v * 1000 < 2 ^ 31"
  shows "get_switch_interval_config fdb c = Inr (int v * 1000, c)"
proof -
  have len: "length (decimal v) \<le> 7" using assms(2) by (intro length_decimal) simp_all
  then have "length (cstr (decimal v) []) \<le> 16" by (simp add: cstr_def)
  moreover have "cstr (decimal v) [] @ r = cstr (decimal v) r" for r by (simp add: cstr_def)
  ultimately have "kv_config_get fdb CFG_SWITCH_INTERVAL (CFG_SWITCH_INTERVAL_DEFAULT @ replicate (16 - length CFG_SWITCH_INTERVAL_DEFAULT) NUL) 16 c
      = Inr (True, cstr (decimal v) (drop (length (cstr (decimal v) [])) (CFG_SWITCH_INTERVAL_DEFAULT @ replicate (16 - length CFG_SWITCH_INTERVAL_DEFAULT) NUL)), c)"
    using assms(1) by (simp add: kv_config_get_def config_ready_def interval_stored_def Let_def CFG_SWITCH_INTERVAL_DEFAULT_def) (simp add: cstr_def)
  moreover have "in_int (int v) = Inr (int v)" "in_int (int v * 1000) = Inr (int v * 1000)" using assms(2) by (simp_all add: in_int_def)
  ultimately show ?thesis
    by (simp add: get_switch_interval_config_def Let_def decimal_no_nul atoi_decimal)
qed

text \<open>C37: the interval chosen with the slider is the one the slide show uses: for every value the slider can have, its event writes within its four-byte buffer,
  and when FlashDB has stored the text and returns what was stored, the interval read back is that many seconds in milliseconds.\<close>

theorem slider_interval_roundtrip:
  assumes "config_mtx c" and "inited c" and "unat v < 1000" and "length buf = 4" and "addr + 4 < 2 ^ 32"
    and fdb: "fdb_keeps fdb"
  shows "\<exists>buf' ok c'. slider_event_cb addr fdb v buf c = Inr (buf', ok, c')
    \<and> (ok \<longrightarrow> get_switch_interval_config fdb c' = Inr (int (unat v) * 1000, c'))"
proof -
  let ?t = "decimal (unat v)"
  have len: "length ?t \<le> 3" using assms(3) by (intro length_decimal) simp_all
  then have "stored 4 ?t buf = cstr ?t (drop (length ?t + 1) buf)" by (simp add: stored_def cstr_def)
  then have sn: "rt_snprintf addr buf 4 (cstr ''%u'' []) [VInt v] = Inr (int (length ?t), cstr ?t (drop (length ?t + 1) buf))"
    using rt_vsnprintf_text [of 4 buf addr "cstr ''%u'' []" "[VInt v]"] assms(4,5) fmt_text_u by (simp add: rt_snprintf_def)
  obtain err db' where set: "fdb_kv_set_blob fdb (config_db c) CFG_SWITCH_INTERVAL (cstr ?t []) = (err, db')" by fastforce
  have tk: "take (length ?t + 1) (cstr ?t r) = cstr ?t []" for r by (simp add: cstr_def)
  let ?c = "c\<lparr>config_db := db'\<rparr>"
  have "slider_event_cb addr fdb v buf c = Inr (cstr ?t (drop (length ?t + 1) buf), err = 0, ?c)"
    using assms(1,2) set by (simp add: slider_event_cb_def sn kv_config_set_def config_ready_def decimal_no_nul tk [simplified])
  moreover have "get_switch_interval_config fdb ?c = Inr (int (unat v) * 1000, ?c)" if "err = 0"
  proof (rule interval_read)
    have "fdb_kv_get_blob fdb db' CFG_SWITCH_INTERVAL 16 = cstr ?t []" using fdb set that len by (simp add: cstr_def fdb_keeps_def)
    then show "interval_stored fdb ?c (unat v)" using assms(1,2) by (simp add: interval_stored_def)
  qed (use assms(3) in simp)
  ultimately show ?thesis by blast
qed

text \<open>A stored interval of sixteen characters or more, which the shell command \<open>kv_config_test\<close> can store, is read without its
  terminator, and the length test runs past the end of the buffer.\<close>

theorem long_interval_overruns:
  assumes "config_mtx c" and "inited c" and "length (fdb_kv_get_blob fdb (config_db c) CFG_SWITCH_INTERVAL 16) = 16"
    and "NUL \<notin> set (fdb_kv_get_blob fdb (config_db c) CFG_SWITCH_INTERVAL 16)"
  shows "get_switch_interval_config fdb c = Inl OutOfBounds"
proof -
  have "strlen_loop s n = Inl OutOfBounds" if "NUL \<notin> set s" for s n using that by (induction s arbitrary: n) auto
  then have "rt_strlen s = Inl OutOfBounds" if "NUL \<notin> set s" for s using that by (simp add: rt_strlen_def)
  then show ?thesis
    using assms by (simp add: get_switch_interval_config_def kv_config_get_def config_ready_def CFG_SWITCH_INTERVAL_DEFAULT_def Let_def)
qed

text \<open>A store that keeps the bytes under their keys.\<close>

definition sample_fdb :: "(string \<Rightarrow> char list) flash_db" where
  "sample_fdb = \<lparr>fdb_kvdb_init = (\<lambda>db. (0, db)), fdb_kv_set_blob = (\<lambda>db key val. (0, db(key := val))),
     fdb_kv_get_blob = (\<lambda>db key n. take n (db key))\<rparr>"

definition sample_config :: "char list \<Rightarrow> (string \<Rightarrow> char list) config" where
  "sample_config t = \<lparr>config_db = (\<lambda>_. t), inited = True, config_mtx = True\<rparr>"

theorem slider_interval_roundtrip_witness:
  "\<exists>buf ok c. slider_event_cb 4096 sample_fdb 25 (replicate 4 NUL) (sample_config []) = Inr (buf, ok, c)
     \<and> (ok \<longrightarrow> get_switch_interval_config sample_fdb c = Inr (25000, c))"
proof -
  have "\<exists>buf' ok c'. slider_event_cb 4096 sample_fdb 25 (replicate 4 NUL) (sample_config []) = Inr (buf', ok, c')
      \<and> (ok \<longrightarrow> get_switch_interval_config sample_fdb c' = Inr (int (unat (25 :: u32)) * 1000, c'))"
    by (rule slider_interval_roundtrip) (auto simp: sample_config_def sample_fdb_def fdb_keeps_def)
  then show ?thesis by simp
qed

theorem long_interval_overruns_witness:
  "get_switch_interval_config sample_fdb (sample_config ''1234567890123456789'') = Inl OutOfBounds"
  by (rule long_interval_overruns) (simp_all add: sample_config_def sample_fdb_def)

end
