(* ===== verification/Photo_View.thy ===== *)
theory Photo_View
  imports Scaner_Work Kv_Config
begin

text \<open>
  The slide show of \<^verbatim>\<open>applications/ui_photo_view.c\<close>: \<open>ui_photo_view_create\<close> from the point where it has the list of images, and the timer
  callback that goes from image to image. The graphics library is seen through what it is told: the sources given to
  \<open>lv_img_set_src\<close> and the period of the timer.
\<close>

section \<open>Operations\<close>

text \<open>The static variables: the buffer \<open>image_path\<close>, the context of the timer; the sources shown so far; the heap
  with the image nodes; the configuration.\<close>

record 'db photo_view =
  vmem :: app_mem
  path_buf :: "char list"
  ctx_list :: ptr
  ctx_iter :: ptr
  sources :: "string list"
  period :: int
  cfg :: "'db config"

text \<open>\<open>rt_snprintf(image_path, sizeof(image_path), "A:%s", image_node->path); lv_img_set_src(img, image_path);\<close> for the node at
  \<open>p\<close>; \<open>addr\<close> is the address of the buffer.\<close>

definition show_image :: "nat \<Rightarrow> ptr \<Rightarrow> 'db photo_view \<Rightarrow> 'db photo_view cres" where
  "show_image addr p v = (case inodes (vmem v) p of None \<Rightarrow> Inl WildDeref
     | Some image_node \<Rightarrow> cbind (str_at (vmem v) (ipath image_node)) (\<lambda>path.
         cbind (rt_snprintf addr (path_buf v) 256 (cstr ''A:%s'' []) [VStr path]) (\<lambda>(_, b).
         Inr (v\<lparr>path_buf := b, sources := sources v @ [ctext b]\<rparr>))))"

definition timer_cb :: "nat \<Rightarrow> 'db flash_db \<Rightarrow> 'db photo_view \<Rightarrow> 'db photo_view cres" where
  "timer_cb addr fdb v =
     cbind (rt_assert (ctx_list v \<noteq> RT_NULL)) (\<lambda>_. cbind (rt_assert (ctx_iter v \<noteq> RT_NULL)) (\<lambda>_.
     cbind (show_image addr (ctx_iter v) v) (\<lambda>v.
     cbind (load (nx (lists (vmem v))) (ctx_iter v)) (\<lambda>n.
     cbind (if n = ctx_list v then load (nx (lists (vmem v))) (ctx_list v) else Inr n) (\<lambda>n.
     cbind (get_switch_interval_config fdb (cfg v)) (\<lambda>(ms, c). Inr (v\<lparr>ctx_iter := n, period := ms, cfg := c\<rparr>)))))))"

text \<open>\<open>ui_photo_view_create\<close> with the list it got (\<open>RT_NULL\<close> if it got none).\<close>

definition ui_photo_view_create :: "nat \<Rightarrow> 'db flash_db \<Rightarrow> ptr \<Rightarrow> 'db photo_view \<Rightarrow> 'db photo_view cres" where
  "ui_photo_view_create addr fdb image_head v =
     (if image_head \<noteq> RT_NULL
      then cbind (load (nx (lists (vmem v))) image_head) (\<lambda>node.
           if node \<noteq> RT_NULL
           then cbind (show_image addr node v) (\<lambda>v.
                cbind (load (nx (lists (vmem v))) node) (\<lambda>n.
                cbind (get_switch_interval_config fdb (cfg v)) (\<lambda>(ms, c).
                Inr (v\<lparr>ctx_list := image_head, ctx_iter := n, period := ms, cfg := c\<rparr>))))
           else Inr v)
      else Inr v)"

text \<open>The timer fires \<open>n\<close> times.\<close>

fun ticks :: "nat \<Rightarrow> nat \<Rightarrow> 'db flash_db \<Rightarrow> 'db photo_view \<Rightarrow> 'db photo_view cres" where
  "ticks 0 addr fdb v = Inr v"
| "ticks (Suc n) addr fdb v = cbind (ticks n addr fdb v) (timer_cb addr fdb)"

section \<open>Going round\<close>

lemma clist_next_mod:
  assumes "clist h l ys" "i < length ys"
  shows "nx h (ys ! i) = Some (if i + 1 < length ys then ys ! (i + 1) else l)"
proof -
  have c: "chain (nx h) (l # ys @ [l])" using assms(1) by (simp add: clist_def)
  have "chain f zs \<Longrightarrow> j + 1 < length zs \<Longrightarrow> f (zs ! j) = Some (zs ! (j + 1))" for f zs j
    by (induction f zs arbitrary: j rule: chain.induct) (auto simp: nth_Cons split: nat.splits)
  from this [OF c, of "Suc i"] assms(2) show ?thesis by (simp add: nth_append)
qed

text \<open>The images shown by a list, with room for every path in the buffer.\<close>

definition shows_images :: "app_mem \<Rightarrow> ptr \<Rightarrow> ptr list \<Rightarrow> string list \<Rightarrow> bool" where
  "shows_images m l ys ts \<longleftrightarrow> holds_images m l ys ts \<and> \<not> oom m \<and> (\<forall>t \<in> set ts. NUL \<notin> set t \<and> length t < 254)"

text \<open>The view on a list: its buffer and its configuration are usable.\<close>

definition view_ok :: "nat \<Rightarrow> 'db flash_db \<Rightarrow> nat \<Rightarrow> 'db photo_view \<Rightarrow> bool" where
  "view_ok addr fdb secs v \<longleftrightarrow> length (path_buf v) = 256 \<and> addr + 256 < 2 ^ 32 \<and> interval_stored fdb (cfg v) secs \<and> secs * 1000 < 2 ^ 31"

lemma fmt_text_path: "NUL \<notin> set t \<Longrightarrow> fmt_text (cstr ''A:%s'' []) [VStr (Some (cstr t r))] = Inr (''A:'' @ t)"
  using fmt_text_s [of t r] by (simp add: fmt_text_plain cstr_def)

lemma show_image_ok:
  assumes "image_at (vmem v) p t f" "\<not> oom (vmem v)" "NUL \<notin> set t" "length t < 254" "length (path_buf v) = 256" "addr + 256 < 2 ^ 32"
  obtains b where "show_image addr p v = Inr (v\<lparr>path_buf := b, sources := sources v @ [''A:'' @ t]\<rparr>)" "length b = 256"
proof -
  obtain i where i: "inodes (vmem v) p = Some i" "ipath i \<noteq> RT_NULL" "strs (vmem v) (ipath i) = Some (cstr t [])"
    using assms(1,2) by (auto simp: image_at_def shows_text_def split: option.splits if_splits)
  let ?b = "stored 256 (''A:'' @ t) (path_buf v)"
  have b: "?b = cstr (''A:'' @ t) (drop (length t + 3) (path_buf v))" using assms(4) by (simp add: stored_def cstr_def numeral_3_eq_3)
  have "rt_snprintf addr (path_buf v) 256 (cstr ''A:%s'' []) [VStr (Some (cstr t []))] = Inr (int (length t + 2), ?b)"
    using rt_vsnprintf_text [of 256 "path_buf v" addr] assms(5,6) fmt_text_path [OF assms(3)] by (simp add: rt_snprintf_def)
  moreover have "ctext ?b = ''A:'' @ t" unfolding b using assms(3) by (intro ctext_cstr) simp
  ultimately have "show_image addr p v = Inr (v\<lparr>path_buf := ?b, sources := sources v @ [''A:'' @ t]\<rparr>)"
    using i by (simp add: show_image_def str_at_def)
  moreover have "length ?b = 256" unfolding b using assms(4,5) by (simp add: cstr_def)
  ultimately show ?thesis using that by blast
qed

lemma shows_images_nth:
  assumes "shows_images m l ys ts" "i < length ts"
  shows "image_at m (ys ! i) (ts ! i) (extension (ts ! i))" "length ys = length ts" "NUL \<notin> set (ts ! i)" "length (ts ! i) < 254"
    "clist (lists m) l ys" "\<not> oom m"
  using assms by (auto simp: shows_images_def holds_images_def list_all2_conv_all_nth)

text \<open>One tick at position \<open>i\<close>.\<close>

lemma timer_cb_ok:
  assumes sh: "shows_images (vmem v) (ctx_list v) ys ts" and i: "i < length ts" "ctx_iter v = ys ! i" and v: "view_ok addr fdb secs v"
  obtains v' where "timer_cb addr fdb v = Inr v'" "vmem v' = vmem v" "ctx_list v' = ctx_list v" "ctx_iter v' = ys ! (Suc i mod length ts)"
    "sources v' = sources v @ [''A:'' @ ts ! i]" "view_ok addr fdb secs v'" "period v' = int secs * 1000"
proof -
  note t = shows_images_nth [OF sh i(1)]
  let ?l = "ctx_list v"
  have nz: "ys ! i \<noteq> RT_NULL" "?l \<noteq> RT_NULL" using t(1) clist_nodes [OF t(5), of ?l] by (auto simp: image_at_def node_at_def)
  obtain b where b: "show_image addr (ys ! i) v = Inr (v\<lparr>path_buf := b, sources := sources v @ [''A:'' @ ts ! i]\<rparr>)" "length b = 256"
    using show_image_ok [OF t(1,6,3,4)] v by (auto simp: view_ok_def)
  have n: "load (nx (lists (vmem v))) (ys ! i) = Inr (if Suc i < length ts then ys ! Suc i else ?l)"
    using clist_next_mod [OF t(5), of i] i(1) t(2) nz(1) by simp
  have ne: "ys ! Suc i \<noteq> ?l" if "Suc i < length ts"
  proof -
    have "ys ! Suc i \<in> set ys" using that t(2) by (intro nth_mem) simp
    moreover have "?l \<notin> set ys" using t(5) by (simp add: clist_def)
    ultimately show ?thesis by metis
  qed
  have h: "load (nx (lists (vmem v))) ?l = Inr (ys ! 0)"
    using clist_next_head [OF t(5)] nz(2) t(2) i(1) by (cases ys) auto
  have c: "get_switch_interval_config fdb (cfg v) = Inr (int secs * 1000, cfg v)" using interval_read v by (auto simp: view_ok_def)
  have "timer_cb addr fdb v = Inr (v\<lparr>path_buf := b, sources := sources v @ [''A:'' @ ts ! i], ctx_iter := ys ! (Suc i mod length ts),
      period := int secs * 1000, cfg := cfg v\<rparr>)"
  proof (cases "Suc i < length ts")
    case True
    then show ?thesis using nz b(1) n ne c by (simp add: timer_cb_def i(2))
  next
    case False
    then have "length ts = Suc i" using i(1) by linarith
    then have "Suc i mod length ts = 0" by simp
    then show ?thesis using False nz b(1) n h c by (simp add: timer_cb_def i(2))
  qed
  then show ?thesis using that b(2) v by (simp add: view_ok_def)
qed

lemma ticks_ok:
  assumes "shows_images (vmem v) (ctx_list v) ys ts" "1 < length ts" "ctx_iter v = ys ! 1" "view_ok addr fdb secs v" "period v = int secs * 1000"
  shows "\<exists>v'. ticks n addr fdb v = Inr v' \<and> vmem v' = vmem v \<and> ctx_list v' = ctx_list v \<and> ctx_iter v' = ys ! (Suc n mod length ts)
    \<and> sources v' = sources v @ map (\<lambda>j. ''A:'' @ ts ! (Suc j mod length ts)) [0..<n] \<and> view_ok addr fdb secs v' \<and> period v' = int secs * 1000"
proof (induction n)
  case 0
  then show ?case using assms by simp
next
  case (Suc n)
  then obtain v' where v': "ticks n addr fdb v = Inr v'" "vmem v' = vmem v" "ctx_list v' = ctx_list v" "ctx_iter v' = ys ! (Suc n mod length ts)"
    "sources v' = sources v @ map (\<lambda>j. ''A:'' @ ts ! (Suc j mod length ts)) [0..<n]" "view_ok addr fdb secs v'" by blast
  have "Suc n mod length ts < length ts" using assms(2) by (intro mod_less_divisor) linarith
  moreover have "shows_images (vmem v') (ctx_list v') ys ts" using assms(1) v'(2,3) by simp
  ultimately obtain v'' where "timer_cb addr fdb v' = Inr v''" "vmem v'' = vmem v'" "ctx_list v'' = ctx_list v'"
    "ctx_iter v'' = ys ! (Suc (Suc n mod length ts) mod length ts)" "sources v'' = sources v' @ [''A:'' @ ts ! (Suc n mod length ts)]"
    "view_ok addr fdb secs v''" "period v'' = int secs * 1000"
    using timer_cb_ok [OF _ _ v'(4,6)] by metis
  then show ?case using v' by (simp add: mod_Suc_eq)
qed

lemma create_ok:
  assumes sh: "shows_images (vmem v) l ys ts" and n: "0 < length ts" and v: "view_ok addr fdb secs v"
  obtains v' where "ui_photo_view_create addr fdb l v = Inr v'" "vmem v' = vmem v" "ctx_list v' = l"
    "ctx_iter v' = (if length ts = 1 then l else ys ! 1)" "sources v' = sources v @ [''A:'' @ ts ! 0]" "view_ok addr fdb secs v'"
    "period v' = int secs * 1000"
proof -
  note t = shows_images_nth [OF sh n]
  have nz: "ys ! 0 \<noteq> RT_NULL" "l \<noteq> RT_NULL" using t(1) clist_nodes [OF t(5), of l] by (auto simp: image_at_def node_at_def)
  have h: "load (nx (lists (vmem v))) l = Inr (ys ! 0)" using clist_next_head [OF t(5)] nz(2) t(2) n by (cases ys) auto
  have k: "load (nx (lists (vmem v))) (ys ! 0) = Inr (if length ts = 1 then l else ys ! 1)"
    using clist_next_mod [OF t(5), of 0] n t(2) nz(1) by (cases "length ts = 1") auto
  obtain b where b: "show_image addr (ys ! 0) v = Inr (v\<lparr>path_buf := b, sources := sources v @ [''A:'' @ ts ! 0]\<rparr>)" "length b = 256"
    using show_image_ok [OF t(1,6,3,4)] v by (auto simp: view_ok_def)
  have c: "get_switch_interval_config fdb (cfg v) = Inr (int secs * 1000, cfg v)" using interval_read v by (auto simp: view_ok_def)
  have "ui_photo_view_create addr fdb l v = Inr (v\<lparr>path_buf := b, sources := sources v @ [''A:'' @ ts ! 0], ctx_list := l,
      ctx_iter := (if length ts = 1 then l else ys ! 1), period := int secs * 1000, cfg := cfg v\<rparr>)"
    using nz h k b(1) c by (simp add: ui_photo_view_create_def)
  then show ?thesis using that b(2) v by (simp add: view_ok_def)
qed

lemma slideshow_sources:
  assumes "1 < length ts"
  shows "[''A:'' @ ts ! 0] @ map (\<lambda>j. ''A:'' @ ts ! (Suc j mod length ts)) [0..<n] = map (\<lambda>j. ''A:'' @ ts ! (j mod length ts)) [0..<Suc n]"
  using assms by (induction n) (auto simp: mod_Suc)

lemma slideshow_run:
  assumes sh: "shows_images (vmem v) l ys ts" and n: "1 < length ts" and v: "view_ok addr fdb secs v"
  shows "\<exists>v'. cbind (ui_photo_view_create addr fdb l v) (ticks n addr fdb) = Inr v'
    \<and> sources v' = sources v @ map (\<lambda>j. ''A:'' @ ts ! (j mod length ts)) [0..<Suc n] \<and> period v' = int secs * 1000"
proof -
  obtain v1 where 1: "ui_photo_view_create addr fdb l v = Inr v1" "vmem v1 = vmem v" "ctx_list v1 = l" "ctx_iter v1 = ys ! 1"
    "sources v1 = sources v @ [''A:'' @ ts ! 0]" "view_ok addr fdb secs v1" "period v1 = int secs * 1000"
  proof (rule create_ok [OF sh _ v])
    show "0 < length ts" using n by linarith
  qed (use n in simp)
  have "shows_images (vmem v1) (ctx_list v1) ys ts" using sh 1(2,3) by simp
  from ticks_ok [OF this n 1(4,6,7), of n] show ?thesis
    using 1(1,5) slideshow_sources [OF n, of n] by auto
qed

text \<open>The paths a scan finds are texts.\<close>

lemma images_text: "NUL \<notin> set p \<Longrightarrow> t \<in> set (images k dfs p) \<Longrightarrow> NUL \<notin> set t"
proof (induction k arbitrary: p)
  case (Suc k)
  have n: "NUL \<notin> set (entry_path p e)" for e using Suc.prems(1) by (simp add: entry_path_def)
  show ?case using Suc.prems(2) Suc.IH [OF n] n by (auto simp: images_step entry_images_def split: option.splits if_splits)
qed simp

section \<open>Properties\<close>

text \<open>The slide show goes round: created on a list of at least two images it shows the first, and with each tick of its timer the next one, starting
  again behind the last, without a fault and with the configured period.\<close>

theorem slideshow_round_robin:
  assumes "holds_images (vmem v) l ys ts" and "\<not> oom (vmem v)" and "\<forall>t \<in> set ts. NUL \<notin> set t \<and> length t < 254"
    and "1 < length ts" and "view_ok addr fdb secs v"
  shows "\<exists>v'. cbind (ui_photo_view_create addr fdb l v) (ticks n addr fdb) = Inr v'
    \<and> sources v' = sources v @ map (\<lambda>j. ''A:'' @ ts ! (j mod length ts)) [0..<Suc n] \<and> period v' = int secs * 1000"
  using slideshow_run [of v l ys ts] assms by (simp add: shows_images_def)

text \<open>With one image the slide show shows it and faults at the first tick, with none it faults when it is created: the list
  head is taken for an image node.\<close>

theorem slideshow_needs_two_images:
  assumes "holds_images (vmem v) l ys ts" and "\<not> oom (vmem v)" and "\<forall>t \<in> set ts. NUL \<notin> set t \<and> length t < 254"
    and "inodes (vmem v) l = None" and "view_ok addr fdb secs v" and "length ts \<le> 1"
  shows "cbind (ui_photo_view_create addr fdb l v) (timer_cb addr fdb) = Inl WildDeref
    \<and> (ts = [] \<longrightarrow> ui_photo_view_create addr fdb l v = Inl WildDeref)"
proof (cases "ts = []")
  case True
  then have c: "clist (lists (vmem v)) l []" using assms(1,2) by (auto simp: holds_images_def)
  have "ui_photo_view_create addr fdb l v = Inl WildDeref"
    using clist_next_head [OF c] clist_nodes [OF c, of l] assms(4) by (simp add: ui_photo_view_create_def show_image_def node_at_def)
  then show ?thesis by simp
next
  case False
  have sh: "shows_images (vmem v) l ys ts" using assms(1-3) by (simp add: shows_images_def)
  have one: "length ts = 1" using False assms(6) by (cases ts) auto
  obtain v' where v': "ui_photo_view_create addr fdb l v = Inr v'" "vmem v' = vmem v" "ctx_list v' = l" "ctx_iter v' = l"
    using create_ok [OF sh _ assms(5)] one by (metis zero_less_one)
  have "l \<noteq> RT_NULL" using clist_nodes [of "lists (vmem v)" l ys l] assms(1) by (simp add: holds_images_def node_at_def)
  then have "timer_cb addr fdb v' = Inl WildDeref" using v' assms(4) by (simp add: timer_cb_def show_image_def)
  then show ?thesis using v'(1) False by simp
qed

text \<open>An empty list.\<close>

definition sample_view :: "small_mem \<Rightarrow> (string \<Rightarrow> char list) photo_view" where
  "sample_view m = \<lparr>vmem = app_example m [], path_buf = replicate 256 NUL, ctx_list = RT_NULL, ctx_iter = RT_NULL, sources = [], period = 0,
     cfg = sample_config (cstr (decimal 10) [])\<rparr>"

lemma sample_view_ok: "view_ok 4096 sample_fdb 10 (sample_view m)"
proof -
  have "length (decimal 10) \<le> 2" by (rule length_decimal) simp_all
  then show ?thesis by (simp add: view_ok_def sample_view_def interval_stored_def sample_config_def sample_fdb_def cstr_def)
qed

theorem slideshow_needs_two_images_witness:
  "\<exists>m. rt_smem_init 4096 1024 = Some m \<and> ui_photo_view_create 4096 sample_fdb 64 (sample_view m) = Inl WildDeref"
proof -
  obtain m where m: "rt_smem_init 4096 1024 = Some m" using app_example_ok by blast
  have "clist (lists (vmem (sample_view m))) 64 []" by (simp add: sample_view_def app_example_def clist_nil_iff)
  then have h: "holds_images (vmem (sample_view m)) 64 [] []" by (simp add: holds_images_def)
  have "ui_photo_view_create 4096 sample_fdb 64 (sample_view m) = Inl WildDeref"
    using slideshow_needs_two_images [OF h _ _ _ sample_view_ok] by (simp add: sample_view_def app_example_def)
  then show ?thesis using m by blast
qed

text \<open>Two images that are in memory already.\<close>

definition sample_images :: "small_mem \<Rightarrow> app_mem" where
  "sample_images m = \<lparr>heap = m, strs = [300 \<mapsto> cstr ''/a.png'' [], 310 \<mapsto> cstr ''png'' [], 320 \<mapsto> cstr ''/b.jpg'' [], 330 \<mapsto> cstr ''jpg'' []],
     inodes = [100 \<mapsto> \<lparr>ipath = 300, iformat = 310\<rparr>, 200 \<mapsto> \<lparr>ipath = 320, iformat = 330\<rparr>],
     lists = \<lparr>nx = [64 \<mapsto> 100, 100 \<mapsto> 200, 200 \<mapsto> 64], pv = [64 \<mapsto> 200, 200 \<mapsto> 100, 100 \<mapsto> 64]\<rparr>,
     junk = NUL, self_name = [], oom = False\<rparr>"

theorem slideshow_round_robin_witness:
  "\<exists>m v'. rt_smem_init 4096 1024 = Some m \<and> cbind (ui_photo_view_create 4096 sample_fdb 64 ((sample_view m)\<lparr>vmem := sample_images m\<rparr>)) (ticks 4 4096 sample_fdb) = Inr v'
     \<and> sources v' = [''A:/a.png'', ''A:/b.jpg'', ''A:/a.png'', ''A:/b.jpg'', ''A:/a.png'']"
proof -
  obtain m where m: "rt_smem_init 4096 1024 = Some m" using app_example_ok by blast
  let ?v = "(sample_view m)\<lparr>vmem := sample_images m\<rparr>" and ?ts = "[''/a.png'', ''/b.jpg'']"
  have e: "extension ''/a.png'' = ''png''" "extension ''/b.jpg'' = ''jpg''" by code_simp+
  have "holds_images (vmem ?v) 64 [100, 200] ?ts"
    by (simp add: holds_images_def sample_images_def clist_def image_at_def shows_text_def e)
  moreover have "view_ok 4096 sample_fdb 10 ?v" using sample_view_ok [of m] by (simp add: view_ok_def)
  ultimately obtain v' where "cbind (ui_photo_view_create 4096 sample_fdb 64 ?v) (ticks 4 4096 sample_fdb) = Inr v'"
    "sources v' = sources ?v @ map (\<lambda>j. ''A:'' @ ?ts ! (j mod length ?ts)) [0..<Suc 4]"
    using slideshow_round_robin [of ?v 64 "[100, 200]" ?ts 4096 sample_fdb 10 4] by (auto simp: sample_images_def)
  moreover have "map (\<lambda>j. ''A:'' @ ?ts ! (j mod length ?ts)) [0..<Suc 4] = [''A:/a.png'', ''A:/b.jpg'', ''A:/a.png'', ''A:/b.jpg'', ''A:/a.png'']"
    by code_simp
  ultimately show ?thesis using m by (intro exI [of _ m]) (simp add: sample_view_def)
qed

end
