(* ===== verification/Ui_Keys.thy ===== *)
theory Ui_Keys
  imports Ipc_Mq Ipc_Mutex
begin

text \<open>
  The keys and the views: \<^verbatim>\<open>applications/main.c\<close> scans the columns of the key matrix and sends a message for each pressed
  key from the interrupt handler of its row; the thread of \<^verbatim>\<open>applications/ui_thread_init.c\<close> receives the messages and switches between the
  two views. The message queue and the mutex are those of the kernel; the receiving call is split at its copy, which
  an interrupt can break into. LVGL is seen through the screens it is told to load. A column pin is an output and reads back
  the level last written.
\<close>

section \<open>State\<close>

text \<open>Where the loop of \<open>lv_work\<close> stands: before loading a screen, before receiving, while copying a block, and before acting on
  a message.\<close>

datatype ui_pc = UiTop | UiRecv | UiCopy ptr | UiKey "char list"

text \<open>\<open>screens\<close> are the calls of \<open>lv_scr_load\<close> so far. \<open>sent\<close> and \<open>handled\<close> record the keys the queue has accepted and those the loop
  has acted on; no operation reads them.\<close>

record ui =
  ukern :: kernel
  ui_mutex :: mutex
  ui_key_mq :: messagequeue
  ui_key_mq_inited :: bool
  ui_current_view :: ptr
  cols :: "nat \<Rightarrow> bool"
  counter :: u32
  main_done :: bool
  indicator_value :: bool
  led :: bool
  photo_view :: ptr
  config_view :: ptr
  last_ui :: ptr
  upc :: ui_pc
  screens :: "ptr list"
  sent :: "nat list"
  handled :: "nat list"

abbreviation (input) KEY_K1 :: nat where "KEY_K1 \<equiv> 1"
abbreviation (input) KEY_K2 :: nat where "KEY_K2 \<equiv> 2"
abbreviation (input) K_PRESSED :: nat where "K_PRESSED \<equiv> 1"
abbreviation (input) RT_WAITING_FOREVER :: int where "RT_WAITING_FOREVER \<equiv> - 1"
abbreviation (input) RT_WAITING_NO :: int where "RT_WAITING_NO \<equiv> 0"

definition key_code :: "nat list" where
  "key_code = [1, 2, 3, 4, 5, 6]"

section \<open>The user interface thread\<close>

definition ui_set_current :: "ptr \<Rightarrow> ui \<Rightarrow> (unit, ui) call cres" where
  "ui_set_current obj s =
     cbind (rt_mutex_take (ui_mutex s) RT_WAITING_FOREVER (ukern s)) (\<lambda>r. case r of
       Block (k, m) \<Rightarrow> Inr (Block (s\<lparr>ukern := k, ui_mutex := m\<rparr>))
     | Return _ (k, m) \<Rightarrow>
         let s = s\<lparr>ui_current_view := obj\<rparr>
         in case rt_mutex_release m k of (_, k, m) \<Rightarrow> Inr (Return () (s\<lparr>ukern := k, ui_mutex := m\<rparr>)))"

definition ui_get_current :: "ui \<Rightarrow> (ptr, ui) call cres" where
  "ui_get_current s =
     cbind (rt_mutex_take (ui_mutex s) RT_WAITING_FOREVER (ukern s)) (\<lambda>r. case r of
       Block (k, m) \<Rightarrow> Inr (Block (s\<lparr>ukern := k, ui_mutex := m\<rparr>))
     | Return _ (k, m) \<Rightarrow>
         let obj = ui_current_view s
         in case rt_mutex_release m k of (_, k, m) \<Rightarrow> Inr (Return obj (s\<lparr>ukern := k, ui_mutex := m\<rparr>)))"

definition ui_get_key_mq :: "ui \<Rightarrow> messagequeue option" where
  "ui_get_key_mq s = (if \<not> ui_key_mq_inited s then None else Some (ui_key_mq s))"

text \<open>\<open>created\<close> tells whether \<open>rt_thread_create\<close> returned a thread; \<open>mid\<close> and \<open>qid\<close> stand for the two objects, \<open>pool\<close> and \<open>junk\<close> for
  \<open>ui_key_msgpool\<close> and its bytes.\<close>

definition ui_thread_init :: "bool \<Rightarrow> nat \<Rightarrow> nat \<Rightarrow> ptr \<Rightarrow> char \<Rightarrow> ui \<Rightarrow> int \<times> ui" where
  "ui_thread_init created mid qid pool junk s =
     (case rt_mutex_init mid (ukern s) of (k, m) \<Rightarrow>
      case rt_mq_init qid pool junk 2 8192 RT_IPC_FLAG_FIFO k of (k, q) \<Rightarrow>
      let s = s\<lparr>ukern := k, ui_mutex := m, ui_key_mq := q, ui_key_mq_inited := True\<rparr>
      in if \<not> created then (- 1, s) else (0, s))"

text \<open>\<open>lv_work\<close> up to its loop, with the two views that were created, and the loop, step by step.\<close>

definition lv_work_start :: "ptr \<Rightarrow> ptr \<Rightarrow> ui \<Rightarrow> (unit, ui) call cres" where
  "lv_work_start pv cv s = cbind (ui_set_current pv s) (\<lambda>r. case r of
       Block s \<Rightarrow> Inr (Block s)
     | Return _ s \<Rightarrow> Inr (Return () (s\<lparr>photo_view := pv, config_view := cv, last_ui := RT_NULL, upc := UiTop\<rparr>)))"

definition lv_work :: "ui \<Rightarrow> (unit, ui) call cres" where
  "lv_work s = (case upc s of
     UiTop \<Rightarrow>
       cbind (ui_get_current s) (\<lambda>r. case r of
         Block s \<Rightarrow> Inr (Block s)
       | Return current_ui s \<Rightarrow>
           let s = (if current_ui \<noteq> last_ui s then s\<lparr>screens := screens s @ [current_ui], last_ui := current_ui\<rparr> else s)
           in Inr (Return () (s\<lparr>upc := UiRecv\<rparr>)))
   | UiRecv \<Rightarrow>
       cbind (mq_recv_begin (ui_key_mq s) 2 RT_WAITING_NO (ukern s)) (\<lambda>r. case r of
         Block (k, q) \<Rightarrow> Inr (Block (s\<lparr>ukern := k, ui_key_mq := q\<rparr>))
       | Return (Inl e) (k, q) \<Rightarrow> Inr (Return () (s\<lparr>ukern := k, ui_key_mq := q, upc := (if e = RT_EOK then UiKey [NUL, NUL] else UiTop)\<rparr>))
       | Return (Inr p) (k, q) \<Rightarrow> Inr (Return () (s\<lparr>ukern := k, ui_key_mq := q, upc := UiCopy p\<rparr>)))
   | UiCopy p \<Rightarrow>
       cbind (mq_recv_finish p [NUL, NUL] 2 (ui_key_mq s) (ukern s)) (\<lambda>(msg, k, q).
         Inr (Return () (s\<lparr>ukern := k, ui_key_mq := q, upc := UiKey msg\<rparr>)))
   | UiKey msg \<Rightarrow>
       let key = of_char (msg ! 0)
       in cbind (if key = KEY_K1 then ui_set_current (config_view s) s
                 else if key = KEY_K2 then ui_set_current (photo_view s) s else Inr (Return () s)) (\<lambda>r. case r of
            Block s \<Rightarrow> Inr (Block s)
          | Return _ s \<Rightarrow> Inr (Return () (s\<lparr>upc := UiTop, handled := handled s @ [key]\<rparr>))))"

section \<open>The key matrix\<close>

fun col_loop :: "(nat \<Rightarrow> bool) \<Rightarrow> nat \<Rightarrow> nat \<Rightarrow> nat" where
  "col_loop level ci 0 = ci"
| "col_loop level ci (Suc n) = (if \<not> level ci then ci else col_loop level (ci + 1) n)"

text \<open>The interrupt handler of row \<open>ri\<close>; reading the label and the code of a key faults behind the last one.\<close>

definition nu_key_matrix_cb :: "nat \<Rightarrow> ui \<Rightarrow> (unit, ui) call cres" where
  "nu_key_matrix_cb ri s =
     (let ci = col_loop (cols s) 0 2; index = ci + 2 * ri
      in if \<not> index < length key_code then Inl OutOfBounds
         else case ui_get_key_mq s of
           None \<Rightarrow> Inr (Return () s)
         | Some q \<Rightarrow>
             let key = key_code ! index
             in cbind (rt_mq_send q [char_of key, char_of K_PRESSED] 2 (ukern s)) (\<lambda>r. case r of
                  Block (k, q) \<Rightarrow> Inr (Block (s\<lparr>ukern := k, ui_key_mq := q\<rparr>))
                | Return e (k, q) \<Rightarrow> Inr (Return () (s\<lparr>ukern := k, ui_key_mq := q, sent := (if e = RT_EOK then sent s @ [key] else sent s)\<rparr>))))"

definition nu_key_matrix_switch :: "u32 \<Rightarrow> ui \<Rightarrow> ui" where
  "nu_key_matrix_switch n s =
     (let s = s\<lparr>cols := (cols s)(0 := True)\<rparr>; s = s\<lparr>cols := (cols s)(1 := True)\<rparr>
      in s\<lparr>cols := (cols s)(unat (n mod 2) := False)\<rparr>)"

text \<open>\<open>main\<close> before its loop, and an iteration: the counter is 32 bits wide and the loop ends when it has wrapped around to 0.\<close>

definition main_start :: "ui \<Rightarrow> ui" where
  "main_start s = s\<lparr>counter := 1, main_done := False, indicator_value := False\<rparr>"

definition blink :: "ui \<Rightarrow> ui" where
  "blink s =
     (if counter s mod 5 = 0
      then if (counter s div 5) AND 1 \<noteq> 0 then s\<lparr>led := indicator_value s, indicator_value := \<not> indicator_value s\<rparr> else s
      else s)"

definition main_loop :: "ui \<Rightarrow> ui" where
  "main_loop s =
     (if main_done s then s
      else let c = counter s; s = s\<lparr>counter := c + 1\<rparr>
      in if \<not> c > 0 then s\<lparr>main_done := True\<rparr> else blink (nu_key_matrix_switch (counter s) s))"

section \<open>Interleavings\<close>

text \<open>A scan step of the main thread, an interrupt of a row, a step of the user interface thread, and what the other threads do to
  the kernel meanwhile.\<close>

datatype ui_event = Scan | Irq nat | Ui | Others kernel

fun ui_step :: "ui_event \<Rightarrow> ui \<Rightarrow> (unit, ui) call cres" where
  "ui_step Scan s = Inr (Return () (main_loop s))"
| "ui_step (Irq ri) s = nu_key_matrix_cb ri s"
| "ui_step Ui s = lv_work s"
| "ui_step (Others k) s = Inr (Return () (s\<lparr>ukern := k\<rparr>))"

fun ui_run :: "ui_event list \<Rightarrow> ui \<Rightarrow> (unit, ui) call cres" where
  "ui_run [] s = Inr (Return () s)"
| "ui_run (e # es) s = cbind (ui_step e s) (\<lambda>r. case r of Block s \<Rightarrow> Inr (Block s) | Return _ s \<Rightarrow> ui_run es s)"

text \<open>The view a sequence of keys leads to.\<close>

fun view_after :: "ptr \<Rightarrow> ptr \<Rightarrow> nat list \<Rightarrow> ptr \<Rightarrow> ptr" where
  "view_after pv cv [] v = v"
| "view_after pv cv (x # xs) v = view_after pv cv xs (if x = KEY_K1 then cv else if x = KEY_K2 then pv else v)"

lemma view_after_snoc: "view_after pv cv (xs @ [x]) v = (if x = KEY_K1 then cv else if x = KEY_K2 then pv else view_after pv cv xs v)"
  by (induction xs arbitrary: v) auto

section \<open>The invariant\<close>

text \<open>The keys between the queue and the action, and the block a copy is reading.\<close>

definition key_of :: "char list \<Rightarrow> nat" where
  "key_of msg = of_char (msg ! 0)"

definition taken :: "ui \<Rightarrow> nat list" where
  "taken s = (case upc s of UiCopy p \<Rightarrow> [key_of (block_data (ui_key_mq s) p)] | UiKey msg \<Rightarrow> [key_of msg] | _ \<Rightarrow> [])"

definition copying :: "ui \<Rightarrow> ptr set" where
  "copying s = (case upc s of UiCopy p \<Rightarrow> {p} | _ \<Rightarrow> {})"

definition waiting :: "ui \<Rightarrow> nat list" where
  "waiting s = map key_of (queued (ui_key_mq s))"

text \<open>Nobody but the user interface thread uses the mutex and the queue, and that thread never waits on them.\<close>

definition quiet :: "nat \<Rightarrow> nat \<Rightarrow> kernel \<Rightarrow> bool" where
  "quiet mid qid k \<longleftrightarrow> lock_nest k = 0 \<and> queues k (WaitQ mid) = [] \<and> queues k (WaitQ qid) = [] \<and> queues k (SenderQ qid) = []"

definition free_mutex :: "nat \<Rightarrow> mutex" where
  "free_mutex mid = \<lparr>mutex_id = mid, mvalue = 1, mowner = None, original_priority = 0xFF, mhold = 0\<rparr>"

definition ui_ok :: "nat \<Rightarrow> nat \<Rightarrow> ui \<Rightarrow> bool" where
  "ui_ok mid qid s \<longleftrightarrow> quiet mid qid (ukern s) \<and> ui_mutex s = free_mutex mid \<and> ui_key_mq_inited s
     \<and> mq_id (ui_key_mq s) = qid \<and> msg_size (ui_key_mq s) = 4 \<and> max_msgs (ui_key_mq s) = 1024
     \<and> (\<exists>qs fs. mq_rep (ui_key_mq s) qs fs (copying s))
     \<and> sent s = handled s @ taken s @ waiting s
     \<and> ui_current_view s = view_after (photo_view s) (config_view s) (handled s) (photo_view s)
     \<and> last_ui s = (if screens s = [] then RT_NULL else last (screens s)) \<and> (upc s \<noteq> UiTop \<longrightarrow> last_ui s = ui_current_view s)
     \<and> distinct_adj (screens s) \<and> set (screens s) \<subseteq> {photo_view s, config_view s}"

definition scanned :: "ui \<Rightarrow> bool" where
  "scanned s \<longleftrightarrow> (\<exists>c < 2. cols s c = False \<and> cols s (1 - c) = True)"

lemma view_after_in: "view_after pv cv xs v \<in> {v, pv, cv}"
  by (induction xs arbitrary: v) auto

lemma mutex_round:
  assumes "quiet mid qid k"
  shows "\<exists>m. rt_mutex_take (free_mutex mid) RT_WAITING_FOREVER k = Inr (Return RT_EOK (set_error (rt_current_thread k) RT_EOK k, m))
    \<and> rt_mutex_release m (set_error (rt_current_thread k) RT_EOK k) = (RT_EOK, set_error (rt_current_thread k) RT_EOK k, free_mutex mid)"
  using assms by (simp add: quiet_def rt_mutex_take_def rt_mutex_release_def free_mutex_def Let_def)

lemma ui_set_current_ok:
  assumes "quiet mid qid (ukern s)" "ui_mutex s = free_mutex mid"
  shows "ui_set_current v s = Inr (Return () (s\<lparr>ui_current_view := v, ukern := set_error (rt_current_thread (ukern s)) RT_EOK (ukern s)\<rparr>))"
  using mutex_round [OF assms(1)] assms(2) by (auto simp: ui_set_current_def)

lemma ui_get_current_ok:
  assumes "quiet mid qid (ukern s)" "ui_mutex s = free_mutex mid"
  shows "ui_get_current s = Inr (Return (ui_current_view s) (s\<lparr>ukern := set_error (rt_current_thread (ukern s)) RT_EOK (ukern s)\<rparr>))"
  using mutex_round [OF assms(1)] assms(2) by (auto simp: ui_get_current_def)

lemma quiet_set_error [simp]: "quiet mid qid (set_error t e k) = quiet mid qid k"
  by (simp add: quiet_def)

definition same_views :: "ui \<Rightarrow> ui \<Rightarrow> bool" where
  "same_views s s' \<longleftrightarrow> photo_view s' = photo_view s \<and> config_view s' = config_view s \<and> cols s' = cols s"

lemma ui_okD:
  assumes "ui_ok mid qid s"
  shows "quiet mid qid (ukern s)" "ui_mutex s = free_mutex mid" "ui_key_mq_inited s" "mq_id (ui_key_mq s) = qid" "msg_size (ui_key_mq s) = 4"
    "max_msgs (ui_key_mq s) = 1024" "\<exists>qs fs. mq_rep (ui_key_mq s) qs fs (copying s)" "sent s = handled s @ taken s @ waiting s"
    "ui_current_view s = view_after (photo_view s) (config_view s) (handled s) (photo_view s)"
    "last_ui s = (if screens s = [] then RT_NULL else last (screens s))" "upc s \<noteq> UiTop \<Longrightarrow> last_ui s = ui_current_view s"
    "distinct_adj (screens s)" "set (screens s) \<subseteq> {photo_view s, config_view s}"
  using assms by (simp_all add: ui_ok_def)

text \<open>The steps of the loop.\<close>

lemma work_top:
  assumes ok: "ui_ok mid qid s" and pc: "upc s = UiTop"
  obtains s' where "lv_work s = Inr (Return () s')" "ui_ok mid qid s'" "upc s' = UiRecv" "waiting s' = waiting s"
    "handled s' = handled s" "sent s' = sent s" "same_views s s'" "ui_current_view s' = ui_current_view s" "last_ui s' = ui_current_view s"
proof -
  note o = ui_okD [OF ok]
  define shown where "shown = (if ui_current_view s \<noteq> last_ui s then screens s @ [ui_current_view s] else screens s)"
  let ?s = "s\<lparr>ukern := set_error (rt_current_thread (ukern s)) RT_EOK (ukern s), screens := shown,
      last_ui := ui_current_view s, upc := UiRecv\<rparr>"
  have run: "lv_work s = Inr (Return () ?s)" using pc ui_get_current_ok [OF o(1,2)] by (auto simp: lv_work_def shown_def)
  have v: "ui_current_view s \<in> {photo_view s, config_view s}" using o(9) view_after_in [of "photo_view s" "config_view s" "handled s" "photo_view s"] by simp
  have "distinct_adj shown" using o(10,12) by (auto simp: shown_def distinct_adj_append_iff)
  moreover have "set shown \<subseteq> {photo_view s, config_view s}" using o(13) v by (auto simp: shown_def)
  moreover have "ui_current_view s = (if shown = [] then RT_NULL else last shown)" using o(10) by (auto simp: shown_def)
  moreover have "taken ?s = taken s" "copying ?s = copying s" "waiting ?s = waiting s" using pc by (simp_all add: taken_def copying_def waiting_def)
  ultimately have "ui_ok mid qid ?s" using o by (simp add: ui_ok_def)
  then show thesis using that [of ?s] run by (simp add: waiting_def same_views_def)
qed

lemma work_recv_none:
  assumes ok: "ui_ok mid qid s" and pc: "upc s = UiRecv" and e: "waiting s = []"
  shows "lv_work s = Inr (Return () (s\<lparr>upc := UiTop\<rparr>))" and "ui_ok mid qid (s\<lparr>upc := UiTop\<rparr>)"
proof -
  note o = ui_okD [OF ok]
  obtain qs fs where r: "mq_rep (ui_key_mq s) qs fs {}" using o(7) pc by (auto simp: copying_def)
  have "qs = []" using e queued_rep [OF r] by (simp add: waiting_def)
  then have "mq_entry (ui_key_mq s) = 0" using mq_repD(9) [OF r] by simp
  then show "lv_work s = Inr (Return () (s\<lparr>upc := UiTop\<rparr>))" using pc by (simp add: lv_work_def mq_recv_begin_def)
  show "ui_ok mid qid (s\<lparr>upc := UiTop\<rparr>)" using o pc by (simp add: ui_ok_def taken_def copying_def waiting_def)
qed

lemma work_recv_some:
  assumes ok: "ui_ok mid qid s" and pc: "upc s = UiRecv" and e: "waiting s = x # xs"
  obtains p q where "lv_work s = Inr (Return () (s\<lparr>ui_key_mq := q, upc := UiCopy p\<rparr>))"
    "ui_ok mid qid (s\<lparr>ui_key_mq := q, upc := UiCopy p\<rparr>)" "waiting (s\<lparr>ui_key_mq := q, upc := UiCopy p\<rparr>) = xs"
proof -
  note o = ui_okD [OF ok]
  obtain qs fs where r: "mq_rep (ui_key_mq s) qs fs {}" using o(7) pc by (auto simp: copying_def)
  obtain p qs' where qs: "qs = p # qs'" "x = key_of (block_data (ui_key_mq s) p)" "xs = map (key_of \<circ> block_data (ui_key_mq s)) qs'"
    using e queued_rep [OF r] by (auto simp: waiting_def)
  obtain q where u: "mq_unlink (ui_key_mq s) = Inr (p, q)" "mq_rep q qs' fs {p}" "mq_blocks q = mq_blocks (ui_key_mq s)"
    "mq_id q = mq_id (ui_key_mq s)" "msg_size q = msg_size (ui_key_mq s)" "max_msgs q = max_msgs (ui_key_mq s)"
    using mq_unlink_law [OF r [unfolded qs(1)]] by blast
  let ?s = "s\<lparr>ui_key_mq := q, upc := UiCopy p\<rparr>"
  have "mq_entry (ui_key_mq s) \<noteq> 0" using mq_repD(9) [OF r] qs(1) by simp
  then have run: "lv_work s = Inr (Return () ?s)" using pc u(1) by (simp add: lv_work_def mq_recv_begin_def mq_recv_loop_def)
  have bd: "block_data q = block_data (ui_key_mq s)" using u(3) by (auto simp: block_data_def)
  have w: "waiting ?s = xs" using queued_rep [OF u(2)] qs(3) bd by (simp add: waiting_def)
  have "taken ?s = [x]" "taken s = []" "copying ?s = {p}" using qs(2) bd pc by (simp_all add: taken_def copying_def)
  then have "ui_ok mid qid ?s" using o u(2,4-6) w e pc by (auto simp: ui_ok_def)
  then show thesis using that run w by blast
qed

lemma work_copy:
  assumes ok: "ui_ok mid qid s" and pc: "upc s = UiCopy p"
  obtains q msg where "lv_work s = Inr (Return () (s\<lparr>ui_key_mq := q, upc := UiKey msg\<rparr>))"
    "ui_ok mid qid (s\<lparr>ui_key_mq := q, upc := UiKey msg\<rparr>)" "waiting (s\<lparr>ui_key_mq := q, upc := UiKey msg\<rparr>) = waiting s"
proof -
  note o = ui_okD [OF ok]
  obtain qs fs where r: "mq_rep (ui_key_mq s) qs fs {p}" using o(7) pc by (auto simp: copying_def)
  let ?b = "[NUL, NUL]"
  have l: "length (block_data (ui_key_mq s) p) = 4" using block_data_len [OF r, of p] o(5) by simp
  define msg where "msg = received 4 ?b 2 (block_data (ui_key_mq s) p)"
  have sz: "min 2 (msg_size (ui_key_mq s)) \<le> length ?b" using o(5) by simp
  obtain q where f: "mq_recv_finish p ?b 2 (ui_key_mq s) (ukern s) = Inr (msg, wake_first (SenderQ qid) (ukern s), q)"
    "mq_rep q qs (p # fs) {}" "mq_id q = qid" "msg_size q = 4" "max_msgs q = 1024" "block_data q = block_data (ui_key_mq s)"
    using mq_recv_finish_law [OF r singletonI sz, of "ukern s"] o(4-6) by (auto simp: msg_def)
  let ?s = "s\<lparr>ui_key_mq := q, upc := UiKey msg\<rparr>"
  have "wake_first (SenderQ qid) (ukern s) = ukern s" using o(1) by (simp add: wake_first_def quiet_def)
  then have run: "lv_work s = Inr (Return () ?s)" using pc f(1) by (simp add: lv_work_def)
  have "msg ! 0 = block_data (ui_key_mq s) p ! 0" using l by (simp add: msg_def received_def nth_append)
  then have "taken ?s = taken s" using pc by (simp add: taken_def key_of_def)
  moreover have w: "waiting ?s = waiting s" using queued_rep [OF r] queued_rep [OF f(2)] f(6) by (simp add: waiting_def)
  moreover have "copying ?s = {}" by (simp add: copying_def)
  ultimately have "ui_ok mid qid ?s" using o f(2-5) pc by (auto simp: ui_ok_def)
  then show thesis using that run w by blast
qed

lemma work_key:
  assumes ok: "ui_ok mid qid s" and pc: "upc s = UiKey msg"
  obtains s' where "lv_work s = Inr (Return () s')" "ui_ok mid qid s'" "upc s' = UiTop" "handled s' = handled s @ [key_of msg]"
    "waiting s' = waiting s" "sent s' = sent s" "same_views s s'" "screens s' = screens s"
proof -
  note o = ui_okD [OF ok]
  let ?k = "key_of msg" and ?kern = "set_error (rt_current_thread (ukern s)) RT_EOK (ukern s)"
  let ?v = "view_after (photo_view s) (config_view s) (handled s @ [?k]) (photo_view s)"
  define kern where "kern = (if ?k = KEY_K1 \<or> ?k = KEY_K2 then ?kern else ukern s)"
  let ?s = "s\<lparr>ui_current_view := ?v, ukern := kern, upc := UiTop, handled := handled s @ [?k]\<rparr>"
  have run: "lv_work s = Inr (Return () ?s)"
    using pc ui_set_current_ok [OF o(1,2)] o(9) by (auto simp: lv_work_def kern_def view_after_snoc key_of_def Let_def)
  have "taken s = [?k]" "taken ?s = []" "copying ?s = copying s" "waiting ?s = waiting s" using pc by (simp_all add: taken_def copying_def waiting_def)
  moreover have "quiet mid qid kern" using o(1) by (simp add: kern_def)
  ultimately have "ui_ok mid qid ?s" using o by (simp add: ui_ok_def)
  then show thesis using that [of ?s] run by (simp add: waiting_def same_views_def)
qed

text \<open>The interrupt: with a scanned column the key is that of its row and the low column; it is sent unless all blocks are in use.\<close>

lemma scanned_col:
  assumes "scanned s"
  obtains c where "c < 2" "col_loop (cols s) 0 2 = c" "\<not> cols s c" "\<And>d. d < 2 \<Longrightarrow> \<not> cols s d \<Longrightarrow> d = c"
proof -
  obtain c where c: "c < 2" "cols s c = False" "cols s (1 - c) = True" using assms by (auto simp: scanned_def)
  have "c = 0 \<or> c = 1" using c(1) by auto
  then have "col_loop (cols s) 0 2 = c" "\<And>d. d < 2 \<Longrightarrow> \<not> cols s d \<Longrightarrow> d = c"
    using c by (auto simp: numeral_2_eq_2 less_Suc_eq)
  then show thesis using that c by blast
qed

lemma key_code_nth: "i < 6 \<Longrightarrow> key_code ! i = i + 1"
  by (auto simp: key_code_def less_Suc_eq numeral_eq_Suc)

lemma irq_index:
  assumes ok: "ui_ok mid qid s" and cl: "col_loop (cols s) 0 2 + 2 * ri = i" and i6: "i < 6"
  obtains s' where "nu_key_matrix_cb ri s = Inr (Return () s')" "ui_ok mid qid s'" "same_views s s'" "handled s' = handled s" "upc s' = upc s"
    "sent s' = (if length (waiting s) + card (copying s) < 1024 then sent s @ [i + 1] else sent s)"
    "ui_current_view s' = ui_current_view s" "screens s' = screens s"
proof -
  note o = ui_okD [OF ok]
  let ?q = "ui_key_mq s"
  define n where "n = i + 1"
  have i: "i < 6" "key_code ! i = n" "length key_code = 6" using i6 key_code_nth [of i] by (auto simp: key_code_def n_def)
  let ?m = "[char_of (n), char_of (1 :: nat)]"
  have cb: "nu_key_matrix_cb ri s = cbind (rt_mq_send ?q ?m 2 (ukern s)) (\<lambda>r. case r of
                  Block (k, q) \<Rightarrow> Inr (Block (s\<lparr>ukern := k, ui_key_mq := q\<rparr>))
                | Return e (k, q) \<Rightarrow> Inr (Return () (s\<lparr>ukern := k, ui_key_mq := q, sent := (if e = RT_EOK then sent s @ [n] else sent s)\<rparr>)))"
    using i cl o(3) by (simp add: nu_key_matrix_cb_def ui_get_key_mq_def Let_def)
  obtain qs fs where r: "mq_rep ?q qs fs (copying s)" using o(7) by blast
  have w: "waiting s = map (key_of \<circ> block_data ?q) qs" using queued_rep [OF r] by (simp add: waiting_def)
  then have full: "length (waiting s) + card (copying s) < 1024 \<longleftrightarrow> fs \<noteq> []" using mq_repD(10) [OF r] o(6) by (cases fs) auto
  show thesis
  proof (cases fs)
    case Nil
    then have "rt_mq_send ?q ?m 2 (ukern s) = Inr (Return (- RT_EFULL) (ukern s, ?q))"
      using mq_repD(2) [OF r] o(5) by (simp add: rt_mq_send_def rt_mq_send_wait_def mq_send_begin_def)
    then have "nu_key_matrix_cb ri s = Inr (Return () s)" using cb by simp
    then show thesis using that [of s] ok Nil full by (simp add: same_views_def)
  next
    case (Cons p fs')
    have sz: "(2 :: nat) \<noteq> 0" "2 \<le> msg_size ?q" "2 \<le> length ?m" using o(5) by simp_all
    obtain q where f: "rt_mq_send ?q ?m 2 (ukern s) = Inr (Return RT_EOK (wake_first (WaitQ qid) (ukern s), q))"
      "mq_rep q (qs @ [p]) fs' (copying s)" "mq_id q = qid" "msg_size q = 4" "max_msgs q = 1024"
      "block_data q = (block_data ?q)(p := take 2 ?m @ drop 2 (block_data ?q p))"
      using rt_mq_send_law [OF r [unfolded Cons] sz, of "ukern s"] o(4-6) by metis
    let ?s = "s\<lparr>ui_key_mq := q, sent := sent s @ [n]\<rparr>"
    have "wake_first (WaitQ qid) (ukern s) = ukern s" using o(1) by (simp add: wake_first_def quiet_def)
    then have run: "nu_key_matrix_cb ri s = Inr (Return () ?s)" using cb f(1) by simp
    have k: "key_of (block_data q p) = n" using i(1) by (simp add: f(6) key_of_def n_def)
    have "map (block_data q) qs = map (block_data ?q) qs" unfolding f(6) by (rule block_data_other [OF r [unfolded Cons]])
    then have "queued q = map (block_data ?q) qs @ [block_data q p]" using queued_rep [OF f(2)] by (simp only: map_append list.map)
    then have "waiting ?s = waiting s @ [n]" using k w by (simp add: waiting_def)
    moreover have "p \<notin> copying s" using mq_repD(4) [OF r] Cons by auto
    then have "taken ?s = taken s" using f(6) by (auto simp: taken_def copying_def split: ui_pc.splits)
    moreover have "copying ?s = copying s" by (simp add: copying_def)
    ultimately have "ui_ok mid qid ?s" using o f(2-5) by (auto simp: ui_ok_def)
    then show thesis using that [of ?s] run Cons full by (simp add: same_views_def n_def)
  qed
qed

lemma irq_ok:
  assumes ok: "ui_ok mid qid s" and sc: "scanned s" and ri: "ri < 3" and c: "c < 2" "\<not> cols s c"
  obtains s' where "nu_key_matrix_cb ri s = Inr (Return () s')" "ui_ok mid qid s'" "same_views s s'" "handled s' = handled s" "upc s' = upc s"
    "sent s' = (if length (waiting s) + card (copying s) < 1024 then sent s @ [c + 2 * ri + 1] else sent s)"
proof -
  have "col_loop (cols s) 0 2 = c" using scanned_col [OF sc] c by metis
  then have "col_loop (cols s) 0 2 + 2 * ri = c + 2 * ri" "c + 2 * ri < 6" using ri c(1) by auto
  then show thesis by (rule irq_index [OF ok]) (rule that)
qed

lemma blink_form: "\<exists>d e. blink s = s\<lparr>indicator_value := d, led := e\<rparr>"
proof (cases "blink s = s")
  case True
  then show ?thesis by (intro exI [of _ "indicator_value s"] exI [of _ "led s"]) simp
next
  case False
  then have "blink s = s\<lparr>led := indicator_value s, indicator_value := \<not> indicator_value s\<rparr>"
    unfolding blink_def by presburger
  then show ?thesis by (intro exI [of _ "\<not> indicator_value s"] exI [of _ "indicator_value s"]) simp
qed

lemma main_loop_form: "\<exists>a b c d e. main_loop s = s\<lparr>cols := a, counter := b, main_done := c, indicator_value := d, led := e\<rparr>"
proof -
  let ?s = "nu_key_matrix_switch (counter s + 1) (s\<lparr>counter := counter s + 1\<rparr>)"
  define a where "a = (cols s)(0 := True, 1 := True, unat ((counter s + 1) mod 2) := False)"
  have a: "?s = s\<lparr>cols := a, counter := counter s + 1\<rparr>" by (simp add: nu_key_matrix_switch_def Let_def a_def)
  obtain d e where "blink ?s = s\<lparr>cols := a, counter := counter s + 1, indicator_value := d, led := e\<rparr>"
    using blink_form [of ?s] unfolding a by blast
  then have "main_loop s = s \<or> main_loop s = s\<lparr>counter := counter s + 1, main_done := True\<rparr>
      \<or> main_loop s = s\<lparr>cols := a, counter := counter s + 1, indicator_value := d, led := e\<rparr>"
    by (simp add: main_loop_def Let_def)
  moreover have "s\<lparr>counter := x, main_done := y\<rparr> = s\<lparr>cols := cols s, counter := x, main_done := y, indicator_value := indicator_value s, led := led s\<rparr>"
    "s\<lparr>cols := a, counter := x, indicator_value := d, led := e\<rparr> = s\<lparr>cols := a, counter := x, main_done := main_done s, indicator_value := d, led := e\<rparr>"
    "s = s\<lparr>cols := cols s, counter := counter s, main_done := main_done s, indicator_value := indicator_value s, led := led s\<rparr>" for x y by simp_all
  ultimately show ?thesis by metis
qed

lemma main_loop_keeps:
  "ui_ok mid qid (main_loop s) = ui_ok mid qid s" "photo_view (main_loop s) = photo_view s" "config_view (main_loop s) = config_view s"
  "upc (main_loop s) = upc s" "handled (main_loop s) = handled s" "sent (main_loop s) = sent s" "waiting (main_loop s) = waiting s"
proof -
  obtain a b c d e where m: "main_loop s = s\<lparr>cols := a, counter := b, main_done := c, indicator_value := d, led := e\<rparr>"
    using main_loop_form by blast
  have "taken (main_loop s) = taken s" "copying (main_loop s) = copying s" unfolding m by (simp_all add: taken_def copying_def split: ui_pc.split)
  then show "ui_ok mid qid (main_loop s) = ui_ok mid qid s" "photo_view (main_loop s) = photo_view s" "config_view (main_loop s) = config_view s"
    "upc (main_loop s) = upc s" "handled (main_loop s) = handled s" "sent (main_loop s) = sent s" "waiting (main_loop s) = waiting s"
    unfolding m by (simp_all add: ui_ok_def waiting_def)
qed

lemma main_loop_cols:
  assumes "\<not> main_done s" "counter s \<noteq> 0"
  shows "cols (main_loop s) = (cols s)(0 := True, 1 := True, unat ((counter s + 1) mod 2) := False)"
proof -
  have "cols (blink x) = cols x" for x using blink_form [of x] by auto
  then show ?thesis using assms by (simp add: main_loop_def nu_key_matrix_switch_def word_neq_0_conv Let_def)
qed

lemma main_loop_scans:
  assumes "\<not> main_done s" "counter s \<noteq> 0"
  shows "scanned (main_loop s)" "\<not> cols (main_loop s) (unat ((counter s + 1) mod 2))"
proof -
  define c where "c = unat ((counter s + 1) mod 2)"
  have c: "c = 0 \<or> c = 1" unfolding c_def unat_mod by auto
  note m = main_loop_cols [OF assms, folded c_def]
  show "scanned (main_loop s)" using c unfolding scanned_def m by (intro exI [of _ c]) auto
  show "\<not> cols (main_loop s) (unat ((counter s + 1) mod 2))" unfolding m by (simp add: c_def)
qed

lemma main_loop_scanned: "scanned s \<Longrightarrow> scanned (main_loop s)"
  using main_loop_scans(1) [of s] by (cases "main_done s \<or> counter s = 0") (auto simp: main_loop_def scanned_def)

section \<open>Runs\<close>

fun event_ok :: "nat \<Rightarrow> nat \<Rightarrow> ui_event \<Rightarrow> bool" where
  "event_ok mid qid (Irq ri) \<longleftrightarrow> ri < 3"
| "event_ok mid qid (Others k) \<longleftrightarrow> quiet mid qid k"
| "event_ok mid qid _ \<longleftrightarrow> True"

text \<open>Steps of the user interface thread until it has nothing left to do.\<close>

definition todo :: "ui \<Rightarrow> nat" where
  "todo s = 4 * length (waiting s) + (case upc s of UiRecv \<Rightarrow> 0 | UiTop \<Rightarrow> 1 | UiKey _ \<Rightarrow> 2 | UiCopy _ \<Rightarrow> 3)"

lemma lv_work_ok:
  assumes ok: "ui_ok mid qid s"
  obtains s' where "lv_work s = Inr (Return () s')" "ui_ok mid qid s'" "same_views s s'" "sent s' = sent s" "0 < todo s \<Longrightarrow> todo s' < todo s"
proof (cases "upc s")
  case UiTop
  show thesis
    by (rule work_top [OF ok UiTop], rule that, assumption) (simp_all add: UiTop todo_def)
next
  case UiRecv
  show thesis
  proof (cases "waiting s")
    case Nil
    show thesis by (rule that [OF work_recv_none [OF ok UiRecv Nil]]) (simp_all add: same_views_def todo_def UiRecv Nil)
  next
    case (Cons x xs)
    show thesis
      by (rule work_recv_some [OF ok UiRecv Cons], rule that, assumption, assumption) (simp_all add: same_views_def todo_def UiRecv Cons)
  qed
next
  case (UiCopy p)
  show thesis
    by (rule work_copy [OF ok UiCopy], rule that, assumption, assumption) (simp_all add: same_views_def todo_def UiCopy)
next
  case (UiKey msg)
  show thesis by (rule work_key [OF ok UiKey], rule that, assumption) (simp_all add: UiKey todo_def)
qed

lemma ui_step_ok:
  assumes ok: "ui_ok mid qid s" and sc: "scanned s" and e: "event_ok mid qid e"
  obtains s' where "ui_step e s = Inr (Return () s')" "ui_ok mid qid s'" "scanned s'" "photo_view s' = photo_view s" "config_view s' = config_view s"
proof (cases e)
  case Scan
  show thesis by (rule that [of "main_loop s"]) (simp_all add: Scan main_loop_keeps ok main_loop_scanned [OF sc])
next
  case (Irq ri)
  obtain c where c: "c < 2" "\<not> cols s c" using scanned_col [OF sc] by metis
  show thesis
    by (rule irq_ok [OF ok sc _ c, of ri], use e Irq in simp, rule that, use Irq in simp) (use sc in \<open>simp_all add: same_views_def scanned_def\<close>)
next
  case Ui
  show thesis by (rule lv_work_ok [OF ok], rule that, use Ui in simp) (use sc in \<open>simp_all add: same_views_def scanned_def\<close>)
next
  case (Others k)
  have "taken (s\<lparr>ukern := k\<rparr>) = taken s" "copying (s\<lparr>ukern := k\<rparr>) = copying s" "waiting (s\<lparr>ukern := k\<rparr>) = waiting s"
    by (simp_all add: taken_def copying_def waiting_def split: ui_pc.split)
  then have "ui_ok mid qid (s\<lparr>ukern := k\<rparr>)" using ok e Others by (auto simp: ui_ok_def)
  then show thesis using that [of "s\<lparr>ukern := k\<rparr>"] sc Others by (simp add: scanned_def)
qed

lemma ui_run_ok:
  assumes "ui_ok mid qid s" "scanned s" "list_all (event_ok mid qid) es"
  shows "\<exists>s'. ui_run es s = Inr (Return () s') \<and> ui_ok mid qid s' \<and> scanned s' \<and> photo_view s' = photo_view s \<and> config_view s' = config_view s"
  using assms
proof (induction es arbitrary: s)
  case (Cons e es)
  obtain s1 where s1: "ui_step e s = Inr (Return () s1)" "ui_ok mid qid s1" "scanned s1" "photo_view s1 = photo_view s" "config_view s1 = config_view s"
    by (rule ui_step_ok [OF Cons.prems(1,2), of e]) (use Cons.prems(3) in auto)
  obtain s2 where "ui_run es s1 = Inr (Return () s2)" "ui_ok mid qid s2" "scanned s2" "photo_view s2 = photo_view s1" "config_view s2 = config_view s1"
    using Cons.IH [OF s1(2,3)] Cons.prems(3) by auto
  then show ?case using s1 by simp
qed simp

lemma ui_drains:
  assumes "ui_ok mid qid s"
  shows "\<exists>n \<le> todo s. \<exists>s'. ui_run (replicate n Ui) s = Inr (Return () s') \<and> ui_ok mid qid s' \<and> todo s' = 0 \<and> sent s' = sent s
    \<and> photo_view s' = photo_view s \<and> config_view s' = config_view s"
  using assms
proof (induction "todo s" arbitrary: s rule: less_induct)
  case less
  show ?case
  proof (cases "todo s = 0")
    case True
    then show ?thesis using less.prems by (intro exI [of _ 0]) simp
  next
    case False
    obtain s1 where s1: "lv_work s = Inr (Return () s1)" "ui_ok mid qid s1" "same_views s s1" "sent s1 = sent s" "todo s1 < todo s"
      by (rule lv_work_ok [OF less.prems]) (use False in auto)
    obtain n s' where n: "n \<le> todo s1" "ui_run (replicate n Ui) s1 = Inr (Return () s')" "ui_ok mid qid s'" "todo s' = 0" "sent s' = sent s1"
      "photo_view s' = photo_view s1" "config_view s' = config_view s1" using less.hyps [OF s1(5,2)] by blast
    have "ui_run (replicate (Suc n) Ui) s = Inr (Return () s')" using s1(1) n(2) by simp
    moreover have "Suc n \<le> todo s" using n(1) s1(5) by simp
    ultimately show ?thesis using n(3-7) s1(3,4) by (intro exI [of _ "Suc n"]) (auto simp: same_views_def)
  qed
qed

section \<open>Start\<close>

text \<open>The system initialises the user interface, the main thread makes its first scan, and the thread reaches its loop.\<close>

definition ui_boot :: "nat \<Rightarrow> nat \<Rightarrow> ptr \<Rightarrow> char \<Rightarrow> ptr \<Rightarrow> ptr \<Rightarrow> ui \<Rightarrow> (unit, ui) call cres" where
  "ui_boot mid qid pool junk pv cv s = lv_work_start pv cv (main_loop (main_start (snd (ui_thread_init True mid qid pool junk s))))"

definition untouched :: "ui \<Rightarrow> bool" where
  "untouched s \<longleftrightarrow> lock_nest (ukern s) = 0 \<and> sent s = [] \<and> handled s = [] \<and> screens s = []"

lemma ui_boot_ok:
  assumes "mid \<noteq> qid" "pool \<noteq> RT_NULL" "untouched s"
  obtains s' where "ui_boot mid qid pool junk pv cv s = Inr (Return () s')" "ui_ok mid qid s'" "scanned s'" "photo_view s' = pv" "config_view s' = cv"
proof -
  obtain k m where m: "rt_mutex_init mid (ukern s) = (k, m)" by fastforce
  obtain k2 q where q: "rt_mq_init qid pool junk 2 8192 RT_IPC_FLAG_FIFO k = (k2, q)" by fastforce
  let ?s1 = "s\<lparr>ukern := k2, ui_mutex := m, ui_key_mq := q, ui_key_mq_inited := True\<rparr>"
  have i: "snd (ui_thread_init True mid qid pool junk s) = ?s1" using m q by (simp add: ui_thread_init_def)
  have mm: "m = free_mutex mid" using m by (auto simp: rt_mutex_init_def free_mutex_def)
  have k: "quiet mid qid k2" using m q assms(1,3) by (auto simp: rt_mutex_init_def rt_mq_init_def quiet_def untouched_def Let_def)
  note r = rt_mq_init_rep [OF q assms(2)]
  have rep: "\<exists>qs fs. mq_rep q qs fs {}" using r(1) by blast
  have ms: "msg_size q = 4" using r(5) by (simp add: RT_ALIGN4_def)
  define s2 where "s2 = main_loop (main_start ?s1)"
  obtain a b c d e where f: "s2 = (main_start ?s1)\<lparr>cols := a, counter := b, main_done := c, indicator_value := d, led := e\<rparr>"
    unfolding s2_def using main_loop_form by blast
  have sc: "scanned s2" unfolding s2_def by (rule main_loop_scans(1)) (simp_all add: main_start_def)
  let ?s3 = "s2\<lparr>ui_current_view := pv, ukern := set_error (rt_current_thread (ukern s2)) RT_EOK (ukern s2),
    photo_view := pv, config_view := cv, last_ui := RT_NULL, upc := UiTop\<rparr>"
  have "quiet mid qid (ukern s2)" "ui_mutex s2 = free_mutex mid" using k mm by (simp_all add: f main_start_def)
  then have "ui_boot mid qid pool junk pv cv s = Inr (Return () ?s3)"
    using ui_set_current_ok [of mid qid s2 pv] by (simp add: ui_boot_def i s2_def [symmetric] lv_work_start_def)
  moreover have "ui_ok mid qid ?s3"
    using k mm r(2-7) rep ms assms(3) by (simp add: ui_ok_def f main_start_def untouched_def taken_def copying_def waiting_def)
  ultimately show thesis using that [of ?s3] sc by (simp add: scanned_def)
qed

section \<open>Properties\<close>


text \<open>C11: the keys are acted on: wherever a run stands, within four steps for each queued key and three more the user
  interface thread has acted on all keys sent so far, and the view they lead to is on the screen.\<close>

theorem keys_are_handled:
  assumes "mid \<noteq> qid" and "pool \<noteq> RT_NULL" and "untouched s0" and "list_all (event_ok mid qid) es"
    and "ui_boot mid qid pool junk pv cv s0 = Inr (Return () s1)" and "ui_run es s1 = Inr (Return () s)"
  shows "\<exists>n \<le> 4 * length (waiting s) + 3. \<exists>s'. ui_run (replicate n Ui) s = Inr (Return () s') \<and> sent s' = sent s \<and> handled s' = sent s
    \<and> last_ui s' = view_after pv cv (sent s) pv"
proof -
  have s1: "ui_ok mid qid s1" "scanned s1" "photo_view s1 = pv" "config_view s1 = cv"
    using ui_boot_ok [OF assms(1-3), of junk pv cv] assms(5) by auto
  have s: "ui_ok mid qid s" "photo_view s = pv" "config_view s = cv" using ui_run_ok [OF s1(1,2) assms(4)] s1(3,4) assms(6) by auto
  obtain n s' where n: "n \<le> todo s" "ui_run (replicate n Ui) s = Inr (Return () s')" "ui_ok mid qid s'" "todo s' = 0" "sent s' = sent s"
    "photo_view s' = pv" "config_view s' = cv" using ui_drains [OF s(1)] s(2,3) by auto
  note o = ui_okD [OF n(3)]
  have "todo s \<le> 4 * length (waiting s) + 3" by (simp add: todo_def split: ui_pc.split)
  moreover have d: "upc s' = UiRecv" "waiting s' = []" using n(4) by (auto simp: todo_def split: ui_pc.splits)
  moreover have "handled s' = sent s'" using o(8) d by (simp add: taken_def)
  moreover have "last_ui s' = view_after pv cv (handled s') pv" using o(9,11) d n(6,7) by simp
  ultimately show ?thesis using n(1,2,5) by (intro exI [of _ n]) auto
qed

text \<open>While no column is low, as before the first scan, the interrupt handler takes the column number 2: for the first two rows it
  sends the key of the first column of the next row, and for the last row it reads behind the tables of labels and codes.\<close>

theorem unscanned_key_misread:
  assumes "ui_ok mid qid s" and "cols s 0" and "cols s 1" and "length (waiting s) + card (copying s) < 1024"
  shows "nu_key_matrix_cb 2 s = Inl OutOfBounds
    \<and> (\<forall>ri < 2. \<exists>s'. nu_key_matrix_cb ri s = Inr (Return () s') \<and> sent s' = sent s @ [2 * (ri + 1) + 1])"
proof -
  have cl: "col_loop (cols s) 0 2 = 2" using assms(2,3) by (simp add: numeral_2_eq_2)
  have "\<exists>s'. nu_key_matrix_cb ri s = Inr (Return () s') \<and> sent s' = sent s @ [2 * (ri + 1) + 1]" if "ri < 2" for ri
  proof -
    have "col_loop (cols s) 0 2 + 2 * ri = 2 * (ri + 1)" "2 * (ri + 1) < 6" using cl that by auto
    then show ?thesis by (rule irq_index [OF assms(1)]) (use assms(4) in auto)
  qed
  then show ?thesis using cl by (simp add: nu_key_matrix_cb_def key_code_def)
qed

text \<open>The columns are scanned in turn: after \<open>n\<close> iterations of the main loop exactly the column \<open>(n + 1) mod 2\<close> is low, until the
  32-bit counter has wrapped around after \<open>2 ^ 32 - 1\<close> iterations; the next test ends the loop, and the columns stay as they are from then on.\<close>

theorem columns_take_turns:
  assumes "0 < n"
  shows "let s = (main_loop ^^ n) (main_start s0); m = min n (2 ^ 32 - 1) in (main_done s \<longleftrightarrow> n \<ge> 2 ^ 32) \<and> (\<forall>c < 2. \<not> cols s c \<longleftrightarrow> c = (m + 1) mod 2)"
proof -
  have inv: "(main_done s \<longleftrightarrow> n \<ge> 2 ^ 32) \<and> (n < 2 ^ 32 \<longrightarrow> counter s = of_nat (n + 1)) \<and>
      (0 < n \<longrightarrow> (\<forall>c < 2. \<not> cols s c \<longleftrightarrow> c = (min n (2 ^ 32 - 1) + 1) mod 2))" if "s = (main_loop ^^ n) (main_start s0)" for s n
    using that
  proof (induction n arbitrary: s)
    case 0
    then show ?case by (simp add: main_start_def)
  next
    case (Suc n)
    let ?t = "(main_loop ^^ n) (main_start s0)"
    have s: "s = main_loop ?t" using Suc.prems by simp
    note IH = Suc.IH [OF refl]
    consider "n \<ge> 2 ^ 32" | "n = 2 ^ 32 - 1" | "n < 2 ^ 32 - 1" by linarith
    then show ?case
    proof cases
      case 1
      then have "s = ?t" using IH s by (simp add: main_loop_def [of ?t])
      then show ?thesis using IH 1 by auto
    next
      case 2
      then have "counter ?t = 0" "\<not> main_done ?t" using IH by auto
      then have "s = ?t\<lparr>counter := 1, main_done := True\<rparr>" using s by (simp add: main_loop_def [of ?t])
      then show ?thesis using IH 2 by auto
    next
      case 3
      then have n: "counter ?t = of_nat (n + 1)" "\<not> main_done ?t" "n + 2 < 2 ^ 32 + 1" using IH by auto
      have "unat (counter ?t) = n + 1" unfolding n(1) unat_of_nat using 3 by simp
      then have nz: "counter ?t \<noteq> 0" by auto
      have "unat ((counter ?t + 1) mod 2) = (n + 2) mod 2"
      proof -
        have "counter ?t + 1 = of_nat (n + 2)" unfolding n(1) by simp
        then have "unat ((counter ?t + 1) mod 2) = (n + 2) mod 2 ^ 32 mod 2" unfolding unat_mod by (simp only: unat_of_nat) simp
        then show ?thesis by (simp add: mod_mod_cancel)
      qed
      then have m: "cols s = (cols ?t)(0 := True, 1 := True, (n + 2) mod 2 := False)" using main_loop_cols [OF n(2) nz] s by simp
      have "main_done (blink x) = main_done x" "counter (blink x) = counter x" for x using blink_form [of x] by auto
      then have "counter s = of_nat (Suc n + 1)" "\<not> main_done s"
        using n nz s by (simp_all add: main_loop_def [of ?t] nu_key_matrix_switch_def word_neq_0_conv Let_def)
      moreover have "\<forall>c < 2. \<not> cols s c \<longleftrightarrow> c = (Suc n + 1) mod 2" unfolding m by (auto simp: less_2_cases_iff)
      moreover have "min (Suc n) (2 ^ 32 - 1) = Suc n" "\<not> 2 ^ 32 \<le> Suc n" using 3 by auto
      ultimately show ?thesis by simp
    qed
  qed
  show ?thesis using inv [OF refl, of n] assms by (simp add: Let_def)
qed

text \<open>Views 16 and 32; the queue is object 1 and its pool is at 64.\<close>

definition sample_ui :: ui where
  "sample_ui = \<lparr>ukern = sample_kernel, ui_mutex = free_mutex 0, ui_key_mq = snd (rt_mq_init 1 64 NUL 2 0 RT_IPC_FLAG_FIFO sample_kernel), ui_key_mq_inited = False,
     ui_current_view = RT_NULL, cols = (\<lambda>_. True), counter = 0, main_done = False, indicator_value = False, led = False,
     photo_view = RT_NULL, config_view = RT_NULL, last_ui = RT_NULL, upc = UiTop, screens = [], sent = [], handled = []\<rparr>"

lemma sample_ui_untouched: "untouched sample_ui"
  by (simp add: untouched_def sample_ui_def sample_kernel_def)


theorem columns_take_turns_witness:
  "\<not> cols ((main_loop ^^ 3) (main_start sample_ui)) 0 \<and> cols ((main_loop ^^ 3) (main_start sample_ui)) 1"
proof -
  have "\<forall>c < 2. \<not> cols ((main_loop ^^ 3) (main_start sample_ui)) c \<longleftrightarrow> c = 0"
    using columns_take_turns [of 3 sample_ui] by (simp add: Let_def del: funpow.simps)
  from spec [OF this, of 0] spec [OF this, of 1] show ?thesis by simp
qed

theorem keys_are_handled_witness:
  "\<exists>s1 s n s'. ui_boot 0 1 64 NUL 16 32 sample_ui = Inr (Return () s1) \<and> ui_run [Irq 0] s1 = Inr (Return () s)
     \<and> ui_run (replicate n Ui) s = Inr (Return () s') \<and> handled s' = sent s"
proof -
  obtain s1 where s1: "ui_boot 0 1 64 NUL 16 32 sample_ui = Inr (Return () s1)" "ui_ok 0 1 s1" "scanned s1"
    by (rule ui_boot_ok [OF _ _ sample_ui_untouched, of 0 1 64 NUL 16 32]) auto
  obtain s where s: "ui_run [Irq 0] s1 = Inr (Return () s)" using ui_run_ok [OF s1(2,3), of "[Irq 0]"] by auto
  have e: "list_all (event_ok 0 1) [Irq 0]" and p: "(64 :: ptr) \<noteq> RT_NULL" by simp_all
  show ?thesis using keys_are_handled [OF zero_neq_one p sample_ui_untouched e s1(1) s] s1(1) s by meson
qed

lemma ui_ok_cols: "ui_ok mid qid s \<Longrightarrow> ui_ok mid qid (s\<lparr>cols := f\<rparr>)" "waiting (s\<lparr>cols := f\<rparr>) = waiting s" "copying (s\<lparr>cols := f\<rparr>) = copying s"
proof -
  have "taken (s\<lparr>cols := f\<rparr>) = taken s" by (simp add: taken_def split: ui_pc.split)
  moreover show w: "waiting (s\<lparr>cols := f\<rparr>) = waiting s" "copying (s\<lparr>cols := f\<rparr>) = copying s" by (simp_all add: waiting_def copying_def)
  ultimately show "ui_ok mid qid s \<Longrightarrow> ui_ok mid qid (s\<lparr>cols := f\<rparr>)" by (auto simp: ui_ok_def)
qed

theorem unscanned_key_misread_witness:
  "\<exists>s. ui_ok 0 1 s \<and> cols s 0 \<and> cols s 1 \<and> nu_key_matrix_cb 2 s = Inl OutOfBounds"
proof -
  obtain s where s: "ui_boot 0 1 64 NUL 16 32 sample_ui = Inr (Return () s)" "ui_ok 0 1 s"
    by (rule ui_boot_ok [OF _ _ sample_ui_untouched, of 0 1 64 NUL 16 32]) auto
  obtain n s' where n: "ui_ok 0 1 s'" "todo s' = 0" using ui_drains [OF s(2)] by blast
  have d: "upc s' = UiRecv" "waiting s' = []" using n(2) by (auto simp: todo_def split: ui_pc.splits)
  let ?s = "s'\<lparr>cols := (\<lambda>_. True)\<rparr>"
  have "length (waiting ?s) + card (copying ?s) < 1024" using d by (simp add: ui_ok_cols) (simp add: copying_def)
  with unscanned_key_misread [OF ui_ok_cols(1) [OF n(1), of "\<lambda>_. True"]] ui_ok_cols(1) [OF n(1), of "\<lambda>_. True"]
  show ?thesis by (intro exI [of _ ?s]) simp
qed

end
