(* ===== verification/Timer.thy ===== *)
theory Timer
  imports Prelude
begin

text \<open>
  The kernel timers of \<^verbatim>\<open>rt-thread/src/timer.c\<close>: the list of running timers ordered by their timeouts, with all operations
  on a timer, and \<open>rt_timer_check\<close>, which the clock interrupt calls after each tick. The list has one level
  (\<open>RT_TIMER_SKIP_LIST_LEVEL\<close> is 1) and there are no soft timers, as the repository configures it. Ticks are 32-bit words that wrap around. The
  abstract view gives each running timer the number of ticks it has left; the locale \<open>timer_service\<close> states what the
  clients of timers rely on.
\<close>

section \<open>State and operations\<close>

type_synonym tmid = nat

record timer =
  init_tick :: u32
  timeout_tick :: u32
  activated :: bool
  periodic :: bool

text \<open>\<open>tmp_list\<close> is the local list of \<open>rt_timer_check\<close>, \<open>env\<close> what the timeout functions work on.\<close>

record 'e tsys =
  rt_tick :: u32
  timer_list :: "tmid list"
  tmp_list :: "tmid list"
  timers :: "tmid \<Rightarrow> timer"
  env :: 'e

text \<open>\<open>RT_TICK_MAX / 2\<close>.\<close>

definition HALF_TICK_MAX :: u32 where
  "HALF_TICK_MAX = 0x7FFFFFFF"

definition upd_timer :: "tmid \<Rightarrow> (timer \<Rightarrow> timer) \<Rightarrow> 'e tsys \<Rightarrow> 'e tsys" where
  "upd_timer t f s = s\<lparr>timers := (timers s)(t := f (timers s t))\<rparr>"

definition timer_remove :: "tmid \<Rightarrow> 'e tsys \<Rightarrow> 'e tsys" where
  "timer_remove t s = s\<lparr>timer_list := remove1 t (timer_list s), tmp_list := remove1 t (tmp_list s)\<rparr>"

definition rt_timer_init :: "tmid \<Rightarrow> u32 \<Rightarrow> bool \<Rightarrow> 'e tsys \<Rightarrow> 'e tsys cres" where
  "rt_timer_init t time per s = cbind (rt_assert (time < HALF_TICK_MAX)) (\<lambda>_.
     Inr (upd_timer t (\<lambda>_. \<lparr>init_tick = time, timeout_tick = 0, activated = False, periodic = per\<rparr>) s))"

definition rt_timer_detach :: "tmid \<Rightarrow> 'e tsys \<Rightarrow> 'e tsys" where
  "rt_timer_detach t s = upd_timer t (activated_update (\<lambda>_. False)) (timer_remove t s)"

text \<open>The search for the place of a timer: behind every timer that does not time out later.\<close>

fun timer_insert :: "(tmid \<Rightarrow> u32) \<Rightarrow> tmid \<Rightarrow> tmid list \<Rightarrow> tmid list" where
  "timer_insert timeout t [] = [t]"
| "timer_insert timeout t (x # xs) =
     (if timeout x - timeout t = 0 then x # timer_insert timeout t xs
      else if timeout x - timeout t < HALF_TICK_MAX then t # x # xs
      else x # timer_insert timeout t xs)"

definition rt_timer_start :: "tmid \<Rightarrow> 'e tsys \<Rightarrow> 'e tsys" where
  "rt_timer_start t s =
     (let s = upd_timer t (activated_update (\<lambda>_. False)) (timer_remove t s);
          s = upd_timer t (\<lambda>tm. tm\<lparr>timeout_tick := rt_tick s + init_tick tm\<rparr>) s;
          s = s\<lparr>timer_list := timer_insert (\<lambda>x. timeout_tick (timers s x)) t (timer_list s)\<rparr>
      in upd_timer t (activated_update (\<lambda>_. True)) s)"

definition rt_timer_stop :: "tmid \<Rightarrow> 'e tsys \<Rightarrow> int \<times> 'e tsys" where
  "rt_timer_stop t s = (if \<not> activated (timers s t) then (- 1, s)
     else (0, upd_timer t (activated_update (\<lambda>_. False)) (timer_remove t s)))"

datatype timer_cmd = SET_TIME u32 | GET_TIME | SET_ONESHOT | SET_PERIODIC | GET_STATE | GET_REMAIN_TIME

text \<open>The value written through \<open>arg\<close>, if any. The case \<open>RT_TIMER_CTRL_GET_STATE\<close> has no \<open>break\<close>.\<close>

definition rt_timer_control :: "tmid \<Rightarrow> timer_cmd \<Rightarrow> 'e tsys \<Rightarrow> (u32 option \<times> 'e tsys) cres" where
  "rt_timer_control t cmd s = (case cmd of
     GET_TIME \<Rightarrow> Inr (Some (init_tick (timers s t)), s)
   | SET_TIME n \<Rightarrow> cbind (rt_assert (n < HALF_TICK_MAX)) (\<lambda>_. Inr (None, upd_timer t (init_tick_update (\<lambda>_. n)) s))
   | SET_ONESHOT \<Rightarrow> Inr (None, upd_timer t (periodic_update (\<lambda>_. False)) s)
   | SET_PERIODIC \<Rightarrow> Inr (None, upd_timer t (periodic_update (\<lambda>_. True)) s)
   | GET_STATE \<Rightarrow> let arg = Some (if activated (timers s t) then 1 else (0 :: u32)); arg = Some (timeout_tick (timers s t)) in Inr (arg, s)
   | GET_REMAIN_TIME \<Rightarrow> Inr (Some (timeout_tick (timers s t)), s))"

text \<open>The loop of \<open>rt_timer_check\<close>; \<open>timeout_func\<close> is called for the timer that has timed out.\<close>

fun timer_check_loop :: "nat \<Rightarrow> (tmid \<Rightarrow> 'e tsys \<Rightarrow> 'e tsys) \<Rightarrow> u32 \<Rightarrow> 'e tsys \<Rightarrow> 'e tsys cres" where
  "timer_check_loop 0 timeout_func current_tick s = Inl OutOfFuel"
| "timer_check_loop (Suc fuel) timeout_func current_tick s =
     (case timer_list s of [] \<Rightarrow> Inr s
      | t # _ \<Rightarrow>
        if current_tick - timeout_tick (timers s t) < HALF_TICK_MAX
        then let s = timer_remove t s;
                 s = (if \<not> periodic (timers s t) then upd_timer t (activated_update (\<lambda>_. False)) s else s);
                 s = timeout_func t (s\<lparr>tmp_list := t # tmp_list s\<rparr>);
                 current_tick = rt_tick s
             in if tmp_list s = [] then timer_check_loop fuel timeout_func current_tick s
                else let s = timer_remove t s
                     in if periodic (timers s t) \<and> activated (timers s t)
                        then timer_check_loop fuel timeout_func current_tick
                               (rt_timer_start t (upd_timer t (activated_update (\<lambda>_. False)) s))
                        else timer_check_loop fuel timeout_func current_tick s
        else Inr s)"

definition rt_timer_check :: "nat \<Rightarrow> (tmid \<Rightarrow> 'e tsys \<Rightarrow> 'e tsys) \<Rightarrow> 'e tsys \<Rightarrow> 'e tsys cres" where
  "rt_timer_check fuel timeout_func s = timer_check_loop fuel timeout_func (rt_tick s) (s\<lparr>tmp_list := []\<rparr>)"

text \<open>What \<open>rt_tick_increase\<close> does for the timers.\<close>

definition tick_timers :: "nat \<Rightarrow> (tmid \<Rightarrow> 'e tsys \<Rightarrow> 'e tsys) \<Rightarrow> 'e tsys \<Rightarrow> 'e tsys cres" where
  "tick_timers fuel timeout_func s = rt_timer_check fuel timeout_func (s\<lparr>rt_tick := rt_tick s + 1\<rparr>)"

definition rt_timer_next_timeout_tick :: "'e tsys \<Rightarrow> u32" where
  "rt_timer_next_timeout_tick s = (case timer_list s of [] \<Rightarrow> 0xFFFFFFFF | t # _ \<Rightarrow> timeout_tick (timers s t))"

definition rt_tick_from_millisecond :: "32 word \<Rightarrow> u32" where
  "rt_tick_from_millisecond ms =
     (if sint ms < 0 then - 1
      else 1000 * (ms div 1000) + (1000 * (ms mod 1000) + 999) div 1000)"

section \<open>Ticks left\<close>

definition due :: "'e tsys \<Rightarrow> tmid \<Rightarrow> u32" where
  "due s t = timeout_tick (timers s t) - rt_tick s"

definition ticks_left :: "'e tsys \<Rightarrow> tmid \<Rightarrow> nat option" where
  "ticks_left s t = (if activated (timers s t) then Some (unat (due s t)) else None)"

text \<open>The running timers are those on the list, they time out within half of the range of ticks, and the list is in order.\<close>

definition timers_ok :: "'e tsys \<Rightarrow> bool" where
  "timers_ok s \<longleftrightarrow> distinct (timer_list s) \<and> tmp_list s = [] \<and> (\<forall>t. activated (timers s t) \<longleftrightarrow> t \<in> set (timer_list s))
     \<and> (\<forall>t. init_tick (timers s t) < HALF_TICK_MAX) \<and> (\<forall>t \<in> set (timer_list s). due s t < HALF_TICK_MAX)
     \<and> sorted_wrt (\<lambda>x y. due s x \<le> due s y) (timer_list s)"

lemma unat_diff: "unat (a - b) = (if unat b \<le> unat a then unat a - unat b else unat a + 2 ^ 32 - unat b)" for a b :: u32
  by (simp add: unat_sub_if_size word_size)

lemma later_iff:
  fixes a b :: u32
  assumes "a < HALF_TICK_MAX" "b < HALF_TICK_MAX"
  shows "a - b \<noteq> 0 \<and> a - b < HALF_TICK_MAX \<longleftrightarrow> b < a"
proof -
  have "unat a < 0x7FFFFFFF" "unat b < 0x7FFFFFFF" using assms by (simp_all add: HALF_TICK_MAX_def word_less_nat_alt)
  moreover have "a - b \<noteq> 0 \<longleftrightarrow> unat a \<noteq> unat b" using word_unat_eq_iff [of a b] by simp
  ultimately show ?thesis using unat_diff [of a b] by (auto simp: HALF_TICK_MAX_def word_less_nat_alt)
qed

lemma diff_diff: "(a - n) - (b - n) = a - b" for a b n :: u32
  by simp

text \<open>The place of a timer, by the ticks left at the time \<open>now\<close>.\<close>

lemma timer_insert_place:
  assumes "timeout t - now < HALF_TICK_MAX" "\<forall>x \<in> set xs. timeout x - now < HALF_TICK_MAX"
  shows "timer_insert timeout t xs
    = takeWhile (\<lambda>x. timeout x - now \<le> timeout t - now) xs @ t # dropWhile (\<lambda>x. timeout x - now \<le> timeout t - now) xs"
  using assms(2)
proof (induction xs)
  case (Cons x xs)
  have "timeout x - timeout t \<noteq> 0 \<and> timeout x - timeout t < HALF_TICK_MAX \<longleftrightarrow> timeout t - now < timeout x - now"
    using later_iff [of "timeout x - now" "timeout t - now"] assms(1) Cons.prems by simp
  then show ?case using Cons by (auto simp: not_less)
qed simp

lemma timer_insert_skip:
  assumes "\<forall>x \<in> set xs. \<not> (timeout x - timeout t \<noteq> 0 \<and> timeout x - timeout t < HALF_TICK_MAX)"
  shows "timer_insert timeout t (xs @ ys) = xs @ timer_insert timeout t ys"
  using assms by (induction xs) auto

lemma set_timer_insert [simp]: "set (timer_insert timeout t xs) = insert t (set xs)"
  by (induction xs) auto

lemma distinct_timer_insert: "distinct (timer_insert timeout t xs) \<longleftrightarrow> t \<notin> set xs \<and> distinct xs"
  by (induction xs) auto

lemma sorted_insert_place:
  fixes k :: "'a \<Rightarrow> 'b :: linorder"
  assumes "sorted_wrt (\<lambda>x y. k x \<le> k y) xs"
  shows "sorted_wrt (\<lambda>x y. k x \<le> k y) (takeWhile (\<lambda>x. k x \<le> k t) xs @ t # dropWhile (\<lambda>x. k x \<le> k t) xs)"
  using assms by (induction xs) (auto simp: not_le dest: set_takeWhileD set_dropWhileD)

lemma timer_insert_sorted:
  assumes "timeout t - now < HALF_TICK_MAX" "\<forall>x \<in> set xs. timeout x - now < HALF_TICK_MAX"
    "sorted_wrt (\<lambda>x y. timeout x - now \<le> timeout y - now) xs"
  shows "sorted_wrt (\<lambda>x y. timeout x - now \<le> timeout y - now) (timer_insert timeout t xs)"
  using sorted_insert_place [OF assms(3), of t] timer_insert_place [OF assms(1,2)] by simp

text \<open>What the operations leave alone.\<close>

lemma upd_timer_simps [simp]:
  "rt_tick (upd_timer t f s) = rt_tick s" "timer_list (upd_timer t f s) = timer_list s" "tmp_list (upd_timer t f s) = tmp_list s"
  "env (upd_timer t f s) = env s" "timers (upd_timer t f s) = (timers s)(t := f (timers s t))"
  by (simp_all add: upd_timer_def)

lemma timer_remove_simps [simp]:
  "rt_tick (timer_remove t s) = rt_tick s" "timer_list (timer_remove t s) = remove1 t (timer_list s)"
  "tmp_list (timer_remove t s) = remove1 t (tmp_list s)" "env (timer_remove t s) = env s" "timers (timer_remove t s) = timers s"
  by (simp_all add: timer_remove_def)

lemma rt_timer_start_simps:
  "rt_tick (rt_timer_start t s) = rt_tick s" "tmp_list (rt_timer_start t s) = remove1 t (tmp_list s)" "env (rt_timer_start t s) = env s"
  "timers (rt_timer_start t s) = (timers s)(t := (timers s t)\<lparr>timeout_tick := rt_tick s + init_tick (timers s t), activated := True\<rparr>)"
  "timer_list (rt_timer_start t s) = timer_insert (\<lambda>x. timeout_tick (timers (rt_timer_start t s) x)) t (remove1 t (timer_list s))"
  by (simp_all add: rt_timer_start_def Let_def)
    (auto intro!: arg_cong2 [where f = "\<lambda>f xs. timer_insert f t xs"])

lemma sorted_wrt_remove1: "sorted_wrt P xs \<Longrightarrow> sorted_wrt P (remove1 x xs)"
  by (induction xs) (auto dest: notin_set_remove1 set_remove1_subset [THEN subsetD])

lemma timers_okD:
  assumes "timers_ok s"
  shows "distinct (timer_list s)" "tmp_list s = []" "activated (timers s t) \<longleftrightarrow> t \<in> set (timer_list s)" "init_tick (timers s t) < HALF_TICK_MAX"
    "t \<in> set (timer_list s) \<Longrightarrow> due s t < HALF_TICK_MAX" "sorted_wrt (\<lambda>x y. due s x \<le> due s y) (timer_list s)"
  using assms by (auto simp: timers_ok_def)

lemma timers_ok_removed:
  assumes "timers_ok s"
  shows "timers_ok (upd_timer t (activated_update (\<lambda>_. False)) (timer_remove t s))"
    "ticks_left (upd_timer t (activated_update (\<lambda>_. False)) (timer_remove t s)) = (ticks_left s)(t := None)"
proof -
  let ?s = "upd_timer t (activated_update (\<lambda>_. False)) (timer_remove t s)"
  have d: "due ?s = due s" by (simp add: due_def fun_eq_iff)
  then show "timers_ok ?s" using timers_okD [OF assms] by (simp add: timers_ok_def sorted_wrt_remove1)
  show "ticks_left ?s = (ticks_left s)(t := None)" by (simp add: ticks_left_def d fun_eq_iff)
qed

lemma rt_timer_start_ok:
  assumes "timers_ok s"
  shows "timers_ok (rt_timer_start t s)" "ticks_left (rt_timer_start t s) = (ticks_left s)(t \<mapsto> unat (init_tick (timers s t)))"
proof -
  let ?s = "rt_timer_start t s" and ?f = "\<lambda>x. timeout_tick (timers (rt_timer_start t s) x)" and ?n = "rt_tick s"
  note ok = timers_okD [OF assms]
  have d: "due ?s x = (if x = t then init_tick (timers s t) else due s x)" for x by (simp add: due_def rt_timer_start_simps)
  have x: "x \<noteq> t" if "x \<in> set (remove1 t (timer_list s))" for x using that ok(1) by simp
  have f: "?f y - ?n = due ?s y" for y by (simp add: due_def rt_timer_start_simps(1))
  have "sorted_wrt (\<lambda>x y. due s x \<le> due s y) (remove1 t (timer_list s))" by (rule sorted_wrt_remove1 [OF ok(6)])
  then have "sorted_wrt (\<lambda>x y. due ?s x \<le> due ?s y) (remove1 t (timer_list s))"
    by (rule sorted_wrt_mono_rel [rotated]) (use x d in auto)
  then have "sorted_wrt (\<lambda>x y. due ?s x \<le> due ?s y) (timer_list ?s)"
    unfolding rt_timer_start_simps(5) [of t s] f [symmetric]
    by (intro timer_insert_sorted) (use x d f ok(4,5) set_remove1_subset [of t "timer_list s"] in auto)
  then show "timers_ok ?s"
    using ok d unfolding timers_ok_def rt_timer_start_simps(5) [of t s]
    by (auto simp: rt_timer_start_simps(2,4) distinct_timer_insert)
  show "ticks_left ?s = (ticks_left s)(t \<mapsto> unat (init_tick (timers s t)))"
    by (auto simp: ticks_left_def d fun_eq_iff rt_timer_start_simps(4))
qed

section \<open>One check of the timers\<close>

text \<open>The timeout functions change nothing but their environment.\<close>

definition calls :: "(tmid \<Rightarrow> 'e \<Rightarrow> 'e) \<Rightarrow> tmid \<Rightarrow> 'e tsys \<Rightarrow> 'e tsys" where
  "calls g t s = s\<lparr>env := g t (env s)\<rparr>"

text \<open>In the middle of a check: the timers \<open>xs\<close> have timed out, at this or, when started with 0 ticks, at the last tick; the timers \<open>ys\<close> have not.\<close>

definition mid_check :: "tmid list \<Rightarrow> tmid list \<Rightarrow> 'e tsys \<Rightarrow> bool" where
  "mid_check xs ys s \<longleftrightarrow> timer_list s = xs @ ys \<and> distinct (xs @ ys) \<and> tmp_list s = []
     \<and> (\<forall>t. activated (timers s t) \<longleftrightarrow> t \<in> set (xs @ ys)) \<and> (\<forall>t. init_tick (timers s t) < HALF_TICK_MAX)
     \<and> (\<forall>x \<in> set xs. due s x \<in> {0, - 1} \<and> (periodic (timers s x) \<longrightarrow> init_tick (timers s x) \<noteq> 0))
     \<and> (\<forall>y \<in> set ys. due s y \<noteq> 0 \<and> due s y < HALF_TICK_MAX) \<and> sorted_wrt (\<lambda>x y. due s x \<le> due s y) ys"

definition after_fire :: "tmid set \<Rightarrow> 'e tsys \<Rightarrow> tmid \<Rightarrow> nat option" where
  "after_fire X s t = (if t \<in> X then if periodic (timers s t) then Some (unat (init_tick (timers s t))) else None else ticks_left s t)"

lemma mid_check_done: "mid_check [] ys s \<Longrightarrow> timers_ok s"
  by (auto simp: mid_check_def timers_ok_def)

lemma expired_iff: "d < HALF_TICK_MAX \<Longrightarrow> d \<noteq> 0 \<Longrightarrow> \<not> - d < HALF_TICK_MAX" for d :: u32
proof -
  assume a: "d < HALF_TICK_MAX" "d \<noteq> 0"
  then have "0 < unat d" "unat d < 0x7FFFFFFF" by (simp_all add: HALF_TICK_MAX_def word_less_nat_alt unat_gt_0)
  moreover have "unat (- d) = 2 ^ 32 - unat d" using unat_diff [of 0 d] \<open>0 < unat d\<close> by simp
  ultimately show ?thesis by (simp add: HALF_TICK_MAX_def word_less_nat_alt)
qed

lemma not_after_expired:
  fixes e i :: u32
  assumes "e \<in> {0, - 1}" "i < HALF_TICK_MAX" "i \<noteq> 0"
  shows "\<not> e - i < HALF_TICK_MAX"
proof -
  have i: "0 < unat i" "unat i < 0x7FFFFFFF" using assms(2,3) by (simp_all add: HALF_TICK_MAX_def word_less_nat_alt unat_gt_0)
  have "unat (- 1 :: u32) = unat (0xFFFFFFFF :: u32)" by (rule arg_cong [of _ _ unat]) simp
  then have "unat e = 0 \<or> unat e = 0xFFFFFFFF" using assms(1) by auto
  then show ?thesis using i unat_diff [of e i] by (auto simp: HALF_TICK_MAX_def word_less_nat_alt)
qed

text \<open>The first timer that has timed out is taken off the list, called, and started again if it is periodic.\<close>

definition fire :: "(tmid \<Rightarrow> 'e \<Rightarrow> 'e) \<Rightarrow> tmid \<Rightarrow> 'e tsys \<Rightarrow> 'e tsys" where
  "fire g t s = (let s = s\<lparr>timer_list := remove1 t (timer_list s), env := g t (env s)\<rparr>; s = upd_timer t (activated_update (\<lambda>_. False)) s
     in if periodic (timers s t) then rt_timer_start t s else s)"

lemma remove1_notin: "t \<notin> set xs \<Longrightarrow> remove1 t xs = xs"
  by (simp add: remove1_idem)

lemma check_step:
  assumes c: "mid_check (t # xs) ys s" and now: "now = rt_tick s"
  shows "timer_check_loop (Suc fuel) (calls g) now s = timer_check_loop fuel (calls g) now (fire g t s)"
proof -
  have t: "timer_list s = t # xs @ ys" "tmp_list s = []" "activated (timers s t)" "due s t \<in> {0, - 1}" using c by (auto simp: mid_check_def)
  have "now - timeout_tick (timers s t) = - due s t" by (simp add: due_def now)
  then have e: "now - timeout_tick (timers s t) < HALF_TICK_MAX" using t(4) by (auto simp: HALF_TICK_MAX_def)
  have n: "remove1 t (xs @ ys) = xs @ ys" using c by (intro remove1_idem) (auto simp: mid_check_def)
  show ?thesis
    using t e n now by (cases s) (simp add: calls_def fire_def timer_remove_def upd_timer_def Let_def)
qed

definition same_setup :: "'e tsys \<Rightarrow> 'e tsys \<Rightarrow> bool" where
  "same_setup s s' \<longleftrightarrow> rt_tick s' = rt_tick s
     \<and> (\<forall>t. init_tick (timers s' t) = init_tick (timers s t) \<and> periodic (timers s' t) = periodic (timers s t))"

lemma fire_once:
  assumes c: "mid_check (t # xs) ys s" and p: "\<not> periodic (timers s t)"
  shows "mid_check xs ys (fire g t s)" "env (fire g t s) = g t (env s)" "same_setup s (fire g t s)"
    "ticks_left (fire g t s) = (ticks_left s)(t := None)"
proof -
  have d: "due (fire g t s) = due s" using p by (simp add: fire_def due_def fun_eq_iff Let_def)
  have n: "remove1 t (xs @ ys) = xs @ ys" using c by (intro remove1_idem) (auto simp: mid_check_def)
  have f: "timer_list (fire g t s) = xs @ ys" "tmp_list (fire g t s) = tmp_list s"
    "timers (fire g t s) = (timers s)(t := (timers s t)\<lparr>activated := False\<rparr>)"
    using p c n by (simp_all add: fire_def Let_def mid_check_def)
  show "mid_check xs ys (fire g t s)" using c unfolding mid_check_def f d by (auto split: if_splits)
  show "env (fire g t s) = g t (env s)" "same_setup s (fire g t s)" using p by (simp_all add: fire_def Let_def same_setup_def)
  show "ticks_left (fire g t s) = (ticks_left s)(t := None)" by (simp add: ticks_left_def d f fun_eq_iff)
qed

lemma fire_again:
  assumes c: "mid_check (t # xs) ys s" and p: "periodic (timers s t)"
  shows "\<exists>ys'. mid_check xs ys' (fire g t s)" "env (fire g t s) = g t (env s)" "same_setup s (fire g t s)"
    "ticks_left (fire g t s) = (ticks_left s)(t \<mapsto> unat (init_tick (timers s t)))"
proof -
  let ?s = "fire g t s" and ?f = "\<lambda>x. timeout_tick (timers (fire g t s) x)" and ?n = "rt_tick s"
  have i: "init_tick (timers s t) < HALF_TICK_MAX" "init_tick (timers s t) \<noteq> 0" "t \<notin> set xs" "t \<notin> set ys"
    using c p by (auto simp: mid_check_def)
  have n: "remove1 t (xs @ ys) = xs @ ys" using i(3,4) by (intro remove1_idem) auto
  have t: "rt_tick ?s = ?n" "env ?s = g t (env s)" "tmp_list ?s = []"
    "timers ?s = (timers s)(t := (timers s t)\<lparr>timeout_tick := ?n + init_tick (timers s t), activated := True\<rparr>)"
    using p c by (simp_all add: fire_def Let_def rt_timer_start_simps mid_check_def)
  have d: "due ?s x = (if x = t then init_tick (timers s t) else due s x)" for x by (simp add: due_def t)
  have f: "?f y - ?n = due ?s y" for y by (simp add: due_def t(1))
  have skip: "\<not> (?f x - ?f t \<noteq> 0 \<and> ?f x - ?f t < HALF_TICK_MAX)" if "x \<in> set xs" for x
  proof -
    have "?f x - ?f t = due ?s x - due ?s t" by (simp flip: f)
    also have "\<dots> = due s x - init_tick (timers s t)" using that i(3) d by auto
    finally show ?thesis using not_after_expired [OF _ i(1,2), of "due s x"] c that by (auto simp: mid_check_def)
  qed
  have l: "timer_list ?s = xs @ timer_insert ?f t ys"
  proof -
    have "timer_list ?s = timer_insert ?f t (xs @ ys)"
      using p c n rt_timer_start_simps(5) [of t "upd_timer t (activated_update (\<lambda>_. False)) (s\<lparr>timer_list := xs @ ys, env := g t (env s)\<rparr>)"]
      by (simp add: fire_def Let_def mid_check_def)
    then show ?thesis using timer_insert_skip [of xs ?f t ys] skip by simp
  qed
  have "sorted_wrt (\<lambda>x y. due s x \<le> due s y) ys" using c by (simp add: mid_check_def)
  then have "sorted_wrt (\<lambda>x y. due ?s x \<le> due ?s y) ys" by (rule sorted_wrt_mono_rel [rotated]) (use i(4) d in auto)
  then have "sorted_wrt (\<lambda>x y. due ?s x \<le> due ?s y) (timer_insert ?f t ys)"
    unfolding f [symmetric] by (intro timer_insert_sorted) (use c d f i in \<open>auto simp: mid_check_def\<close>)
  then have "mid_check xs (timer_insert ?f t ys) ?s"
    using c i d unfolding mid_check_def l t(3,4) by (auto simp: distinct_timer_insert split: if_splits)
  then show "\<exists>ys'. mid_check xs ys' ?s" by blast
  show "env ?s = g t (env s)" "same_setup s ?s" using t by (simp_all add: same_setup_def)
  show "ticks_left ?s = (ticks_left s)(t \<mapsto> unat (init_tick (timers s t)))" by (simp add: ticks_left_def d t(4) fun_eq_iff)
qed

lemma fire_ok:
  assumes "mid_check (t # xs) ys s"
  obtains ys' where "mid_check xs ys' (fire g t s)" "env (fire g t s) = g t (env s)" "same_setup s (fire g t s)"
    "ticks_left (fire g t s) = (ticks_left s)(t := if periodic (timers s t) then Some (unat (init_tick (timers s t))) else None)"
proof (cases "periodic (timers s t)")
  case True
  then show ?thesis using fire_again [OF assms True, of g] that by auto
next
  case False
  then show ?thesis using fire_once [OF assms False, of g] that by auto
qed

lemma check_loop_ok:
  assumes "mid_check xs ys s" "length xs < fuel"
  shows "\<exists>s'. timer_check_loop fuel (calls g) (rt_tick s) s = Inr s' \<and> timers_ok s' \<and> same_setup s s' \<and> env s' = fold g xs (env s)
    \<and> ticks_left s' = after_fire (set xs) s"
  using assms
proof (induction xs arbitrary: s ys fuel)
  case Nil
  then obtain f where f: "fuel = Suc f" by (cases fuel) auto
  have "timer_check_loop fuel (calls g) (rt_tick s) s = Inr s"
  proof (cases ys)
    case (Cons y zs)
    then have "due s y \<noteq> 0" "due s y < HALF_TICK_MAX" "timer_list s = y # zs" using Nil.prems(1) by (auto simp: mid_check_def)
    moreover have "rt_tick s - timeout_tick (timers s y) = - due s y" by (simp add: due_def)
    ultimately show ?thesis using expired_iff [of "due s y"] f by simp
  qed (use Nil.prems(1) f in \<open>simp add: mid_check_def\<close>)
  then show ?case using mid_check_done [OF Nil.prems(1)] by (simp add: same_setup_def after_fire_def fun_eq_iff)
next
  case (Cons t xs)
  obtain f where f: "fuel = Suc f" "length xs < f" using Cons.prems(2) by (cases fuel) auto
  obtain ys' where a: "mid_check xs ys' (fire g t s)" "env (fire g t s) = g t (env s)" "same_setup s (fire g t s)"
    "ticks_left (fire g t s) = (ticks_left s)(t := if periodic (timers s t) then Some (unat (init_tick (timers s t))) else None)"
    using fire_ok [OF Cons.prems(1)] .
  obtain s' where s': "timer_check_loop f (calls g) (rt_tick (fire g t s)) (fire g t s) = Inr s'" "timers_ok s'" "same_setup (fire g t s) s'"
    "env s' = fold g xs (env (fire g t s))" "ticks_left s' = after_fire (set xs) (fire g t s)"
    using Cons.IH [OF a(1) f(2)] by blast
  have "rt_tick (fire g t s) = rt_tick s" using a(3) by (simp add: same_setup_def)
  then have "timer_check_loop fuel (calls g) (rt_tick s) s = Inr s'"
    using s'(1) check_step [OF Cons.prems(1) refl, of f g] f(1) by simp
  moreover have "same_setup s s'" using a(3) s'(3) by (simp add: same_setup_def)
  moreover have "t \<notin> set xs" using Cons.prems(1) by (simp add: mid_check_def)
  then have "ticks_left s' = after_fire (set (t # xs)) s"
    using s'(5) a(3,4) by (auto simp: after_fire_def fun_eq_iff same_setup_def)
  ultimately show ?case using s'(2,4) a(2) by simp
qed

section \<open>Ticks\<close>

definition no_zero_period :: "'e tsys \<Rightarrow> bool" where
  "no_zero_period s \<longleftrightarrow> (\<forall>t. periodic (timers s t) \<longrightarrow> init_tick (timers s t) \<noteq> 0)"

definition expired :: "'e tsys \<Rightarrow> tmid list" where
  "expired s = takeWhile (\<lambda>t. due s t \<le> 1) (timer_list s)"

lemma minus_one_mono: "a \<le> b \<Longrightarrow> a \<noteq> 0 \<Longrightarrow> a - 1 \<le> b - 1" for a b :: u32
proof -
  assume a: "a \<le> b" "a \<noteq> 0"
  then have "0 < unat a" by (simp add: unat_gt_0)
  then show "a - 1 \<le> b - 1" using a(1) unat_diff [of a 1] unat_diff [of b 1] by (simp add: word_le_nat_alt)
qed

lemma sorted_drop_large:
  fixes k :: "'a \<Rightarrow> 'b :: linorder"
  assumes "sorted_wrt (\<lambda>x y. k x \<le> k y) xs"
  shows "\<forall>y \<in> set (dropWhile (\<lambda>x. k x \<le> c) xs). c < k y" "sorted_wrt (\<lambda>x y. k x \<le> k y) (dropWhile (\<lambda>x. k x \<le> c) xs)"
  using assms by (induction xs) auto

lemma tick_mid_check:
  assumes ok: "timers_ok s" and z: "no_zero_period s"
  shows "mid_check (expired s) (dropWhile (\<lambda>t. due s t \<le> 1) (timer_list s)) (s\<lparr>rt_tick := rt_tick s + 1\<rparr>)"
proof -
  let ?s = "s\<lparr>rt_tick := rt_tick s + 1\<rparr>" and ?ys = "dropWhile (\<lambda>t. due s t \<le> 1) (timer_list s)"
  note k = timers_okD [OF ok]
  have d: "due ?s x = due s x - 1" for x by (simp add: due_def)
  have l: "expired s @ ?ys = timer_list s" by (simp add: expired_def)
  have e: "due s x \<in> {0, 1}" if "x \<in> set (expired s)" for x
  proof -
    have "due s x \<le> 1" using that by (auto simp: expired_def dest: set_takeWhileD)
    then have "unat (due s x) \<le> 1" by (simp add: word_le_nat_alt)
    then have "unat (due s x) = unat (0 :: u32) \<or> unat (due s x) = unat (1 :: u32)" by auto
    then show ?thesis by (simp only: word_unat_eq_iff [symmetric] insert_iff) simp
  qed
  have y: "1 < due s y \<and> due s y < HALF_TICK_MAX" if "y \<in> set ?ys" for y
    using that sorted_drop_large(1) [OF k(6), of 1] k(5) by (auto dest: set_dropWhileD)
  have yd: "due ?s y \<noteq> 0 \<and> due ?s y < HALF_TICK_MAX" if "y \<in> set ?ys" for y
  proof -
    have u: "1 < unat (due s y)" "unat (due s y) < 0x7FFFFFFF" using y [OF that] by (simp_all add: word_less_nat_alt HALF_TICK_MAX_def)
    then have "unat (due ?s y) = unat (due s y) - 1" using unat_diff [of "due s y" 1] d by simp
    then show ?thesis using u unfolding HALF_TICK_MAX_def word_less_nat_alt by (auto simp: unat_eq_0 [symmetric] simp del: unat_eq_0)
  qed
  have "sorted_wrt (\<lambda>x y. due ?s x \<le> due ?s y) ?ys"
    by (rule sorted_wrt_mono_rel [OF _ sorted_drop_large(2) [OF k(6), of 1]]) (use y in \<open>fastforce simp: d intro: minus_one_mono\<close>)
  moreover have "due ?s x \<in> {0, - 1}" if "x \<in> set (expired s)" for x using e [OF that] d by auto
  moreover have "timer_list ?s = expired s @ ?ys" "distinct (expired s @ ?ys)" using l k(1) by simp_all
  moreover have "activated (timers s t) \<longleftrightarrow> t \<in> set (expired s @ ?ys)" for t unfolding l by (rule k(3))
  ultimately show ?thesis using k(2,4) yd z unfolding mid_check_def no_zero_period_def by simp
qed

lemma tick_timers_ok:
  assumes ok: "timers_ok s" and z: "no_zero_period s" and fuel: "length (timer_list s) < fuel"
  obtains s' where "tick_timers fuel (calls g) s = Inr s'" "timers_ok s'" "no_zero_period s'" "env s' = fold g (expired s) (env s)"
    "ticks_left s' = after_fire (set (expired s)) (s\<lparr>rt_tick := rt_tick s + 1\<rparr>)"
proof -
  let ?s = "s\<lparr>rt_tick := rt_tick s + 1\<rparr>"
  have "length (expired s) < fuel" using fuel length_takeWhile_le [of "\<lambda>t. due s t \<le> 1" "timer_list s"] by (simp add: expired_def)
  from check_loop_ok [OF tick_mid_check [OF ok z] this, of g] obtain s' where
    s': "timer_check_loop fuel (calls g) (rt_tick ?s) ?s = Inr s'" "timers_ok s'" "same_setup ?s s'" "env s' = fold g (expired s) (env s)"
      "ticks_left s' = after_fire (set (expired s)) ?s" by auto
  have t: "?s\<lparr>tmp_list := []\<rparr> = ?s" using timers_okD(2) [OF ok] by (cases s) simp
  have "tick_timers fuel (calls g) s = Inr s'"
    unfolding tick_timers_def rt_timer_check_def t by (rule s'(1))
  moreover have "no_zero_period s'" using z s'(3) by (simp add: no_zero_period_def same_setup_def)
  ultimately show ?thesis using that s'(2,4,5) by blast
qed

lemma set_expired:
  assumes "timers_ok s"
  shows "t \<in> set (expired s) \<longleftrightarrow> (\<exists>n \<le> 1. ticks_left s t = Some n)"
proof -
  note k = timers_okD [OF assms]
  have "t \<in> set (expired s) \<longleftrightarrow> t \<in> set (timer_list s) \<and> due s t \<le> 1"
    using sorted_drop_large(1) [OF k(6), of 1] takeWhile_dropWhile_id [of "\<lambda>t. due s t \<le> 1" "timer_list s"]
    unfolding expired_def by (metis Un_iff not_le set_append set_takeWhileD)
  then show ?thesis using k(3) by (auto simp: ticks_left_def word_le_nat_alt)
qed

lemma tick_ticks_left:
  assumes "timers_ok s" "ticks_left s' = after_fire (set (expired s)) (s\<lparr>rt_tick := rt_tick s + 1\<rparr>)"
  shows "ticks_left s' t = (case ticks_left s t of None \<Rightarrow> None
    | Some n \<Rightarrow> if n \<le> 1 then if periodic (timers s t) then Some (unat (init_tick (timers s t))) else None else Some (n - 1))"
proof -
  have "ticks_left (s\<lparr>rt_tick := rt_tick s + 1\<rparr>) t = map_option (\<lambda>n. n - 1) (ticks_left s t)" if "\<not> (\<exists>n \<le> 1. ticks_left s t = Some n)"
    using that unat_diff [of "due s t" 1] by (auto simp: ticks_left_def due_def algebra_simps)
  then show ?thesis using set_expired [OF assms(1), of t] assms(2) by (auto simp: after_fire_def split: option.splits)
qed

section \<open>What clients of timers rely on\<close>

fun iterate :: "nat \<Rightarrow> ('s \<Rightarrow> 's cres) \<Rightarrow> 's \<Rightarrow> 's cres" where
  "iterate 0 f s = Inr s"
| "iterate (Suc n) f s = cbind (f s) (iterate n f)"

text \<open>A tick succeeds, calls the timers with at most one tick left, and takes one tick from every other running timer. \<open>fired\<close> is what the last tick has called.\<close>

locale timer_service =
  fixes inv :: "'s \<Rightarrow> bool" and left :: "'s \<Rightarrow> 't \<Rightarrow> nat option" and tick :: "'s \<Rightarrow> 's cres" and fired :: "'s \<Rightarrow> 't list"
  assumes tick_runs: "inv s \<Longrightarrow> \<exists>s'. tick s = Inr s' \<and> inv s'"
    and tick_fires: "inv s \<Longrightarrow> tick s = Inr s' \<Longrightarrow> t \<in> set (fired s') \<longleftrightarrow> (\<exists>n \<le> 1. left s t = Some n)"
    and tick_waits: "inv s \<Longrightarrow> tick s = Inr s' \<Longrightarrow> left s t = Some n \<Longrightarrow> 1 < n \<Longrightarrow> left s' t = Some (n - 1)"
begin

lemma fires_on_time:
  "inv s \<Longrightarrow> left s t = Some n \<Longrightarrow> 0 < k \<Longrightarrow> k \<le> max 1 n \<Longrightarrow> \<exists>s'. iterate k tick s = Inr s' \<and> (t \<in> set (fired s') \<longleftrightarrow> k = max 1 n)"
proof (induction k arbitrary: s n)
  case (Suc k)
  obtain s1 where s1: "tick s = Inr s1" "inv s1" using tick_runs [OF Suc.prems(1)] by blast
  have f: "t \<in> set (fired s1) \<longleftrightarrow> n \<le> 1" using tick_fires [OF Suc.prems(1) s1(1)] Suc.prems(2) by simp
  show ?case
  proof (cases "k = 0")
    case True
    then show ?thesis using s1(1) f by (auto simp: max_def)
  next
    case False
    then have n: "1 < n" using Suc.prems(4) by (simp add: max_def split: if_splits)
    then have "left s1 t = Some (n - 1)" by (rule tick_waits [OF Suc.prems(1) s1(1) Suc.prems(2)])
    moreover have "k \<le> max 1 (n - 1)" using Suc.prems(4) n by linarith
    ultimately obtain s' where "iterate k tick s1 = Inr s'" "t \<in> set (fired s') \<longleftrightarrow> k = max 1 (n - 1)"
      using Suc.IH [OF s1(2)] False by blast
    then show ?thesis using s1(1) n False by (auto simp: max_def)
  qed
qed simp

end

text \<open>A tick whose timeout functions record which timers they were called for.\<close>

definition logged_tick :: "tmid list tsys \<Rightarrow> tmid list tsys cres" where
  "logged_tick s = tick_timers (length (timer_list s) + 1) (calls (\<lambda>t l. l @ [t])) (s\<lparr>env := []\<rparr>)"

lemma fold_log: "fold (\<lambda>t l. l @ [t]) xs ys = ys @ xs"
  by (induction xs arbitrary: ys) auto

lemma env_irrelevant [simp]:
  "timers_ok (s\<lparr>env := e\<rparr>) = timers_ok s" "no_zero_period (s\<lparr>env := e\<rparr>) = no_zero_period s" "expired (s\<lparr>env := e\<rparr>) = expired s"
  "ticks_left (s\<lparr>env := e\<rparr>) = ticks_left s"
proof -
  have d: "due (s\<lparr>env := e\<rparr>) = due s" by (simp add: due_def fun_eq_iff)
  then show "timers_ok (s\<lparr>env := e\<rparr>) = timers_ok s" "no_zero_period (s\<lparr>env := e\<rparr>) = no_zero_period s" "expired (s\<lparr>env := e\<rparr>) = expired s"
    "ticks_left (s\<lparr>env := e\<rparr>) = ticks_left s" by (simp_all add: timers_ok_def no_zero_period_def expired_def ticks_left_def fun_eq_iff)
qed

lemma logged_tick_ok:
  assumes "timers_ok s" "no_zero_period s"
  obtains s' where "logged_tick s = Inr s'" "timers_ok s'" "no_zero_period s'" "env s' = expired s"
    "\<And>t. ticks_left s' t = (case ticks_left s t of None \<Rightarrow> None
      | Some n \<Rightarrow> if n \<le> 1 then if periodic (timers s t) then Some (unat (init_tick (timers s t))) else None else Some (n - 1))"
proof -
  have ok: "timers_ok (s\<lparr>env := []\<rparr>)" "no_zero_period (s\<lparr>env := []\<rparr>)" "length (timer_list (s\<lparr>env := []\<rparr>)) < length (timer_list s) + 1"
    using assms by simp_all
  have same: "timers (s\<lparr>env := []\<rparr>) = timers s" by simp
  obtain s' where "logged_tick s = Inr s'" "timers_ok s'" "no_zero_period s'" "env s' = fold (\<lambda>t l. l @ [t]) (expired (s\<lparr>env := []\<rparr>)) []"
    and l: "ticks_left s' = after_fire (set (expired (s\<lparr>env := []\<rparr>))) (s\<lparr>env := [], rt_tick := rt_tick s + 1\<rparr>)"
    unfolding logged_tick_def by (rule tick_timers_ok [OF ok, of "\<lambda>t l. l @ [t]"]) auto
  moreover have "ticks_left s' t = (case ticks_left s t of None \<Rightarrow> None
      | Some n \<Rightarrow> if n \<le> 1 then if periodic (timers s t) then Some (unat (init_tick (timers s t))) else None else Some (n - 1))" for t
    using tick_ticks_left [OF ok(1), of s' t, unfolded same] l by (simp add: env_irrelevant)
  ultimately show ?thesis using that by (simp add: fold_log)
qed

interpretation kt: timer_service "\<lambda>s. timers_ok s \<and> no_zero_period s" ticks_left logged_tick env
proof
  fix s :: "tmid list tsys" and s' t n
  assume inv: "timers_ok s \<and> no_zero_period s"
  then obtain s1 where s1: "logged_tick s = Inr s1" "timers_ok s1" "no_zero_period s1" "env s1 = expired s"
    "\<And>t. ticks_left s1 t = (case ticks_left s t of None \<Rightarrow> None
      | Some n \<Rightarrow> if n \<le> 1 then if periodic (timers s t) then Some (unat (init_tick (timers s t))) else None else Some (n - 1))"
    using logged_tick_ok by blast
  show "\<exists>s'. logged_tick s = Inr s' \<and> timers_ok s' \<and> no_zero_period s'" using s1 by blast
  assume t: "logged_tick s = Inr s'"
  then show "t \<in> set (env s') \<longleftrightarrow> (\<exists>n \<le> 1. ticks_left s t = Some n)" using s1(1,4) set_expired inv by auto
  assume "ticks_left s t = Some n" "1 < n"
  then show "ticks_left s' t = Some (n - 1)" using t s1(1,5) by simp
qed

section \<open>Properties\<close>

text \<open>C30: the timers count down: starting a timer gives it its initial ticks, stopping it takes it off, and a tick calls exactly the timers that have
  at most one tick left, in the order of their timeouts, starts the periodic ones again, stops the others, and takes a tick from every timer that runs on. Every operation keeps the list in order, across
  the wrap-around of the tick counter, and the check returns.\<close>

theorem timers_count_down:
  assumes "timers_ok s" and "no_zero_period s"
  shows "timers_ok (rt_timer_start t s) \<and> ticks_left (rt_timer_start t s) = (ticks_left s)(t \<mapsto> unat (init_tick (timers s t)))
    \<and> timers_ok (snd (rt_timer_stop t s)) \<and> ticks_left (snd (rt_timer_stop t s)) = (ticks_left s)(t := None)
    \<and> (\<exists>s'. logged_tick s = Inr s' \<and> timers_ok s' \<and> no_zero_period s'
         \<and> set (env s') = {x. \<exists>n \<le> 1. ticks_left s x = Some n} \<and> sorted_wrt (\<lambda>x y. the (ticks_left s x) \<le> the (ticks_left s y)) (env s')
         \<and> (\<forall>x. ticks_left s' x = (case ticks_left s x of None \<Rightarrow> None
              | Some n \<Rightarrow> if n \<le> 1 then if periodic (timers s x) then Some (unat (init_tick (timers s x))) else None else Some (n - 1))))"
proof -
  have stop: "timers_ok (snd (rt_timer_stop t s)) \<and> ticks_left (snd (rt_timer_stop t s)) = (ticks_left s)(t := None)"
  proof (cases "activated (timers s t)")
    case False
    then have "ticks_left s t = None" by (simp add: ticks_left_def)
    then show ?thesis using False assms(1) by (simp add: rt_timer_stop_def fun_upd_idem)
  qed (use timers_ok_removed [OF assms(1), of t] in \<open>simp add: rt_timer_stop_def\<close>)
  obtain s' where s': "logged_tick s = Inr s'" "timers_ok s'" "no_zero_period s'" "env s' = expired s"
    "\<And>t. ticks_left s' t = (case ticks_left s t of None \<Rightarrow> None
      | Some n \<Rightarrow> if n \<le> 1 then if periodic (timers s t) then Some (unat (init_tick (timers s t))) else None else Some (n - 1))"
    using logged_tick_ok [OF assms] by blast
  have "sorted_wrt (\<lambda>x y. due s x \<le> due s y) (expired s)"
  proof -
    have "expired s @ dropWhile (\<lambda>t. due s t \<le> 1) (timer_list s) = timer_list s" by (simp add: expired_def)
    then show ?thesis using timers_okD(6) [OF assms(1)] sorted_wrt_append by metis
  qed
  moreover have "activated (timers s x)" if "x \<in> set (expired s)" for x
    using that timers_okD(3) [OF assms(1)] by (auto simp: expired_def dest: set_takeWhileD)
  ultimately have "sorted_wrt (\<lambda>x y. the (ticks_left s x) \<le> the (ticks_left s y)) (expired s)"
    by (auto simp: ticks_left_def word_le_nat_alt elim!: sorted_wrt_mono_rel [rotated])
  moreover have "set (expired s) = {x. \<exists>n \<le> 1. ticks_left s x = Some n}" using set_expired [OF assms(1)] by blast
  ultimately have "\<exists>s'. logged_tick s = Inr s' \<and> timers_ok s' \<and> no_zero_period s'
         \<and> set (env s') = {x. \<exists>n \<le> 1. ticks_left s x = Some n} \<and> sorted_wrt (\<lambda>x y. the (ticks_left s x) \<le> the (ticks_left s y)) (env s')
         \<and> (\<forall>x. ticks_left s' x = (case ticks_left s x of None \<Rightarrow> None
              | Some n \<Rightarrow> if n \<le> 1 then if periodic (timers s x) then Some (unat (init_tick (timers s x))) else None else Some (n - 1)))"
    unfolding s'(4) [symmetric] by (intro exI [of _ s'] conjI allI s'(1-3,5))
  then show ?thesis using stop rt_timer_start_ok [OF assms(1), of t] by (intro conjI) simp_all
qed

text \<open>C31: a timer fires on time: started with \<open>n\<close> ticks at any tick, also when the counter wraps around before the timeout, it is called by the \<open>n\<close>-th tick from then on (by the next
  one for \<open>n = 0\<close>) and by none before.\<close>

theorem timer_fires_on_time:
  assumes "timers_ok s" and "no_zero_period s" and "n = max 1 (unat (init_tick (timers s t)))" and "0 < k" and "k \<le> n"
  shows "\<exists>s'. iterate k logged_tick (rt_timer_start t s) = Inr s' \<and> (t \<in> set (env s') \<longleftrightarrow> k = n)"
proof -
  have "no_zero_period (rt_timer_start t s)" using assms(2) by (simp add: no_zero_period_def rt_timer_start_simps)
  then have inv: "timers_ok (rt_timer_start t s) \<and> no_zero_period (rt_timer_start t s)" using rt_timer_start_ok(1) [OF assms(1)] by blast
  have "ticks_left (rt_timer_start t s) t = Some (unat (init_tick (timers s t)))" using rt_timer_start_ok(2) [OF assms(1)] by simp
  from kt.fires_on_time [OF inv this assms(4)] show ?thesis using assms(3,5) by simp
qed

text \<open>A running periodic timer with a period of 0 ticks, which \<open>rt_timer_init\<close> accepts, makes the next check loop forever in the clock interrupt: it is started again with a
  timeout that has already passed.\<close>

theorem zero_period_never_returns:
  assumes "timer_list s = [t]" and "periodic (timers s t)" and "activated (timers s t)" and "init_tick (timers s t) = 0" and "due s t \<le> 1"
  shows "tick_timers fuel (calls g) s = Inl OutOfFuel"
proof -
  define stuck where "stuck = (\<lambda>s :: 'a tsys. timer_list s = [t] \<and> tmp_list s = [] \<and> periodic (timers s t) \<and> activated (timers s t)
    \<and> init_tick (timers s t) = 0 \<and> rt_tick s - timeout_tick (timers s t) < HALF_TICK_MAX)"
  have loop: "timer_check_loop fuel (calls g) (rt_tick s) s = Inl OutOfFuel" if "stuck s" for s
    using that
  proof (induction fuel arbitrary: s)
    case (Suc fuel)
    let ?s = "rt_timer_start t (upd_timer t (activated_update (\<lambda>_. False)) (s\<lparr>tmp_list := [], env := g t (env s), timer_list := []\<rparr>))"
    have "timer_check_loop (Suc fuel) (calls g) (rt_tick s) s = timer_check_loop fuel (calls g) (rt_tick s) ?s"
      using Suc.prems by (simp add: stuck_def timer_remove_def calls_def Let_def)
    moreover have "stuck ?s" using Suc.prems rt_timer_start_simps(5) [of t "upd_timer t (activated_update (\<lambda>_. False)) (s\<lparr>tmp_list := [], env := g t (env s), timer_list := []\<rparr>)"]
      by (simp add: stuck_def rt_timer_start_simps(1-4) HALF_TICK_MAX_def)
    ultimately show ?case using Suc.IH [of ?s] by (simp add: rt_timer_start_simps(1))
  qed simp
  let ?s = "s\<lparr>rt_tick := rt_tick s + 1, tmp_list := []\<rparr>"
  have "unat (due s t) \<le> 1" using assms(5) by (simp add: word_le_nat_alt)
  then have "unat (1 - due s t) \<le> 1" using unat_diff [of 1 "due s t"] by auto
  moreover have "rt_tick s + 1 - timeout_tick (timers s t) = 1 - due s t" by (simp add: due_def)
  ultimately have "unat (rt_tick s + 1 - timeout_tick (timers s t)) \<le> 1" by presburger
  then have "stuck ?s" using assms(1-4) by (simp add: stuck_def word_less_nat_alt HALF_TICK_MAX_def)
  then show ?thesis using loop [of ?s] by (simp add: tick_timers_def rt_timer_check_def)
qed

text \<open>The state query answers with the timeout, because its case falls through into the next one.\<close>

theorem get_state_returns_timeout:
  "rt_timer_control t GET_STATE s = Inr (Some (timeout_tick (timers s t)), s)"
  by (simp add: rt_timer_control_def)

text \<open>Just before the counter wraps around; timer \<open>t\<close> has \<open>t\<close> initial ticks.\<close>

definition sample_timers :: "tmid list tsys" where
  "sample_timers = \<lparr>rt_tick = 0xFFFFFFFE, timer_list = [], tmp_list = [],
     timers = (\<lambda>t. \<lparr>init_tick = (if t < 10 then of_nat t else 10), timeout_tick = 0, activated = False, periodic = False\<rparr>), env = []\<rparr>"

lemma sample_timers_ok: "timers_ok sample_timers" "no_zero_period sample_timers" "ticks_left sample_timers = Map.empty"
proof -
  have "unat (of_nat t :: u32) < 10" if "t < 10" for t using that by (simp add: unat_of_nat)
  then have "of_nat t < (0x7FFFFFFF :: u32)" if "t < 10" for t using that by (fastforce simp: word_less_nat_alt)
  then show "timers_ok sample_timers" by (simp add: timers_ok_def sample_timers_def HALF_TICK_MAX_def)
qed (simp_all add: no_zero_period_def sample_timers_def ticks_left_def fun_eq_iff)

theorem timers_count_down_witness:
  "\<exists>s'. logged_tick (rt_timer_start 1 sample_timers) = Inr s' \<and> set (env s') = {1} \<and> ticks_left s' = Map.empty"
proof -
  let ?s = "rt_timer_start 1 sample_timers"
  have ok: "timers_ok ?s" by (rule rt_timer_start_ok(1) [OF sample_timers_ok(1)])
  have z: "no_zero_period ?s" using sample_timers_ok(2) by (simp add: no_zero_period_def rt_timer_start_simps)
  have l: "ticks_left ?s = [1 \<mapsto> 1]" using rt_timer_start_ok(2) [OF sample_timers_ok(1), of 1] sample_timers_ok(3) by (simp add: sample_timers_def)
  have p: "\<not> periodic (timers ?s 1)" by (simp add: rt_timer_start_simps sample_timers_def)
  from timers_count_down [OF ok z, of 1] show ?thesis using l p by (auto simp: fun_eq_iff split: if_splits)
qed

theorem timer_fires_on_time_witness:
  "(\<exists>s'. iterate 3 logged_tick (rt_timer_start 3 sample_timers) = Inr s' \<and> 3 \<in> set (env s'))
   \<and> (\<exists>s'. iterate 2 logged_tick (rt_timer_start 3 sample_timers) = Inr s' \<and> 3 \<notin> set (env s'))"
proof -
  have n: "3 = max 1 (unat (init_tick (timers sample_timers 3)))" by (simp add: sample_timers_def)
  show ?thesis
    using timer_fires_on_time [OF sample_timers_ok(1,2) n, of 3] timer_fires_on_time [OF sample_timers_ok(1,2) n, of 2] by simp
qed

theorem zero_period_never_returns_witness:
  "\<forall>fuel. tick_timers fuel (calls (\<lambda>t l. l @ [t])) (sample_timers\<lparr>timer_list := [0],
     timers := (\<lambda>t. \<lparr>init_tick = 0, timeout_tick = 0xFFFFFFFE, activated = True, periodic = True\<rparr>)\<rparr>) = Inl OutOfFuel"
  by (rule allI, rule zero_period_never_returns [where t = 0]) (simp_all add: sample_timers_def due_def)

end
