(* ===== verification/Dfs_Path.thy ===== *)
theory Dfs_Path
  imports Image_Node Kprintf
begin

text \<open>
  Paths of the device file system, \<^verbatim>\<open>rt-thread/components/dfs/src/dfs.c\<close>: \<open>dfs_normalize_path\<close> makes a path absolute and removes
  its empty, \<open>.\<close> and \<open>..\<close> components in place, in the block it has allocated; \<open>dfs_subdir\<close> cuts the mount point off a path. The
  reference is \<open>resolve\<close>, which works on the list of components.
\<close>

section \<open>Operations\<close>

text \<open>\<open>while (*src == '/') src ++\<close>; the copy of a component up to the next \<open>/\<close> or the end, with the character that stopped it; the way back to
  the start of the last component.\<close>

function skip_slashes :: "char list \<Rightarrow> nat \<Rightarrow> nat cres" where
  "skip_slashes a src =
     (if \<not> src < length a then Inl OutOfBounds else if a ! src = CHR ''/'' then skip_slashes a (src + 1) else Inr src)"
  by pat_completeness auto

termination
  by (relation "measure (\<lambda>(a, src). length a - src)") auto

declare skip_slashes.simps [simp del]

function copy_name :: "char list \<Rightarrow> nat \<Rightarrow> nat \<Rightarrow> (char \<times> char list \<times> nat \<times> nat) cres" where
  "copy_name a src dst =
     (if \<not> src < length a then Inl OutOfBounds
      else let c = a ! src
      in if c \<noteq> NUL \<and> c \<noteq> CHR ''/''
         then if \<not> dst < length a then Inl OutOfBounds else copy_name (a[dst := c]) (src + 1) (dst + 1)
         else Inr (c, a, src + 1, dst))"
  by pat_completeness auto

termination
  by (relation "measure (\<lambda>(a, src, dst). length a - src)") auto

declare copy_name.simps [simp del]

fun back_up :: "char list \<Rightarrow> nat \<Rightarrow> nat cres" where
  "back_up a 0 = Inr 0"
| "back_up a (Suc d) = (if \<not> d < length a then Inl OutOfBounds else if a ! d \<noteq> CHR ''/'' then back_up a d else Inr (Suc d))"

text \<open>What the loop does at the start of a component: go on behind it, go up, or copy it.\<close>

datatype norm_step = Again nat | UpOne nat | Copy nat

definition dot_case :: "char list \<Rightarrow> nat \<Rightarrow> norm_step cres" where
  "dot_case a src =
     cbind (rd a (src + 1)) (\<lambda>c1.
       if c1 = NUL then Inr (Copy (src + 1))
       else if c1 = CHR ''/'' then cbind (skip_slashes a (src + 2)) (\<lambda>src. Inr (Again src))
       else if c1 = CHR ''.''
       then cbind (rd a (src + 2)) (\<lambda>c2.
              if c2 = NUL then Inr (UpOne (src + 2))
              else if c2 = CHR ''/'' then cbind (skip_slashes a (src + 3)) (\<lambda>src. Inr (UpOne src))
              else Inr (Copy src))
       else Inr (Copy src))"

definition norm_case :: "char list \<Rightarrow> nat \<Rightarrow> norm_step cres" where
  "norm_case a src = cbind (rd a src) (\<lambda>c. if c = CHR ''.'' then dot_case a src else Inr (Copy src))"

lemma skip_slashes_ge: "skip_slashes a src = Inr src' \<Longrightarrow> src \<le> src' \<and> src' < length a"
proof (induction a src rule: skip_slashes.induct)
  case (1 a src)
  show ?case using 1(2) 1(1) by (subst (asm) skip_slashes.simps) (auto split: if_splits)
qed

lemma copy_name_gt: "copy_name a src dst = Inr (c, a', src', dst') \<Longrightarrow> src < src' \<and> src' \<le> length a \<and> length a' = length a"
proof (induction a src dst rule: copy_name.induct)
  case (1 a src dst)
  show ?case
    using 1(2) 1(1) [of "a ! src"] by (subst (asm) copy_name.simps) (auto simp: Let_def split: if_splits)
qed

lemma norm_case_gt:
  "norm_case a src = Inr (Again s) \<Longrightarrow> src < s" "norm_case a src = Inr (UpOne s) \<Longrightarrow> src < s" "norm_case a src = Inr (Copy s) \<Longrightarrow> src \<le> s"
  by (auto simp: norm_case_def dot_case_def cbind_eq_Inr rd_def split: if_splits dest!: skip_slashes_ge)

lemma norm_case_in: "norm_case a src = Inr n \<Longrightarrow> src < length a"
  by (auto simp: norm_case_def cbind_eq_Inr rd_def split: if_splits)

text \<open>The loop; \<open>None\<close> when a \<open>..\<close> leads above the start of the path.\<close>

function norm_loop :: "char list \<Rightarrow> nat \<Rightarrow> nat \<Rightarrow> (char list \<times> nat option) cres" where
  "norm_loop a src dst = cbind (norm_case a src) (\<lambda>n. case n of
       Again src \<Rightarrow> norm_loop a src dst
     | UpOne src \<Rightarrow> if dst = 0 then Inr (a, None) else cbind (back_up a (dst - 1)) (\<lambda>dst. norm_loop a src dst)
     | Copy src \<Rightarrow> cbind (copy_name a src dst) (\<lambda>(c, a, src, dst).
         if c = CHR ''/''
         then cbind (wr a dst (CHR ''/'')) (\<lambda>a. cbind (skip_slashes a src) (\<lambda>src. norm_loop a src (dst + 1)))
         else Inr (a, Some dst)))"
  by pat_completeness auto

termination
proof (relation "measure (\<lambda>(a, src, dst). length a - src)", goal_cases)
  case (2 a src dst n s)
  then show ?case using norm_case_gt(1) [of a src s] norm_case_in [of a src n] by auto
next
  case (3 a src dst n s d)
  then show ?case using norm_case_gt(2) [of a src s] norm_case_in [of a src n] by auto
next
  case (4 a src dst n s r c x a' y src' dst' a'' src'')
  have "src \<le> s" "src < length a" using norm_case_gt(3) [of a src s] norm_case_in [of a src n] 4(1,2) by auto
  moreover have "s < src'" "length a' = length a" using copy_name_gt [of a s dst c a' src' dst'] 4(3-6) by auto
  moreover have "length a'' = length a'" using 4(8) by (auto simp: wr_def split: if_splits)
  moreover have "src' \<le> src''" using skip_slashes_ge [OF 4(9)] by simp
  ultimately show ?case by auto
qed simp

declare norm_loop.simps [simp del]

text \<open>What follows the loop. The byte before the block is read when nothing is left of the path.\<close>

definition norm_finish :: "char list \<Rightarrow> nat \<Rightarrow> char list cres" where
  "norm_finish a dst =
     cbind (wr a dst NUL) (\<lambda>a.
       if dst = 0 then Inl OutOfBounds
       else let dst = dst - 1
       in cbind (if dst \<noteq> 0 then cbind (rd a dst) (\<lambda>c. if c = CHR ''/'' then wr a dst NUL else Inr a) else Inr a) (\<lambda>a.
          cbind (rd a 0) (\<lambda>c. if c = NUL then cbind (wr a 0 (CHR ''/'')) (\<lambda>a. wr a 1 NUL) else Inr a)))"

text \<open>The block with the path: \<open>f\<close> itself when it is absolute, otherwise behind the directory. A new block holds \<open>junk\<close>.\<close>

definition path_block :: "char list \<Rightarrow> char list \<Rightarrow> app_mem \<Rightarrow> (ptr \<times> app_mem) cres" where
  "path_block directory f s =
     cbind (rd f 0) (\<lambda>c.
       if c \<noteq> CHR ''/''
       then cbind (rt_strlen directory) (\<lambda>dl. cbind (rt_strlen f) (\<lambda>fl.
            let n = (dl + fl + 2) mod 2 ^ 32
            in cbind (rt_malloc n s) (\<lambda>(fullpath, s).
               if fullpath = RT_NULL then Inr (RT_NULL, s)
               else cbind (rt_snprintf fullpath (replicate n (junk s)) n (cstr ''%s/%s'' []) [VStr (Some directory), VStr (Some f)]) (\<lambda>(_, a).
                    Inr (fullpath, s\<lparr>strs := (strs s)(fullpath \<mapsto> a)\<rparr>)))))
       else rt_strdup (Some f) s)"

text \<open>\<open>wd\<close> is the working directory.\<close>

definition dfs_normalize_path :: "char list \<Rightarrow> char list option \<Rightarrow> char list option \<Rightarrow> app_mem \<Rightarrow> (ptr \<times> app_mem) cres" where
  "dfs_normalize_path wd directory filename s =
     cbind (rt_assert (filename \<noteq> None)) (\<lambda>_. cbind (deref filename) (\<lambda>f.
     cbind (path_block (case directory of None \<Rightarrow> wd | Some d \<Rightarrow> d) f s) (\<lambda>(fullpath, s).
       if fullpath = RT_NULL then Inr (RT_NULL, s)
       else cbind (str_at s fullpath) (\<lambda>a. cbind (deref a) (\<lambda>a. cbind (norm_loop a 0 0) (\<lambda>(a, dst). case dst of
              None \<Rightarrow> cbind (rt_free fullpath s) (\<lambda>s. Inr (RT_NULL, s))
            | Some dst \<Rightarrow> cbind (norm_finish a dst) (\<lambda>a. Inr (fullpath, s\<lparr>strs := (strs s)(fullpath \<mapsto> a)\<rparr>))))))))"

text \<open>The offset in \<open>filename\<close> where the part below \<open>directory\<close> starts.\<close>

definition dfs_subdir :: "char list \<Rightarrow> char list \<Rightarrow> nat option cres" where
  "dfs_subdir directory filename =
     cbind (rt_strlen directory) (\<lambda>dl. cbind (rt_strlen filename) (\<lambda>fl.
       if dl = fl then Inr None
       else cbind (rd filename dl) (\<lambda>c. if c \<noteq> CHR ''/'' \<and> dl \<noteq> 0 then Inr (Some (dl - 1)) else Inr (Some dl))))"

section \<open>Components\<close>

text \<open>The components of a path, and the path components lead to: whether it starts at the root, and the components in order. A \<open>..\<close> at the
  root loses the root, a further one has nowhere to go.\<close>

function comps :: "string \<Rightarrow> string list" where
  "comps t = (let c = takeWhile (\<lambda>x. x \<noteq> CHR ''/'') t; r = dropWhile (\<lambda>x. x \<noteq> CHR ''/'') t
     in if r = [] then [c] else c # comps (tl r))"
  by pat_completeness auto

termination
proof (relation "measure length", goal_cases)
  case (2 t c r)
  then have "length (tl r) < length r" "length r \<le> length t" using length_dropWhile_le [of "\<lambda>x. x \<noteq> CHR ''/''" t] by simp_all
  then show ?case by simp
qed simp

declare comps.simps [simp del]

fun resolve :: "bool \<Rightarrow> string list \<Rightarrow> string list \<Rightarrow> (bool \<times> string list) option" where
  "resolve r st [] = Some (r, rev st)"
| "resolve r st (c # cs) =
     (if c = [] \<or> c = ''.'' then resolve r st cs
      else if c = ''..'' then (case st of [] \<Rightarrow> if r then resolve False [] cs else None | _ # st' \<Rightarrow> resolve r st' cs)
      else resolve r (c # st) cs)"

lemma comps_Nil [simp]: "comps [] = [[]]"
  by (simp add: comps.simps)

lemma comps_last: "CHR ''/'' \<notin> set c \<Longrightarrow> comps c = [c]"
proof -
  assume "CHR ''/'' \<notin> set c"
  then have "takeWhile (\<lambda>x. x \<noteq> CHR ''/'') c = c" "dropWhile (\<lambda>x. x \<noteq> CHR ''/'') c = []" by (auto simp: takeWhile_eq_all_conv dropWhile_eq_Nil_conv)
  then show ?thesis by (simp add: comps.simps)
qed

lemma comps_slash: "CHR ''/'' \<notin> set c \<Longrightarrow> comps (c @ CHR ''/'' # t) = c # comps t"
proof -
  assume "CHR ''/'' \<notin> set c"
  then have "takeWhile (\<lambda>x. x \<noteq> CHR ''/'') (c @ CHR ''/'' # t) = c" "dropWhile (\<lambda>x. x \<noteq> CHR ''/'') (c @ CHR ''/'' # t) = CHR ''/'' # t"
    by (auto simp: takeWhile_append dropWhile_append)
  then show ?thesis by (simp add: comps.simps [of "c @ CHR ''/'' # t"])
qed

lemma resolve_skip: "resolve r st (comps (replicate n (CHR ''/'') @ t)) = resolve r st (comps t)"
proof (induction n)
  case (Suc n)
  have "comps (CHR ''/'' # replicate n (CHR ''/'') @ t) = [] # comps (replicate n (CHR ''/'') @ t)"
    using comps_slash [of "[]" "replicate n (CHR ''/'') @ t"] by simp
  then show ?case using Suc by simp
qed simp

text \<open>A path is a component that ends it, or a component, slashes, and a path that does not start with one.\<close>

lemma path_cases:
  obtains (final) "CHR ''/'' \<notin> set t"
  | (more) c n t' where "t = c @ CHR ''/'' # replicate n (CHR ''/'') @ t'" "CHR ''/'' \<notin> set c" "t' = [] \<or> hd t' \<noteq> CHR ''/''"
proof (cases "CHR ''/'' \<in> set t")
  case True
  then obtain c u where u: "t = c @ CHR ''/'' # u" "CHR ''/'' \<notin> set c" using split_list_first by metis
  have "takeWhile (\<lambda>x. x = CHR ''/'') u = replicate (length (takeWhile (\<lambda>x. x = CHR ''/'') u)) (CHR ''/'')"
    by (rule replicate_length_same [symmetric]) (auto dest: set_takeWhileD)
  then have "u = replicate (length (takeWhile (\<lambda>x. x = CHR ''/'') u)) (CHR ''/'') @ dropWhile (\<lambda>x. x = CHR ''/'') u"
    by (metis takeWhile_dropWhile_id)
  moreover have "dropWhile (\<lambda>x. x = CHR ''/'') u = [] \<or> hd (dropWhile (\<lambda>x. x = CHR ''/'') u) \<noteq> CHR ''/''" using hd_dropWhile by blast
  ultimately show thesis using more u by metis
qed (rule final)

section \<open>The loop in place\<close>

lemma drop_nth: "drop i a = c # y \<Longrightarrow> i < length a \<and> a ! i = c \<and> drop (i + 1) a = y"
proof -
  assume d: "drop i a = c # y"
  then have i: "i < length a" by (metis drop_all leI list.distinct(1))
  then have "drop i a = a ! i # drop (Suc i) a" by (simp add: Cons_nth_drop_Suc)
  then show ?thesis using d i by simp
qed

lemma skip_slashes_run:
  assumes "drop src a = replicate n (CHR ''/'') @ c # y" "c \<noteq> CHR ''/''"
  shows "skip_slashes a src = Inr (src + n)"
  using assms
proof (induction n arbitrary: src)
  case 0
  then show ?case using drop_nth [of src a c y] by (simp add: skip_slashes.simps [of a src])
next
  case (Suc n)
  then have d: "src < length a" "a ! src = CHR ''/''" "drop (src + 1) a = replicate n (CHR ''/'') @ c # y"
    using drop_nth [of src a "CHR ''/''"] by auto
  then show ?case using Suc.IH [OF d(3) Suc.prems(2)] by (simp add: skip_slashes.simps [of a src])
qed

lemma copy_name_run:
  assumes "drop src a = c @ e # y" "e = NUL \<or> e = CHR ''/''" "NUL \<notin> set c" "CHR ''/'' \<notin> set c" "dst \<le> src"
  shows "\<exists>a'. copy_name a src dst = Inr (e, a', src + length c + 1, dst + length c) \<and> length a' = length a
    \<and> take (dst + length c) a' = take dst a @ c \<and> drop (src + length c) a' = e # y"
  using assms
proof (induction c arbitrary: a src dst)
  case Nil
  then show ?case using drop_nth [of src a e y] by (auto simp: copy_name.simps [of a src])
next
  case (Cons x c)
  then have d: "src < length a" "a ! src = x" "drop (src + 1) a = c @ e # y" using drop_nth [of src a x] by auto
  let ?a = "a[dst := x]"
  have "drop (src + 1) ?a = c @ e # y" using d(3) Cons.prems(5) by (simp add: drop_update_cancel)
  then obtain a' where a': "copy_name ?a (src + 1) (dst + 1) = Inr (e, a', src + 1 + length c + 1, dst + 1 + length c)" "length a' = length a"
    "take (dst + 1 + length c) a' = take (dst + 1) ?a @ c" "drop (src + 1 + length c) a' = e # y"
    using Cons.IH [of "src + 1" ?a "dst + 1"] Cons.prems by auto
  have "take (dst + 1) ?a = take dst a @ [x]" using d(1) Cons.prems(5) by (simp add: take_Suc_conv_app_nth)
  then show ?case using a' d Cons.prems by (auto simp: copy_name.simps [of a src])
qed

text \<open>The part of a path that has been written: a list of components, each with its slash.\<close>

definition dirtext :: "bool \<Rightarrow> string list \<Rightarrow> string" where
  "dirtext r st = (if r then ''/'' else []) @ concat (map (\<lambda>c. c @ ''/'') (rev st))"

definition name_ok :: "string \<Rightarrow> bool" where
  "name_ok c \<longleftrightarrow> c \<noteq> [] \<and> CHR ''/'' \<notin> set c \<and> NUL \<notin> set c \<and> c \<noteq> ''.'' \<and> c \<noteq> ''..''"

lemma dirtext_Cons: "dirtext r (c # st) = dirtext r st @ c @ ''/''"
  by (simp add: dirtext_def)

lemma dirtext_end: "dirtext r st = [] \<longleftrightarrow> \<not> r \<and> st = []" "dirtext r st \<noteq> [] \<Longrightarrow> last (dirtext r st) = CHR ''/''"
  by (auto simp: dirtext_def) (cases st; simp)+

lemma back_up_run:
  assumes "take (length p + length c) a = p @ c" "length p + length c \<le> length a" "CHR ''/'' \<notin> set c" "p = [] \<or> last p = CHR ''/''"
  shows "back_up a (length p + length c) = Inr (length p)"
  using assms
proof (induction c rule: rev_induct)
  case Nil
  show ?case
  proof (cases p rule: rev_cases)
    case (snoc q x)
    then have "a ! length q = CHR ''/''" using arg_cong [OF Nil(1), of "\<lambda>l. l ! length q"] Nil(4) by (simp add: nth_append)
    then show ?thesis using snoc Nil(2) by simp
  qed simp
next
  case (snoc x c)
  have n: "a ! (length p + length c) = x"
    using arg_cong [OF snoc.prems(1), of "\<lambda>l. l ! (length p + length c)"] by (simp add: nth_append)
  have "take (length p + length c) (take (length p + length (c @ [x])) a) = p @ c" unfolding snoc.prems(1) by simp
  then have "take (length p + length c) a = p @ c" by simp
  then show ?case using snoc n by auto
qed

text \<open>The written part never overtakes the part that is still to be read.\<close>

definition norm_at :: "char list \<Rightarrow> nat \<Rightarrow> nat \<Rightarrow> bool \<Rightarrow> string list \<Rightarrow> string \<Rightarrow> bool" where
  "norm_at a src dst r st t \<longleftrightarrow> dst = length (dirtext r st) \<and> take dst a = dirtext r st \<and> dst \<le> src \<and> (\<exists>y. drop src a = cstr t y)
     \<and> NUL \<notin> set t \<and> (t = [] \<or> hd t \<noteq> CHR ''/'') \<and> list_all name_ok st"

definition norm_result :: "char list \<Rightarrow> nat \<Rightarrow> nat \<Rightarrow> (bool \<times> string list) option \<Rightarrow> bool" where
  "norm_result a src dst res \<longleftrightarrow> (case res of
     None \<Rightarrow> \<exists>a'. norm_loop a src dst = Inr (a', None)
   | Some (r, cs) \<Rightarrow> list_all name_ok cs \<and> (\<exists>a' d. norm_loop a src dst = Inr (a', Some d) \<and> d < length a' \<and> length a' = length a
       \<and> (take d a' = dirtext r (rev cs) \<or> cs \<noteq> [] \<and> take d a' @ ''/'' = dirtext r (rev cs))))"

lemma norm_result_step: "norm_loop a src dst = norm_loop a' src' dst' \<Longrightarrow> length a' = length a \<Longrightarrow> norm_result a' src' dst' res \<Longrightarrow> norm_result a src dst res"
  by (auto simp: norm_result_def split: option.splits)

text \<open>The five kinds of components at the current place.\<close>

lemma norm_case_run:
  assumes "drop src a = c @ e # y" "e = NUL \<or> e = CHR ''/''" "NUL \<notin> set c" "CHR ''/'' \<notin> set c"
  shows "c = ''.'' \<Longrightarrow> e = NUL \<Longrightarrow> norm_case a src = Inr (Copy (src + 1))"
    "c = ''.'' \<Longrightarrow> e = CHR ''/'' \<Longrightarrow> y = replicate n (CHR ''/'') @ z # x \<Longrightarrow> z \<noteq> CHR ''/'' \<Longrightarrow> norm_case a src = Inr (Again (src + 2 + n))"
    "c = ''..'' \<Longrightarrow> e = NUL \<Longrightarrow> norm_case a src = Inr (UpOne (src + 2))"
    "c = ''..'' \<Longrightarrow> e = CHR ''/'' \<Longrightarrow> y = replicate n (CHR ''/'') @ z # x \<Longrightarrow> z \<noteq> CHR ''/'' \<Longrightarrow> norm_case a src = Inr (UpOne (src + 3 + n))"
    "c \<noteq> ''.'' \<Longrightarrow> c \<noteq> ''..'' \<Longrightarrow> norm_case a src = Inr (Copy src)"
proof -
  show "norm_case a src = Inr (Copy (src + 1))" if "c = ''.''" "e = NUL"
    using assms(1) that drop_nth [of src a "CHR ''.''" "[NUL] @ y"] drop_nth [of "src + 1" a NUL y] by (auto simp: norm_case_def dot_case_def rd_def)
  show "norm_case a src = Inr (Again (src + 2 + n))" if "c = ''.''" "e = CHR ''/''" and y: "y = replicate n (CHR ''/'') @ z # x" "z \<noteq> CHR ''/''"
  proof -
    have "drop (src + 2) a = y" "src < length a" "a ! src = CHR ''.''" "src + 1 < length a" "a ! (src + 1) = CHR ''/''"
      using assms(1) that(1,2) drop_nth [of src a "CHR ''.''" "CHR ''/'' # y"] drop_nth [of "src + 1" a "CHR ''/''" y] by auto
    then show ?thesis using skip_slashes_run [of "src + 2" a n z x] y by (simp add: norm_case_def dot_case_def rd_def)
  qed
  show "norm_case a src = Inr (UpOne (src + 2))" if "c = ''..''" "e = NUL"
    using assms(1) that drop_nth [of src a "CHR ''.''" "''.'' @ NUL # y"] drop_nth [of "src + 1" a "CHR ''.''" "NUL # y"] drop_nth [of "src + 2" a NUL y]
    by (auto simp: norm_case_def dot_case_def rd_def)
  show "norm_case a src = Inr (UpOne (src + 3 + n))" if "c = ''..''" "e = CHR ''/''" and y: "y = replicate n (CHR ''/'') @ z # x" "z \<noteq> CHR ''/''"
  proof -
    have "drop (src + 3) a = y" "src < length a" "a ! src = CHR ''.''" "src + 1 < length a" "a ! (src + 1) = CHR ''.''" "src + 2 < length a" "a ! (src + 2) = CHR ''/''"
      using assms(1) that(1,2) drop_nth [of src a "CHR ''.''" "''.'' @ CHR ''/'' # y"] drop_nth [of "src + 1" a "CHR ''.''" "CHR ''/'' # y"]
        drop_nth [of "src + 2" a "CHR ''/''" y] by (auto simp: numeral_3_eq_3)
    then show ?thesis using skip_slashes_run [of "src + 3" a n z x] y by (simp add: norm_case_def dot_case_def rd_def)
  qed
  show "norm_case a src = Inr (Copy src)" if "c \<noteq> ''.''" "c \<noteq> ''..''"
  proof (cases c)
    case Nil
    then show ?thesis using assms(1,2) drop_nth [of src a e y] by (auto simp: norm_case_def rd_def)
  next
    case (Cons x1 c1)
    then have s: "src < length a" "a ! src = x1" "drop (src + 1) a = c1 @ e # y" using assms(1) drop_nth [of src a x1 "c1 @ e # y"] by auto
    show ?thesis
    proof (cases c1)
      case Nil
      then show ?thesis using s that(1) Cons by (simp add: norm_case_def rd_def)
    next
      case (Cons x2 c2)
      then have s1: "src + 1 < length a" "a ! (src + 1) = x2" "drop (src + 2) a = c2 @ e # y" using s(3) drop_nth [of "src + 1" a x2 "c2 @ e # y"] by auto
      have "x2 \<noteq> NUL" "x2 \<noteq> CHR ''/''" using assms(3,4) \<open>c = x1 # c1\<close> Cons by auto
      moreover have "\<exists>x3. src + 2 < length a \<and> a ! (src + 2) = x3 \<and> x3 \<noteq> NUL \<and> x3 \<noteq> CHR ''/''" if d: "x1 = CHR ''.''" "x2 = CHR ''.''"
      proof -
        obtain x3 c3 where "c2 = x3 # c3" using d \<open>c \<noteq> ''..''\<close> \<open>c = x1 # c1\<close> Cons by (cases c2) auto
        then show ?thesis using s1(3) drop_nth [of "src + 2" a x3 "c3 @ e # y"] assms(3,4) \<open>c = x1 # c1\<close> Cons by auto
      qed
      ultimately show ?thesis using s s1 by (auto simp: norm_case_def dot_case_def rd_def)
    qed
  qed
qed

lemma norm_up:
  assumes at: "norm_at a src dst r (c # st) t" and n: "norm_case a src = Inr (UpOne s)"
  shows "norm_loop a src dst = norm_loop a s (length (dirtext r st))"
proof -
  have d: "dst = length (dirtext r st) + length c + 1" "take dst a = dirtext r st @ c @ ''/''" "CHR ''/'' \<notin> set c"
    using at by (auto simp: norm_at_def dirtext_Cons name_ok_def)
  have "length (take dst a) = dst" using d by simp
  then have l: "dst \<le> length a" by simp
  have "take (dst - 1) (take dst a) = dirtext r st @ c" unfolding d(2) using d(1) by simp
  then have "take (length (dirtext r st) + length c) a = dirtext r st @ c" using d(1) by (simp add: min_def)
  then have "back_up a (length (dirtext r st) + length c) = Inr (length (dirtext r st))"
    by (rule back_up_run) (use d l dirtext_end(2) in auto)
  then show ?thesis using n d(1) by (simp add: norm_loop.simps [of a src])
qed

lemma norm_up_root:
  assumes at: "norm_at a src dst r [] t" and n: "norm_case a src = Inr (UpOne s)"
  shows "r \<Longrightarrow> norm_loop a src dst = norm_loop a s 0" "\<not> r \<Longrightarrow> norm_loop a src dst = Inr (a, None)"
  using at n by (simp_all add: norm_loop.simps [of a src] norm_at_def dirtext_def)

lemma norm_pop:
  assumes at: "norm_at a src dst r st t" and n: "norm_case a src = Inr (UpOne s)" and s: "src \<le> s" "drop s a = cstr t' y" "NUL \<notin> set t'" "t' = [] \<or> hd t' \<noteq> CHR ''/''"
    and IH: "\<And>d r st. norm_at a s d r st t' \<Longrightarrow> norm_result a s d (resolve r st (comps t'))"
  shows "norm_result a src dst (resolve r st (''..'' # comps t'))"
proof (cases st)
  case Nil
  show ?thesis
  proof (cases r)
    case True
    have "norm_at a s 0 False [] t'" using s by (auto simp: norm_at_def dirtext_def)
    then have "norm_result a s 0 (resolve False [] (comps t'))" by (rule IH)
    then show ?thesis using norm_result_step [OF norm_up_root(1) [OF at [unfolded Nil] n True]] Nil True by simp
  qed (use norm_up_root(2) [OF at [unfolded Nil] n] Nil in \<open>simp add: norm_result_def\<close>)
next
  case (Cons c st')
  have b: "dst = length (dirtext r st)" "take dst a = dirtext r st" "dst \<le> src" "list_all name_ok st" using at by (auto simp: norm_at_def)
  have "take (length (dirtext r st')) (take dst a) = dirtext r st'" unfolding b(2) Cons dirtext_Cons by simp
  then have "norm_at a s (length (dirtext r st')) r st' t'"
    using s b Cons by (auto simp: norm_at_def dirtext_Cons min_def split: if_splits)
  then have "norm_result a s (length (dirtext r st')) (resolve r st' (comps t'))" by (rule IH)
  then show ?thesis using norm_result_step [OF norm_up [OF at [unfolded Cons] n]] Cons by simp
qed

lemma norm_final:
  assumes at: "norm_at a src dst r st t" and f: "CHR ''/'' \<notin> set t" "t \<noteq> ''..''"
  shows "norm_result a src dst (resolve r st [t])"
proof -
  obtain y where d: "drop src a = t @ NUL # y" using at unfolding norm_at_def cstr_def by blast
  have b: "dst = length (dirtext r st)" "take dst a = dirtext r st" "dst \<le> src" "NUL \<notin> set t" "list_all name_ok st" using at by (auto simp: norm_at_def)
  note k = norm_case_run [OF d _ b(4) f(1)]
  show ?thesis
  proof (cases "t = ''.''")
    case True
    have "drop src a = CHR ''.'' # NUL # y" using d True by simp
    from drop_nth [OF this] have s: "src < length a" "drop (src + 1) a = NUL # y" by simp_all
    have "copy_name a (src + 1) dst = Inr (NUL, a, src + 2, dst)" using drop_nth [OF s(2)] by (subst copy_name.simps) simp
    then have "norm_loop a src dst = Inr (a, Some dst)" using k(1) True by (subst norm_loop.simps) simp
    then show ?thesis using True b s(1) by (auto simp: norm_result_def list_all_iff)
  next
    case False
    obtain a' where a': "copy_name a src dst = Inr (NUL, a', src + length t + 1, dst + length t)" "length a' = length a"
      "take (dst + length t) a' = take dst a @ t" "drop (src + length t) a' = NUL # y" using copy_name_run [OF d _ b(4) f(1) b(3)] by auto
    have "src + length t < length a'" using drop_nth [OF a'(4)] by simp
    then have l: "dst + length t < length a'" using b(3) by simp
    have run: "norm_loop a src dst = Inr (a', Some (dst + length t))" using k(5) False f(2) a'(1) by (simp add: norm_loop.simps [of a src])
    show ?thesis
    proof (cases "t = []")
      case True
      then show ?thesis using run l a' b by (auto simp: norm_result_def list_all_iff)
    next
      case ne: False
      then have "name_ok t" using False f b(4) by (simp add: name_ok_def)
      then show ?thesis using run l a' b False f(2) ne by (auto simp: norm_result_def list_all_iff dirtext_def)
    qed
  qed
qed

lemma norm_name:
  assumes at: "norm_at a src dst r st (c @ CHR ''/'' # replicate n (CHR ''/'') @ t)" and c: "name_ok c" and t: "t = [] \<or> hd t \<noteq> CHR ''/''"
  obtains a' where "norm_loop a src dst = norm_loop a' (src + length c + 1 + n) (dst + length c + 1)" "length a' = length a"
    "norm_at a' (src + length c + 1 + n) (dst + length c + 1) r (c # st) t"
proof -
  obtain y where d: "drop src a = c @ CHR ''/'' # replicate n (CHR ''/'') @ cstr t y" using at by (auto simp: norm_at_def cstr_def)
  have b: "dst = length (dirtext r st)" "take dst a = dirtext r st" "dst \<le> src" "NUL \<notin> set t" "list_all name_ok st" using at by (auto simp: norm_at_def)
  have nc: "NUL \<notin> set c" "CHR ''/'' \<notin> set c" "c \<noteq> ''.''" "c \<noteq> ''..''" using c by (auto simp: name_ok_def)
  obtain a1 where a1: "copy_name a src dst = Inr (CHR ''/'', a1, src + length c + 1, dst + length c)" "length a1 = length a"
    "take (dst + length c) a1 = take dst a @ c" "drop (src + length c) a1 = CHR ''/'' # replicate n (CHR ''/'') @ cstr t y"
    using copy_name_run [OF d _ nc(1,2) b(3)] by auto
  let ?a = "a1[dst + length c := CHR ''/'']"
  have l: "dst + length c < length a1" "drop (src + length c + 1) a1 = replicate n (CHR ''/'') @ cstr t y" using drop_nth [OF a1(4)] b(3) by auto
  have d1: "drop (src + length c + 1) ?a = replicate n (CHR ''/'') @ cstr t y" using l(2) b(3) by (simp add: drop_update_cancel)
  obtain z x where z: "cstr t y = z # x" "z \<noteq> CHR ''/''" using t by (cases t) (auto simp: cstr_def)
  have sk: "skip_slashes ?a (src + length c + 1) = Inr (src + length c + 1 + n)" by (rule skip_slashes_run [OF d1 [unfolded z(1)] z(2)])
  have "norm_loop a src dst = norm_loop ?a (src + length c + 1 + n) (dst + length c + 1)"
    using norm_case_run(5) [OF d _ nc] a1(1) l(1) sk by (simp add: norm_loop.simps [of a src] wr_def)
  moreover have "drop (src + length c + 1 + n) ?a = cstr t y" using arg_cong [OF d1, of "drop n"] by (simp add: add.commute)
  moreover have "take (dst + length c + 1) ?a = dirtext r (c # st)" using l(1) a1(3) b(2) by (simp add: take_Suc_conv_app_nth dirtext_Cons)
  ultimately show thesis using that [of ?a] a1(2) b c t by (auto simp: norm_at_def dirtext_Cons)
qed

lemma norm_loop_resolves:
  assumes "norm_at a src dst r st t"
  shows "norm_result a src dst (resolve r st (comps t))"
  using assms
proof (induction "length t" arbitrary: a src dst r st t rule: less_induct)
  case less
  note at = less.prems
  obtain y where y: "drop src a = cstr t y" using at by (auto simp: norm_at_def)
  have b: "dst = length (dirtext r st)" "take dst a = dirtext r st" "dst \<le> src" "NUL \<notin> set t" "list_all name_ok st" using at by (auto simp: norm_at_def)
  show ?case
  proof (cases t rule: path_cases)
    case final
    show ?thesis
    proof (cases "t = ''..''")
      case True
      have n: "norm_case a src = Inr (UpOne (src + 2))" using y True norm_case_run(3) [of src a t NUL y] b(4) by (simp add: cstr_def)
      have e: "drop (src + 2) a = cstr [] y" using y True drop_nth [of src a "CHR ''.''"] drop_nth [of "src + 1" a "CHR ''.''"] by (auto simp: cstr_def)
      have "norm_result a src dst (resolve r st (''..'' # comps []))"
        by (rule norm_pop [OF at n _ e]) (use less.hyps [of "[]"] True in auto)
      then show ?thesis using True comps_last [OF final] by (cases st; cases r) simp_all
    qed (use norm_final [OF at final] comps_last [OF final] in simp)
  next
    case (more c n t')
    have t': "NUL \<notin> set t'" "NUL \<notin> set c" "length t' < length t" using b(4) more(1) by auto
    have res: "resolve r st (comps t) = resolve r st (c # comps t')" for r st
      unfolding more(1) comps_slash [OF more(2)] using resolve_skip by (auto split: list.splits)
    have d: "drop src a = c @ CHR ''/'' # replicate n (CHR ''/'') @ cstr t' y" using y more(1) by (simp add: cstr_def)
    obtain z x where z: "cstr t' y = z # x" "z \<noteq> CHR ''/''" using more(3) by (cases t') (auto simp: cstr_def)
    have e: "drop (src + length c + 1 + n) a = cstr t' y" using arg_cong [OF d, of "drop (length c + 1 + n)"] by (simp add: add.commute add.left_commute)
    note k = norm_case_run [OF d _ t'(2) more(2)]
    have c0: "c \<noteq> []" using at more(1) by (auto simp: norm_at_def)
    consider "c = ''.''" | "c = ''..''" | "name_ok c" using c0 more(2) t'(2) by (auto simp: name_ok_def)
    then show ?thesis
    proof cases
      case 1
      have "norm_case a src = Inr (Again (src + 2 + n))" using k(2) [OF _ 1 refl _ z(2)] z(1) by simp
      then have "norm_loop a src dst = norm_loop a (src + 2 + n) dst" by (simp add: norm_loop.simps [of a src])
      moreover have "norm_at a (src + 2 + n) dst r st t'" using b e 1 more(3) t' by (auto simp: norm_at_def numeral_2_eq_2)
      ultimately show ?thesis using norm_result_step less.hyps [OF t'(3)] res 1 by simp
    next
      case 2
      have n: "norm_case a src = Inr (UpOne (src + 3 + n))" using k(4) [OF _ 2 refl _ z(2)] z(1) by simp
      have e': "drop (src + 3 + n) a = cstr t' y" using e 2 by (simp add: numeral_3_eq_3)
      show ?thesis unfolding res 2 by (rule norm_pop [OF at n _ e' t'(1) more(3)]) (use less.hyps [OF t'(3)] in auto)
    next
      case 3
      obtain a' where a': "norm_loop a src dst = norm_loop a' (src + length c + 1 + n) (dst + length c + 1)" "length a' = length a"
        "norm_at a' (src + length c + 1 + n) (dst + length c + 1) r (c # st) t'" by (rule norm_name [OF at [unfolded more(1)] 3 more(3)])
      have "resolve r st (c # comps t') = resolve r (c # st) (comps t')" using 3 by (simp add: name_ok_def)
      then show ?thesis using norm_result_step [OF a'(1,2) less.hyps [OF t'(3) a'(3)]] res by simp
    qed
  qed
qed

section \<open>The whole path\<close>

text \<open>The text of a resolved path.\<close>

fun join_names :: "string list \<Rightarrow> string" where
  "join_names [] = []"
| "join_names [c] = c"
| "join_names (c # cs) = c @ ''/'' @ join_names cs"

definition path_text :: "bool \<Rightarrow> string list \<Rightarrow> string" where
  "path_text r cs = (if r then ''/'' else []) @ join_names cs"

lemma join_names_concat: "cs \<noteq> [] \<Longrightarrow> join_names cs @ ''/'' = concat (map (\<lambda>c. c @ ''/'') cs)"
  by (induction cs rule: join_names.induct) auto

lemma dirtext_path: "cs \<noteq> [] \<Longrightarrow> dirtext r (rev cs) = path_text r cs @ ''/''"
  using join_names_concat [of cs] by (simp add: dirtext_def path_text_def)

lemma name_okD: "name_ok c \<Longrightarrow> c \<noteq> [] \<and> last c \<noteq> CHR ''/'' \<and> NUL \<notin> set c"
  by (metis last_in_set name_ok_def)

lemma path_text_end:
  assumes "list_all name_ok cs" "cs \<noteq> []"
  shows "path_text r cs \<noteq> []" "last (path_text r cs) \<noteq> CHR ''/''" "NUL \<notin> set (path_text r cs)"
proof -
  have "join_names cs \<noteq> [] \<and> last (join_names cs) \<noteq> CHR ''/'' \<and> NUL \<notin> set (join_names cs)"
    using assms by (induction cs rule: join_names.induct) (auto dest!: name_okD)
  then show "path_text r cs \<noteq> []" "last (path_text r cs) \<noteq> CHR ''/''" "NUL \<notin> set (path_text r cs)" by (auto simp: path_text_def)
qed

lemma wr_end: "take d a = p \<Longrightarrow> d < length a \<Longrightarrow> a[d := NUL] = cstr p (drop (d + 1) a)"
  by (auto simp: cstr_def upd_conv_take_nth_drop)

lemma norm_finish_eval:
  assumes "d < length a" "d \<noteq> 0" "c = (if d - 1 \<noteq> 0 \<and> a[d := NUL] ! (d - 1) = CHR ''/'' then a[d := NUL, d - 1 := NUL] else a[d := NUL])" "c ! 0 \<noteq> NUL"
  shows "norm_finish a d = Inr c"
proof -
  have "c \<noteq> []" using assms(1,3) by (auto split: if_splits)
  then show ?thesis using assms by (auto simp: norm_finish_def wr_def rd_def Let_def split: if_splits)
qed

lemma norm_finish_ok:
  assumes cs: "list_all name_ok cs" "r \<or> cs \<noteq> []" and d: "d < length a"
    and tk: "take d a = dirtext r (rev cs) \<or> cs \<noteq> [] \<and> take d a @ ''/'' = dirtext r (rev cs)"
  shows "\<exists>y. norm_finish a d = Inr (cstr (path_text r cs) y) \<and> length (cstr (path_text r cs) y) = length a"
proof (cases "cs = []")
  case True
  then have t: "take d a = ''/''" "r" using tk cs(2) by (auto simp: dirtext_def)
  have "length (take d a) = 1" unfolding t(1) by simp
  then have "d = 1" using d by simp
  then show ?thesis using wr_end [OF t(1) d] d True t(2)
    by (intro exI [of _ "drop (d + 1) a"]) (simp add: norm_finish_def wr_def rd_def path_text_def cstr_def)
next
  case False
  note e = path_text_end [OF cs(1) False, of r]
  have "norm_finish a d = Inr (cstr (path_text r cs) (drop (length (path_text r cs) + 1) (a[d := NUL])))"
  proof (cases "take d a = path_text r cs")
    case True
    then have l: "d = length (path_text r cs)" using d by (metis length_take min.absorb4)
    have n: "a[d := NUL] = cstr (path_text r cs) (drop (d + 1) a)" by (rule wr_end [OF True d])
    have "a[d := NUL] ! (d - 1) = last (path_text r cs)" unfolding n using l e(1) by (simp add: cstr_def nth_append last_conv_nth)
    moreover have "a[d := NUL] ! 0 \<noteq> NUL" unfolding n using e(1,3) by (cases "path_text r cs") (auto simp: cstr_def)
    moreover have "d \<noteq> 0" using l e(1) by simp
    ultimately have "norm_finish a d = Inr (a[d := NUL])" using e(2) by (intro norm_finish_eval [OF d]) simp_all
    then show ?thesis unfolding n using l by (simp add: cstr_def)
  next
    case f: False
    then have tk': "take d a = path_text r cs @ ''/''" using tk dirtext_path [OF False, of r] by auto
    have "length (take d a) = length (path_text r cs) + 1" unfolding tk' by simp
    then have l: "d = length (path_text r cs) + 1" using d by simp
    let ?b = "a[d := NUL, d - 1 := NUL]"
    have n: "a[d := NUL] = cstr (path_text r cs @ ''/'') (drop (d + 1) a)" by (rule wr_end [OF tk' d])
    have "a[d := NUL] ! (d - 1) = CHR ''/''" unfolding n using l by (simp add: cstr_def nth_append)
    moreover have b: "?b = cstr (path_text r cs) (drop d (a[d := NUL]))"
    proof -
      have "take (d - 1) (a[d := NUL]) = path_text r cs" unfolding n using l by (simp add: cstr_def)
      then show ?thesis using wr_end [of "d - 1" "a[d := NUL]" "path_text r cs"] d l by simp
    qed
    moreover have "?b ! 0 \<noteq> NUL" unfolding b using e(1,3) by (cases "path_text r cs") (auto simp: cstr_def)
    moreover have "d \<noteq> 0" "d - 1 \<noteq> 0" using l e(1) by auto
    ultimately have "norm_finish a d = Inr ?b" by (intro norm_finish_eval [OF d]) simp_all
    then show ?thesis unfolding b using l by simp
  qed
  moreover have "length (cstr (path_text r cs) (drop (length (path_text r cs) + 1) (a[d := NUL]))) = length a"
  proof -
    have "take d a = path_text r cs @ ''/'' \<or> take d a = path_text r cs" using tk dirtext_path [OF False, of r] by auto
    then have "length (path_text r cs) \<le> length (take d a)" by (metis length_append le_add1 order_refl)
    then have "length (path_text r cs) \<le> d" by simp
    then show ?thesis using d by (simp add: cstr_def)
  qed
  ultimately show ?thesis by blast
qed

text \<open>From the start of the block.\<close>

definition rooted :: "string \<Rightarrow> bool" where
  "rooted t \<longleftrightarrow> t \<noteq> [] \<and> hd t = CHR ''/''"

lemma norm_loop_start:
  assumes t: "NUL \<notin> set t"
  shows "norm_result (cstr t y) 0 0 (resolve (rooted t) [] (comps t))"
proof (cases "rooted t")
  case False
  then have "norm_at (cstr t y) 0 0 False [] t" using t by (auto simp: norm_at_def dirtext_def rooted_def)
  then show ?thesis using norm_loop_resolves False by simp
next
  case True
  then obtain u where u: "t = CHR ''/'' # u" by (cases t) (auto simp: rooted_def)
  obtain c n t' where m: "t = c @ CHR ''/'' # replicate n (CHR ''/'') @ t'" "CHR ''/'' \<notin> set c" "t' = [] \<or> hd t' \<noteq> CHR ''/''"
    using path_cases [of t] u by (metis list.set_intros(1))
  have "c = []" using m(1,2) u by (cases c) auto
  with m(1) have t': "t = CHR ''/'' # replicate n (CHR ''/'') @ t'" by simp
  let ?a = "cstr t y"
  have d: "drop 1 ?a = replicate n (CHR ''/'') @ cstr t' y" by (simp add: t' cstr_def)
  obtain z x where z: "cstr t' y = z # x" "z \<noteq> CHR ''/''" using m(3) by (cases t') (auto simp: cstr_def)
  have "skip_slashes ?a 1 = Inr (1 + n)" by (rule skip_slashes_run [OF d [unfolded z(1)] z(2)])
  moreover have "norm_case ?a 0 = Inr (Copy 0)" "copy_name ?a 0 0 = Inr (CHR ''/'', ?a, 1, 0)" "wr ?a 0 (CHR ''/'') = Inr ?a"
    by (simp_all add: u cstr_def norm_case_def rd_def wr_def copy_name.simps [of _ 0 0] Let_def)
  ultimately have run: "norm_loop ?a 0 0 = norm_loop ?a (1 + n) 1" by (simp add: norm_loop.simps [of ?a 0 0])
  have "norm_at ?a (1 + n) 1 True [] t'"
    using arg_cong [OF d, of "drop n"] t m(3) by (auto simp: norm_at_def dirtext_def t' cstr_def add.commute)
  from norm_result_step [OF run refl norm_loop_resolves [OF this]]
  show ?thesis using resolve_skip [of True "[]" "Suc n" t'] True by (simp add: t')
qed

text \<open>The path that is normalised, and the block it is built in.\<close>

definition full_path :: "string \<Rightarrow> string \<Rightarrow> string" where
  "full_path d f = (if rooted f then f else d @ ''/'' @ f)"

lemma fmt_text_join: "NUL \<notin> set d \<Longrightarrow> NUL \<notin> set f \<Longrightarrow> fmt_text (cstr ''%s/%s'' []) [VStr (Some (cstr d x)), VStr (Some (cstr f y))] = Inr (d @ ''/'' @ f)"
  using fmt_text_s [of f y] unfolding cstr_def
  by (subst fmt_text.simps) (simp add: fmt_text_plain directive_text_def parse_directive_def ISDIGIT_def conv_text_def string_text_def
      text_len_cstr [unfolded cstr_def] take_cstr [unfolded cstr_def])

lemma haddrs_region: "app_ok s \<Longrightarrow> p \<in> haddrs s \<Longrightarrow> p \<in> heap_region (heap s)"
  using smem_live_range by (fastforce simp: haddrs_def app_ok_def heap_region_def)

lemma path_block_ok:
  assumes ok: "app_ok s" and n: "NUL \<notin> set d" "NUL \<notin> set f" and len: "length d + length f + 2 \<le> 2 ^ 32 - 4"
    and top: "\<forall>q \<in> heap_region (heap s). q + (length d + length f + 2) < 2 ^ 32"
  obtains p s' where "path_block (cstr d x) (cstr f y) s = Inr (p, s')" "allocated s p s'" "inodes s' = inodes s" "lists s' = lists s"
    "strs s' = (if p = RT_NULL then strs s else (strs s)(p \<mapsto> cstr (full_path d f) []))"
proof (cases "rooted f")
  case True
  then have c: "rd (cstr f y) 0 = Inr (CHR ''/'')" by (cases f) (auto simp: rooted_def cstr_def rd_def)
  obtain p s' where "rt_strdup (Some (cstr f y)) s = Inr (p, s')" "allocated s p s'" "inodes s' = inodes s" "lists s' = lists s"
    "strs s' = (if p = RT_NULL then strs s else (strs s)(p \<mapsto> cstr f []))"
    by (rule rt_strdup_allocated [OF ok n(2), of y]) (use len in auto)
  then show thesis using that [of p s'] c True by (simp add: path_block_def full_path_def)
next
  case False
  then obtain c where c: "rd (cstr f y) 0 = Inr c" "c \<noteq> CHR ''/''" by (cases f) (auto simp: rooted_def cstr_def rd_def)
  let ?n = "length d + length f + 2"
  obtain p s1 where m: "rt_malloc ?n s = Inr (p, s1)" "allocated s p s1" "same_view s s1" using rt_malloc_allocated [OF ok _ len] by auto
  have wrap: "?n mod 2 ^ 32 = ?n" using len by (intro mod_less) simp
  show thesis
  proof (cases "p = RT_NULL")
    case True
    then show ?thesis using that [of p s1] m c wrap n by (simp add: path_block_def same_view_def)
  next
    case ne: False
    have "p \<in> heap_region (heap s)" using m(2) ne haddrs_region [of s1 p] by (auto simp: allocated_def)
    then have "p + ?n < 2 ^ 32" using top by blast
    then have "rt_snprintf p (replicate ?n (junk s1)) ?n (cstr ''%s/%s'' []) [VStr (Some (cstr d x)), VStr (Some (cstr f y))]
        = Inr (int (length d + length f + 1), cstr (full_path d f) [])"
      using rt_vsnprintf_text [of ?n "replicate ?n (junk s1)" p] fmt_text_join [OF n, of x y] False
      by (simp add: rt_snprintf_def stored_def full_path_def cstr_def)
    then have "path_block (cstr d x) (cstr f y) s = Inr (p, s1\<lparr>strs := (strs s1)(p \<mapsto> cstr (full_path d f) [])\<rparr>)"
      using m(1) ne c wrap n by (simp add: path_block_def)
    moreover have "allocated s p (s1\<lparr>strs := (strs s1)(p \<mapsto> cstr (full_path d f) [])\<rparr>)" by (rule allocated_upd [OF m(2) ne]) (auto simp: objs_def)
    ultimately show ?thesis using that [of p "s1\<lparr>strs := (strs s1)(p \<mapsto> cstr (full_path d f) [])\<rparr>"] m(3) ne by (simp add: same_view_def)
  qed
qed

text \<open>What a call does once the block is there.\<close>

lemma normalize_block:
  assumes b: "path_block (cstr d x) (cstr f y) s = Inr (p, s1)" "p \<noteq> RT_NULL" "strs s1 p = Some (cstr t [])" "NUL \<notin> set t"
    and w: "(case dirp of None \<Rightarrow> wd | Some b \<Rightarrow> b) = cstr d x"
  defines "r \<equiv> dfs_normalize_path wd dirp (Some (cstr f y)) s"
  shows "case resolve (rooted t) [] (comps t) of
      None \<Rightarrow> r = cbind (rt_free p s1) (\<lambda>s. Inr (RT_NULL, s))
    | Some (rt, cs) \<Rightarrow> list_all name_ok cs \<and> (if rt \<or> cs \<noteq> [] then \<exists>y. r = Inr (p, s1\<lparr>strs := (strs s1)(p \<mapsto> cstr (path_text rt cs) y)\<rparr>) else r = Inl OutOfBounds)"
proof -
  have r: "r = cbind (norm_loop (cstr t []) 0 0) (\<lambda>(a, dst). case dst of
              None \<Rightarrow> cbind (rt_free p s1) (\<lambda>s. Inr (RT_NULL, s))
            | Some dst \<Rightarrow> cbind (norm_finish a dst) (\<lambda>a. Inr (p, s1\<lparr>strs := (strs s1)(p \<mapsto> a)\<rparr>)))"
    using b w by (simp add: r_def dfs_normalize_path_def str_at_def)
  note n = norm_loop_start [OF b(4), of "[]"]
  show ?thesis
  proof (cases "resolve (rooted t) [] (comps t)")
    case None
    then obtain a' where "norm_loop (cstr t []) 0 0 = Inr (a', None)" using n by (auto simp: norm_result_def)
    then show ?thesis using None r by simp
  next
    case (Some q)
    obtain rt cs where q: "q = (rt, cs)" by (cases q)
    obtain a' e where a': "norm_loop (cstr t []) 0 0 = Inr (a', Some e)" "e < length a'" "list_all name_ok cs"
      "take e a' = dirtext rt (rev cs) \<or> cs \<noteq> [] \<and> take e a' @ ''/'' = dirtext rt (rev cs)" using n Some q by (auto simp: norm_result_def)
    show ?thesis
    proof (cases "rt \<or> cs \<noteq> []")
      case True
      then show ?thesis using norm_finish_ok [OF a'(3) True a'(2,4)] Some q r a'(1,3) by auto
    next
      case False
      then have "take e a' = []" using a'(4) by (simp add: dirtext_def)
      then have "e = 0" using a'(2) by auto
      then have "norm_finish a' e = Inl OutOfBounds" using a'(2) by (simp add: norm_finish_def wr_def)
      then show ?thesis using False Some q r a'(1,3) by simp
    qed
  qed
qed

lemma full_path_text: "NUL \<notin> set d \<Longrightarrow> NUL \<notin> set f \<Longrightarrow> NUL \<notin> set (full_path d f)"
  by (simp add: full_path_def)

lemma comps_join: "list_all name_ok cs \<Longrightarrow> cs \<noteq> [] \<Longrightarrow> comps (join_names cs) = cs"
proof (induction cs rule: join_names.induct)
  case (2 c)
  then show ?case using comps_last [of c] by (simp add: name_ok_def)
next
  case (3 c c' cs)
  then show ?case using comps_slash [of c "join_names (c' # cs)"] by (simp add: name_ok_def)
qed simp

lemma resolve_names: "list_all name_ok cs \<Longrightarrow> resolve r st cs = Some (r, rev st @ cs)"
  by (induction cs arbitrary: st) (auto simp: name_ok_def)

lemma rooted_path_text: "list_all name_ok cs \<Longrightarrow> rooted (path_text r cs) \<longleftrightarrow> r"
proof -
  assume a: "list_all name_ok cs"
  have "hd c \<noteq> CHR ''/''" if "name_ok c" for c using that by (cases c) (auto simp: name_ok_def)
  then show ?thesis using a by (cases cs rule: join_names.cases) (auto simp: rooted_def path_text_def hd_append dest: name_okD)
qed

lemma resolve_path_text:
  assumes "list_all name_ok cs"
  shows "resolve r st (comps (path_text r cs)) = Some (r, rev st @ cs)"
proof (cases "cs = []")
  case True
  then show ?thesis using comps_slash [of "[]" "[]"] by (cases r) (simp_all add: path_text_def)
next
  case False
  have "comps (CHR ''/'' # join_names cs) = [] # cs" using comps_slash [of "[]" "join_names cs"] comps_join [OF assms False] by simp
  then show ?thesis using comps_join [OF assms False] resolve_names [OF assms] by (simp add: path_text_def)
qed

lemma normalize_path_ok:
  assumes "app_ok s" and "NUL \<notin> set d" and "NUL \<notin> set f" and "length d + length f + 2 \<le> 2 ^ 32 - 4"
    and "\<forall>q \<in> heap_region (heap s). q + (length d + length f + 2) < 2 ^ 32" and "(case dirp of None \<Rightarrow> wd | Some b \<Rightarrow> b) = cstr d x"
  shows "(\<exists>s'. dfs_normalize_path wd dirp (Some (cstr f y)) s = Inr (RT_NULL, s') \<and> oom s' \<and> app_ok s' \<and> haddrs s' = haddrs s \<and> heap_region (heap s') = heap_region (heap s) \<and> strs s' = strs s)
    \<or> (case resolve (rooted (full_path d f)) [] (comps (full_path d f)) of
         None \<Rightarrow> \<exists>s'. dfs_normalize_path wd dirp (Some (cstr f y)) s = Inr (RT_NULL, s') \<and> app_ok s' \<and> haddrs s' = haddrs s \<and> heap_region (heap s') = heap_region (heap s) \<and> strs s' = strs s
       | Some (r, cs) \<Rightarrow> list_all name_ok cs \<and>
           (if r \<or> cs \<noteq> []
            then \<exists>p s' z. dfs_normalize_path wd dirp (Some (cstr f y)) s = Inr (p, s') \<and> p \<noteq> RT_NULL \<and> allocated s p s' \<and> strs s' = (strs s)(p \<mapsto> cstr (path_text r cs) z)
            else dfs_normalize_path wd dirp (Some (cstr f y)) s = Inl OutOfBounds))"
proof -
  obtain p s1 where p: "path_block (cstr d x) (cstr f y) s = Inr (p, s1)" "allocated s p s1" "inodes s1 = inodes s" "lists s1 = lists s"
    "strs s1 = (if p = RT_NULL then strs s else (strs s)(p \<mapsto> cstr (full_path d f) []))"
    by (rule path_block_ok [OF assms(1-5), of x y])
  show ?thesis
  proof (cases "p = RT_NULL")
    case True
    then have "dfs_normalize_path wd dirp (Some (cstr f y)) s = Inr (RT_NULL, s1)" using p(1) assms(6) by (simp add: dfs_normalize_path_def)
    then show ?thesis using p True by (auto simp: allocated_def)
  next
    case False
    have al: "app_ok s1" "p \<in> haddrs s1" "p \<notin> haddrs s" "haddrs s1 - {p} = haddrs s" "strs s p = None"
      using p(2) False by (auto simp: allocated_def objs_def)
    have sp: "strs s1 p = Some (cstr (full_path d f) [])" using p(5) False by simp
    note n = normalize_block [OF p(1) False sp full_path_text [OF assms(2,3)] assms(6)]
    obtain s2 where s2: "rt_free p s1 = Inr s2" "app_ok s2" "haddrs s2 = haddrs s1 - {p}" "heap_region (heap s2) = heap_region (heap s1)" "strs s2 = (strs s1)(p := None)"
      using rt_free_ok [OF al(1,2)] .
    have reg: "heap_region (heap s1) = heap_region (heap s)" using p(2) by (simp add: allocated_def)
    have "strs s2 = strs s" using s2(5) p(5) False al(5) by auto
    moreover have "allocated s p (s1\<lparr>strs := (strs s1)(p \<mapsto> b)\<rparr>)" for b by (rule allocated_upd [OF p(2) False]) (auto simp: objs_def)
    ultimately show ?thesis using n s2(1-4) reg al(4) p(5) False by (intro disjI2) (auto split: option.splits if_splits)
  qed
qed

section \<open>Properties\<close>

text \<open>C25: \<open>dfs_normalize_path\<close> returns the path its components lead to, in a new block: the path itself when it is absolute, otherwise behind the
  directory, without empty and \<open>.\<close> components and with every \<open>..\<close> undoing the component before it. It returns null when memory is short or a \<open>..\<close> leads above
  the start, with no block left behind. It faults exactly when nothing at all is left of the path, not even the root.\<close>

theorem normalize_path_resolves:
  assumes "app_ok s" and "NUL \<notin> set d" and "NUL \<notin> set f" and "length d + length f + 2 \<le> 2 ^ 32 - 4"
    and "\<forall>q \<in> heap_region (heap s). q + (length d + length f + 2) < 2 ^ 32" and "(case dirp of None \<Rightarrow> wd | Some b \<Rightarrow> b) = cstr d x"
  shows "(\<exists>s'. dfs_normalize_path wd dirp (Some (cstr f y)) s = Inr (RT_NULL, s') \<and> oom s' \<and> app_ok s' \<and> haddrs s' = haddrs s \<and> heap_region (heap s') = heap_region (heap s) \<and> strs s' = strs s)
    \<or> (case resolve (rooted (full_path d f)) [] (comps (full_path d f)) of
         None \<Rightarrow> \<exists>s'. dfs_normalize_path wd dirp (Some (cstr f y)) s = Inr (RT_NULL, s') \<and> app_ok s' \<and> haddrs s' = haddrs s \<and> heap_region (heap s') = heap_region (heap s) \<and> strs s' = strs s
       | Some (r, cs) \<Rightarrow> list_all name_ok cs \<and>
           (if r \<or> cs \<noteq> []
            then \<exists>p s' z. dfs_normalize_path wd dirp (Some (cstr f y)) s = Inr (p, s') \<and> p \<noteq> RT_NULL \<and> allocated s p s' \<and> strs s' = (strs s)(p \<mapsto> cstr (path_text r cs) z)
            else dfs_normalize_path wd dirp (Some (cstr f y)) s = Inl OutOfBounds))"
  by (rule normalize_path_ok [OF assms])

text \<open>Canonical paths are left as they are: an absolute path of proper names, which is what the normalisation yields, is normalised to
  itself, whatever the working directory, unless memory is short.\<close>

theorem canonical_path_fixed:
  assumes "app_ok s" and "NUL \<notin> set d" and "list_all name_ok cs" and "length d + length (path_text True cs) + 2 \<le> 2 ^ 32 - 4"
    and "\<forall>q \<in> heap_region (heap s). q + (length d + length (path_text True cs) + 2) < 2 ^ 32" and "(case dirp of None \<Rightarrow> wd | Some b \<Rightarrow> b) = cstr d x"
  shows "\<exists>p s'. dfs_normalize_path wd dirp (Some (cstr (path_text True cs) y)) s = Inr (p, s') \<and> (p = RT_NULL \<and> oom s' \<or> (\<exists>z. strs s' p = Some (cstr (path_text True cs) z)))"
proof -
  have n: "NUL \<notin> set (path_text True cs)" using path_text_end(3) [OF assms(3)] by (cases "cs = []") (auto simp: path_text_def)
  have "full_path d (path_text True cs) = path_text True cs" using rooted_path_text [OF assms(3)] by (simp add: full_path_def)
  then show ?thesis
    using normalize_path_ok [OF assms(1,2) n assms(4-6), of y] rooted_path_text [OF assms(3), of True] resolve_path_text [OF assms(3), of True "[]"] by auto
qed

text \<open>A \<open>..\<close> at the root loses the root: below it an absolute path is normalised to a relative one, and when nothing follows the byte
  before the block is read.\<close>

theorem parent_of_root_is_lost:
  assumes "app_ok s" and "NUL \<notin> set d" and "list_all name_ok cs" and "length d + length (''/../'' @ join_names cs) + 2 \<le> 2 ^ 32 - 4"
    and "\<forall>q \<in> heap_region (heap s). q + (length d + length (''/../'' @ join_names cs) + 2) < 2 ^ 32" and "(case dirp of None \<Rightarrow> wd | Some b \<Rightarrow> b) = cstr d x"
  shows "(\<exists>s'. dfs_normalize_path wd dirp (Some (cstr (''/../'' @ join_names cs) y)) s = Inr (RT_NULL, s') \<and> oom s')
    \<or> (if cs = [] then dfs_normalize_path wd dirp (Some (cstr (''/../'' @ join_names cs) y)) s = Inl OutOfBounds
       else \<exists>p s' z. dfs_normalize_path wd dirp (Some (cstr (''/../'' @ join_names cs) y)) s = Inr (p, s') \<and> strs s' p = Some (cstr (join_names cs) z))"
proof -
  let ?f = "''/../'' @ join_names cs"
  have n: "NUL \<notin> set ?f" using path_text_end(3) [OF assms(3), of False] by (cases "cs = []") (auto simp: path_text_def)
  have f: "full_path d ?f = ?f" "rooted ?f" by (simp_all add: full_path_def rooted_def)
  have "comps ?f = [] # ''..'' # comps (join_names cs)"
    using comps_slash [of "[]" "''../'' @ join_names cs"] comps_slash [of "''..''" "join_names cs"] by simp
  then have "resolve True [] (comps ?f) = Some (False, cs)" using resolve_path_text [OF assms(3), of False "[]"] by (simp add: path_text_def)
  then show ?thesis using normalize_path_ok [OF assms(1,2) n assms(4-6), of y] f by (auto simp: path_text_def) blast
qed

lemma example_paths: "\<exists>m. rt_smem_init 4096 1024 = Some m \<and> app_ok (app_example m []) \<and> (\<forall>q \<in> heap_region (heap (app_example m [])). q < 6000)"
proof -
  obtain m where m: "rt_smem_init 4096 1024 = Some m" "app_ok (app_example m [])" using app_example_ok by blast
  moreover have "heap_ptr m = 4160" "heap_end m = 944" using m(1) example_heap by auto
  ultimately show ?thesis by (auto simp: heap_region_def app_example_def)
qed

theorem normalize_path_resolves_witness:
  "\<exists>s r. resolve True [] (comps ''/mnt/./sd0//photos/../a.png'') = Some (True, [''mnt'', ''sd0'', ''a.png''])
     \<and> dfs_normalize_path (cstr ''/'' []) None (Some (cstr ''/mnt/./sd0//photos/../a.png'' [])) s = Inr r"
proof -
  obtain m where m: "app_ok (app_example m [])" "\<forall>q \<in> heap_region (heap (app_example m [])). q < 6000" using example_paths by blast
  have r: "resolve True [] (comps ''/mnt/./sd0//photos/../a.png'') = Some (True, [''mnt'', ''sd0'', ''a.png''])" by code_simp
  moreover have "full_path ''/'' ''/mnt/./sd0//photos/../a.png'' = ''/mnt/./sd0//photos/../a.png''" "rooted ''/mnt/./sd0//photos/../a.png''"
    by (simp_all add: full_path_def rooted_def)
  ultimately show ?thesis
    using normalize_path_resolves [of "app_example m []" "''/''" "''/mnt/./sd0//photos/../a.png''" "cstr ''/'' []" None "[]" "[]"] m
    by (intro exI [of _ "app_example m []"]) fastforce
qed

theorem canonical_path_fixed_witness:
  "\<exists>s r. dfs_normalize_path (cstr ''/'' []) None (Some (cstr ''/mnt/sd0'' [])) s = Inr r"
proof -
  obtain m where m: "app_ok (app_example m [])" "\<forall>q \<in> heap_region (heap (app_example m [])). q < 6000" using example_paths by blast
  have "path_text True [''mnt'', ''sd0''] = ''/mnt/sd0''" "list_all name_ok [''mnt'', ''sd0'']" by (simp_all add: path_text_def name_ok_def)
  then show ?thesis
    using canonical_path_fixed [of "app_example m []" "''/''" "[''mnt'', ''sd0'']" "cstr ''/'' []" None "[]" "[]"] m by fastforce
qed

theorem parent_of_root_is_lost_witness:
  "\<exists>s. (\<exists>s'. dfs_normalize_path (cstr ''/'' []) None (Some (cstr ''/../'' [])) s = Inr (RT_NULL, s') \<and> oom s')
     \<or> dfs_normalize_path (cstr ''/'' []) None (Some (cstr ''/../'' [])) s = Inl OutOfBounds"
proof -
  obtain m where m: "app_ok (app_example m [])" "\<forall>q \<in> heap_region (heap (app_example m [])). q < 6000" using example_paths by blast
  then show ?thesis using parent_of_root_is_lost [of "app_example m []" "''/''" "[]" "cstr ''/'' []" None "[]" "[]"] by fastforce
qed

end
