(* ===== verification/Dfs_Fs.thy ===== *)
theory Dfs_Fs
  imports Dfs_Path "HOL-Library.Sublist"
begin

text \<open>
  The mount table of the device file system, \<^verbatim>\<open>rt-thread/components/dfs/src/dfs_fs.c\<close>, and the opening of a file, \<^verbatim>\<open>dfs_file.c\<close>: which
  of the mounted file systems is in charge of a path, and mounting and unmounting with the path kept in
  a block of the system heap. What a file system itself does is seen through the results of the operations it
  has registered, the devices through the results of finding and opening them; the calls run under the file
  system lock.
\<close>

unbundle bit_operations_syntax

section \<open>State\<close>

text \<open>\<open>struct dfs_filesystem_ops\<close>: a missing operation is \<open>None\<close>; \<open>fs_open\<close> gets the path below the mount point.\<close>

record fsops =
  fs_name :: "char list"
  fs_fullpath :: bool
  fs_open :: "(char list option \<Rightarrow> u32 \<Rightarrow> int) option"
  fs_close :: "int option"
  fs_mount :: "(ptr \<Rightarrow> int) option"
  fs_unmount :: "(ptr \<Rightarrow> int) option"
  fs_mkfs :: "(ptr \<Rightarrow> int) option"

record dfs_filesystem =
  fs_dev :: ptr
  fs_path :: ptr
  fs_ops :: "fsops option"

definition no_fs :: dfs_filesystem where
  "no_fs = \<lparr>fs_dev = RT_NULL, fs_path = RT_NULL, fs_ops = None\<rparr>"

text \<open>\<open>dev_calls\<close> lists the calls that open and close a device, in their order.\<close>

datatype dev_call = Dev_open ptr | Dev_close ptr

record dfs =
  dmem :: app_mem
  operation_table :: "fsops option list"
  filesystem_table :: "dfs_filesystem list"
  working_directory :: "char list"
  dfs_errno :: int
  dev_calls :: "dev_call list"

record dfs_fd =
  fd_path :: ptr
  fd_fs :: nat
  fd_type :: nat
  fd_flags :: u32
  fd_size :: nat
  fd_pos :: nat

text \<open>\<open>rt_device_find\<close> and \<open>rt_device_open\<close>.\<close>

record devices =
  dev_find :: "char list \<Rightarrow> ptr"
  dev_open :: "ptr \<Rightarrow> int"

abbreviation (input) DFS_FILESYSTEM_TYPES_MAX :: nat where "DFS_FILESYSTEM_TYPES_MAX \<equiv> 16"
abbreviation (input) DFS_FILESYSTEMS_MAX :: nat where "DFS_FILESYSTEMS_MAX \<equiv> 16"
abbreviation (input) ENOENT :: int where "ENOENT \<equiv> 2"
abbreviation (input) ENOMEM :: int where "ENOMEM \<equiv> 12"
abbreviation (input) EEXIST :: int where "EEXIST \<equiv> 17"
abbreviation (input) ENODEV :: int where "ENODEV \<equiv> 19"
abbreviation (input) ENOTDIR :: int where "ENOTDIR \<equiv> 20"
abbreviation (input) EINVAL :: int where "EINVAL \<equiv> 22"
abbreviation (input) ENOSPC :: int where "ENOSPC \<equiv> 28"
abbreviation (input) ENOSYS :: int where "ENOSYS \<equiv> 88"
abbreviation (input) FT_REGULAR :: nat where "FT_REGULAR \<equiv> 0"
abbreviation (input) FT_DIRECTORY :: nat where "FT_DIRECTORY \<equiv> 2"
abbreviation (input) DFS_F_OPEN :: u32 where "DFS_F_OPEN \<equiv> 0x01000000"
abbreviation (input) DFS_F_DIRECTORY :: u32 where "DFS_F_DIRECTORY \<equiv> 0x02000000"
abbreviation (input) O_DIRECTORY :: u32 where "O_DIRECTORY \<equiv> 0x10000"

definition str_of :: "app_mem \<Rightarrow> ptr \<Rightarrow> char list cres" where
  "str_of m p = cbind (str_at m p) deref"

section \<open>Operations\<close>

text \<open>The loop of \<open>dfs_register\<close> gives the first empty entry and whether the name was found.\<close>

fun register_loop :: "fsops option list \<Rightarrow> nat \<Rightarrow> char list \<Rightarrow> nat option \<Rightarrow> (nat option \<times> bool) cres" where
  "register_loop [] i name emp = Inr (emp, False)"
| "register_loop (None # es) i name emp = register_loop es (i + 1) name (if emp = None then Some i else emp)"
| "register_loop (Some e # es) i name emp =
     cbind (rt_strcmp (fs_name e) name) (\<lambda>r. if r = 0 then Inr (emp, True) else register_loop es (i + 1) name emp)"

definition dfs_register :: "fsops \<Rightarrow> dfs \<Rightarrow> (int \<times> dfs) cres" where
  "dfs_register ops s = cbind (register_loop (operation_table s) 0 (fs_name ops) None) (\<lambda>(emp, found).
     let s = (if found then s\<lparr>dfs_errno := - EEXIST\<rparr> else s)
     in case emp of
          None \<Rightarrow> Inr (- 1, s\<lparr>dfs_errno := - ENOSPC\<rparr>)
        | Some i \<Rightarrow> if \<not> found then Inr (0, s\<lparr>operation_table := (operation_table s)[i := Some ops]\<rparr>) else Inr (- 1, s))"

fun lookup_loop :: "app_mem \<Rightarrow> dfs_filesystem list \<Rightarrow> nat \<Rightarrow> char list \<Rightarrow> nat option \<Rightarrow> nat \<Rightarrow> nat option cres" where
  "lookup_loop m [] i path fs prefixlen = Inr fs"
| "lookup_loop m (e # es) i path fs prefixlen =
     (if fs_path e = RT_NULL \<or> fs_ops e = None then lookup_loop m es (i + 1) path fs prefixlen
      else cbind (str_of m (fs_path e)) (\<lambda>mp. cbind (rt_strlen mp) (\<lambda>fspath.
        cbind (if fspath < prefixlen then Inr True else cbind (rt_strncmp mp path fspath) (\<lambda>r. Inr (r \<noteq> 0))) (\<lambda>skip.
          if skip then lookup_loop m es (i + 1) path fs prefixlen
          else cbind (if fspath > 1
                      then cbind (rt_strlen path) (\<lambda>l. if l > fspath then cbind (rd path fspath) (\<lambda>c. Inr (c \<noteq> CHR ''/'')) else Inr False)
                      else Inr False) (\<lambda>skip.
               if skip then lookup_loop m es (i + 1) path fs prefixlen
               else lookup_loop m es (i + 1) path (Some i) fspath)))))"

definition dfs_filesystem_lookup :: "char list option \<Rightarrow> dfs \<Rightarrow> nat option cres" where
  "dfs_filesystem_lookup path s = cbind (rt_assert (path \<noteq> None)) (\<lambda>_. cbind (deref path) (\<lambda>p.
     lookup_loop (dmem s) (filesystem_table s) 0 p None 0))"

fun mounted_loop :: "dfs_filesystem list \<Rightarrow> ptr \<Rightarrow> ptr" where
  "mounted_loop [] device = RT_NULL"
| "mounted_loop (e # es) device = (if fs_ops e = None then mounted_loop es device
     else if fs_dev e = device then fs_path e else mounted_loop es device)"

definition dfs_filesystem_get_mounted_path :: "ptr \<Rightarrow> dfs \<Rightarrow> ptr" where
  "dfs_filesystem_get_mounted_path device s = mounted_loop (filesystem_table s) device"

definition normalize :: "char list option \<Rightarrow> dfs \<Rightarrow> (ptr \<times> dfs) cres" where
  "normalize path s = cbind (dfs_normalize_path (working_directory s) None path (dmem s)) (\<lambda>(p, m). Inr (p, s\<lparr>dmem := m\<rparr>))"

definition dfree :: "ptr \<Rightarrow> dfs \<Rightarrow> dfs cres" where
  "dfree p s = cbind (rt_free p (dmem s)) (\<lambda>m. Inr (s\<lparr>dmem := m\<rparr>))"

definition dstrdup :: "char list option \<Rightarrow> dfs \<Rightarrow> (ptr \<times> dfs) cres" where
  "dstrdup a s = cbind (rt_strdup a (dmem s)) (\<lambda>(p, m). Inr (p, s\<lparr>dmem := m\<rparr>))"

text \<open>\<open>dfs_file_open\<close> with the descriptor it fills (\<open>opened\<close> after the call of the file system); the path for the file system is the part below the mount point.\<close>

definition fd_subpath :: "dfs_filesystem \<Rightarrow> fsops \<Rightarrow> ptr \<Rightarrow> dfs \<Rightarrow> (ptr \<times> dfs) cres" where
  "fd_subpath fs ops fullpath s =
     (if fs_fullpath ops then Inr (fullpath, s)
      else cbind (str_of (dmem s) (fs_path fs)) (\<lambda>mp. cbind (str_of (dmem s) fullpath) (\<lambda>a.
           cbind (dfs_subdir mp a) (\<lambda>off.
           cbind (dstrdup (Some (case off of None \<Rightarrow> cstr ''/'' [] | Some i \<Rightarrow> drop i a)) s) (\<lambda>(p, s).
           cbind (dfree fullpath s) (\<lambda>s. Inr (p, s)))))))"

definition opened :: "ptr \<Rightarrow> nat \<Rightarrow> u32 \<Rightarrow> int \<Rightarrow> dfs \<Rightarrow> (int \<times> dfs_fd option \<times> dfs) cres" where
  "opened p i flags result s =
     (if result < 0 then cbind (dfree p s) (\<lambda>s. Inr (result, None, s))
      else let fd = \<lparr>fd_path = p, fd_fs = i, fd_type = FT_REGULAR, fd_flags = flags OR DFS_F_OPEN, fd_size = 0, fd_pos = 0\<rparr>;
               fd = (if flags AND O_DIRECTORY \<noteq> 0 then fd\<lparr>fd_type := FT_DIRECTORY, fd_flags := fd_flags fd OR DFS_F_DIRECTORY\<rparr> else fd)
           in Inr (0, Some fd, s))"

definition dfs_file_open :: "char list option \<Rightarrow> u32 \<Rightarrow> dfs \<Rightarrow> (int \<times> dfs_fd option \<times> dfs) cres" where
  "dfs_file_open path flags s =
     cbind (normalize path s) (\<lambda>(fullpath, s).
       if fullpath = RT_NULL then Inr (- ENOMEM, None, s)
       else cbind (str_of (dmem s) fullpath) (\<lambda>a. cbind (dfs_filesystem_lookup (Some a) s) (\<lambda>r. case r of
         None \<Rightarrow> cbind (dfree fullpath s) (\<lambda>s. Inr (- ENOENT, None, s))
       | Some i \<Rightarrow>
           let fs = filesystem_table s ! i
           in cbind (deref (fs_ops fs)) (\<lambda>ops. cbind (fd_subpath fs ops fullpath s) (\<lambda>(p, s).
              case fs_open ops of
                None \<Rightarrow> cbind (dfree p s) (\<lambda>s. Inr (- ENOSYS, None, s))
              | Some open \<Rightarrow>
                  cbind (str_at (dmem s) p) (\<lambda>bt. opened p i flags (open bt flags) s))))))"

definition dfs_file_close :: "dfs_fd \<Rightarrow> dfs \<Rightarrow> (int \<times> dfs_fd \<times> dfs) cres" where
  "dfs_file_close fd s =
     cbind (deref (fs_ops (filesystem_table s ! fd_fs fd))) (\<lambda>ops.
       let result = (case fs_close ops of None \<Rightarrow> 0 | Some r \<Rightarrow> r)
       in if result < 0 then Inr (result, fd, s) else cbind (dfree (fd_path fd) s) (\<lambda>s. Inr (result, fd\<lparr>fd_path := RT_NULL\<rparr>, s)))"

fun ops_loop :: "fsops option list \<Rightarrow> char list \<Rightarrow> fsops option cres" where
  "ops_loop [] name = Inr None"
| "ops_loop (None # es) name = ops_loop es name"
| "ops_loop (Some e # es) name = cbind (rt_strcmp (fs_name e) name) (\<lambda>r. if r = 0 then Inr (Some e) else ops_loop es name)"

text \<open>The search for a free entry, which stops with \<open>True\<close> at an entry mounted on \<open>path\<close>.\<close>

fun free_loop :: "app_mem \<Rightarrow> dfs_filesystem list \<Rightarrow> nat \<Rightarrow> char list \<Rightarrow> nat option \<Rightarrow> (nat option \<times> bool) cres" where
  "free_loop m [] i path fs = Inr (fs, False)"
| "free_loop m (e # es) i path fs =
     (if fs_ops e = None then free_loop m es (i + 1) path (if fs = None then Some i else fs)
      else cbind (str_of m (fs_path e)) (\<lambda>mp. cbind (rt_strcmp mp path) (\<lambda>r.
           if r = 0 then Inr (fs, True) else free_loop m es (i + 1) path fs)))"

definition set_fs :: "nat \<Rightarrow> dfs_filesystem \<Rightarrow> dfs \<Rightarrow> dfs" where
  "set_fs i fs s = s\<lparr>filesystem_table := (filesystem_table s)[i := fs]\<rparr>"

definition device_call :: "(ptr \<Rightarrow> dev_call) \<Rightarrow> ptr \<Rightarrow> dfs \<Rightarrow> dfs" where
  "device_call c dev s = (if dev \<noteq> RT_NULL then s\<lparr>dev_calls := dev_calls s @ [c dev]\<rparr> else s)"

text \<open>\<open>dfs_mount\<close> from the point where the path is normalised and known to be a directory.\<close>

definition mount_enter :: "devices \<Rightarrow> ptr \<Rightarrow> char list \<Rightarrow> fsops \<Rightarrow> ptr \<Rightarrow> dfs \<Rightarrow> (int \<times> dfs) cres" where
  "mount_enter devs dev path ops fullpath s =
     cbind (free_loop (dmem s) (filesystem_table s) 0 path None) (\<lambda>(fs, mounted).
       if mounted then cbind (dfree fullpath (s\<lparr>dfs_errno := - EINVAL\<rparr>)) (\<lambda>s. Inr (- 1, s))
       else case fs of
         None \<Rightarrow> cbind (dfree fullpath (s\<lparr>dfs_errno := - ENOSPC\<rparr>)) (\<lambda>s. Inr (- 1, s))
       | Some i \<Rightarrow>
           let s = device_call Dev_open dev (set_fs i \<lparr>fs_dev = dev, fs_path = fullpath, fs_ops = Some ops\<rparr> s)
           in if dev \<noteq> RT_NULL \<and> dev_open devs dev \<noteq> 0
              then cbind (dfree fullpath (set_fs i no_fs s)) (\<lambda>s. Inr (- 1, s))
              else cbind (deref (fs_mount ops)) (\<lambda>mount.
                   if mount dev < 0 then cbind (dfree fullpath (set_fs i no_fs (device_call Dev_close dev s))) (\<lambda>s. Inr (- 1, s)) else Inr (0, s)))"

text \<open>From the normalisation of the path on: the path has to be a directory, unless it is the root or the place for devices.\<close>

definition mount_path :: "devices \<Rightarrow> ptr \<Rightarrow> char list \<Rightarrow> fsops \<Rightarrow> dfs \<Rightarrow> (int \<times> dfs) cres" where
  "mount_path devs dev path ops s =
     cbind (normalize (Some path) s) (\<lambda>(fullpath, s).
       if fullpath = RT_NULL then Inr (- 1, s\<lparr>dfs_errno := - ENOTDIR\<rparr>)
       else cbind (str_of (dmem s) fullpath) (\<lambda>a. cbind (rt_strcmp a (cstr ''/'' [])) (\<lambda>r1. cbind (rt_strcmp a (cstr ''/dev'' [])) (\<lambda>r2.
            if r1 \<noteq> 0 \<and> r2 \<noteq> 0
            then cbind (dfs_file_open (Some a) O_DIRECTORY s) (\<lambda>(e, fd, s).
                 if e < 0 then cbind (dfree fullpath s) (\<lambda>s. Inr (- 1, s\<lparr>dfs_errno := - ENOTDIR\<rparr>))
                 else cbind (deref fd) (\<lambda>fd. cbind (dfs_file_close fd s) (\<lambda>(_, _, s). mount_enter devs dev path ops fullpath s)))
            else mount_enter devs dev path ops fullpath s))))"

definition dfs_mount :: "devices \<Rightarrow> char list option \<Rightarrow> char list \<Rightarrow> char list \<Rightarrow> dfs \<Rightarrow> (int \<times> dfs) cres" where
  "dfs_mount devs device_name path filesystemtype s =
     (let dev = (case device_name of None \<Rightarrow> RT_NULL | Some n \<Rightarrow> dev_find devs n)
      in if device_name \<noteq> None \<and> dev = RT_NULL then Inr (- 1, s\<lparr>dfs_errno := - ENODEV\<rparr>)
         else cbind (ops_loop (operation_table s) filesystemtype) (\<lambda>r. case r of
           None \<Rightarrow> Inr (- 1, s\<lparr>dfs_errno := - ENODEV\<rparr>)
         | Some ops \<Rightarrow>
             if fs_mount ops = None then Inr (- 1, s\<lparr>dfs_errno := - ENOSYS\<rparr>) else mount_path devs dev path ops s))"

fun unmount_loop :: "app_mem \<Rightarrow> dfs_filesystem list \<Rightarrow> nat \<Rightarrow> char list \<Rightarrow> nat option cres" where
  "unmount_loop m [] i fullpath = Inr None"
| "unmount_loop m (e # es) i fullpath =
     (if fs_path e = RT_NULL then unmount_loop m es (i + 1) fullpath
      else cbind (str_of m (fs_path e)) (\<lambda>mp. cbind (rt_strcmp mp fullpath) (\<lambda>r. if r = 0 then Inr (Some i) else unmount_loop m es (i + 1) fullpath)))"

definition dfs_unmount :: "char list \<Rightarrow> dfs \<Rightarrow> (int \<times> dfs) cres" where
  "dfs_unmount specialfile s =
     cbind (normalize (Some specialfile) s) (\<lambda>(fullpath, s).
       if fullpath = RT_NULL then Inr (- 1, s\<lparr>dfs_errno := - ENOTDIR\<rparr>)
       else cbind (str_of (dmem s) fullpath) (\<lambda>a. cbind (unmount_loop (dmem s) (filesystem_table s) 0 a) (\<lambda>r. case r of
         None \<Rightarrow> cbind (dfree fullpath s) (\<lambda>s. Inr (- 1, s))
       | Some i \<Rightarrow>
           let fs = filesystem_table s ! i
           in cbind (deref (fs_ops fs)) (\<lambda>ops.
              if (case fs_unmount ops of None \<Rightarrow> True | Some u \<Rightarrow> u (fs_dev fs) < 0) then cbind (dfree fullpath s) (\<lambda>s. Inr (- 1, s))
              else cbind (if fs_path fs \<noteq> RT_NULL then dfree (fs_path fs) (device_call Dev_close (fs_dev fs) s)
                          else Inr (device_call Dev_close (fs_dev fs) s)) (\<lambda>s.
                   cbind (dfree fullpath (set_fs i no_fs s)) (\<lambda>s. Inr (0, s)))))))"

definition dfs_mkfs :: "devices \<Rightarrow> char list \<Rightarrow> char list option \<Rightarrow> dfs \<Rightarrow> (int \<times> dfs) cres" where
  "dfs_mkfs devs name device_name s =
     (let dev = (case device_name of None \<Rightarrow> RT_NULL | Some n \<Rightarrow> dev_find devs n)
      in if dev = RT_NULL then Inr (- 1, s\<lparr>dfs_errno := - ENODEV\<rparr>)
         else cbind (ops_loop (operation_table s) name) (\<lambda>r. case r of
           None \<Rightarrow> Inr (- 1, s)
         | Some ops \<Rightarrow> (case fs_mkfs ops of None \<Rightarrow> Inr (- 1, s\<lparr>dfs_errno := - ENOSYS\<rparr>) | Some mkfs \<Rightarrow> Inr (mkfs dev, s))))"

section \<open>Mount points and components\<close>

lemma comps_append: "comps (a @ CHR ''/'' # b) = comps a @ comps b"
proof (induction "length a" arbitrary: a rule: less_induct)
  case less
  show ?case
  proof (cases a rule: path_cases)
    case final
    then show ?thesis using comps_slash [OF final] comps_last [OF final] by simp
  next
    case (more c n t')
    let ?u = "replicate n (CHR ''/'') @ t'"
    have "comps (c @ CHR ''/'' # ?u @ CHR ''/'' # b) = c # comps (?u @ CHR ''/'' # b)" by (rule comps_slash [OF more(2)])
    moreover have "comps (?u @ CHR ''/'' # b) = comps ?u @ comps b" by (rule less.hyps) (simp add: more(1))
    ultimately show ?thesis using comps_slash [OF more(2), of ?u] by (simp add: more(1))
  qed
qed

lemma comps_path_text: "list_all name_ok cs \<Longrightarrow> comps (path_text True cs) = [] # (if cs = [] then [[]] else cs)"
  using comps_slash [of "[]" "join_names cs"] comps_join [of cs] by (auto simp: path_text_def)

lemma join_names_append: "xs \<noteq> [] \<Longrightarrow> ys \<noteq> [] \<Longrightarrow> join_names (xs @ ys) = join_names xs @ ''/'' @ join_names ys"
proof (induction xs rule: join_names.induct)
  case (2 c)
  then show ?case by (cases ys) auto
qed auto

text \<open>The test of \<open>dfs_filesystem_lookup\<close>.\<close>

definition covers :: "string \<Rightarrow> string \<Rightarrow> bool" where
  "covers mp p \<longleftrightarrow> take (length mp) p = mp \<and> \<not> (length mp > 1 \<and> length p > length mp \<and> p ! length mp \<noteq> CHR ''/'')"

lemma covers_prefix:
  assumes ms: "list_all name_ok ms" and cs: "list_all name_ok cs"
  shows "covers (path_text True ms) (path_text True cs) \<longleftrightarrow> prefix ms cs"
proof (cases "ms = []")
  case True
  then show ?thesis by (auto simp: covers_def path_text_def)
next
  case False
  let ?m = "path_text True ms" and ?p = "path_text True cs"
  have l: "length ?m > 1" using False name_okD [of "hd ms"] ms by (cases ms rule: join_names.cases) (auto simp: path_text_def)
  show ?thesis
  proof
    assume c: "covers ?m ?p"
    then obtain u where u: "?p = ?m @ u" by (metis append_take_drop_id covers_def)
    show "prefix ms cs"
    proof (cases u)
      case Nil
      then have "comps ?p = comps ?m" using u by simp
      then show ?thesis using comps_path_text [OF ms] comps_path_text [OF cs] False ms by (auto simp: name_ok_def split: if_splits)
    next
      case (Cons x u')
      then have "x = CHR ''/''" using c l u by (auto simp: covers_def)
      then have "comps ?p = comps ?m @ comps u'" using comps_append u Cons by simp
      then show ?thesis using comps_path_text [OF ms] comps_path_text [OF cs] False ms by (cases ms) (auto simp: name_ok_def split: if_splits)
    qed
  next
    assume "prefix ms cs"
    then obtain ns where ns: "cs = ms @ ns" by (auto simp: prefix_def)
    show "covers ?m ?p"
    proof (cases "ns = []")
      case False
      then have "?p = ?m @ ''/'' @ join_names ns" using join_names_append [OF \<open>ms \<noteq> []\<close>] ns by (simp add: path_text_def)
      then show ?thesis by (simp add: covers_def nth_append)
    qed (use ns in \<open>simp add: covers_def\<close>)
  qed
qed

lemma path_text_mono: "strict_prefix ms cs \<Longrightarrow> list_all name_ok cs \<Longrightarrow> length (path_text True ms) < length (path_text True cs)"
proof -
  assume a: "strict_prefix ms cs" "list_all name_ok cs"
  then obtain n ns where ns: "cs = ms @ n # ns" by (auto elim: strict_prefixE')
  show ?thesis
  proof (cases "ms = []")
    case True
    then show ?thesis using a(2) ns name_okD [of n] by (cases ns) (auto simp: path_text_def)
  next
    case False
    then show ?thesis using join_names_append [OF False, of "n # ns"] ns by (simp add: path_text_def)
  qed
qed

section \<open>The file system in charge\<close>

definition mount_at :: "app_mem \<Rightarrow> dfs_filesystem \<Rightarrow> string list \<Rightarrow> bool" where
  "mount_at m e ms \<longleftrightarrow> fs_ops e \<noteq> None \<and> fs_path e \<noteq> RT_NULL \<and> list_all name_ok ms \<and> (\<exists>z. strs m (fs_path e) = Some (cstr (path_text True ms) z))"

definition entry_ok :: "app_mem \<Rightarrow> dfs_filesystem \<Rightarrow> bool" where
  "entry_ok m e \<longleftrightarrow> e = no_fs \<or> (\<exists>ms. mount_at m e ms)"

lemma path_text_no_nul: "list_all name_ok cs \<Longrightarrow> NUL \<notin> set (path_text r cs)"
  using path_text_end(3) [of cs r] by (cases "cs = []") (auto simp: path_text_def)

lemma str_of_mount: "mount_at m e ms \<Longrightarrow> \<exists>z. str_of m (fs_path e) = Inr (cstr (path_text True ms) z)"
  by (auto simp: mount_at_def str_of_def str_at_def)

text \<open>One entry that is mounted.\<close>

lemma lookup_mounted:
  assumes e: "mount_at m e ms" and cs: "list_all name_ok cs"
  shows "lookup_loop m (e # es) i (cstr (path_text True cs) y) fs pl =
    (if length (path_text True ms) \<ge> pl \<and> prefix ms cs then lookup_loop m es (i + 1) (cstr (path_text True cs) y) (Some i) (length (path_text True ms))
     else lookup_loop m es (i + 1) (cstr (path_text True cs) y) fs pl)"
proof -
  let ?m = "path_text True ms" and ?p = "path_text True cs"
  obtain z where z: "str_of m (fs_path e) = Inr (cstr ?m z)" using str_of_mount [OF e] by blast
  have n: "NUL \<notin> set ?m" "NUL \<notin> set ?p" using e cs path_text_no_nul by (auto simp: mount_at_def)
  obtain r where r: "rt_strncmp (cstr ?m z) (cstr ?p y) (length ?m) = Inr r" "r = 0 \<longleftrightarrow> ?m = take (length ?m) ?p"
    using strncmp_loop_eq [OF n, of z y "length ?m"] by (auto simp: rt_strncmp_def)
  have ne: "\<not> (fs_path e = RT_NULL \<or> fs_ops e = None)" using e by (auto simp: mount_at_def)
  have c: "(if 1 < length ?m then cbind (rt_strlen (cstr ?p y)) (\<lambda>l. if l > length ?m then cbind (rd (cstr ?p y) (length ?m)) (\<lambda>c. Inr (c \<noteq> CHR ''/'')) else Inr False) else Inr False)
      = Inr (1 < length ?m \<and> length ?p > length ?m \<and> ?p ! length ?m \<noteq> CHR ''/'')"
    using n(2) by (simp add: rd_def cstr_def [of ?p] rt_strlen_cstr [unfolded cstr_def] nth_append)
  have "prefix ms cs \<longleftrightarrow> r = 0 \<and> \<not> (1 < length ?m \<and> length ?p > length ?m \<and> ?p ! length ?m \<noteq> CHR ''/'')"
    using covers_prefix [of ms cs] e cs r(2) by (auto simp: mount_at_def covers_def)
  then show ?thesis unfolding lookup_loop.simps(2) if_not_P [OF ne] z cbind_Inr rt_strlen_cstr [OF n(1)] r(1) c by auto
qed

lemma cstr_unique: "cstr a x = cstr b y \<Longrightarrow> NUL \<notin> set a \<Longrightarrow> NUL \<notin> set b \<Longrightarrow> a = b"
proof (induction a arbitrary: b)
  case Nil
  then show ?case by (cases b) (auto simp: cstr_def)
next
  case (Cons c a)
  then show ?case by (cases b) (auto simp: cstr_def)
qed

lemma mount_text_unique: "mount_at m e ms \<Longrightarrow> mount_at m e ms' \<Longrightarrow> path_text True ms = path_text True ms'"
  using cstr_unique path_text_no_nul by (fastforce simp: mount_at_def)

text \<open>The best mount point among the entries seen so far, and its length.\<close>

definition best_mount :: "app_mem \<Rightarrow> dfs_filesystem list \<Rightarrow> string list \<Rightarrow> nat option \<Rightarrow> nat \<Rightarrow> bool" where
  "best_mount m es cs r pl \<longleftrightarrow> (\<forall>e \<in> set es. \<forall>ms. mount_at m e ms \<longrightarrow> prefix ms cs \<longrightarrow> r \<noteq> None \<and> length (path_text True ms) \<le> pl)
     \<and> (case r of None \<Rightarrow> pl = 0
        | Some i \<Rightarrow> i < length es \<and> (\<exists>ms. mount_at m (es ! i) ms \<and> prefix ms cs \<and> pl = length (path_text True ms)))"

lemma lookup_loop_best:
  assumes "\<forall>e \<in> set es. entry_ok m e" "list_all name_ok cs" "best_mount m pre cs fs pl"
  shows "\<exists>r pl'. lookup_loop m es (length pre) (cstr (path_text True cs) y) fs pl = Inr r \<and> best_mount m (pre @ es) cs r pl'"
  using assms
proof (induction es arbitrary: pre fs pl)
  case Nil
  then show ?case by auto
next
  case (Cons e es)
  note best = Cons.prems(3)
  have go: "\<exists>r pl. lookup_loop m es (length pre + 1) (cstr (path_text True cs) y) fs' q = Inr r \<and> best_mount m (pre @ e # es) cs r pl"
    if "best_mount m (pre @ [e]) cs fs' q" for fs' q
    using Cons.IH [of "pre @ [e]" fs' q] Cons.prems(1,2) that by simp
  show ?case
  proof (cases "\<exists>ms. mount_at m e ms")
    case False
    then have "fs_path e = RT_NULL" using Cons.prems(1) by (auto simp: entry_ok_def no_fs_def)
    moreover have "best_mount m (pre @ [e]) cs fs pl" using best False by (auto simp: best_mount_def nth_append split: option.splits)
    ultimately show ?thesis using go by simp
  next
    case True
    then obtain ms where ms: "mount_at m e ms" by blast
    note run = lookup_mounted [OF ms Cons.prems(2), of es "length pre" y fs pl]
    have u: "length (path_text True ms') = length (path_text True ms)" if "mount_at m e ms'" for ms' using mount_text_unique [OF ms that] by simp
    show ?thesis
    proof (cases "length (path_text True ms) \<ge> pl \<and> prefix ms cs")
      case True
      then have "best_mount m (pre @ [e]) cs (Some (length pre)) (length (path_text True ms))"
        unfolding best_mount_def
      proof (intro conjI ballI allI impI)
        fix e' ms' assume e': "e' \<in> set (pre @ [e])" "mount_at m e' ms'" "prefix ms' cs"
        show "length (path_text True ms') \<le> length (path_text True ms)"
        proof (cases "e' = e")
          case True
          then show ?thesis using u e'(2) by simp
        next
          case False
          then have "length (path_text True ms') \<le> pl" using best e' by (auto simp: best_mount_def)
          then show ?thesis using \<open>pl \<le> _ \<and> _\<close> by simp
        qed
      qed (use ms True in auto)
      then show ?thesis using go [of "Some (length pre)"] run True by auto
    next
      case False
      have "prefix ms' cs \<Longrightarrow> prefix ms cs" if "mount_at m e ms'" for ms'
        using covers_prefix [of ms cs] covers_prefix [of ms' cs] mount_text_unique [OF ms that] ms that Cons.prems(2) by (auto simp: mount_at_def)
      then have "best_mount m (pre @ [e]) cs fs pl"
        using best False u by (auto simp: best_mount_def nth_append split: option.splits)
      then show ?thesis using go [of fs pl] run False by auto
    qed
  qed
qed

section \<open>Blocks\<close>

text \<open>A call has left no block behind; a call has left one block, \<open>p\<close>, with the bytes \<open>a\<close>. Tables and working directory are as before.\<close>

definition same_tables :: "dfs \<Rightarrow> dfs \<Rightarrow> bool" where
  "same_tables s s' \<longleftrightarrow> filesystem_table s' = filesystem_table s \<and> operation_table s' = operation_table s \<and> working_directory s' = working_directory s"

definition clean :: "dfs \<Rightarrow> dfs \<Rightarrow> bool" where
  "clean s s' \<longleftrightarrow> app_ok (dmem s') \<and> haddrs (dmem s') = haddrs (dmem s) \<and> strs (dmem s') = strs (dmem s)
     \<and> heap_region (heap (dmem s')) = heap_region (heap (dmem s)) \<and> same_tables s s'"

definition held :: "dfs \<Rightarrow> ptr \<Rightarrow> char list \<Rightarrow> dfs \<Rightarrow> bool" where
  "held s p a s' \<longleftrightarrow> app_ok (dmem s') \<and> p \<noteq> RT_NULL \<and> p \<notin> haddrs (dmem s) \<and> strs (dmem s) p = None \<and> haddrs (dmem s') = insert p (haddrs (dmem s))
     \<and> strs (dmem s') = (strs (dmem s))(p \<mapsto> a) \<and> heap_region (heap (dmem s')) = heap_region (heap (dmem s)) \<and> same_tables s s'"

lemma same_tables_trans: "same_tables s t \<Longrightarrow> same_tables t u \<Longrightarrow> same_tables s u" and same_tables_refl [simp]: "same_tables s s"
  by (simp_all add: same_tables_def)

lemma clean_refl: "app_ok (dmem s) \<Longrightarrow> clean s s"
  by (simp add: clean_def)

lemma clean_trans: "clean s t \<Longrightarrow> clean t u \<Longrightarrow> clean s u"
  using same_tables_trans by (auto simp: clean_def)

lemma clean_held: "clean s t \<Longrightarrow> held t p a u \<Longrightarrow> held s p a u" "held s p a t \<Longrightarrow> clean t u \<Longrightarrow> held s p a u"
  using same_tables_trans by (auto simp: clean_def held_def)

lemma clean_errno: "clean s t \<Longrightarrow> clean s (t\<lparr>dfs_errno := e\<rparr>)" "held s p a t \<Longrightarrow> held s p a (t\<lparr>dfs_errno := e\<rparr>)"
  by (simp_all add: clean_def held_def same_tables_def)

lemma same_device_call: "clean s t \<Longrightarrow> clean s (device_call c dev t)" "held s p a t \<Longrightarrow> held s p a (device_call c dev t)"
  "filesystem_table (device_call c dev t) = filesystem_table t" "set_fs i e (device_call c dev t) = device_call c dev (set_fs i e t)"
  by (simp_all add: device_call_def clean_def held_def same_tables_def set_fs_def)

lemma dfree_held:
  assumes "held s p a t"
  obtains u where "dfree p t = Inr u" "clean s u" "dfs_errno u = dfs_errno t"
proof -
  have h: "app_ok (dmem t)" "p \<in> haddrs (dmem t)" "p \<notin> haddrs (dmem s)" "strs (dmem s) p = None" using assms by (auto simp: held_def)
  obtain m where m: "rt_free p (dmem t) = Inr m" "app_ok m" "haddrs m = haddrs (dmem t) - {p}" "heap_region (heap m) = heap_region (heap (dmem t))"
    "strs m = (strs (dmem t))(p := None)" using rt_free_ok [OF h(1,2)] .
  have "clean s (t\<lparr>dmem := m\<rparr>)" using m(2-5) assms h(3,4) by (auto simp: clean_def held_def same_tables_def)
  then show thesis using that [of "t\<lparr>dmem := m\<rparr>"] m(1) by (simp add: dfree_def)
qed

lemma dfree_null: "app_ok (dmem s) \<Longrightarrow> dfree RT_NULL s = Inr s"
  using rt_free_null [of "dmem s"] by (simp add: dfree_def)

lemma dfree_outer:
  assumes p: "held s p a t" and q: "held t q b u"
  obtains v where "dfree p u = Inr v" "held s q b v"
proof -
  have h: "app_ok (dmem u)" "p \<in> haddrs (dmem u)" "p \<noteq> q" using p q by (auto simp: held_def)
  obtain m where m: "rt_free p (dmem u) = Inr m" "app_ok m" "haddrs m = haddrs (dmem u) - {p}" "heap_region (heap m) = heap_region (heap (dmem u))"
    "strs m = (strs (dmem u))(p := None)" using rt_free_ok [OF h(1,2)] .
  have "held s q b (u\<lparr>dmem := m\<rparr>)" using m(2-5) p q h(3) by (auto simp: held_def same_tables_def fun_eq_iff)
  then show thesis using that [of "u\<lparr>dmem := m\<rparr>"] m(1) by (simp add: dfree_def)
qed

lemma dstrdup_ok:
  assumes "app_ok (dmem s)" "NUL \<notin> set t" "length t + 1 \<le> 2 ^ 32 - 4"
  obtains p s' where "dstrdup (Some (cstr t z)) s = Inr (p, s')" "p = RT_NULL \<and> clean s s' \<or> held s p (cstr t []) s'"
proof -
  obtain p m where m: "rt_strdup (Some (cstr t z)) (dmem s) = Inr (p, m)" "allocated (dmem s) p m"
    "strs m = (if p = RT_NULL then strs (dmem s) else (strs (dmem s))(p \<mapsto> cstr t []))"
    using rt_strdup_allocated [OF assms, of z] by metis
  have "p = RT_NULL \<and> clean s (s\<lparr>dmem := m\<rparr>) \<or> held s p (cstr t []) (s\<lparr>dmem := m\<rparr>)"
    using m(2,3) by (auto simp: allocated_def clean_def held_def same_tables_def objs_def)
  then show thesis using that m(1) by (simp add: dstrdup_def)
qed

text \<open>Paths of this length can be built everywhere in the heap, whose top is far enough below the end of the address space.\<close>

definition fits :: "dfs \<Rightarrow> string \<Rightarrow> nat \<Rightarrow> bool" where
  "fits s wd n \<longleftrightarrow> length wd + n + 2 \<le> 2 ^ 32 - 4 \<and> (\<forall>q \<in> heap_region (heap (dmem s)). q + (length wd + n + 2) < 2 ^ 32)
     \<and> NUL \<notin> set wd \<and> (\<exists>x. working_directory s = cstr wd x)"

lemma normalize_ok:
  assumes "app_ok (dmem s)" "NUL \<notin> set f" "fits s wd (length f)" "resolve (rooted (full_path wd f)) [] (comps (full_path wd f)) = Some (True, cs)"
  obtains p s' z where "normalize (Some (cstr f y)) s = Inr (p, s')" "p = RT_NULL \<and> clean s s' \<or> held s p (cstr (path_text True cs) z) s'" "list_all name_ok cs"
proof -
  obtain x where x: "working_directory s = cstr wd x" "NUL \<notin> set wd" "length wd + length f + 2 \<le> 2 ^ 32 - 4"
    "\<forall>q \<in> heap_region (heap (dmem s)). q + (length wd + length f + 2) < 2 ^ 32" using assms(3) by (auto simp: fits_def)
  let ?d = "dfs_normalize_path (cstr wd x) None (Some (cstr f y)) (dmem s)"
  have n2: "list_all name_ok cs" using norm_loop_start [OF full_path_text [OF x(2) assms(2)], of "[]"] assms(4) by (auto simp: norm_result_def)
  have n1: "(\<exists>m. ?d = Inr (RT_NULL, m) \<and> app_ok m \<and> haddrs m = haddrs (dmem s) \<and> heap_region (heap m) = heap_region (heap (dmem s)) \<and> strs m = strs (dmem s))
      \<or> (\<exists>p m z. ?d = Inr (p, m) \<and> p \<noteq> RT_NULL \<and> allocated (dmem s) p m \<and> strs m = (strs (dmem s))(p \<mapsto> cstr (path_text True cs) z))"
    using normalize_path_ok [OF assms(1) x(2) assms(2) x(3,4), of "cstr wd x" None x y] assms(4) by auto
  show thesis using n1
  proof
    assume "\<exists>m. ?d = Inr (RT_NULL, m) \<and> app_ok m \<and> haddrs m = haddrs (dmem s) \<and> heap_region (heap m) = heap_region (heap (dmem s)) \<and> strs m = strs (dmem s)"
    then obtain m where "?d = Inr (RT_NULL, m)" "clean s (s\<lparr>dmem := m\<rparr>)" by (auto simp: clean_def same_tables_def)
    then show thesis using that [of RT_NULL "s\<lparr>dmem := m\<rparr>"] n2 x(1) by (simp add: normalize_def)
  next
    assume "\<exists>p m z. ?d = Inr (p, m) \<and> p \<noteq> RT_NULL \<and> allocated (dmem s) p m \<and> strs m = (strs (dmem s))(p \<mapsto> cstr (path_text True cs) z)"
    then obtain p m z where m: "?d = Inr (p, m)" "p \<noteq> RT_NULL" "allocated (dmem s) p m" "strs m = (strs (dmem s))(p \<mapsto> cstr (path_text True cs) z)" by blast
    then have "held s p (cstr (path_text True cs) z) (s\<lparr>dmem := m\<rparr>)" by (auto simp: held_def same_tables_def allocated_def objs_def)
    then show thesis using that [of p "s\<lparr>dmem := m\<rparr>" z] m(1) n2 x(1) by (simp add: normalize_def)
  qed
qed

section \<open>Opening and closing\<close>

definition table_ok :: "dfs \<Rightarrow> bool" where
  "table_ok s \<longleftrightarrow> app_ok (dmem s) \<and> (\<forall>e \<in> set (filesystem_table s). entry_ok (dmem s) e \<and> (fs_path e \<noteq> RT_NULL \<longrightarrow> fs_path e \<in> haddrs (dmem s)))
     \<and> distinct (filter (\<lambda>p. p \<noteq> RT_NULL) (map fs_path (filesystem_table s)))"

lemma mount_at_mono: "mount_at m e ms \<Longrightarrow> strs m' (fs_path e) = strs m (fs_path e) \<Longrightarrow> mount_at m' e ms"
  by (simp add: mount_at_def)

lemma entry_ok_mono: "entry_ok m e \<Longrightarrow> (fs_path e \<noteq> RT_NULL \<Longrightarrow> strs m' (fs_path e) = strs m (fs_path e)) \<Longrightarrow> entry_ok m' e"
  unfolding entry_ok_def using mount_at_mono mount_at_def by metis

lemma table_ok_clean: "table_ok s \<Longrightarrow> clean s t \<Longrightarrow> table_ok t"
  using entry_ok_mono by (fastforce simp: table_ok_def clean_def same_tables_def)

lemma table_ok_held:
  assumes "table_ok s" "held s p a t"
  shows "table_ok t" "e \<in> set (filesystem_table s) \<Longrightarrow> mount_at (dmem s) e ms \<Longrightarrow> mount_at (dmem t) e ms"
proof -
  have st: "strs (dmem t) (fs_path e) = strs (dmem s) (fs_path e)" if "e \<in> set (filesystem_table s)" "fs_path e \<noteq> RT_NULL" for e
    using assms that by (auto simp: table_ok_def held_def)
  show "table_ok t" unfolding table_ok_def
  proof (intro conjI ballI impI)
    show "app_ok (dmem t)" using assms(2) by (simp add: held_def)
    show "distinct (filter (\<lambda>p. p \<noteq> RT_NULL) (map fs_path (filesystem_table t)))" using assms by (simp add: table_ok_def held_def same_tables_def)
    fix e assume "e \<in> set (filesystem_table t)"
    then have e: "e \<in> set (filesystem_table s)" using assms(2) by (simp add: held_def same_tables_def)
    then show "entry_ok (dmem t) e" using entry_ok_mono [of "dmem s" e "dmem t"] st assms(1) by (auto simp: table_ok_def)
    show "fs_path e \<in> haddrs (dmem t)" if "fs_path e \<noteq> RT_NULL" using e that assms by (auto simp: table_ok_def held_def)
  qed
  show "mount_at (dmem t) e ms" if "e \<in> set (filesystem_table s)" "mount_at (dmem s) e ms"
    using mount_at_mono [OF that(2)] st [OF that(1)] that(2) by (auto simp: mount_at_def)
qed

lemma lookup_best:
  assumes "table_ok s" "list_all name_ok cs"
  shows "\<exists>r pl. dfs_filesystem_lookup (Some (cstr (path_text True cs) y)) s = Inr r \<and> best_mount (dmem s) (filesystem_table s) cs r pl"
  using lookup_loop_best [of "filesystem_table s" "dmem s" cs "[]" None 0 y] assms
  by (auto simp: dfs_filesystem_lookup_def table_ok_def best_mount_def)

text \<open>The part of a path below a mount point.\<close>

definition below :: "string list \<Rightarrow> string list \<Rightarrow> string" where
  "below ms cs = path_text True (drop (length ms) cs)"

lemma dfs_subdir_below:
  assumes "list_all name_ok ms" "list_all name_ok cs" "prefix ms cs"
  shows "\<exists>off. dfs_subdir (cstr (path_text True ms) x) (cstr (path_text True cs) y) = Inr off
    \<and> (case off of None \<Rightarrow> below ms cs = ''/'' | Some i \<Rightarrow> drop i (cstr (path_text True cs) y) = cstr (below ms cs) y)"
proof -
  obtain ns where ns: "cs = ms @ ns" using assms(3) by (auto simp: prefix_def)
  let ?m = "path_text True ms" and ?p = "path_text True cs"
  have n: "NUL \<notin> set ?m" "NUL \<notin> set ?p" using assms(1,2) path_text_no_nul by auto
  have b: "below ms cs = path_text True ns" by (simp add: below_def ns)
  show ?thesis
  proof (cases "ns = []")
    case True
    then have "dfs_subdir (cstr ?m x) (cstr ?p y) = Inr None" using n ns by (simp add: dfs_subdir_def)
    then show ?thesis using b True by (simp add: path_text_def)
  next
    case False
    show ?thesis
    proof (cases "ms = []")
      case True
      obtain c l where j: "join_names ns = c # l" "c \<noteq> CHR ''/''"
        using False assms(2) ns rooted_path_text [of ns False] path_text_end(1) [of ns False]
        by (cases "join_names ns") (auto simp: rooted_def path_text_def)
      have m: "?m = ''/''" "?p = ''/'' @ c # l" using True j by (simp_all add: path_text_def ns)
      have "length ?m = 1" "length ?p = length l + 2" unfolding m by simp_all
      moreover note rt_strlen_cstr [OF n(1), of x] rt_strlen_cstr [OF n(2), of y]
      moreover have "rd (cstr ?p y) 1 = Inr c" unfolding m by (simp add: rd_def cstr_def)
      ultimately have "dfs_subdir (cstr ?m x) (cstr ?p y) = Inr (Some 0)" using j(2) by (simp add: dfs_subdir_def)
      then show ?thesis using b True ns by simp
    next
      case ne: False
      have p: "?p = ?m @ ''/'' @ join_names ns" using join_names_append [OF ne False] ns by (simp add: path_text_def)
      have "length ?p \<noteq> length ?m" unfolding p by simp
      moreover note rt_strlen_cstr [OF n(1), of x] rt_strlen_cstr [OF n(2), of y]
      moreover have "rd (cstr ?p y) (length ?m) = Inr (CHR ''/'')" unfolding p by (simp add: rd_def cstr_def nth_append)
      ultimately have "dfs_subdir (cstr ?m x) (cstr ?p y) = Inr (Some (length ?m))" by (simp add: dfs_subdir_def)
      moreover have "drop (length ?m) (cstr ?p y) = cstr (below ms cs) y" unfolding p b by (simp add: cstr_def path_text_def)
      ultimately show ?thesis by simp
    qed
  qed
qed

lemma str_of_held: "held s p a t \<Longrightarrow> str_of (dmem t) p = Inr a" "held s p a t \<Longrightarrow> str_at (dmem t) p = Inr (Some a)"
  by (simp_all add: held_def str_of_def str_at_def)

lemma below_no_nul: "list_all name_ok cs \<Longrightarrow> NUL \<notin> set (below ms cs)"
  unfolding below_def by (intro path_text_no_nul) (auto simp: list_all_iff dest: in_set_dropD)

lemma below_length: "list_all name_ok ms \<Longrightarrow> list_all name_ok cs \<Longrightarrow> prefix ms cs \<Longrightarrow> length (below ms cs) \<le> length (path_text True cs)"
proof -
  assume a: "list_all name_ok ms" "list_all name_ok cs" "prefix ms cs"
  then obtain ns where ns: "cs = ms @ ns" by (auto simp: prefix_def)
  show ?thesis
  proof (cases "ms = [] \<or> ns = []")
    case True
    then show ?thesis using ns by (auto simp: below_def path_text_def)
  next
    case False
    then show ?thesis using join_names_append [of ms ns] ns by (simp add: below_def path_text_def)
  qed
qed

text \<open>The block with the path for the file system replaces the block with the whole path.\<close>

lemma fd_subpath_ok:
  assumes ok: "table_ok s" and h: "held s p (cstr (path_text True cs) z) t" and e: "e \<in> set (filesystem_table s)" "mount_at (dmem s) e ms" "prefix ms cs"
    and cs: "list_all name_ok cs" "length (path_text True cs) + 1 \<le> 2 ^ 32 - 4"
  obtains q u b where "fd_subpath e ops p t = Inr (q, u)" "q = RT_NULL \<and> clean s u \<or> held s q b u"
    "q \<noteq> RT_NULL \<longrightarrow> (\<exists>y. b = cstr (if fs_fullpath ops then path_text True cs else below ms cs) y)"
proof (cases "fs_fullpath ops")
  case True
  then show thesis using that [of p t "cstr (path_text True cs) z"] h by (auto simp: fd_subpath_def)
next
  case False
  let ?b = "below ms cs"
  have m: "mount_at (dmem t) e ms" by (rule table_ok_held(2) [OF ok h e(1,2)])
  obtain x where x: "str_of (dmem t) (fs_path e) = Inr (cstr (path_text True ms) x)" using str_of_mount [OF m] by blast
  have ms: "list_all name_ok ms" using e(2) by (simp add: mount_at_def)
  obtain off where off: "dfs_subdir (cstr (path_text True ms) x) (cstr (path_text True cs) z) = Inr off"
    "case off of None \<Rightarrow> ?b = ''/'' | Some i \<Rightarrow> drop i (cstr (path_text True cs) z) = cstr ?b z"
    using dfs_subdir_below [OF ms cs(1) e(3)] by blast
  obtain z' where d: "(case off of None \<Rightarrow> cstr ''/'' [] | Some i \<Rightarrow> drop i (cstr (path_text True cs) z)) = cstr ?b z'"
    using off(2) by (cases off) auto
  have len: "length ?b + 1 \<le> 2 ^ 32 - 4" using below_length [OF ms cs(1) e(3)] cs(2) by simp
  have "app_ok (dmem t)" using h by (simp add: held_def)
  then obtain q u where q: "dstrdup (Some (cstr ?b z')) t = Inr (q, u)" "q = RT_NULL \<and> clean t u \<or> held t q (cstr ?b []) u"
    by (rule dstrdup_ok [OF _ below_no_nul [OF cs(1)] len])
  have run: "fd_subpath e ops p t = cbind (dfree p u) (\<lambda>s. Inr (q, s))"
    using False x str_of_held(1) [OF h] off(1) d q(1) by (simp add: fd_subpath_def)
  show thesis
  proof (cases "q = RT_NULL")
    case True
    then have "held s p (cstr (path_text True cs) z) u" using q(2) clean_held(2) [OF h] by (auto simp: held_def)
    then obtain v where "dfree p u = Inr v" "clean s v" by (rule dfree_held)
    then show ?thesis using that [of q v "[]"] run True by simp
  next
    case ne: False
    then have "held t q (cstr ?b []) u" using q(2) by auto
    then obtain v where "dfree p u = Inr v" "held s q (cstr ?b []) v" by (rule dfree_outer [OF h])
    then show ?thesis using that [of q v "cstr ?b []"] run ne False by auto
  qed
qed

text \<open>The nearest mounted directory above a path.\<close>

definition nearest :: "app_mem \<Rightarrow> dfs_filesystem list \<Rightarrow> string list \<Rightarrow> nat \<Rightarrow> string list \<Rightarrow> bool" where
  "nearest m es cs i ms \<longleftrightarrow> i < length es \<and> mount_at m (es ! i) ms \<and> prefix ms cs
     \<and> (\<forall>e \<in> set es. \<forall>ms'. mount_at m e ms' \<longrightarrow> prefix ms' cs \<longrightarrow> prefix ms' ms)"

definition unmounted :: "app_mem \<Rightarrow> dfs_filesystem list \<Rightarrow> string list \<Rightarrow> bool" where
  "unmounted m es cs \<longleftrightarrow> (\<forall>e \<in> set es. \<forall>ms. mount_at m e ms \<longrightarrow> \<not> prefix ms cs)"

lemma best_mount_nearest:
  assumes "best_mount m es cs r pl" "list_all name_ok cs"
  shows "case r of None \<Rightarrow> unmounted m es cs | Some i \<Rightarrow> \<exists>ms. nearest m es cs i ms"
proof (cases r)
  case None
  then show ?thesis using assms(1) by (auto simp: best_mount_def unmounted_def)
next
  case (Some i)
  then obtain ms where ms: "i < length es" "mount_at m (es ! i) ms" "prefix ms cs"
    "\<And>e ms'. e \<in> set es \<Longrightarrow> mount_at m e ms' \<Longrightarrow> prefix ms' cs \<Longrightarrow> length (path_text True ms') \<le> length (path_text True ms)"
    using assms(1) by (auto simp: best_mount_def)
  have "prefix ms' ms" if e: "e \<in> set es" "mount_at m e ms'" "prefix ms' cs" for e ms'
  proof (rule ccontr)
    assume "\<not> prefix ms' ms"
    then have "strict_prefix ms ms'" using prefix_same_cases [OF ms(3) e(3)] by auto
    then show False using path_text_mono [of ms ms'] ms(4) [OF e] e(2) by (auto simp: mount_at_def)
  qed
  then have "nearest m es cs i ms" using ms(1-3) unfolding nearest_def by blast
  then show ?thesis using Some by auto
qed

lemma lookup_nearest:
  assumes "table_ok s" "list_all name_ok cs"
  shows "\<exists>r. dfs_filesystem_lookup (Some (cstr (path_text True cs) y)) s = Inr r
    \<and> (case r of None \<Rightarrow> unmounted (dmem s) (filesystem_table s) cs | Some i \<Rightarrow> \<exists>ms. nearest (dmem s) (filesystem_table s) cs i ms)"
  using lookup_best [OF assms] best_mount_nearest [OF _ assms(2)] by meson

lemma mount_at_held_back: "table_ok s \<Longrightarrow> held s p a t \<Longrightarrow> e \<in> set (filesystem_table s) \<Longrightarrow> mount_at (dmem t) e ms = mount_at (dmem s) e ms"
  by (auto simp: mount_at_def table_ok_def held_def)

lemma nearest_held:
  assumes "table_ok s" "held s p a t"
  shows "nearest (dmem t) (filesystem_table t) cs i ms = nearest (dmem s) (filesystem_table s) cs i ms"
    "unmounted (dmem t) (filesystem_table t) cs = unmounted (dmem s) (filesystem_table s) cs"
proof -
  have f: "filesystem_table t = filesystem_table s" using assms(2) by (simp add: held_def same_tables_def)
  have b: "mount_at (dmem t) e ms = mount_at (dmem s) e ms" if "e \<in> set (filesystem_table s)" for e ms using mount_at_held_back [OF assms that] .
  show "nearest (dmem t) (filesystem_table t) cs i ms = nearest (dmem s) (filesystem_table s) cs i ms"
    using b nth_mem by (auto simp: nearest_def f)
  show "unmounted (dmem t) (filesystem_table t) cs = unmounted (dmem s) (filesystem_table s) cs" using b by (auto simp: unmounted_def f)
qed

text \<open>The outcomes of opening a file: the answer of the file system in charge for the path below its mount point, or one
  of the errors; only a successful call keeps a block.\<close>

definition open_answer :: "dfs \<Rightarrow> string list \<Rightarrow> u32 \<Rightarrow> nat \<Rightarrow> string list \<Rightarrow> fsops \<Rightarrow> int \<Rightarrow> dfs_fd option \<Rightarrow> dfs \<Rightarrow> bool" where
  "open_answer s cs flags i ms ops e fd t \<longleftrightarrow> (case fs_open ops of
     None \<Rightarrow> e = - ENOSYS \<and> fd = None \<and> clean s t
   | Some open \<Rightarrow> \<exists>bt. (bt = None \<or> (\<exists>y. bt = Some (cstr (if fs_fullpath ops then path_text True cs else below ms cs) y)))
       \<and> (if open bt flags < 0 then e = open bt flags \<and> fd = None \<and> clean s t
          else e = 0 \<and> (\<exists>f. fd = Some f \<and> fd_fs f = i \<and> (case bt of None \<Rightarrow> fd_path f = RT_NULL \<and> clean s t | Some b \<Rightarrow> held s (fd_path f) b t))))"

definition open_result :: "dfs \<Rightarrow> string list \<Rightarrow> u32 \<Rightarrow> int \<Rightarrow> dfs_fd option \<Rightarrow> dfs \<Rightarrow> bool" where
  "open_result s cs flags e fd t \<longleftrightarrow> e = - ENOMEM \<and> fd = None \<and> clean s t
     \<or> e = - ENOENT \<and> fd = None \<and> clean s t \<and> unmounted (dmem s) (filesystem_table s) cs
     \<or> (\<exists>i ms ops. nearest (dmem s) (filesystem_table s) cs i ms \<and> fs_ops (filesystem_table s ! i) = Some ops \<and> open_answer s cs flags i ms ops e fd t)"

lemma open_tail:
  assumes run: "r = (case fs_open ops of
            None \<Rightarrow> cbind (dfree q u) (\<lambda>s. Inr (- ENOSYS, None, s))
          | Some open \<Rightarrow> cbind (str_at (dmem u) q) (\<lambda>bt. opened q i flags (open bt flags) u))"
    and q: "q = RT_NULL \<and> clean s u \<or> held s q b u" "q \<noteq> RT_NULL \<longrightarrow> (\<exists>y. b = cstr (if fs_fullpath ops then path_text True cs else below ms cs) y)"
  shows "\<exists>e fd t. r = Inr (e, fd, t) \<and> open_answer s cs flags i ms ops e fd t"
proof -
  obtain v where v: "dfree q u = Inr v" "clean s v" using q(1) dfree_null [of u] dfree_held [of s q b u] by (metis clean_def)
  show ?thesis
  proof (cases "fs_open ops")
    case None
    then show ?thesis using run v by (auto simp: open_answer_def)
  next
    case (Some fopen)
    define bt where "bt = (if q = RT_NULL then None else Some b)"
    have tx: "str_at (dmem u) q = Inr bt" "bt = None \<or> (\<exists>y. bt = Some (cstr (if fs_fullpath ops then path_text True cs else below ms cs) y))"
      using q str_of_held(2) [of s q b u] by (auto simp: bt_def str_at_def)
    show ?thesis
    proof (cases "fopen bt flags < 0")
      case True
      then have "r = Inr (fopen bt flags, None, v)" using run Some tx(1) v(1) by (simp add: opened_def)
      then show ?thesis using Some tx(2) True v(2) by (auto simp: open_answer_def)
    next
      case False
      then obtain f where f: "r = Inr (0, Some f, u)" "fd_fs f = i" "fd_path f = q" using run Some tx(1) by (auto simp: opened_def Let_def)
      have "case bt of None \<Rightarrow> fd_path f = RT_NULL \<and> clean s u | Some b \<Rightarrow> held s (fd_path f) b u"
        using q(1) f(3) by (auto simp: bt_def held_def)
      then show ?thesis using Some tx(2) False f by (auto simp: open_answer_def)
    qed
  qed
qed

lemma file_open_ok:
  assumes ok: "table_ok s" and f: "NUL \<notin> set f" "fits s wd (length f)" "resolve (rooted (full_path wd f)) [] (comps (full_path wd f)) = Some (True, cs)"
    and len: "length (path_text True cs) + 1 \<le> 2 ^ 32 - 4"
  obtains e fd t where "dfs_file_open (Some (cstr f y)) flags s = Inr (e, fd, t)" "open_result s cs flags e fd t"
proof -
  have ap: "app_ok (dmem s)" using ok by (simp add: table_ok_def)
  obtain p s1 z where p: "normalize (Some (cstr f y)) s = Inr (p, s1)" "p = RT_NULL \<and> clean s s1 \<or> held s p (cstr (path_text True cs) z) s1" "list_all name_ok cs"
    by (rule normalize_ok [OF ap f])
  show thesis
  proof (cases "p = RT_NULL")
    case True
    then show ?thesis using that [of "- ENOMEM" None s1] p by (auto simp: dfs_file_open_def open_result_def held_def)
  next
    case False
    then have h: "held s p (cstr (path_text True cs) z) s1" using p(2) by simp
    note ok1 = table_ok_held(1) [OF ok h]
    obtain r where r: "dfs_filesystem_lookup (Some (cstr (path_text True cs) z)) s1 = Inr r"
      "case r of None \<Rightarrow> unmounted (dmem s1) (filesystem_table s1) cs | Some i \<Rightarrow> \<exists>ms. nearest (dmem s1) (filesystem_table s1) cs i ms"
      using lookup_nearest [OF ok1 p(3)] by blast
    note r2 = r(2) [unfolded nearest_held [OF ok h]]
    show ?thesis
    proof (cases r)
      case None
      obtain u where "dfree p s1 = Inr u" "clean s u" using dfree_held [OF h] .
      then show ?thesis using that [of "- ENOENT" None u] p(1) False r(1) None str_of_held(1) [OF h] r2
        by (simp add: dfs_file_open_def open_result_def)
    next
      case (Some i)
      then obtain ms where ms: "nearest (dmem s) (filesystem_table s) cs i ms" using r2 by auto
      have tb: "filesystem_table s1 = filesystem_table s" using h by (simp add: held_def same_tables_def)
      have e: "filesystem_table s ! i \<in> set (filesystem_table s)" "mount_at (dmem s) (filesystem_table s ! i) ms" "prefix ms cs" using ms by (auto simp: nearest_def)
      obtain ops where ops: "fs_ops (filesystem_table s ! i) = Some ops" using e(2) by (auto simp: mount_at_def)
      obtain q u b where q: "fd_subpath (filesystem_table s ! i) ops p s1 = Inr (q, u)" "q = RT_NULL \<and> clean s u \<or> held s q b u"
        "q \<noteq> RT_NULL \<longrightarrow> (\<exists>y. b = cstr (if fs_fullpath ops then path_text True cs else below ms cs) y)"
        by (rule fd_subpath_ok [OF ok h e p(3) len, of ops])
      have run: "dfs_file_open (Some (cstr f y)) flags s = (case fs_open ops of
            None \<Rightarrow> cbind (dfree q u) (\<lambda>s. Inr (- ENOSYS, None, s))
          | Some open \<Rightarrow> cbind (str_at (dmem u) q) (\<lambda>bt. opened q i flags (open bt flags) u))"
        using p(1) False str_of_held(1) [OF h] r(1) Some tb ops q(1) by (simp add: dfs_file_open_def)
      have "\<exists>e fd t. dfs_file_open (Some (cstr f y)) flags s = Inr (e, fd, t) \<and> open_answer s cs flags i ms ops e fd t"
        by (rule open_tail [OF run q(2,3)])
      then show ?thesis using that ms ops unfolding open_result_def by blast
    qed
  qed
qed

section \<open>Mounting\<close>

lemma mount_text_cmp:
  assumes "mount_at m e ms" "NUL \<notin> set f"
  shows "\<exists>a r. str_of m (fs_path e) = Inr a \<and> rt_strcmp a (cstr f y) = Inr r \<and> (r = 0 \<longleftrightarrow> path_text True ms = f)"
proof -
  obtain z where z: "str_of m (fs_path e) = Inr (cstr (path_text True ms) z)" using str_of_mount [OF assms(1)] by blast
  have "NUL \<notin> set (path_text True ms)" using assms(1) path_text_no_nul by (auto simp: mount_at_def)
  then show ?thesis using z rt_strcmp_cstr [OF _ assms(2), of "path_text True ms" z y] by blast
qed

lemma entry_cases:
  assumes "entry_ok m e"
  obtains (free) "e = no_fs" | (used) ms where "mount_at m e ms" "fs_ops e \<noteq> None" "fs_path e \<noteq> RT_NULL"
  using assms by (auto simp: entry_ok_def mount_at_def)

definition mounted_text :: "app_mem \<Rightarrow> dfs_filesystem \<Rightarrow> string \<Rightarrow> bool" where
  "mounted_text m e f \<longleftrightarrow> (\<exists>ms. mount_at m e ms \<and> path_text True ms = f)"

lemma free_loop_ok:
  assumes "\<forall>e \<in> set es. entry_ok m e" "NUL \<notin> set f"
  shows "\<exists>r b. free_loop m es i (cstr f y) fs = Inr (r, b) \<and> (b \<longleftrightarrow> (\<exists>e \<in> set es. mounted_text m e f)) \<and> (\<not> b \<and> r = None \<longrightarrow> fs = None \<and> no_fs \<notin> set es)
    \<and> (\<forall>j. r = Some j \<longrightarrow> fs = Some j \<or> i \<le> j \<and> j < i + length es \<and> es ! (j - i) = no_fs)"
  using assms
proof (induction es arbitrary: i fs)
  case (Cons e es)
  have e: "entry_ok m e" and es: "\<forall>e \<in> set es. entry_ok m e" using Cons.prems(1) by auto
  show ?case using e
  proof (cases rule: entry_cases)
    case free
    obtain r b where r: "free_loop m es (i + 1) (cstr f y) (if fs = None then Some i else fs) = Inr (r, b)" "b \<longleftrightarrow> (\<exists>e \<in> set es. mounted_text m e f)" "\<not> b \<and> r = None \<longrightarrow> (if fs = None then Some i else fs) = None \<and> no_fs \<notin> set es"
      "\<And>j. r = Some j \<Longrightarrow> (if fs = None then Some i else fs) = Some j \<or> i + 1 \<le> j \<and> j < i + 1 + length es \<and> es ! (j - (i + 1)) = no_fs"
      using Cons.IH [OF es Cons.prems(2), of "i + 1" "if fs = None then Some i else fs"] by blast
    have "fs = Some j \<or> i \<le> j \<and> j < i + length (e # es) \<and> (e # es) ! (j - i) = no_fs" if "r = Some j" for j
      using r(4) [OF that] free by (auto split: if_splits simp: nth_Cons')
    moreover have "\<not> mounted_text m e f" using free by (simp add: mounted_text_def mount_at_def no_fs_def)
    ultimately show ?thesis using r(1-3) free by (auto simp: no_fs_def split: if_splits)
  next
    case (used ms)
    obtain a q where q: "str_of m (fs_path e) = Inr a" "rt_strcmp a (cstr f y) = Inr q" "q = 0 \<longleftrightarrow> path_text True ms = f"
      using mount_text_cmp [OF used(1) Cons.prems(2)] by blast
    obtain r b where r: "free_loop m es (i + 1) (cstr f y) fs = Inr (r, b)" "b \<longleftrightarrow> (\<exists>e \<in> set es. mounted_text m e f)" "\<not> b \<and> r = None \<longrightarrow> fs = None \<and> no_fs \<notin> set es"
      "\<And>j. r = Some j \<Longrightarrow> fs = Some j \<or> i + 1 \<le> j \<and> j < i + 1 + length es \<and> es ! (j - (i + 1)) = no_fs"
      using Cons.IH [of "i + 1" fs] Cons.prems by auto
    have "e \<noteq> no_fs" using used(2) by (auto simp: no_fs_def)
    have "mounted_text m e f \<longleftrightarrow> q = 0" unfolding mounted_text_def using used(1) q(3) mount_text_unique [OF used(1)] by metis
    then show ?thesis
    proof (cases "q = 0")
      case True
      then show ?thesis using used q \<open>mounted_text m e f \<longleftrightarrow> q = 0\<close> by auto
    next
      case False
      have "fs = Some j \<or> i \<le> j \<and> j < i + length (e # es) \<and> (e # es) ! (j - i) = no_fs" if "r = Some j" for j
        using r(4) [OF that] by (auto simp: nth_Cons')
      then show ?thesis using used q r(1-3) False \<open>e \<noteq> no_fs\<close> \<open>mounted_text m e f \<longleftrightarrow> q = 0\<close> by auto
    qed
  qed
qed auto

text \<open>Entering a file system in the table: the block with the path is kept by the new entry, or released.\<close>

definition entered :: "dfs \<Rightarrow> nat \<Rightarrow> ptr \<Rightarrow> fsops \<Rightarrow> string list \<Rightarrow> dfs \<Rightarrow> bool" where
  "entered s i dev ops cs u \<longleftrightarrow> i < length (filesystem_table s) \<and> filesystem_table s ! i = no_fs
     \<and> (\<exists>p. filesystem_table u = (filesystem_table s)[i := \<lparr>fs_dev = dev, fs_path = p, fs_ops = Some ops\<rparr>]
          \<and> p \<notin> haddrs (dmem s) \<and> strs (dmem s) p = None \<and> haddrs (dmem u) = insert p (haddrs (dmem s)) \<and> strs (dmem u) = (strs (dmem s))(p := strs (dmem u) p))
     \<and> heap_region (heap (dmem u)) = heap_region (heap (dmem s)) \<and> operation_table u = operation_table s \<and> working_directory u = working_directory s
     \<and> mount_at (dmem u) (filesystem_table u ! i) cs \<and> table_ok u"

lemma distinct_update:
  assumes "distinct (filter P (map f xs))" "i < length xs" "\<not> P (f (xs ! i))" "P (f y) \<Longrightarrow> f y \<notin> f ` set xs"
  shows "distinct (filter P (map f (xs[i := y])))"
proof -
  obtain a c b where ab: "xs = a @ c # b" "length a = i" using id_take_nth_drop [OF assms(2)] assms(2) by (metis length_take min.absorb4)
  have "\<not> P (f c)" using assms(3) unfolding ab(1) ab(2) [symmetric] by simp
  then have "distinct (filter P (map f a) @ filter P (map f b))" using assms(1) ab(1) by simp
  moreover have "xs[i := y] = a @ y # b" using ab by auto
  moreover have "P (f y) \<Longrightarrow> f y \<notin> f ` set a \<and> f y \<notin> f ` set b" using assms(4) ab(1) by auto
  ultimately show ?thesis by auto
qed

lemma table_ok_entered:
  assumes ok: "table_ok s" and h: "held s p (cstr (path_text True cs) z) t" and i: "i < length (filesystem_table s)" "filesystem_table s ! i = no_fs" and cs: "list_all name_ok cs"
  shows "entered s i dev ops cs (set_fs i \<lparr>fs_dev = dev, fs_path = p, fs_ops = Some ops\<rparr> t)"
proof -
  let ?e = "\<lparr>fs_dev = dev, fs_path = p, fs_ops = Some ops\<rparr>" and ?u = "set_fs i \<lparr>fs_dev = dev, fs_path = p, fs_ops = Some ops\<rparr> t"
  have tb: "filesystem_table t = filesystem_table s" "p \<noteq> RT_NULL" "p \<notin> haddrs (dmem s)" "strs (dmem t) = (strs (dmem s))(p \<mapsto> cstr (path_text True cs) z)"
    "haddrs (dmem t) = insert p (haddrs (dmem s))" using h by (auto simp: held_def same_tables_def)
  have u: "dmem ?u = dmem t" "filesystem_table ?u = (filesystem_table s)[i := ?e]" using tb(1) by (simp_all add: set_fs_def)
  have m: "mount_at (dmem t) ?e cs" using tb cs by (auto simp: mount_at_def)
  note ot = table_ok_held(1) [OF ok h]
  have "p \<notin> fs_path ` set (filesystem_table s)" using ok tb(2,3) by (auto simp: table_ok_def)
  then have "distinct (filter (\<lambda>p. p \<noteq> RT_NULL) (map fs_path ((filesystem_table s)[i := ?e])))"
    using ok i by (intro distinct_update) (auto simp: table_ok_def no_fs_def)
  moreover have "\<forall>e \<in> set ((filesystem_table s)[i := ?e]). entry_ok (dmem t) e \<and> (fs_path e \<noteq> RT_NULL \<longrightarrow> fs_path e \<in> haddrs (dmem t))"
  proof
    fix e assume "e \<in> set ((filesystem_table s)[i := ?e])"
    then have "e = ?e \<or> e \<in> set (filesystem_table t)" using tb(1) set_update_subset_insert by fastforce
    then show "entry_ok (dmem t) e \<and> (fs_path e \<noteq> RT_NULL \<longrightarrow> fs_path e \<in> haddrs (dmem t))"
      using m tb(5) ot by (auto simp: entry_ok_def table_ok_def)
  qed
  ultimately have "table_ok ?u" using ot u by (simp add: table_ok_def)
  moreover have "strs (dmem s) p = None" "heap_region (heap (dmem ?u)) = heap_region (heap (dmem s))" "operation_table ?u = operation_table s" "working_directory ?u = working_directory s"
    using h by (simp_all add: held_def same_tables_def set_fs_def)
  ultimately show ?thesis using i u tb m unfolding entered_def by auto
qed

text \<open>Why a file system is not entered: something is mounted there, the table is full, the device cannot be opened, the file system refuses.\<close>

definition enter_refused :: "dfs \<Rightarrow> devices \<Rightarrow> ptr \<Rightarrow> fsops \<Rightarrow> string \<Rightarrow> bool" where
  "enter_refused s devs dev ops f \<longleftrightarrow> (\<exists>e \<in> set (filesystem_table s). mounted_text (dmem s) e f) \<or> no_fs \<notin> set (filesystem_table s)
     \<or> dev \<noteq> RT_NULL \<and> dev_open devs dev \<noteq> 0 \<or> (\<exists>g. fs_mount ops = Some g \<and> g dev < 0)"

lemma mount_enter_ok:
  assumes ok: "table_ok s" and h: "held s p (cstr (path_text True cs) z) t" and cs: "list_all name_ok cs" and f: "NUL \<notin> set f" and mo: "fs_mount ops \<noteq> None"
  obtains r u where "mount_enter devs dev (cstr f y) ops p t = Inr (r, u)"
    "r = - 1 \<and> clean s u \<and> enter_refused s devs dev ops f \<or> r = 0 \<and> (\<exists>i. entered s i dev ops cs u) \<and> (\<forall>e \<in> set (filesystem_table s). \<not> mounted_text (dmem s) e f)"
proof -
  note ot = table_ok_held(1) [OF ok h]
  have tb: "filesystem_table t = filesystem_table s" using h by (simp add: held_def same_tables_def)
  have fr: "\<exists>u. dfree p (t\<lparr>dfs_errno := x\<rparr>) = Inr u \<and> clean s u" for x using dfree_held [OF clean_errno(2) [OF h, of x]] by metis
  have fr2: "\<exists>u. dfree p (set_fs i no_fs (set_fs i e t')) = Inr u \<and> clean s u" if "filesystem_table s ! i = no_fs" "held s p (cstr (path_text True cs) z) t'" for i e t'
  proof -
    have "filesystem_table t' = filesystem_table s" "(filesystem_table s)[i := no_fs] = filesystem_table s"
      using that by (simp add: held_def same_tables_def) (metis list_update_id that(1))
    then have "set_fs i no_fs (set_fs i e t') = t'" by (simp add: set_fs_def)
    then show ?thesis using dfree_held [OF that(2)] by metis
  qed
  obtain r b where r: "free_loop (dmem t) (filesystem_table t) 0 (cstr f y) None = Inr (r, b)" "b \<longleftrightarrow> (\<exists>e \<in> set (filesystem_table t). mounted_text (dmem t) e f)"
    "\<not> b \<Longrightarrow> r = None \<Longrightarrow> no_fs \<notin> set (filesystem_table t)" "\<And>j. r = Some j \<Longrightarrow> j < length (filesystem_table t) \<and> filesystem_table t ! j = no_fs"
    using free_loop_ok [of "filesystem_table t" "dmem t" f 0 y None] ot f by (auto simp: table_ok_def)
  have nm: "b \<longleftrightarrow> (\<exists>e \<in> set (filesystem_table s). mounted_text (dmem s) e f)"
    using r(2) tb mount_at_held_back [OF ok h] by (auto simp: mounted_text_def)
  obtain mount where mount: "fs_mount ops = Some mount" using mo by blast
  show thesis
  proof (cases "b \<or> r = None")
    case True
    obtain v where v: "dfree p (t\<lparr>dfs_errno := (if b then - EINVAL else - ENOSPC)\<rparr>) = Inr v" "clean s v" using fr by blast
    then have "mount_enter devs dev (cstr f y) ops p t = Inr (- 1, v)" using r(1) True by (cases b) (auto simp: mount_enter_def)
    moreover have "enter_refused s devs dev ops f" using True nm r(3) tb by (auto simp: enter_refused_def)
    ultimately show thesis using that v(2) by blast
  next
    case False
    then obtain i where i: "r = Some i" "\<not> b" by auto
    have n: "i < length (filesystem_table s)" "filesystem_table s ! i = no_fs" using r(4) [OF i(1)] tb by auto
    let ?e = "\<lparr>fs_dev = dev, fs_path = p, fs_ops = Some ops\<rparr>"
    let ?t = "device_call Dev_open dev t"
    have h1: "held s p (cstr (path_text True cs) z) ?t" "held s p (cstr (path_text True cs) z) (device_call Dev_close dev ?t)"
      using same_device_call(2) h by blast+
    obtain v where v: "dfree p (set_fs i no_fs (set_fs i ?e ?t)) = Inr v" "clean s v" using fr2 [OF n(2) h1(1)] by blast
    obtain w where w: "dfree p (set_fs i no_fs (set_fs i ?e (device_call Dev_close dev ?t))) = Inr w" "clean s w" using fr2 [OF n(2) h1(2)] by blast
    have run: "mount_enter devs dev (cstr f y) ops p t = (if dev \<noteq> RT_NULL \<and> dev_open devs dev \<noteq> 0 then Inr (- 1, v)
        else if mount dev < 0 then Inr (- 1, w) else Inr (0, set_fs i ?e ?t))"
      using r(1) i v(1) w(1) mount by (auto simp: mount_enter_def Let_def same_device_call(4))
    have "entered s i dev ops cs (set_fs i ?e ?t)" by (rule table_ok_entered [OF ok h1(1) n cs])
    moreover have "mount dev < 0 \<or> dev \<noteq> RT_NULL \<and> dev_open devs dev \<noteq> 0 \<Longrightarrow> enter_refused s devs dev ops f" using mount by (auto simp: enter_refused_def)
    ultimately show thesis using that run v(2) w(2) nm i(2) by (metis (no_types, lifting))
  qed
qed

text \<open>What mounting relies on: names are C strings, and file systems close a directory they have opened without an error.\<close>

definition ops_ok :: "dfs \<Rightarrow> bool" where
  "ops_ok s \<longleftrightarrow> (\<forall>ops. Some ops \<in> set (operation_table s) \<longrightarrow> (\<exists>n z. fs_name ops = cstr n z \<and> NUL \<notin> set n))
     \<and> (\<forall>e \<in> set (filesystem_table s). \<forall>ops r. fs_ops e = Some ops \<longrightarrow> fs_close ops = Some r \<longrightarrow> 0 \<le> r)"

lemma ops_loop_ok:
  assumes "\<forall>ops. Some ops \<in> set es \<longrightarrow> (\<exists>n z. fs_name ops = cstr n z \<and> NUL \<notin> set n)" "NUL \<notin> set ty"
  shows "\<exists>r. ops_loop es (cstr ty x) = Inr r \<and> (r = None \<or> r \<in> set es)"
  using assms(1)
proof (induction es)
  case (Cons e es)
  show ?case
  proof (cases e)
    case (Some ops)
    then obtain n z where "fs_name ops = cstr n z" "NUL \<notin> set n" using Cons.prems by auto
    then show ?thesis using rt_strcmp_cstr [OF _ assms(2), of n z x] Cons Some by auto
  qed (use Cons in simp)
qed simp

lemma resolve_canonical: "list_all name_ok cs \<Longrightarrow>
    resolve (rooted (full_path wd (path_text True cs))) [] (comps (full_path wd (path_text True cs))) = Some (True, cs)"
  using rooted_path_text [of cs True] resolve_path_text [of cs True "[]"] by (simp add: full_path_def)

lemma fits_held: "held s p a t \<Longrightarrow> fits t wd n = fits s wd n"
  by (simp add: fits_def held_def same_tables_def)

lemma open_answer_ok:
  assumes "open_answer s cs flags i ms ops e fd t" "\<not> e < 0"
  obtains f where "e = 0" "fd = Some f" "fd_fs f = i" "fd_path f = RT_NULL \<and> clean s t \<or> (\<exists>b. held s (fd_path f) b t)"
proof (cases "fs_open ops")
  case (Some fopen)
  then obtain bt where "if fopen bt flags < 0 then e = fopen bt flags \<and> fd = None \<and> clean s t
      else e = 0 \<and> (\<exists>f. fd = Some f \<and> fd_fs f = i \<and> (case bt of None \<Rightarrow> fd_path f = RT_NULL \<and> clean s t | Some b \<Rightarrow> held s (fd_path f) b t))"
    using assms(1) unfolding open_answer_def by auto
  then show thesis using that assms(2) by (cases bt) (auto split: if_splits)
qed (use assms in \<open>simp add: open_answer_def\<close>)

text \<open>Opening the directory and closing it again leaves nothing behind.\<close>

lemma probe_directory:
  assumes ok: "table_ok t" "ops_ok t" and cs: "list_all name_ok cs" "fits t wd (length (path_text True cs))"
  obtains e fd u where "dfs_file_open (Some (cstr (path_text True cs) z)) flags t = Inr (e, fd, u)"
    "e < 0 \<and> clean t u \<or> (\<exists>f v. e = 0 \<and> fd = Some f \<and> (\<exists>r g. dfs_file_close f u = Inr (r, g, v)) \<and> clean t v)"
proof -
  have len: "length (path_text True cs) + 1 \<le> 2 ^ 32 - 4" using cs(2) by (simp add: fits_def)
  obtain e fd u where o: "dfs_file_open (Some (cstr (path_text True cs) z)) flags t = Inr (e, fd, u)" "open_result t cs flags e fd u"
    by (rule file_open_ok [OF ok(1) path_text_no_nul [OF cs(1)] cs(2) resolve_canonical [OF cs(1)] len])
  have "e < 0 \<and> clean t u \<or> (\<exists>f v. e = 0 \<and> fd = Some f \<and> (\<exists>r g. dfs_file_close f u = Inr (r, g, v)) \<and> clean t v)"
  proof (cases "e < 0")
    case True
    then show ?thesis using o(2) by (auto simp: open_result_def open_answer_def split: option.splits if_splits)
  next
    case False
    then obtain i ms ops where i: "nearest (dmem t) (filesystem_table t) cs i ms" "fs_ops (filesystem_table t ! i) = Some ops" "open_answer t cs flags i ms ops e fd u"
      using o(2) unfolding open_result_def by auto
    obtain f where f: "e = 0" "fd = Some f" "fd_fs f = i" "fd_path f = RT_NULL \<and> clean t u \<or> (\<exists>b. held t (fd_path f) b u)"
      by (rule open_answer_ok [OF i(3) False])
    have tb: "filesystem_table u = filesystem_table t" "app_ok (dmem u)" using f(4) by (auto simp: held_def clean_def same_tables_def)
    obtain v where v: "dfree (fd_path f) u = Inr v" "clean t v" using f(4) dfree_null [OF tb(2)] dfree_held by metis
    have "filesystem_table t ! i \<in> set (filesystem_table t)" using i(1) by (simp add: nearest_def)
    then have "\<not> (case fs_close ops of None \<Rightarrow> 0 | Some r \<Rightarrow> r) < 0" using ok(2) i(2) unfolding ops_ok_def by (cases "fs_close ops") (auto simp: not_less)
    then have "\<exists>r g. dfs_file_close f u = Inr (r, g, v)" using i(2) f(3) tb(1) v(1) by (simp add: dfs_file_close_def)
    then show ?thesis using f(1,2) v(2) by blast
  qed
  then show thesis using that o(1) by blast
qed

text \<open>The outcomes of mounting: the table has a new entry, or everything is as before; a mount on \<open>/\<close> or \<open>/dev\<close> fails only for the reasons in \<open>why\<close>.\<close>

definition mount_result :: "dfs \<Rightarrow> bool \<Rightarrow> string list \<Rightarrow> string \<Rightarrow> int \<Rightarrow> dfs \<Rightarrow> bool" where
  "mount_result s why cs f r u \<longleftrightarrow> r = - 1 \<and> clean s u \<and> (cs = [] \<or> cs = [''dev''] \<longrightarrow> why)
     \<or> r = 0 \<and> (\<exists>i dev ops. entered s i dev ops cs u \<and> Some ops \<in> set (operation_table s)) \<and> (\<forall>e \<in> set (filesystem_table s). \<not> mounted_text (dmem s) e f)"

definition path_refused :: "dfs \<Rightarrow> devices \<Rightarrow> ptr \<Rightarrow> fsops \<Rightarrow> string \<Rightarrow> char list \<Rightarrow> bool" where
  "path_refused s devs dev ops f y \<longleftrightarrow> (\<exists>t. normalize (Some (cstr f y)) s = Inr (RT_NULL, t)) \<or> enter_refused s devs dev ops f"

definition mount_refused :: "dfs \<Rightarrow> devices \<Rightarrow> char list option \<Rightarrow> string \<Rightarrow> char list \<Rightarrow> char list \<Rightarrow> bool" where
  "mount_refused s devs dname f y ty \<longleftrightarrow> (\<exists>n. dname = Some n \<and> dev_find devs n = RT_NULL) \<or> ops_loop (operation_table s) ty = Inr None
     \<or> (\<exists>ops. Some ops \<in> set (operation_table s) \<and> ops_loop (operation_table s) ty = Inr (Some ops)
          \<and> (fs_mount ops = None \<or> path_refused s devs (case dname of None \<Rightarrow> RT_NULL | Some n \<Rightarrow> dev_find devs n) ops f y))"

lemma mount_path_ok:
  assumes ok: "table_ok s" "ops_ok s" and f: "NUL \<notin> set f" "fits s wd (length f)" "resolve (rooted (full_path wd f)) [] (comps (full_path wd f)) = Some (True, cs)"
    and len: "fits s wd (length (path_text True cs))" and mo: "fs_mount ops \<noteq> None" "Some ops \<in> set (operation_table s)"
  shows "\<exists>r u. mount_path devs dev (cstr f y) ops s = Inr (r, u) \<and> mount_result s (path_refused s devs dev ops f y) cs f r u"
proof -
  let ?why = "path_refused s devs dev ops f y"
  have ap: "app_ok (dmem s)" using ok(1) by (simp add: table_ok_def)
  obtain p t z where p: "normalize (Some (cstr f y)) s = Inr (p, t)" "p = RT_NULL \<and> clean s t \<or> held s p (cstr (path_text True cs) z) t" "list_all name_ok cs"
    by (rule normalize_ok [OF ap f])
  show ?thesis
  proof (cases "p = RT_NULL")
    case True
    then show ?thesis using p clean_errno(1) by (auto simp: mount_path_def held_def mount_result_def path_refused_def)
  next
    case False
    let ?a = "cstr (path_text True cs) z"
    have h: "held s p ?a t" using False p(2) by simp
    have enter: "\<exists>r u. mount_enter devs dev (cstr f y) ops p v = Inr (r, u) \<and> mount_result s ?why cs f r u" if "held s p ?a v" for v
      by (rule mount_enter_ok [OF ok(1) that p(3) f(1) mo(1), of devs dev y]) (use mo(2) in \<open>auto simp: mount_result_def path_refused_def\<close>)
    have ot: "table_ok t" "ops_ok t" "fits t wd (length (path_text True cs))"
      using table_ok_held(1) [OF ok(1) h] ok(2) fits_held [OF h] len h by (auto simp: ops_ok_def held_def same_tables_def)
    obtain e fd u where o: "dfs_file_open (Some ?a) O_DIRECTORY t = Inr (e, fd, u)"
      "e < 0 \<and> clean t u \<or> (\<exists>f v. e = 0 \<and> fd = Some f \<and> (\<exists>r g. dfs_file_close f u = Inr (r, g, v)) \<and> clean t v)"
      by (rule probe_directory [OF ot(1,2) p(3) ot(3)])
    have n: "NUL \<notin> set (path_text True cs)" by (rule path_text_no_nul [OF p(3)])
    have cmp: "\<exists>r. rt_strcmp ?a (cstr x []) = Inr r \<and> (path_text True cs = x \<longrightarrow> r = 0)" if "NUL \<notin> set x" for x
      using rt_strcmp_cstr [OF n that, of z "[]"] by blast
    have nn: "NUL \<notin> set ''/''" "NUL \<notin> set ''/dev''" "path_text True [] = ''/''" "path_text True [''dev''] = ''/dev''" by (simp_all add: path_text_def)
    obtain r1 r2 where r: "rt_strcmp ?a (cstr ''/'' []) = Inr r1" "rt_strcmp ?a (cstr ''/dev'' []) = Inr r2" "cs = [] \<Longrightarrow> r1 = 0" "cs = [''dev''] \<Longrightarrow> r2 = 0"
      using cmp [OF nn(1)] cmp [OF nn(2)] nn(3,4) by metis
    have run: "mount_path devs dev (cstr f y) ops s = (if r1 \<noteq> 0 \<and> r2 \<noteq> 0
          then if e < 0 then cbind (dfree p u) (\<lambda>s. Inr (- 1, s\<lparr>dfs_errno := - ENOTDIR\<rparr>))
               else cbind (deref fd) (\<lambda>fd. cbind (dfs_file_close fd u) (\<lambda>(_, _, s). mount_enter devs dev (cstr f y) ops p s))
          else mount_enter devs dev (cstr f y) ops p t)"
      using p(1) False str_of_held(1) [OF h] r(1,2) o(1) unfolding mount_path_def by (simp only: cbind_Inr prod.case if_False)
    consider "\<not> (r1 \<noteq> 0 \<and> r2 \<noteq> 0)" | "r1 \<noteq> 0 \<and> r2 \<noteq> 0" "e < 0" "clean t u"
      | f' v r g where "r1 \<noteq> 0 \<and> r2 \<noteq> 0" "e = 0" "fd = Some f'" "dfs_file_close f' u = Inr (r, g, v)" "clean t v" using o(2) by blast
    then show ?thesis
    proof cases
      case 1
      show ?thesis unfolding run if_not_P [OF 1] by (rule enter [OF h])
    next
      case 2
      obtain v where "dfree p u = Inr v" "clean s v" using dfree_held [OF clean_held(2) [OF h 2(3)]] .
      then show ?thesis using run 2 clean_errno(1) r(3,4) by (auto simp: mount_result_def)
    next
      case 3
      then have "mount_path devs dev (cstr f y) ops s = mount_enter devs dev (cstr f y) ops p v" unfolding run by simp
      then show ?thesis using enter [OF clean_held(2) [OF h 3(5)]] by simp
    qed
  qed
qed

lemma dfs_mount_ok:
  assumes ok: "table_ok s" "ops_ok s" and f: "NUL \<notin> set f" "fits s wd (length f)" "resolve (rooted (full_path wd f)) [] (comps (full_path wd f)) = Some (True, cs)"
    and len: "fits s wd (length (path_text True cs))" and ty: "NUL \<notin> set ty"
  shows "\<exists>r u. dfs_mount devs dname (cstr f y) (cstr ty x) s = Inr (r, u) \<and> mount_result s (mount_refused s devs dname f y (cstr ty x)) cs f r u"
proof -
  define dev where "dev = (case dname of None \<Rightarrow> RT_NULL | Some n \<Rightarrow> dev_find devs n)"
  let ?why = "mount_refused s devs dname f y (cstr ty x)"
  have "app_ok (dmem s)" using ok(1) by (simp add: table_ok_def)
  then have c: "?why \<Longrightarrow> mount_result s ?why cs f (- 1) (s\<lparr>dfs_errno := e\<rparr>)" for e using clean_errno(1) [OF clean_refl] by (simp add: mount_result_def)
  obtain r where r: "ops_loop (operation_table s) (cstr ty x) = Inr r" "r = None \<or> r \<in> set (operation_table s)"
    using ops_loop_ok ok(2) ty unfolding ops_ok_def by blast
  have run: "dfs_mount devs dname (cstr f y) (cstr ty x) s = (if dname \<noteq> None \<and> dev = RT_NULL then Inr (- 1, s\<lparr>dfs_errno := - ENODEV\<rparr>)
      else case r of None \<Rightarrow> Inr (- 1, s\<lparr>dfs_errno := - ENODEV\<rparr>)
        | Some ops \<Rightarrow> if fs_mount ops = None then Inr (- 1, s\<lparr>dfs_errno := - ENOSYS\<rparr>) else mount_path devs dev (cstr f y) ops s)"
    unfolding dfs_mount_def Let_def dev_def [symmetric] r(1) cbind_Inr ..
  show ?thesis
  proof (cases "dname \<noteq> None \<and> dev = RT_NULL \<or> r = None \<or> (\<exists>ops. r = Some ops \<and> fs_mount ops = None)")
    case True
    then have "?why" using r by (auto simp: mount_refused_def dev_def)
    then show ?thesis using c True unfolding run by (auto split: option.splits)
  next
    case False
    then obtain ops where ops: "r = Some ops" "fs_mount ops \<noteq> None" "\<not> (dname \<noteq> None \<and> dev = RT_NULL)" by auto
    have "?why" if "path_refused s devs dev ops f y" using that r ops(1) by (auto simp: mount_refused_def dev_def)
    then have "mount_result s (path_refused s devs dev ops f y) cs f q u \<Longrightarrow> mount_result s ?why cs f q u" for q u by (auto simp: mount_result_def)
    then show ?thesis using mount_path_ok [OF ok f len ops(2), of devs dev y] r(2) ops unfolding run by (auto split: option.splits)
  qed
qed

section \<open>Unmounting\<close>

lemma unmount_loop_ok:
  assumes "\<forall>e \<in> set es. entry_ok m e" "NUL \<notin> set f"
  shows "\<exists>r. unmount_loop m es i (cstr f z) = Inr r \<and> (case r of None \<Rightarrow> \<forall>e \<in> set es. \<not> mounted_text m e f
    | Some j \<Rightarrow> i \<le> j \<and> j < i + length es \<and> mounted_text m (es ! (j - i)) f)"
  using assms
proof (induction es arbitrary: i)
  case (Cons e es)
  obtain r where r: "unmount_loop m es (i + 1) (cstr f z) = Inr r" "case r of None \<Rightarrow> \<forall>e \<in> set es. \<not> mounted_text m e f
      | Some j \<Rightarrow> i + 1 \<le> j \<and> j < i + 1 + length es \<and> mounted_text m (es ! (j - (i + 1))) f"
    using Cons.IH [of "i + 1"] Cons.prems by auto
  have later: "unmount_loop m (e # es) i (cstr f z) = Inr r \<Longrightarrow> \<not> mounted_text m e f \<Longrightarrow> ?case"
    using r(2) by (cases r) (auto simp: nth_Cons')
  have "entry_ok m e" using Cons.prems(1) by simp
  then show ?case
  proof (cases rule: entry_cases)
    case free
    then show ?thesis using later r(1) by (simp add: no_fs_def mounted_text_def mount_at_def)
  next
    case (used ms)
    obtain a q where q: "str_of m (fs_path e) = Inr a" "rt_strcmp a (cstr f z) = Inr q" "q = 0 \<longleftrightarrow> path_text True ms = f"
      using mount_text_cmp [OF used(1) Cons.prems(2)] by blast
    have "mounted_text m e f \<longleftrightarrow> q = 0" unfolding mounted_text_def using used(1) q(3) mount_text_unique [OF used(1)] by metis
    then show ?thesis using later used q(1,2) r(1) by (cases "q = 0") auto
  qed
qed simp

lemma distinct_clear:
  assumes "distinct (filter P (map f xs))" "i < length xs" "\<not> P (f y)"
  shows "distinct (filter P (map f (xs[i := y])))"
    "P (f (xs ! i)) \<Longrightarrow> e \<in> set (xs[i := y]) \<Longrightarrow> e = y \<or> e \<in> set xs \<and> f e \<noteq> f (xs ! i)"
proof -
  obtain a c b where ab: "xs = a @ c # b" "length a = i" using id_take_nth_drop [OF assms(2)] assms(2) by (metis length_take min.absorb4)
  have u: "xs[i := y] = a @ y # b" "xs ! i = c" using ab by auto
  show "distinct (filter P (map f (xs[i := y])))" using assms(1,3) ab(1) u by (auto split: if_splits)
  show "e = y \<or> e \<in> set xs \<and> f e \<noteq> f (xs ! i)" if "P (f (xs ! i))" "e \<in> set (xs[i := y])"
  proof -
    have "f c \<notin> f ` set a" "f c \<notin> f ` set b" "P (f c)" using that(1) assms(1) u(2) ab(1) by auto
    moreover have "e = y \<or> e \<in> set a \<or> e \<in> set b" using that(2) u(1) by auto
    ultimately show ?thesis unfolding u(2) using ab(1) by (metis UnCI image_eqI list.set_intros(2) set_append)
  qed
qed

text \<open>An entry has left the table, and the block with its path the heap.\<close>

definition removed :: "dfs \<Rightarrow> nat \<Rightarrow> dfs \<Rightarrow> bool" where
  "removed s i u \<longleftrightarrow> i < length (filesystem_table s) \<and> filesystem_table u = (filesystem_table s)[i := no_fs]
     \<and> haddrs (dmem u) = haddrs (dmem s) - {fs_path (filesystem_table s ! i)} \<and> strs (dmem u) = (strs (dmem s))(fs_path (filesystem_table s ! i) := None)
     \<and> heap_region (heap (dmem u)) = heap_region (heap (dmem s)) \<and> operation_table u = operation_table s \<and> working_directory u = working_directory s
     \<and> table_ok u"

lemma removedI:
  assumes ok: "table_ok s" and i: "i < length (filesystem_table s)" "fs_path (filesystem_table s ! i) \<noteq> RT_NULL"
    and u: "filesystem_table u = (filesystem_table s)[i := no_fs]" "app_ok (dmem u)" "haddrs (dmem u) = haddrs (dmem s) - {fs_path (filesystem_table s ! i)}"
      "strs (dmem u) = (strs (dmem s))(fs_path (filesystem_table s ! i) := None)" "heap_region (heap (dmem u)) = heap_region (heap (dmem s))"
      "operation_table u = operation_table s" "working_directory u = working_directory s"
  shows "removed s i u"
proof -
  let ?P = "\<lambda>p. p \<noteq> RT_NULL"
  have d: "distinct (filter ?P (map fs_path (filesystem_table s)))" using ok by (simp add: table_ok_def)
  have nf: "\<not> ?P (fs_path no_fs)" by (simp add: no_fs_def)
  have "entry_ok (dmem u) e \<and> (fs_path e \<noteq> RT_NULL \<longrightarrow> fs_path e \<in> haddrs (dmem u))" if e: "e \<in> set (filesystem_table u)" for e
  proof (cases "e = no_fs")
    case True
    then show ?thesis by (simp add: entry_ok_def no_fs_def)
  next
    case False
    then have e': "e \<in> set (filesystem_table s)" "fs_path e \<noteq> fs_path (filesystem_table s ! i)"
      using distinct_clear(2) [OF d i(1) nf i(2)] e u(1) by auto
    then show ?thesis using entry_ok_mono [of "dmem s" e "dmem u"] ok u(3,4) by (auto simp: table_ok_def)
  qed
  then have "table_ok u" using distinct_clear(1) [OF d i(1) nf] u(1,2) by (simp add: table_ok_def)
  then show ?thesis using i(1) u by (simp add: removed_def)
qed

text \<open>The accepting case: the entry's block and the block with the full path are released.\<close>

lemma unmount_removes:
  assumes ok: "table_ok s" and h: "held s p a t" and i: "i < length (filesystem_table s)" "fs_path (filesystem_table s ! i) \<noteq> RT_NULL"
  obtains v w where "dfree (fs_path (filesystem_table s ! i)) (device_call Dev_close d t) = Inr v" "dfree p (set_fs i no_fs v) = Inr w" "removed s i w"
proof -
  let ?q = "fs_path (filesystem_table s ! i)" and ?t = "device_call Dev_close d t"
  have ht: "held s p a ?t" by (rule same_device_call(2) [OF h])
  have q: "?q \<in> haddrs (dmem s)" using ok i by (auto simp: table_ok_def)
  have t: "app_ok (dmem ?t)" "haddrs (dmem ?t) = insert p (haddrs (dmem s))" "strs (dmem ?t) = (strs (dmem s))(p \<mapsto> a)" "p \<notin> haddrs (dmem s)" "strs (dmem s) p = None"
    "heap_region (heap (dmem ?t)) = heap_region (heap (dmem s))" "filesystem_table ?t = filesystem_table s" "operation_table ?t = operation_table s" "working_directory ?t = working_directory s"
    using ht by (auto simp: held_def same_tables_def)
  have qt: "?q \<in> haddrs (dmem ?t)" "?q \<noteq> p" using q t(2,4) by auto
  obtain m where m: "rt_free ?q (dmem ?t) = Inr m" "app_ok m" "haddrs m = haddrs (dmem ?t) - {?q}" "heap_region (heap m) = heap_region (heap (dmem ?t))"
    "strs m = (strs (dmem ?t))(?q := None)" using rt_free_ok [OF t(1) qt(1)] .
  have pm: "p \<in> haddrs m" using m(3) t(2) qt(2) by auto
  obtain m' where m': "rt_free p m = Inr m'" "app_ok m'" "haddrs m' = haddrs m - {p}" "heap_region (heap m') = heap_region (heap m)"
    "strs m' = (strs m)(p := None)" using rt_free_ok [OF m(2) pm] .
  let ?w = "(set_fs i no_fs (?t\<lparr>dmem := m\<rparr>))\<lparr>dmem := m'\<rparr>"
  have "haddrs m' = haddrs (dmem s) - {?q}" using m(3) m'(3) t(2,4) by auto
  moreover have "strs m' = (strs (dmem s))(?q := None)" using m(5) m'(5) t(3,5) by (auto simp: fun_eq_iff)
  moreover have "filesystem_table ?w = (filesystem_table s)[i := no_fs]" "operation_table ?w = operation_table s" "working_directory ?w = working_directory s"
    using t(7-9) by (simp_all add: set_fs_def)
  ultimately have "removed s i ?w" using m' m(4) t(6) by (intro removedI [OF ok i]) simp_all
  then show thesis using that [of "?t\<lparr>dmem := m\<rparr>" ?w] m(1) m'(1) by (simp add: dfree_def set_fs_def)
qed

definition accepts_unmount :: "dfs_filesystem \<Rightarrow> bool" where
  "accepts_unmount e \<longleftrightarrow> (\<exists>ops g. fs_ops e = Some ops \<and> fs_unmount ops = Some g \<and> 0 \<le> g (fs_dev e))"

definition unmount_result :: "dfs \<Rightarrow> string list \<Rightarrow> int \<Rightarrow> dfs \<Rightarrow> bool" where
  "unmount_result s cs r u \<longleftrightarrow>
     (\<exists>i. r = 0 \<and> removed s i u \<and> mounted_text (dmem s) (filesystem_table s ! i) (path_text True cs) \<and> accepts_unmount (filesystem_table s ! i))
     \<or> r = - 1 \<and> clean s u"

lemma dfs_unmount_ok:
  assumes ok: "table_ok s" and f: "NUL \<notin> set f" "fits s wd (length f)" "resolve (rooted (full_path wd f)) [] (comps (full_path wd f)) = Some (True, cs)"
  shows "\<exists>r u. dfs_unmount (cstr f y) s = Inr (r, u) \<and> unmount_result s cs r u
    \<and> (r = - 1 \<longrightarrow> (\<exists>t. normalize (Some (cstr f y)) s = Inr (RT_NULL, t))
         \<or> (\<exists>e \<in> set (filesystem_table s). mounted_text (dmem s) e (path_text True cs) \<and> \<not> accepts_unmount e)
         \<or> (\<forall>e \<in> set (filesystem_table s). \<not> mounted_text (dmem s) e (path_text True cs)))"
proof -
  have ap: "app_ok (dmem s)" using ok by (simp add: table_ok_def)
  let ?f = "path_text True cs"
  obtain p t z where p: "normalize (Some (cstr f y)) s = Inr (p, t)" "p = RT_NULL \<and> clean s t \<or> held s p (cstr ?f z) t" "list_all name_ok cs"
    by (rule normalize_ok [OF ap f])
  show ?thesis
  proof (cases "p = RT_NULL")
    case True
    then show ?thesis using p clean_errno(1) by (auto simp: dfs_unmount_def held_def unmount_result_def)
  next
    case False
    then have h: "held s p (cstr ?f z) t" using p(2) by simp
    obtain v where v: "dfree p t = Inr v" "clean s v" using dfree_held [OF h] by metis
    note ot = table_ok_held(1) [OF ok h]
    have tb: "filesystem_table t = filesystem_table s" using h by (simp add: held_def same_tables_def)
    have mt: "mounted_text (dmem t) e x = mounted_text (dmem s) e x" if "e \<in> set (filesystem_table s)" for e x
      using mount_at_held_back [OF ok h that] by (simp add: mounted_text_def)
    obtain r where r: "unmount_loop (dmem t) (filesystem_table t) 0 (cstr ?f z) = Inr r" "case r of None \<Rightarrow> \<forall>e \<in> set (filesystem_table t). \<not> mounted_text (dmem t) e ?f
        | Some j \<Rightarrow> 0 \<le> j \<and> j < 0 + length (filesystem_table t) \<and> mounted_text (dmem t) (filesystem_table t ! (j - 0)) ?f"
      using unmount_loop_ok [of "filesystem_table t" "dmem t" ?f 0 z] ot path_text_no_nul [OF p(3), of True] unfolding table_ok_def by auto
    show ?thesis
    proof (cases r)
      case None
      then have "dfs_unmount (cstr f y) s = Inr (- 1, v)" using p(1) False str_of_held(1) [OF h] r(1) v(1) by (simp add: dfs_unmount_def)
      then show ?thesis using v(2) r(2) None tb mt by (auto simp: unmount_result_def)
    next
      case (Some i)
      let ?e = "filesystem_table s ! i"
      have i: "i < length (filesystem_table s)" "mounted_text (dmem s) ?e ?f" "?e \<in> set (filesystem_table s)" using r(2) Some tb mt by auto
      then obtain ops where ops: "fs_ops ?e = Some ops" "fs_path ?e \<noteq> RT_NULL" by (auto simp: mounted_text_def mount_at_def)
      obtain w x where w: "dfree (fs_path ?e) (device_call Dev_close (fs_dev ?e) t) = Inr x" "dfree p (set_fs i no_fs x) = Inr w" "removed s i w"
        by (rule unmount_removes [OF ok h i(1) ops(2)])
      have run: "dfs_unmount (cstr f y) s = (if accepts_unmount ?e then Inr (0, w) else Inr (- 1, v))"
        using p(1) False str_of_held(1) [OF h] r(1) v(1) Some tb ops w(1,2)
        by (auto simp: dfs_unmount_def Let_def accepts_unmount_def not_less split: option.splits)
      show ?thesis
      proof (cases "accepts_unmount ?e")
        case True
        then show ?thesis using run w(3) i(2) by (auto simp: unmount_result_def)
      next
        case False
        then show ?thesis using run v(2) i(2,3) by (auto simp: unmount_result_def)
      qed
    qed
  qed
qed

text \<open>Mounting on a path in its canonical form and unmounting again.\<close>

lemma entered_only:
  assumes ok: "table_ok s" and e: "entered s i dev ops cs u" and nm: "\<forall>e \<in> set (filesystem_table s). \<not> mounted_text (dmem s) e (path_text True cs)"
    and j: "mounted_text (dmem u) (filesystem_table u ! j) (path_text True cs)" "j < length (filesystem_table u)"
  shows "j = i"
proof (rule ccontr)
  assume ne: "j \<noteq> i"
  obtain p where p: "filesystem_table u = (filesystem_table s)[i := \<lparr>fs_dev = dev, fs_path = p, fs_ops = Some ops\<rparr>]" "p \<notin> haddrs (dmem s)"
    "strs (dmem u) = (strs (dmem s))(p := strs (dmem u) p)" using e by (auto simp: entered_def)
  let ?e = "filesystem_table s ! j"
  have t: "filesystem_table u ! j = ?e" "?e \<in> set (filesystem_table s)" using p(1) j(2) ne by auto
  then have "fs_path ?e \<noteq> p" using j(1) ok p(2) by (auto simp: mounted_text_def mount_at_def table_ok_def)
  then have "strs (dmem s) (fs_path ?e) = strs (dmem u) (fs_path ?e)" using fun_cong [OF p(3), of "fs_path ?e"] by simp
  then have "mounted_text (dmem s) ?e (path_text True cs)" using j(1) mount_at_mono unfolding mounted_text_def t(1) by metis
  then show False using nm t(2) by blast
qed

lemma unmount_entered:
  assumes ok: "table_ok s" and e: "entered s i dev ops cs u" and nm: "\<forall>e \<in> set (filesystem_table s). \<not> mounted_text (dmem s) e (path_text True cs)"
    and r: "removed u j w" "mounted_text (dmem u) (filesystem_table u ! j) (path_text True cs)"
  shows "j = i \<and> clean s w"
proof -
  obtain p where p: "filesystem_table u = (filesystem_table s)[i := \<lparr>fs_dev = dev, fs_path = p, fs_ops = Some ops\<rparr>]" "p \<notin> haddrs (dmem s)" "strs (dmem s) p = None"
    "haddrs (dmem u) = insert p (haddrs (dmem s))" "strs (dmem u) = (strs (dmem s))(p := strs (dmem u) p)" using e by (auto simp: entered_def)
  have i: "i < length (filesystem_table s)" "filesystem_table s ! i = no_fs" and ju: "j < length (filesystem_table u)" using e r(1) by (auto simp: entered_def removed_def)
  have "j = i" by (rule entered_only [OF ok e nm r(2) ju])
  have path: "fs_path (filesystem_table u ! i) = p" using p(1) i(1) by simp
  have "filesystem_table w = filesystem_table s" using r(1) \<open>j = i\<close> p(1) i by (simp add: removed_def) (metis list_update_id)
  moreover have "haddrs (dmem w) = haddrs (dmem s)" using r(1) \<open>j = i\<close> path p(2,4) by (auto simp: removed_def)
  moreover have "strs (dmem w) = strs (dmem s)"
  proof
    fix x show "strs (dmem w) x = strs (dmem s) x" using r(1) \<open>j = i\<close> path p(3) fun_cong [OF p(5), of x] by (auto simp: removed_def)
  qed
  ultimately show ?thesis using \<open>j = i\<close> r(1) e by (auto simp: clean_def same_tables_def removed_def entered_def table_ok_def)
qed

section \<open>Properties\<close>

text \<open>C21: the file system in charge of a path is that of the nearest mounted directory above it, and there is none exactly when no mounted
  directory lies above: components decide, not characters (a mount on \<open>/mnt/sd\<close> is not in charge of \<open>/mnt/sd0\<close>).\<close>

theorem lookup_finds_nearest_mount:
  assumes "table_ok s" and "list_all name_ok cs"
  shows "\<exists>r. dfs_filesystem_lookup (Some (cstr (path_text True cs) y)) s = Inr r
    \<and> (case r of None \<Rightarrow> \<forall>e \<in> set (filesystem_table s). \<forall>ms. mount_at (dmem s) e ms \<longrightarrow> \<not> prefix ms cs
       | Some i \<Rightarrow> i < length (filesystem_table s) \<and> (\<exists>ms. mount_at (dmem s) (filesystem_table s ! i) ms \<and> prefix ms cs
           \<and> (\<forall>e \<in> set (filesystem_table s). \<forall>ms'. mount_at (dmem s) e ms' \<longrightarrow> prefix ms' cs \<longrightarrow> prefix ms' ms)))"
proof -
  obtain r where "dfs_filesystem_lookup (Some (cstr (path_text True cs) y)) s = Inr r"
    "case r of None \<Rightarrow> unmounted (dmem s) (filesystem_table s) cs | Some i \<Rightarrow> \<exists>ms. nearest (dmem s) (filesystem_table s) cs i ms"
    using lookup_nearest [OF assms] by blast
  then show ?thesis unfolding unmounted_def nearest_def by (cases r) (simp, auto)
qed


text \<open>C19: a mount that succeeds has filled exactly one empty entry of the table with the normalised path, in a block of its own, and kept the table
  well-formed, and nothing was mounted on the path as given before. One that fails leaves table and heap as they were. Mounting on \<open>/\<close> or \<open>/dev\<close> fails
  only for the listed reasons.\<close>

theorem mount_enters_or_restores:
  assumes "table_ok s" and "ops_ok s" and "NUL \<notin> set f" and "fits s wd (length f)"
    and "resolve (rooted (full_path wd f)) [] (comps (full_path wd f)) = Some (True, cs)" and "fits s wd (length (path_text True cs))" and "NUL \<notin> set ty"
  shows "\<exists>r u. dfs_mount devs dname (cstr f y) (cstr ty x) s = Inr (r, u) \<and>
    (r = - 1 \<and> clean s u \<and> (cs = [] \<or> cs = [''dev''] \<longrightarrow> mount_refused s devs dname f y (cstr ty x))
     \<or> r = 0 \<and> (\<exists>i dev ops. entered s i dev ops cs u \<and> Some ops \<in> set (operation_table s)) \<and> (\<forall>e \<in> set (filesystem_table s). \<not> mounted_text (dmem s) e f))"
  using dfs_mount_ok [OF assms, of devs dname y x] by (simp add: mount_result_def)

text \<open>C20: unmounting undoes mounting: after a successful mount on a path in canonical form, an unmount of the same path gives back the
  table and the heap as they were before the mount; it fails only if memory for the path is short or the file system refuses.\<close>

theorem mount_unmount_roundtrip:
  assumes "table_ok s" and "ops_ok s" and "list_all name_ok cs" and "fits s wd (length (path_text True cs))" and "NUL \<notin> set ty"
    and "\<And>ops dev. Some ops \<in> set (operation_table s) \<Longrightarrow> \<exists>g. fs_unmount ops = Some g \<and> 0 \<le> g dev"
  shows "\<exists>r u. dfs_mount devs dname (cstr (path_text True cs) y) (cstr ty x) s = Inr (r, u) \<and> (r = 0 \<longrightarrow>
    (\<exists>q w. dfs_unmount (cstr (path_text True cs) y) u = Inr (q, w) \<and>
       (q = 0 \<and> clean s w \<or> q = - 1 \<and> clean u w \<and> (\<exists>t. normalize (Some (cstr (path_text True cs) y)) u = Inr (RT_NULL, t)))))"
proof -
  let ?f = "path_text True cs"
  note f = path_text_no_nul [OF assms(3), of True] and rs = resolve_canonical [OF assms(3), of wd]
  obtain r u where r: "dfs_mount devs dname (cstr ?f y) (cstr ty x) s = Inr (r, u)" "mount_result s (mount_refused s devs dname ?f y (cstr ty x)) cs ?f r u"
    using dfs_mount_ok [OF assms(1,2) f assms(4) rs assms(4,5)] by blast
  have "\<exists>q w. dfs_unmount (cstr ?f y) u = Inr (q, w) \<and> (q = 0 \<and> clean s w \<or> q = - 1 \<and> clean u w \<and> (\<exists>t. normalize (Some (cstr ?f y)) u = Inr (RT_NULL, t)))" if zero: "r = 0"
  proof -
    obtain i dev ops where e: "entered s i dev ops cs u" "Some ops \<in> set (operation_table s)" and nm: "\<forall>e \<in> set (filesystem_table s). \<not> mounted_text (dmem s) e ?f"
      using r(2) zero by (auto simp: mount_result_def)
    have u: "table_ok u" "fits u wd (length ?f)" using e(1) assms(4) by (auto simp: entered_def fits_def)
    have here: "filesystem_table u ! i \<in> set (filesystem_table u)" "mounted_text (dmem u) (filesystem_table u ! i) ?f"
      using e(1) by (auto simp: entered_def mounted_text_def set_update_memI)
    have acc: "accepts_unmount (filesystem_table u ! j)" if "mounted_text (dmem u) (filesystem_table u ! j) ?f" "j < length (filesystem_table u)" for j
    proof -
      have "j = i" using entered_only [OF assms(1) e(1) nm that] .
      then show ?thesis using e assms(6) by (auto simp: entered_def accepts_unmount_def)
    qed
    obtain q w where q: "dfs_unmount (cstr ?f y) u = Inr (q, w)" "unmount_result u cs q w" "q = - 1 \<Longrightarrow> (\<exists>t. normalize (Some (cstr ?f y)) u = Inr (RT_NULL, t))
         \<or> (\<exists>e \<in> set (filesystem_table u). mounted_text (dmem u) e ?f \<and> \<not> accepts_unmount e)"
      using dfs_unmount_ok [OF u(1) f u(2) rs, of y] here by blast
    have "q = - 1 \<Longrightarrow> \<exists>t. normalize (Some (cstr ?f y)) u = Inr (RT_NULL, t)" using q(3) acc by (metis in_set_conv_nth)
    then show ?thesis using q(1,2) unmount_entered [OF assms(1) e(1) nm] by (auto simp: unmount_result_def)
  qed
  then show ?thesis using r(1) by blast
qed

section \<open>Examples\<close>

text \<open>One registered file system, nothing mounted, no devices.\<close>

definition elm_example :: fsops where
  "elm_example = \<lparr>fs_name = cstr ''elm'' [], fs_fullpath = False, fs_open = Some (\<lambda>_ _. 0), fs_close = Some 0, fs_mount = Some (\<lambda>_. 0), fs_unmount = Some (\<lambda>_. 0), fs_mkfs = None\<rparr>"

definition dfs_example :: "small_mem \<Rightarrow> dfs" where
  "dfs_example m = \<lparr>dmem = app_example m [], operation_table = Some elm_example # replicate 15 None, filesystem_table = replicate 16 no_fs,
     working_directory = cstr ''/'' [], dfs_errno = 0, dev_calls = []\<rparr>"

definition no_devices :: devices where
  "no_devices = \<lparr>dev_find = (\<lambda>_. RT_NULL), dev_open = (\<lambda>_. 0)\<rparr>"

lemma example_unmounted: "e \<in> set (filesystem_table (dfs_example m)) \<Longrightarrow> \<not> mounted_text mm e f"
  by (auto simp: dfs_example_def mounted_text_def mount_at_def no_fs_def)

lemma example_dfs: "\<exists>m. heap_inv m [(944, False)] \<and> heap_ptr m = 4160 \<and> table_ok (dfs_example m) \<and> ops_ok (dfs_example m) \<and> (\<forall>n \<le> 100. fits (dfs_example m) ''/'' n)"
proof -
  obtain m where m: "rt_smem_init 4096 1024 = Some m" "app_ok (app_example m [])" "\<forall>q \<in> heap_region (heap (app_example m [])). q < 6000" using example_paths by blast
  have "table_ok (dfs_example m)" using m(2) by (simp add: table_ok_def dfs_example_def entry_ok_def no_fs_def)
  moreover have "\<exists>n z. fs_name elm_example = cstr n z \<and> NUL \<notin> set n" by (rule exI [of _ "''elm''"], rule exI [of _ "[]"]) (simp add: elm_example_def)
  then have "ops_ok (dfs_example m)" by (auto simp: ops_ok_def dfs_example_def no_fs_def)
  moreover have "fits (dfs_example m) ''/'' n" if "n \<le> 100" for n using m(3) that by (auto simp: fits_def dfs_example_def)
  moreover have "heap_inv m [(944, False)]" "heap_ptr m = 4160" using m(1) example_heap by auto
  ultimately show ?thesis by blast
qed

lemma example_normalized:
  assumes h: "heap_inv m [(944, False)]" "heap_ptr m = 4160" and ok: "table_ok (dfs_example m)"
  shows "normalize (Some (cstr ''/'' [])) (dfs_example m) \<noteq> Inr (RT_NULL, t)"
proof -
  let ?s = "app_example m []"
  have ap: "app_ok ?s" using ok by (simp add: table_ok_def dfs_example_def)
  have "abs_alloc (alloc_size 2) 0 [(944, False)] = Some (0, [(28, True), (944, False)])" by (simp add: alloc_size_def RT_ALIGN4_def)
  then obtain m' where "rt_smem_alloc ''scan'' m 2 = Inr (4176, m')" using rt_smem_alloc_refines [OF h(1), of 2 "''scan''"] h(2) by auto
  then have al: "rt_malloc 2 ?s = Inr (4176, ?s\<lparr>heap := m'\<rparr>)" by (simp add: rt_malloc_def app_example_def)
  obtain p s1 where p: "rt_strdup (Some (cstr ''/'' [])) ?s = Inr (p, s1)" "strs s1 = (if p = RT_NULL then strs ?s else (strs ?s)(p \<mapsto> cstr ''/'' []))"
    by (rule rt_strdup_allocated [OF ap, of "''/''" "[]"]) simp_all
  have "rt_strlen (cstr ''/'' []) = Inr 1" using rt_strlen_cstr [of "''/''" "[]"] by simp
  then have "p = 4176" using p(1) al by (auto simp: rt_strdup_def Let_def numeral_2_eq_2 [symmetric] cbind_def split: sum.splits)
  then have b: "path_block (cstr ''/'' []) (cstr ''/'' []) ?s = Inr (p, s1)" "p \<noteq> RT_NULL" "strs s1 p = Some (cstr ''/'' [])"
    using p by (simp_all add: path_block_def rd_def)
  have "resolve (rooted ''/'') [] (comps ''/'') = Some (True, [])" by code_simp
  then have "\<exists>s'. dfs_normalize_path (cstr ''/'' []) None (Some (cstr ''/'' [])) ?s = Inr (p, s')"
    using normalize_block [OF b, where dirp = None and wd = "cstr ''/'' []"] by auto
  then show ?thesis using b(2) by (auto simp: normalize_def dfs_example_def)
qed

lemma example_not_refused:
  assumes "heap_inv m [(944, False)]" "heap_ptr m = 4160" "table_ok (dfs_example m)"
  shows "\<not> mount_refused (dfs_example m) no_devices None ''/'' [] (cstr ''elm'' [])"
proof -
  have e: "\<exists>r. rt_strcmp (cstr ''elm'' []) (cstr ''elm'' []) = Inr r \<and> r = 0" using rt_strcmp_cstr [of "''elm''" "''elm''" "[]" "[]"] by auto
  have o: "ops_loop (operation_table (dfs_example m)) (cstr ''elm'' []) = Inr (Some elm_example)" using e by (auto simp: dfs_example_def elm_example_def)
  have "\<not> enter_refused (dfs_example m) no_devices RT_NULL elm_example ''/''"
    using example_unmounted by (auto simp: enter_refused_def elm_example_def dfs_example_def)
  then have "\<not> path_refused (dfs_example m) no_devices RT_NULL elm_example ''/'' []" using example_normalized [OF assms] by (auto simp: path_refused_def)
  moreover have "fs_mount elm_example \<noteq> None" by (simp add: elm_example_def)
  ultimately show ?thesis using o by (auto simp: mount_refused_def)
qed

lemma example_root: "resolve (rooted (full_path ''/'' ''/'')) [] (comps (full_path ''/'' ''/'')) = Some (True, [])" "path_text True [] = ''/''"
  by code_simp+

lemma example_mounted: "\<exists>u i. table_ok u \<and> (\<forall>n \<le> 100. fits u ''/'' n) \<and> i < length (filesystem_table u) \<and> mount_at (dmem u) (filesystem_table u ! i) []"
proof -
  obtain m where m: "heap_inv m [(944, False)]" "heap_ptr m = 4160" "table_ok (dfs_example m)" "ops_ok (dfs_example m)" "\<And>n. n \<le> 100 \<Longrightarrow> fits (dfs_example m) ''/'' n"
    using example_dfs by blast
  obtain r u where r: "mount_result (dfs_example m) (mount_refused (dfs_example m) no_devices None ''/'' [] (cstr ''elm'' [])) [] ''/'' r u"
    using dfs_mount_ok [OF m(3,4) _ m(5) example_root(1) m(5), of "''elm''" no_devices None "[]" "[]"] example_root(2) by auto
  then obtain i dev ops where e: "entered (dfs_example m) i dev ops [] u" using example_not_refused [OF m(1-3)] by (auto simp: mount_result_def)
  then have "fits u ''/'' n" if "n \<le> 100" for n using m(5) [OF that] by (auto simp: entered_def fits_def)
  then show ?thesis using e by (intro exI [of _ u] exI [of _ i]) (auto simp: entered_def)
qed

theorem lookup_finds_nearest_mount_witness:
  "\<exists>s i. table_ok s \<and> dfs_filesystem_lookup (Some (cstr ''/a.png'' [])) s = Inr (Some i)"
proof -
  obtain u i where u: "table_ok u" "i < length (filesystem_table u)" "mount_at (dmem u) (filesystem_table u ! i) []" using example_mounted by blast
  have n: "list_all name_ok [''a.png'']" "path_text True [''a.png''] = ''/a.png''" by code_simp+
  obtain r where r: "dfs_filesystem_lookup (Some (cstr ''/a.png'' [])) u = Inr r"
    "r = None \<Longrightarrow> \<forall>e \<in> set (filesystem_table u). \<forall>ms. mount_at (dmem u) e ms \<longrightarrow> \<not> prefix ms [''a.png'']"
    using lookup_finds_nearest_mount [OF u(1) n(1), of "[]"] unfolding n(2) by (metis (no_types, lifting) option.simps(4))
  have "r \<noteq> None" using r(2) u(2,3) nth_mem by fastforce
  then show ?thesis using r(1) u(1) by auto
qed


theorem mount_enters_or_restores_witness:
  "\<exists>s i dev ops u. table_ok s \<and> dfs_mount no_devices None (cstr ''/'' []) (cstr ''elm'' []) s = Inr (0, u) \<and> entered s i dev ops [] u"
proof -
  obtain m where m: "heap_inv m [(944, False)]" "heap_ptr m = 4160" "table_ok (dfs_example m)" "ops_ok (dfs_example m)" "\<And>n. n \<le> 100 \<Longrightarrow> fits (dfs_example m) ''/'' n"
    using example_dfs by blast
  have "NUL \<notin> set ''/''" "NUL \<notin> set ''elm''" "fits (dfs_example m) ''/'' (length ''/'')" "fits (dfs_example m) ''/'' (length (path_text True []))"
    using m(5) by (auto simp: path_text_def)
  then show ?thesis
    using mount_enters_or_restores [OF m(3,4) _ _ example_root(1), of "''elm''" no_devices None "[]" "[]"] example_not_refused [OF m(1-3)] m(3) by blast
qed

theorem mount_unmount_roundtrip_witness:
  "\<exists>s u q w. table_ok s \<and> dfs_mount no_devices None (cstr ''/'' []) (cstr ''elm'' []) s = Inr (0, u) \<and> dfs_unmount (cstr ''/'' []) u = Inr (q, w) \<and> (q = 0 \<longrightarrow> clean s w)"
proof -
  obtain m where m: "heap_inv m [(944, False)]" "heap_ptr m = 4160" "table_ok (dfs_example m)" "ops_ok (dfs_example m)" "\<And>n. n \<le> 100 \<Longrightarrow> fits (dfs_example m) ''/'' n"
    using example_dfs by blast
  let ?s = "dfs_example m"
  have f: "NUL \<notin> set ''/''" "NUL \<notin> set ''elm''" "fits ?s ''/'' (length ''/'')" "fits ?s ''/'' (length (path_text True []))" using m(5) by (auto simp: path_text_def)
  have un: "\<exists>g. fs_unmount ops = Some g \<and> 0 \<le> g dev" if "Some ops \<in> set (operation_table ?s)" for ops dev
    using that by (auto simp: dfs_example_def elm_example_def)
  obtain r u where r: "dfs_mount no_devices None (cstr ''/'' []) (cstr ''elm'' []) ?s = Inr (r, u)" "mount_result ?s (mount_refused ?s no_devices None ''/'' [] (cstr ''elm'' [])) [] ''/'' r u"
    using dfs_mount_ok [OF m(3,4) f(1,3) example_root(1) f(4,2)] by blast
  have "r = 0" using r(2) example_not_refused [OF m(1-3)] by (auto simp: mount_result_def)
  then have "\<exists>q w. dfs_unmount (cstr ''/'' []) u = Inr (q, w) \<and> (q = 0 \<longrightarrow> clean ?s w)"
    using mount_unmount_roundtrip [OF m(3,4) _ f(4,2) un, of no_devices None "[]" "[]"] r(1) unfolding example_root(2) by auto
  then show ?thesis using r(1) \<open>r = 0\<close> m(3) by blast
qed

end
