(* ===== verification/Mount_Init.thy ===== *)
theory Mount_Init
  imports Dfs_Fs
begin

text \<open>
  The start-up of the file systems, \<^verbatim>\<open>applications/mnt.c\<close>: \<open>mkdir_p\<close>, which makes a directory with all directories above it, and
  \<open>filesystem_init\<close>, which formats the memory disks, mounts the first one on the root and makes the mount points of the others.
  The calls \<open>stat\<close> and \<open>mkdir\<close> of the file system below are parameters. The calls that prepare the flash partitions
  and yaffs, which are third-party packages with a state of their own and without an effect on the result, are left out.
\<close>

section \<open>Operations\<close>

text \<open>What \<open>stat\<close> tells: it fails, or the entry is a directory or something else.\<close>

datatype entry = NoEntry | IsDir | NotDir

record 'f posix =
  px_stat :: "string \<Rightarrow> 'f \<Rightarrow> entry"
  px_mkdir :: "string \<Rightarrow> nat \<Rightarrow> 'f \<Rightarrow> int \<times> 'f"

text \<open>The text a character pointer stands for.\<close>

definition c_text :: "char list \<Rightarrow> string cres" where
  "c_text a = cbind (rt_strlen a) (\<lambda>n. Inr (take n a))"

text \<open>The loop of \<open>mkdir_p\<close>: \<open>p\<close> is the distance from the start of the block \<open>a\<close>. \<open>False\<close> when it is left early.\<close>

function mkdir_loop :: "'f posix \<Rightarrow> nat \<Rightarrow> nat \<Rightarrow> char list \<Rightarrow> nat \<Rightarrow> 'f \<Rightarrow> (bool \<times> 'f) cres" where
  "mkdir_loop px mode len a p f =
     (if \<not> p \<le> len then Inr (True, f)
      else cbind (rd a p) (\<lambda>c.
        if c = CHR ''/'' \<or> p = len
        then cbind (wr a p NUL) (\<lambda>a. cbind (c_text a) (\<lambda>t.
          let (go, f) = (case px_stat px t f of
                NoEntry \<Rightarrow> let (r, f) = px_mkdir px t mode f in (\<not> r < 0, f)
              | IsDir \<Rightarrow> (True, f)
              | NotDir \<Rightarrow> (False, f))
          in if \<not> go then Inr (False, f)
             else cbind (if p \<noteq> len then wr a p (CHR ''/'') else Inr a) (\<lambda>a. mkdir_loop px mode len a (p + 1) f)))
        else mkdir_loop px mode len a (p + 1) f))"
  by pat_completeness auto

termination
  by (relation "measure (\<lambda>(px, mode, len, a, p, f). Suc len - p)") auto

declare mkdir_loop.simps [simp del]

definition mkdir_p :: "'f posix \<Rightarrow> char list option \<Rightarrow> nat \<Rightarrow> app_mem \<Rightarrow> 'f \<Rightarrow> (int \<times> app_mem \<times> 'f) cres" where
  "mkdir_p px dir mode m f = (case dir of
     None \<Rightarrow> Inr (- 1, m, f)
   | Some d \<Rightarrow>
       cbind (rt_strlen d) (\<lambda>len. cbind (rt_strdup (Some d) m) (\<lambda>(tmp, m). cbind (str_at m tmp) (\<lambda>b. cbind (deref b) (\<lambda>a.
       cbind (if len = 0 then Inl OutOfBounds else rd a (len - 1)) (\<lambda>c.
       cbind (if c = CHR ''/'' then cbind (wr a (len - 1) NUL) (\<lambda>a. Inr (a, len - 1)) else Inr (a, len)) (\<lambda>(a, len).
       cbind (c_text a) (\<lambda>t.
       cbind (if px_stat px t f = IsDir then Inr (True, f) else mkdir_loop px mode len a 1 f) (\<lambda>(ok, f).
       cbind (if tmp \<noteq> RT_NULL then rt_free tmp m else Inr m) (\<lambda>m. Inr (if ok then 0 else - 1, m, f)))))))))))"

text \<open>The calls of \<open>filesystem_init\<close> that make directories, whose results are ignored.\<close>

fun mkdir_all :: "'f posix \<Rightarrow> nat \<Rightarrow> string list \<Rightarrow> app_mem \<Rightarrow> 'f \<Rightarrow> (app_mem \<times> 'f) cres" where
  "mkdir_all px mode [] m f = Inr (m, f)"
| "mkdir_all px mode (t # ts) m f = cbind (mkdir_p px (Some (cstr t [])) mode m f) (\<lambda>(_, m, f). mkdir_all px mode ts m f)"

definition init_dirs :: "string list" where
  "init_dirs = [''/mnt'', ''/cache'', ''/download'', ''/mnt/ram_usbd'', ''/mnt/filesystem'', ''/mnt/fminand'', ''/mnt/udisk'']"

definition filesystem_init :: "devices \<Rightarrow> 'f posix \<Rightarrow> dfs \<Rightarrow> 'f \<Rightarrow> (int \<times> dfs \<times> 'f) cres" where
  "filesystem_init devs px s f =
     (if dev_find devs (cstr ''ramdisk0'' []) = RT_NULL then Inr (1, s, f)
      else cbind (dfs_mkfs devs (cstr ''elm'' []) (Some (cstr ''ramdisk0'' [])) s) (\<lambda>(result, s). cbind (rt_assert (result = 0)) (\<lambda>_.
           cbind (dfs_mount devs (Some (cstr ''ramdisk0'' [])) (cstr ''/'' []) (cstr ''elm'' []) s) (\<lambda>(r, s).
           if r \<noteq> 0 then Inr (- result, s, f)
           else cbind (mkdir_all px 0x777 init_dirs (dmem s) f) (\<lambda>(m, f).
                let s = s\<lparr>dmem := m\<rparr>
                in if dev_find devs (cstr ''ramdisk1'' []) = RT_NULL then Inr (- result, s, f)
                   else cbind (dfs_mkfs devs (cstr ''elm'' []) (Some (cstr ''ramdisk1'' [])) s) (\<lambda>(result, s). cbind (rt_assert (result = 0)) (\<lambda>_.
                        Inr (- result, s, f))))))))"

section \<open>The directories on the way\<close>

text \<open>What the loop does, on the list of paths it asks for.\<close>

fun ensure_dirs :: "'f posix \<Rightarrow> nat \<Rightarrow> string list \<Rightarrow> 'f \<Rightarrow> bool \<times> 'f" where
  "ensure_dirs px mode [] f = (True, f)"
| "ensure_dirs px mode (t # ts) f = (case px_stat px t f of
     NoEntry \<Rightarrow> let (r, f) = px_mkdir px t mode f in if r < 0 then (False, f) else ensure_dirs px mode ts f
   | IsDir \<Rightarrow> ensure_dirs px mode ts f
   | NotDir \<Rightarrow> (False, f))"

definition cuts :: "string \<Rightarrow> nat \<Rightarrow> nat list" where
  "cuts t p = filter (\<lambda>i. i = length t \<or> t ! i = CHR ''/'') [p..<Suc (length t)]"

lemma cuts_step: "p \<le> length t \<Longrightarrow> cuts t p = (if p = length t \<or> t ! p = CHR ''/'' then p # cuts t (p + 1) else cuts t (p + 1))"
  by (auto simp: cuts_def upt_rec [of p])

lemma cuts_done: "length t < p \<Longrightarrow> cuts t p = []"
  by (simp add: cuts_def)

lemma c_text_cut: "NUL \<notin> set t \<Longrightarrow> p \<le> length t \<Longrightarrow> c_text ((cstr t z)[p := NUL]) = Inr (take p t)"
proof -
  assume a: "NUL \<notin> set t" "p \<le> length t"
  have "(cstr t z)[p := NUL] = cstr (take p t) (drop (Suc p) (cstr t z))"
    using a(2) by (simp add: cstr_def upd_conv_take_nth_drop)
  moreover have "NUL \<notin> set (take p t)" using a(1) by (auto dest: in_set_takeD)
  ultimately show ?thesis using a(2) by (simp add: c_text_def rt_strlen_cstr) (simp add: cstr_def)
qed

lemma mkdir_loop_ensures:
  assumes "NUL \<notin> set t"
  shows "mkdir_loop px mode (length t) (cstr t z) p f = Inr (ensure_dirs px mode (map (\<lambda>i. take i t) (cuts t p)) f)"
proof (induction "Suc (length t) - p" arbitrary: p f)
  case 0
  then show ?case by (subst mkdir_loop.simps) (simp add: cuts_done)
next
  case (Suc k)
  then have p: "p \<le> length t" by simp
  have IH: "mkdir_loop px mode (length t) (cstr t z) (p + 1) f = Inr (ensure_dirs px mode (map (\<lambda>i. take i t) (cuts t (p + 1))) f)" for f
    by (rule Suc.hyps(1)) (use Suc.hyps(2) in simp)
  have l: "p < length (cstr t z)" using p by (simp add: cstr_def)
  have c: "cstr t z ! p = (if p = length t then NUL else t ! p)" using p by (auto simp: cstr_def nth_append)
  have undo: "p < length t \<Longrightarrow> t ! p = CHR ''/'' \<Longrightarrow> (cstr t z)[p := NUL, p := CHR ''/''] = cstr t z" using c by (simp add: list_update_same_conv l)
  have stop: "mkdir_loop px mode (length t) a (p + 1) f = Inr (True, f)" if "p = length t" for a f by (subst mkdir_loop.simps) (simp add: that)
  show ?case
  proof (cases "p = length t \<or> t ! p = CHR ''/''")
    case True
    then show ?thesis
      using IH p l c undo stop cuts_done [of t "p + 1"]
      by (subst mkdir_loop.simps) (auto simp: cuts_step [OF p] c_text_cut [OF assms p] Let_def split: entry.splits prod.splits)
  next
    case False
    then show ?thesis using IH p l c by (subst mkdir_loop.simps) (simp add: cuts_step [OF p])
  qed
qed

text \<open>On a canonical path these are the directories from the top down to the path itself.\<close>

definition ancestors :: "string list \<Rightarrow> string list" where
  "ancestors cs = map (\<lambda>k. path_text True (take k cs)) [1..<Suc (length cs)]"

lemma upt_split: "a \<le> b \<Longrightarrow> b < n \<Longrightarrow> [a..<n] = [a..<b] @ b # [Suc b..<n]"
  using upt_add_eq_append [of a b "n - b"] upt_conv_Cons [of b n] by simp

lemma cuts_none: "CHR ''/'' \<notin> set c \<Longrightarrow> filter (\<lambda>i. i = length (u @ c @ v) \<or> (u @ c @ v) ! i = CHR ''/'') [length u..<length u + length c] = []"
  by (auto simp: filter_empty_conv nth_append) (metis add_diff_inverse_nat linorder_not_le nat_add_left_cancel_less nth_mem)

lemma cuts_join:
  assumes "list_all name_ok cs" "cs \<noteq> []"
  shows "map (\<lambda>i. take i (u @ join_names cs)) (cuts (u @ join_names cs) (length u)) = map (\<lambda>k. u @ join_names (take k cs)) [1..<Suc (length cs)]"
  using assms
proof (induction cs arbitrary: u rule: join_names.induct)
  case (2 c)
  then have c: "c \<noteq> []" "CHR ''/'' \<notin> set c" by (auto simp: name_ok_def)
  have "[length u..<Suc (length u + length c)] = [length u..<length u + length c] @ [length u + length c]" by simp
  then have "cuts (u @ c) (length u) = [length u + length c]" using cuts_none [OF c(2), of u "[]"] by (simp add: cuts_def)
  then show ?case by simp
next
  case (3 c c' cs)
  let ?j = "join_names (c' # cs)" and ?u = "u @ c @ ''/''"
  have c: "c \<noteq> []" "CHR ''/'' \<notin> set c" and cs: "list_all name_ok (c' # cs)" using 3(2) name_ok_def [of c] by simp_all
  have t: "u @ join_names (c # c' # cs) = ?u @ ?j" by simp
  have "[length u..<Suc (length (?u @ ?j))] = [length u..<length u + length c] @ (length u + length c) # [length ?u..<Suc (length (?u @ ?j))]"
    using upt_split [of "length u" "length u + length c" "Suc (length (?u @ ?j))"] by simp
  moreover have "(?u @ ?j) ! (length u + length c) = CHR ''/''" by (simp add: nth_append)
  ultimately have "cuts (?u @ ?j) (length u) = (length u + length c) # cuts (?u @ ?j) (length ?u)"
    using cuts_none [OF c(2), of u "''/'' @ ?j"] by (simp add: cuts_def)
  then have "map (\<lambda>i. take i (?u @ ?j)) (cuts (?u @ ?j) (length u)) = (u @ c) # map (\<lambda>i. take i (?u @ ?j)) (cuts (?u @ ?j) (length ?u))" by simp
  also have "map (\<lambda>i. take i (?u @ ?j)) (cuts (?u @ ?j) (length ?u)) = map (\<lambda>k. ?u @ join_names (take k (c' # cs))) [1..<Suc (length (c' # cs))]"
    by (rule 3(1)) (use cs in simp_all)
  also have "\<dots> = map (\<lambda>k. u @ join_names (take (Suc k) (c # c' # cs))) [1..<Suc (length (c' # cs))]"
    by (rule map_cong [OF refl]) (auto simp: take_Cons')
  also have "(u @ c) # \<dots> = map (\<lambda>k. u @ join_names (take k (c # c' # cs))) (1 # map Suc [1..<Suc (length (c' # cs))])" by (simp only: list.map map_map comp_def) simp
  also have "1 # map Suc [1..<Suc (length (c' # cs))] = [1..<Suc (length (c # c' # cs))]" by (subst (2) upt_conv_Cons) (simp_all add: map_Suc_upt del: upt_Suc)
  finally show ?case unfolding t .
qed simp

lemma cuts_path: "list_all name_ok cs \<Longrightarrow> cs \<noteq> [] \<Longrightarrow> map (\<lambda>i. take i (path_text True cs)) (cuts (path_text True cs) 1) = ancestors cs"
  using cuts_join [of cs "''/''"] by (simp add: path_text_def ancestors_def)

text \<open>The directory with or without a slash at its end.\<close>

definition dir_text :: "string list \<Rightarrow> bool \<Rightarrow> string" where
  "dir_text cs slash = path_text True cs @ (if slash then ''/'' else [])"

text \<open>\<open>mkdir_p\<close> leaves no block behind; it faults when there is no memory for its copy of the path.\<close>

definition mkdir_spec :: "'f posix \<Rightarrow> nat \<Rightarrow> string list \<Rightarrow> 'f \<Rightarrow> bool \<times> 'f" where
  "mkdir_spec px mode cs f = (if px_stat px (path_text True cs) f = IsDir then (True, f) else ensure_dirs px mode (ancestors cs) f)"

definition mem_restored :: "app_mem \<Rightarrow> app_mem \<Rightarrow> bool" where
  "mem_restored m m' \<longleftrightarrow> app_ok m' \<and> haddrs m' = haddrs m \<and> strs m' = strs m \<and> heap_region (heap m') = heap_region (heap m)"

lemma trailing_slash:
  assumes "list_all name_ok cs" "cs \<noteq> []"
  shows "\<exists>y. cbind (rd (cstr (dir_text cs slash) []) (length (dir_text cs slash) - 1)) (\<lambda>c.
      if c = CHR ''/'' then cbind (wr (cstr (dir_text cs slash) []) (length (dir_text cs slash) - 1) NUL) (\<lambda>a. Inr (a, length (dir_text cs slash) - 1))
      else Inr (cstr (dir_text cs slash) [], length (dir_text cs slash))) = Inr (cstr (path_text True cs) y, length (path_text True cs))"
proof -
  let ?t = "path_text True cs"
  note e = path_text_end(1,2) [OF assms, of True]
  show ?thesis
  proof (cases slash)
    case True
    then have "rd (cstr (dir_text cs slash) []) (length (dir_text cs slash) - 1) = Inr (CHR ''/'')"
      "wr (cstr (dir_text cs slash) []) (length (dir_text cs slash) - 1) NUL = Inr (cstr ?t [NUL])"
      by (simp_all add: dir_text_def rd_def wr_def cstr_def nth_append list_update_append)
    then show ?thesis using True by (auto simp: dir_text_def)
  next
    case False
    then have "rd (cstr (dir_text cs slash) []) (length (dir_text cs slash) - 1) = Inr (last ?t)"
      using e(1) by (simp add: dir_text_def rd_def cstr_def nth_append last_conv_nth)
    then show ?thesis using e(2) False by (auto simp: dir_text_def)
  qed
qed

lemma c_text_cstr: "NUL \<notin> set t \<Longrightarrow> c_text (cstr t z) = Inr t"
  by (simp add: c_text_def rt_strlen_cstr)

lemma mkdir_p_ok:
  fixes z cs slash
  defines "d \<equiv> cstr (dir_text cs slash) z"
  assumes "app_ok m" "list_all name_ok cs" "cs \<noteq> []" "length (dir_text cs slash) + 1 \<le> 2 ^ 32 - 4"
  shows "(\<exists>m'. rt_strdup (Some d) m = Inr (RT_NULL, m')) \<and> mkdir_p px (Some d) mode m f = Inl NullDeref
    \<or> (\<exists>m'. mkdir_p px (Some d) mode m f = Inr (if fst (mkdir_spec px mode cs f) then 0 else - 1, m', snd (mkdir_spec px mode cs f)) \<and> mem_restored m m')"
proof -
  let ?t = "path_text True cs" and ?d = "dir_text cs slash"
  have n: "NUL \<notin> set ?t" "NUL \<notin> set ?d" using path_text_no_nul [OF assms(3)] by (auto simp: dir_text_def)
  have len: "rt_strlen d = Inr (length ?d)" unfolding d_def by (rule rt_strlen_cstr [OF n(2)])
  obtain p m1 where p: "rt_strdup (Some d) m = Inr (p, m1)" "allocated m p m1"
    "strs m1 = (if p = RT_NULL then strs m else (strs m)(p \<mapsto> cstr ?d []))"
    unfolding d_def by (rule rt_strdup_allocated [OF assms(2) n(2) assms(5), of z])
  show ?thesis
  proof (cases "p = RT_NULL")
    case True
    then show ?thesis using p len by (auto simp: mkdir_p_def str_at_def)
  next
    case False
    have al: "app_ok m1" "p \<in> haddrs m1" "p \<notin> haddrs m" "haddrs m1 - {p} = haddrs m" "strs m p = None" "heap_region (heap m1) = heap_region (heap m)"
      using p(2) False by (auto simp: allocated_def objs_def)
    obtain m2 where m2: "rt_free p m1 = Inr m2" "app_ok m2" "haddrs m2 = haddrs m1 - {p}" "heap_region (heap m2) = heap_region (heap m1)" "strs m2 = (strs m1)(p := None)"
      using rt_free_ok [OF al(1,2)] .
    have "strs m2 = strs m" using m2(5) p(3) False al(5) by auto
    then have m3: "mem_restored m m2" using m2 al by (simp add: mem_restored_def)
    have pos: "length ?d \<noteq> 0" by (simp add: dir_text_def path_text_def)
    obtain y where cut: "cbind (rd (cstr ?d []) (length ?d - 1)) (\<lambda>c. if c = CHR ''/'' then cbind (wr (cstr ?d []) (length ?d - 1) NUL) (\<lambda>a. Inr (a, length ?d - 1)) else Inr (cstr ?d [], length ?d))
        = Inr (cstr ?t y, length ?t)" using trailing_slash [OF assms(3,4)] by metis
    let ?r = "if px_stat px ?t f = IsDir then Inr (True, f) else mkdir_loop px mode (length ?t) (cstr ?t y) 1 f"
    have "str_at m1 p = Inr (Some (cstr ?d []))" using p(3) False by (simp add: str_at_def)
    then have "mkdir_p px (Some d) mode m f = cbind (cbind (rd (cstr ?d []) (length ?d - 1)) (\<lambda>c.
        if c = CHR ''/'' then cbind (wr (cstr ?d []) (length ?d - 1) NUL) (\<lambda>a. Inr (a, length ?d - 1)) else Inr (cstr ?d [], length ?d))) (\<lambda>(a, len).
          cbind (c_text a) (\<lambda>t. cbind (if px_stat px t f = IsDir then Inr (True, f) else mkdir_loop px mode len a 1 f) (\<lambda>(ok, f). Inr (if ok then 0 else - 1, m2, f))))"
      using len p(1) pos False m2(1) by (simp add: mkdir_p_def cbind_assoc)
    then have "mkdir_p px (Some d) mode m f = cbind ?r (\<lambda>(ok, f). Inr (if ok then 0 else - 1, m2, f))"
      unfolding cut by (simp add: c_text_cstr [OF n(1)])
    moreover have "?r = Inr (mkdir_spec px mode cs f)" using mkdir_loop_ensures [OF n(1), of px mode y 1 f] cuts_path [OF assms(3,4)] by (simp add: mkdir_spec_def)
    ultimately show ?thesis using m3 by (simp add: case_prod_beta)
  qed
qed

section \<open>The tree of directories\<close>

text \<open>What \<open>mkdir\<close> promises: it changes at most the entry of its path, which is a directory after a success and as it was after a failure.\<close>

definition mkdir_law :: "'f posix \<Rightarrow> nat \<Rightarrow> bool" where
  "mkdir_law px mode \<longleftrightarrow> (\<forall>t f. (\<forall>t'. t' \<noteq> t \<longrightarrow> px_stat px t' (snd (px_mkdir px t mode f)) = px_stat px t' f)
     \<and> px_stat px t (snd (px_mkdir px t mode f)) = (if fst (px_mkdir px t mode f) < 0 then px_stat px t f else IsDir))"

lemma mkdir_lawD: "mkdir_law px mode \<Longrightarrow> px_stat px t' (snd (px_mkdir px t mode f)) = (if t' = t \<and> \<not> fst (px_mkdir px t mode f) < 0 then IsDir else px_stat px t' f)"
  unfolding mkdir_law_def by metis

text \<open>Entries other than missing ones on the list stay as they are, missing ones become directories or stay missing.\<close>

lemma ensure_dirs_frame:
  assumes "mkdir_law px mode"
  shows "px_stat px t (snd (ensure_dirs px mode ts f)) = px_stat px t f \<or> t \<in> set ts \<and> px_stat px t f = NoEntry \<and> px_stat px t (snd (ensure_dirs px mode ts f)) = IsDir"
proof (induction ts arbitrary: f)
  case (Cons u ts)
  have "px_stat px t (snd (px_mkdir px u mode f)) = (if t = u \<and> \<not> fst (px_mkdir px u mode f) < 0 then IsDir else px_stat px t f)" by (rule mkdir_lawD [OF assms])
  then show ?case using Cons [of f] Cons [of "snd (px_mkdir px u mode f)"] by (auto simp: case_prod_beta Let_def split: entry.splits if_splits)
qed simp

lemma ensure_dirs_done:
  assumes "mkdir_law px mode"
  shows "fst (ensure_dirs px mode ts f) \<longleftrightarrow> (\<forall>t \<in> set ts. px_stat px t (snd (ensure_dirs px mode ts f)) = IsDir)"
proof (induction ts arbitrary: f)
  case (Cons u ts)
  let ?f = "snd (px_mkdir px u mode f)"
  have keep: "px_stat px u g = IsDir \<Longrightarrow> px_stat px u (snd (ensure_dirs px mode ts g)) = IsDir" for g using ensure_dirs_frame [OF assms, of u ts g] by auto
  have "px_stat px u ?f = (if fst (px_mkdir px u mode f) < 0 then px_stat px u f else IsDir)" using mkdir_lawD [OF assms, of u u f] by simp
  then show ?case using Cons [of f] Cons [of ?f] keep [of f] keep [of ?f] by (auto simp: case_prod_beta Let_def split: entry.splits)
qed simp

lemma ancestors_last: "cs \<noteq> [] \<Longrightarrow> path_text True cs \<in> set (ancestors cs)"
  unfolding ancestors_def set_map by (rule image_eqI [of _ _ "length cs"]) (auto simp: Suc_le_eq)

lemma ensure_dirs_append: "ensure_dirs px mode (ts @ us) f = (if fst (ensure_dirs px mode ts f) then ensure_dirs px mode us (snd (ensure_dirs px mode ts f)) else ensure_dirs px mode ts f)"
  by (induction ts arbitrary: f) (auto simp: Let_def split: entry.splits prod.splits)

lemma ancestors_snoc: "ancestors (cs @ [c]) = ancestors cs @ [path_text True (cs @ [c])]"
  by (auto simp: ancestors_def)

lemma not_above_itself: "list_all name_ok (cs @ [c]) \<Longrightarrow> path_text True (cs @ [c]) \<notin> set (ancestors cs)"
proof
  assume a: "list_all name_ok (cs @ [c])" "path_text True (cs @ [c]) \<in> set (ancestors cs)"
  then obtain k where k: "path_text True (cs @ [c]) = path_text True (take k cs)" by (auto simp: ancestors_def)
  have "strict_prefix (take k cs) (cs @ [c])" by (rule strict_prefixI) (auto simp: take_is_prefix dest: arg_cong [of _ _ length])
  then show False using path_text_mono [OF _ a(1)] k by fastforce
qed

text \<open>The directory is there in the end exactly when \<open>mkdir_p\<close> succeeds.\<close>

lemma mkdir_spec_done:
  assumes law: "mkdir_law px mode" and cs: "list_all name_ok cs" "cs \<noteq> []"
  shows "fst (mkdir_spec px mode cs f) \<longleftrightarrow> px_stat px (path_text True cs) (snd (mkdir_spec px mode cs f)) = IsDir"
proof (cases "px_stat px (path_text True cs) f = IsDir")
  case False
  obtain ds c where d: "cs = ds @ [c]" using cs(2) by (cases cs rule: rev_cases) auto
  let ?e = "ensure_dirs px mode (ancestors ds) f"
  have "px_stat px (path_text True cs) (snd ?e) = px_stat px (path_text True cs) f"
    using ensure_dirs_frame [OF law, of "path_text True cs" "ancestors ds" f] not_above_itself [of ds c] cs(1) d by auto
  moreover have "fst (ensure_dirs px mode [path_text True cs] g) \<longleftrightarrow> px_stat px (path_text True cs) (snd (ensure_dirs px mode [path_text True cs] g)) = IsDir" for g
    using ensure_dirs_done [OF law, of "[path_text True cs]" g] by simp
  moreover have "ensure_dirs px mode (ancestors cs) f = (if fst ?e then ensure_dirs px mode [path_text True cs] (snd ?e) else ?e)"
    unfolding d ancestors_snoc by (rule ensure_dirs_append)
  ultimately show ?thesis using False unfolding mkdir_spec_def if_not_P [OF False]
    by (cases "fst (ensure_dirs px mode (ancestors ds) f)") (simp_all only: if_True if_False simp_thms)
qed (simp add: mkdir_spec_def)

lemma mkdir_spec_frame:
  assumes "mkdir_law px mode"
  shows "px_stat px t (snd (mkdir_spec px mode cs f)) = px_stat px t f
    \<or> t \<in> set (ancestors cs) \<and> px_stat px t f = NoEntry \<and> px_stat px t (snd (mkdir_spec px mode cs f)) = IsDir"
  using ensure_dirs_frame [OF assms] by (simp add: mkdir_spec_def)

text \<open>Directories are made below existing ones as long as there is room.\<close>

definition room_law :: "'f posix \<Rightarrow> nat \<Rightarrow> bool" where
  "room_law px mode \<longleftrightarrow> (\<forall>cs c f. px_stat px (path_text True cs) f = IsDir \<longrightarrow> px_stat px (path_text True (cs @ [c])) f = NoEntry
     \<longrightarrow> 0 \<le> fst (px_mkdir px (path_text True (cs @ [c])) mode f))"

lemma ensure_ancestors:
  assumes law: "mkdir_law px mode" "room_law px mode" and root: "px_stat px (path_text True []) f = IsDir" and free: "\<forall>t \<in> set (ancestors cs). px_stat px t f \<noteq> NotDir"
  shows "fst (ensure_dirs px mode (ancestors cs) f)"
  using free
proof (induction cs rule: rev_induct)
  case Nil
  then show ?case by (simp add: ancestors_def)
next
  case (snoc c cs)
  let ?g = "snd (ensure_dirs px mode (ancestors cs) f)" and ?t = "path_text True (cs @ [c])"
  have IH: "fst (ensure_dirs px mode (ancestors cs) f)" using snoc by (simp add: ancestors_snoc)
  have above: "px_stat px (path_text True cs) ?g = IsDir"
  proof (cases "cs = []")
    case True
    then show ?thesis using root by (simp add: ancestors_def)
  next
    case False
    then show ?thesis using IH ensure_dirs_done [OF law(1)] ancestors_last by metis
  qed
  have "px_stat px ?t ?g \<noteq> NotDir" using ensure_dirs_frame [OF law(1), of ?t "ancestors cs" f] snoc.prems by (auto simp: ancestors_snoc)
  moreover have "px_stat px ?t ?g = NoEntry \<Longrightarrow> \<not> fst (px_mkdir px ?t mode ?g) < 0" using law(2) above unfolding room_law_def by (meson not_less)
  ultimately have "fst (ensure_dirs px mode [?t] ?g)" by (auto simp: Let_def case_prod_beta split: entry.splits)
  then show ?case using IH by (simp add: ancestors_snoc ensure_dirs_append)
qed

section \<open>Start-up\<close>

definition short_of_memory :: "app_mem \<Rightarrow> string list \<Rightarrow> bool" where
  "short_of_memory m ts \<longleftrightarrow> (\<exists>m1 t m2. mem_restored m m1 \<and> t \<in> set ts \<and> rt_strdup (Some (cstr t [])) m1 = Inr (RT_NULL, m2))"

lemma mem_restored_trans: "mem_restored a b \<Longrightarrow> mem_restored b c \<Longrightarrow> mem_restored a c"
  by (simp add: mem_restored_def)

text \<open>No path on the way is taken by something else than a directory.\<close>

definition ways_free :: "'f posix \<Rightarrow> string list list \<Rightarrow> 'f \<Rightarrow> bool" where
  "ways_free px css f \<longleftrightarrow> px_stat px (path_text True []) f = IsDir \<and> (\<forall>cs \<in> set css. \<forall>t \<in> set (ancestors cs). px_stat px t f \<noteq> NotDir)"

lemma ways_free_frame: "ways_free px css f \<Longrightarrow> (\<And>t. px_stat px t g = px_stat px t f \<or> px_stat px t f = NoEntry \<and> px_stat px t g = IsDir) \<Longrightarrow> ways_free px css g"
  unfolding ways_free_def by (metis entry.distinct)

lemma mkdir_all_ok:
  assumes law: "mkdir_law px mode" "room_law px mode" and "app_ok m" "ways_free px css f" and names: "\<forall>cs \<in> set css. list_all name_ok cs \<and> cs \<noteq> [] \<and> length (path_text True cs) < 1000"
  shows "mkdir_all px mode (map (path_text True) css) m f = Inl NullDeref \<and> short_of_memory m (map (path_text True) css)
    \<or> (\<exists>m' f'. mkdir_all px mode (map (path_text True) css) m f = Inr (m', f') \<and> mem_restored m m' \<and> (\<forall>cs \<in> set css. px_stat px (path_text True cs) f' = IsDir)
         \<and> (\<forall>t. px_stat px t f' = px_stat px t f \<or> px_stat px t f = NoEntry \<and> px_stat px t f' = IsDir))"
  using assms(3-5)
proof (induction css arbitrary: m f)
  case Nil
  then show ?case by (simp add: mem_restored_def)
next
  case (Cons cs css)
  let ?d = "cstr (path_text True cs) []" and ?s = "mkdir_spec px mode cs f"
  have cs: "list_all name_ok cs" "cs \<noteq> []" "length (dir_text cs False) + 1 \<le> 2 ^ 32 - 4" using Cons.prems(3) by (auto simp: dir_text_def)
  have made: "fst ?s" using ensure_ancestors [OF law, of f cs] Cons.prems(2) by (simp add: ways_free_def mkdir_spec_def)
  then have here: "px_stat px (path_text True cs) (snd ?s) = IsDir" using mkdir_spec_done [OF law(1) cs(1,2)] by blast
  have fr: "px_stat px t (snd ?s) = px_stat px t f \<or> px_stat px t f = NoEntry \<and> px_stat px t (snd ?s) = IsDir" for t
    using mkdir_spec_frame [OF law(1)] by blast
  from mkdir_p_ok [OF Cons.prems(1) cs, of "[]" px mode f] show ?case
  proof
    assume "(\<exists>m'. rt_strdup (Some (cstr (dir_text cs False) [])) m = Inr (RT_NULL, m')) \<and> mkdir_p px (Some (cstr (dir_text cs False) [])) mode m f = Inl NullDeref"
    then show ?thesis using Cons.prems(1) by (auto simp: dir_text_def short_of_memory_def mem_restored_def)
  next
    assume "\<exists>m'. mkdir_p px (Some (cstr (dir_text cs False) [])) mode m f = Inr (if fst ?s then 0 else - 1, m', snd ?s) \<and> mem_restored m m'"
    then obtain m1 where m1: "mkdir_p px (Some ?d) mode m f = Inr (0, m1, snd ?s)" "mem_restored m m1" using made by (auto simp: dir_text_def)
    have run: "mkdir_all px mode (map (path_text True) (cs # css)) m f = mkdir_all px mode (map (path_text True) css) m1 (snd ?s)" using m1(1) by simp
    have free: "ways_free px css (snd ?s)" using ways_free_frame [OF _ fr, of css] Cons.prems(2) by (simp add: ways_free_def)
    have "app_ok m1" using m1(2) by (simp add: mem_restored_def)
    moreover have "\<forall>cs \<in> set css. list_all name_ok cs \<and> cs \<noteq> [] \<and> length (path_text True cs) < 1000" using Cons.prems(3) by simp
    ultimately consider "mkdir_all px mode (map (path_text True) css) m1 (snd ?s) = Inl NullDeref" "short_of_memory m1 (map (path_text True) css)"
      | m' f' where "mkdir_all px mode (map (path_text True) css) m1 (snd ?s) = Inr (m', f')" "mem_restored m1 m'" "\<forall>cs \<in> set css. px_stat px (path_text True cs) f' = IsDir"
          "\<And>t. px_stat px t f' = px_stat px t (snd ?s) \<or> px_stat px t (snd ?s) = NoEntry \<and> px_stat px t f' = IsDir"
      using Cons.IH [OF _ free] by blast
    then show ?thesis
    proof cases
      case 1
      then show ?thesis using run mem_restored_trans [OF m1(2)] by (auto simp: short_of_memory_def)
    next
      case 2
      have "px_stat px (path_text True cs) f' = IsDir" using 2(4) [of "path_text True cs"] here by auto
      moreover have "px_stat px t f' = px_stat px t f \<or> px_stat px t f = NoEntry \<and> px_stat px t f' = IsDir" for t using 2(4) [of t] fr [of t] by auto
      ultimately show ?thesis using run 2(1,3) mem_restored_trans [OF m1(2) 2(2)] by auto
    qed
  qed
qed

text \<open>The table after the mount, the rest as the start-up leaves it.\<close>

definition root_ready :: "dfs \<Rightarrow> 'f posix \<Rightarrow> dfs \<Rightarrow> 'f \<Rightarrow> bool" where
  "root_ready s px u f \<longleftrightarrow> (\<exists>v i dev ops. entered s i dev ops [] v \<and> filesystem_table u = filesystem_table v \<and> mem_restored (dmem v) (dmem u))
     \<and> (\<forall>t \<in> set init_dirs. px_stat px t f = IsDir)"

definition init_names :: "string list list" where
  "init_names = [[''mnt''], [''cache''], [''download''], [''mnt'', ''ram_usbd''], [''mnt'', ''filesystem''], [''mnt'', ''fminand''], [''mnt'', ''udisk'']]"

lemma init_names_ok: "map (path_text True) init_names = init_dirs" "\<forall>cs \<in> set init_names. list_all name_ok cs \<and> cs \<noteq> [] \<and> length (path_text True cs) < 1000"
  by code_simp+

lemma mkfs_done:
  assumes "ops_loop (operation_table s) name = Inr (Some ops)" "fs_mkfs ops = Some k" "dev_find devs n \<noteq> RT_NULL"
  shows "dfs_mkfs devs name (Some n) s = Inr (k (dev_find devs n), s)"
  using assms by (simp add: dfs_mkfs_def)

lemma filesystem_init_ok:
  fixes devs :: devices and s :: dfs
  defines "d0 \<equiv> cstr ''ramdisk0'' []" and "d1 \<equiv> cstr ''ramdisk1'' []" and "elm \<equiv> cstr ''elm'' []"
  assumes ok: "table_ok s" "ops_ok s" "fits s wd 1" and law: "mkdir_law px 0x777" "room_law px 0x777" and free: "ways_free px init_names f"
    and dev: "dev_find devs d0 \<noteq> RT_NULL" "dev_find devs d1 \<noteq> RT_NULL"
    and fs: "ops_loop (operation_table s) elm = Inr (Some ops)" "fs_mkfs ops = Some k" "k (dev_find devs d0) = 0" "k (dev_find devs d1) = 0"
  shows "(\<exists>u. filesystem_init devs px s f = Inr (0, u, f) \<and> clean s u \<and> mount_refused s devs (Some d0) ''/'' [] elm)
    \<or> filesystem_init devs px s f = Inl NullDeref \<and> (\<exists>v. dfs_mount devs (Some d0) (cstr ''/'' []) elm s = Inr (0, v) \<and> short_of_memory (dmem v) init_dirs)
    \<or> (\<exists>u f'. filesystem_init devs px s f = Inr (0, u, f') \<and> root_ready s px u f')"
proof -
  have root: "resolve (rooted (full_path wd ''/'')) [] (comps (full_path wd ''/'')) = Some (True, [])"
    using resolve_canonical [of "[]" wd] by (simp add: path_text_def)
  have len: "fits s wd (length ''/'')" "fits s wd (length (path_text True []))" using ok(3) by (simp_all add: path_text_def)
  obtain r u where r: "dfs_mount devs (Some d0) (cstr ''/'' []) elm s = Inr (r, u)" "mount_result s (mount_refused s devs (Some d0) ''/'' [] elm) [] ''/'' r u"
    using dfs_mount_ok [OF ok(1,2) _ len(1) root len(2), of "''elm''" devs "Some d0" "[]" "[]"] unfolding elm_def by auto
  note mk = mkfs_done [OF fs(1,2)]
  have run: "filesystem_init devs px s f = (if r \<noteq> 0 then Inr (0, u, f) else cbind (mkdir_all px 0x777 init_dirs (dmem u) f) (\<lambda>(m, f).
      cbind (dfs_mkfs devs elm (Some d1) (u\<lparr>dmem := m\<rparr>)) (\<lambda>(result, s). cbind (rt_assert (result = 0)) (\<lambda>_. Inr (- result, s, f)))))"
    using dev mk [OF dev(1)] fs(3) r(1) unfolding filesystem_init_def d0_def [symmetric] d1_def [symmetric] elm_def [symmetric] by (simp add: Let_def)
  show ?thesis
  proof (cases "r = 0")
    case False
    then show ?thesis using run r(2) by (auto simp: mount_result_def)
  next
    case True
    then obtain i dev' ops' where e: "entered s i dev' ops' [] u" using r(2) by (auto simp: mount_result_def)
    have "app_ok (dmem u)" "operation_table u = operation_table s" using e by (auto simp: entered_def table_ok_def)
    then have mk1: "dfs_mkfs devs elm (Some d1) (u\<lparr>dmem := m\<rparr>) = Inr (0, u\<lparr>dmem := m\<rparr>)" for m
      using mkfs_done [of "u\<lparr>dmem := m\<rparr>" elm ops k devs d1] fs dev(2) by simp
    from mkdir_all_ok [OF law \<open>app_ok (dmem u)\<close> free init_names_ok(2)] show ?thesis unfolding init_names_ok(1)
    proof (elim disjE conjE exE)
      assume "mkdir_all px 0x777 init_dirs (dmem u) f = Inl NullDeref" "short_of_memory (dmem u) init_dirs"
      then show ?thesis using run True r(1) by auto
    next
      fix m' f' assume m': "mkdir_all px 0x777 init_dirs (dmem u) f = Inr (m', f')" "mem_restored (dmem u) m'" "\<forall>cs \<in> set init_names. px_stat px (path_text True cs) f' = IsDir"
      then have "filesystem_init devs px s f = Inr (0, u\<lparr>dmem := m'\<rparr>, f')" using run True mk1 by simp
      moreover have "root_ready s px (u\<lparr>dmem := m'\<rparr>) f'"
        unfolding root_ready_def init_names_ok(1) [symmetric] using e m'(2,3) by (intro conjI exI [of _ u] exI [of _ i] exI [of _ dev'] exI [of _ ops']) auto
      ultimately show ?thesis by blast
    qed
  qed
qed

section \<open>Properties\<close>



section \<open>Examples\<close>

text \<open>A tree that holds the list of its directories.\<close>

definition dir_list :: "string list posix" where
  "dir_list = \<lparr>px_stat = (\<lambda>t f. if t \<in> set f then IsDir else NoEntry), px_mkdir = (\<lambda>t _ f. (0, t # f))\<rparr>"

lemma dir_list_laws: "mkdir_law dir_list mode" "room_law dir_list mode" "ways_free dir_list css [''/'']"
  by (auto simp: mkdir_law_def room_law_def ways_free_def dir_list_def path_text_def)



end
