(* ===== verification/Dfs_Fd.thy ===== *)
theory Dfs_Fd
  imports Kstring
begin

text \<open>
  The file descriptors of the device file system: the table of \<^verbatim>\<open>rt-thread/components/dfs/src/dfs.c\<close> with its reference
  counts, and the calls of \<^verbatim>\<open>dfs_posix.c\<close> that open, use and close a file. The table is touched under the file system
  lock only; between two such sections any other thread may run. The answers of the memory allocator and of the
  file systems are inputs of the steps.
\<close>

section \<open>The table\<close>

abbreviation (input) DFS_FD_MAX :: nat where "DFS_FD_MAX \<equiv> 64"
abbreviation (input) DFS_FD_OFFSET :: int where "DFS_FD_OFFSET \<equiv> 3"
abbreviation (input) DFS_FD_MAGIC :: nat where "DFS_FD_MAGIC \<equiv> 0xfdfd"

text \<open>The fields of \<open>struct dfs_fd\<close> that the table uses, and the table with the descriptors in the heap; \<open>maxfd\<close> is the length of \<open>fds\<close>.\<close>

record fdesc =
  magic :: nat
  ref_count :: int

record fdtable =
  fds :: "ptr list"
  descs :: "ptr \<rightharpoonup> fdesc"

definition desc_at :: "fdtable \<Rightarrow> ptr \<Rightarrow> fdesc cres" where
  "desc_at fdt p = (if p = RT_NULL then Inl NullDeref else case descs fdt p of None \<Rightarrow> Inl WildDeref | Some d \<Rightarrow> Inr d)"

text \<open>The search of \<open>fd_alloc\<close> for an empty entry.\<close>

function fd_scan :: "fdtable \<Rightarrow> nat \<Rightarrow> nat cres" where
  "fd_scan fdt idx =
     (if \<not> idx < length (fds fdt) then Inr idx
      else if fds fdt ! idx = RT_NULL then Inr idx
      else cbind (desc_at fdt (fds fdt ! idx)) (\<lambda>d. if ref_count d = 0 then Inr idx else fd_scan fdt (idx + 1)))"
  by pat_completeness auto

termination
  by (relation "measure (\<lambda>(fdt, idx). length (fds fdt) - idx)") auto

declare fd_scan.simps [simp del]

text \<open>\<open>enlarged\<close> tells whether \<open>rt_realloc\<close> succeeds, \<open>p\<close> is what \<open>rt_calloc\<close> returns.\<close>

definition fd_alloc :: "bool \<Rightarrow> ptr \<Rightarrow> nat \<Rightarrow> fdtable \<Rightarrow> (nat \<times> fdtable) cres" where
  "fd_alloc enlarged p startfd fdt =
     cbind (fd_scan fdt startfd) (\<lambda>idx.
       if idx = length (fds fdt) \<and> length (fds fdt) < DFS_FD_MAX \<and> \<not> enlarged then Inr (idx, fdt)
       else
         let cnt = (if length (fds fdt) + 4 > DFS_FD_MAX then DFS_FD_MAX else length (fds fdt) + 4);
             fdt = (if idx = length (fds fdt) \<and> length (fds fdt) < DFS_FD_MAX
                    then fdt\<lparr>fds := fds fdt @ replicate (cnt - length (fds fdt)) RT_NULL\<rparr> else fdt)
         in if idx < length (fds fdt) \<and> fds fdt ! idx = RT_NULL
            then if p = RT_NULL then Inr (length (fds fdt), fdt)
                 else Inr (idx, fdt\<lparr>fds := (fds fdt)[idx := p], descs := (descs fdt)(p \<mapsto> \<lparr>magic = 0, ref_count = 0\<rparr>)\<rparr>)
            else Inr (idx, fdt))"

definition fd_new :: "bool \<Rightarrow> ptr \<Rightarrow> fdtable \<Rightarrow> (int \<times> fdtable) cres" where
  "fd_new enlarged p fdt =
     cbind (fd_alloc enlarged p 0 fdt) (\<lambda>(idx, fdt).
       if idx = length (fds fdt) then Inr (- (1 + DFS_FD_OFFSET) + DFS_FD_OFFSET, fdt)
       else let q = fds fdt ! idx in cbind (desc_at fdt q) (\<lambda>d.
            Inr (int idx + DFS_FD_OFFSET, fdt\<lparr>descs := (descs fdt)(q \<mapsto> d\<lparr>ref_count := 1, magic := DFS_FD_MAGIC\<rparr>)\<rparr>)))"

definition fd_get :: "int \<Rightarrow> fdtable \<Rightarrow> (ptr \<times> fdtable) cres" where
  "fd_get fd fdt =
     (let fd = fd - DFS_FD_OFFSET
      in if fd < 0 \<or> fd \<ge> int (length (fds fdt)) then Inr (RT_NULL, fdt)
         else let p = fds fdt ! nat fd
         in if p = RT_NULL then Inr (RT_NULL, fdt)
            else cbind (desc_at fdt p) (\<lambda>d. if magic d \<noteq> DFS_FD_MAGIC then Inr (RT_NULL, fdt)
                 else Inr (p, fdt\<lparr>descs := (descs fdt)(p \<mapsto> d\<lparr>ref_count := ref_count d + 1\<rparr>)\<rparr>)))"

text \<open>The entry of a descriptor is cleared when its last reference goes.\<close>

fun fd_clear :: "ptr \<Rightarrow> ptr list \<Rightarrow> (bool \<times> ptr list)" where
  "fd_clear p [] = (False, [])"
| "fd_clear p (q # qs) = (if q = p then (True, RT_NULL # qs) else let (b, qs) = fd_clear p qs in (b, q # qs))"

definition fd_put :: "ptr \<Rightarrow> fdtable \<Rightarrow> fdtable cres" where
  "fd_put p fdt =
     cbind (rt_assert (p \<noteq> RT_NULL)) (\<lambda>_. cbind (desc_at fdt p) (\<lambda>d.
       let n = ref_count d - 1;
           fdt = fdt\<lparr>descs := (descs fdt)(p \<mapsto> d\<lparr>ref_count := n\<rparr>)\<rparr>
       in if n = 0
          then let (found, qs) = fd_clear p (fds fdt)
               in Inr (if found then fdt\<lparr>fds := qs, descs := (descs fdt)(p := None)\<rparr> else fdt)
          else Inr fdt))"

section \<open>Calls\<close>

text \<open>Where a thread is inside a call: \<open>open\<close> after \<open>fd_new\<close>, after \<open>fd_get\<close> (with the file system at work), and before its last \<open>fd_put\<close> on failure;
  a call that uses a descriptor, after \<open>fd_get\<close>; \<open>close\<close> after \<open>fd_get\<close> and before its last \<open>fd_put\<close>. The pointer after \<open>fd_new\<close> is
  remembered for the proofs only.\<close>

datatype fdpc = Idle | Fresh int ptr | Opening int ptr | Failing ptr | Using ptr | Closing int ptr | Closed ptr

text \<open>\<open>live\<close> are the descriptors that \<open>open\<close> has returned and that nobody has started to close, with what they stand for.\<close>

record fdsys =
  tab :: fdtable
  pcs :: "fdpc list"
  live :: "int \<rightharpoonup> ptr"

datatype fdact = Open_new bool ptr | Open_get | Open_done int | Use_get int | Use_done | Close_get int | Close_done int | Last_put

text \<open>The next section of thread \<open>i\<close>; the number in \<open>Open_done\<close> and \<open>Close_done\<close> is what the file system answers.\<close>

definition fd_step :: "nat \<Rightarrow> fdact \<Rightarrow> fdsys \<Rightarrow> fdsys cres" where
  "fd_step i a s = (case (pcs s ! i, a) of
     (Idle, Open_new enlarged p) \<Rightarrow> cbind (fd_new enlarged p (tab s)) (\<lambda>(fd, fdt).
        Inr (s\<lparr>tab := fdt, pcs := (pcs s)[i := (if fd < 0 then Idle else Fresh fd (fds fdt ! nat (fd - DFS_FD_OFFSET)))]\<rparr>))
   | (Fresh fd _, Open_get) \<Rightarrow> cbind (fd_get fd (tab s)) (\<lambda>(p, fdt). Inr (s\<lparr>tab := fdt, pcs := (pcs s)[i := Opening fd p]\<rparr>))
   | (Opening fd p, Open_done result) \<Rightarrow> cbind (fd_put p (tab s)) (\<lambda>fdt.
        if result < 0 then Inr (s\<lparr>tab := fdt, pcs := (pcs s)[i := Failing p]\<rparr>)
        else Inr (s\<lparr>tab := fdt, pcs := (pcs s)[i := Idle], live := (live s)(fd \<mapsto> p)\<rparr>))
   | (Failing p, Last_put) \<Rightarrow> cbind (fd_put p (tab s)) (\<lambda>fdt. Inr (s\<lparr>tab := fdt, pcs := (pcs s)[i := Idle]\<rparr>))
   | (Idle, Use_get fd) \<Rightarrow> cbind (fd_get fd (tab s)) (\<lambda>(p, fdt). Inr (s\<lparr>tab := fdt, pcs := (pcs s)[i := (if p = RT_NULL then Idle else Using p)]\<rparr>))
   | (Using p, Use_done) \<Rightarrow> cbind (fd_put p (tab s)) (\<lambda>fdt. Inr (s\<lparr>tab := fdt, pcs := (pcs s)[i := Idle]\<rparr>))
   | (Idle, Close_get fd) \<Rightarrow> cbind (fd_get fd (tab s)) (\<lambda>(p, fdt).
        Inr (s\<lparr>tab := fdt, pcs := (pcs s)[i := (if p = RT_NULL then Idle else Closing fd p)], live := (live s)(fd := None)\<rparr>))
   | (Closing fd p, Close_done result) \<Rightarrow> cbind (fd_put p (tab s)) (\<lambda>fdt.
        if result < 0 then Inr (s\<lparr>tab := fdt, pcs := (pcs s)[i := Idle], live := (live s)(fd \<mapsto> p)\<rparr>)
        else Inr (s\<lparr>tab := fdt, pcs := (pcs s)[i := Closed p]\<rparr>))
   | (Closed p, Last_put) \<Rightarrow> cbind (fd_put p (tab s)) (\<lambda>fdt. Inr (s\<lparr>tab := fdt, pcs := (pcs s)[i := Idle]\<rparr>))
   | _ \<Rightarrow> Inr s)"

text \<open>What the allocator and the clients promise: a new block is not in use, and only descriptors that are open are closed, once.\<close>

definition may_step :: "nat \<Rightarrow> fdact \<Rightarrow> fdsys \<Rightarrow> bool" where
  "may_step i a s \<longleftrightarrow> i < length (pcs s) \<and> (case a of
     Open_new enlarged p \<Rightarrow> p = RT_NULL \<or> descs (tab s) p = None
   | Close_get fd \<Rightarrow> pcs s ! i = Idle \<longrightarrow> fd \<in> dom (live s)
   | _ \<Rightarrow> True)"

definition fd_start :: "nat \<Rightarrow> fdsys" where
  "fd_start n = \<lparr>tab = \<lparr>fds = [], descs = Map.empty\<rparr>, pcs = replicate n Idle, live = Map.empty\<rparr>"

inductive fd_run :: "nat \<Rightarrow> fdsys \<Rightarrow> bool" for n where
  start: "fd_run n (fd_start n)"
| step: "fd_run n s \<Longrightarrow> may_step i a s \<Longrightarrow> fd_step i a s = Inr s' \<Longrightarrow> fd_run n s'"

section \<open>The table and the counts\<close>

definition entry :: "fdtable \<Rightarrow> int \<Rightarrow> ptr" where
  "entry fdt fd = (if 0 \<le> fd - DFS_FD_OFFSET \<and> fd - DFS_FD_OFFSET < int (length (fds fdt)) then fds fdt ! nat (fd - DFS_FD_OFFSET) else RT_NULL)"

text \<open>The table when there are \<open>W p\<close> references to the descriptor at \<open>p\<close>.\<close>

definition table_inv :: "fdtable \<Rightarrow> (ptr \<Rightarrow> nat) \<Rightarrow> bool" where
  "table_inv fdt W \<longleftrightarrow> (\<forall>p. descs fdt p = (if W p = 0 then None else Some \<lparr>magic = DFS_FD_MAGIC, ref_count = int (W p)\<rparr>)) \<and> W RT_NULL = 0
     \<and> (\<forall>p. p \<noteq> RT_NULL \<longrightarrow> (p \<in> set (fds fdt) \<longleftrightarrow> W p \<noteq> 0)) \<and> distinct (filter (\<lambda>p. p \<noteq> RT_NULL) (fds fdt)) \<and> length (fds fdt) \<le> DFS_FD_MAX"

lemma table_invD:
  assumes "table_inv fdt W"
  shows "W p \<noteq> 0 \<Longrightarrow> desc_at fdt p = Inr \<lparr>magic = DFS_FD_MAGIC, ref_count = int (W p)\<rparr>" "W p \<noteq> 0 \<Longrightarrow> p \<noteq> RT_NULL" "p \<in> set (fds fdt) \<Longrightarrow> p \<noteq> RT_NULL \<Longrightarrow> W p \<noteq> 0"
proof -
  show ne: "p \<noteq> RT_NULL" if "W p \<noteq> 0" using assms that unfolding table_inv_def by metis
  show "desc_at fdt p = Inr \<lparr>magic = DFS_FD_MAGIC, ref_count = int (W p)\<rparr>" if "W p \<noteq> 0" using assms that ne [OF that] by (simp add: table_inv_def desc_at_def)
  show "W p \<noteq> 0" if "p \<in> set (fds fdt)" "p \<noteq> RT_NULL" using assms that by (simp add: table_inv_def)
qed

lemma entry_mem: "entry fdt fd \<noteq> RT_NULL \<Longrightarrow> entry fdt fd \<in> set (fds fdt)"
  by (auto simp: entry_def split: if_splits)

lemma nonzero_unique: "distinct (filter (\<lambda>p. p \<noteq> z) xs) \<Longrightarrow> i < length xs \<Longrightarrow> j < length xs \<Longrightarrow> xs ! i = xs ! j \<Longrightarrow> xs ! i \<noteq> z \<Longrightarrow> i = j"
proof (induction xs arbitrary: i j)
  case (Cons x xs)
  have d: "distinct (filter (\<lambda>p. p \<noteq> z) xs)" "x \<noteq> z \<Longrightarrow> x \<notin> set xs" using Cons.prems(1) by (auto split: if_splits)
  show ?case
  proof (cases i)
    case 0
    then show ?thesis using Cons.prems d(2) by (cases j) auto
  next
    case (Suc k)
    then show ?thesis using Cons.prems d Cons.IH [OF d(1), of k "j - 1"] by (cases j) auto
  qed
qed simp

lemma entry_nth: "entry fdt fd \<noteq> RT_NULL \<Longrightarrow> \<exists>i. fd = int i + DFS_FD_OFFSET \<and> i < length (fds fdt) \<and> entry fdt fd = fds fdt ! i"
  by (rule exI [of _ "nat (fd - DFS_FD_OFFSET)"]) (auto simp: entry_def split: if_splits)

lemma entry_inj: "table_inv fdt W \<Longrightarrow> entry fdt fd = entry fdt fd' \<Longrightarrow> entry fdt fd \<noteq> RT_NULL \<Longrightarrow> fd = fd'"
  using nonzero_unique [of RT_NULL "fds fdt"] entry_nth [of fdt fd] entry_nth [of fdt fd'] unfolding table_inv_def by metis

lemma filter_cleared: "filter (\<lambda>p. p \<noteq> RT_NULL) (map (\<lambda>q. if q = p then RT_NULL else q) qs) = filter (\<lambda>q. q \<noteq> p) (filter (\<lambda>p. p \<noteq> RT_NULL) qs)"
  by (induction qs) auto

lemma fd_clear_ok: "p \<noteq> RT_NULL \<Longrightarrow> distinct (filter (\<lambda>p. p \<noteq> RT_NULL) qs) \<Longrightarrow> fd_clear p qs = (p \<in> set qs, map (\<lambda>q. if q = p then RT_NULL else q) qs)"
proof (induction qs)
  case (Cons q qs)
  have "p \<notin> set qs \<Longrightarrow> map (\<lambda>q. if q = p then RT_NULL else q) qs = qs" by (induction qs) auto
  then show ?case using Cons by (auto split: if_splits)
qed simp

lemma fd_put_ok:
  assumes inv: "table_inv fdt W" and p: "W p \<noteq> 0"
  obtains fdt' where "fd_put p fdt = Inr fdt'" "table_inv fdt' (W(p := W p - 1))"
    "\<And>fd. entry fdt' fd = (if entry fdt fd = p \<and> W p = 1 then RT_NULL else entry fdt fd)"
proof -
  note d = table_invD(1,2) [OF inv p]
  have mem: "p \<in> set (fds fdt)" and dist: "distinct (filter (\<lambda>p. p \<noteq> RT_NULL) (fds fdt))" using inv p d(2) by (auto simp: table_inv_def)
  show thesis
  proof (cases "W p = 1")
    case True
    let ?qs = "map (\<lambda>q. if q = p then RT_NULL else q) (fds fdt)"
    let ?t = "fdt\<lparr>fds := ?qs, descs := (descs fdt)(p := None)\<rparr>"
    have put: "fd_put p fdt = Inr ?t" using d True fd_clear_ok [OF d(2) dist] mem by (simp add: fd_put_def Let_def)
    have "distinct (filter (\<lambda>p. p \<noteq> RT_NULL) ?qs)" unfolding filter_cleared by (rule distinct_filter [OF dist])
    then have "table_inv ?t (W(p := W p - 1))" using inv True d(2) by (auto simp: table_inv_def)
    moreover have "entry ?t fd = (if entry fdt fd = p \<and> W p = 1 then RT_NULL else entry fdt fd)" for fd using True d(2) by (auto simp: entry_def)
    ultimately show thesis using that [OF put] by blast
  next
    case False
    let ?t = "fdt\<lparr>descs := (descs fdt)(p \<mapsto> \<lparr>magic = DFS_FD_MAGIC, ref_count = int (W p - 1)\<rparr>)\<rparr>"
    have put: "fd_put p fdt = Inr ?t" using d False p by (simp add: fd_put_def Let_def of_nat_diff)
    have "table_inv ?t (W(p := W p - 1))" using inv False p by (auto simp: table_inv_def)
    then show thesis using that put False by (simp add: entry_def)
  qed
qed

lemma fd_get_ok:
  assumes inv: "table_inv fdt W"
  obtains fdt' where "fd_get fd fdt = Inr (entry fdt fd, fdt')" "table_inv fdt' (if entry fdt fd = RT_NULL then W else W(entry fdt fd := W (entry fdt fd) + 1))" "fds fdt' = fds fdt"
proof (cases "entry fdt fd = RT_NULL")
  case True
  then have "fd_get fd fdt = Inr (RT_NULL, fdt)" by (auto simp: fd_get_def entry_def Let_def split: if_splits)
  then show thesis using that True inv by simp
next
  case False
  let ?p = "entry fdt fd"
  have w: "W ?p \<noteq> 0" by (rule table_invD(3) [OF inv entry_mem [OF False] False])
  let ?t = "fdt\<lparr>descs := (descs fdt)(?p \<mapsto> \<lparr>magic = DFS_FD_MAGIC, ref_count = int (W ?p) + 1\<rparr>)\<rparr>"
  have "fd_get fd fdt = Inr (?p, ?t)" using False table_invD(1) [OF inv w] by (auto simp: fd_get_def entry_def Let_def split: if_splits)
  moreover have "table_inv ?t (W(?p := W ?p + 1))" using inv w False by (auto simp: table_inv_def)
  ultimately show thesis using that False by simp
qed

lemma fd_scan_ok:
  assumes "table_inv fdt W"
  shows "idx \<le> length (fds fdt) \<Longrightarrow> \<exists>i. fd_scan fdt idx = Inr i \<and> i \<le> length (fds fdt) \<and> (i < length (fds fdt) \<longrightarrow> fds fdt ! i = RT_NULL)"
proof (induction "length (fds fdt) - idx" arbitrary: idx)
  case (Suc k)
  then have i: "idx < length (fds fdt)" by simp
  show ?case
  proof (cases "fds fdt ! idx = RT_NULL")
    case False
    then have w: "W (fds fdt ! idx) \<noteq> 0" using table_invD(3) [OF assms, of "fds fdt ! idx"] i by simp
    have "\<exists>i. fd_scan fdt (idx + 1) = Inr i \<and> i \<le> length (fds fdt) \<and> (i < length (fds fdt) \<longrightarrow> fds fdt ! i = RT_NULL)"
      by (rule Suc.hyps(1)) (use Suc.hyps(2) i in simp_all)
    then show ?thesis using i False table_invD(1) [OF assms w] w by (subst fd_scan.simps) simp
  qed (use i in \<open>subst fd_scan.simps, simp\<close>)
qed (subst fd_scan.simps, simp)

text \<open>A larger table, and a new descriptor in an empty entry.\<close>

lemma table_inv_append: "table_inv fdt W \<Longrightarrow> length (fds fdt) + n \<le> DFS_FD_MAX \<Longrightarrow> table_inv (fdt\<lparr>fds := fds fdt @ replicate n RT_NULL\<rparr>) W"
  by (auto simp: table_inv_def filter_replicate)

lemma entry_append: "entry (fdt\<lparr>fds := fds fdt @ replicate n RT_NULL\<rparr>) fd = entry fdt fd"
  by (auto simp: entry_def nth_append nat_less_iff)

lemma distinct_filled:
  assumes "distinct (filter (\<lambda>p. p \<noteq> z) xs)" "i < length xs" "xs ! i = z" "p \<notin> set xs"
  shows "distinct (filter (\<lambda>p. p \<noteq> z) (xs[i := p]))"
proof -
  obtain a b where x: "xs = a @ z # b" "length a = i" using id_take_nth_drop [OF assms(2)] assms(2,3) by (metis length_take min.absorb4)
  then have u: "xs[i := p] = a @ p # b" by auto
  show ?thesis unfolding u using assms(1,4) x(1) by auto
qed

lemma table_inv_fill:
  assumes "table_inv fdt W" "i < length (fds fdt)" "fds fdt ! i = RT_NULL" "p \<noteq> RT_NULL" "W p = 0"
  shows "table_inv (fdt\<lparr>fds := (fds fdt)[i := p], descs := (descs fdt)(p \<mapsto> \<lparr>magic = DFS_FD_MAGIC, ref_count = 1\<rparr>)\<rparr>) (W(p := 1))"
proof -
  have n: "p \<notin> set (fds fdt)" using assms by (simp add: table_inv_def)
  have "q \<in> set ((fds fdt)[i := p]) \<longleftrightarrow> q = p \<or> q \<in> set (fds fdt)" if "q \<noteq> RT_NULL" for q
  proof -
    obtain a b where x: "fds fdt = a @ RT_NULL # b" "length a = i" using id_take_nth_drop [OF assms(2)] assms(2,3) by (metis length_take min.absorb4)
    then have "(fds fdt)[i := p] = a @ p # b" by auto
    then show ?thesis using that x(1) by auto
  qed
  then show ?thesis using assms n distinct_filled [OF _ assms(2,3) n] unfolding table_inv_def by auto
qed

lemma fd_new_ok:
  assumes inv: "table_inv fdt W" and p: "p = RT_NULL \<or> descs fdt p = None"
  obtains fd fdt' where "fd_new enlarged p fdt = Inr (fd, fdt')"
    "fd < 0 \<and> table_inv fdt' W \<and> (\<forall>fd'. entry fdt' fd' = entry fdt fd')
     \<or> 0 \<le> fd \<and> p \<noteq> RT_NULL \<and> W p = 0 \<and> table_inv fdt' (W(p := 1)) \<and> fds fdt' ! nat (fd - DFS_FD_OFFSET) = p \<and> entry fdt' fd = p \<and> entry fdt fd = RT_NULL \<and> (\<forall>fd'. fd' \<noteq> fd \<longrightarrow> entry fdt' fd' = entry fdt fd')"
proof -
  obtain i where i: "fd_scan fdt 0 = Inr i" "i \<le> length (fds fdt)" "i < length (fds fdt) \<longrightarrow> fds fdt ! i = RT_NULL" using fd_scan_ok [OF inv, of 0] by auto
  define n where "n = (if i = length (fds fdt) \<and> length (fds fdt) < DFS_FD_MAX then (if length (fds fdt) + 4 > DFS_FD_MAX then DFS_FD_MAX else length (fds fdt) + 4) - length (fds fdt) else 0)"
  define big where "big = fdt\<lparr>fds := fds fdt @ replicate n RT_NULL\<rparr>"
  have len: "length (fds fdt) + n \<le> DFS_FD_MAX" using inv by (auto simp: n_def table_inv_def)
  have b: "table_inv big W" "\<And>fd. entry big fd = entry fdt fd" unfolding big_def by (rule table_inv_append [OF inv len], rule entry_append)
  have alloc: "fd_alloc enlarged p 0 fdt = (if i = length (fds fdt) \<and> length (fds fdt) < DFS_FD_MAX \<and> \<not> enlarged then Inr (i, fdt)
      else if i < length (fds big) then if p = RT_NULL then Inr (length (fds big), big)
           else Inr (i, big\<lparr>fds := (fds big)[i := p], descs := (descs big)(p \<mapsto> \<lparr>magic = 0, ref_count = 0\<rparr>)\<rparr>) else Inr (i, big))"
    using i by (auto simp: fd_alloc_def Let_def big_def n_def nth_append)
  show thesis
  proof (cases "i = length (fds fdt) \<and> length (fds fdt) < DFS_FD_MAX \<and> \<not> enlarged \<or> \<not> i < length (fds big) \<or> p = RT_NULL")
    case True
    have "i \<le> length (fds big)" using i(2) by (simp add: big_def)
    then have "fd_new enlarged p fdt = Inr (- 1, if i = length (fds fdt) \<and> length (fds fdt) < DFS_FD_MAX \<and> \<not> enlarged then fdt else big)"
      using True by (auto simp: fd_new_def alloc)
    then show thesis using that [of "- 1"] b inv by auto
  next
    case False
    have z: "i < length (fds big)" "fds big ! i = RT_NULL" using False i by (auto simp: big_def nth_append)
    have w: "p \<noteq> RT_NULL" "W p = 0" using False p inv by (auto simp: table_inv_def split: if_splits)
    let ?t = "big\<lparr>fds := (fds big)[i := p], descs := (descs big)(p \<mapsto> \<lparr>magic = DFS_FD_MAGIC, ref_count = 1\<rparr>)\<rparr>"
    have "fd_new enlarged p fdt = Inr (int i + DFS_FD_OFFSET, ?t)" using False z(1) w(1) by (auto simp: fd_new_def alloc desc_at_def)
    moreover have "table_inv ?t (W(p := 1))" by (rule table_inv_fill [OF b(1) z w])
    moreover have "entry ?t fd = (if fd = int i + DFS_FD_OFFSET then p else entry big fd)" for fd using z(1) by (auto simp: entry_def nth_list_update)
    moreover have "entry big (int i + DFS_FD_OFFSET) = RT_NULL" using z by (simp add: entry_def)
    ultimately show thesis using that [of "int i + DFS_FD_OFFSET" ?t] w z(1) b(2) by auto
  qed
qed

section \<open>Who refers to a descriptor\<close>

text \<open>One reference stands for the open file (while it is opened, open, or being closed); every call that has taken the descriptor holds one more.\<close>

fun stands :: "fdpc \<Rightarrow> ptr \<Rightarrow> bool" where
  "stands (Fresh fd q) p = (q = p)"
| "stands (Opening fd q) p = (q = p)"
| "stands (Failing q) p = (q = p)"
| "stands (Closing fd q) p = (q = p)"
| "stands (Closed q) p = (q = p)"
| "stands _ p = False"

fun holds_ref :: "fdpc \<Rightarrow> ptr \<Rightarrow> bool" where
  "holds_ref (Opening fd q) p = (q = p)"
| "holds_ref (Using q) p = (q = p)"
| "holds_ref (Closing fd q) p = (q = p)"
| "holds_ref _ p = False"

definition how_many :: "('a \<Rightarrow> bool) \<Rightarrow> 'a list \<Rightarrow> nat" where
  "how_many P xs = length (filter P xs)"

definition files :: "fdsys \<Rightarrow> ptr \<Rightarrow> nat" where
  "files s p = how_many (\<lambda>c. stands c p) (pcs s) + (if p \<in> ran (live s) then 1 else 0)"

definition refs :: "fdsys \<Rightarrow> ptr \<Rightarrow> nat" where
  "refs s p = files s p + how_many (\<lambda>c. holds_ref c p) (pcs s)"

fun numbered :: "fdpc \<Rightarrow> int \<Rightarrow> ptr \<Rightarrow> bool" where
  "numbered (Fresh fd q) n p = (fd = n \<and> q = p)"
| "numbered (Opening fd q) n p = (fd = n \<and> q = p)"
| "numbered (Closing fd q) n p = (fd = n \<and> q = p)"
| "numbered _ n p = False"

definition named :: "fdsys \<Rightarrow> int \<Rightarrow> ptr \<Rightarrow> bool" where
  "named s n p \<longleftrightarrow> live s n = Some p \<or> (\<exists>c \<in> set (pcs s). numbered c n p)"

definition fd_inv :: "fdsys \<Rightarrow> bool" where
  "fd_inv s \<longleftrightarrow> table_inv (tab s) (refs s) \<and> (\<forall>p. files s p \<le> 1) \<and> (\<forall>n p. named s n p \<longrightarrow> entry (tab s) n = p)"

lemma how_many_update: "i < length xs \<Longrightarrow> how_many P (xs[i := c]) + (if P (xs ! i) then 1 else 0) = how_many P xs + (if P c then 1 else 0)"
proof -
  assume i: "i < length xs"
  obtain a x b where x: "xs = a @ x # b" "length a = i" using id_take_nth_drop [OF i] i by (metis length_take min.absorb4)
  then have "xs[i := c] = a @ c # b" "xs ! i = x" by auto
  then show ?thesis by (simp add: how_many_def x(1))
qed

lemma how_many_pos: "i < length xs \<Longrightarrow> P (xs ! i) \<Longrightarrow> how_many P xs \<noteq> 0"
  by (auto simp: how_many_def filter_empty_conv)

lemma in_update: "i < length xs \<Longrightarrow> c \<in> set (xs[i := d]) \<longleftrightarrow> c = d \<or> (\<exists>j < length xs. j \<noteq> i \<and> xs ! j = c)"
  by (auto simp: in_set_conv_nth nth_list_update)

lemma numbered_stands: "numbered c n p \<Longrightarrow> stands c p"
  by (cases c) auto

text \<open>What has a number stands for a file; nothing else has the same number or descriptor.\<close>

lemma named_files: "named s n p \<Longrightarrow> files s p \<noteq> 0"
  using numbered_stands how_many_pos [of _ "pcs s" "\<lambda>c. stands c p"] unfolding named_def files_def by (auto simp: in_set_conv_nth intro: ranI)

lemma files_others:
  assumes "i < length (pcs s)" "stands (pcs s ! i) p" "files s p \<le> 1"
  shows "p \<notin> ran (live s)" "j < length (pcs s) \<Longrightarrow> j \<noteq> i \<Longrightarrow> \<not> stands (pcs s ! j) p"
proof -
  have h: "how_many (\<lambda>c. stands c p) (pcs s) \<noteq> 0" using how_many_pos [of i "pcs s" "\<lambda>c. stands c p"] assms(1,2) by simp
  then show "p \<notin> ran (live s)" using assms(3) by (auto simp: files_def split: if_splits)
  show "\<not> stands (pcs s ! j) p" if j: "j < length (pcs s)" "j \<noteq> i"
  proof
    assume "stands (pcs s ! j) p"
    then have "how_many (\<lambda>c. stands c p) ((pcs s)[i := Idle]) \<noteq> 0" using how_many_pos [of j "(pcs s)[i := Idle]" "\<lambda>c. stands c p"] j by simp
    moreover have "how_many (\<lambda>c. stands c p) ((pcs s)[i := Idle]) + 1 = how_many (\<lambda>c. stands c p) (pcs s)" using how_many_update [OF assms(1), of "\<lambda>c. stands c p" Idle] assms(2) by simp
    ultimately show False using assms(3) by (simp add: files_def)
  qed
qed

section \<open>Steps keep the invariant\<close>

lemma refs_tab [simp]: "refs (s\<lparr>tab := x\<rparr>) = refs s" "files (s\<lparr>tab := x\<rparr>) = files s" "named (s\<lparr>tab := x\<rparr>) = named s"
  by (simp_all add: refs_def files_def named_def fun_eq_iff)

lemma given_inv:
  assumes inv: "fd_inv s" and p: "refs s p \<noteq> 0" and s': "refs s' = (refs s)(p := refs s p - 1)" "\<And>q. files s' q \<le> 1" "\<And>n q. named s' n q \<Longrightarrow> named s n q"
  shows "\<exists>fdt. fd_put p (tab s) = Inr fdt \<and> fd_inv (s'\<lparr>tab := fdt\<rparr>)"
proof -
  have t: "table_inv (tab s) (refs s)" using inv by (simp add: fd_inv_def)
  obtain fdt where f: "fd_put p (tab s) = Inr fdt" "table_inv fdt (refs s')" "\<And>n. entry fdt n = (if entry (tab s) n = p \<and> refs s p = 1 then RT_NULL else entry (tab s) n)"
    using fd_put_ok [OF t p] s'(1) by metis
  have "entry fdt n = q" if "named s' n q" for n q
  proof -
    have "entry (tab s) n = q" using inv s'(3) [OF that] by (simp add: fd_inv_def)
    moreover have "refs s' q \<noteq> 0" using named_files [OF that] by (simp add: refs_def)
    ultimately show ?thesis using f(3) [of n] s'(1) by auto
  qed
  then show ?thesis using f(1,2) s'(2) by (auto simp: fd_inv_def)
qed

lemma taken_inv:
  assumes inv: "fd_inv s" and p: "entry (tab s) fd \<noteq> RT_NULL" and s': "refs s' = (refs s)(entry (tab s) fd := refs s (entry (tab s) fd) + 1)" "\<And>q. files s' q \<le> 1"
    "\<And>n q. named s' n q \<Longrightarrow> entry (tab s) n = q"
  shows "\<exists>fdt. fd_get fd (tab s) = Inr (entry (tab s) fd, fdt) \<and> fd_inv (s'\<lparr>tab := fdt\<rparr>)"
proof -
  have t: "table_inv (tab s) (refs s)" using inv by (simp add: fd_inv_def)
  obtain fdt where f: "fd_get fd (tab s) = Inr (entry (tab s) fd, fdt)" "table_inv fdt (refs s')" "fds fdt = fds (tab s)"
    using fd_get_ok [OF t, of fd] p s'(1) by auto
  have "entry fdt n = entry (tab s) n" for n using f(3) by (simp add: entry_def)
  then show ?thesis using f(1,2) s'(2,3) by (auto simp: fd_inv_def)
qed

lemma get_nothing: "fd_inv s \<Longrightarrow> entry (tab s) fd = RT_NULL \<Longrightarrow> fd_get fd (tab s) = Inr (RT_NULL, tab s)"
  by (auto simp: fd_get_def entry_def Let_def split: if_splits)

text \<open>How a step of thread \<open>i\<close> to \<open>c\<close> changes the references.\<close>

definition weight :: "fdpc \<Rightarrow> ptr \<Rightarrow> nat" where
  "weight c p = (if stands c p then 1 else 0) + (if holds_ref c p then 1 else 0)"

definition moved :: "fdsys \<Rightarrow> nat \<Rightarrow> fdpc \<Rightarrow> (int \<rightharpoonup> ptr) \<Rightarrow> fdsys" where
  "moved s i c l = s\<lparr>pcs := (pcs s)[i := c], live := l\<rparr>"

lemma moved_refs:
  assumes "i < length (pcs s)"
  shows "refs (moved s i c l) p + weight (pcs s ! i) p + (if p \<in> ran (live s) then 1 else 0) = refs s p + weight c p + (if p \<in> ran l then 1 else 0)"
    "files (moved s i c l) p + (if stands (pcs s ! i) p then 1 else 0) + (if p \<in> ran (live s) then 1 else 0) = files s p + (if stands c p then 1 else 0) + (if p \<in> ran l then 1 else 0)"
  using how_many_update [OF assms, of "\<lambda>c. stands c p" c] how_many_update [OF assms, of "\<lambda>c. holds_ref c p" c]
  by (auto simp: moved_def refs_def files_def weight_def)

lemma moved_named:
  assumes "i < length (pcs s)"
  shows "named (moved s i c l) n p \<Longrightarrow> l n = Some p \<or> numbered c n p \<or> (\<exists>j < length (pcs s). j \<noteq> i \<and> numbered (pcs s ! j) n p)"
  using in_update [OF assms] by (auto simp: named_def moved_def)

lemma named_at: "i < length (pcs s) \<Longrightarrow> numbered (pcs s ! i) n p \<Longrightarrow> named s n p"
  by (auto simp: named_def)

lemma moved_put:
  assumes inv: "fd_inv s" and i: "i < length (pcs s)" and w: "weight (pcs s ! i) p = Suc (weight c p)" "\<And>q. q \<noteq> p \<Longrightarrow> weight (pcs s ! i) q = weight c q"
    and st: "\<And>q. stands c q \<Longrightarrow> stands (pcs s ! i) q" and nm: "\<And>n q. numbered c n q \<Longrightarrow> numbered (pcs s ! i) n q"
  shows "\<exists>fdt. fd_put p (tab s) = Inr fdt \<and> fd_inv ((moved s i c (live s))\<lparr>tab := fdt\<rparr>)"
proof (rule given_inv [OF inv])
  note r = moved_refs(1) [OF i, of c "live s"]
  show "refs s p \<noteq> 0" using r [of p] w(1) by (auto split: if_splits)
  show "refs (moved s i c (live s)) = (refs s)(p := refs s p - 1)"
  proof
    fix q show "refs (moved s i c (live s)) q = ((refs s)(p := refs s p - 1)) q" using r [of q] w by (cases "q = p") auto
  qed
  fix q show "files (moved s i c (live s)) q \<le> 1"
  proof -
    have "files s q \<le> 1" using inv by (simp add: fd_inv_def)
    then show ?thesis using moved_refs(2) [OF i, of c "live s" q] st [of q] by (cases "stands c q"; cases "stands (pcs s ! i) q") simp_all
  qed
next
  fix n q assume "named (moved s i c (live s)) n q"
  then have "live s n = Some q \<or> numbered (pcs s ! i) n q \<or> (\<exists>j < length (pcs s). j \<noteq> i \<and> numbered (pcs s ! j) n q)" using moved_named [OF i] nm by blast
  then show "named s n q" using named_at i by (auto simp: named_def)
qed

lemma entry_named: "fd_inv s \<Longrightarrow> named s n p \<Longrightarrow> entry (tab s) n = p \<and> p \<noteq> RT_NULL"
  using named_files [of s n p] table_invD(2) [of "tab s" "refs s" p] by (auto simp: fd_inv_def refs_def)

text \<open>A descriptor changes hands between a thread and the set of open ones.\<close>

lemma ran_drop:
  assumes "l n = Some p" "\<And>k. l k = Some p \<Longrightarrow> k = n"
  shows "x \<in> ran (l(n := None)) \<longleftrightarrow> x \<in> ran l \<and> x \<noteq> p"
proof
  assume "x \<in> ran (l(n := None))"
  then obtain k where "(l(n := None)) k = Some x" by (auto simp: ran_def)
  then have k: "k \<noteq> n" "l k = Some x" by (auto split: if_splits)
  then have "x \<noteq> p" using assms(2) [of k] by auto
  then show "x \<in> ran l \<and> x \<noteq> p" using k(2) by (auto intro: ranI)
next
  assume x: "x \<in> ran l \<and> x \<noteq> p"
  then obtain k where k: "l k = Some x" by (auto simp: ran_def)
  then have "(l(n := None)) k = Some x" using x assms(1) by auto
  then show "x \<in> ran (l(n := None))" by (rule ranI)
qed

lemma moved_listed:
  assumes inv: "fd_inv s" and i: "i < length (pcs s)" and c: "pcs s ! i = Opening fd p \<or> pcs s ! i = Closing fd p"
  shows "\<exists>fdt. fd_put p (tab s) = Inr fdt \<and> fd_inv ((moved s i Idle ((live s)(fd \<mapsto> p)))\<lparr>tab := fdt\<rparr>)"
proof (rule given_inv [OF inv])
  have st: "stands (pcs s ! i) q \<longleftrightarrow> q = p" "weight (pcs s ! i) q = (if q = p then 2 else 0)" for q using c by (auto simp: weight_def)
  have f: "files s q \<le> 1" for q using inv by (simp add: fd_inv_def)
  have np: "p \<notin> ran (live s)" using files_others(1) [OF i _ f] st by blast
  have nm: "named s fd p" using c named_at [OF i, of fd p] by auto
  have "live s fd = None"
  proof (rule ccontr)
    assume "live s fd \<noteq> None"
    then obtain q where q: "live s fd = Some q" by blast
    then have "named s fd q" by (simp add: named_def)
    then have "q = p" using entry_named [OF inv] nm by blast
    then show False using q np by (auto intro: ranI)
  qed
  then have l: "ran ((live s)(fd \<mapsto> p)) = insert p (ran (live s))" by (rule ran_map_upd)
  have r: "refs (moved s i Idle ((live s)(fd \<mapsto> p))) q + (if q = p then 2 else 0) + (if q \<in> ran (live s) then 1 else 0) = refs s q + (if q = p \<or> q \<in> ran (live s) then 1 else 0)" for q
    using moved_refs(1) [OF i, of Idle "(live s)(fd \<mapsto> p)" q] unfolding st l by (simp add: weight_def)
  show "refs s p \<noteq> 0" using r [of p] by simp
  show "refs (moved s i Idle ((live s)(fd \<mapsto> p))) = (refs s)(p := refs s p - 1)"
  proof
    fix q show "refs (moved s i Idle ((live s)(fd \<mapsto> p))) q = ((refs s)(p := refs s p - 1)) q" using r [of q] np by (cases "q = p") auto
  qed
  fix q show "files (moved s i Idle ((live s)(fd \<mapsto> p))) q \<le> 1"
    using moved_refs(2) [OF i, of Idle "(live s)(fd \<mapsto> p)" q] f [of q] unfolding st l by (auto split: if_splits)
  fix n assume "named (moved s i Idle ((live s)(fd \<mapsto> p))) n q"
  then have "((live s)(fd \<mapsto> p)) n = Some q \<or> (\<exists>j < length (pcs s). j \<noteq> i \<and> numbered (pcs s ! j) n q)" using moved_named [OF i] by fastforce
  then show "named s n q" using nm by (auto simp: named_def split: if_splits)
qed

lemma moved_unlisted:
  assumes inv: "fd_inv s" and i: "i < length (pcs s)" and c: "pcs s ! i = Idle" and l: "live s fd = Some p"
  shows "\<exists>fdt. fd_get fd (tab s) = Inr (p, fdt) \<and> p \<noteq> RT_NULL \<and> fd_inv ((moved s i (Closing fd p) ((live s)(fd := None)))\<lparr>tab := fdt\<rparr>)"
proof -
  have t: "table_inv (tab s) (refs s)" using inv by (simp add: fd_inv_def)
  have nm: "named s fd p" using l by (simp add: named_def)
  have e: "entry (tab s) fd = p" "p \<noteq> RT_NULL" using entry_named [OF inv nm] by auto
  have only: "n = fd" if "live s n = Some p" for n
    using entry_inj [OF t, of n fd] entry_named [OF inv, of n p] that e by (simp add: named_def)
  have rn: "x \<in> ran ((live s)(fd := None)) \<longleftrightarrow> x \<in> ran (live s) \<and> x \<noteq> p" "p \<in> ran (live s)" for x
    by (rule ran_drop [where l = "live s" and n = fd and p = p], rule l, erule only, rule ranI [where m = "live s" and a = fd], rule l)
  let ?s = "moved s i (Closing fd p) ((live s)(fd := None))"
  have r: "refs ?s q + (if q \<in> ran (live s) then 1 else 0) = refs s q + (if q = p then 2 else 0) + (if q \<in> ran (live s) \<and> q \<noteq> p then 1 else 0)" for q
    using moved_refs(1) [OF i, of "Closing fd p" "(live s)(fd := None)" q] unfolding c rn(1) by (auto simp: weight_def)
  have "refs ?s = (refs s)(p := refs s p + 1)"
  proof
    fix q show "refs ?s q = ((refs s)(p := refs s p + 1)) q" using r [of q] rn(2) by (cases "q = p") auto
  qed
  moreover have "files ?s q \<le> 1" for q
  proof -
    have "files s q \<le> 1" using inv by (simp add: fd_inv_def)
    then show ?thesis using moved_refs(2) [OF i, of "Closing fd p" "(live s)(fd := None)" q] rn(2) unfolding c rn(1) by (auto split: if_splits)
  qed
  moreover have "entry (tab s) n = q" if "named ?s n q" for n q
  proof -
    from that have "((live s)(fd := None)) n = Some q \<or> (fd = n \<and> p = q) \<or> (\<exists>j < length (pcs s). j \<noteq> i \<and> numbered (pcs s ! j) n q)" using moved_named [OF i] by fastforce
    then have "named s n q" using nm by (auto simp: named_def split: if_splits)
    then show ?thesis using entry_named [OF inv] by blast
  qed
  ultimately show ?thesis using taken_inv [OF inv, of fd ?s] e by auto
qed

lemma moved_tab: "(moved s i c (live s))\<lparr>tab := fdt\<rparr> = s\<lparr>tab := fdt, pcs := (pcs s)[i := c]\<rparr>"
  "(moved s i c l)\<lparr>tab := fdt\<rparr> = s\<lparr>tab := fdt, pcs := (pcs s)[i := c], live := l\<rparr>"
  by (cases s, simp add: moved_def)+

lemma opening_gets:
  assumes inv: "fd_inv s" and i: "i < length (pcs s)" and c: "pcs s ! i = Fresh fd p"
  shows "\<exists>fdt. fd_get fd (tab s) = Inr (p, fdt) \<and> fd_inv ((moved s i (Opening fd p) (live s))\<lparr>tab := fdt\<rparr>)"
proof -
  have nm: "named s fd p" using c named_at [OF i, of fd p] by simp
  have e: "entry (tab s) fd = p" "p \<noteq> RT_NULL" using entry_named [OF inv nm] by auto
  let ?s = "moved s i (Opening fd p) (live s)"
  have "refs ?s = (refs s)(p := refs s p + 1)"
  proof
    fix q show "refs ?s q = ((refs s)(p := refs s p + 1)) q" using moved_refs(1) [OF i, of "Opening fd p" "live s" q] c by (auto simp: weight_def split: if_splits)
  qed
  moreover have "files ?s q \<le> 1" for q
  proof -
    have "files s q \<le> 1" using inv by (simp add: fd_inv_def)
    then show ?thesis using moved_refs(2) [OF i, of "Opening fd p" "live s" q] c by (auto split: if_splits)
  qed
  moreover have "entry (tab s) n = q" if "named ?s n q" for n q
  proof -
    have "live s n = Some q \<or> (fd = n \<and> p = q) \<or> (\<exists>j < length (pcs s). j \<noteq> i \<and> numbered (pcs s ! j) n q)" using moved_named [OF i that] by simp
    then have "named s n q" using nm named_at by (auto simp: named_def)
    then show ?thesis using entry_named [OF inv] by blast
  qed
  ultimately show ?thesis using taken_inv [OF inv, of fd ?s] e by auto
qed

lemma use_gets:
  assumes inv: "fd_inv s" and i: "i < length (pcs s)" and c: "pcs s ! i = Idle" and p: "entry (tab s) fd \<noteq> RT_NULL"
  shows "\<exists>fdt. fd_get fd (tab s) = Inr (entry (tab s) fd, fdt) \<and> fd_inv ((moved s i (Using (entry (tab s) fd)) (live s))\<lparr>tab := fdt\<rparr>)"
proof (rule taken_inv [OF inv p])
  let ?p = "entry (tab s) fd"
  let ?s = "moved s i (Using ?p) (live s)"
  show "refs ?s = (refs s)(?p := refs s ?p + 1)"
  proof
    fix q show "refs ?s q = ((refs s)(?p := refs s ?p + 1)) q" using moved_refs(1) [OF i, of "Using ?p" "live s" q] c by (auto simp: weight_def split: if_splits)
  qed
  fix q
  have "files s q \<le> 1" using inv by (simp add: fd_inv_def)
  then show "files ?s q \<le> 1" using moved_refs(2) [OF i, of "Using ?p" "live s" q] c by (auto split: if_splits)
  fix n assume "named ?s n q"
  then have "live s n = Some q \<or> (\<exists>j < length (pcs s). j \<noteq> i \<and> numbered (pcs s ! j) n q)" using moved_named [OF i] by fastforce
  then have "named s n q" using named_at by (auto simp: named_def)
  then show "entry (tab s) n = q" using entry_named [OF inv] by blast
qed

lemma opens_fresh:
  assumes inv: "fd_inv s" and i: "i < length (pcs s)" and c: "pcs s ! i = Idle" and p: "p = RT_NULL \<or> descs (tab s) p = None"
  shows "\<exists>fd fdt. fd_new enlarged p (tab s) = Inr (fd, fdt) \<and> fd_inv ((moved s i (if fd < 0 then Idle else Fresh fd (fds fdt ! nat (fd - DFS_FD_OFFSET))) (live s))\<lparr>tab := fdt\<rparr>)"
proof -
  have t: "table_inv (tab s) (refs s)" and f: "files s q \<le> 1" for q using inv by (simp_all add: fd_inv_def)
  obtain fd fdt where n: "fd_new enlarged p (tab s) = Inr (fd, fdt)" "fd < 0 \<and> table_inv fdt (refs s) \<and> (\<forall>n. entry fdt n = entry (tab s) n)
     \<or> 0 \<le> fd \<and> p \<noteq> RT_NULL \<and> refs s p = 0 \<and> table_inv fdt ((refs s)(p := 1)) \<and> fds fdt ! nat (fd - DFS_FD_OFFSET) = p \<and> entry fdt fd = p \<and> entry (tab s) fd = RT_NULL
        \<and> (\<forall>n. n \<noteq> fd \<longrightarrow> entry fdt n = entry (tab s) n)"
    by (rule fd_new_ok [OF t p])
  show ?thesis
  proof (cases "fd < 0")
    case True
    then have "moved s i (if fd < 0 then Idle else Fresh fd (fds fdt ! nat (fd - DFS_FD_OFFSET))) (live s) = s" using c by (simp add: moved_def) (metis list_update_id fdsys.surjective fdsys.update_convs(2))
    then show ?thesis using n True inv by (auto simp: fd_inv_def)
  next
    case False
    let ?s = "moved s i (Fresh fd p) (live s)"
    have "refs ?s = (refs s)(p := 1)"
    proof
      fix q show "refs ?s q = ((refs s)(p := 1)) q" using moved_refs(1) [OF i, of "Fresh fd p" "live s" q] c n(2) False by (auto simp: weight_def split: if_splits)
    qed
    moreover have "files ?s q \<le> 1" for q
      using moved_refs(2) [OF i, of "Fresh fd p" "live s" q] c f [of q] n(2) False by (auto simp: refs_def split: if_splits)
    moreover have "entry fdt n' = q" if "named ?s n' q" for n' q
    proof -
      have "live s n' = Some q \<or> (fd = n' \<and> p = q) \<or> (\<exists>j < length (pcs s). j \<noteq> i \<and> numbered (pcs s ! j) n' q)" using moved_named [OF i that] by simp
      then consider "fd = n'" "p = q" | "named s n' q" using named_at by (auto simp: named_def)
      then show ?thesis
      proof cases
        case 2
        then have "entry (tab s) n' = q \<and> q \<noteq> RT_NULL" by (rule entry_named [OF inv])
        then show ?thesis using n(2) False by (cases "n' = fd") auto
      qed (use n(2) False in auto)
    qed
    ultimately show ?thesis using n False by (auto simp: fd_inv_def)
  qed
qed

lemma fd_step_inv:
  assumes inv: "fd_inv s" and ok: "may_step i a s"
  shows "\<exists>s'. fd_step i a s = Inr s' \<and> fd_inv s'"
proof -
  have i: "i < length (pcs s)" using ok by (simp add: may_step_def)
  have put: "\<exists>s'. cbind (fd_put p (tab s)) (\<lambda>fdt. Inr (s\<lparr>tab := fdt, pcs := (pcs s)[i := c]\<rparr>)) = Inr s' \<and> fd_inv s'"
    if "\<exists>fdt. fd_put p (tab s) = Inr fdt \<and> fd_inv ((moved s i c (live s))\<lparr>tab := fdt\<rparr>)" for p c
    using that by (auto simp: moved_tab)
  have list: "\<exists>s'. cbind (fd_put p (tab s)) (\<lambda>fdt. Inr (s\<lparr>tab := fdt, pcs := (pcs s)[i := Idle], live := (live s)(fd \<mapsto> p)\<rparr>)) = Inr s' \<and> fd_inv s'"
    if "pcs s ! i = Opening fd p \<or> pcs s ! i = Closing fd p" for p fd
    using moved_listed [OF inv i that] by (auto simp: moved_tab)
  show ?thesis
  proof (cases "pcs s ! i")
    case Idle
    show ?thesis
    proof (cases a)
      case (Open_new enlarged p)
      then have "p = RT_NULL \<or> descs (tab s) p = None" using ok by (simp add: may_step_def)
      from opens_fresh [OF inv i Idle this, of enlarged] show ?thesis using Idle Open_new by (auto simp: fd_step_def moved_tab)
    next
      case (Use_get fd)
      show ?thesis
      proof (cases "entry (tab s) fd = RT_NULL")
        case True
        then show ?thesis using Idle Use_get get_nothing [OF inv True] inv by (simp add: fd_step_def) (metis list_update_id fdsys.surjective fdsys.update_convs(1,2))
      next
        case False
        from use_gets [OF inv i Idle False] show ?thesis using Idle Use_get False by (auto simp: fd_step_def moved_tab)
      qed
    next
      case (Close_get fd)
      then obtain p where "live s fd = Some p" using ok Idle by (auto simp: may_step_def)
      from moved_unlisted [OF inv i Idle this] show ?thesis using Idle Close_get by (auto simp: fd_step_def moved_tab)
    qed (use Idle inv in \<open>simp_all add: fd_step_def\<close>)
  next
    case (Fresh fd p)
    then show ?thesis using opening_gets [OF inv i Fresh] inv by (cases a) (auto simp: fd_step_def moved_tab)
  next
    case (Opening fd p)
    have "\<exists>fdt. fd_put p (tab s) = Inr fdt \<and> fd_inv ((moved s i (Failing p) (live s))\<lparr>tab := fdt\<rparr>)"
      by (rule moved_put [OF inv i]) (auto simp: Opening weight_def)
    from put [OF this] list [of fd p] show ?thesis using Opening inv by (cases a) (auto simp: fd_step_def cbind_eq_Inr)
  next
    case (Failing p)
    have "\<exists>fdt. fd_put p (tab s) = Inr fdt \<and> fd_inv ((moved s i Idle (live s))\<lparr>tab := fdt\<rparr>)"
      by (rule moved_put [OF inv i]) (auto simp: Failing weight_def)
    from put [OF this] show ?thesis using Failing inv by (cases a) (auto simp: fd_step_def)
  next
    case (Using p)
    have "\<exists>fdt. fd_put p (tab s) = Inr fdt \<and> fd_inv ((moved s i Idle (live s))\<lparr>tab := fdt\<rparr>)"
      by (rule moved_put [OF inv i]) (auto simp: Using weight_def)
    from put [OF this] show ?thesis using Using inv by (cases a) (auto simp: fd_step_def)
  next
    case (Closing fd p)
    have "\<exists>fdt. fd_put p (tab s) = Inr fdt \<and> fd_inv ((moved s i (Closed p) (live s))\<lparr>tab := fdt\<rparr>)"
      by (rule moved_put [OF inv i]) (auto simp: Closing weight_def)
    from put [OF this] list [of fd p] show ?thesis using Closing inv by (cases a) (auto simp: fd_step_def cbind_eq_Inr)
  next
    case (Closed p)
    have "\<exists>fdt. fd_put p (tab s) = Inr fdt \<and> fd_inv ((moved s i Idle (live s))\<lparr>tab := fdt\<rparr>)"
      by (rule moved_put [OF inv i]) (auto simp: Closed weight_def)
    from put [OF this] show ?thesis using Closed inv by (cases a) (auto simp: fd_step_def)
  qed
qed

lemma fd_start_inv: "fd_inv (fd_start n)"
proof -
  have "refs (fd_start n) p = 0" "files (fd_start n) p = 0" for p by (simp_all add: refs_def files_def how_many_def fd_start_def ran_def)
  then show ?thesis by (auto simp: fd_inv_def table_inv_def named_def fd_start_def)
qed

lemma fd_run_inv: "fd_run n s \<Longrightarrow> fd_inv s"
  by (induction rule: fd_run.induct) (use fd_start_inv fd_step_inv in fastforce)+

section \<open>Properties\<close>

text \<open>C18: over every interleaving of threads that open, use and close files, each closing only descriptors that are open and not being closed, no section of a call touches
  a released descriptor or fails an assertion. The count of a descriptor is the number of calls that hold it, plus one while it stands for a file; it is
  released when the count is zero. Different open files have different descriptors, and when no call is under way exactly the open files have one.\<close>

theorem descriptors_are_counted:
  assumes "fd_run n s"
  shows "(\<forall>i a. may_step i a s \<longrightarrow> (\<exists>s'. fd_step i a s = Inr s'))
    \<and> (\<forall>p. descs (tab s) p = (if refs s p = 0 then None else Some \<lparr>magic = DFS_FD_MAGIC, ref_count = int (refs s p)\<rparr>))
    \<and> (\<forall>fd fd' p. live s fd = Some p \<longrightarrow> live s fd' = Some p \<longrightarrow> fd = fd')
    \<and> ((\<forall>c \<in> set (pcs s). c = Idle) \<longrightarrow> dom (descs (tab s)) = ran (live s) \<and> (\<forall>q \<in> ran (live s). refs s q = 1))"
proof (intro conjI allI impI)
  have inv: "fd_inv s" by (rule fd_run_inv [OF assms])
  show "\<exists>s'. fd_step i a s = Inr s'" if "may_step i a s" for i a using fd_step_inv [OF inv that] by blast
  show d: "descs (tab s) p = (if refs s p = 0 then None else Some \<lparr>magic = DFS_FD_MAGIC, ref_count = int (refs s p)\<rparr>)" for p
    using inv by (simp add: fd_inv_def table_inv_def)
  show "fd = fd'" if "live s fd = Some p" "live s fd' = Some p" for fd fd' p
    using entry_inj [of "tab s" "refs s" fd fd'] entry_named [OF inv, of fd p] entry_named [OF inv, of fd' p] that inv by (auto simp: fd_inv_def named_def)
  have rest: "refs s q = (if q \<in> ran (live s) then 1 else 0)" if idle: "\<forall>c \<in> set (pcs s). c = Idle" for q
  proof -
    have "how_many (\<lambda>c. stands c q) (pcs s) = 0" "how_many (\<lambda>c. holds_ref c q) (pcs s) = 0"
      using idle by (auto simp: how_many_def filter_empty_conv)
    then show ?thesis by (simp add: refs_def files_def)
  qed
  show "dom (descs (tab s)) = ran (live s)" "\<forall>q \<in> ran (live s). refs s q = 1" if idle: "\<forall>c \<in> set (pcs s). c = Idle"
    using rest [OF idle] d by (auto simp: dom_def split: if_splits)
qed

text \<open>Two threads that close the same descriptor at the same time: the second one gives up a descriptor that the first has released.\<close>

definition two_closing :: fdsys where
  "two_closing = \<lparr>tab = \<lparr>fds = [4096], descs = [4096 \<mapsto> \<lparr>magic = DFS_FD_MAGIC, ref_count = 1\<rparr>]\<rparr>, pcs = [Idle, Idle], live = [3 \<mapsto> 4096]\<rparr>"

theorem double_close_faults:
  "cbind (fd_step 0 (Close_get 3) two_closing) (\<lambda>s. cbind (fd_step 1 (Close_get 3) s) (\<lambda>s. cbind (fd_step 0 (Close_done 0) s) (\<lambda>s.
     cbind (fd_step 0 Last_put s) (\<lambda>s. cbind (fd_step 1 (Close_done 0) s) (fd_step 1 Last_put))))) = Inl WildDeref"
  by (simp add: fd_step_def two_closing_def fd_get_def fd_put_def desc_at_def Let_def)

theorem descriptors_are_counted_witness:
  "\<exists>s s'. fd_run 2 s \<and> fd_step 1 (Use_get 3) s = Inr s' \<and> pcs s ! 0 = Closing 3 4096"
proof -
  let ?t = "\<lambda>n. \<lparr>fds = [4096, RT_NULL, RT_NULL, RT_NULL], descs = [4096 \<mapsto> \<lparr>magic = DFS_FD_MAGIC, ref_count = n\<rparr>]\<rparr>"
  let ?s1 = "\<lparr>tab = ?t 1, pcs = [Fresh 3 4096, Idle], live = Map.empty\<rparr>"
  let ?s2 = "\<lparr>tab = ?t 2, pcs = [Opening 3 4096, Idle], live = Map.empty\<rparr>"
  let ?s3 = "\<lparr>tab = ?t 1, pcs = [Idle, Idle], live = [3 \<mapsto> 4096]\<rparr>"
  let ?s4 = "\<lparr>tab = ?t 2, pcs = [Closing 3 4096, Idle], live = Map.empty\<rparr>"
  have "fd_scan \<lparr>fds = [], descs = Map.empty\<rparr> 0 = Inr 0" by (subst fd_scan.simps) simp
  then have "fd_step 0 (Open_new True 4096) (fd_start 2) = Inr ?s1"
    by (simp add: fd_step_def fd_start_def fd_new_def fd_alloc_def desc_at_def Let_def numeral_2_eq_2 numeral_Bit0)
  then have 1: "fd_run 2 ?s1" using fd_run.step [OF fd_run.start, of 0 "Open_new True 4096" 2] by (simp add: may_step_def fd_start_def)
  have "fd_step 0 Open_get ?s1 = Inr ?s2" by (simp add: fd_step_def fd_get_def desc_at_def)
  then have 2: "fd_run 2 ?s2" using fd_run.step [OF 1, of 0 Open_get] by (simp add: may_step_def)
  have "fd_step 0 (Open_done 0) ?s2 = Inr ?s3" by (simp add: fd_step_def fd_put_def desc_at_def)
  then have 3: "fd_run 2 ?s3" using fd_run.step [OF 2, of 0 "Open_done 0"] by (simp add: may_step_def)
  have "fd_step 0 (Close_get 3) ?s3 = Inr ?s4" by (simp add: fd_step_def fd_get_def desc_at_def)
  then have 4: "fd_run 2 ?s4" using fd_run.step [OF 3, of 0 "Close_get 3"] by (simp add: may_step_def)
  have "may_step 1 (Use_get 3) ?s4" by (simp add: may_step_def)
  then obtain s' where "fd_step 1 (Use_get 3) ?s4 = Inr s'" using descriptors_are_counted [OF 4] by blast
  then show ?thesis using 4 by (intro exI [of _ ?s4] exI [of _ s']) simp
qed

end
