(* ===== verification/Scaner_Create.thy ===== *)
theory Scaner_Create
  imports Image_Node
begin

text \<open>
  The creation, start and destruction of the scaner, \<^verbatim>\<open>applications/image_scaner.c\<close>, with the kernel objects it makes on the heap: allocation and
  deletion of objects (\<^verbatim>\<open>object.c\<close>), creation, start and deletion of threads (\<^verbatim>\<open>thread.c\<close>), creation and deletion of semaphores and mutexes (\<^verbatim>\<open>ipc.c\<close>), and the
  release of finished threads by the idle thread (\<^verbatim>\<open>idle.c\<close>). The sizes of the objects are a parameter. A world holds the heap, what the blocks
  contain, the lists of objects by class and the list of finished threads; the ready table and the timer list, from which a
  deleted thread is also taken off, are those of \<open>Kernel\<close> and \<open>Timer\<close>. The threads have neither cleanup functions nor signals.
  The predicate \<open>adds\<close> says which blocks a world has more than another; the lemmas follow it through every operation.
\<close>

section \<open>Kernel objects on the heap\<close>

datatype oclass = OThread | OMutex | OSem

text \<open>
  The fields that creation sets: value of a semaphore or mutex, owner, count and saved priority of a mutex, stack and status of a thread, and the threads
  waiting for the object. All objects here are dynamic ones, so the test for static objects never applies.
\<close>

record kobj =
  ocls :: oclass
  oname :: string
  oflag :: nat
  ovalue :: nat
  ostack :: ptr
  ostat :: nat
  owaits :: "nat list"
  oowner :: ptr
  ohold :: nat
  oprio :: nat

abbreviation (input) RT_THREAD_INIT :: nat where "RT_THREAD_INIT \<equiv> 0"
abbreviation (input) RT_THREAD_READY :: nat where "RT_THREAD_READY \<equiv> 1"
abbreviation (input) RT_THREAD_CLOSE :: nat where "RT_THREAD_CLOSE \<equiv> 4"
abbreviation (input) RT_NAME_MAX :: nat where "RT_NAME_MAX \<equiv> 16"
abbreviation (input) FLAG_FIFO :: nat where "FLAG_FIFO \<equiv> 0"
abbreviation (input) FLAG_PRIO :: nat where "FLAG_PRIO \<equiv> 1"

record image_scaner =
  image_list :: "ptr list"
  scaning_list :: "ptr list"
  is_running :: bool
  top_dir :: ptr
  worker :: ptr
  lists_mutex :: ptr
  trig_sem :: ptr
  done_sem :: ptr
  stop_sem :: ptr

record world =
  wmem :: app_mem
  kobjs :: "ptr \<rightharpoonup> kobj"
  olist :: "oclass \<Rightarrow> ptr list"
  scaners :: "ptr \<rightharpoonup> image_scaner"
  defunct :: "ptr list"
  resumed :: "nat list"

definition kobj_at :: "world \<Rightarrow> ptr \<Rightarrow> kobj cres" where
  "kobj_at w p = (if p = RT_NULL then Inl NullDeref else case kobjs w p of None \<Rightarrow> Inl WildDeref | Some k \<Rightarrow> Inr k)"

definition scaner_at :: "world \<Rightarrow> ptr \<Rightarrow> image_scaner cres" where
  "scaner_at w p = (if p = RT_NULL then Inl NullDeref else case scaners w p of None \<Rightarrow> Inl WildDeref | Some s \<Rightarrow> Inr s)"

definition wmalloc :: "nat \<Rightarrow> world \<Rightarrow> (ptr \<times> world) cres" where
  "wmalloc n w = cbind (rt_malloc n (wmem w)) (\<lambda>(p, m). Inr (p, w\<lparr>wmem := m\<rparr>))"

definition wfree :: "ptr \<Rightarrow> world \<Rightarrow> world cres" where
  "wfree p w = cbind (rt_free p (wmem w)) (\<lambda>m. Inr (w\<lparr>wmem := m, kobjs := (kobjs w)(p := None), scaners := (scaners w)(p := None)\<rparr>))"

definition set_kobj :: "ptr \<Rightarrow> kobj \<Rightarrow> world \<Rightarrow> world" where
  "set_kobj p k w = w\<lparr>kobjs := (kobjs w)(p \<mapsto> k)\<rparr>"

definition rt_object_allocate :: "(oclass \<Rightarrow> nat) \<Rightarrow> oclass \<Rightarrow> string \<Rightarrow> world \<Rightarrow> (ptr \<times> world) cres" where
  "rt_object_allocate sz c name w =
     cbind (wmalloc (sz c) w) (\<lambda>(p, w).
       if p = RT_NULL then Inr (RT_NULL, w)
       else Inr (p, set_kobj p \<lparr>ocls = c, oname = take RT_NAME_MAX name, oflag = 0, ovalue = 0, ostack = RT_NULL, ostat = 0, owaits = [], oowner = RT_NULL, ohold = 0, oprio = 0\<rparr>
                      (w\<lparr>olist := (olist w)(c := p # olist w c)\<rparr>)))"

definition rt_object_delete :: "ptr \<Rightarrow> world \<Rightarrow> world cres" where
  "rt_object_delete p w =
     cbind (rt_assert (p \<noteq> RT_NULL)) (\<lambda>_. cbind (kobj_at w p) (\<lambda>k.
       wfree p (w\<lparr>olist := (olist w)(ocls k := removeAll p (olist w (ocls k)))\<rparr>)))"

definition rt_sem_create :: "(oclass \<Rightarrow> nat) \<Rightarrow> string \<Rightarrow> nat \<Rightarrow> nat \<Rightarrow> world \<Rightarrow> (ptr \<times> world) cres" where
  "rt_sem_create sz name value flag w =
     cbind (rt_assert (value < 0x10000)) (\<lambda>_. cbind (rt_assert (flag = FLAG_FIFO \<or> flag = FLAG_PRIO)) (\<lambda>_.
     cbind (rt_object_allocate sz OSem name w) (\<lambda>(p, w).
       if p = RT_NULL then Inr (p, w)
       else cbind (kobj_at w p) (\<lambda>k. Inr (p, set_kobj p (k\<lparr>owaits := [], ovalue := value, oflag := flag\<rparr>) w)))))"

definition rt_mutex_create :: "(oclass \<Rightarrow> nat) \<Rightarrow> string \<Rightarrow> nat \<Rightarrow> world \<Rightarrow> (ptr \<times> world) cres" where
  "rt_mutex_create sz name flag w =
     cbind (rt_object_allocate sz OMutex name w) (\<lambda>(p, w).
       if p = RT_NULL then Inr (p, w)
       else cbind (kobj_at w p) (\<lambda>k. Inr (p, set_kobj p (k\<lparr>owaits := [], ovalue := 1, oowner := RT_NULL, oprio := 255, ohold := 0, oflag := FLAG_PRIO\<rparr>) w)))"

text \<open>\<open>rt_sem_delete\<close> and \<open>rt_mutex_delete\<close>, which differ in the class they check.\<close>

definition ipc_delete :: "oclass \<Rightarrow> ptr \<Rightarrow> world \<Rightarrow> world cres" where
  "ipc_delete c p w =
     cbind (rt_assert (p \<noteq> RT_NULL)) (\<lambda>_. cbind (kobj_at w p) (\<lambda>k. cbind (rt_assert (ocls k = c)) (\<lambda>_.
       rt_object_delete p (set_kobj p (k\<lparr>owaits := []\<rparr>) (w\<lparr>resumed := resumed w @ owaits k\<rparr>)))))"

definition rt_thread_create :: "(oclass \<Rightarrow> nat) \<Rightarrow> string \<Rightarrow> nat \<Rightarrow> world \<Rightarrow> (ptr \<times> world) cres" where
  "rt_thread_create sz name stack_size w =
     cbind (rt_object_allocate sz OThread name w) (\<lambda>(p, w).
       if p = RT_NULL then Inr (RT_NULL, w)
       else cbind (wmalloc stack_size w) (\<lambda>(st, w).
            if st = RT_NULL then cbind (rt_object_delete p w) (\<lambda>w. Inr (RT_NULL, w))
            else cbind (kobj_at w p) (\<lambda>k. Inr (p, set_kobj p (k\<lparr>ostack := st, ostat := RT_THREAD_INIT\<rparr>) w))))"

text \<open>The new status; the table of ready threads is the subject of \<open>Kernel\<close>.\<close>

definition rt_thread_startup :: "ptr \<Rightarrow> world \<Rightarrow> world cres" where
  "rt_thread_startup p w =
     cbind (rt_assert (p \<noteq> RT_NULL)) (\<lambda>_. cbind (kobj_at w p) (\<lambda>k. cbind (rt_assert (ostat k = RT_THREAD_INIT)) (\<lambda>_. cbind (rt_assert (ocls k = OThread)) (\<lambda>_.
       Inr (set_kobj p (k\<lparr>ostat := RT_THREAD_READY\<rparr>) w)))))"

text \<open>A thread is closed and queued for the idle thread by \<open>rt_thread_delete\<close>, or by itself when its function returns.\<close>

definition thread_close :: "ptr \<Rightarrow> kobj \<Rightarrow> world \<Rightarrow> world" where
  "thread_close p k w = set_kobj p (k\<lparr>ostat := RT_THREAD_CLOSE\<rparr>) (w\<lparr>defunct := p # defunct w\<rparr>)"

definition rt_thread_delete :: "ptr \<Rightarrow> world \<Rightarrow> world cres" where
  "rt_thread_delete p w =
     cbind (rt_assert (p \<noteq> RT_NULL)) (\<lambda>_. cbind (kobj_at w p) (\<lambda>k. cbind (rt_assert (ocls k = OThread)) (\<lambda>_.
       if ostat k = RT_THREAD_CLOSE then Inr w else Inr (thread_close p k w))))"

definition thread_exit :: "ptr \<Rightarrow> world \<Rightarrow> world cres" where
  "thread_exit p w = cbind (kobj_at w p) (\<lambda>k. Inr (thread_close p k w))"

fun defunct_loop :: "ptr list \<Rightarrow> world \<Rightarrow> world cres" where
  "defunct_loop [] w = Inr w"
| "defunct_loop (p # ps) w = cbind (kobj_at w p) (\<lambda>k. cbind (wfree (ostack k) w) (\<lambda>w. cbind (rt_object_delete p w) (defunct_loop ps)))"

definition rt_defunct_execute :: "world \<Rightarrow> world cres" where
  "rt_defunct_execute w = defunct_loop (defunct w) (w\<lparr>defunct := []\<rparr>)"

section \<open>The scaner\<close>

abbreviation (input) SCANER_STACK_SIZE :: nat where "SCANER_STACK_SIZE \<equiv> 4096"
abbreviation (input) SIZEOF_SCANER :: nat where "SIZEOF_SCANER \<equiv> 44"

definition no_scaner :: image_scaner where
  "no_scaner = \<lparr>image_list = [], scaning_list = [], is_running = False, top_dir = RT_NULL, worker = RT_NULL, lists_mutex = RT_NULL,
     trig_sem = RT_NULL, done_sem = RT_NULL, stop_sem = RT_NULL\<rparr>"

definition scaner_calloc :: "world \<Rightarrow> (ptr \<times> world) cres" where
  "scaner_calloc w = cbind (rt_calloc SIZEOF_SCANER 1 (wmem w)) (\<lambda>(p, m).
     Inr (p, w\<lparr>wmem := m, scaners := (if p = RT_NULL then scaners w else (scaners w)(p \<mapsto> no_scaner))\<rparr>))"

definition scaner_strdup :: "char list \<Rightarrow> world \<Rightarrow> (ptr \<times> world) cres" where
  "scaner_strdup d w = cbind (rt_strdup (Some d) (wmem w)) (\<lambda>(p, m). Inr (p, w\<lparr>wmem := m\<rparr>))"

text \<open>\<open>image_scaner_create\<close> from the creation of each of the semaphores on. After a failure to create one of them the code goes on.\<close>

definition create_stop :: "(oclass \<Rightarrow> nat) \<Rightarrow> char list \<Rightarrow> ptr \<Rightarrow> ptr \<Rightarrow> ptr \<Rightarrow> ptr \<Rightarrow> ptr \<Rightarrow> world \<Rightarrow> (ptr \<times> world) cres" where
  "create_stop sz d sc thread mutex trig don w =
     cbind (rt_sem_create sz ''IS_stop_sem'' 0 FLAG_FIFO w) (\<lambda>(stop, w).
     cbind (if stop = RT_NULL then cbind (wfree sc w) (\<lambda>w. cbind (ipc_delete OMutex mutex w) (\<lambda>w. cbind (rt_thread_delete thread w) (\<lambda>w.
              cbind (ipc_delete OSem trig w) (ipc_delete OSem don)))) else Inr w) (\<lambda>w.
     cbind (scaner_at w sc) (\<lambda>s. cbind (scaner_strdup d (w\<lparr>scaners := (scaners w)(sc \<mapsto> s\<lparr>image_list := [], scaning_list := [], is_running := True\<rparr>)\<rparr>)) (\<lambda>(tp, w).
     cbind (scaner_at w sc) (\<lambda>s. Inr (sc, w\<lparr>scaners := (scaners w)(sc \<mapsto> s\<lparr>top_dir := tp, worker := thread, lists_mutex := mutex,
        trig_sem := trig, stop_sem := stop, done_sem := don\<rparr>)\<rparr>))))))"

definition create_done :: "(oclass \<Rightarrow> nat) \<Rightarrow> char list \<Rightarrow> ptr \<Rightarrow> ptr \<Rightarrow> ptr \<Rightarrow> ptr \<Rightarrow> world \<Rightarrow> (ptr \<times> world) cres" where
  "create_done sz d sc thread mutex trig w =
     cbind (rt_sem_create sz ''IS_done_sem'' 0 FLAG_FIFO w) (\<lambda>(don, w).
     cbind (if don = RT_NULL then cbind (wfree sc w) (\<lambda>w. cbind (rt_thread_delete thread w) (\<lambda>w. cbind (ipc_delete OMutex mutex w) (ipc_delete OSem trig))) else Inr w)
       (create_stop sz d sc thread mutex trig don))"

definition create_sems :: "(oclass \<Rightarrow> nat) \<Rightarrow> char list \<Rightarrow> ptr \<Rightarrow> ptr \<Rightarrow> ptr \<Rightarrow> world \<Rightarrow> (ptr \<times> world) cres" where
  "create_sems sz d sc thread mutex w =
     cbind (rt_sem_create sz ''IS_trig_sem'' 0 FLAG_FIFO w) (\<lambda>(trig, w).
     cbind (if trig = RT_NULL then cbind (wfree sc w) (\<lambda>w. cbind (rt_thread_delete thread w) (ipc_delete OMutex mutex)) else Inr w)
       (create_done sz d sc thread mutex trig))"

definition image_scaner_create :: "(oclass \<Rightarrow> nat) \<Rightarrow> char list option \<Rightarrow> world \<Rightarrow> (ptr \<times> world) cres" where
  "image_scaner_create sz dir w = (case dir of
     None \<Rightarrow> Inr (RT_NULL, w)
   | Some d \<Rightarrow>
       cbind (scaner_calloc w) (\<lambda>(sc, w).
       if sc = RT_NULL then Inr (RT_NULL, w)
       else cbind (rt_thread_create sz ''scaner'' SCANER_STACK_SIZE w) (\<lambda>(thread, w).
       if thread = RT_NULL then cbind (wfree sc w) (\<lambda>w. Inr (RT_NULL, w))
       else cbind (rt_mutex_create sz ''IS_mtx'' FLAG_FIFO w) (\<lambda>(mutex, w).
       if mutex = RT_NULL then cbind (wfree sc w) (\<lambda>w. cbind (rt_thread_delete thread w) (\<lambda>w. Inr (RT_NULL, w)))
       else create_sems sz d sc thread mutex w))))"

definition image_scaner_start :: "ptr \<Rightarrow> world \<Rightarrow> (bool \<times> world) cres" where
  "image_scaner_start sc w =
     (if sc = RT_NULL then Inr (False, w) else cbind (scaner_at w sc) (\<lambda>s. cbind (rt_thread_startup (worker s) w) (\<lambda>w. Inr (True, w))))"

text \<open>\<open>stop\<close> is what \<open>image_scaner_stop\<close> does, with what other threads do until it returns.\<close>

definition image_scaner_destroy :: "(ptr \<Rightarrow> world \<Rightarrow> world cres) \<Rightarrow> ptr \<Rightarrow> world \<Rightarrow> world cres" where
  "image_scaner_destroy stop sc w =
     (if sc = RT_NULL then Inr w
      else cbind (scaner_at w sc) (\<lambda>s. cbind (if is_running s then stop sc w else Inr w) (\<lambda>w.
           cbind (scaner_at w sc) (\<lambda>s.
           cbind (ipc_delete OSem (stop_sem s) w) (\<lambda>w. cbind (ipc_delete OSem (done_sem s) w) (\<lambda>w. cbind (ipc_delete OSem (trig_sem s) w) (\<lambda>w.
           cbind (ipc_delete OMutex (lists_mutex s) w) (\<lambda>w. cbind (rt_thread_delete (worker s) w) (\<lambda>w.
           cbind (wfree (top_dir s) w) (\<lambda>w. wfree sc w))))))))))"

text \<open>
  When \<open>image_scaner_stop\<close> returns the worker has released \<open>stop_sem\<close>. By then it may still have to leave its function, may have left it, or
  may also have been released by the idle thread already.
\<close>

datatype worker_progress = InWork | Exited | Reaped

definition stop_seen :: "worker_progress \<Rightarrow> ptr \<Rightarrow> world \<Rightarrow> world cres" where
  "stop_seen g sc w = cbind (scaner_at w sc) (\<lambda>s.
     let w = w\<lparr>scaners := (scaners w)(sc \<mapsto> s\<lparr>is_running := False\<rparr>)\<rparr>
     in case g of InWork \<Rightarrow> Inr w | Exited \<Rightarrow> thread_exit (worker s) w | Reaped \<Rightarrow> cbind (thread_exit (worker s) w) rt_defunct_execute)"

section \<open>Blocks\<close>

definition world_ok :: "world \<Rightarrow> bool" where
  "world_ok w \<longleftrightarrow> app_ok (wmem w) \<and> dom (kobjs w) \<subseteq> haddrs (wmem w) \<and> dom (scaners w) \<subseteq> haddrs (wmem w) \<and> (\<forall>c. set (olist w c) \<subseteq> haddrs (wmem w))"

text \<open>The world \<open>w'\<close> has exactly the blocks \<open>ps\<close> more than \<open>w\<close>; outside of them nothing has changed.\<close>

definition adds :: "world \<Rightarrow> ptr list \<Rightarrow> world \<Rightarrow> bool" where
  "adds w ps w' \<longleftrightarrow> app_ok (wmem w') \<and> haddrs (wmem w') = haddrs (wmem w) \<union> set ps \<and> distinct ps \<and> set ps \<inter> haddrs (wmem w) = {} \<and> RT_NULL \<notin> set ps \<and> (\<forall>p \<in> set ps. strs (wmem w) p = None)
     \<and> (\<forall>q. q \<notin> set ps \<longrightarrow> kobjs w' q = kobjs w q \<and> scaners w' q = scaners w q \<and> strs (wmem w') q = strs (wmem w) q)
     \<and> (\<forall>c. filter (\<lambda>q. q \<notin> set ps) (olist w' c) = olist w c)
     \<and> (\<forall>c q. q \<in> set (olist w' c) \<longrightarrow> q \<in> set ps \<longrightarrow> (\<exists>k. kobjs w' q = Some k \<and> ocls k = c))"

lemma adds_refl: "world_ok w \<Longrightarrow> adds w [] w"
  by (simp add: adds_def world_ok_def)

lemma adds_fresh:
  assumes "world_ok w" "adds w ps w'" "p \<notin> haddrs (wmem w')"
  shows "kobjs w' p = None" "scaners w' p = None" "p \<notin> set (olist w' c)"
proof -
  have p: "p \<notin> set ps" "p \<notin> haddrs (wmem w)" using assms(2,3) by (auto simp: adds_def)
  have "kobjs w p = None" "scaners w p = None" "p \<notin> set (olist w c)" using assms(1) p(2) by (auto simp: world_ok_def)
  then show "kobjs w' p = None" "scaners w' p = None" using assms(2) p(1) by (auto simp: adds_def)
  show "p \<notin> set (olist w' c)"
  proof
    assume "p \<in> set (olist w' c)"
    then have "p \<in> set (filter (\<lambda>q. q \<notin> set ps) (olist w' c))" using p(1) by simp
    moreover have "filter (\<lambda>q. q \<notin> set ps) (olist w' c) = olist w c" using assms(2) by (simp add: adds_def)
    ultimately show False using \<open>p \<notin> set (olist w c)\<close> by simp
  qed
qed

text \<open>A block more.\<close>

lemma adds_block:
  assumes "world_ok w" "adds w ps w'" "p \<noteq> RT_NULL" "p \<notin> haddrs (wmem w')" "strs (wmem w') p = None" "app_ok m" "haddrs m = insert p (haddrs (wmem w'))" "\<And>q. q \<noteq> p \<Longrightarrow> strs m q = strs (wmem w') q"
  shows "adds w (p # ps) (w'\<lparr>wmem := m\<rparr>)"
proof -
  have f: "filter (\<lambda>q. q \<notin> set (p # ps)) (olist w' c) = filter (\<lambda>q. q \<notin> set ps) (olist w' c)" for c
    by (rule filter_cong) (use adds_fresh(3) [OF assms(1,2,4)] in auto)
  show ?thesis unfolding adds_def
  proof (intro conjI allI impI)
    fix c show "filter (\<lambda>q. q \<notin> set (p # ps)) (olist (w'\<lparr>wmem := m\<rparr>) c) = olist w c" using f [of c] assms(2) by (simp add: adds_def)
  next
    fix c q assume "q \<in> set (olist (w'\<lparr>wmem := m\<rparr>) c)" "q \<in> set (p # ps)"
    then show "\<exists>k. kobjs (w'\<lparr>wmem := m\<rparr>) q = Some k \<and> ocls k = c" using adds_fresh(3) [OF assms(1,2,4), of c] assms(2) by (auto simp: adds_def)
  qed (use assms in \<open>auto simp: adds_def\<close>)
qed

lemma adds_malloc:
  assumes "world_ok w" "adds w ps w'" "0 < n" "n \<le> 2 ^ 32 - 4"
  obtains p m where "wmalloc n w' = Inr (p, w'\<lparr>wmem := m\<rparr>)"
    "p = RT_NULL \<and> adds w ps (w'\<lparr>wmem := m\<rparr>) \<or> p \<noteq> RT_NULL \<and> p \<notin> haddrs (wmem w') \<and> p \<in> haddrs m \<and> adds w (p # ps) (w'\<lparr>wmem := m\<rparr>)"
proof -
  have ok: "app_ok (wmem w')" using assms(2) by (simp add: adds_def)
  obtain p m where m: "rt_malloc n (wmem w') = Inr (p, m)" "allocated (wmem w') p m" "same_view (wmem w') m" using rt_malloc_allocated [OF ok assms(3,4)] .
  have st: "strs m = strs (wmem w')" using m(3) by (simp add: same_view_def)
  show thesis
  proof (cases "p = RT_NULL")
    case True
    then have "adds w ps (w'\<lparr>wmem := m\<rparr>)" using assms(2) m(2) st by (auto simp: adds_def allocated_def)
    then show thesis using that m(1) True by (simp add: wmalloc_def)
  next
    case False
    then have "p \<notin> haddrs (wmem w')" "app_ok m" "haddrs m = insert p (haddrs (wmem w'))" "strs (wmem w') p = None" using m(2) by (auto simp: allocated_def objs_def)
    then show thesis using that [of p m] m(1) False adds_block [OF assms(1,2) False, of m] st by (simp add: wmalloc_def)
  qed
qed

text \<open>What is written to a new block.\<close>

lemma adds_set: "adds w ps w' \<Longrightarrow> p \<in> set ps \<Longrightarrow> (\<And>c. p \<in> set (olist w' c) \<Longrightarrow> ocls k = c) \<Longrightarrow> adds w ps (set_kobj p k w')"
  by (auto simp: adds_def set_kobj_def)

lemma adds_scaner: "adds w ps w' \<Longrightarrow> p \<in> set ps \<Longrightarrow> adds w ps (w'\<lparr>scaners := (scaners w')(p \<mapsto> s)\<rparr>)"
  by (auto simp: adds_def)

lemma adds_defunct: "adds w ps (w'\<lparr>defunct := d\<rparr>) = adds w ps w'" "adds w ps (w'\<lparr>resumed := r\<rparr>) = adds w ps w'"
  by (simp_all add: adds_def)

lemma adds_free:
  assumes "world_ok w" "adds w ps w'" "p \<in> set ps" "\<And>c. p \<notin> set (olist w' c)"
  obtains w'' where "wfree p w' = Inr w''" "adds w (remove1 p ps) w''" "kobjs w'' = (kobjs w')(p := None)" "scaners w'' = (scaners w')(p := None)" "defunct w'' = defunct w'" "olist w'' = olist w'"
proof -
  have ok: "app_ok (wmem w')" "p \<in> haddrs (wmem w')" and d: "distinct ps" and st: "strs (wmem w) p = None" and pw: "p \<notin> haddrs (wmem w)" using assms(2,3) by (auto simp: adds_def)
  obtain m where m: "rt_free p (wmem w') = Inr m" "app_ok m" "haddrs m = haddrs (wmem w') - {p}" "strs m = (strs (wmem w'))(p := None)" using rt_free_ok [OF ok] by metis
  let ?w = "w'\<lparr>wmem := m, kobjs := (kobjs w')(p := None), scaners := (scaners w')(p := None)\<rparr>"
  have ps: "set (remove1 p ps) = set ps - {p}" using d by simp
  have old: "kobjs w p = None" "scaners w p = None" using assms(1) pw by (auto simp: world_ok_def)
  have "adds w (remove1 p ps) ?w" unfolding adds_def
  proof (intro conjI allI impI)
    fix c
    have "filter (\<lambda>q. q \<notin> set (remove1 p ps)) (olist w' c) = filter (\<lambda>q. q \<notin> set ps) (olist w' c)" by (rule filter_cong) (use assms(4) [of c] ps in auto)
    then show "filter (\<lambda>q. q \<notin> set (remove1 p ps)) (olist ?w c) = olist w c" using assms(2) by (simp add: adds_def)
  next
    fix c q assume "q \<in> set (olist ?w c)" "q \<in> set (remove1 p ps)"
    then show "\<exists>k. kobjs ?w q = Some k \<and> ocls k = c" using assms(2) ps by (auto simp: adds_def)
  next
    show "haddrs (wmem ?w) = haddrs (wmem w) \<union> set (remove1 p ps)" using m(3) assms(2) ps pw by (auto simp: adds_def)
  qed (use assms(2) m(2,4) ps d st old in \<open>auto simp: adds_def\<close>)
  then show thesis using that [of ?w] m(1) by (simp add: wfree_def)
qed

lemma adds_object:
  assumes "world_ok w" "adds w ps w'" "0 < sz c" "sz c \<le> 2 ^ 32 - 4"
  obtains p w'' where "rt_object_allocate sz c name w' = Inr (p, w'')" "scaners w'' = scaners w'" "defunct w'' = defunct w'"
    "p = RT_NULL \<and> adds w ps w'' \<and> kobjs w'' = kobjs w' \<or> p \<noteq> RT_NULL \<and> p \<notin> haddrs (wmem w') \<and> adds w (p # ps) w''
       \<and> kobjs w'' = (kobjs w')(p \<mapsto> \<lparr>ocls = c, oname = take RT_NAME_MAX name, oflag = 0, ovalue = 0, ostack = RT_NULL, ostat = 0, owaits = [], oowner = RT_NULL, ohold = 0, oprio = 0\<rparr>)
       \<and> (\<forall>d. p \<in> set (olist w'' d) \<longrightarrow> d = c)"
proof -
  obtain p m where m: "wmalloc (sz c) w' = Inr (p, w'\<lparr>wmem := m\<rparr>)"
    "p = RT_NULL \<and> adds w ps (w'\<lparr>wmem := m\<rparr>) \<or> p \<noteq> RT_NULL \<and> p \<notin> haddrs (wmem w') \<and> p \<in> haddrs m \<and> adds w (p # ps) (w'\<lparr>wmem := m\<rparr>)"
    by (rule adds_malloc [OF assms])
  show thesis
  proof (cases "p = RT_NULL")
    case True
    then show thesis using that [of p "w'\<lparr>wmem := m\<rparr>"] m by (simp add: rt_object_allocate_def)
  next
    case False
    then have n: "p \<notin> haddrs (wmem w')" "adds w (p # ps) (w'\<lparr>wmem := m\<rparr>)" using m(2) by auto
    let ?k = "\<lparr>ocls = c, oname = take RT_NAME_MAX name, oflag = 0, ovalue = 0, ostack = RT_NULL, ostat = 0, owaits = [], oowner = RT_NULL, ohold = 0, oprio = 0\<rparr>"
    let ?w = "set_kobj p ?k (w'\<lparr>wmem := m, olist := (olist w')(c := p # olist w' c)\<rparr>)"
    have no: "p \<notin> set (olist w' d)" for d by (rule adds_fresh(3) [OF assms(1,2) n(1)])
    have "adds w (p # ps) ?w" using n(2) no by (auto simp: adds_def set_kobj_def)
    then show thesis using that [of p ?w] m(1) False n(1) no by (auto simp: rt_object_allocate_def set_kobj_def)
  qed
qed

lemma adds_delete:
  assumes "world_ok w" "adds w ps w'" "p \<in> set ps" "kobjs w' p = Some k"
  obtains w'' where "rt_object_delete p w' = Inr w''" "adds w (remove1 p ps) w''" "kobjs w'' = (kobjs w')(p := None)" "scaners w'' = (scaners w')(p := None)" "defunct w'' = defunct w'"
proof -
  let ?w = "w'\<lparr>olist := (olist w')(ocls k := removeAll p (olist w' (ocls k)))\<rparr>"
  have nz: "p \<noteq> RT_NULL" using assms(2,3) by (auto simp: adds_def)
  have own: "p \<in> set (olist w' c) \<Longrightarrow> c = ocls k" for c using assms(2-4) unfolding adds_def by (metis option.inject)
  have "filter (\<lambda>q. q \<notin> set ps) (removeAll p (olist w' c)) = filter (\<lambda>q. q \<notin> set ps) (olist w' c)" for c
    unfolding removeAll_filter_not_eq filter_filter by (rule filter_cong) (use assms(3) in auto)
  then have mo: "adds w ps ?w" using assms(2) by (auto simp: adds_def)
  have "p \<notin> set (olist ?w c)" for c using own by auto
  then obtain w'' where "wfree p ?w = Inr w''" "adds w (remove1 p ps) w''" "kobjs w'' = (kobjs w')(p := None)" "scaners w'' = (scaners w')(p := None)" "defunct w'' = defunct w'"
    using adds_free [OF assms(1) mo assms(3)] by auto
  then show thesis using that [of w''] assms(4) nz by (simp add: rt_object_delete_def kobj_at_def)
qed

section \<open>Objects come and go\<close>

lemma adds_changed:
  assumes "adds w ps w'" "p \<in> set ps" "kobjs w' p = Some k" "ocls k' = ocls k"
  shows "adds w ps (set_kobj p k' w')"
proof (rule adds_set [OF assms(1,2)])
  fix c assume "p \<in> set (olist w' c)"
  then show "ocls k' = c" using assms unfolding adds_def by (metis option.inject)
qed

text \<open>The outcomes of the creation of an object that is one block.\<close>

definition created :: "world \<Rightarrow> ptr list \<Rightarrow> world \<Rightarrow> oclass \<Rightarrow> ptr \<Rightarrow> world \<Rightarrow> bool" where
  "created w ps w' c p w'' \<longleftrightarrow> scaners w'' = scaners w' \<and> defunct w'' = defunct w'
     \<and> (p = RT_NULL \<and> adds w ps w'' \<and> kobjs w'' = kobjs w'
        \<or> p \<noteq> RT_NULL \<and> p \<notin> haddrs (wmem w') \<and> adds w (p # ps) w'' \<and> (\<exists>k. ocls k = c \<and> kobjs w'' = (kobjs w')(p \<mapsto> k)))"

lemma created_changed:
  assumes "created w ps w' c p w''" "p \<noteq> RT_NULL" "\<And>k. ocls (f k) = ocls k"
  shows "\<exists>k. kobj_at w'' p = Inr k \<and> created w ps w' c p (set_kobj p (f k) w'')"
proof -
  obtain k where k: "ocls k = c" "kobjs w'' = (kobjs w')(p \<mapsto> k)" "p \<notin> haddrs (wmem w')" "adds w (p # ps) w''" using assms(1,2) by (auto simp: created_def)
  have "adds w (p # ps) (set_kobj p (f k) w'')" using adds_changed [OF k(4), of p k "f k"] k(2) assms(3) by simp
  then show ?thesis using k assms by (auto simp: created_def kobj_at_def set_kobj_def)
qed

lemma object_created:
  assumes "world_ok w" "adds w ps w'" "0 < sz c" "sz c \<le> 2 ^ 32 - 4"
  obtains p w'' where "rt_object_allocate sz c name w' = Inr (p, w'')" "created w ps w' c p w''"
  using adds_object [where name = name and sz = sz and c = c, OF assms] unfolding created_def by (metis kobj.select_convs(1))

lemma sem_created:
  assumes "world_ok w" "adds w ps w'" "0 < sz OSem" "sz OSem \<le> 2 ^ 32 - 4"
  obtains p w'' where "rt_sem_create sz name 0 FLAG_FIFO w' = Inr (p, w'')" "created w ps w' OSem p w''"
proof -
  obtain p w'' where p: "rt_object_allocate sz OSem name w' = Inr (p, w'')" "created w ps w' OSem p w''" by (rule object_created [where sz = sz and c = OSem, OF assms])
  show thesis
  proof (cases "p = RT_NULL")
    case True
    then show thesis using that p by (simp add: rt_sem_create_def)
  next
    case False
    then show thesis using that p created_changed [OF p(2) False, of "\<lambda>k. k\<lparr>owaits := [], ovalue := 0, oflag := FLAG_FIFO\<rparr>"] by (auto simp: rt_sem_create_def)
  qed
qed

lemma mutex_created:
  assumes "world_ok w" "adds w ps w'" "0 < sz OMutex" "sz OMutex \<le> 2 ^ 32 - 4"
  obtains p w'' where "rt_mutex_create sz name flag w' = Inr (p, w'')" "created w ps w' OMutex p w''"
proof -
  obtain p w'' where p: "rt_object_allocate sz OMutex name w' = Inr (p, w'')" "created w ps w' OMutex p w''" by (rule object_created [where sz = sz and c = OMutex, OF assms])
  show thesis
  proof (cases "p = RT_NULL")
    case True
    then show thesis using that p by (simp add: rt_mutex_create_def)
  next
    case False
    then show thesis using that p created_changed [OF p(2) False, of "\<lambda>k. k\<lparr>owaits := [], ovalue := 1, oowner := RT_NULL, oprio := 255, ohold := 0, oflag := FLAG_PRIO\<rparr>"] by (auto simp: rt_mutex_create_def)
  qed
qed

lemma ipc_deleted:
  assumes "world_ok w" "adds w ps w'" "p \<in> set ps" "kobjs w' p = Some k" "ocls k = c"
  obtains w'' where "ipc_delete c p w' = Inr w''" "adds w (remove1 p ps) w''" "kobjs w'' = (kobjs w')(p := None)" "scaners w'' = (scaners w')(p := None)" "defunct w'' = defunct w'"
proof -
  let ?k = "k\<lparr>owaits := []\<rparr>" and ?r = "w'\<lparr>resumed := resumed w' @ owaits k\<rparr>"
  have nz: "p \<noteq> RT_NULL" using assms(2,3) by (auto simp: adds_def)
  have m: "adds w ps (set_kobj p ?k ?r)" by (rule adds_changed [of w ps ?r p k]) (use assms in \<open>simp_all add: adds_defunct\<close>)
  obtain w'' where "rt_object_delete p (set_kobj p ?k ?r) = Inr w''" "adds w (remove1 p ps) w''" "kobjs w'' = (kobjs w')(p := None)" "scaners w'' = (scaners w')(p := None)" "defunct w'' = defunct w'"
    by (rule adds_delete [OF assms(1) m assms(3), of ?k]) (auto simp: set_kobj_def)
  then show thesis using that [of w''] assms(4,5) nz by (simp add: ipc_delete_def kobj_at_def)
qed

text \<open>A thread, with its stack.\<close>

lemma thread_created:
  assumes ok: "world_ok w" "adds w ps w'" and sz: "0 < sz OThread" "sz OThread \<le> 2 ^ 32 - 4" "0 < n" "n \<le> 2 ^ 32 - 4"
  obtains p st k w'' where "rt_thread_create sz name n w' = Inr (p, w'')" "defunct w'' = defunct w'"
    "p = RT_NULL \<and> adds w ps w'' \<and> (\<forall>q \<in> set ps. kobjs w'' q = kobjs w' q \<and> scaners w'' q = scaners w' q)
     \<or> p \<noteq> RT_NULL \<and> adds w (st # p # ps) w'' \<and> kobjs w'' = (kobjs w')(p \<mapsto> k) \<and> scaners w'' = scaners w' \<and> ocls k = OThread \<and> ostack k = st \<and> ostat k = RT_THREAD_INIT"
proof -
  obtain p w1 where p: "rt_object_allocate sz OThread name w' = Inr (p, w1)" "created w ps w' OThread p w1" by (rule object_created [where sz = sz and c = OThread, OF ok sz(1,2)])
  show thesis
  proof (cases "p = RT_NULL")
    case True
    then show thesis using that [of p w1] p by (auto simp: rt_thread_create_def created_def)
  next
    case False
    then obtain k where k: "ocls k = OThread" "kobjs w1 = (kobjs w')(p \<mapsto> k)" "p \<notin> haddrs (wmem w')" "adds w (p # ps) w1" "scaners w1 = scaners w'" "defunct w1 = defunct w'"
      using p(2) by (auto simp: created_def)
    have pp: "p \<notin> set ps" using k(4) by (simp add: adds_def)
    obtain st m where st: "wmalloc n w1 = Inr (st, w1\<lparr>wmem := m\<rparr>)"
      "st = RT_NULL \<and> adds w (p # ps) (w1\<lparr>wmem := m\<rparr>) \<or> st \<noteq> RT_NULL \<and> st \<notin> haddrs (wmem w1) \<and> st \<in> haddrs m \<and> adds w (st # p # ps) (w1\<lparr>wmem := m\<rparr>)"
      by (rule adds_malloc [OF ok(1) k(4) sz(3,4)])
    show thesis
    proof (cases "st = RT_NULL")
      case True
      then have "adds w (p # ps) (w1\<lparr>wmem := m\<rparr>)" using st(2) by simp
      then obtain w2 where w2: "rt_object_delete p (w1\<lparr>wmem := m\<rparr>) = Inr w2" "adds w (remove1 p (p # ps)) w2" "kobjs w2 = (kobjs w1)(p := None)" "scaners w2 = (scaners w1)(p := None)" "defunct w2 = defunct w1"
        using adds_delete [OF ok(1), of "p # ps" "w1\<lparr>wmem := m\<rparr>" p k] k(2) by auto
      have "rt_thread_create sz name n w' = Inr (RT_NULL, w2)" using p(1) False st(1) True w2(1) by (simp add: rt_thread_create_def)
      then show thesis using that [of RT_NULL w2] w2 k pp by auto
    next
      case ne: False
      let ?k = "k\<lparr>ostack := st, ostat := RT_THREAD_INIT\<rparr>"
      have mo: "adds w (st # p # ps) (w1\<lparr>wmem := m\<rparr>)" using st(2) ne by simp
      have "adds w (st # p # ps) (set_kobj p ?k (w1\<lparr>wmem := m\<rparr>))" by (rule adds_changed [OF mo, of p k]) (simp_all add: k(2))
      moreover have "rt_thread_create sz name n w' = Inr (p, set_kobj p ?k (w1\<lparr>wmem := m\<rparr>))" using p(1) False st(1) ne k(2) by (simp add: rt_thread_create_def kobj_at_def)
      ultimately show thesis using that [of p "set_kobj p ?k (w1\<lparr>wmem := m\<rparr>)" st ?k] k False by (simp add: set_kobj_def)
    qed
  qed
qed

section \<open>Creation\<close>

text \<open>Once the scaner is released, the rest of the creation writes to it.\<close>

lemma sem_create_scaners: "rt_sem_create sz n v f w = Inr (p, w') \<Longrightarrow> scaners w' = scaners w"
  by (auto simp: rt_sem_create_def rt_object_allocate_def wmalloc_def set_kobj_def cbind_eq_Inr split: if_splits)

lemma wfree_scaners: "wfree p w = Inr w' \<Longrightarrow> scaners w' = (scaners w)(p := None)"
  by (auto simp: wfree_def cbind_eq_Inr)

lemma ipc_delete_scaners: "ipc_delete c p w = Inr w' \<Longrightarrow> scaners w' = (scaners w)(p := None)"
  by (auto simp: ipc_delete_def rt_object_delete_def set_kobj_def cbind_eq_Inr dest!: wfree_scaners)

lemma thread_delete_scaners: "rt_thread_delete p w = Inr w' \<Longrightarrow> scaners w' = scaners w"
  by (auto simp: rt_thread_delete_def thread_close_def set_kobj_def cbind_eq_Inr split: if_splits)

lemmas scaners_after = sem_create_scaners wfree_scaners ipc_delete_scaners thread_delete_scaners

lemma create_stop_lost: "scaners w sc = None \<Longrightarrow> create_stop sz d sc thread mutex trig don w \<noteq> Inr r"
  by (auto simp: create_stop_def scaner_at_def cbind_eq_Inr dest!: scaners_after split: if_splits)

lemma release_lost:
  assumes "wfree sc w = Inr w1"
  shows "scaners w1 sc = None" "ipc_delete c p w1 = Inr w2 \<Longrightarrow> scaners w2 sc = None" "rt_thread_delete p w1 = Inr w2 \<Longrightarrow> scaners w2 sc = None"
  using wfree_scaners [OF assms] by (auto dest!: ipc_delete_scaners thread_delete_scaners)

lemma create_done_lost:
  assumes "scaners w sc = None"
  shows "create_done sz d sc thread mutex trig w \<noteq> Inr r"
proof
  assume "create_done sz d sc thread mutex trig w = Inr r"
  then obtain don w1 w2 where 1: "rt_sem_create sz ''IS_done_sem'' 0 FLAG_FIFO w = Inr (don, w1)"
    "(if don = RT_NULL then cbind (wfree sc w1) (\<lambda>w. cbind (rt_thread_delete thread w) (\<lambda>w. cbind (ipc_delete OMutex mutex w) (ipc_delete OSem trig))) else Inr w1) = Inr w2"
    "create_stop sz d sc thread mutex trig don w2 = Inr r" by (auto simp: create_done_def cbind_eq_Inr)
  have "scaners w2 sc = None" using 1(2) sem_create_scaners [OF 1(1)] assms by (auto simp: cbind_eq_Inr dest!: scaners_after split: if_splits)
  then show False using create_stop_lost 1(3) by blast
qed

text \<open>What a created scaner consists of.\<close>

definition scaner_parts :: "world \<Rightarrow> string \<Rightarrow> ptr \<Rightarrow> ptr \<Rightarrow> ptr \<Rightarrow> ptr \<Rightarrow> ptr \<Rightarrow> ptr \<Rightarrow> ptr \<Rightarrow> ptr \<Rightarrow> kobj \<Rightarrow> world \<Rightarrow> bool" where
  "scaner_parts w d sc th st mx s1 s2 s3 tp kt w' \<longleftrightarrow>
     adds w ((if tp = RT_NULL then [] else [tp]) @ [s3, s2, s1, mx, st, th, sc]) w' \<and> defunct w' = defunct w
     \<and> scaners w' sc = Some \<lparr>image_list = [], scaning_list = [], is_running = True, top_dir = tp, worker = th, lists_mutex = mx, trig_sem = s1, done_sem = s2, stop_sem = s3\<rparr>
     \<and> kobjs w' th = Some kt \<and> ocls kt = OThread \<and> ostack kt = st \<and> ostat kt = RT_THREAD_INIT \<and> kobjs w' st = None \<and> kobjs w' sc = None \<and> kobjs w' tp = None
     \<and> (\<exists>k. kobjs w' mx = Some k \<and> ocls k = OMutex) \<and> (\<forall>s \<in> {s1, s2, s3}. \<exists>k. kobjs w' s = Some k \<and> ocls k = OSem)
     \<and> (if tp = RT_NULL then oom (wmem w') else strs (wmem w') tp = Some (cstr d []))"

definition scaner_made :: "world \<Rightarrow> string \<Rightarrow> ptr \<Rightarrow> world \<Rightarrow> bool" where
  "scaner_made w d sc w' \<longleftrightarrow> (\<exists>th st mx s1 s2 s3 tp kt. scaner_parts w d sc th st mx s1 s2 s3 tp kt w')"

text \<open>One of the semaphores of these names could not be created.\<close>

fun sem_fails :: "(oclass \<Rightarrow> nat) \<Rightarrow> string list \<Rightarrow> world \<Rightarrow> bool" where
  "sem_fails sz [] w = False"
| "sem_fails sz (n # ns) w = (case rt_sem_create sz n 0 FLAG_FIFO w of Inl _ \<Rightarrow> False | Inr (p, w') \<Rightarrow> p = RT_NULL \<or> sem_fails sz ns w')"

lemma not_Inr: "(\<And>r. x \<noteq> Inr r) \<Longrightarrow> \<exists>e. x = Inl e"
  by (cases x) auto

lemma strdup_adds:
  assumes "world_ok w" "adds w ps w'" "NUL \<notin> set d" "length d + 1 \<le> 2 ^ 32 - 4"
  obtains p m where "scaner_strdup (cstr d z) w' = Inr (p, w'\<lparr>wmem := m\<rparr>)" "adds w ((if p = RT_NULL then [] else [p]) @ ps) (w'\<lparr>wmem := m\<rparr>)"
    "if p = RT_NULL then oom m else strs m p = Some (cstr d [])" "p \<noteq> RT_NULL \<Longrightarrow> p \<notin> haddrs (wmem w')"
proof -
  have ok: "app_ok (wmem w')" using assms(2) by (simp add: adds_def)
  obtain p m where m: "rt_strdup (Some (cstr d z)) (wmem w') = Inr (p, m)" "allocated (wmem w') p m" "strs m = (if p = RT_NULL then strs (wmem w') else (strs (wmem w'))(p \<mapsto> cstr d []))"
    using rt_strdup_allocated [OF ok assms(3,4), of z] by metis
  have run: "scaner_strdup (cstr d z) w' = Inr (p, w'\<lparr>wmem := m\<rparr>)" using m(1) by (simp add: scaner_strdup_def)
  show thesis
  proof (cases "p = RT_NULL")
    case True
    then have "adds w ps (w'\<lparr>wmem := m\<rparr>)" using assms(2) m(2,3) by (auto simp: adds_def allocated_def)
    then show thesis using that [OF run] m True by (auto simp: allocated_def)
  next
    case False
    then have "p \<notin> haddrs (wmem w')" "app_ok m" "haddrs m = insert p (haddrs (wmem w'))" "strs (wmem w') p = None" using m(2) by (auto simp: allocated_def objs_def)
    then show thesis using that [OF run] adds_block [OF assms(1,2) False, of m] m(3) False by auto
  qed
qed

text \<open>The scaner with its thread, its mutex and the semaphores created so far.\<close>

definition half_made :: "world \<Rightarrow> ptr list \<Rightarrow> ptr \<Rightarrow> ptr \<Rightarrow> ptr \<Rightarrow> ptr \<Rightarrow> kobj \<Rightarrow> world \<Rightarrow> bool" where
  "half_made w ss sc th st mx kt w' \<longleftrightarrow> adds w (ss @ [mx, st, th, sc]) w' \<and> defunct w' = defunct w \<and> scaners w' sc \<noteq> None
     \<and> kobjs w' th = Some kt \<and> ocls kt = OThread \<and> ostack kt = st \<and> ostat kt = RT_THREAD_INIT \<and> kobjs w' st = None \<and> kobjs w' sc = None
     \<and> (\<exists>k. kobjs w' mx = Some k \<and> ocls k = OMutex) \<and> (\<forall>s \<in> set ss. \<exists>k. kobjs w' s = Some k \<and> ocls k = OSem)"

lemma half_made_sem:
  assumes ok: "world_ok w" and sz: "0 < sz OSem" "sz OSem \<le> 2 ^ 32 - 4" and h: "half_made w ss sc th st mx kt w'"
  obtains p w'' where "rt_sem_create sz n 0 FLAG_FIFO w' = Inr (p, w'')" "p \<noteq> RT_NULL \<Longrightarrow> half_made w (p # ss) sc th st mx kt w''"
proof -
  have a: "adds w (ss @ [mx, st, th, sc]) w'" using h by (simp add: half_made_def)
  obtain p w'' where p: "rt_sem_create sz n 0 FLAG_FIFO w' = Inr (p, w'')" "created w (ss @ [mx, st, th, sc]) w' OSem p w''" by (rule sem_created [where sz = sz, OF ok a sz])
  show thesis
  proof (rule that [OF p(1)])
    assume "p \<noteq> RT_NULL"
    then obtain k where k: "ocls k = OSem" "kobjs w'' = (kobjs w')(p \<mapsto> k)" "adds w (p # ss @ [mx, st, th, sc]) w''" "scaners w'' = scaners w'" "defunct w'' = defunct w'"
      using p(2) by (auto simp: created_def)
    have "p \<notin> set (ss @ [mx, st, th, sc])" using k(3) by (simp add: adds_def)
    then show "half_made w (p # ss) sc th st mx kt w''" unfolding half_made_def by (intro conjI) (use h k in \<open>auto simp: half_made_def\<close>)
  qed
qed

lemma create_stop_ok:
  assumes ok: "world_ok w" and sz: "0 < sz OSem" "sz OSem \<le> 2 ^ 32 - 4" and d: "NUL \<notin> set d" "length d + 1 \<le> 2 ^ 32 - 4"
    and h: "half_made w [s2, s1] sc th st mx kt w'"
  shows "if sem_fails sz [''IS_stop_sem''] w' then \<exists>e. create_stop sz (cstr d z) sc th mx s1 s2 w' = Inl e else \<exists>w''. create_stop sz (cstr d z) sc th mx s1 s2 w' = Inr (sc, w'') \<and> scaner_made w d sc w''"
proof -
  obtain s3 w1 where s3: "rt_sem_create sz ''IS_stop_sem'' 0 FLAG_FIFO w' = Inr (s3, w1)" "s3 \<noteq> RT_NULL \<Longrightarrow> half_made w [s3, s2, s1] sc th st mx kt w1"
    by (rule half_made_sem [where sz = sz, OF ok sz h]) blast
  show ?thesis
  proof (cases "s3 = RT_NULL")
    case True
    have "create_stop sz (cstr d z) sc th mx s1 s2 w' \<noteq> Inr r" for r
      using s3(1) True by (auto simp: create_stop_def scaner_at_def cbind_eq_Inr dest!: scaners_after split: if_splits)
    then show ?thesis using not_Inr [of "create_stop sz (cstr d z) sc th mx s1 s2 w'"] s3(1) True by simp
  next
    case False
    then have h1: "half_made w [s3, s2, s1] sc th st mx kt w1" by (rule s3(2))
    then have k3: "adds w [s3, s2, s1, mx, st, th, sc] w1" by (simp add: half_made_def)
    obtain s where s: "scaners w1 sc = Some s" using h1 by (auto simp: half_made_def)
    let ?s = "s\<lparr>image_list := [], scaning_list := [], is_running := True\<rparr>"
    let ?w1 = "w1\<lparr>scaners := (scaners w1)(sc \<mapsto> ?s)\<rparr>"
    have a1: "adds w [s3, s2, s1, mx, st, th, sc] ?w1" by (rule adds_scaner [OF k3]) simp
    obtain tp m where t: "scaner_strdup (cstr d z) ?w1 = Inr (tp, ?w1\<lparr>wmem := m\<rparr>)" "adds w ((if tp = RT_NULL then [] else [tp]) @ [s3, s2, s1, mx, st, th, sc]) (?w1\<lparr>wmem := m\<rparr>)"
      "if tp = RT_NULL then oom m else strs m tp = Some (cstr d [])" "tp \<noteq> RT_NULL \<Longrightarrow> tp \<notin> haddrs (wmem ?w1)"
      by (rule strdup_adds [where z = z, OF ok a1 d]) blast
    let ?s' = "?s\<lparr>top_dir := tp, worker := th, lists_mutex := mx, trig_sem := s1, stop_sem := s3, done_sem := s2\<rparr>"
    let ?w2 = "?w1\<lparr>wmem := m, scaners := (scaners ?w1)(sc \<mapsto> ?s')\<rparr>"
    have nz: "sc \<noteq> RT_NULL" using k3 by (auto simp: adds_def)
    have run: "create_stop sz (cstr d z) sc th mx s1 s2 w' = Inr (sc, ?w2)" using s3(1) False s nz t(1) by (simp add: create_stop_def scaner_at_def)
    have A: "adds w ((if tp = RT_NULL then [] else [tp]) @ [s3, s2, s1, mx, st, th, sc]) ?w2" using adds_scaner [OF t(2), of sc ?s'] by simp
    have "tp \<notin> haddrs (wmem w1)" using t(4) k3 live_not_null [of "wmem w1"] by (cases "tp = RT_NULL") (auto simp: adds_def)
    then have tp: "kobjs w1 tp = None" by (rule adds_fresh(1) [OF ok k3])
    have s': "?s' = \<lparr>image_list = [], scaning_list = [], is_running = True, top_dir = tp, worker = th, lists_mutex = mx, trig_sem = s1, done_sem = s2, stop_sem = s3\<rparr>"
      by (cases s) simp
    have "scaner_parts w d sc th st mx s1 s2 s3 tp kt ?w2" unfolding scaner_parts_def
      by (intro conjI A) (use h1 t(3) tp s' in \<open>simp_all add: half_made_def\<close>)
    then have "scaner_made w d sc ?w2" unfolding scaner_made_def by blast
    then show ?thesis using run s3(1) False by auto
  qed
qed

lemma create_done_ok:
  assumes ok: "world_ok w" and sz: "0 < sz OSem" "sz OSem \<le> 2 ^ 32 - 4" and d: "NUL \<notin> set d" "length d + 1 \<le> 2 ^ 32 - 4"
    and h: "half_made w [s1] sc th st mx kt w'"
  shows "if sem_fails sz [''IS_done_sem'', ''IS_stop_sem''] w' then \<exists>e. create_done sz (cstr d z) sc th mx s1 w' = Inl e else \<exists>w''. create_done sz (cstr d z) sc th mx s1 w' = Inr (sc, w'') \<and> scaner_made w d sc w''"
proof -
  obtain s2 w1 where s2: "rt_sem_create sz ''IS_done_sem'' 0 FLAG_FIFO w' = Inr (s2, w1)" "s2 \<noteq> RT_NULL \<Longrightarrow> half_made w [s2, s1] sc th st mx kt w1"
    by (rule half_made_sem [where sz = sz, OF ok sz h]) blast
  show ?thesis
  proof (cases "s2 = RT_NULL")
    case True
    have "create_done sz (cstr d z) sc th mx s1 w' \<noteq> Inr r" for r
    proof
      assume "create_done sz (cstr d z) sc th mx s1 w' = Inr r"
      then obtain w2 w3 w4 w5 where "wfree sc w1 = Inr w2" "rt_thread_delete th w2 = Inr w3" "ipc_delete OMutex mx w3 = Inr w4" "ipc_delete OSem s1 w4 = Inr w5"
        and run: "create_stop sz (cstr d z) sc th mx s1 s2 w5 = Inr r" using s2(1) True by (auto simp: create_done_def cbind_eq_Inr)
      then have "scaners w5 sc = None" by (auto dest!: scaners_after)
      then show False using create_stop_lost run by blast
    qed
    then show ?thesis using not_Inr [of "create_done sz (cstr d z) sc th mx s1 w'"] s2(1) True by simp
  next
    case False
    then have "create_done sz (cstr d z) sc th mx s1 w' = create_stop sz (cstr d z) sc th mx s1 s2 w1" using s2(1) by (simp add: create_done_def)
    then show ?thesis using create_stop_ok [where sz = sz, OF ok sz d s2(2) [OF False], of z] s2(1) False by simp
  qed
qed

lemma create_sems_ok:
  assumes ok: "world_ok w" and sz: "0 < sz OSem" "sz OSem \<le> 2 ^ 32 - 4" and d: "NUL \<notin> set d" "length d + 1 \<le> 2 ^ 32 - 4"
    and h: "half_made w [] sc th st mx kt w'"
  shows "if sem_fails sz [''IS_trig_sem'', ''IS_done_sem'', ''IS_stop_sem''] w' then \<exists>e. create_sems sz (cstr d z) sc th mx w' = Inl e else \<exists>w''. create_sems sz (cstr d z) sc th mx w' = Inr (sc, w'') \<and> scaner_made w d sc w''"
proof -
  obtain s1 w1 where s1: "rt_sem_create sz ''IS_trig_sem'' 0 FLAG_FIFO w' = Inr (s1, w1)" "s1 \<noteq> RT_NULL \<Longrightarrow> half_made w [s1] sc th st mx kt w1"
    by (rule half_made_sem [where sz = sz, OF ok sz h]) blast
  show ?thesis
  proof (cases "s1 = RT_NULL")
    case True
    have "create_sems sz (cstr d z) sc th mx w' \<noteq> Inr r" for r
    proof
      assume "create_sems sz (cstr d z) sc th mx w' = Inr r"
      then obtain w2 w3 w4 where "wfree sc w1 = Inr w2" "rt_thread_delete th w2 = Inr w3" "ipc_delete OMutex mx w3 = Inr w4"
        and run: "create_done sz (cstr d z) sc th mx s1 w4 = Inr r" using s1(1) True by (auto simp: create_sems_def cbind_eq_Inr)
      then have "scaners w4 sc = None" by (auto dest!: scaners_after)
      then show False using create_done_lost run by blast
    qed
    then show ?thesis using not_Inr [of "create_sems sz (cstr d z) sc th mx w'"] s1(1) True by simp
  next
    case False
    then have "create_sems sz (cstr d z) sc th mx w' = create_done sz (cstr d z) sc th mx s1 w1" using s1(1) by (simp add: create_sems_def)
    then show ?thesis using create_done_ok [where sz = sz, OF ok sz d s1(2) [OF False], of z] s1(1) False by simp
  qed
qed

lemma calloc_adds:
  assumes "world_ok w"
  obtains p m where "scaner_calloc w = Inr (p, w\<lparr>wmem := m, scaners := (if p = RT_NULL then scaners w else (scaners w)(p \<mapsto> no_scaner))\<rparr>)"
    "adds w (if p = RT_NULL then [] else [p]) (w\<lparr>wmem := m, scaners := (if p = RT_NULL then scaners w else (scaners w)(p \<mapsto> no_scaner))\<rparr>)"
    "p \<noteq> RT_NULL \<Longrightarrow> p \<notin> haddrs (wmem w)"
proof -
  have ok: "app_ok (wmem w)" using assms by (simp add: world_ok_def)
  obtain p m where m: "rt_calloc SIZEOF_SCANER 1 (wmem w) = Inr (p, m)" "allocated (wmem w) p m"
    "strs m = (if p = RT_NULL then strs (wmem w) else (strs (wmem w))(p \<mapsto> replicate (SIZEOF_SCANER * 1) NUL))"
    by (rule rt_calloc_allocated [OF ok, of SIZEOF_SCANER 1]) simp_all
  show thesis
  proof (cases "p = RT_NULL")
    case True
    then have "adds w [] (w\<lparr>wmem := m\<rparr>)" using adds_refl [OF assms] m(2,3) by (auto simp: adds_def allocated_def)
    then show thesis using that [of p m] m(1) True by (simp add: scaner_calloc_def)
  next
    case False
    then have "p \<notin> haddrs (wmem w)" "app_ok m" "haddrs m = insert p (haddrs (wmem w))" "strs (wmem w) p = None" using m(2) by (auto simp: allocated_def objs_def)
    then have "adds w [p] (w\<lparr>wmem := m\<rparr>)" using adds_block [OF assms adds_refl [OF assms] False, of m] m(3) False by simp
    from adds_scaner [OF this, of p no_scaner] show thesis using that [of p m] m(1) False \<open>p \<notin> haddrs (wmem w)\<close> by (simp add: scaner_calloc_def)
  qed
qed

text \<open>Scaner, thread and mutex could be created, but one of the semaphores could not.\<close>

definition sem_failed :: "(oclass \<Rightarrow> nat) \<Rightarrow> world \<Rightarrow> bool" where
  "sem_failed sz w = (case scaner_calloc w of Inl _ \<Rightarrow> False | Inr (sc, w) \<Rightarrow> sc \<noteq> RT_NULL \<and>
     (case rt_thread_create sz ''scaner'' SCANER_STACK_SIZE w of Inl _ \<Rightarrow> False | Inr (th, w) \<Rightarrow> th \<noteq> RT_NULL \<and>
     (case rt_mutex_create sz ''IS_mtx'' FLAG_FIFO w of Inl _ \<Rightarrow> False | Inr (mx, w) \<Rightarrow> mx \<noteq> RT_NULL \<and>
       sem_fails sz [''IS_trig_sem'', ''IS_done_sem'', ''IS_stop_sem''] w)))"

text \<open>The outcomes of the creation. When the mutex could not be created the thread and its stack wait for the idle thread.\<close>

definition create_outcome :: "bool \<Rightarrow> world \<Rightarrow> string \<Rightarrow> (ptr \<times> world) cres \<Rightarrow> bool" where
  "create_outcome f w d r = (case r of
     Inl _ \<Rightarrow> f
   | Inr (sc, w') \<Rightarrow> \<not> f \<and> (if sc \<noteq> RT_NULL then scaner_made w d sc w'
       else adds w [] w' \<and> defunct w' = defunct w
         \<or> (\<exists>th st k. adds w [st, th] w' \<and> defunct w' = th # defunct w \<and> kobjs w' th = Some k \<and> ocls k = OThread \<and> ostack k = st \<and> kobjs w' st = None)))"

lemma not_listed: "adds w ps w' \<Longrightarrow> p \<in> set ps \<Longrightarrow> kobjs w' p = None \<Longrightarrow> p \<notin> set (olist w' c)"
  unfolding adds_def by (metis option.distinct(1))

lemma create_from_mutex:
  assumes ok: "world_ok w" and sz: "\<And>c. 0 < sz c" "\<And>c. sz c \<le> 2 ^ 32 - 4" and d: "NUL \<notin> set d" "length d + 1 \<le> 2 ^ 32 - 4"
    and a: "adds w [st, th, sc] w'" "defunct w' = defunct w" "scaners w' sc \<noteq> None" "kobjs w' sc = None" "kobjs w' st = None"
    and k: "kobjs w' th = Some k" "ocls k = OThread" "ostack k = st" "ostat k = RT_THREAD_INIT"
  shows "create_outcome (case rt_mutex_create sz ''IS_mtx'' FLAG_FIFO w' of Inl _ \<Rightarrow> False | Inr (mx, w) \<Rightarrow> mx \<noteq> RT_NULL \<and> sem_fails sz [''IS_trig_sem'', ''IS_done_sem'', ''IS_stop_sem''] w)
     w d (cbind (rt_mutex_create sz ''IS_mtx'' FLAG_FIFO w') (\<lambda>(mutex, w).
       if mutex = RT_NULL then cbind (wfree sc w) (\<lambda>w. cbind (rt_thread_delete th w) (\<lambda>w. Inr (RT_NULL, w)))
       else create_sems sz (cstr d z) sc th mutex w))"
proof -
  obtain mx w1 where mx: "rt_mutex_create sz ''IS_mtx'' FLAG_FIFO w' = Inr (mx, w1)" "created w [st, th, sc] w' OMutex mx w1" by (rule mutex_created [where sz = sz, OF ok a(1) sz])
  have ne: "sc \<noteq> th" "sc \<noteq> st" "th \<noteq> st" "th \<noteq> RT_NULL" "sc \<noteq> RT_NULL" using a(1) by (auto simp: adds_def)
  show ?thesis
  proof (cases "mx = RT_NULL")
    case True
    then have a1: "adds w [st, th, sc] w1" "kobjs w1 = kobjs w'" "scaners w1 = scaners w'" "defunct w1 = defunct w'" using mx(2) by (auto simp: created_def)
    have "sc \<notin> set (olist w1 c)" for c by (rule not_listed [OF a1(1)]) (use a1(2) a(4) in simp_all)
    then obtain w2 where w2: "wfree sc w1 = Inr w2" "adds w (remove1 sc [st, th, sc]) w2" "kobjs w2 = (kobjs w1)(sc := None)" "defunct w2 = defunct w1"
      using adds_free [OF ok a1(1), of sc] by auto
    let ?w3 = "thread_close th k w2"
    have "adds w [st, th] w2" using w2(2) ne by simp
    then have "adds w [st, th] ?w3" unfolding thread_close_def by (intro adds_changed [where k = k]) (use w2(3) a1(2) k ne in \<open>simp_all add: adds_defunct\<close>)
    moreover have "rt_thread_delete th w2 = Inr ?w3" using w2(3) a1(2) k ne by (simp add: rt_thread_delete_def kobj_at_def)
    ultimately show ?thesis using mx(1) True w2 a1 a k ne by (auto simp: create_outcome_def thread_close_def set_kobj_def)
  next
    case False
    then obtain km where km: "ocls km = OMutex" "kobjs w1 = (kobjs w')(mx \<mapsto> km)" "adds w [mx, st, th, sc] w1" "scaners w1 = scaners w'" "defunct w1 = defunct w'"
      using mx(2) by (auto simp: created_def)
    have "mx \<notin> {st, th, sc}" using km(3) by (auto simp: adds_def)
    then have "half_made w [] sc th st mx k w1" using km a k by (auto simp: half_made_def)
    from create_sems_ok [where sz = sz, OF ok sz d this, of z] show ?thesis using mx(1) False ne by (auto simp: create_outcome_def simp del: sem_fails.simps split: if_splits)
  qed
qed

lemma create_outcomes:
  assumes ok: "world_ok w" and sz: "\<And>c. 0 < sz c" "\<And>c. sz c \<le> 2 ^ 32 - 4" and d: "NUL \<notin> set d" "length d + 1 \<le> 2 ^ 32 - 4"
  shows "create_outcome (sem_failed sz w) w d (image_scaner_create sz (Some (cstr d z)) w)"
proof -
  obtain sc m where c: "scaner_calloc w = Inr (sc, w\<lparr>wmem := m, scaners := (if sc = RT_NULL then scaners w else (scaners w)(sc \<mapsto> no_scaner))\<rparr>)"
    "adds w (if sc = RT_NULL then [] else [sc]) (w\<lparr>wmem := m, scaners := (if sc = RT_NULL then scaners w else (scaners w)(sc \<mapsto> no_scaner))\<rparr>)" "sc \<noteq> RT_NULL \<Longrightarrow> sc \<notin> haddrs (wmem w)"
    by (rule calloc_adds [OF ok]) blast
  show ?thesis
  proof (cases "sc = RT_NULL")
    case True
    then show ?thesis using c by (simp add: image_scaner_create_def create_outcome_def sem_failed_def)
  next
    case False
    let ?w1 = "w\<lparr>wmem := m, scaners := (scaners w)(sc \<mapsto> no_scaner)\<rparr>"
    have a1: "adds w [sc] ?w1" using c(2) False by simp
    have n: "0 < SCANER_STACK_SIZE" "SCANER_STACK_SIZE \<le> 2 ^ 32 - 4" by simp_all
    have k1: "kobjs ?w1 sc = None" using ok c(3) False by (auto simp: world_ok_def)
    obtain th st k w2 where t: "rt_thread_create sz ''scaner'' SCANER_STACK_SIZE ?w1 = Inr (th, w2)" "defunct w2 = defunct ?w1"
      "th = RT_NULL \<and> adds w [sc] w2 \<and> (\<forall>q \<in> set [sc]. kobjs w2 q = kobjs ?w1 q \<and> scaners w2 q = scaners ?w1 q)
       \<or> th \<noteq> RT_NULL \<and> adds w (st # th # [sc]) w2 \<and> kobjs w2 = (kobjs ?w1)(th \<mapsto> k) \<and> scaners w2 = scaners ?w1 \<and> ocls k = OThread \<and> ostack k = st \<and> ostat k = RT_THREAD_INIT"
      by (rule thread_created [where sz = sz, OF ok a1 sz n])
    show ?thesis
    proof (cases "th = RT_NULL")
      case th0: True
      then have t2: "adds w [sc] w2" "kobjs w2 sc = None" using t(3) k1 by auto
      have "sc \<notin> set (olist w2 c)" for c by (rule not_listed [OF t2(1)]) (use t2(2) in simp_all)
      then obtain w3 where "wfree sc w2 = Inr w3" "adds w [] w3" "defunct w3 = defunct w2" using adds_free [OF ok t2(1), of sc] by auto
      then show ?thesis using c(1) False t th0 by (simp add: image_scaner_create_def create_outcome_def sem_failed_def)
    next
      case th1: False
      then have t2: "adds w [st, th, sc] w2" "kobjs w2 = (kobjs w)(th \<mapsto> k)" "scaners w2 sc \<noteq> None" "ocls k = OThread" "ostack k = st" "ostat k = RT_THREAD_INIT" using t(3) by auto
      have ne: "sc \<noteq> th" "st \<noteq> th" "st \<notin> haddrs (wmem w)" using t2(1) by (auto simp: adds_def)
      have "kobjs w2 st = None" "kobjs w2 sc = None" using ok ne t2(2) k1 by (auto simp: world_ok_def)
      from create_from_mutex [where sz = sz, OF ok sz d t2(1) _ t2(3) this(2) this(1), of k z] show ?thesis
        using c(1) False t(1,2) th1 t2 by (simp add: image_scaner_create_def sem_failed_def del: sem_fails.simps)
    qed
  qed
qed

section \<open>Destruction\<close>

lemma wfree_null: "world_ok w \<Longrightarrow> adds w ps w' \<Longrightarrow> wfree RT_NULL w' = Inr w'"
proof -
  assume a: "world_ok w" "adds w ps w'"
  then have ok: "app_ok (wmem w')" by (simp add: adds_def)
  then have "RT_NULL \<notin> haddrs (wmem w')" using live_not_null [of "wmem w'"] by simp
  note adds_fresh(1,2) [OF a this]
  then have "(kobjs w')(RT_NULL := None) = kobjs w'" "(scaners w')(RT_NULL := None) = scaners w'" by (simp_all add: fun_upd_idem)
  then show ?thesis using rt_free_null [OF ok] by (simp add: wfree_def)
qed

lemma free_text:
  assumes "world_ok w" "adds w ((if tp = RT_NULL then [] else [tp]) @ ps) w'" "kobjs w' tp = None"
  obtains w'' where "wfree tp w' = Inr w''" "adds w ps w''" "kobjs w'' = kobjs w'" "defunct w'' = defunct w'"
proof (cases "tp = RT_NULL")
  case True
  then show thesis using that [of w'] wfree_null assms by auto
next
  case False
  then have a: "adds w (tp # ps) w'" using assms(2) by simp
  have "tp \<notin> set (olist w' c)" for c by (rule not_listed [OF a]) (use assms(3) in simp_all)
  then obtain w'' where "wfree tp w' = Inr w''" "adds w (remove1 tp (tp # ps)) w''" "kobjs w'' = (kobjs w')(tp := None)" "defunct w'' = defunct w'"
    using adds_free [OF assms(1) a, of tp] by auto
  then show thesis using that [of w''] assms(3) by (simp add: fun_upd_idem)
qed

lemma delete_objects:
  assumes ok: "world_ok w" and a: "adds w (ts @ s3 # s2 # s1 # mx # qs) w1"
    and k: "\<exists>k. kobjs w1 mx = Some k \<and> ocls k = OMutex" "\<forall>s \<in> {s1, s2, s3}. \<exists>k. kobjs w1 s = Some k \<and> ocls k = OSem"
  obtains w5 where "\<forall>f :: world \<Rightarrow> world cres. cbind (ipc_delete OSem s3 w1) (\<lambda>w. cbind (ipc_delete OSem s2 w) (\<lambda>w. cbind (ipc_delete OSem s1 w) (\<lambda>w. cbind (ipc_delete OMutex mx w) f))) = f w5"
    "adds w (ts @ qs) w5" "kobjs w5 = (kobjs w1)(s3 := None, s2 := None, s1 := None, mx := None)" "defunct w5 = defunct w1"
proof -
  have d: "distinct (ts @ s3 # s2 # s1 # mx # qs)" using a by (simp add: adds_def)
  obtain k1 k2 k3 km where k: "kobjs w1 mx = Some km" "ocls km = OMutex" "kobjs w1 s1 = Some k1" "ocls k1 = OSem" "kobjs w1 s2 = Some k2" "ocls k2 = OSem" "kobjs w1 s3 = Some k3" "ocls k3 = OSem"
    using k by auto
  obtain w2 where w2: "ipc_delete OSem s3 w1 = Inr w2" "adds w (remove1 s3 (ts @ s3 # s2 # s1 # mx # qs)) w2" "kobjs w2 = (kobjs w1)(s3 := None)" "defunct w2 = defunct w1"
    by (rule ipc_deleted [OF ok a, of s3 k3]) (use k in auto)
  have a2: "adds w (ts @ s2 # s1 # mx # qs) w2" using w2(2) d by (auto simp: remove1_append)
  obtain w3 where w3: "ipc_delete OSem s2 w2 = Inr w3" "adds w (remove1 s2 (ts @ s2 # s1 # mx # qs)) w3" "kobjs w3 = (kobjs w2)(s2 := None)" "defunct w3 = defunct w2"
    by (rule ipc_deleted [OF ok a2, of s2 k2]) (use k w2 d in auto)
  have a3: "adds w (ts @ s1 # mx # qs) w3" using w3(2) d by (auto simp: remove1_append)
  obtain w4 where w4: "ipc_delete OSem s1 w3 = Inr w4" "adds w (remove1 s1 (ts @ s1 # mx # qs)) w4" "kobjs w4 = (kobjs w3)(s1 := None)" "defunct w4 = defunct w3"
    by (rule ipc_deleted [OF ok a3, of s1 k1]) (use k w2 w3 d in auto)
  have a4: "adds w (ts @ mx # qs) w4" using w4(2) d by (auto simp: remove1_append)
  obtain w5 where w5: "ipc_delete OMutex mx w4 = Inr w5" "adds w (remove1 mx (ts @ mx # qs)) w5" "kobjs w5 = (kobjs w4)(mx := None)" "defunct w5 = defunct w4"
    by (rule ipc_deleted [OF ok a4, of mx km]) (use k w2 w3 w4 d in auto)
  have a5: "adds w (ts @ qs) w5" using w5(2) d by (auto simp: remove1_append)
  show thesis by (rule that [OF _ a5]) (use w2 w3 w4 w5 in simp_all)
qed

text \<open>The idle thread releases a closed thread.\<close>

lemma reap_one:
  assumes ok: "world_ok w" and a: "adds w (ps @ [st, th]) w1" and k: "kobjs w1 th = Some k" "ostack k = st" "kobjs w1 st = None" and d: "defunct w1 = [th]"
  obtains w2 where "rt_defunct_execute w1 = Inr w2" "adds w ps w2" "defunct w2 = []" "kobjs w2 = (kobjs w1)(th := None)"
proof -
  let ?w = "w1\<lparr>defunct := []\<rparr>"
  have a0: "adds w (ps @ [st, th]) ?w" using a by (simp add: adds_defunct)
  have dd: "distinct (ps @ [st, th])" "th \<noteq> RT_NULL" using a by (auto simp: adds_def)
  have "st \<notin> set (olist ?w c)" for c by (rule not_listed [OF a0]) (use k in simp_all)
  then obtain w2 where w2: "wfree st ?w = Inr w2" "adds w (remove1 st (ps @ [st, th])) w2" "kobjs w2 = (kobjs ?w)(st := None)" "defunct w2 = defunct ?w"
    using adds_free [OF ok a0, of st] by auto
  have a2: "adds w (ps @ [th]) w2" "kobjs w2 th = Some k" using w2(2,3) k dd by (auto simp: remove1_append)
  then obtain w3 where w3: "rt_object_delete th w2 = Inr w3" "adds w (remove1 th (ps @ [th])) w3" "kobjs w3 = (kobjs w2)(th := None)" "defunct w3 = defunct w2"
    using adds_delete [OF ok a2(1), of th k] by auto
  have "adds w ps w3" using w3(2) dd by (auto simp: remove1_append)
  moreover have "rt_defunct_execute w1 = Inr w3" using d k w2(1) w3(1) dd by (simp add: rt_defunct_execute_def kobj_at_def)
  moreover have "kobjs w3 = (kobjs w1)(th := None)" using w3(3) w2(3) k(3) by (simp add: fun_upd_idem)
  ultimately show thesis using that w3(4) w2(4) by simp
qed

text \<open>A scaner at work: its thread is started and not closed.\<close>

definition scaner_live :: "world \<Rightarrow> ptr \<Rightarrow> ptr list \<Rightarrow> image_scaner \<Rightarrow> kobj \<Rightarrow> world \<Rightarrow> bool" where
  "scaner_live w sc ts s kt w' \<longleftrightarrow> ts = (if top_dir s = RT_NULL then [] else [top_dir s])
     \<and> adds w (ts @ [stop_sem s, done_sem s, trig_sem s, lists_mutex s, ostack kt, worker s, sc]) w' \<and> scaners w' sc = Some s
     \<and> kobjs w' (worker s) = Some kt \<and> ocls kt = OThread \<and> kobjs w' (ostack kt) = None \<and> kobjs w' sc = None \<and> kobjs w' (top_dir s) = None
     \<and> (\<exists>k. kobjs w' (lists_mutex s) = Some k \<and> ocls k = OMutex) \<and> (\<forall>p \<in> {trig_sem s, done_sem s, stop_sem s}. \<exists>k. kobjs w' p = Some k \<and> ocls k = OSem)"

lemma destroy_stopped:
  assumes ok: "world_ok w" and l: "scaner_live w sc ts s kt w1" and s: "\<not> is_running s" and d: "defunct w1 = (if ostat kt = RT_THREAD_CLOSE then [worker s] else [])"
  obtains w2 w3 where "image_scaner_destroy stop sc w1 = Inr w2" "rt_defunct_execute w2 = Inr w3" "adds w [] w3" "defunct w3 = []"
proof -
  let ?th = "worker s" and ?st = "ostack kt"
  have a: "adds w (ts @ [stop_sem s, done_sem s, trig_sem s, lists_mutex s, ?st, ?th, sc]) w1" and ts: "ts = (if top_dir s = RT_NULL then [] else [top_dir s])"
    and kk: "\<exists>k. kobjs w1 (lists_mutex s) = Some k \<and> ocls k = OMutex" "\<forall>p \<in> {trig_sem s, done_sem s, stop_sem s}. \<exists>k. kobjs w1 p = Some k \<and> ocls k = OSem"
    and kt: "kobjs w1 ?th = Some kt" "ocls kt = OThread" "kobjs w1 ?st = None" "kobjs w1 sc = None" "kobjs w1 (top_dir s) = None" "scaners w1 sc = Some s"
    using l unfolding scaner_live_def by blast+
  have ne: "distinct [stop_sem s, done_sem s, trig_sem s, lists_mutex s, ?st, ?th, sc]" "?th \<noteq> RT_NULL" "sc \<noteq> RT_NULL" using a by (auto simp: adds_def)
  obtain w5 where w5: "\<forall>f :: world \<Rightarrow> world cres. cbind (ipc_delete OSem (stop_sem s) w1) (\<lambda>w. cbind (ipc_delete OSem (done_sem s) w) (\<lambda>w. cbind (ipc_delete OSem (trig_sem s) w) (\<lambda>w. cbind (ipc_delete OMutex (lists_mutex s) w) f))) = f w5"
    "adds w (ts @ [?st, ?th, sc]) w5" "kobjs w5 = (kobjs w1)(stop_sem s := None, done_sem s := None, trig_sem s := None, lists_mutex s := None)" "defunct w5 = defunct w1"
    by (rule delete_objects [OF ok a kk])
  have k5: "kobjs w5 ?th = Some kt" "kobjs w5 ?st = None" "kobjs w5 sc = None" "kobjs w5 (top_dir s) = None" using ne by (auto simp only: w5(3) fun_upd_apply kt distinct.simps list.set insert_iff if_False split: if_splits)
  let ?w6 = "if ostat kt = RT_THREAD_CLOSE then w5 else thread_close ?th kt w5"
  have r6: "rt_thread_delete ?th w5 = Inr ?w6" using k5 ne kt(2) by (simp add: rt_thread_delete_def kobj_at_def)
  have a6: "adds w (ts @ [?st, ?th, sc]) ?w6" using w5(2) adds_changed [of w "ts @ [?st, ?th, sc]" "w5\<lparr>defunct := ?th # defunct w5\<rparr>" ?th kt "kt\<lparr>ostat := RT_THREAD_CLOSE\<rparr>"] k5(1)
    by (simp add: thread_close_def adds_defunct)
  have d6: "defunct ?w6 = [?th]" using d w5(4) by (simp add: thread_close_def set_kobj_def)
  have tn: "top_dir s \<noteq> ?th" "sc \<noteq> ?th" using k5 by auto
  let ?kt = "if ostat kt = RT_THREAD_CLOSE then kt else kt\<lparr>ostat := RT_THREAD_CLOSE\<rparr>"
  have K: "kobjs ?w6 = (kobjs w5)(?th \<mapsto> ?kt)" using k5(1) by (simp add: thread_close_def set_kobj_def fun_upd_idem)
  have k6: "kobjs ?w6 ?th = Some ?kt" "ostack ?kt = ?st" "kobjs ?w6 ?st = None" "kobjs ?w6 sc = None" "kobjs ?w6 (top_dir s) = None"
    using k5 ne tn unfolding K by simp_all
  obtain w7 where w7: "wfree (top_dir s) ?w6 = Inr w7" "adds w [?st, ?th, sc] w7" "kobjs w7 = kobjs ?w6" "defunct w7 = defunct ?w6"
    by (rule free_text [OF ok _ k6(5)]) (use a6 ts in simp)
  have "sc \<notin> set (olist w7 c)" for c by (rule not_listed [OF w7(2)]) (use w7(3) k6(4) in simp_all)
  then obtain w8 where w8: "wfree sc w7 = Inr w8" "adds w (remove1 sc [?st, ?th, sc]) w8" "kobjs w8 = (kobjs w7)(sc := None)" "defunct w8 = defunct w7"
    using adds_free [OF ok w7(2), of sc] by auto
  have run: "image_scaner_destroy stop sc w1 = Inr w8" using ne kt(6) s w5(1) r6 w7(1) w8(1) by (simp add: image_scaner_destroy_def scaner_at_def)
  obtain w9 where "rt_defunct_execute w8 = Inr w9" "adds w [] w9" "defunct w9 = []"
    by (rule reap_one [OF ok, of "[]" ?st ?th w8 ?kt]) (use w8 w7(3,4) k6 d6 ne in auto)
  then show thesis by (rule that [OF run])
qed

lemma stopped_first:
  assumes "sc \<noteq> RT_NULL" "scaners w sc = Some s" "is_running s" "stop sc w = Inr w1" "scaners w1 sc = Some s1" "\<not> is_running s1"
  shows "image_scaner_destroy stop sc w = image_scaner_destroy stop sc w1"
  using assms by (simp add: image_scaner_destroy_def scaner_at_def)

text \<open>A created scaner, started.\<close>

lemma started_live:
  assumes "scaner_parts w d sc th st mx s1 s2 s3 tp kt w1"
  obtains w2 s kt' where "image_scaner_start sc w1 = Inr (True, w2)" "scaner_live w sc (if tp = RT_NULL then [] else [tp]) s kt' w2" "is_running s" "defunct w2 = defunct w" "ostat kt' = RT_THREAD_READY"
proof -
  let ?s = "\<lparr>image_list = [], scaning_list = [], is_running = True, top_dir = tp, worker = th, lists_mutex = mx, trig_sem = s1, done_sem = s2, stop_sem = s3\<rparr>"
  let ?k = "kt\<lparr>ostat := RT_THREAD_READY\<rparr>" and ?ps = "(if tp = RT_NULL then [] else [tp]) @ [s3, s2, s1, mx, st, th, sc]"
  let ?w = "set_kobj th ?k w1"
  have p: "adds w ?ps w1" "scaners w1 sc = Some ?s" "kobjs w1 th = Some kt" "ocls kt = OThread" "ostack kt = st" "ostat kt = RT_THREAD_INIT" "defunct w1 = defunct w"
    "kobjs w1 st = None" "kobjs w1 sc = None" "kobjs w1 tp = None" "\<exists>k. kobjs w1 mx = Some k \<and> ocls k = OMutex" "\<forall>s \<in> {s1, s2, s3}. \<exists>k. kobjs w1 s = Some k \<and> ocls k = OSem"
    using assms unfolding scaner_parts_def by blast+
  have ne: "th \<noteq> RT_NULL" "sc \<noteq> RT_NULL" "th \<notin> {s1, s2, s3, mx, st, sc}" using p(1) by (auto simp: adds_def)
  have a: "adds w ?ps ?w" by (rule adds_changed [OF p(1) _ p(3)]) simp_all
  have "scaner_live w sc (if tp = RT_NULL then [] else [tp]) ?s ?k ?w" unfolding scaner_live_def
    by (intro conjI) (use a p ne in \<open>auto simp: set_kobj_def\<close>)
  then show thesis using that [of ?w ?s ?k] p(2-7) ne by (simp add: image_scaner_start_def rt_thread_startup_def scaner_at_def kobj_at_def set_kobj_def)
qed

text \<open>The worker leaves its function while the scaner stops.\<close>

lemma stop_seen_live:
  assumes l: "scaner_live w sc ts s kt w1" "defunct w1 = []" "ostat kt = RT_THREAD_READY" and g: "g \<noteq> Reaped"
  obtains w2 kt' where "stop_seen g sc w1 = Inr w2" "scaner_live w sc ts (s\<lparr>is_running := False\<rparr>) kt' w2" "defunct w2 = (if ostat kt' = RT_THREAD_CLOSE then [worker s] else [])"
proof -
  let ?s = "s\<lparr>is_running := False\<rparr>"
  let ?w = "w1\<lparr>scaners := (scaners w1)(sc \<mapsto> ?s)\<rparr>"
  have nz: "sc \<noteq> RT_NULL" "worker s \<noteq> RT_NULL" "worker s \<notin> {trig_sem s, done_sem s, stop_sem s, lists_mutex s, ostack kt, sc}" using l(1) by (auto simp: scaner_live_def adds_def)
  have a: "adds w (ts @ [stop_sem s, done_sem s, trig_sem s, lists_mutex s, ostack kt, worker s, sc]) ?w" by (rule adds_scaner) (use l(1) in \<open>auto simp: scaner_live_def\<close>)
  have s: "scaners w1 sc = Some s" "kobjs w1 (worker s) = Some kt" using l(1) by (simp_all add: scaner_live_def)
  show thesis
  proof (cases g)
    case InWork
    have "scaner_live w sc ts ?s kt ?w" unfolding scaner_live_def by (intro conjI) (use a l(1) in \<open>simp_all add: scaner_live_def\<close>)
    then show thesis using that [of ?w kt] InWork l(2,3) s nz by (simp add: stop_seen_def scaner_at_def)
  next
    case Exited
    let ?k = "kt\<lparr>ostat := RT_THREAD_CLOSE\<rparr>"
    let ?w2 = "thread_close (worker s) kt ?w"
    have "adds w (ts @ [stop_sem s, done_sem s, trig_sem s, lists_mutex s, ostack kt, worker s, sc]) ?w2" unfolding thread_close_def
      by (rule adds_changed [where k = kt]) (use a s in \<open>simp_all add: adds_defunct\<close>)
    then have "scaner_live w sc ts ?s ?k ?w2" unfolding scaner_live_def
      by (intro conjI) (use l(1) nz in \<open>auto simp: scaner_live_def thread_close_def set_kobj_def\<close>)
    then show thesis using that [of ?w2 ?k] Exited l(2) s nz by (simp add: stop_seen_def scaner_at_def thread_exit_def kobj_at_def thread_close_def set_kobj_def)
  qed (use g in simp)
qed

lemma adds_perm: "adds w ps w' \<Longrightarrow> set qs = set ps \<Longrightarrow> distinct qs \<Longrightarrow> adds w qs w'"
  unfolding adds_def by simp

lemma defunct_scaners: "defunct_loop ps w = Inr w' \<Longrightarrow> p \<notin> set ps \<Longrightarrow> (\<forall>q \<in> set ps. \<forall>k. kobjs w q = Some k \<longrightarrow> ostack k \<noteq> p) \<Longrightarrow> scaners w' p = scaners w p"
proof (induction ps arbitrary: w)
  case (Cons q ps)
  then obtain k w1 w2 where 1: "kobj_at w q = Inr k" "wfree (ostack k) w = Inr w1" "rt_object_delete q w1 = Inr w2" "defunct_loop ps w2 = Inr w'" by (auto simp: cbind_eq_Inr)
  have k: "kobjs w q = Some k" using 1(1) by (auto simp: kobj_at_def split: if_splits option.splits)
  have k2: "kobjs w2 = (kobjs w)(ostack k := None, q := None)" "scaners w2 = (scaners w)(ostack k := None, q := None)"
    using 1(2,3) by (auto simp: wfree_def rt_object_delete_def cbind_eq_Inr)
  have "scaners w' p = scaners w2 p" by (rule Cons.IH [OF 1(4)]) (use Cons.prems(2,3) k2(1) in \<open>auto split: if_splits\<close>)
  then show ?case using k2(2) Cons.prems(2,3) k by auto
qed simp

lemma destroy_reaped:
  assumes ok: "world_ok w" and l: "scaner_live w sc ts s kt w1" "is_running s" "defunct w1 = []"
  shows "image_scaner_destroy (stop_seen Reaped) sc w1 = Inl WildDeref"
proof -
  let ?th = "worker s" and ?st = "ostack kt" and ?s = "s\<lparr>is_running := False\<rparr>" and ?k = "kt\<lparr>ostat := RT_THREAD_CLOSE\<rparr>"
  let ?w = "w1\<lparr>scaners := (scaners w1)(sc \<mapsto> ?s)\<rparr>"
  let ?w2 = "thread_close ?th kt ?w"
  have a: "adds w (ts @ [stop_sem s, done_sem s, trig_sem s, lists_mutex s, ?st, ?th, sc]) w1"
    and kk: "\<exists>k. kobjs w1 (lists_mutex s) = Some k \<and> ocls k = OMutex" "\<forall>p \<in> {trig_sem s, done_sem s, stop_sem s}. \<exists>k. kobjs w1 p = Some k \<and> ocls k = OSem"
    and kt: "kobjs w1 ?th = Some kt" "kobjs w1 ?st = None" "scaners w1 sc = Some s"
    using l(1) unfolding scaner_live_def by blast+
  have d: "distinct (ts @ [stop_sem s, done_sem s, trig_sem s, lists_mutex s, ?st, ?th, sc])" and nz: "?th \<noteq> RT_NULL" "sc \<noteq> RT_NULL" using a by (auto simp: adds_def)
  have "adds w (ts @ [stop_sem s, done_sem s, trig_sem s, lists_mutex s, ?st, ?th, sc]) ?w" by (rule adds_scaner [OF a]) simp
  then have "adds w (ts @ [stop_sem s, done_sem s, trig_sem s, lists_mutex s, ?st, ?th, sc]) ?w2" unfolding thread_close_def
    by (intro adds_changed [where k = kt]) (use kt in \<open>simp_all add: adds_defunct\<close>)
  then have a2: "adds w ((ts @ [stop_sem s, done_sem s, trig_sem s, lists_mutex s, sc]) @ [?st, ?th]) ?w2" by (rule adds_perm) (use d in auto)
  have k2: "kobjs ?w2 = (kobjs w1)(?th \<mapsto> ?k)" "defunct ?w2 = [?th]" "scaners ?w2 sc = Some ?s" using l(3) by (simp_all add: thread_close_def set_kobj_def)
  obtain w3 where w3: "rt_defunct_execute ?w2 = Inr w3" "adds w (ts @ [stop_sem s, done_sem s, trig_sem s, lists_mutex s, sc]) w3" "kobjs w3 = (kobjs ?w2)(?th := None)"
    by (rule reap_one [OF ok a2, of ?k]) (use k2 kt d in auto)
  have s3: "scaners w3 sc = Some ?s"
    using defunct_scaners [of "defunct ?w2" "?w2\<lparr>defunct := []\<rparr>" w3 sc] w3(1) k2 d by (auto simp: rt_defunct_execute_def)
  have kk3: "\<exists>k. kobjs w3 (lists_mutex s) = Some k \<and> ocls k = OMutex" "\<forall>p \<in> {trig_sem s, done_sem s, stop_sem s}. \<exists>k. kobjs w3 p = Some k \<and> ocls k = OSem"
    using kk d unfolding w3(3) k2(1) by auto
  obtain w5 where w5: "\<forall>f :: world \<Rightarrow> world cres. cbind (ipc_delete OSem (stop_sem s) w3) (\<lambda>w. cbind (ipc_delete OSem (done_sem s) w) (\<lambda>w. cbind (ipc_delete OSem (trig_sem s) w) (\<lambda>w. cbind (ipc_delete OMutex (lists_mutex s) w) f))) = f w5"
    "kobjs w5 = (kobjs w3)(stop_sem s := None, done_sem s := None, trig_sem s := None, lists_mutex s := None)"
    by (rule delete_objects [OF ok w3(2) kk3]) blast
  have "kobjs w5 ?th = None" unfolding w5(2) w3(3) by simp
  then have del: "rt_thread_delete ?th w5 = Inl WildDeref" using nz by (simp add: rt_thread_delete_def kobj_at_def)
  have st: "stop_seen Reaped sc w1 = Inr w3" using kt nz w3(1) by (simp add: stop_seen_def scaner_at_def thread_exit_def kobj_at_def)
  have "image_scaner_destroy (stop_seen Reaped) sc w1 = image_scaner_destroy (stop_seen Reaped) sc w3"
    by (rule stopped_first [where stop = "stop_seen Reaped", OF nz(2) kt(3) l(2) st s3]) simp
  also have "\<dots> = Inl WildDeref" using nz s3 w5(1) del by (simp add: image_scaner_destroy_def scaner_at_def)
  finally show ?thesis .
qed

lemma created_started:
  assumes "world_ok w" "\<And>c. 0 < sz c" "\<And>c. sz c \<le> 2 ^ 32 - 4" "NUL \<notin> set d" "length d + 1 \<le> 2 ^ 32 - 4" "image_scaner_create sz (Some (cstr d z)) w = Inr (sc, w1)" "sc \<noteq> RT_NULL"
  obtains w2 ts s kt where "image_scaner_start sc w1 = Inr (True, w2)" "scaner_live w sc ts s kt w2" "is_running s" "defunct w2 = defunct w" "ostat kt = RT_THREAD_READY"
proof -
  have "scaner_made w d sc w1" using create_outcomes [where sz = sz, OF assms(1-5), of z] assms(6,7) by (simp add: create_outcome_def)
  then obtain th st mx s1 s2 s3 tp kt where "scaner_parts w d sc th st mx s1 s2 s3 tp kt w1" unfolding scaner_made_def by blast
  then show thesis using started_live that by metis
qed

section \<open>An example\<close>

text \<open>A heap whose last block, from \<open>e\<close> to \<open>n\<close>, is its only free one.\<close>

definition room :: "world \<Rightarrow> nat \<Rightarrow> nat \<Rightarrow> bool" where
  "room w e n \<longleftrightarrow> (\<exists>bs. heap_inv (heap (wmem w)) (bs @ [(n, False)]) \<and> (\<forall>b \<in> set bs. snd b) \<and> endpos 0 bs = e)"

lemma abs_alloc_last: "\<forall>b \<in> set bs. snd b \<Longrightarrow> endpos c bs + 44 + k \<le> n \<Longrightarrow>
  abs_alloc k c (bs @ [(n, False)]) = Some (endpos c bs, bs @ [(endpos c bs + 16 + k, True), (n, False)])"
  by (induction bs arbitrary: c) auto

lemma malloc_room:
  assumes "room w e n" "0 < k" "k \<le> 2 ^ 32 - 4" "e + 44 + alloc_size k \<le> n"
  shows "\<exists>p m. wmalloc k w = Inr (p, w\<lparr>wmem := m\<rparr>) \<and> rt_malloc k (wmem w) = Inr (p, m) \<and> p \<noteq> RT_NULL \<and> room (w\<lparr>wmem := m\<rparr>) (e + 16 + alloc_size k) n"
proof -
  obtain bs where bs: "heap_inv (heap (wmem w)) (bs @ [(n, False)])" "\<forall>b \<in> set bs. snd b" "endpos 0 bs = e" using assms(1) by (auto simp: room_def)
  have "abs_alloc (alloc_size k) 0 (bs @ [(n, False)]) = Some (e, bs @ [(e + 16 + alloc_size k, True), (n, False)])" using abs_alloc_last [OF bs(2), of 0 "alloc_size k" n] bs(3) assms(4) by simp
  then obtain m' where m': "rt_smem_alloc (self_name (wmem w)) (heap (wmem w)) k = Inr (heap_ptr (heap (wmem w)) + e + 16, m')" "heap_inv m' (bs @ [(e + 16 + alloc_size k, True), (n, False)])"
    using rt_smem_alloc_refines [OF bs(1) assms(2,3), of "self_name (wmem w)"] by auto
  let ?bs = "bs @ [(e + 16 + alloc_size k, True)]"
  let ?p = "heap_ptr (heap (wmem w)) + e + 16"
  let ?m = "(wmem w)\<lparr>heap := m', oom := (oom (wmem w) \<or> ?p = RT_NULL)\<rparr>"
  have "heap_inv m' (?bs @ [(n, False)])" "\<forall>b \<in> set ?bs. snd b" "endpos 0 ?bs = e + 16 + alloc_size k" using m'(2) bs(2) by auto
  then have r: "room (w\<lparr>wmem := ?m\<rparr>) (e + 16 + alloc_size k) n" unfolding room_def by (intro exI [of _ ?bs]) simp
  have "rt_malloc k (wmem w) = Inr (?p, ?m)" using m'(1) by (simp add: rt_malloc_def)
  then show ?thesis by (intro exI [of _ ?p] exI [of _ ?m]) (use r in \<open>simp add: wmalloc_def\<close>)
qed

lemma room_set [simp]: "room (set_kobj p k w) e n = room w e n" "room (w\<lparr>olist := l\<rparr>) e n = room w e n"
  by (simp_all add: room_def set_kobj_def)

lemma object_room:
  assumes "room w e n" "0 < sz c" "sz c \<le> 2 ^ 32 - 4" "e + 44 + alloc_size (sz c) \<le> n"
  shows "\<exists>p k w'. rt_object_allocate sz c name w = Inr (p, w') \<and> p \<noteq> RT_NULL \<and> kobjs w' p = Some k \<and> room w' (e + 16 + alloc_size (sz c)) n"
  using malloc_room [OF assms] by (auto simp: rt_object_allocate_def set_kobj_def room_def)

lemma sem_room:
  assumes "room w e n" "0 < sz OSem" "sz OSem \<le> 2 ^ 32 - 4" "e + 44 + alloc_size (sz OSem) \<le> n"
  shows "\<exists>p w'. rt_sem_create sz name 0 FLAG_FIFO w = Inr (p, w') \<and> p \<noteq> RT_NULL \<and> room w' (e + 16 + alloc_size (sz OSem)) n"
  using object_room [where sz = sz and c = OSem, OF assms, of name] by (auto simp: rt_sem_create_def kobj_at_def)

lemma mutex_room:
  assumes "room w e n" "0 < sz OMutex" "sz OMutex \<le> 2 ^ 32 - 4" "e + 44 + alloc_size (sz OMutex) \<le> n"
  shows "\<exists>p w'. rt_mutex_create sz name flag w = Inr (p, w') \<and> p \<noteq> RT_NULL \<and> room w' (e + 16 + alloc_size (sz OMutex)) n"
  using object_room [where sz = sz and c = OMutex, OF assms, of name] by (auto simp: rt_mutex_create_def kobj_at_def)

lemma thread_room:
  assumes "room w e n" "0 < sz OThread" "sz OThread \<le> 2 ^ 32 - 4" "0 < k" "k \<le> 2 ^ 32 - 4" "e + 60 + alloc_size (sz OThread) + alloc_size k \<le> n"
  shows "\<exists>p w'. rt_thread_create sz name k w = Inr (p, w') \<and> p \<noteq> RT_NULL \<and> room w' (e + 32 + alloc_size (sz OThread) + alloc_size k) n"
proof -
  obtain p o1 w1 where p: "rt_object_allocate sz OThread name w = Inr (p, w1)" "p \<noteq> RT_NULL" "kobjs w1 p = Some o1" "room w1 (e + 16 + alloc_size (sz OThread)) n"
    using object_room [where sz = sz and c = OThread, OF assms(1-3), of name] assms(6) by auto
  obtain st m where st: "wmalloc k w1 = Inr (st, w1\<lparr>wmem := m\<rparr>)" "st \<noteq> RT_NULL" "room (w1\<lparr>wmem := m\<rparr>) (e + 16 + alloc_size (sz OThread) + 16 + alloc_size k) n"
    using malloc_room [OF p(4) assms(4,5)] assms(6) by auto
  have "e + 16 + alloc_size (sz OThread) + 16 + alloc_size k = e + 32 + alloc_size (sz OThread) + alloc_size k" by simp
  then have "room (w1\<lparr>wmem := m\<rparr>) (e + 32 + alloc_size (sz OThread) + alloc_size k) n" using st(3) by metis
  then show ?thesis using p st(1,2) by (simp add: rt_thread_create_def kobj_at_def)
qed

lemma calloc_room:
  assumes "world_ok w" "room w e n" "e + 88 \<le> n"
  shows "\<exists>p w'. scaner_calloc w = Inr (p, w') \<and> p \<noteq> RT_NULL \<and> room w' (e + 60) n"
proof -
  have s: "alloc_size 44 = 44" by (simp add: alloc_size_def RT_ALIGN4_def)
  have ok: "app_ok (wmem w)" using assms(1) by (simp add: world_ok_def)
  obtain p m where m: "rt_malloc 44 (wmem w) = Inr (p, m)" "p \<noteq> RT_NULL" "room (w\<lparr>wmem := m\<rparr>) (e + 16 + alloc_size 44) n"
    using malloc_room [OF assms(2), of 44] assms(3) s by auto
  obtain q m' where q: "rt_calloc SIZEOF_SCANER 1 (wmem w) = Inr (q, m')" by (rule rt_calloc_allocated [OF ok, of SIZEOF_SCANER 1]) simp_all
  then have "q = p" "heap m' = heap m" using m(1,2) by (auto simp: rt_calloc_def Let_def cbind_eq_Inr)
  then show ?thesis using q m(2,3) s by (simp add: scaner_calloc_def room_def add.commute)
qed

lemma create_sems_returns: "create_sems sz d sc th mx w = Inr (p, w') \<Longrightarrow> p = sc"
  by (auto simp: create_sems_def create_done_def create_stop_def cbind_eq_Inr)

definition world_example :: "small_mem \<Rightarrow> world" where
  "world_example m = \<lparr>wmem = app_example m [], kobjs = Map.empty, olist = (\<lambda>_. []), scaners = Map.empty, defunct = [], resumed = []\<rparr>"

lemma example_world: "\<exists>m. rt_smem_init 4096 16384 = Some m \<and> world_ok (world_example m) \<and> room (world_example m) 0 16304"
proof -
  obtain m where m: "rt_smem_init 4096 16384 = Some m" "heap_ptr m = 4160" "heap_end m = 16304" "mem_size_aligned m = 16288"
    by (simp add: rt_smem_init_def Let_def RT_ALIGN4_def RT_ALIGN_DOWN4_def)
  have h: "heap_inv m [(heap_end m, False)]" by (intro rt_smem_init_inv [OF m(1)]) (use m in simp_all)
  have "smem_inv m" using h heap_blocks_eq [OF h] by (simp add: smem_inv_def)
  then have "world_ok (world_example m)" using m(2,3) by (auto simp: world_ok_def world_example_def app_ok_def app_example_def objs_def heap_region_def)
  moreover have "room (world_example m) 0 16304" unfolding room_def by (intro exI [of _ "[]"]) (use h m(3) in \<open>simp add: world_example_def app_example_def\<close>)
  ultimately show ?thesis using m(1) by blast
qed

lemma example_created:
  assumes ok: "world_ok w" and r: "room w 0 16304" and d: "NUL \<notin> set d" "length d \<le> 100"
  shows "\<exists>sc w'. image_scaner_create (\<lambda>_. 100) (Some (cstr d z)) w = Inr (sc, w') \<and> sc \<noteq> RT_NULL"
proof -
  let ?sz = "\<lambda>_ :: oclass. 100 :: nat"
  have a: "alloc_size 100 = 100" "alloc_size 4096 = 4096" by (simp_all add: alloc_size_def RT_ALIGN4_def)
  obtain sc w1 where 1: "scaner_calloc w = Inr (sc, w1)" "sc \<noteq> RT_NULL" "room w1 60 16304" using calloc_room [OF ok r] by auto
  obtain th w2 where 2: "rt_thread_create ?sz ''scaner'' 4096 w1 = Inr (th, w2)" "th \<noteq> RT_NULL" "room w2 4288 16304" using thread_room [OF 1(3), of ?sz 4096 "''scaner''"] a by auto
  obtain mx w3 where 3: "rt_mutex_create ?sz ''IS_mtx'' FLAG_FIFO w2 = Inr (mx, w3)" "mx \<noteq> RT_NULL" "room w3 4404 16304" using mutex_room [OF 2(3), of ?sz "''IS_mtx''" FLAG_FIFO] a by auto
  obtain s1 w4 where 4: "rt_sem_create ?sz ''IS_trig_sem'' 0 FLAG_FIFO w3 = Inr (s1, w4)" "s1 \<noteq> RT_NULL" "room w4 4520 16304" using sem_room [OF 3(3), of ?sz "''IS_trig_sem''"] a by auto
  obtain s2 w5 where 5: "rt_sem_create ?sz ''IS_done_sem'' 0 FLAG_FIFO w4 = Inr (s2, w5)" "s2 \<noteq> RT_NULL" "room w5 4636 16304" using sem_room [OF 4(3), of ?sz "''IS_done_sem''"] a by auto
  obtain s3 w6 where 6: "rt_sem_create ?sz ''IS_stop_sem'' 0 FLAG_FIFO w5 = Inr (s3, w6)" "s3 \<noteq> RT_NULL" using sem_room [OF 5(3), of ?sz "''IS_stop_sem''"] a by auto
  have "\<not> sem_failed ?sz w" using 1 2 3 4 5 6 by (simp add: sem_failed_def)
  moreover have run: "image_scaner_create ?sz (Some (cstr d z)) w = create_sems ?sz (cstr d z) sc th mx w3" using 1 2 3 by (simp add: image_scaner_create_def)
  moreover have "create_outcome (sem_failed ?sz w) w d (image_scaner_create ?sz (Some (cstr d z)) w)" by (rule create_outcomes [OF ok]) (use d in simp_all)
  ultimately have "\<exists>p w'. create_sems ?sz (cstr d z) sc th mx w3 = Inr (p, w')" by (cases "create_sems ?sz (cstr d z) sc th mx w3") (auto simp: create_outcome_def)
  then show ?thesis using run create_sems_returns 1(2) by metis
qed

text \<open>C26: creating a scaner on a directory never leaves it half made: it returns null with the heap and the objects as they were (when the mutex could
  not be created the thread and its stack still wait for the idle thread), or a scaner with a thread that can be started, mutex, three semaphores and a copy
  of the directory, each in a block of its own; and it faults exactly when a semaphore cannot be created after scaner, thread and mutex.\<close>

theorem scaner_create_outcomes:
  assumes "world_ok w" and "\<And>c. 0 < sz c" and "\<And>c. sz c \<le> 2 ^ 32 - 4" and "NUL \<notin> set d" and "length d + 1 \<le> 2 ^ 32 - 4"
  shows "create_outcome (sem_failed sz w) w d (image_scaner_create sz (Some (cstr d z)) w)"
  using assms by (rule create_outcomes)

theorem scaner_create_outcomes_witness:
  "\<exists>m sc w. rt_smem_init 4096 16384 = Some m \<and> image_scaner_create (\<lambda>_. 100) (Some (cstr ''/mnt/sd0'' [])) (world_example m) = Inr (sc, w) \<and> sc \<noteq> RT_NULL
     \<and> scaner_made (world_example m) ''/mnt/sd0'' sc w"
proof -
  obtain m where m: "rt_smem_init 4096 16384 = Some m" "world_ok (world_example m)" "room (world_example m) 0 16304" using example_world by blast
  obtain sc w where c: "image_scaner_create (\<lambda>_. 100) (Some (cstr ''/mnt/sd0'' [])) (world_example m) = Inr (sc, w)" "sc \<noteq> RT_NULL"
    using example_created [OF m(2,3), of "''/mnt/sd0''" "[]"] by auto
  have "create_outcome (sem_failed (\<lambda>_. 100) (world_example m)) (world_example m) ''/mnt/sd0'' (image_scaner_create (\<lambda>_. 100) (Some (cstr ''/mnt/sd0'' [])) (world_example m))"
    by (rule scaner_create_outcomes [OF m(2)]) simp_all
  then show ?thesis using m(1) c by (auto simp: create_outcome_def)
qed

text \<open>C27: a scaner that was created and started is given back as a whole by its destruction and the idle thread: when the stopped worker has not been released
  yet, heap and objects are as before the creation. When the idle thread has released the worker first, the destruction reads the released thread.\<close>

theorem scaner_destroy_gives_back:
  assumes "world_ok w" and "defunct w = []" and "\<And>c. 0 < sz c" and "\<And>c. sz c \<le> 2 ^ 32 - 4" and "NUL \<notin> set d" and "length d + 1 \<le> 2 ^ 32 - 4"
    and "image_scaner_create sz (Some (cstr d z)) w = Inr (sc, w1)" and "sc \<noteq> RT_NULL"
  shows "\<exists>w2. image_scaner_start sc w1 = Inr (True, w2)
    \<and> (if g = Reaped then image_scaner_destroy (stop_seen g) sc w2 = Inl WildDeref
       else \<exists>w3 w4. image_scaner_destroy (stop_seen g) sc w2 = Inr w3 \<and> rt_defunct_execute w3 = Inr w4 \<and> adds w [] w4 \<and> defunct w4 = [])"
proof -
  obtain w2 ts s kt where 2: "image_scaner_start sc w1 = Inr (True, w2)" "scaner_live w sc ts s kt w2" "is_running s" "defunct w2 = defunct w" "ostat kt = RT_THREAD_READY"
    by (rule created_started [where sz = sz, OF assms(1,3-8)])
  have d: "defunct w2 = []" using 2(4) assms(2) by simp
  show ?thesis
  proof (cases "g = Reaped")
    case True
    then show ?thesis using 2(1) destroy_reaped [OF assms(1) 2(2,3) d] by simp
  next
    case False
    obtain w3 kt' where 3: "stop_seen g sc w2 = Inr w3" "scaner_live w sc ts (s\<lparr>is_running := False\<rparr>) kt' w3" "defunct w3 = (if ostat kt' = RT_THREAD_CLOSE then [worker s] else [])"
      by (rule stop_seen_live [OF 2(2) d 2(5) False])
    have e: "image_scaner_destroy (stop_seen g) sc w2 = image_scaner_destroy (stop_seen g) sc w3"
      by (rule stopped_first [where stop = "stop_seen g" and s = s, OF assms(8) _ 2(3) 3(1)]) (use 2(2) 3(2) in \<open>auto simp: scaner_live_def\<close>)
    obtain w4 w5 where "image_scaner_destroy (stop_seen g) sc w3 = Inr w4" "rt_defunct_execute w4 = Inr w5" "adds w [] w5" "defunct w5 = []"
      by (rule destroy_stopped [OF assms(1) 3(2), of "stop_seen g"]) (use 3(3) in simp_all)
    then show ?thesis using 2(1) e False by auto
  qed
qed

theorem scaner_destroy_gives_back_witness:
  "\<exists>m sc w1 w2 w3 w4. rt_smem_init 4096 16384 = Some m \<and> image_scaner_create (\<lambda>_. 100) (Some (cstr ''/mnt/sd0'' [])) (world_example m) = Inr (sc, w1) \<and> sc \<noteq> RT_NULL
     \<and> image_scaner_start sc w1 = Inr (True, w2) \<and> image_scaner_destroy (stop_seen Exited) sc w2 = Inr w3 \<and> rt_defunct_execute w3 = Inr w4 \<and> adds (world_example m) [] w4"
proof -
  obtain m where m: "rt_smem_init 4096 16384 = Some m" "world_ok (world_example m)" "room (world_example m) 0 16304" using example_world by blast
  obtain sc w1 where c: "image_scaner_create (\<lambda>_. 100) (Some (cstr ''/mnt/sd0'' [])) (world_example m) = Inr (sc, w1)" "sc \<noteq> RT_NULL"
    using example_created [OF m(2,3), of "''/mnt/sd0''" "[]"] by auto
  have "\<exists>w2. image_scaner_start sc w1 = Inr (True, w2)
    \<and> (if Exited = Reaped then image_scaner_destroy (stop_seen Exited) sc w2 = Inl WildDeref
       else \<exists>w3 w4. image_scaner_destroy (stop_seen Exited) sc w2 = Inr w3 \<and> rt_defunct_execute w3 = Inr w4 \<and> adds (world_example m) [] w4 \<and> defunct w4 = [])"
    by (rule scaner_destroy_gives_back [OF m(2) _ _ _ _ _ c]) (simp_all add: world_example_def)
  then show ?thesis using m(1) c by auto
qed

end
