(* ===== verification/Spec2Isabelle.thy ===== *)
theory Spec2Isabelle
  imports Common_Lists Common_Paths Smem Ringbuffer Ipc_Mutex Ipc_Event Ipc_Mailbox Ipc_Mq_Steps Photo_View Ui_Keys Timer Mount_Init Dfs_Fd Scaner_Create
begin

text \<open>
  A verification library for the LVGL photo frame: an application of a few small C files
  (\<^verbatim>\<open>applications/\<close>) on the RT-Thread kernel (\<^verbatim>\<open>rt-thread/src/\<close>), for a single 32-bit CPU. The application
  scans a memory card for images in a worker thread, hands the list of images to the user interface thread over
  semaphores and a mutex, shows them one after the other on a timer, and switches between its views with keys that an interrupt handler
  sends through a message queue. Everything it does rests on the kernel's lists, string routines, heap, scheduler, IPC objects and timers, and on the
  device file system.

  \<^bold>\<open>The parts and where they are modelled\<close>

  \<^item> \<open>Prelude\<close>: the outcomes of C code. An operation is a function into \<open>cfault + 'a\<close>; a null or wild
    dereference, an access out of bounds and a failed \<open>RT_ASSERT\<close> are values \<open>Inl\<close>, so a theorem that an operation
    yields \<open>Inr\<close> says that none of these happens. \<open>cbind\<close> sequences outcomes. Fixed-width integers are words, or numbers with the
    wrap-around written out.
  \<^item> \<open>Klist\<close>: \<^verbatim>\<open>rtservice.h\<close>, the circular doubly linked lists on a store of next and prev fields. \<open>Common_Lists\<close> and
    \<open>Common_Paths\<close>: \<^verbatim>\<open>applications/common_utils.c\<close>. \<open>Kstring\<close>: the string and memory routines of \<^verbatim>\<open>kservice.c\<close> on byte arrays; \<open>Kprintf\<close>: its
    formatted printing into a buffer.
  \<^item> \<open>Smem\<close>: \<^verbatim>\<open>mem.c\<close>, the small memory allocator, as the headers in the heap with their offsets and flags, and its
    abstract view as a list of blocks. The locale \<open>allocator\<close> is the interface that clients of the heap
    rely on; it is interpreted on the code's model. \<open>Ringbuffer\<close>: \<^verbatim>\<open>ringbuffer.c\<close> with its mirrored indices.
  \<^item> \<open>Kernel\<close>: threads, the ready table with its bitmap, the scheduler and the thread timeouts (\<^verbatim>\<open>scheduler.c\<close>, \<^verbatim>\<open>thread.c\<close>,
    the find-first-set of \<^verbatim>\<open>kservice.c\<close>). A state holds the threads, the waiting lists and the locks; the step
    relations of the IPC theories interleave calls, resumed calls, timeouts and scheduling.
  \<^item> \<open>Ipc_Sem\<close>, \<open>Ipc_Mutex\<close>, \<open>Ipc_Event\<close>, \<open>Ipc_Mailbox\<close>, \<open>Ipc_Mq\<close>: \<^verbatim>\<open>ipc.c\<close>, each object with the operations that change it once it is initialised. A call that
    blocks is modelled in two parts, up to the point where the thread gives up the processor and, as \<open>..._resumed\<close>,
    from there on. \<open>Ipc_Queue\<close> holds the locale \<open>message_queue\<close>, the promise of a bounded queue with an urgent end, which
    \<open>Ipc_Mailbox\<close> and \<open>Ipc_Mq_Steps\<close> interpret; \<open>Ipc_Waiters\<close> holds what they share on waiting senders and receivers. The message queue copies messages with interrupts
    enabled, so in \<open>Ipc_Mq_Steps\<close> the parts of a call before and after the copy are steps of their own.
  \<^item> \<open>Timer\<close>: \<^verbatim>\<open>timer.c\<close>, the list of active timers in the order of their timeouts, on a 32-bit tick counter that wraps around, and the clock tick of \<^verbatim>\<open>clock.c\<close>.
  \<^item> \<open>App_Heap\<close>, \<open>Image_Node\<close>, \<open>Image_Scaner\<close>, \<open>Scaner_Work\<close>: the system heap as the application uses it (\<open>rt_malloc\<close>, \<open>rt_free\<close>, \<open>rt_calloc\<close>,
    \<open>rt_strdup\<close> on the model of \<^verbatim>\<open>mem.c\<close>), the image nodes of \<^verbatim>\<open>image_node.c\<close>, the recursive scan of
    \<^verbatim>\<open>image_scaner.c\<close>, and its worker thread with a client that triggers a scan, fetches the list and stops the worker, as a step relation. There the semaphores are
    counters of tokens and the mutex an owner, which is what \<open>Ipc_Sem\<close> and \<open>Ipc_Mutex\<close> promise. What the file systems answer is a parameter of the scan.
    \<open>Scaner_Create\<close>: creation, start and destruction of the scaner with the thread, the mutex and the semaphores it makes on the heap (\<^verbatim>\<open>object.c\<close>, \<^verbatim>\<open>thread.c\<close>, \<^verbatim>\<open>ipc.c\<close>,
    \<^verbatim>\<open>idle.c\<close>); how far the worker has got when it is stopped is a parameter of the destruction.
  \<^item> \<open>Kv_Config\<close>, \<open>Photo_View\<close>: the configuration store of \<^verbatim>\<open>kv_config.c\<close>, with the database behind it as a record of parameters, the slider of \<^verbatim>\<open>ui_config_view.c\<close>,
    and the slide show of \<^verbatim>\<open>ui_photo_view.c\<close> with its timer callback; the graphics library is seen through the image sources it is given.
  \<^item> \<open>Ui_Keys\<close>: the key matrix of \<^verbatim>\<open>main.c\<close> (scanning of the columns, the interrupt handler) and the thread of \<^verbatim>\<open>ui_thread_init.c\<close>, joined by the message queue and the
    mutex of the kernel model.
  \<^item> \<open>Dfs_Path\<close>, \<open>Dfs_Fs\<close>: the device file system (\<^verbatim>\<open>components/dfs/src\<close>): normalisation of paths in place in a heap block, the table of mounted file systems, mounting, unmounting, and
    opening and closing a file. The operations of a file system and the device calls are parameters: the fields of \<open>fsops\<close> and of \<open>devices\<close>.
    \<open>Dfs_Fd\<close>: the table of file descriptors with its reference counts, and the sections of \<open>open\<close>, \<open>close\<close> and the calls that use a descriptor as steps of the threads.
  \<^item> \<open>Mount_Init\<close>: \<^verbatim>\<open>applications/mnt.c\<close>, which mounts the root and makes the mount points with its own recursive \<open>mkdir_p\<close>; \<open>stat\<close> and \<open>mkdir\<close> are parameters.

  \<^bold>\<open>What the lemmas show\<close>

  \<^item> Data structures: the list, ring buffer, allocator and timer operations implement operations on sequences, on a bounded
    FIFO, on a list of blocks and on a set of countdowns (refinement), and keep their invariants; over every sequence of heap calls the blocks in
    use are disjoint and no assertion of the code fails.
  \<^item> Optimised routines: the word-wise copies and fills and the table-driven find-first-set equal their byte-wise or
    mathematical definitions; the in-place normalisation of a path equals the resolution of its list of components.
  \<^item> Concurrency: over every interleaving, semaphores conserve tokens, a mutex owner is at least as urgent as
    every waiting thread, events, mailboxes and message queues lose no wake-up, mailboxes and message queues deliver in order, and no block of a message queue is lost.
  \<^item> The application: joining and classifying paths, creating and destroying image nodes and scaners without a leak, the scan, which
    finds the images of a tree in order and releases its temporary blocks, the hand-over of the list between the threads, the slide show, the stored interval, and
    the views that follow the keys. The theorem below composes the scan, the hand-over and the slide show.
  \<^item> The file system layer: no interleaving of calls touches a released descriptor, the file system in charge of a path is that of the nearest mount point, opening hands it the path below, mounting and unmounting restore table and heap;
    \<open>mkdir_p\<close> returns 0 exactly when the directory exists afterwards, and the start-up mounts the root and makes its directories.
  \<^item> Behaviour that is not what the code means to do is stated as it is: the theorems on \<open>list_sort\<close>, a second \<open>list_move\<close>, \<open>rt_strncmp\<close>,
    \<open>rt_strnlen\<close>, \<open>rt_ringbuffer_peak\<close>, octal numbers, paths without a dot, paths above the root, lists of fewer than two images, keys of columns that are not scanned, two calls that close the same descriptor, a scaner whose semaphores cannot be created or whose worker is released early, periodic timers
    of period 0, the counter of the main loop, and requests at the limits of the allocator.

  \<^bold>\<open>Bounds and fuel\<close>

  Loops over lists and over the heap take a number of iterations. The theorems give a number that is enough (one more than the
  length of the list, \<open>smem_fuel\<close> for the heap, the depth of the directory tree for the scan, the number of active timers for a check of timers with positive period) or say that none is. The
  loops over strings and tables are total functions, with a termination measure where they are not structural. The
  allocator theorems hold for requests up to \<^term>\<open>2 ^ 32 - 4 :: nat\<close> bytes; above, the size wraps around, which has a theorem
  of its own. Paths of the device file system are bounded so that a block that holds one ends below \<^term>\<open>2 ^ 32 :: nat\<close>.

  \<^bold>\<open>Not modelled\<close>

  The graphics library, the file systems themselves, FlashDB and the other packages (third-party code), the board support and drivers
  (register access), console output, the creation and deletion of other kernel objects than threads, semaphores and mutexes,
  soft timers (not configured), signals, time slices and SMP. Of the device file system, the file operations that only hand on to the file system
  (read, write, stat, rename and so on), and the POSIX layer; of the application, the creation of the LVGL widgets
  and the shell commands for testing, which print.
\<close>



end
